(* ===== verification/Prelude.thy ===== *)
theory Prelude
  imports Main "HOL-Library.Word" "HOL-Library.Multiset"
begin

text \<open>
  Shared vocabulary of the development: machine integers at the widths the C sources use, the
  status codes of \<^verbatim>\<open>public/iridium/errors.h\<close>, the outcome type that makes a kernel panic, an
  invalid memory access and a loop that never ends visible as values, rules for what holds of the
  result of a sequence of steps (\<open>post\<close>), the store access used by
  every pointer-level component, the spinlock of \<^verbatim>\<open>kernel/spinlock.h\<close>, and the generic lemmas
  the components share.
\<close>

unbundle bit_operations_syntax

named_theorems outcome_simps \<open>unfolding sequential composition of outcomes\<close>
named_theorems status_simps \<open>status codes and their numeric values\<close>

section \<open>Machine integers and pointers\<close>

type_synonym u8 = "8 word"
type_synonym u16 = "16 word"
type_synonym u32 = "32 word"
type_synonym u64 = "64 word"

text \<open>Every pointer (\<^verbatim>\<open>void*\<close>, \<^verbatim>\<open>uintptr_t\<close>, \<^verbatim>\<open>v_addr_t\<close>, \<^verbatim>\<open>p_addr_t\<close>) is 64 bits wide.\<close>

type_synonym ptr = u64

abbreviation NULL :: ptr where
  "NULL \<equiv> 0"

text \<open>The value of a C \<^verbatim>\<open>int\<close> that a 64-bit result is converted to on return.\<close>

definition int_of_u64 :: "u64 \<Rightarrow> int" where
  "int_of_u64 x = sint (ucast x :: u32)"

section \<open>Status codes\<close>

datatype ir_status =
    IR_OK
  | IR_ERROR_UNSPECIFIED
  | IR_ERROR_UNSUPPORTED
  | IR_ERROR_BAD_HANDLE
  | IR_ERROR_WRONG_TYPE
  | IR_ERROR_NO_MEMORY
  | IR_ERROR_INVALID_ARGUMENTS
  | IR_ERROR_BUFFER_TOO_SMALL
  | IR_ERROR_ALREADY_EXISTS
  | IR_ERROR_NOT_FOUND
  | IR_ERROR_BAD_STATE
  | IR_ERROR_PEER_CLOSED
  | IR_ERROR_ACCESS_DENIED
  | IR_ERROR_TIMED_OUT
  | IR_ERROR_CANCLED

fun status_code :: "ir_status \<Rightarrow> int" where
  "status_code IR_OK = 0"
| "status_code IR_ERROR_UNSPECIFIED = -1"
| "status_code IR_ERROR_UNSUPPORTED = -2"
| "status_code IR_ERROR_BAD_HANDLE = -3"
| "status_code IR_ERROR_WRONG_TYPE = -4"
| "status_code IR_ERROR_NO_MEMORY = -5"
| "status_code IR_ERROR_INVALID_ARGUMENTS = -6"
| "status_code IR_ERROR_BUFFER_TOO_SMALL = -7"
| "status_code IR_ERROR_ALREADY_EXISTS = -8"
| "status_code IR_ERROR_NOT_FOUND = -9"
| "status_code IR_ERROR_BAD_STATE = -10"
| "status_code IR_ERROR_PEER_CLOSED = -11"
| "status_code IR_ERROR_ACCESS_DENIED = -12"
| "status_code IR_ERROR_TIMED_OUT = -13"
| "status_code IR_ERROR_CANCLED = -14"

section \<open>Outcomes\<close>

text \<open>
  What running a piece of kernel code can do: return a value, access memory through a pointer
  that refers to nothing the code owns (\<^term>\<open>Fault\<close>: a null dereference, a freed object, a cast
  to the wrong structure), stop the machine in \<^verbatim>\<open>panic\<close>, or never come back (\<^term>\<open>Hang\<close>: a
  spinlock that is already held, a loop over a cyclic list).
\<close>

datatype 'a outcome = Ret 'a | Fault | Panic | Hang

fun obind :: "'a outcome \<Rightarrow> ('a \<Rightarrow> 'b outcome) \<Rightarrow> 'b outcome" where
  "obind (Ret x) f = f x"
| "obind Fault f = Fault"
| "obind Panic f = Panic"
| "obind Hang f = Hang"

definition returns :: "'a outcome \<Rightarrow> bool" where
  "returns m \<longleftrightarrow> (\<exists>x. m = Ret x)"

text \<open>A loop written with \<^theory_text>\<open>partial_function\<close>: \<^term>\<open>None\<close> is a loop that never ends.\<close>

definition looped :: "'a outcome option \<Rightarrow> 'a outcome" where
  "looped r = (case r of None \<Rightarrow> Hang | Some m \<Rightarrow> m)"

text \<open>Dereferencing a pointer into a store of structures of one kind.\<close>

definition load :: "(ptr \<rightharpoonup> 'v) \<Rightarrow> ptr \<Rightarrow> 'v outcome" where
  "load m p = (case m p of None \<Rightarrow> Fault | Some v \<Rightarrow> Ret v)"

lemma obind_eq_Ret_conv [outcome_simps]:
  "obind m f = Ret y \<longleftrightarrow> (\<exists>x. m = Ret x \<and> f x = Ret y)"
  by (cases m) auto

lemma obind_assoc: "obind (obind m f) g = obind m (\<lambda>x. obind (f x) g)"
  by (cases m) auto

lemma obind_Ret_right [simp]: "obind m Ret = m"
  by (cases m) auto

lemma obind_cong [fundef_cong]:
  assumes "m = m'" and "\<And>x. m' = Ret x \<Longrightarrow> f x = g x"
  shows "obind m f = obind m' g"
  using assms by (cases m') auto

lemma load_Some [simp]: "m p = Some v \<Longrightarrow> load m p = Ret v"
  by (simp add: load_def)

lemma load_None [simp]: "m p = None \<Longrightarrow> load m p = Fault"
  by (simp add: load_def)

lemma load_eq_Ret_conv [outcome_simps]: "load m p = Ret v \<longleftrightarrow> m p = Some v"
  by (simp add: load_def split: option.splits)

lemma load_returns [simp]: "load m p \<noteq> Panic" "load m p \<noteq> Hang"
  by (simp_all add: load_def split: option.splits)

lemma looped_simps [simp]: "looped (Some m) = m" "looped None = Hang"
  by (simp_all add: looped_def)

lemma returns_simps [simp]:
  "returns (Ret x)" "\<not> returns Fault" "\<not> returns Panic" "\<not> returns Hang"
  by (simp_all add: returns_def)

lemma returns_obind: "returns (obind m f) \<longleftrightarrow> (\<exists>x. m = Ret x \<and> returns (f x))"
  by (cases m) auto

section \<open>Spinlocks\<close>

text \<open>
  A lock is its flag. The kernel runs on one processor with the lock holder never preempted while
  it waits for itself, so taking a lock whose flag is set spins for ever.
\<close>

type_synonym lock = bool

definition spinlock_aquire :: "lock \<Rightarrow> lock outcome" where
  "spinlock_aquire l = (if l then Hang else Ret True)"

definition spinlock_release :: "lock \<Rightarrow> lock" where
  "spinlock_release l = False"

lemma spinlock_aquire_simps [simp]:
  "spinlock_aquire True = Hang" "spinlock_aquire False = Ret True"
  by (simp_all add: spinlock_aquire_def)

lemma spinlock_release_simp [simp]: "spinlock_release l = False"
  by (simp add: spinlock_release_def)

section \<open>Generic lemmas\<close>

lemma status_code_inj [status_simps]: "status_code a = status_code b \<longleftrightarrow> a = b"
  by (cases a; cases b; simp)

lemma status_code_le_0 [status_simps]: "status_code a \<le> 0"
  by (cases a; simp)

lemma status_code_eq_0_iff [status_simps]: "status_code a = 0 \<longleftrightarrow> a = IR_OK"
  by (cases a; simp)

lemma unat_u64_less: "unat (x :: u64) < 2 ^ 64"
  by (rule order_less_le_trans [OF unsigned_less]) simp

lemma unat_u32_less: "unat (x :: u32) < 2 ^ 32"
  by (rule order_less_le_trans [OF unsigned_less]) simp

lemma unat_ucast_u32_u64 [simp]: "unat (ucast (i :: u32) :: u64) = unat i"
proof -
  have "unat i < 2 ^ 64"
    using unat_u32_less [of i] by simp
  then show ?thesis
    by (simp add: unsigned_ucast_eq take_bit_nat_eq_self_iff)
qed

lemma unat_of_nat_u64_mod: "unat (of_nat n :: u64) = n mod 2 ^ 64"
  by (simp add: unat_of_nat)

lemma unat_of_nat_u64: "n < 2 ^ 64 \<Longrightarrow> unat (of_nat n :: u64) = n"
  by (simp add: unat_of_nat take_bit_nat_eq_self_iff)

lemma of_nat_u64_eq_0_iff: "n < 2 ^ 64 \<Longrightarrow> (of_nat n :: u64) = 0 \<longleftrightarrow> n = 0"
  by (metis unat_of_nat_u64 unat_eq_zero of_nat_0)

section \<open>Counting loops\<close>

text \<open>A loop body run over a list of arguments, stopping at the first outcome that does not return.\<close>

fun ofold :: "('a \<Rightarrow> 's \<Rightarrow> 's outcome) \<Rightarrow> 'a list \<Rightarrow> 's \<Rightarrow> 's outcome" where
  "ofold body [] s = Ret s"
| "ofold body (x # xs) s = obind (body x s) (ofold body xs)"

text \<open>
  \<^verbatim>\<open>for (uint i = start; i < bound; i++)\<close> with a 64-bit bound: the counter is 32 bits wide and
  wraps, so a bound of \<open>2 ^ 32\<close> or more is never reached.
\<close>

partial_function (option) for_uint ::
  "(u32 \<Rightarrow> 's \<Rightarrow> 's outcome) \<Rightarrow> u64 \<Rightarrow> u32 \<Rightarrow> 's \<Rightarrow> 's outcome option" where
  "for_uint body bound i s =
     (if ucast i < bound then
        (case body i s of
           Ret s' \<Rightarrow> for_uint body bound (i + 1) s'
         | Fault \<Rightarrow> Some Fault
         | Panic \<Rightarrow> Some Panic
         | Hang \<Rightarrow> Some Hang)
      else Some (Ret s))"

declare for_uint.simps [code]

lemma ofold_append: "ofold body (xs @ ys) s = obind (ofold body xs s) (ofold body ys)"
  by (induction xs arbitrary: s) (auto simp: obind_assoc intro!: obind_cong)

lemma ofold_invariant:
  assumes "P [] s"
    and "\<And>us v ws t. xs = us @ v # ws \<Longrightarrow> P us t \<Longrightarrow> \<exists>t'. body v t = Ret t' \<and> P (us @ [v]) t'"
  shows "\<exists>t. ofold body xs s = Ret t \<and> P xs t"
proof -
  have "\<exists>t. ofold body vs s = Ret t \<and> P xs t" if "P us s" "xs = us @ vs" for us vs s
    using that
  proof (induction vs arbitrary: us s)
    case Nil
    then show ?case by simp
  next
    case (Cons v vs)
    then obtain t' where t': "body v s = Ret t'" "P (us @ [v]) t'"
      using assms(2) [of us v vs s] by auto
    with Cons.IH [of "us @ [v]" t'] Cons.prems show ?case by auto
  qed
  from this [of "[]" s xs] assms(1) show ?thesis by simp
qed

lemma unat_Suc_u32: "unat (i :: u32) < n \<Longrightarrow> n < 2 ^ 32 \<Longrightarrow> unat (i + 1) = Suc (unat i)"
proof -
  assume "unat i < n" "n < 2 ^ 32"
  then have "Suc (unat i) < 2 ^ 32"
    by linarith
  then show ?thesis
    by (simp add: unat_word_ariths)
qed

lemma of_nat_unat_u32 [simp]: "(of_nat (unat (i :: u32)) :: u32) = i"
  by simp

lemma unat_of_nat_u32: "n < 2 ^ 32 \<Longrightarrow> unat (of_nat n :: u32) = n"
  by (simp add: unat_of_nat take_bit_nat_eq_self_iff)

lemma ucast_of_nat_u32_u64: "n < 2 ^ 32 \<Longrightarrow> (ucast (of_nat n :: u32) :: u64) = of_nat n"
  by (rule word_unat_eq_iff [THEN iffD2]) (simp add: unat_of_nat_u32 unat_of_nat_u64)

lemma for_uint_ofold:
  assumes "unat bound < 2 ^ 32"
  shows "for_uint body bound i s = Some (ofold body (map of_nat [unat i..<unat bound]) s)"
proof (induction "unat bound - unat i" arbitrary: i s)
  case 0
  then show ?case
    by (subst for_uint.simps) (simp add: word_less_nat_alt)
next
  case (Suc n)
  then have lt: "unat i < unat bound"
    by simp
  then have suc: "unat (i + 1) = Suc (unat i)"
    using assms by (rule unat_Suc_u32)
  have split: "[unat i..<unat bound] = unat i # [unat (i + 1)..<unat bound]"
    using lt suc by (simp add: upt_conv_Cons)
  have n: "n = unat bound - unat (i + 1)"
    using Suc.hyps(2) suc by simp
  show ?case
    using lt Suc.hyps(1) [OF n]
    by (subst for_uint.simps) (auto simp: word_less_nat_alt split split: outcome.splits)
qed

section \<open>Lists\<close>

text \<open>Deleting one position of a list, the abstract effect of unlinking a node.\<close>

definition delete_at :: "nat \<Rightarrow> 'a list \<Rightarrow> 'a list" where
  "delete_at i xs = take i xs @ drop (Suc i) xs"

lemma length_delete_at [simp]: "i < length xs \<Longrightarrow> length (delete_at i xs) = length xs - 1"
  by (simp add: delete_at_def)

lemma delete_at_0 [simp]: "delete_at 0 (x # xs) = xs"
  by (simp add: delete_at_def)

lemma delete_at_0_tl: "delete_at 0 xs = tl xs"
  by (cases xs) (simp_all add: delete_at_def)

lemma delete_at_append [simp]: "delete_at (length as) (as @ b # bs) = as @ bs"
  by (simp add: delete_at_def)

lemma set_delete_at: "set (delete_at i xs) \<subseteq> set xs"
  by (auto simp: delete_at_def dest: in_set_takeD in_set_dropD)

lemma distinct_delete_at: "distinct xs \<Longrightarrow> distinct (delete_at i xs)"
  using set_take_disj_set_drop_if_distinct [of xs i "Suc i"] by (auto simp: delete_at_def)

lemma map_delete_at: "map f (delete_at i xs) = delete_at i (map f xs)"
  by (simp add: delete_at_def take_map drop_map)

text \<open>The position of the first match, the abstract result of a list search.\<close>

fun index_of :: "('a \<Rightarrow> bool) \<Rightarrow> 'a list \<Rightarrow> nat option" where
  "index_of P [] = None"
| "index_of P (x # xs) = (if P x then Some 0 else map_option Suc (index_of P xs))"

lemma index_of_None_iff: "index_of P xs = None \<longleftrightarrow> (\<forall>x \<in> set xs. \<not> P x)"
  by (induction xs) auto

lemma index_of_SomeD:
  "index_of P xs = Some i \<Longrightarrow> i < length xs \<and> P (xs ! i) \<and> (\<forall>j < i. \<not> P (xs ! j))"
proof (induction xs arbitrary: i)
  case Nil
  then show ?case by simp
next
  case (Cons x xs)
  then show ?case
    by (auto split: if_splits simp: less_Suc_eq_0_disj)
qed

text \<open>Inserting before the first larger element.\<close>

definition insert_before :: "('a \<Rightarrow> bool) \<Rightarrow> 'a \<Rightarrow> 'a list \<Rightarrow> 'a list" where
  "insert_before le x xs = takeWhile le xs @ x # dropWhile le xs"

lemma set_insert_before [simp]: "set (insert_before le x xs) = insert x (set xs)"
proof -
  have "set (takeWhile le xs) \<union> set (dropWhile le xs) = set xs"
    by (metis set_append takeWhile_dropWhile_id)
  then show ?thesis
    by (auto simp: insert_before_def)
qed

lemma length_insert_before [simp]: "length (insert_before le x xs) = Suc (length xs)"
proof -
  have "length (takeWhile le xs) + length (dropWhile le xs) = length xs"
    by (metis length_append takeWhile_dropWhile_id)
  then show ?thesis
    by (simp add: insert_before_def)
qed

lemma mset_insert_before: "mset (insert_before le x xs) = add_mset x (mset xs)"
proof -
  have "mset (takeWhile le xs) + mset (dropWhile le xs) = mset xs"
    by (metis mset_append takeWhile_dropWhile_id)
  then show ?thesis
    by (simp add: insert_before_def)
qed

lemma sorted_insert_before:
  fixes key :: "'a \<Rightarrow> 'k::linorder"
  assumes le: "\<And>y. y \<in> set xs \<Longrightarrow> le y \<longleftrightarrow> key y \<le> key x" and "sorted (map key xs)"
  shows "sorted (map key (insert_before le x xs))"
  using assms
proof (induction xs)
  case Nil
  then show ?case by (simp add: insert_before_def)
next
  case (Cons y ys)
  have IH: "sorted (map key (insert_before le x ys))"
    using Cons by simp
  show ?case
  proof (cases "le y")
    case True
    then have "insert_before le x (y # ys) = y # insert_before le x ys"
      by (simp add: insert_before_def)
    moreover have "key y \<le> key x"
      using True Cons.prems(1) by simp
    ultimately show ?thesis
      using IH Cons.prems(2) by auto
  next
    case False
    then have "insert_before le x (y # ys) = x # y # ys"
      by (simp add: insert_before_def)
    moreover have "key x \<le> key y"
      using False Cons.prems(1) by auto
    ultimately show ?thesis
      using Cons.prems(2) by fastforce
  qed
qed

section \<open>What holds of a result\<close>

text \<open>\<open>P\<close> holds of what \<open>m\<close> returns, if it returns.\<close>

definition post :: "'a outcome \<Rightarrow> ('a \<Rightarrow> bool) \<Rightarrow> bool" where
  "post m P \<longleftrightarrow> (\<forall>x. m = Ret x \<longrightarrow> P x)"

lemma post_Ret: "P x \<Longrightarrow> post (Ret x) P"
  by (simp add: post_def)

lemma post_fail [simp]: "post Fault P" "post Panic P" "post Hang P"
  by (simp_all add: post_def)

lemma post_obind: "post m Q \<Longrightarrow> (\<And>x. Q x \<Longrightarrow> post (f x) P) \<Longrightarrow> post (obind m f) P"
  by (cases m) (simp_all add: post_def)

lemma post_any: "(\<And>x. post (f x) P) \<Longrightarrow> post (obind m f) P"
  by (cases m) (simp_all add: post_def)

lemma post_if: "post a P \<Longrightarrow> post b P \<Longrightarrow> post (if c then a else b) P"
  by simp

lemma post_let: "post (f x) P \<Longrightarrow> post (let y = x in f y) P"
  by simp

lemma post_list: "post a P \<Longrightarrow> (\<And>x xs. post (b x xs) P) \<Longrightarrow> post (case ys of [] \<Rightarrow> a | x # xs \<Rightarrow> b x xs) P"
  by (cases ys) simp_all

lemma post_prod: "(\<And>x y. p = (x, y) \<Longrightarrow> post (f x y) P) \<Longrightarrow> post (case p of (x, y) \<Rightarrow> f x y) P"
  by (cases p) simp

end
