(* ===== verification/Align.thy ===== *)
theory Align
  imports Prelude
begin

text \<open>
  Address arithmetic: the constants of \<^verbatim>\<open>arch/defines.h\<close>, the rounding macros of \<^verbatim>\<open>align.h\<close>, the
  physical map of \<^verbatim>\<open>kernel/memory/vmem.c\<close> and the two pointer classifiers of
  \<^verbatim>\<open>arch/x86_64/main.c\<close>, all on 64-bit words, so that every wrap-around of the macros is a
  wrap-around of the model.
\<close>

section \<open>Constants\<close>

definition PAGE_SIZE :: u64 where
  [simp]: "PAGE_SIZE = 4096"

definition KERNEL_VIRTUAL_ADDRESS :: u64 where
  [simp]: "KERNEL_VIRTUAL_ADDRESS = 0xFFFFFFFF80000000"

definition KERNEL_MEMORY_BASE :: u64 where
  [simp]: "KERNEL_MEMORY_BASE = 0xFFFF800000000000"

definition KERNEL_MEMORY_LENGTH :: u64 where
  [simp]: "KERNEL_MEMORY_LENGTH = 0x800000000000"

definition USER_MEMORY_LENGTH :: u64 where
  [simp]: "USER_MEMORY_LENGTH = 0x800000000000"

definition PER_THREAD_KERNEL_STACK_SIZE :: u64 where
  [simp]: "PER_THREAD_KERNEL_STACK_SIZE = PAGE_SIZE * 3"

definition physical_map_base :: u64 where
  [simp]: "physical_map_base = 0xffff800000000000"

definition physical_map_length :: u64 where
  [simp]: "physical_map_length = 0x8000000000"

section \<open>Rounding\<close>

definition ROUND_UP :: "u64 \<Rightarrow> u64 \<Rightarrow> u64" where
  "ROUND_UP x multiple = x + (multiple - 1) - ((x - 1) mod multiple)"

definition ROUND_DOWN :: "u64 \<Rightarrow> u64 \<Rightarrow> u64" where
  "ROUND_DOWN x multiple = x - (x mod multiple)"

definition ROUND_UP_PAGE :: "u64 \<Rightarrow> u64" where
  "ROUND_UP_PAGE x = ROUND_UP x PAGE_SIZE"

definition ROUND_DOWN_PAGE :: "u64 \<Rightarrow> u64" where
  "ROUND_DOWN_PAGE x = x AND NOT (PAGE_SIZE - 1)"

section \<open>Physical map and pointer classification\<close>

definition physical_map_to_p_addr :: "u64 \<Rightarrow> u64" where
  "physical_map_to_p_addr addr = addr - physical_map_base"

definition p_addr_to_physical_map :: "u64 \<Rightarrow> u64" where
  "p_addr_to_physical_map addr = addr + physical_map_base"

definition arch_validate_user_pointer :: "ptr \<Rightarrow> bool" where
  "arch_validate_user_pointer p \<longleftrightarrow> p \<le> USER_MEMORY_LENGTH \<and> p \<ge> PAGE_SIZE"

definition arch_is_kernel_pointer :: "ptr \<Rightarrow> bool" where
  "arch_is_kernel_pointer p \<longleftrightarrow> p > USER_MEMORY_LENGTH"

section \<open>Rounding is rounding\<close>

lemma and_not_mask_eq_sub: "(x :: 'a::len word) AND NOT (mask n) = x - take_bit n x"
proof -
  have "(x AND NOT (mask n)) + take_bit n x = (x AND NOT (mask n)) OR take_bit n x"
    by (rule disjunctive_add_eq_or) (auto simp: bit_eq_iff bit_simps)
  also have "\<dots> = x"
    by (rule bit_word_eqI) (auto simp: bit_simps)
  finally show ?thesis
    by (simp add: eq_diff_eq)
qed

lemma take_bit_12_mod: "take_bit 12 (x :: u64) = x mod 4096"
  by (simp add: take_bit_eq_mod)

lemma unat_mod_4096: "unat ((x :: u64) mod 4096) = unat x mod 4096"
  by (simp add: unat_mod_distrib)

lemma unat_sub_mod_4096: "unat ((x :: u64) - x mod 4096) = unat x div 4096 * 4096"
proof -
  have "x mod 4096 \<le> x"
    by (simp add: word_le_nat_alt unat_mod_4096)
  then have "unat (x - x mod 4096) = unat x - unat x mod 4096"
    by (simp add: unat_sub unat_mod_4096)
  then show ?thesis
    by (simp add: minus_mod_eq_div_mult)
qed

lemma ROUND_DOWN_PAGE_eq_ROUND_DOWN: "ROUND_DOWN_PAGE x = ROUND_DOWN x PAGE_SIZE"
proof -
  have "(4095 :: u64) = mask 12"
    by (simp add: mask_eq_exp_minus_1)
  then show ?thesis
    unfolding ROUND_DOWN_PAGE_def ROUND_DOWN_def
    using and_not_mask_eq_sub [of x 12] by (simp add: take_bit_12_mod)
qed

lemma unat_ROUND_DOWN_PAGE: "unat (ROUND_DOWN_PAGE x) = unat x div 4096 * 4096"
  by (simp add: ROUND_DOWN_PAGE_eq_ROUND_DOWN ROUND_DOWN_def unat_sub_mod_4096)

lemma round_up_nat: "0 < n \<Longrightarrow> n + 4095 - (n - 1) mod 4096 = (n + 4095) div 4096 * (4096::nat)"
proof -
  assume "0 < n"
  then obtain m where n: "n = Suc m"
    by (cases n) auto
  have m: "m div 4096 * 4096 + m mod 4096 = m"
    by simp
  have d: "(m + 4096) div 4096 * 4096 = m div 4096 * 4096 + 4096"
    using div_add_self2 [of "4096::nat" m] by simp
  have "m + 4096 - m mod 4096 = m div 4096 * 4096 + 4096"
    using m by linarith
  with d show ?thesis
    using n by (simp add: add.commute)
qed

lemma unat_ROUND_UP_PAGE: "unat (ROUND_UP_PAGE x) = ((unat x + 4095) div 4096 * 4096) mod 2 ^ 64"
proof (cases "x = 0")
  case True
  then show ?thesis
    by (simp add: ROUND_UP_PAGE_def ROUND_UP_def)
next
  case False
  then have pos: "0 < unat x"
    by (simp add: unat_gt_0)
  have m: "unat ((x - 1) mod 4096) = (unat x - 1) mod 4096"
    using False by (simp add: unat_mod_4096 unat_minus_one)
  have "ROUND_UP_PAGE x = of_nat (unat x + 4095 - (unat x - 1) mod 4096)"
  proof -
    have "(x - 1) mod 4096 = of_nat (unat ((x - 1) mod 4096))"
      by simp
    then have "(x - 1) mod 4096 = of_nat ((unat x - 1) mod 4096)"
      by (simp only: m)
    moreover have "(unat x - 1) mod 4096 \<le> unat x + 4095"
      by (rule order_trans [of _ 4095]) (simp_all add: mod_le_divisor flip: less_Suc_eq_le)
    ultimately show ?thesis
      by (simp add: ROUND_UP_PAGE_def ROUND_UP_def of_nat_diff)
  qed
  then show ?thesis
    by (simp only: round_up_nat [OF pos] unat_of_nat_u64_mod)
qed

text \<open>Within \<open>4095\<close> of the top of the address space the macro wraps to zero.\<close>

lemma round_up_below_top:
  "n \<le> 2 ^ 64 - 4096 \<Longrightarrow> (n + 4095) div 4096 * 4096 < (2 ^ 64 :: nat)"
  by simp

lemma ROUND_UP_PAGE_no_wrap:
  "unat x \<le> 2 ^ 64 - 4096 \<Longrightarrow> unat (ROUND_UP_PAGE x) = (unat x + 4095) div 4096 * 4096"
  using round_up_below_top [of "unat x"] by (simp add: unat_ROUND_UP_PAGE)

lemma ROUND_UP_PAGE_bounds:
  assumes "unat x \<le> 2 ^ 64 - 4096"
  shows "4096 dvd unat (ROUND_UP_PAGE x)" and "unat x \<le> unat (ROUND_UP_PAGE x)"
    and "unat (ROUND_UP_PAGE x) < unat x + 4096"
  using ROUND_UP_PAGE_no_wrap [OF assms] by simp_all

lemma ROUND_UP_PAGE_wraps:
  assumes "2 ^ 64 - 4096 < unat x"
  shows "ROUND_UP_PAGE x = 0"
proof -
  have "unat x < 2 ^ 64"
    by (rule unat_u64_less)
  with assms have "(unat x + 4095) div 4096 = 2 ^ 52"
    by simp
  then have "unat (ROUND_UP_PAGE x) = 0"
    by (simp add: unat_ROUND_UP_PAGE)
  then show ?thesis
    by (simp add: unat_eq_zero)
qed

lemma ROUND_UP_PAGE_0 [simp]: "ROUND_UP_PAGE 0 = 0"
  by (simp add: ROUND_UP_PAGE_def ROUND_UP_def)

lemma ROUND_UP_PAGE_dvd: "4096 dvd unat (ROUND_UP_PAGE x)"
  by (cases "unat x \<le> 2 ^ 64 - 4096") (auto simp: ROUND_UP_PAGE_bounds ROUND_UP_PAGE_wraps)

lemma ROUND_DOWN_PAGE_bounds:
  "4096 dvd unat (ROUND_DOWN_PAGE x)" "unat (ROUND_DOWN_PAGE x) \<le> unat x"
  "unat x < unat (ROUND_DOWN_PAGE x) + 4096"
  by (simp_all add: unat_ROUND_DOWN_PAGE)

section \<open>Physical map and pointer classes\<close>

lemma physical_map_roundtrip [simp]:
  "physical_map_to_p_addr (p_addr_to_physical_map a) = a"
  "p_addr_to_physical_map (physical_map_to_p_addr a) = a"
  by (simp_all add: physical_map_to_p_addr_def p_addr_to_physical_map_def)

lemma user_pointer_not_kernel:
  "arch_validate_user_pointer p \<Longrightarrow> \<not> arch_is_kernel_pointer p \<and> p \<noteq> NULL"
  by (auto simp: arch_validate_user_pointer_def arch_is_kernel_pointer_def)

end
