(* ===== verification/Linked_List.thy ===== *)
theory Linked_List
  imports Prelude
begin

text \<open>
  The kernel's singly linked list (\<^verbatim>\<open>kernel/linked_list.c\<close>) at the level of its pointers: a heap
  maps node addresses to nodes, a list is its header (count, head, tail, lock). The address that
  \<^verbatim>\<open>malloc\<close> gives a new node is an argument; a null address is a failed allocation, which the
  code dereferences. The abstraction relation \<open>ll_rep\<close> ties a header and a heap to the list of
  stored values, every operation is proved to refine an operation on HOL lists and to leave all
  nodes of other lists alone, and the locale \<open>fifo\<close> states what the clients (run queue, message
  queues, free handle ids) rely on.
\<close>

section \<open>Data\<close>

record node =
  n_next :: ptr
  n_data :: ptr

record linked_list =
  ll_count :: u64
  ll_head :: ptr
  ll_tail :: ptr
  ll_lock :: lock

type_synonym node_heap = "ptr \<rightharpoonup> node"

type_synonym search_function = "ptr \<Rightarrow> ptr \<Rightarrow> int"

text \<open>A list header as \<^verbatim>\<open>calloc\<close> or static storage leaves it.\<close>

definition ll_empty :: linked_list where
  "ll_empty = \<lparr>ll_count = 0, ll_head = NULL, ll_tail = NULL, ll_lock = False\<rparr>"

section \<open>Operations\<close>

text \<open>The difference of the two addresses, converted to \<^verbatim>\<open>int\<close>.\<close>

definition default_search :: search_function where
  "default_search data target = int_of_u64 (data - target)"

definition search_or_default :: "search_function option \<Rightarrow> search_function" where
  "search_or_default f = (case f of None \<Rightarrow> default_search | Some g \<Rightarrow> g)"

definition linked_list_add ::
  "ptr \<Rightarrow> linked_list \<Rightarrow> ptr \<Rightarrow> node_heap \<Rightarrow> (ir_status \<times> linked_list \<times> node_heap) outcome" where
  "linked_list_add new_node list data h =
     obind (spinlock_aquire (ll_lock list)) (\<lambda>lk.
     let list = list\<lparr>ll_lock := lk\<rparr> in
     if new_node = NULL then Fault else
     let h = h(new_node \<mapsto> \<lparr>n_next = NULL, n_data = data\<rparr>) in
     obind (if ll_count list = 0
            then Ret (list\<lparr>ll_head := new_node, ll_tail := new_node\<rparr>, h)
            else obind (load h (ll_tail list)) (\<lambda>t.
                 Ret (list\<lparr>ll_tail := new_node\<rparr>, h(ll_tail list \<mapsto> t\<lparr>n_next := new_node\<rparr>))))
     (\<lambda>(list, h).
     Ret (IR_OK, list\<lparr>ll_count := ll_count list + 1, ll_lock := spinlock_release lk\<rparr>, h)))"

text \<open>The search of \<^verbatim>\<open>linked_list_add_sorted\<close>: the last node not larger and the first larger one.\<close>

partial_function (option) ll_seek ::
  "search_function \<Rightarrow> ptr \<Rightarrow> node_heap \<Rightarrow> ptr \<Rightarrow> ptr \<Rightarrow> (ptr \<times> ptr) outcome option" where
  "ll_seek f data h last_smaller first_larger =
     (if first_larger = NULL then Some (Ret (last_smaller, first_larger))
      else case h first_larger of
        None \<Rightarrow> Some Fault
      | Some n \<Rightarrow>
          if f (n_data n) data \<le> 0 then ll_seek f data h first_larger (n_next n)
          else Some (Ret (last_smaller, first_larger)))"

declare ll_seek.simps [code]

definition linked_list_add_sorted ::
  "ptr \<Rightarrow> linked_list \<Rightarrow> search_function option \<Rightarrow> ptr \<Rightarrow> node_heap \<Rightarrow>
     (ir_status \<times> linked_list \<times> node_heap) outcome" where
  "linked_list_add_sorted new_node list function data h =
     obind (spinlock_aquire (ll_lock list)) (\<lambda>lk.
     let list = list\<lparr>ll_lock := lk\<rparr> in
     obind (looped (ll_seek (search_or_default function) data h NULL (ll_head list)))
     (\<lambda>(last_smaller, first_larger).
     if new_node = NULL then Fault else
     let h = h(new_node \<mapsto> \<lparr>n_next = first_larger, n_data = data\<rparr>) in
     obind (if last_smaller = NULL
            then Ret (list\<lparr>ll_head := new_node\<rparr>, h)
            else obind (load h last_smaller) (\<lambda>p.
                 Ret (list, h(last_smaller \<mapsto> p\<lparr>n_next := new_node\<rparr>))))
     (\<lambda>(list, h).
     let list = (if first_larger = NULL then list\<lparr>ll_tail := new_node\<rparr> else list) in
     Ret (IR_OK, list\<lparr>ll_count := ll_count list + 1, ll_lock := spinlock_release lk\<rparr>, h))))"

text \<open>Following \<^verbatim>\<open>next\<close> a fixed number of times, remembering the node before.\<close>

fun ll_walk :: "nat \<Rightarrow> ptr \<Rightarrow> ptr \<Rightarrow> node_heap \<Rightarrow> (ptr \<times> ptr) outcome" where
  "ll_walk 0 previous node h = Ret (previous, node)"
| "ll_walk (Suc k) previous node h =
     obind (load h node) (\<lambda>n. ll_walk k node (n_next n) h)"

definition linked_list_get ::
  "linked_list \<Rightarrow> u32 \<Rightarrow> node_heap \<Rightarrow> (ir_status \<times> ptr option \<times> linked_list) outcome" where
  "linked_list_get list index h =
     obind (spinlock_aquire (ll_lock list)) (\<lambda>lk.
     let list = list\<lparr>ll_lock := lk\<rparr> in
     if ucast index \<ge> ll_count list
     then Ret (IR_ERROR_INVALID_ARGUMENTS, None, list\<lparr>ll_lock := spinlock_release lk\<rparr>)
     else obind (ll_walk (unat index) NULL (ll_head list) h) (\<lambda>(_, current).
          obind (load h current) (\<lambda>n.
          Ret (IR_OK, Some (n_data n), list\<lparr>ll_lock := spinlock_release lk\<rparr>))))"

text \<open>
  Taking a node out of the chain, the tail of both removing operations: relink the predecessor
  (or the head), move the tail pointer if the node was last, free the node, decrement the count.
\<close>

definition ll_unlink ::
  "bool \<Rightarrow> ptr \<Rightarrow> ptr \<Rightarrow> linked_list \<Rightarrow> node_heap \<Rightarrow> (linked_list \<times> node_heap) outcome" where
  "ll_unlink first previous node list h =
     obind (load h node) (\<lambda>n.
     obind (if first then Ret (list\<lparr>ll_head := n_next n\<rparr>, h)
            else obind (load h previous) (\<lambda>p.
                 Ret (list, h(previous \<mapsto> p\<lparr>n_next := n_next n\<rparr>))))
     (\<lambda>(list, h).
     let list = (if node = ll_tail list then list\<lparr>ll_tail := previous\<rparr> else list) in
     Ret (list\<lparr>ll_count := ll_count list - 1\<rparr>, h(node := None))))"

text \<open>The counting loop starts at one, so \<^verbatim>\<open>index - 1\<close> links are followed.\<close>

definition linked_list_remove ::
  "linked_list \<Rightarrow> u32 \<Rightarrow> node_heap \<Rightarrow>
     (ir_status \<times> ptr option \<times> linked_list \<times> node_heap) outcome" where
  "linked_list_remove list index h =
     obind (spinlock_aquire (ll_lock list)) (\<lambda>lk.
     let list = list\<lparr>ll_lock := lk\<rparr> in
     if ucast index \<ge> ll_count list
     then Ret (IR_ERROR_INVALID_ARGUMENTS, None, list\<lparr>ll_lock := spinlock_release lk\<rparr>, h)
     else obind (ll_walk (unat index - 1) NULL (ll_head list) h) (\<lambda>(previous, node).
          obind (load h node) (\<lambda>n.
          obind (ll_unlink (previous = NULL) previous node list h) (\<lambda>(list, h).
          Ret (IR_OK, Some (n_data n), list\<lparr>ll_lock := spinlock_release lk\<rparr>, h)))))"

text \<open>The search loop: remaining iterations, index, previous node, current node.\<close>

fun ll_find_loop ::
  "search_function \<Rightarrow> ptr \<Rightarrow> node_heap \<Rightarrow> nat \<Rightarrow> nat \<Rightarrow> ptr \<Rightarrow> ptr \<Rightarrow>
     (nat \<times> ptr \<times> ptr \<times> ptr) option outcome" where
  "ll_find_loop f target h 0 i previous node = Ret None"
| "ll_find_loop f target h (Suc k) i previous node =
     obind (load h node) (\<lambda>n.
     if f (n_data n) target = 0 then Ret (Some (i, previous, node, n_data n))
     else ll_find_loop f target h k (Suc i) node (n_next n))"

definition linked_list_find ::
  "linked_list \<Rightarrow> ptr \<Rightarrow> search_function option \<Rightarrow> node_heap \<Rightarrow>
     (ir_status \<times> (nat \<times> ptr) option \<times> linked_list) outcome" where
  "linked_list_find list target compare_to h =
     obind (spinlock_aquire (ll_lock list)) (\<lambda>lk.
     let list = list\<lparr>ll_lock := lk\<rparr> in
     obind (ll_find_loop (search_or_default compare_to) target h (unat (ll_count list)) 0 NULL
              (ll_head list)) (\<lambda>r.
     case r of
       Some (i, previous, node, data) \<Rightarrow>
         Ret (IR_OK, Some (i, data), list\<lparr>ll_lock := spinlock_release lk\<rparr>)
     | None \<Rightarrow> Ret (IR_ERROR_NOT_FOUND, None, list\<lparr>ll_lock := spinlock_release lk\<rparr>)))"

text \<open>A null list is an argument error; otherwise the first match is unlinked.\<close>

definition linked_list_find_and_remove ::
  "linked_list option \<Rightarrow> ptr \<Rightarrow> search_function option \<Rightarrow> node_heap \<Rightarrow>
     (ir_status \<times> ptr option \<times> linked_list option \<times> node_heap) outcome" where
  "linked_list_find_and_remove list_ptr target compare_to h =
     (case list_ptr of None \<Rightarrow> Ret (IR_ERROR_INVALID_ARGUMENTS, None, None, h)
      | Some list \<Rightarrow>
     obind (spinlock_aquire (ll_lock list)) (\<lambda>lk.
     let list = list\<lparr>ll_lock := lk\<rparr> in
     obind (ll_find_loop (search_or_default compare_to) target h (unat (ll_count list)) 0 NULL
              (ll_head list)) (\<lambda>r.
     case r of
       Some (i, previous, node, data) \<Rightarrow>
         obind (ll_unlink (i = 0) previous node list h) (\<lambda>(list, h).
         Ret (IR_OK, Some data, Some (list\<lparr>ll_lock := spinlock_release lk\<rparr>), h))
     | None \<Rightarrow> Ret (IR_ERROR_NOT_FOUND, None, Some (list\<lparr>ll_lock := spinlock_release lk\<rparr>), h))))"

partial_function (option) ll_free_chain :: "node_heap \<Rightarrow> ptr \<Rightarrow> node_heap outcome option" where
  "ll_free_chain h node =
     (if node = NULL then Some (Ret h)
      else case h node of
        None \<Rightarrow> Some Fault
      | Some n \<Rightarrow> ll_free_chain (h(node := None)) (n_next n))"

declare ll_free_chain.simps [code]

definition linked_list_destroy ::
  "linked_list \<Rightarrow> node_heap \<Rightarrow> (linked_list \<times> node_heap) outcome" where
  "linked_list_destroy list h =
     obind (looped (ll_free_chain h (ll_head list))) (\<lambda>h.
     Ret (list\<lparr>ll_count := 0, ll_head := NULL, ll_tail := NULL\<rparr>, h))"

section \<open>Chains of nodes\<close>

fun lseg :: "node_heap \<Rightarrow> ptr \<Rightarrow> ptr list \<Rightarrow> ptr \<Rightarrow> bool" where
  "lseg h p [] q \<longleftrightarrow> p = q"
| "lseg h p (a # as) q \<longleftrightarrow> p = a \<and> a \<noteq> NULL \<and>
     (case h a of None \<Rightarrow> False | Some n \<Rightarrow> lseg h (n_next n) as q)"

definition datas :: "node_heap \<Rightarrow> ptr list \<Rightarrow> ptr list" where
  "datas h ns = map (\<lambda>a. case h a of None \<Rightarrow> NULL | Some n \<Rightarrow> n_data n) ns"

text \<open>
  \<open>ll_rep h l ns xs\<close>: the unlocked list \<open>l\<close> occupies exactly the nodes \<open>ns\<close> of the heap \<open>h\<close> and
  stores \<open>xs\<close>. The length bound keeps the 32-bit loop counters of the code exact.
\<close>

definition ll_rep :: "node_heap \<Rightarrow> linked_list \<Rightarrow> ptr list \<Rightarrow> ptr list \<Rightarrow> bool" where
  "ll_rep h l ns xs \<longleftrightarrow>
     lseg h (ll_head l) ns NULL \<and> xs = datas h ns \<and> ll_count l = of_nat (length ns) \<and>
     length ns < 2 ^ 32 \<and> ll_tail l = (if ns = [] then NULL else last ns) \<and> \<not> ll_lock l"

lemma lseg_append: "lseg h p (as @ bs) q \<longleftrightarrow> (\<exists>r. lseg h p as r \<and> lseg h r bs q)"
  by (induction as arbitrary: p) (auto split: option.splits)

lemma lseg_upd [simp]: "a \<notin> set ns \<Longrightarrow> lseg (h(a := v)) p ns q = lseg h p ns q"
  by (induction ns arbitrary: p) (auto split: option.splits)

lemma lseg_cong: "(\<And>a. a \<in> set ns \<Longrightarrow> h a = h' a) \<Longrightarrow> lseg h p ns q = lseg h' p ns q"
  by (induction ns arbitrary: p) (auto split: option.splits)

lemma lseg_nonnull: "lseg h p ns q \<Longrightarrow> NULL \<notin> set ns"
  by (induction ns arbitrary: p) (auto split: option.splits)

lemma lseg_dom: "lseg h p ns q \<Longrightarrow> set ns \<subseteq> dom h"
  by (induction ns arbitrary: p) (auto split: option.splits)

lemma lseg_NULL_start [simp]: "lseg h NULL ns q \<longleftrightarrow> ns = [] \<and> q = NULL"
  by (cases ns) auto

lemma lseg_unique: "lseg h p as NULL \<Longrightarrow> lseg h p bs NULL \<Longrightarrow> as = bs"
proof (induction as arbitrary: p bs)
  case Nil
  then show ?case by simp
next
  case (Cons a as)
  then show ?case by (cases bs) (auto split: option.splits)
qed

lemma lseg_distinct: "lseg h p ns NULL \<Longrightarrow> distinct ns"
proof (induction ns arbitrary: p)
  case Nil
  then show ?case by simp
next
  case (Cons a as)
  then obtain n where n: "h a = Some n" and seg: "lseg h (n_next n) as NULL"
    by (auto split: option.splits)
  have "a \<notin> set as"
  proof
    assume "a \<in> set as"
    then obtain us vs where as: "as = us @ a # vs"
      by (auto simp: in_set_conv_decomp)
    with seg have "lseg h a (a # vs) NULL"
      by (auto simp: lseg_append)
    moreover from Cons.prems have "lseg h a (a # as) NULL"
      by auto
    ultimately have "a # vs = a # as"
      by (rule lseg_unique)
    with as show False by simp
  qed
  with seg Cons.IH show ?case by auto
qed

lemma datas_append [simp]: "datas h (as @ bs) = datas h as @ datas h bs"
  by (simp add: datas_def)

lemma datas_Nil [simp]: "datas h [] = []"
  by (simp add: datas_def)

lemma datas_Cons [simp]:
  "datas h (a # as) = (case h a of None \<Rightarrow> NULL | Some n \<Rightarrow> n_data n) # datas h as"
  by (simp add: datas_def)

lemma length_datas [simp]: "length (datas h ns) = length ns"
  by (simp add: datas_def)

lemma datas_upd [simp]: "a \<notin> set ns \<Longrightarrow> datas (h(a := v)) ns = datas h ns"
  by (auto simp: datas_def)

lemma datas_upd_same_data:
  "h a = Some n \<Longrightarrow> n_data m = n_data n \<Longrightarrow> datas (h(a \<mapsto> m)) ns = datas h ns"
  by (auto simp: datas_def split: option.splits)

lemma datas_cong: "(\<And>a. a \<in> set ns \<Longrightarrow> h a = h' a) \<Longrightarrow> datas h ns = datas h' ns"
  by (auto simp: datas_def)

lemma ll_rep_empty: "ll_rep h ll_empty [] []"
  by (simp add: ll_rep_def ll_empty_def)

lemma ll_rep_frame: "ll_rep h l ns xs \<Longrightarrow> (\<And>a. a \<in> set ns \<Longrightarrow> h' a = h a) \<Longrightarrow> ll_rep h' l ns xs"
  using lseg_cong [of ns h h'] datas_cong [of ns h h'] by (auto simp: ll_rep_def)

lemma ll_rep_length: "ll_rep h l ns xs \<Longrightarrow> length xs = length ns"
  by (simp add: ll_rep_def)

lemma ll_rep_count: "ll_rep h l ns xs \<Longrightarrow> unat (ll_count l) = length ns"
  by (simp add: ll_rep_def unat_of_nat_u64)

lemma ll_rep_unlocked: "ll_rep h l ns xs \<Longrightarrow> \<not> ll_lock l"
  by (simp add: ll_rep_def)

lemma ll_rep_distinct: "ll_rep h l ns xs \<Longrightarrow> distinct ns"
  by (auto simp: ll_rep_def dest: lseg_distinct)

lemma ll_rep_dom: "ll_rep h l ns xs \<Longrightarrow> set ns \<subseteq> dom h"
  by (auto simp: ll_rep_def dest: lseg_dom)

section \<open>Refinement to lists of values\<close>

lemma ll_index_ok: "ll_rep h l ns xs \<Longrightarrow> ll_count l \<le> ucast (i :: u32) \<longleftrightarrow> length xs \<le> unat i"
  by (simp add: word_le_nat_alt ll_rep_count ll_rep_length)

lemma ll_count_0_iff: "ll_rep h l ns xs \<Longrightarrow> ll_count l = 0 \<longleftrightarrow> ns = []"
  by (auto simp: ll_rep_def of_nat_u64_eq_0_iff)

lemma lseg_splitD:
  assumes "lseg h p (as @ b # bs) q"
  obtains n where "h b = Some n" "lseg h p as b" "lseg h (n_next n) bs q"
  using assms by (auto simp: lseg_append split: option.splits)

lemma ll_walk_lseg:
  "lseg h p (as @ b # bs) q \<Longrightarrow>
     ll_walk (length as) previous p h = Ret (if as = [] then previous else last as, b)"
proof (induction as arbitrary: p previous)
  case Nil
  then show ?case by simp
next
  case (Cons a as)
  then show ?case by (auto split: option.splits)
qed

lemma linked_list_get_refine:
  assumes rep: "ll_rep h l ns xs"
  shows "linked_list_get l i h =
    Ret (if unat i < length xs then (IR_OK, Some (xs ! unat i), l)
         else (IR_ERROR_INVALID_ARGUMENTS, None, l))"
proof -
  have lk: "\<not> ll_lock l" and l: "l\<lparr>ll_lock := False\<rparr> = l"
    using rep by (auto simp: ll_rep_def)
  show ?thesis
  proof (cases "unat i < length xs")
    case False
    then show ?thesis
      using lk l ll_index_ok [OF rep, of i] by (simp add: linked_list_get_def)
  next
    case True
    have len: "length xs = length ns"
      using rep by (rule ll_rep_length)
    define as b bs where "as = take (unat i) ns" and "b = ns ! unat i" and "bs = drop (Suc (unat i)) ns"
    have ns: "ns = as @ b # bs" and las: "length as = unat i"
      using True len by (simp_all add: as_def b_def bs_def id_take_nth_drop)
    obtain n where n: "h b = Some n"
      using rep ns by (auto simp: ll_rep_def elim: lseg_splitD)
    have "xs ! unat i = n_data n"
      using rep n ns las by (simp add: ll_rep_def nth_append)
    moreover have "ll_walk (unat i) NULL (ll_head l) h = Ret (if as = [] then NULL else last as, b)"
      using rep ns las ll_walk_lseg [of h "ll_head l" as b bs NULL NULL] by (simp add: ll_rep_def)
    ultimately show ?thesis
      using lk l True n ll_index_ok [OF rep, of i] by (simp add: linked_list_get_def)
  qed
qed

text \<open>Unlinking a node of a represented list.\<close>

lemma ll_unlink_rep:
  assumes seg: "lseg h (ll_head l) (as @ b # bs) NULL"
    and count: "ll_count l = of_nat (length (as @ b # bs))"
    and tail: "ll_tail l = last (as @ b # bs)" and len: "length (as @ b # bs) < 2 ^ 32"
    and first: "first \<longleftrightarrow> as = []" and prev: "previous = (if as = [] then NULL else last as)"
  obtains l' h' where "ll_unlink first previous b l h = Ret (l', h')"
    and "ll_rep h' (l'\<lparr>ll_lock := False\<rparr>) (as @ bs) (datas h (as @ bs))"
    and "\<And>a. a \<notin> set (as @ b # bs) \<Longrightarrow> h' a = h a"
    and "ll_lock l' = ll_lock l" and "h' b = None"
proof -
  have dist: "distinct (as @ b # bs)"
    using seg by (rule lseg_distinct)
  obtain n where n: "h b = Some n" and sas: "lseg h (ll_head l) as b"
    and sbs: "lseg h (n_next n) bs NULL"
    using seg by (rule lseg_splitD)
  have cnt: "ll_count l - 1 = of_nat (length (as @ bs))"
    using count by simp
  show thesis
  proof (cases as rule: rev_cases)
    case Nil
    let ?l = "l\<lparr>ll_head := n_next n, ll_tail := (if b = ll_tail l then NULL else ll_tail l),
                ll_count := ll_count l - 1\<rparr>"
    have "ll_unlink first previous b l h = Ret (?l, h(b := None))"
      using Nil first prev n by (simp add: ll_unlink_def)
    moreover have "ll_rep (h(b := None)) (?l\<lparr>ll_lock := False\<rparr>) (as @ bs) (datas h (as @ bs))"
      using Nil sbs dist cnt tail len by (auto simp: ll_rep_def)
    ultimately show thesis
      using Nil by (intro that [of ?l "h(b := None)"]) auto
  next
    case (snoc cs a)
    then obtain p where p: "h a = Some p" and scs: "lseg h (ll_head l) cs a" and pn: "n_next p = b"
      and a0: "a \<noteq> NULL"
      using sas by (auto simp: lseg_append split: option.splits)
    have ab: "a \<noteq> b" and nin: "a \<notin> set cs" "b \<notin> set cs" "a \<notin> set bs" "b \<notin> set bs"
      using dist snoc by auto
    let ?h = "h(a \<mapsto> p\<lparr>n_next := n_next n\<rparr>, b := None)"
    let ?l = "l\<lparr>ll_tail := (if b = ll_tail l then a else ll_tail l), ll_count := ll_count l - 1\<rparr>"
    have "ll_unlink first previous b l h = Ret (?l, ?h)"
      using snoc first prev n p by (simp add: ll_unlink_def)
    moreover have "ll_rep ?h (?l\<lparr>ll_lock := False\<rparr>) (as @ bs) (datas h (as @ bs))"
      using snoc scs sbs p ab nin a0 cnt tail len by (auto simp: ll_rep_def lseg_append)
    ultimately show thesis
      using snoc by (intro that [of ?l ?h]) auto
  qed
qed

lemma linked_list_remove_refine:
  assumes rep: "ll_rep h l ns xs" and i: "unat i < length xs"
  obtains l' h' where
    "linked_list_remove l i h = Ret (IR_OK, Some (xs ! (unat i - 1)), l', h')"
    and "ll_rep h' l' (delete_at (unat i - 1) ns) (delete_at (unat i - 1) xs)"
    and "\<And>a. a \<notin> set ns \<Longrightarrow> h' a = h a"
proof -
  let ?k = "unat i - 1"
  have len: "length xs = length ns"
    using rep by (rule ll_rep_length)
  define as b bs where "as = take ?k ns" and "b = ns ! ?k" and "bs = drop (Suc ?k) ns"
  have ns: "ns = as @ b # bs" and las: "length as = ?k"
    using i len by (simp_all add: as_def b_def bs_def id_take_nth_drop)
  have del: "delete_at ?k ns = as @ bs" and delx: "delete_at ?k xs = datas h (as @ bs)"
    using rep by (simp_all add: delete_at_def as_def bs_def ll_rep_def datas_def take_map drop_map)
  let ?l = "l\<lparr>ll_lock := True\<rparr>"
  have seg: "lseg h (ll_head ?l) (as @ b # bs) NULL"
    and cnt: "ll_count ?l = of_nat (length (as @ b # bs))"
    and tail: "ll_tail ?l = last (as @ b # bs)" and lt: "length (as @ b # bs) < 2 ^ 32"
    using rep ns by (auto simp: ll_rep_def)
  let ?prev = "if as = [] then NULL else last as"
  have prev0: "?prev = NULL \<longleftrightarrow> as = []"
    using lseg_nonnull [OF seg] by (cases as rule: rev_cases) auto
  obtain n where n: "h b = Some n"
    using seg by (rule lseg_splitD)
  obtain l' h' where u: "ll_unlink (?prev = NULL) ?prev b ?l h = Ret (l', h')"
    and r: "ll_rep h' (l'\<lparr>ll_lock := False\<rparr>) (as @ bs) (datas h (as @ bs))"
    and fr: "\<And>a. a \<notin> set (as @ b # bs) \<Longrightarrow> h' a = h a"
    using ll_unlink_rep [OF seg cnt tail lt prev0 refl] by blast
  have "xs ! ?k = n_data n"
    using rep n ns las by (simp add: ll_rep_def nth_append)
  moreover have "ll_walk ?k NULL (ll_head l) h = Ret (?prev, b)"
    using ll_walk_lseg [OF seg, of NULL] las by simp
  moreover have "\<not> ll_lock l" "\<not> ll_count l \<le> ucast i"
    using rep i ll_index_ok [OF rep, of i] by (simp_all add: ll_rep_def)
  ultimately have "linked_list_remove l i h = Ret (IR_OK, Some (xs ! ?k), l'\<lparr>ll_lock := False\<rparr>, h')"
    using u n by (simp add: linked_list_remove_def)
  then show thesis
    using r fr ns del delx by (intro that [of "l'\<lparr>ll_lock := False\<rparr>" h']) auto
qed

lemma linked_list_remove_out_of_range:
  assumes "ll_rep h l ns xs" and "length xs \<le> unat i"
  shows "linked_list_remove l i h = Ret (IR_ERROR_INVALID_ARGUMENTS, None, l, h)"
proof -
  have "l\<lparr>ll_lock := False\<rparr> = l" "\<not> ll_lock l"
    using assms(1) by (auto simp: ll_rep_def)
  then show ?thesis
    using assms(2) ll_index_ok [OF assms(1), of i] by (simp add: linked_list_remove_def)
qed

lemma linked_list_add_refine:
  assumes rep: "ll_rep h l ns xs" and new: "new \<noteq> NULL" "new \<notin> set ns"
    and room: "length ns + 1 < 2 ^ 32"
  obtains l' h' where "linked_list_add new l d h = Ret (IR_OK, l', h')"
    and "ll_rep h' l' (ns @ [new]) (xs @ [d])"
    and "\<And>a. a \<notin> set ns \<Longrightarrow> a \<noteq> new \<Longrightarrow> h' a = h a"
proof (cases ns rule: rev_cases)
  case Nil
  let ?h = "h(new \<mapsto> \<lparr>n_next = NULL, n_data = d\<rparr>)"
  let ?l = "l\<lparr>ll_head := new, ll_tail := new, ll_count := 1, ll_lock := False\<rparr>"
  have "linked_list_add new l d h = Ret (IR_OK, ?l, ?h)"
    using rep new Nil by (simp add: linked_list_add_def ll_rep_def)
  moreover have "ll_rep ?h ?l (ns @ [new]) (xs @ [d])"
    using rep new Nil by (simp add: ll_rep_def)
  ultimately show thesis
    using that [of ?l ?h] by simp
next
  case (snoc as a)
  have seg: "lseg h (ll_head l) (as @ [a]) NULL" and ta: "ll_tail l = a" and lk: "\<not> ll_lock l"
    using rep snoc by (auto simp: ll_rep_def)
  obtain t where t: "h a = Some t" and sas: "lseg h (ll_head l) as a"
    using seg by (rule lseg_splitD)
  have a0: "a \<noteq> NULL" and aas: "a \<notin> set as" and na: "new \<noteq> a" "new \<notin> set as"
    using lseg_nonnull [OF seg] lseg_distinct [OF seg] new snoc by auto
  have c0: "ll_count l \<noteq> 0"
    using ll_count_0_iff [OF rep] snoc by simp
  let ?h = "h(new \<mapsto> \<lparr>n_next = NULL, n_data = d\<rparr>, a \<mapsto> t\<lparr>n_next := new\<rparr>)"
  let ?l = "l\<lparr>ll_tail := new, ll_count := ll_count l + 1, ll_lock := False\<rparr>"
  have "linked_list_add new l d h = Ret (IR_OK, ?l, ?h)"
    using lk new c0 ta t na by (simp add: linked_list_add_def)
  moreover have "ll_rep ?h ?l (ns @ [new]) (xs @ [d])"
    using rep snoc sas new na a0 aas t room by (auto simp: ll_rep_def lseg_append)
  ultimately show thesis
    using that [of ?l ?h] snoc by simp
qed

lemma ll_find_loop_lseg:
  "lseg h p ns NULL \<Longrightarrow>
     ll_find_loop f t h (length ns) i previous p =
       Ret (case index_of (\<lambda>x. f x t = 0) (datas h ns) of None \<Rightarrow> None
            | Some k \<Rightarrow> Some (i + k, if k = 0 then previous else ns ! (k - 1), ns ! k, datas h ns ! k))"
proof (induction ns arbitrary: p i previous)
  case Nil
  then show ?case by simp
next
  case (Cons a as)
  then obtain n where n: "h a = Some n" and seg: "lseg h (n_next n) as NULL" and pa: "p = a"
    by (auto split: option.splits)
  show ?case
  proof (cases "f (n_data n) t = 0")
    case True
    then show ?thesis using n pa by simp
  next
    case False
    then show ?thesis
      using n pa Cons.IH [OF seg, of "Suc i" a]
      by (auto simp: nth_Cons' split: option.splits)
  qed
qed

lemma linked_list_find_refine:
  assumes rep: "ll_rep h l ns xs"
  shows "linked_list_find l t f h =
    Ret (case index_of (\<lambda>x. search_or_default f x t = 0) xs of
           None \<Rightarrow> (IR_ERROR_NOT_FOUND, None, l)
         | Some k \<Rightarrow> (IR_OK, Some (k, xs ! k), l))"
proof -
  have "\<not> ll_lock l" "l\<lparr>ll_lock := False\<rparr> = l" "lseg h (ll_head l) ns NULL" "xs = datas h ns"
    using rep by (auto simp: ll_rep_def)
  then show ?thesis
    using ll_find_loop_lseg [of h "ll_head l" ns "search_or_default f" t 0 NULL]
    by (simp add: linked_list_find_def ll_rep_count [OF rep] split: option.splits)
qed

lemma linked_list_find_and_remove_refine:
  assumes rep: "ll_rep h l ns xs" and k: "index_of (\<lambda>x. search_or_default f x t = 0) xs = Some k"
  obtains l' h' where
    "linked_list_find_and_remove (Some l) t f h = Ret (IR_OK, Some (xs ! k), Some l', h')"
    and "ll_rep h' l' (delete_at k ns) (delete_at k xs)"
    and "\<And>a. a \<notin> set ns \<Longrightarrow> h' a = h a"
proof -
  have len: "length xs = length ns" and xs: "xs = datas h ns"
    using rep by (auto simp: ll_rep_def)
  have klt: "k < length ns"
    using index_of_SomeD [OF k] len by simp
  define as b bs where "as = take k ns" and "b = ns ! k" and "bs = drop (Suc k) ns"
  have ns: "ns = as @ b # bs" and las: "length as = k"
    using klt by (simp_all add: as_def b_def bs_def id_take_nth_drop)
  have del: "delete_at k ns = as @ bs" and delx: "delete_at k xs = datas h (as @ bs)"
    using rep by (simp_all add: delete_at_def as_def bs_def ll_rep_def datas_def take_map drop_map)
  let ?l = "l\<lparr>ll_lock := True\<rparr>"
  have seg: "lseg h (ll_head ?l) (as @ b # bs) NULL"
    and cnt: "ll_count ?l = of_nat (length (as @ b # bs))"
    and tail: "ll_tail ?l = last (as @ b # bs)" and lt: "length (as @ b # bs) < 2 ^ 32"
    using rep ns by (auto simp: ll_rep_def)
  have prev: "(if k = 0 then NULL else ns ! (k - 1)) = (if as = [] then NULL else last as)"
    using las ns by (auto simp: last_conv_nth nth_append)
  have first: "k = 0 \<longleftrightarrow> as = []"
    using las by auto
  obtain l' h' where u: "ll_unlink (k = 0) (if k = 0 then NULL else ns ! (k - 1)) b ?l h = Ret (l', h')"
    and r: "ll_rep h' (l'\<lparr>ll_lock := False\<rparr>) (as @ bs) (datas h (as @ bs))"
    and fr: "\<And>a. a \<notin> set (as @ b # bs) \<Longrightarrow> h' a = h a"
    using ll_unlink_rep [OF seg cnt tail lt first prev] by blast
  have "ll_find_loop (search_or_default f) t h (length ns) 0 NULL (ll_head l)
        = Ret (Some (k, if k = 0 then NULL else ns ! (k - 1), b, xs ! k))"
    using ll_find_loop_lseg [of h "ll_head l" ns "search_or_default f" t 0 NULL] rep k xs
    by (simp add: ll_rep_def b_def)
  then have "linked_list_find_and_remove (Some l) t f h
      = Ret (IR_OK, Some (xs ! k), Some (l'\<lparr>ll_lock := False\<rparr>), h')"
    using u ll_rep_unlocked [OF rep]
    by (simp add: linked_list_find_and_remove_def ll_rep_count [OF rep])
  then show thesis
    using r fr ns del delx by (intro that [of "l'\<lparr>ll_lock := False\<rparr>" h']) auto
qed

lemma linked_list_find_and_remove_not_found:
  assumes rep: "ll_rep h l ns xs" and none: "index_of (\<lambda>x. search_or_default f x t = 0) xs = None"
  shows "linked_list_find_and_remove (Some l) t f h = Ret (IR_ERROR_NOT_FOUND, None, Some l, h)"
proof -
  have "\<not> ll_lock l" "l\<lparr>ll_lock := False\<rparr> = l" "lseg h (ll_head l) ns NULL" "xs = datas h ns"
    using rep by (auto simp: ll_rep_def)
  then show ?thesis
    using none ll_find_loop_lseg [of h "ll_head l" ns "search_or_default f" t 0 NULL]
    by (simp add: linked_list_find_and_remove_def ll_rep_count [OF rep])
qed

lemma ll_seek_lseg:
  "lseg h p ns NULL \<Longrightarrow>
     (let k = length (takeWhile (\<lambda>y. f y x \<le> 0) (datas h ns)) in
      ll_seek f x h previous p =
        Some (Ret (if k = 0 then previous else ns ! (k - 1), if k < length ns then ns ! k else NULL)))"
proof (induction ns arbitrary: p previous)
  case Nil
  then show ?case by (simp add: ll_seek.simps)
next
  case (Cons a as)
  then obtain n where n: "h a = Some n" and seg: "lseg h (n_next n) as NULL" and pa: "p = a"
    and a0: "a \<noteq> NULL"
    by (auto split: option.splits)
  show ?case
  proof (cases "f (n_data n) x \<le> 0")
    case False
    then show ?thesis using n pa a0 by (simp add: ll_seek.simps)
  next
    case True
    then have "ll_seek f x h previous p = ll_seek f x h a (n_next n)"
      using n a0 unfolding pa by (subst ll_seek.simps) simp
    then show ?thesis
      using n pa True Cons.IH [OF seg, of a] by (auto simp: Let_def nth_Cons')
  qed
qed

text \<open>Splicing a node between two halves of a represented list.\<close>

lemma ll_splice_rep:
  assumes seg: "lseg h hd0 (as @ bs) NULL" and new: "new \<noteq> NULL" "new \<notin> set (as @ bs)"
    and first: "first = (if bs = [] then NULL else hd bs)"
    and a: "as = cs @ [a]" and p: "h a = Some p"
  shows "lseg (h(new \<mapsto> \<lparr>n_next = first, n_data = x\<rparr>, a \<mapsto> p\<lparr>n_next := new\<rparr>)) hd0 (as @ new # bs) NULL"
    and "datas (h(new \<mapsto> \<lparr>n_next = first, n_data = x\<rparr>, a \<mapsto> p\<lparr>n_next := new\<rparr>)) (as @ new # bs)
         = datas h as @ x # datas h bs"
proof -
  have dist: "distinct (as @ bs)"
    using seg by (rule lseg_distinct)
  have scs: "lseg h hd0 cs a" and sbs: "lseg h first bs NULL" and a0: "a \<noteq> NULL"
    using seg a p first by (cases bs; auto simp: lseg_append)+
  have nin: "a \<notin> set cs" "a \<notin> set bs" "new \<notin> set cs" "new \<notin> set bs" "new \<noteq> a"
    using dist a new by auto
  show "lseg (h(new \<mapsto> \<lparr>n_next = first, n_data = x\<rparr>, a \<mapsto> p\<lparr>n_next := new\<rparr>)) hd0 (as @ new # bs) NULL"
    using a scs sbs nin a0 new by (auto simp: lseg_append)
  show "datas (h(new \<mapsto> \<lparr>n_next = first, n_data = x\<rparr>, a \<mapsto> p\<lparr>n_next := new\<rparr>)) (as @ new # bs)
         = datas h as @ x # datas h bs"
    using a nin p by simp
qed

lemma linked_list_add_sorted_refine:
  assumes rep: "ll_rep h l ns xs" and new: "new \<noteq> NULL" "new \<notin> set ns"
    and room: "length ns + 1 < 2 ^ 32"
  obtains l' h' ns' where "linked_list_add_sorted new l f d h = Ret (IR_OK, l', h')"
    and "ll_rep h' l' ns' (insert_before (\<lambda>y. search_or_default f y d \<le> 0) d xs)"
    and "set ns' = insert new (set ns)"
    and "\<And>a. a \<notin> set ns \<Longrightarrow> a \<noteq> new \<Longrightarrow> h' a = h a"
proof -
  let ?le = "\<lambda>y. search_or_default f y d \<le> 0"
  let ?k = "length (takeWhile ?le xs)"
  define as bs where "as = take ?k ns" and "bs = drop ?k ns"
  have len: "length xs = length ns" and xs: "xs = datas h ns"
    using rep by (auto simp: ll_rep_def)
  have kle: "?k \<le> length ns"
    using length_takeWhile_le [of ?le xs] len by simp
  have ns: "ns = as @ bs" and las: "length as = ?k"
    using kle by (simp_all add: as_def bs_def)
  have "take ?k xs = datas h as" and "drop ?k xs = datas h bs"
    by (simp_all add: xs as_def bs_def datas_def take_map drop_map)
  then have tw: "takeWhile ?le xs = datas h as" and dw: "dropWhile ?le xs = datas h bs"
    by (metis takeWhile_eq_take, metis dropWhile_eq_drop)
  have target: "insert_before ?le d xs = datas h as @ d # datas h bs"
    using tw dw by (simp add: insert_before_def)
  define first where "first = (if bs = [] then NULL else hd bs)"
  have first0: "first = NULL \<longleftrightarrow> bs = []"
    using rep ns lseg_nonnull [of h "ll_head l" ns NULL]
    by (cases bs) (auto simp: ll_rep_def first_def)
  have seg: "lseg h (ll_head l) (as @ bs) NULL" and lk: "\<not> ll_lock l"
    and cnt: "ll_count l + 1 = of_nat (length (as @ new # bs))"
    and tail: "bs \<noteq> [] \<Longrightarrow> ll_tail l = last bs"
    using rep ns by (auto simp: ll_rep_def)
  have nth1: "(if ?k = 0 then NULL else ns ! (?k - 1)) = (if as = [] then NULL else last as)"
    using las ns by (auto simp: last_conv_nth nth_append)
  have nth2: "(if ?k < length ns then ns ! ?k else NULL) = first"
  proof (cases bs)
    case Nil
    then show ?thesis using las ns by (simp add: first_def)
  next
    case (Cons b cs)
    then show ?thesis using las ns by (metis first_def add_less_cancel_left append_Cons length_append
          length_greater_0_conv list.distinct(1) list.sel(1) nth_append_length add.right_neutral)
  qed
  have seek: "ll_seek (search_or_default f) d h NULL (ll_head l)
      = Some (Ret (if as = [] then NULL else last as, first))"
    using ll_seek_lseg [of h "ll_head l" ns "search_or_default f" d NULL, unfolded Let_def,
        folded xs, unfolded nth1 nth2] seg ns by simp
  have fr: "new \<notin> set (as @ bs)"
    using new ns by simp
  show thesis
  proof (cases as rule: rev_cases)
    case Nil
    let ?h = "h(new \<mapsto> \<lparr>n_next = first, n_data = d\<rparr>)"
    let ?l = "l\<lparr>ll_head := new, ll_tail := (if bs = [] then new else ll_tail l),
                ll_count := ll_count l + 1, ll_lock := False\<rparr>"
    have "linked_list_add_sorted new l f d h = Ret (IR_OK, ?l, ?h)"
      using lk seek Nil new first0 by (simp add: linked_list_add_sorted_def)
    moreover have "lseg h first bs NULL"
      using seg Nil by (cases bs) (auto simp: first_def)
    then have "ll_rep ?h ?l (as @ new # bs) (insert_before ?le d xs)"
      using Nil new fr cnt tail room ns target by (auto simp: ll_rep_def)
    ultimately show thesis
      using that [of ?l ?h "as @ new # bs"] ns by auto
  next
    case (snoc cs a)
    then obtain p where p: "h a = Some p" and a0: "a \<noteq> NULL"
      using seg by (auto simp: lseg_append split: option.splits)
    have na: "new \<noteq> a"
      using fr snoc by simp
    let ?h = "h(new \<mapsto> \<lparr>n_next = first, n_data = d\<rparr>, a \<mapsto> p\<lparr>n_next := new\<rparr>)"
    let ?l = "l\<lparr>ll_tail := (if bs = [] then new else ll_tail l),
                ll_count := ll_count l + 1, ll_lock := False\<rparr>"
    have "linked_list_add_sorted new l f d h = Ret (IR_OK, ?l, ?h)"
      using lk seek snoc new first0 p na a0 by (simp add: linked_list_add_sorted_def)
    moreover have "ll_rep ?h ?l (as @ new # bs) (insert_before ?le d xs)"
      using ll_splice_rep [OF seg new(1) fr first_def snoc p, of d] cnt tail room ns target
      by (auto simp: ll_rep_def)
    ultimately show thesis
      using that [of ?l ?h "as @ new # bs"] ns snoc by auto
  qed
qed

lemma ll_free_chain_lseg:
  "lseg h p ns NULL \<Longrightarrow>
     ll_free_chain h p = Some (Ret (\<lambda>a. if a \<in> set ns then None else h a))"
proof (induction ns arbitrary: h p)
  case Nil
  then show ?case by (simp add: ll_free_chain.simps)
next
  case (Cons a as)
  have nin: "a \<notin> set as"
    using lseg_distinct [OF Cons.prems] by simp
  obtain n where n: "h a = Some n" and seg: "lseg h (n_next n) as NULL" and pa: "p = a"
    and a0: "a \<noteq> NULL"
    using Cons.prems by (auto split: option.splits)
  have "ll_free_chain h p = ll_free_chain (h(a := None)) (n_next n)"
    using n a0 unfolding pa by (subst ll_free_chain.simps) simp
  also have "\<dots> = Some (Ret (\<lambda>x. if x \<in> set as then None else (h(a := None)) x))"
    using lseg_upd [OF nin, of h None] seg by (intro Cons.IH) blast
  finally show ?case
    by (auto simp: fun_eq_iff)
qed

lemma linked_list_destroy_refine:
  assumes "ll_rep h l ns xs"
  obtains h' where "linked_list_destroy l h = Ret (l\<lparr>ll_count := 0, ll_head := NULL, ll_tail := NULL\<rparr>, h')"
    and "\<And>a. h' a = (if a \<in> set ns then None else h a)"
  using assms ll_free_chain_lseg [of h "ll_head l" ns] by (auto simp: linked_list_destroy_def ll_rep_def)

section \<open>First-in first-out interface\<close>

text \<open>
  The idiom \<^verbatim>\<open>while (linked_list_remove(list, 0, &x) == IR_OK)\<close> of the cleanup routines: take
  elements off the front until there are none.
\<close>

partial_function (option) drain ::
  "('s \<Rightarrow> ('a option \<times> 's) outcome) \<Rightarrow> 's \<Rightarrow> 'a list \<Rightarrow> ('a list \<times> 's) outcome option" where
  "drain pop s acc =
     (case pop s of
        Ret r \<Rightarrow> (case fst r of None \<Rightarrow> Some (Ret (acc, snd r)) | Some x \<Rightarrow> drain pop (snd r) (acc @ [x]))
      | Fault \<Rightarrow> Some Fault | Panic \<Rightarrow> Some Panic | Hang \<Rightarrow> Some Hang)"

text \<open>Adding several values, each in a node address of its own.\<close>

fun fill :: "('n \<Rightarrow> 'a \<Rightarrow> 's \<Rightarrow> 's outcome) \<Rightarrow> ('n \<times> 'a) list \<Rightarrow> 's \<Rightarrow> 's outcome" where
  "fill push [] s = Ret s"
| "fill push ((n, x) # nxs) s = obind (push n x s) (fill push nxs)"

locale fifo =
  fixes rep :: "'s \<Rightarrow> 'n set \<Rightarrow> 'a list \<Rightarrow> bool"
    and push :: "'n \<Rightarrow> 'a \<Rightarrow> 's \<Rightarrow> 's outcome"
    and pop :: "'s \<Rightarrow> ('a option \<times> 's) outcome"
    and usable :: "'n \<Rightarrow> bool"
    and capacity :: nat
  assumes push_rep: "rep s N xs \<Longrightarrow> usable n \<Longrightarrow> n \<notin> N \<Longrightarrow> length xs < capacity \<Longrightarrow>
      \<exists>s'. push n x s = Ret s' \<and> rep s' (insert n N) (xs @ [x])"
    and pop_empty: "rep s N [] \<Longrightarrow> pop s = Ret (None, s)"
    and pop_rep: "rep s N (x # xs) \<Longrightarrow> \<exists>s' N'. pop s = Ret (Some x, s') \<and> N' \<subseteq> N \<and> rep s' N' xs"
begin

lemma drain_all:
  "rep s N xs \<Longrightarrow> \<exists>s' N'. drain pop s acc = Some (Ret (acc @ xs, s')) \<and> N' \<subseteq> N \<and> rep s' N' []"
proof (induction xs arbitrary: s N acc)
  case Nil
  then show ?case by (auto simp: drain.simps pop_empty)
next
  case (Cons x xs)
  obtain s1 N1 where s1: "pop s = Ret (Some x, s1)" "N1 \<subseteq> N" "rep s1 N1 xs"
    using pop_rep [OF Cons.prems] by blast
  obtain s' N' where "drain pop s1 (acc @ [x]) = Some (Ret ((acc @ [x]) @ xs, s'))" "N' \<subseteq> N1" "rep s' N' []"
    using Cons.IH [OF s1(3)] by blast
  moreover have "drain pop s acc = drain pop s1 (acc @ [x])"
    using s1(1) by (subst drain.simps) simp
  ultimately show ?case
    using s1(2) by auto
qed

lemma fill_rep:
  "rep s N xs \<Longrightarrow> distinct (map fst nxs) \<Longrightarrow> set (map fst nxs) \<inter> N = {} \<Longrightarrow>
     (\<forall>n \<in> set (map fst nxs). usable n) \<Longrightarrow> length xs + length nxs \<le> capacity \<Longrightarrow>
     \<exists>s'. fill push nxs s = Ret s' \<and> rep s' (set (map fst nxs) \<union> N) (xs @ map snd nxs)"
proof (induction nxs arbitrary: s N xs)
  case Nil
  then show ?case by simp
next
  case (Cons nx nxs)
  obtain n x where nx: "nx = (n, x)" by fastforce
  obtain s1 where s1: "push n x s = Ret s1" "rep s1 (insert n N) (xs @ [x])"
    using push_rep [of s N xs n x] Cons.prems nx by auto
  have "\<exists>s'. fill push nxs s1 = Ret s' \<and>
      rep s' (set (map fst nxs) \<union> insert n N) ((xs @ [x]) @ map snd nxs)"
    using Cons.prems nx by (intro Cons.IH [OF s1(2)]) auto
  then show ?case
    using s1(1) nx by auto
qed

lemma fill_then_drain:
  assumes "rep s {} []" and "distinct (map fst nxs)" and "\<forall>n \<in> set (map fst nxs). usable n"
    and "length nxs \<le> capacity"
  shows "\<exists>s1 s2. fill push nxs s = Ret s1 \<and> drain pop s1 [] = Some (Ret (map snd nxs, s2))"
proof -
  obtain s1 where s1: "fill push nxs s = Ret s1" "rep s1 (set (map fst nxs)) (map snd nxs)"
    using fill_rep [OF assms(1,2)] assms(3,4) by auto
  obtain s2 where "drain pop s1 [] = Some (Ret (map snd nxs, s2))"
    using drain_all [OF s1(2), of "[]"] by auto
  with s1(1) show ?thesis by blast
qed

end

definition ll_push :: "ptr \<Rightarrow> ptr \<Rightarrow> linked_list \<times> node_heap \<Rightarrow> (linked_list \<times> node_heap) outcome" where
  "ll_push n x s = obind (linked_list_add n (fst s) x (snd s)) (\<lambda>(st, l, h). Ret (l, h))"

definition ll_pop :: "linked_list \<times> node_heap \<Rightarrow> (ptr option \<times> linked_list \<times> node_heap) outcome" where
  "ll_pop s = obind (linked_list_remove (fst s) 0 (snd s))
     (\<lambda>(st, out, l, h). Ret (if st = IR_OK then out else None, l, h))"

definition ll_state :: "linked_list \<times> node_heap \<Rightarrow> ptr set \<Rightarrow> ptr list \<Rightarrow> bool" where
  "ll_state s N xs \<longleftrightarrow> (\<exists>ns. ll_rep (snd s) (fst s) ns xs \<and> N = set ns)"

interpretation ll: fifo ll_state ll_push ll_pop "\<lambda>n. n \<noteq> NULL" "2 ^ 32 - 1"
proof
  fix s :: "linked_list \<times> node_heap" and N xs n x
  assume "ll_state s N xs" and n: "n \<noteq> NULL" "n \<notin> N" and len: "length xs < 2 ^ 32 - 1"
  then obtain ns where rep: "ll_rep (snd s) (fst s) ns xs" and N: "N = set ns"
    by (auto simp: ll_state_def)
  have nns: "n \<notin> set ns" and room: "length ns + 1 < 2 ^ 32"
    using n N len ll_rep_length [OF rep] by auto
  obtain l' h' where "linked_list_add n (fst s) x (snd s) = Ret (IR_OK, l', h')"
    and "ll_rep h' l' (ns @ [n]) (xs @ [x])"
    by (rule linked_list_add_refine [OF rep n(1) nns room, of x])
  then show "\<exists>s'. ll_push n x s = Ret s' \<and> ll_state s' (insert n N) (xs @ [x])"
    using N by (auto simp: ll_push_def ll_state_def intro!: exI [of _ "ns @ [n]"])
next
  fix s :: "linked_list \<times> node_heap" and N
  assume "ll_state s N []"
  then show "ll_pop s = Ret (None, s)"
    using linked_list_remove_out_of_range by (fastforce simp: ll_pop_def ll_state_def)
next
  fix s :: "linked_list \<times> node_heap" and N x xs
  assume "ll_state s N (x # xs)"
  then obtain ns where rep: "ll_rep (snd s) (fst s) ns (x # xs)" and N: "N = set ns"
    by (auto simp: ll_state_def)
  obtain l' h' where "linked_list_remove (fst s) 0 (snd s) = Ret (IR_OK, Some x, l', h')"
    and "ll_rep h' l' (delete_at 0 ns) xs"
    by (rule linked_list_remove_refine [OF rep, of 0]) auto
  then show "\<exists>s' N'. ll_pop s = Ret (Some x, s') \<and> N' \<subseteq> N \<and> ll_state s' N' xs"
    using N set_delete_at [of 0 ns] by (auto simp: ll_pop_def ll_state_def)
qed

section \<open>Properties\<close>

text \<open>every value added to an empty list with \<^verbatim>\<open>linked_list_add\<close> (each in a fresh non-null node)
  comes back, in the order of the additions, from the loop that calls \<^verbatim>\<open>linked_list_remove\<close> with
  index 0 until it stops returning \<^verbatim>\<open>IR_OK\<close>; both loops return.\<close>

theorem linked_list_fifo:
  assumes "distinct (map fst nxs)" and "\<forall>n \<in> set (map fst nxs). n \<noteq> NULL"
    and "length nxs < 2 ^ 32"
  shows "\<exists>s1 s2. fill ll_push nxs (ll_empty, h) = Ret s1 \<and>
    drain ll_pop s1 [] = Some (Ret (map snd nxs, s2))"
proof -
  have "ll_state (ll_empty, h) {} []"
    by (auto simp: ll_state_def ll_rep_empty)
  then show ?thesis
    using assms by (intro ll.fill_then_drain) auto
qed

theorem linked_list_fifo_witness:
  "\<exists>s1 s2. fill ll_push [(16, 7), (32, 9), (48, 8)] (ll_empty, Map.empty) = Ret s1 \<and>
    drain ll_pop s1 [] = Some (Ret ([7, 9, 8], s2))"
  using linked_list_fifo [of "[(16, 7), (32, 9), (48, 8)]" Map.empty] by simp

text \<open>\<^verbatim>\<open>linked_list_remove\<close> on a well-formed list always returns. In range it unlinks exactly
  one node, the one at position \<open>index - 1\<close> (position 0 for index 0), returns the value it held, and
  touches no node outside the list; out of range it returns \<^verbatim>\<open>IR_ERROR_INVALID_ARGUMENTS\<close> and changes
  nothing. So the documented position is the removed one for index 0 only.\<close>

theorem linked_list_remove_position:
  assumes "ll_rep h l ns xs"
  shows "\<exists>l' h'. linked_list_remove l i h =
      Ret (if unat i < length xs then (IR_OK, Some (xs ! (unat i - 1)), l', h')
           else (IR_ERROR_INVALID_ARGUMENTS, None, l, h)) \<and>
    (unat i < length xs \<longrightarrow>
      ll_rep h' l' (delete_at (unat i - 1) ns) (delete_at (unat i - 1) xs) \<and>
      (\<forall>a. a \<notin> set ns \<longrightarrow> h' a = h a))"
proof (cases "unat i < length xs")
  case True
  obtain l' h' where "linked_list_remove l i h = Ret (IR_OK, Some (xs ! (unat i - 1)), l', h')"
    and "ll_rep h' l' (delete_at (unat i - 1) ns) (delete_at (unat i - 1) xs)"
    and "\<And>a. a \<notin> set ns \<Longrightarrow> h' a = h a"
    by (rule linked_list_remove_refine [OF assms True]) blast
  with True show ?thesis by auto
next
  case False
  with linked_list_remove_out_of_range [OF assms, of i] show ?thesis by simp
qed

definition demo_heap :: node_heap where
  "demo_heap = [16 \<mapsto> \<lparr>n_next = 32, n_data = 5\<rparr>, 32 \<mapsto> \<lparr>n_next = 48, n_data = 6\<rparr>,
     48 \<mapsto> \<lparr>n_next = NULL, n_data = 7\<rparr>]"

definition demo_list :: linked_list where
  "demo_list = \<lparr>ll_count = 3, ll_head = 16, ll_tail = 48, ll_lock = False\<rparr>"

lemma demo_rep: "ll_rep demo_heap demo_list [16, 32, 48] [5, 6, 7]"
  by (simp add: ll_rep_def demo_heap_def demo_list_def)

theorem linked_list_remove_position_witness:
  "\<exists>l' h'. linked_list_remove demo_list 1 demo_heap = Ret (IR_OK, Some 5, l', h') \<and>
    ll_rep h' l' [32, 48] [6, 7] \<and> (\<forall>a. a \<notin> {16, 32, 48} \<longrightarrow> h' a = demo_heap a)"
  using linked_list_remove_position [OF demo_rep, of 1] by (simp add: delete_at_def)

lemma insert_before_stable:
  assumes "sorted (map key xs)" and "\<And>y. y \<in> set xs \<Longrightarrow> le y \<longleftrightarrow> key y \<le> (key d :: 'k::linorder)"
  shows "insert_before le d xs = filter (\<lambda>y. key y \<le> key d) xs @ d # filter (\<lambda>y. key d < key y) xs"
  using assms
proof (induction xs)
  case (Cons x xs)
  show ?case
  proof (cases "le x")
    case True
    then show ?thesis
      using Cons by (auto simp: insert_before_def)
  next
    case False
    then have "\<forall>y \<in> set (x # xs). key d < key y"
      using Cons.prems by force
    then have "filter (\<lambda>y. key y \<le> key d) (x # xs) = []" "filter (\<lambda>y. key d < key y) (x # xs) = x # xs"
      by (auto simp: filter_empty_conv not_le intro!: filter_True)
    then show ?thesis
      using False by (simp add: insert_before_def)
  qed
qed (simp add: insert_before_def)

text \<open>C26: \<^verbatim>\<open>linked_list_add_sorted\<close> is a stable insertion: in a list that is sorted by some key of the stored values, with a
  comparison function that agrees with the order of the keys, the new value ends up after every value whose key is not larger
  than its own, those with an equal key included, and before every value with a larger one. The other values keep their order,
  so the list stays sorted. The call always returns, and touches no node outside the list but the new one.\<close>

theorem linked_list_add_sorted_sorted:
  fixes key :: "ptr \<Rightarrow> 'k::linorder"
  assumes rep: "ll_rep h l ns xs" and new: "new \<noteq> NULL" "new \<notin> set ns" "length ns + 1 < 2 ^ 32"
    and cmp: "\<And>y. y \<in> set xs \<Longrightarrow> f y d \<le> 0 \<longleftrightarrow> key y \<le> key d" and sorted: "sorted (map key xs)"
  shows "\<exists>l' h' ns' xs'. linked_list_add_sorted new l (Some f) d h = Ret (IR_OK, l', h') \<and>
    ll_rep h' l' ns' xs' \<and> xs' = filter (\<lambda>y. key y \<le> key d) xs @ d # filter (\<lambda>y. key d < key y) xs \<and>
    sorted (map key xs') \<and> set ns' = insert new (set ns) \<and> (\<forall>a. a \<notin> set ns \<longrightarrow> a \<noteq> new \<longrightarrow> h' a = h a)"
proof -
  let ?xs = "insert_before (\<lambda>y. f y d \<le> 0) d xs"
  obtain l' h' ns' where "linked_list_add_sorted new l (Some f) d h = Ret (IR_OK, l', h')"
    and "ll_rep h' l' ns' ?xs" and "set ns' = insert new (set ns)" and "\<And>a. a \<notin> set ns \<Longrightarrow> a \<noteq> new \<Longrightarrow> h' a = h a"
    by (rule linked_list_add_sorted_refine [OF rep new, of "Some f" d])
      (auto simp: search_or_default_def)
  moreover have "sorted (map key ?xs)"
    using cmp sorted by (rule sorted_insert_before)
  ultimately show ?thesis
    using insert_before_stable [OF sorted cmp] by metis
qed

definition demo_compare :: "ptr \<Rightarrow> ptr \<Rightarrow> int" where
  "demo_compare a b = (if a = b then 0 else if a < b then -1 else 1)"

theorem linked_list_add_sorted_sorted_witness:
  "\<exists>l' h' ns'. linked_list_add_sorted 64 demo_list (Some demo_compare) 6 demo_heap = Ret (IR_OK, l', h') \<and>
    ll_rep h' l' ns' [5, 6, 6, 7] \<and> set ns' = {16, 32, 48, 64} \<and> (\<forall>a. a \<notin> set [16, 32, 48] \<longrightarrow> a \<noteq> 64 \<longrightarrow> h' a = demo_heap a)"
proof -
  have "demo_compare y 6 \<le> 0 \<longleftrightarrow> unat y \<le> unat (6 :: ptr)" for y
    using word_le_nat_alt [of y 6] by (auto simp: demo_compare_def)
  then show ?thesis
    using linked_list_add_sorted_sorted [OF demo_rep, of 64 demo_compare 6 unat] by (auto simp: insert_commute)
qed

end
