(* ===== verification/Pmm.thy ===== *)
theory Pmm
  imports Align
begin

text \<open>
  The physical memory manager (\<^verbatim>\<open>kernel/memory/pmm.c\<close>). A store maps the address of every
  \<^verbatim>\<open>physical_page_info\<close> to its contents; the free pages form a doubly linked stack through it, and
  every available region owns an array of page infos. The address \<^verbatim>\<open>calloc\<close> gives the page infos
  of a range outside all regions is an argument of \<^verbatim>\<open>pmm_allocate_range\<close>.
\<close>

section \<open>Data\<close>

datatype page_state =
    PAGE_STATE_FREE
  | PAGE_STATE_USED
  | PAGE_STATE_RESERVED_USED
  | PAGE_STATE_USED_OUTSIDE_REGION

record physical_page_info =
  pg_prev :: ptr
  pg_next :: ptr
  pg_address :: u64
  pg_state :: page_state

datatype region_type =
    REGION_TYPE_AVAILABLE
  | REGION_TYPE_RESERVED
  | REGION_TYPE_RECLAIMABLE
  | REGION_TYPE_UNUSABLE

record physical_region =
  rg_base :: u64
  rg_length :: u64
  rg_page_array :: ptr
  rg_type :: region_type

record arch_reserved_range =
  rr_base :: u64
  rr_length :: u64
  rr_pages :: ptr

record pmm =
  pm_pages :: "ptr \<rightharpoonup> physical_page_info"
  free_list :: ptr
  pages_in_free_list :: u64
  regions_array :: "physical_region list"
  regions_count :: u64
  initialized_regions :: u64
  memory_free :: u64
  memory_used :: u64
  memory_reserved :: u64

text \<open>Two pointers, an address and a \<^verbatim>\<open>char\<close>, padded to the alignment of the pointers.\<close>

definition sizeof_page_info :: u64 where
  [simp]: "sizeof_page_info = 32"

text \<open>\<^verbatim>\<open>&page_array[i]\<close>\<close>

definition page_ptr :: "ptr \<Rightarrow> u64 \<Rightarrow> ptr" where
  "page_ptr page_array i = page_array + sizeof_page_info * i"

definition PAGE_INDEX_IN_REGION :: "u64 \<Rightarrow> u64 \<Rightarrow> u64" where
  "PAGE_INDEX_IN_REGION address region_base = (address - region_base) div PAGE_SIZE"

text \<open>Writing fields of a page info through its pointer.\<close>

definition update_page ::
  "ptr \<Rightarrow> (physical_page_info \<Rightarrow> physical_page_info) \<Rightarrow> pmm \<Rightarrow> pmm outcome" where
  "update_page p f s =
     obind (load (pm_pages s) p) (\<lambda>pg. Ret (s\<lparr>pm_pages := (pm_pages s)(p \<mapsto> f pg)\<rparr>))"

section \<open>The free list\<close>

definition pmm_free_list_push :: "ptr \<Rightarrow> pmm \<Rightarrow> pmm outcome" where
  "pmm_free_list_push page s =
     (let old = free_list s in
      obind (update_page page (\<lambda>pg. pg\<lparr>pg_prev := NULL, pg_next := old\<rparr>) s) (\<lambda>s.
      obind (if old \<noteq> NULL then update_page old (\<lambda>pg. pg\<lparr>pg_prev := page\<rparr>) s else Ret s) (\<lambda>s.
      Ret (s\<lparr>free_list := page, pages_in_free_list := pages_in_free_list s + 1\<rparr>))))"

definition pmm_free_list_pop :: "pmm \<Rightarrow> (ptr \<times> pmm) outcome" where
  "pmm_free_list_pop s =
     (let popped_page = free_list s in
      obind (load (pm_pages s) popped_page) (\<lambda>pg.
      if pg_next pg = NULL then Panic else
      let s = s\<lparr>free_list := pg_next pg\<rparr> in
      obind (update_page popped_page (\<lambda>pg. pg\<lparr>pg_next := NULL\<rparr>) s) (\<lambda>s.
      obind (update_page (free_list s) (\<lambda>pg. pg\<lparr>pg_prev := NULL\<rparr>) s) (\<lambda>s.
      Ret (popped_page, s\<lparr>pages_in_free_list := pages_in_free_list s - 1\<rparr>)))))"

definition pmm_free_list_remove :: "ptr \<Rightarrow> pmm \<Rightarrow> pmm outcome" where
  "pmm_free_list_remove page s =
     obind (load (pm_pages s) page) (\<lambda>pg.
     let s = (if page = free_list s then s\<lparr>free_list := pg_next pg\<rparr> else s);
         prev = pg_prev pg; next = pg_next pg in
     obind (if prev \<noteq> NULL then update_page prev (\<lambda>q. q\<lparr>pg_next := next\<rparr>) s else Ret s) (\<lambda>s.
     obind (if next \<noteq> NULL then update_page next (\<lambda>q. q\<lparr>pg_prev := prev\<rparr>) s else Ret s) (\<lambda>s.
     Ret (s\<lparr>pages_in_free_list := pages_in_free_list s - 1\<rparr>))))"

section \<open>Allocation\<close>

definition pmm_allocate_page :: "pmm \<Rightarrow> (ir_status \<times> ptr \<times> pmm) outcome" where
  "pmm_allocate_page s =
     obind (pmm_free_list_pop s) (\<lambda>(page, s).
     if page \<noteq> NULL then
       obind (update_page page (\<lambda>pg. pg\<lparr>pg_state := PAGE_STATE_USED\<rparr>) s) (\<lambda>s.
       Ret (IR_OK, page, s\<lparr>memory_free := memory_free s - PAGE_SIZE,
                             memory_used := memory_used s + PAGE_SIZE\<rparr>))
     else Ret (IR_ERROR_NO_MEMORY, NULL, s))"

text \<open>One round of the loop that pops a page and appends it to the list being built.\<close>

definition pmm_append_popped :: "u32 \<Rightarrow> ptr \<times> pmm \<Rightarrow> (ptr \<times> pmm) outcome" where
  "pmm_append_popped i = (\<lambda>(previous_page, s).
     obind (pmm_free_list_pop s) (\<lambda>(page, s).
     obind (update_page previous_page (\<lambda>pg. pg\<lparr>pg_next := page\<rparr>) s) (\<lambda>s.
     obind (update_page page (\<lambda>pg. pg\<lparr>pg_state := PAGE_STATE_USED, pg_prev := previous_page\<rparr>) s) (\<lambda>s.
     Ret (page, s)))))"

definition pmm_allocate_pages :: "u64 \<Rightarrow> pmm \<Rightarrow> (ir_status \<times> ptr option \<times> pmm) outcome" where
  "pmm_allocate_pages cnt s =
     (if pages_in_free_list s < cnt then Ret (IR_ERROR_NO_MEMORY, None, s)
      else if cnt = 0 then Ret (IR_OK, Some NULL, s)
      else
        obind (pmm_free_list_pop s) (\<lambda>(first_page, s).
        obind (update_page first_page (\<lambda>pg. pg\<lparr>pg_state := PAGE_STATE_USED\<rparr>) s) (\<lambda>s.
        obind (looped (for_uint pmm_append_popped cnt 1 (first_page, s))) (\<lambda>(_, s).
        Ret (IR_OK, Some first_page,
             s\<lparr>memory_free := memory_free s - cnt * PAGE_SIZE,
               memory_used := memory_used s + cnt * PAGE_SIZE\<rparr>)))))"

text \<open>
  Taking the pages of a run of a region's array off the free list and chaining them, the loop that
  \<^verbatim>\<open>pmm_allocate_contiguous\<close> and \<^verbatim>\<open>pmm_allocate_range\<close> share.
\<close>

definition pmm_take_page :: "ptr \<Rightarrow> u32 \<Rightarrow> ptr \<times> pmm \<Rightarrow> (ptr \<times> pmm) outcome" where
  "pmm_take_page page_array i = (\<lambda>(previous, s).
     let page = page_ptr page_array (ucast i) in
     obind (update_page page (\<lambda>pg. pg\<lparr>pg_state := PAGE_STATE_USED\<rparr>) s) (\<lambda>s.
     obind (pmm_free_list_remove page s) (\<lambda>s.
     obind (if previous \<noteq> NULL then update_page previous (\<lambda>pg. pg\<lparr>pg_next := page\<rparr>) s else Ret s) (\<lambda>s.
     obind (update_page page (\<lambda>pg. pg\<lparr>pg_prev := previous\<rparr>) s) (\<lambda>s.
     Ret (page, s))))))"

text \<open>
  Searching a region for \<open>cnt\<close> consecutive free pages below the limit: remaining iterations,
  index, start of the current run, its length. The result is the start of the first such run.
\<close>

fun pmm_find_run ::
  "pmm \<Rightarrow> physical_region \<Rightarrow> u64 \<Rightarrow> u64 \<Rightarrow> nat \<Rightarrow> u64 \<Rightarrow> u64 \<Rightarrow> u64 \<Rightarrow> u64 option outcome" where
  "pmm_find_run s region cnt limit 0 i start_index pages_found = Ret None"
| "pmm_find_run s region cnt limit (Suc k) i start_index pages_found =
     obind (load (pm_pages s) (page_ptr (rg_page_array region) i)) (\<lambda>pg.
     if pg_state pg = PAGE_STATE_FREE \<and> pg_address pg < limit then
       if pages_found + 1 = cnt then Ret (Some start_index)
       else pmm_find_run s region cnt limit k (i + 1) start_index (pages_found + 1)
     else pmm_find_run s region cnt limit k (i + 1) (i + 1) 0)"

text \<open>The regions from the last initialized one down to the first.\<close>

fun pmm_contiguous_regions ::
  "u64 \<Rightarrow> u64 \<Rightarrow> nat \<Rightarrow> pmm \<Rightarrow> (ir_status \<times> ptr option \<times> pmm) outcome" where
  "pmm_contiguous_regions cnt limit 0 s = Ret (IR_ERROR_NO_MEMORY, None, s)"
| "pmm_contiguous_regions cnt limit (Suc r) s =
     (if r \<ge> length (regions_array s) then Fault else
      let region = regions_array s ! r; pages = rg_length region div PAGE_SIZE in
      if rg_type region \<noteq> REGION_TYPE_AVAILABLE \<or> rg_base region > limit
      then pmm_contiguous_regions cnt limit r s
      else
        obind (pmm_find_run s region cnt limit (unat pages) 0 0 0) (\<lambda>found.
        case found of
          None \<Rightarrow> pmm_contiguous_regions cnt limit r s
        | Some start_index \<Rightarrow>
            obind (looped (for_uint (pmm_take_page (rg_page_array region)) (start_index + cnt)
                     (ucast start_index) (NULL, s))) (\<lambda>(_, s).
            Ret (IR_OK, Some (page_ptr (rg_page_array region) start_index),
                 s\<lparr>memory_free := memory_free s - cnt * PAGE_SIZE,
                   memory_used := memory_used s + cnt * PAGE_SIZE\<rparr>))))"

text \<open>A limit of zero means no limit. The region counter is a signed \<^verbatim>\<open>int\<close>.\<close>

definition pmm_allocate_contiguous ::
  "u64 \<Rightarrow> u64 \<Rightarrow> pmm \<Rightarrow> (ir_status \<times> ptr option \<times> pmm) outcome" where
  "pmm_allocate_contiguous cnt physical_upper_limit s =
     (let limit = (if physical_upper_limit = 0 then -1 else physical_upper_limit) in
      pmm_contiguous_regions cnt limit (nat (int_of_u64 (initialized_regions s - 1) + 1)) s)"

text \<open>
  Checking that a page of the requested range is free. A page in use runs into the breakpoint
  instruction of the check, whose exception handler (\<^verbatim>\<open>exception\<close> in \<^verbatim>\<open>arch/x86_64/idt.c\<close>) panics.
\<close>

definition pmm_check_free :: "ptr \<Rightarrow> pmm \<Rightarrow> u32 \<Rightarrow> unit \<Rightarrow> unit outcome" where
  "pmm_check_free page_array s i u =
     obind (load (pm_pages s) (page_ptr page_array (ucast i))) (\<lambda>pg.
     if pg_state pg \<noteq> PAGE_STATE_FREE then Panic else Ret ())"

text \<open>The first available region that contains the whole range.\<close>

fun pmm_region_of_range :: "u64 \<Rightarrow> u64 \<Rightarrow> physical_region list \<Rightarrow> physical_region option" where
  "pmm_region_of_range address len [] = None"
| "pmm_region_of_range address len (region # rest) =
     (if rg_base region \<le> address \<and> rg_base region + rg_length region \<ge> address + len \<and>
         rg_type region = REGION_TYPE_AVAILABLE
      then Some region else pmm_region_of_range address len rest)"

text \<open>The zeroed page infos \<^verbatim>\<open>calloc\<close> hands out.\<close>

definition page_info_zero :: physical_page_info where
  "page_info_zero = \<lparr>pg_prev = NULL, pg_next = NULL, pg_address = 0, pg_state = PAGE_STATE_FREE\<rparr>"

definition calloc_page_infos :: "ptr \<Rightarrow> nat \<Rightarrow> pmm \<Rightarrow> pmm" where
  "calloc_page_infos page_array n s =
     s\<lparr>pm_pages := fold (\<lambda>i m. m(page_ptr page_array (of_nat i) \<mapsto> page_info_zero)) [0..<n] (pm_pages s)\<rparr>"

definition pmm_outside_page ::
  "ptr \<Rightarrow> u32 \<Rightarrow> ptr \<times> u64 \<times> pmm \<Rightarrow> (ptr \<times> u64 \<times> pmm) outcome" where
  "pmm_outside_page page_array i = (\<lambda>(previous, address, s).
     let page = page_ptr page_array (ucast i); address = address + PAGE_SIZE in
     obind (update_page page (\<lambda>pg. pg\<lparr>pg_state := PAGE_STATE_USED_OUTSIDE_REGION,
              pg_prev := previous, pg_address := address\<rparr>) s) (\<lambda>s.
     obind (update_page previous (\<lambda>pg. pg\<lparr>pg_next := page\<rparr>) s) (\<lambda>s.
     Ret (page, address, s))))"

definition pmm_allocate_range ::
  "u64 \<Rightarrow> u64 \<Rightarrow> ptr \<Rightarrow> pmm \<Rightarrow> (ir_status \<times> ptr option \<times> pmm) outcome" where
  "pmm_allocate_range address len calloc_result s =
     (if len = 0 then Ret (IR_OK, Some NULL, s) else
      let old_base = address;
          address = ROUND_DOWN_PAGE old_base;
          old_end = old_base + len;
          len = ROUND_UP_PAGE old_end - address;
          page_count = len div PAGE_SIZE in
      case pmm_region_of_range address len (take (unat (regions_count s)) (regions_array s)) of
        Some region \<Rightarrow>
          let start_index = ucast ((address - rg_base region) div PAGE_SIZE) :: u32;
              page_array = rg_page_array region;
              bound = ucast start_index + page_count in
          obind (looped (for_uint (pmm_check_free page_array s) bound start_index ())) (\<lambda>_.
          obind (looped (for_uint (pmm_take_page page_array) bound start_index (NULL, s)))
          (\<lambda>(previous, s).
          obind (update_page previous (\<lambda>pg. pg\<lparr>pg_next := NULL\<rparr>) s) (\<lambda>s.
          Ret (IR_OK, Some (page_ptr page_array (ucast start_index)),
               s\<lparr>memory_free := memory_free s - page_count * PAGE_SIZE,
                 memory_used := memory_used s + page_count * PAGE_SIZE\<rparr>))))
      | None \<Rightarrow>
          if calloc_result = NULL then Ret (IR_ERROR_NO_MEMORY, None, s) else
          let page_array = calloc_result;
              s = calloc_page_infos page_array (unat page_count) s in
          obind (update_page page_array (\<lambda>pg. pg\<lparr>pg_address := address,
                   pg_state := PAGE_STATE_USED_OUTSIDE_REGION\<rparr>) s) (\<lambda>s.
          obind (looped (for_uint (pmm_outside_page page_array) page_count 1
                   (page_array, address, s))) (\<lambda>(previous, _, s).
          obind (update_page previous (\<lambda>pg. pg\<lparr>pg_next := NULL\<rparr>) s) (\<lambda>s.
          Ret (IR_OK, Some page_array,
               s\<lparr>memory_used := memory_used s + page_count * PAGE_SIZE\<rparr>)))))"

section \<open>Release and lookup\<close>

definition pmm_free_page :: "ptr \<Rightarrow> pmm \<Rightarrow> pmm outcome" where
  "pmm_free_page page s =
     obind (load (pm_pages s) page) (\<lambda>pg.
     let state = pg_state pg in
     obind (update_page page (\<lambda>pg. pg\<lparr>pg_state := PAGE_STATE_FREE\<rparr>) s) (\<lambda>s.
     let s = s\<lparr>memory_used := memory_used s - PAGE_SIZE\<rparr> in
     if state = PAGE_STATE_USED then
       obind (pmm_free_list_push page s) (\<lambda>s.
       Ret (s\<lparr>memory_free := memory_free s + PAGE_SIZE\<rparr>))
     else if state = PAGE_STATE_RESERVED_USED then
       Ret (s\<lparr>memory_reserved := memory_reserved s + PAGE_SIZE\<rparr>)
     else Ret s))"

fun pmm_page_in_regions :: "u64 \<Rightarrow> physical_region list \<Rightarrow> ptr" where
  "pmm_page_in_regions address [] = NULL"
| "pmm_page_in_regions address (region # rest) =
     (if rg_base region \<le> address \<and> rg_base region + rg_length region > address
      then page_ptr (rg_page_array region)
             (ucast (ucast (PAGE_INDEX_IN_REGION address (rg_base region)) :: u32))
      else pmm_page_in_regions address rest)"

definition pmm_page_from_p_addr :: "u64 \<Rightarrow> pmm \<Rightarrow> ptr" where
  "pmm_page_from_p_addr address s =
     pmm_page_in_regions address (take (unat (regions_count s)) (regions_array s))"

definition pmm_memory_free :: "pmm \<Rightarrow> u64" where
  "pmm_memory_free s = memory_free s"

definition pmm_memory_used :: "pmm \<Rightarrow> u64" where
  "pmm_memory_used s = memory_used s"

definition pmm_memory_reserved :: "pmm \<Rightarrow> u64" where
  "pmm_memory_reserved s = memory_reserved s"

section \<open>Initialisation\<close>

text \<open>Writing one entry of a region's page array, pushing the page if it is not the array's own.\<close>

definition pmm_init_page ::
  "ptr \<Rightarrow> u32 \<Rightarrow> u32 \<Rightarrow> u64 \<times> pmm \<Rightarrow> (u64 \<times> pmm) outcome" where
  "pmm_init_page page_array array_start_index i = (\<lambda>(physical_address, s).
     let page = page_ptr page_array (ucast i);
         pg = \<lparr>pg_prev = NULL, pg_next = NULL, pg_address = physical_address,
               pg_state = (if i < array_start_index then PAGE_STATE_FREE else PAGE_STATE_USED)\<rparr>;
         s = s\<lparr>pm_pages := (pm_pages s)(page \<mapsto> pg)\<rparr> in
     obind (if i < array_start_index then pmm_free_list_push page s else Ret s) (\<lambda>s.
     Ret (physical_address + PAGE_SIZE, s)))"

definition pmm_init_region :: "physical_region \<Rightarrow> pmm \<Rightarrow> (physical_region \<times> pmm) outcome" where
  "pmm_init_region region s =
     (let old_base = rg_base region;
          region = region\<lparr>rg_base := ROUND_UP_PAGE (rg_base region)\<rparr>;
          old_end = old_base + rg_length region;
          region = region\<lparr>rg_length := ROUND_DOWN_PAGE old_end - rg_base region\<rparr>;
          page_count = rg_length region div PAGE_SIZE;
          page_array_size = ROUND_UP_PAGE (page_count * sizeof_page_info) in
      if page_array_size \<ge> rg_length region
      then Ret (region\<lparr>rg_type := REGION_TYPE_UNUSABLE\<rparr>, s)
      else if rg_type region = REGION_TYPE_AVAILABLE then
        let page_array_physical = rg_base region + rg_length region - page_array_size;
            page_array = p_addr_to_physical_map page_array_physical;
            region = region\<lparr>rg_page_array := page_array\<rparr>;
            array_start_index = ucast (PAGE_INDEX_IN_REGION page_array_physical (rg_base region)) :: u32 in
        obind (looped (for_uint (pmm_init_page page_array array_start_index) page_count 0
                 (rg_base region, s))) (\<lambda>(_, s).
        Ret (region, s\<lparr>memory_free := memory_free s + (rg_length region - page_array_size),
                        memory_used := memory_used s + page_array_size\<rparr>))
      else Ret (region, s))"

definition pmm_init_nth_region :: "u32 \<Rightarrow> pmm \<Rightarrow> pmm outcome" where
  "pmm_init_nth_region i s =
     (if unat i \<ge> length (regions_array s) then Fault else
      let region = regions_array s ! unat i in
      obind (if rg_type region = REGION_TYPE_AVAILABLE
             then obind (pmm_init_region region s) (\<lambda>(region, s).
                  Ret (s\<lparr>regions_array := (regions_array s)[unat i := region]\<rparr>))
             else Ret s) (\<lambda>s.
      Ret (s\<lparr>initialized_regions := initialized_regions s + 1\<rparr>)))"

text \<open>Reserving one architecture range; the address \<^verbatim>\<open>calloc\<close> returns depends on the round.\<close>

definition pmm_reserve_range ::
  "(nat \<Rightarrow> ptr) \<Rightarrow> nat \<Rightarrow> arch_reserved_range list \<times> pmm \<Rightarrow> (arch_reserved_range list \<times> pmm) outcome" where
  "pmm_reserve_range calloc_results i = (\<lambda>(ranges, s).
     obind (pmm_allocate_range (rr_base (ranges ! i)) (rr_length (ranges ! i)) (calloc_results i) s)
     (\<lambda>(status, out, s).
     Ret (case out of None \<Rightarrow> ranges | Some p \<Rightarrow> ranges[i := (ranges ! i)\<lparr>rr_pages := p\<rparr>], s)))"

definition physical_memory_init ::
  "(nat \<Rightarrow> ptr) \<Rightarrow> arch_reserved_range list \<Rightarrow> u64 \<Rightarrow> u64 \<Rightarrow> pmm \<Rightarrow>
     (arch_reserved_range list \<times> ptr option \<times> pmm) outcome" where
  "physical_memory_init calloc_results reserved_ranges start_physical end_physical s =
     (if regions_array s = [] \<or> regions_count s = 0 then Panic else
      obind (looped (for_uint pmm_init_nth_region (regions_count s) 0 s)) (\<lambda>s.
      obind (ofold (pmm_reserve_range calloc_results) [0..<length reserved_ranges]
               (reserved_ranges, s)) (\<lambda>(reserved_ranges, s).
      let kernel_size = end_physical - start_physical in
      obind (pmm_allocate_range start_physical kernel_size
               (calloc_results (length reserved_ranges)) s) (\<lambda>(_, kernel_pages, s).
      Ret (reserved_ranges, kernel_pages, s)))))"

section \<open>Doubly linked chains of pages\<close>

type_synonym page_store = "ptr \<rightharpoonup> physical_page_info"

text \<open>\<open>dlseg m v p as q\<close>: from \<open>p\<close>, preceded by \<open>v\<close>, the pages \<open>as\<close> are linked both ways up to \<open>q\<close>.\<close>

fun dlseg :: "page_store \<Rightarrow> ptr \<Rightarrow> ptr \<Rightarrow> ptr list \<Rightarrow> ptr \<Rightarrow> bool" where
  "dlseg m v p [] q \<longleftrightarrow> p = q"
| "dlseg m v p (a # as) q \<longleftrightarrow> p = a \<and> a \<noteq> NULL \<and>
     (case m a of None \<Rightarrow> False | Some pg \<Rightarrow> pg_prev pg = v \<and> dlseg m a (pg_next pg) as q)"

lemma dlseg_append:
  "dlseg m v p (as @ bs) q \<longleftrightarrow> (\<exists>r. dlseg m v p as r \<and> dlseg m (last (v # as)) r bs q)"
  by (induction as arbitrary: v p) (auto split: option.splits)

lemma dlseg_cong: "(\<And>a. a \<in> set ns \<Longrightarrow> m a = m' a) \<Longrightarrow> dlseg m v p ns q = dlseg m' v p ns q"
  by (induction ns arbitrary: v p) (auto split: option.splits)

lemma dlseg_upd [simp]: "a \<notin> set ns \<Longrightarrow> dlseg (m(a := x)) v p ns q = dlseg m v p ns q"
  by (rule dlseg_cong) auto

lemma dlseg_nonnull: "dlseg m v p ns q \<Longrightarrow> NULL \<notin> set ns"
  by (induction ns arbitrary: v p) (auto split: option.splits)

lemma dlseg_dom: "dlseg m v p ns q \<Longrightarrow> set ns \<subseteq> dom m"
  by (induction ns arbitrary: v p) (auto split: option.splits)

lemma dlseg_start: "dlseg m v p ns q \<Longrightarrow> p = (if ns = [] then q else hd ns)"
  by (cases ns) auto

lemma dlseg_unique: "dlseg m v p as NULL \<Longrightarrow> dlseg m w p bs NULL \<Longrightarrow> as = bs"
proof (induction as arbitrary: v w p bs)
  case Nil
  then show ?case by (cases bs) auto
next
  case (Cons a as)
  then show ?case by (cases bs) (auto split: option.splits)
qed

lemma dlseg_distinct: "dlseg m v p ns NULL \<Longrightarrow> distinct ns"
proof (induction ns arbitrary: v p)
  case Nil
  then show ?case by simp
next
  case (Cons a as)
  then obtain pg where pg: "m a = Some pg" "dlseg m a (pg_next pg) as NULL"
    by (auto split: option.splits)
  have "a \<notin> set as"
  proof
    assume "a \<in> set as"
    then obtain us vs where as: "as = us @ a # vs"
      by (auto simp: in_set_conv_decomp)
    with pg have "dlseg m (last (a # us)) a (a # vs) NULL"
      by (auto simp: dlseg_append)
    moreover from Cons.prems have "dlseg m v a (a # as) NULL"
      by auto
    ultimately have "a # vs = a # as"
      by (rule dlseg_unique)
    with as show False by simp
  qed
  with pg Cons.IH show ?case by auto
qed

text \<open>A page in the middle of a chain, with its neighbours.\<close>

lemma dlseg_midE:
  assumes "dlseg m v p (as @ a # bs) q"
  obtains pg where "m a = Some pg" "a \<noteq> NULL" "pg_prev pg = last (v # as)"
    "pg_next pg = (if bs = [] then q else hd bs)" "dlseg m v p as a" "dlseg m a (pg_next pg) bs q"
proof -
  from assms obtain r where r: "dlseg m v p as r" "dlseg m (last (v # as)) r (a # bs) q"
    by (auto simp: dlseg_append)
  then obtain pg where pg: "m a = Some pg" "a \<noteq> NULL" "r = a" "pg_prev pg = last (v # as)"
      "dlseg m a (pg_next pg) bs q"
    by (auto split: option.splits)
  with r that dlseg_start [OF pg(5)] show thesis by auto
qed

text \<open>Redirecting the end of a chain, and the backward link at its start.\<close>

lemma dlseg_set_end:
  assumes "dlseg m v p as q" "as \<noteq> []" "distinct as"
  shows "\<exists>pg. m (last as) = Some pg \<and>
    dlseg (m(last as \<mapsto> pg\<lparr>pg_next := r\<rparr>)) v p as r"
  using assms
proof (induction as arbitrary: v p)
  case Nil
  then show ?case by simp
next
  case (Cons a as)
  show ?case
  proof (cases "as = []")
    case True
    with Cons.prems show ?thesis by (auto split: option.splits)
  next
    case False
    then have "a \<noteq> last as"
      using Cons.prems(3) by auto
    with Cons False show ?thesis
      by (auto split: option.splits)
  qed
qed

lemma dlseg_set_front:
  assumes "dlseg m v p (a # as) q" "a \<notin> set as" "m a = Some pg"
  shows "dlseg (m(a \<mapsto> pg\<lparr>pg_prev := w\<rparr>)) w p (a # as) q"
  using assms by (auto split: option.splits)

text \<open>The parts of a page that the links do not touch.\<close>

definition page_core :: "page_store \<Rightarrow> ptr \<Rightarrow> (u64 \<times> page_state) option" where
  "page_core m a = map_option (\<lambda>pg. (pg_address pg, pg_state pg)) (m a)"

lemma page_core_upd_links [simp]:
  "m a = Some pg \<Longrightarrow> page_core (m(a \<mapsto> pg\<lparr>pg_next := x\<rparr>)) = page_core m"
  "m a = Some pg \<Longrightarrow> page_core (m(a \<mapsto> pg\<lparr>pg_prev := x\<rparr>)) = page_core m"
  "m a = Some pg \<Longrightarrow> page_core (m(a \<mapsto> pg\<lparr>pg_prev := x, pg_next := y\<rparr>)) = page_core m"
  by (auto simp: page_core_def)

lemma page_core_upd_state [simp]:
  "m a = Some pg \<Longrightarrow> page_core (m(a \<mapsto> pg\<lparr>pg_state := x\<rparr>)) = (page_core m)(a \<mapsto> (pg_address pg, x))"
  by (auto simp: page_core_def)

lemma page_core_SomeD: "page_core m a = Some (x, st) \<Longrightarrow> \<exists>pg. m a = Some pg \<and> pg_address pg = x \<and> pg_state pg = st"
  by (auto simp: page_core_def)

lemma dom_page_core: "dom (page_core m) = dom m"
  by (auto simp: page_core_def)

lemma update_page_Some [simp]:
  "pm_pages s p = Some pg \<Longrightarrow> update_page p f s = Ret (s\<lparr>pm_pages := (pm_pages s)(p \<mapsto> f pg)\<rparr>)"
  by (simp add: update_page_def)

lemma dlseg_upd_state:
  "m a = Some pg \<Longrightarrow> dlseg (m(a \<mapsto> pg\<lparr>pg_state := st\<rparr>)) v p ns q = dlseg m v p ns q"
  by (induction ns arbitrary: v p) (auto split: option.splits)

section \<open>The free list as a stack\<close>

text \<open>The free list of \<open>s\<close> holds exactly the pages \<open>ps\<close>, in that order.\<close>

definition free_rep :: "pmm \<Rightarrow> ptr list \<Rightarrow> bool" where
  "free_rep s ps \<longleftrightarrow> dlseg (pm_pages s) NULL (free_list s) ps NULL \<and>
     pages_in_free_list s = of_nat (length ps)"

text \<open>\<open>s'\<close> differs from \<open>s\<close> in links and in the free list only; pages outside \<open>A\<close> are untouched.\<close>

definition relinked :: "ptr set \<Rightarrow> pmm \<Rightarrow> pmm \<Rightarrow> bool" where
  "relinked A s s' \<longleftrightarrow> page_core (pm_pages s') = page_core (pm_pages s) \<and>
     (\<forall>x. x \<notin> A \<longrightarrow> pm_pages s' x = pm_pages s x) \<and>
     regions_array s' = regions_array s \<and> regions_count s' = regions_count s \<and>
     initialized_regions s' = initialized_regions s \<and> memory_free s' = memory_free s \<and>
     memory_used s' = memory_used s \<and> memory_reserved s' = memory_reserved s"

lemma free_rep_distinct: "free_rep s ps \<Longrightarrow> distinct ps"
  by (auto simp: free_rep_def dest: dlseg_distinct)

lemma free_rep_nonnull: "free_rep s ps \<Longrightarrow> NULL \<notin> set ps"
  by (auto simp: free_rep_def dest: dlseg_nonnull)

lemma free_rep_dom: "free_rep s ps \<Longrightarrow> set ps \<subseteq> dom (pm_pages s)"
  by (auto simp: free_rep_def dest: dlseg_dom)

lemma free_rep_count: "free_rep s ps \<Longrightarrow> length ps < 2 ^ 64 \<Longrightarrow> unat (pages_in_free_list s) = length ps"
  by (simp add: free_rep_def unat_of_nat_u64)

lemma free_rep_head: "free_rep s (p # ps) \<Longrightarrow> free_list s = p"
  by (auto simp: free_rep_def)

lemma pmm_free_list_push_refine:
  assumes rep: "free_rep s ps" and a: "a \<notin> set ps" "a \<noteq> NULL" "a \<in> dom (pm_pages s)"
  shows "\<exists>s'. pmm_free_list_push a s = Ret s' \<and> free_rep s' (a # ps) \<and> relinked (insert a (set ps)) s s'"
proof -
  from a obtain pg where pg: "pm_pages s a = Some pg" by auto
  let ?m = "(pm_pages s)(a \<mapsto> pg\<lparr>pg_prev := NULL, pg_next := free_list s\<rparr>)"
  have seg: "dlseg ?m NULL (free_list s) ps NULL"
    using rep a by (simp add: free_rep_def)
  show ?thesis
  proof (cases ps)
    case Nil
    with rep pg a show ?thesis
      by (simp add: pmm_free_list_push_def free_rep_def relinked_def Let_def)
  next
    case (Cons b bs)
    with seg obtain pb where b: "?m b = Some pb" "b \<noteq> NULL" "b \<noteq> a" "free_list s = b"
      using a by (auto split: option.splits)
    have "distinct ps"
      using rep by (rule free_rep_distinct)
    then have "dlseg (?m(b \<mapsto> pb\<lparr>pg_prev := a\<rparr>)) a b ps NULL"
      using seg b Cons dlseg_set_front [of ?m NULL b b bs NULL pb a] by auto
    moreover from b pg have "page_core (?m(b \<mapsto> pb\<lparr>pg_prev := a\<rparr>)) = page_core (pm_pages s)"
      by (simp add: page_core_upd_links(2) [of ?m b pb])
    ultimately show ?thesis
      using rep pg b a Cons
      by (auto simp: pmm_free_list_push_def free_rep_def relinked_def Let_def)
  qed
qed

lemma pmm_free_list_pop_refine:
  assumes rep: "free_rep s (a # b # ps)"
  shows "\<exists>s'. pmm_free_list_pop s = Ret (a, s') \<and> free_rep s' (b # ps) \<and> relinked {a, b} s s' \<and>
    (\<exists>pg. pm_pages s' a = Some pg \<and> pg_prev pg = NULL \<and> pg_next pg = NULL)"
proof -
  have dist: "distinct (a # b # ps)"
    using rep by (rule free_rep_distinct)
  from rep obtain pa pb where pa: "pm_pages s a = Some pa" "a \<noteq> NULL" "free_list s = a"
      "pg_prev pa = NULL" "pg_next pa = b"
    and pb: "pm_pages s b = Some pb" "b \<noteq> NULL" "dlseg (pm_pages s) b (pg_next pb) ps NULL"
    by (auto simp: free_rep_def split: option.splits)
  from pa pb dist show ?thesis
    using rep by (auto simp: pmm_free_list_pop_def free_rep_def relinked_def Let_def
      intro!: ext simp: page_core_def)
qed

lemma pmm_free_list_pop_last: "free_rep s [a] \<Longrightarrow> pmm_free_list_pop s = Panic"
  by (auto simp: pmm_free_list_pop_def free_rep_def Let_def split: option.splits)

lemma pmm_free_list_pop_empty:
  "free_rep s [] \<Longrightarrow> NULL \<notin> dom (pm_pages s) \<Longrightarrow> pmm_free_list_pop s = Fault"
  by (auto simp: pmm_free_list_pop_def free_rep_def load_def domIff)

lemma last_Cons_ne [simp]: "as \<noteq> [] \<Longrightarrow> last (x # as) = last as"
  by simp

lemma pmm_free_list_remove_refine:
  assumes rep: "free_rep s (as @ a # bs)"
  shows "\<exists>s'. pmm_free_list_remove a s = Ret s' \<and> free_rep s' (as @ bs) \<and>
    relinked (set (as @ bs)) s s'"
proof -
  have dist: "distinct (as @ a # bs)"
    using rep by (rule free_rep_distinct)
  have cnt: "pages_in_free_list s - 1 = of_nat (length (as @ bs))"
    using rep by (simp add: free_rep_def)
  obtain pg where pg: "pm_pages s a = Some pg" "a \<noteq> NULL" "pg_prev pg = last (NULL # as)"
      "pg_next pg = (if bs = [] then NULL else hd bs)"
    and seg: "dlseg (pm_pages s) NULL (free_list s) as a" "dlseg (pm_pages s) a (pg_next pg) bs NULL"
    using rep by (auto simp: free_rep_def elim: dlseg_midE)
  have fl: "free_list s = (if as = [] then a else hd as)"
    using dlseg_start [OF seg(1)] .
  define nx where "nx = pg_next pg"
  define s1 where "s1 = (if a = free_list s then s\<lparr>free_list := nx\<rparr> else s)"
  have pages1: "pm_pages s1 = pm_pages s" and cnt1: "pages_in_free_list s1 = pages_in_free_list s"
    by (simp_all add: s1_def)
  have "\<exists>s2. (if last (NULL # as) \<noteq> NULL
         then update_page (last (NULL # as)) (\<lambda>q. q\<lparr>pg_next := nx\<rparr>) s1 else Ret s1) = Ret s2 \<and>
      dlseg (pm_pages s2) NULL (free_list s2) as nx \<and> relinked (set as) s s2 \<and>
      pages_in_free_list s2 = pages_in_free_list s"
  proof (cases "as = []")
    case True
    then show ?thesis
      using fl by (simp add: s1_def relinked_def)
  next
    case False
    then obtain pl where pl: "pm_pages s (last as) = Some pl"
        "dlseg ((pm_pages s)(last as \<mapsto> pl\<lparr>pg_next := nx\<rparr>)) NULL (free_list s) as nx"
      using dlseg_set_end [OF seg(1), of nx] dist by auto
    have "last as \<noteq> NULL" "a \<noteq> free_list s"
      using False dlseg_nonnull [OF seg(1)] dist fl by (metis last_in_set, auto)
    with False pl show ?thesis
      by (auto simp: s1_def relinked_def)
  qed
  then obtain s2 where s2: "(if last (NULL # as) \<noteq> NULL
         then update_page (last (NULL # as)) (\<lambda>q. q\<lparr>pg_next := nx\<rparr>) s1 else Ret s1) = Ret s2"
      "dlseg (pm_pages s2) NULL (free_list s2) as nx" "relinked (set as) s s2"
      "pages_in_free_list s2 = pages_in_free_list s"
    by blast
  have seg2: "dlseg (pm_pages s2) a nx bs NULL"
  proof -
    have "\<And>x. x \<in> set bs \<Longrightarrow> pm_pages s x = pm_pages s2 x"
      using s2(3) dist by (auto simp: relinked_def)
    then show ?thesis
      using seg(2) unfolding nx_def by (simp add: dlseg_cong [of bs "pm_pages s" "pm_pages s2"])
  qed
  have "\<exists>s3. (if nx \<noteq> NULL then update_page nx (\<lambda>q. q\<lparr>pg_prev := last (NULL # as)\<rparr>) s2 else Ret s2)
      = Ret s3 \<and> dlseg (pm_pages s3) NULL (free_list s3) (as @ bs) NULL \<and>
      relinked (set (as @ bs)) s s3 \<and> pages_in_free_list s3 = pages_in_free_list s"
  proof (cases bs)
    case Nil
    then show ?thesis
      using s2 pg by (simp add: nx_def)
  next
    case (Cons c cs)
    then obtain pc where pc: "pm_pages s2 c = Some pc" "c \<noteq> NULL" "nx = c"
      using seg2 by (auto split: option.splits)
    then have "dlseg ((pm_pages s2)(c \<mapsto> pc\<lparr>pg_prev := last (NULL # as)\<rparr>)) (last (NULL # as)) c bs NULL"
      using seg2 Cons dist dlseg_set_front [of "pm_pages s2" a c c cs NULL pc] by auto
    moreover have "dlseg ((pm_pages s2)(c \<mapsto> pc\<lparr>pg_prev := last (NULL # as)\<rparr>)) NULL (free_list s2) as c"
      using s2(2) pc Cons dist by simp
    ultimately have "dlseg ((pm_pages s2)(c \<mapsto> pc\<lparr>pg_prev := last (NULL # as)\<rparr>)) NULL (free_list s2) (as @ bs) NULL"
      unfolding dlseg_append by blast
    then show ?thesis
      using s2(3,4) pc Cons by (auto simp: relinked_def)
  qed
  then obtain s3 where s3: "(if nx \<noteq> NULL
        then update_page nx (\<lambda>q. q\<lparr>pg_prev := last (NULL # as)\<rparr>) s2 else Ret s2) = Ret s3"
      "dlseg (pm_pages s3) NULL (free_list s3) (as @ bs) NULL"
      "relinked (set (as @ bs)) s s3" "pages_in_free_list s3 = pages_in_free_list s"
    by blast
  have "pmm_free_list_remove a s = Ret (s3\<lparr>pages_in_free_list := pages_in_free_list s3 - 1\<rparr>)"
    unfolding pmm_free_list_remove_def load_Some [of "pm_pages s" a, OF pg(1)] obind.simps Let_def pg(3)
      nx_def [symmetric] s1_def [symmetric] s2(1) s3(1) by (rule refl)
  moreover have "free_rep (s3\<lparr>pages_in_free_list := pages_in_free_list s3 - 1\<rparr>) (as @ bs)"
    using s3 cnt by (simp add: free_rep_def)
  moreover have "relinked (set (as @ bs)) s (s3\<lparr>pages_in_free_list := pages_in_free_list s3 - 1\<rparr>)"
    using s3(3) by (auto simp: relinked_def)
  ultimately show ?thesis by blast
qed

section \<open>The allocator's invariant\<close>

definition available :: "pmm \<Rightarrow> physical_region list" where
  "available s = filter (\<lambda>r. rg_type r = REGION_TYPE_AVAILABLE) (regions_array s)"

definition region_page_count :: "physical_region \<Rightarrow> nat" where
  "region_page_count r = unat (rg_length r) div 4096"

definition region_page :: "physical_region \<Rightarrow> nat \<Rightarrow> ptr" where
  "region_page r i = page_ptr (rg_page_array r) (of_nat i)"

definition region_pages :: "pmm \<Rightarrow> ptr list" where
  "region_pages s =
     concat (map (\<lambda>r. map (region_page r) [0..<region_page_count r]) (available s))"

text \<open>A region made of whole pages whose array describes them in order.\<close>

definition region_ok :: "(ptr \<rightharpoonup> u64 \<times> page_state) \<Rightarrow> physical_region \<Rightarrow> bool" where
  "region_ok core r \<longleftrightarrow> region_page_count r < 2 ^ 32 \<and>
     4096 dvd unat (rg_base r) \<and> 4096 dvd unat (rg_length r) \<and>
     unat (rg_base r) + unat (rg_length r) < 2 ^ 64 \<and>
     (\<forall>i < region_page_count r. \<exists>st. core (region_page r i) = Some (rg_base r + 4096 * of_nat i, st))"

text \<open>
  \<open>pmm_inv s ps\<close>: the free list is well linked and holds exactly the free pages of the available
  regions, each once; both counters agree with it; every region describes its pages.
\<close>

definition pmm_inv :: "pmm \<Rightarrow> ptr list \<Rightarrow> bool" where
  "pmm_inv s ps \<longleftrightarrow> free_rep s ps \<and> length (region_pages s) < 2 ^ 52 \<and> NULL \<notin> dom (pm_pages s) \<and>
     distinct (region_pages s) \<and> (\<forall>r \<in> set (available s). region_ok (page_core (pm_pages s)) r) \<and>
     set ps = {a \<in> set (region_pages s). \<exists>x. page_core (pm_pages s) a = Some (x, PAGE_STATE_FREE)} \<and>
     memory_free s = of_nat (4096 * length ps) \<and>
     regions_count s = of_nat (length (regions_array s)) \<and> length (regions_array s) < 2 ^ 31 \<and>
     initialized_regions s = regions_count s"

lemma pmm_inv_free_rep: "pmm_inv s ps \<Longrightarrow> free_rep s ps"
  by (simp add: pmm_inv_def)

lemma pmm_inv_distinct: "pmm_inv s ps \<Longrightarrow> distinct ps"
  by (auto simp: pmm_inv_def dest: free_rep_distinct)

lemma pmm_inv_length:
  assumes "pmm_inv s ps"
  shows "length ps \<le> length (region_pages s)"
proof -
  have "set ps \<subseteq> set (region_pages s)"
    using assms by (auto simp: pmm_inv_def)
  then have "card (set ps) \<le> card (set (region_pages s))"
    by (intro card_mono) auto
  also have "\<dots> \<le> length (region_pages s)"
    by (rule card_length)
  finally show ?thesis
    using pmm_inv_distinct [OF assms] by (simp add: distinct_card)
qed

lemma pmm_inv_count: "pmm_inv s ps \<Longrightarrow> unat (pages_in_free_list s) = length ps"
  using pmm_inv_length [of s ps] by (auto simp: pmm_inv_def intro!: free_rep_count)

text \<open>Pages of \<open>A\<close> turn used, pages outside \<open>B\<close> are untouched, nothing but page infos and the free
  list changes.\<close>

definition used_core ::
  "ptr set \<Rightarrow> (ptr \<rightharpoonup> u64 \<times> page_state) \<Rightarrow> (ptr \<rightharpoonup> u64 \<times> page_state)" where
  "used_core A core =
     (\<lambda>a. if a \<in> A then map_option (\<lambda>(x, _). (x, PAGE_STATE_USED)) (core a) else core a)"

definition claimed :: "ptr set \<Rightarrow> ptr set \<Rightarrow> pmm \<Rightarrow> pmm \<Rightarrow> bool" where
  "claimed A B s s' \<longleftrightarrow> page_core (pm_pages s') = used_core A (page_core (pm_pages s)) \<and>
     (\<forall>x. x \<notin> B \<longrightarrow> pm_pages s' x = pm_pages s x) \<and>
     regions_array s' = regions_array s \<and> regions_count s' = regions_count s \<and>
     initialized_regions s' = initialized_regions s \<and> memory_free s' = memory_free s \<and>
     memory_used s' = memory_used s \<and> memory_reserved s' = memory_reserved s"

lemma used_core_Un: "used_core A (used_core B core) = used_core (A \<union> B) core"
  by (rule ext) (auto simp: used_core_def option.map_comp comp_def case_prod_unfold)

lemma used_core_empty [simp]: "used_core {} core = core"
  by (simp add: used_core_def)

lemma dom_used_core [simp]: "dom (used_core A core) = dom core"
  by (auto simp: used_core_def split: if_splits)

lemma claimed_refl: "claimed {} B s s"
  by (simp add: claimed_def)

lemma claimed_trans:
  assumes "claimed A B s t" "claimed A' B' t u"
  shows "claimed (A' \<union> A) (B' \<union> B) s u"
  using assms by (auto simp: claimed_def used_core_Un)

lemma claimed_mono: "claimed A B s t \<Longrightarrow> B \<subseteq> B' \<Longrightarrow> claimed A B' s t"
  by (auto simp: claimed_def)

lemma relinked_claimed: "relinked B s t \<Longrightarrow> claimed {} B s t"
  by (simp add: claimed_def relinked_def)

lemma claimed_relinked_trans:
  assumes "claimed A B s t" "relinked C t u"
  shows "claimed A (B \<union> C) s u"
  using claimed_trans [OF assms(1) relinked_claimed [OF assms(2)]] by (simp add: Un_commute)

lemma claimed_dom: "claimed A B s t \<Longrightarrow> dom (pm_pages t) = dom (pm_pages s)"
  using dom_page_core [of "pm_pages s"] dom_page_core [of "pm_pages t"]
  by (simp add: claimed_def)

lemma claimed_regions:
  "claimed A B s t \<Longrightarrow> available t = available s \<and> region_pages t = region_pages s"
  by (simp add: claimed_def available_def region_pages_def)

lemma region_ok_used_core: "region_ok core r \<Longrightarrow> region_ok (used_core A core) r"
  by (fastforce simp: region_ok_def used_core_def)

text \<open>Claiming free pages and accounting for them keeps the invariant.\<close>

lemma pmm_inv_claim:
  assumes inv: "pmm_inv s ps" and cl: "claimed A B s t" and rep: "free_rep t qs"
    and A: "A \<subseteq> set ps" and qs: "set qs = set ps - A"
  shows "pmm_inv (t\<lparr>memory_free := memory_free t - of_nat (card A) * PAGE_SIZE,
                    memory_used := memory_used t + of_nat (card A) * PAGE_SIZE\<rparr>) qs"
    (is "pmm_inv ?t qs")
proof -
  have dist: "distinct ps" "distinct qs"
    using inv rep by (auto simp: pmm_inv_def dest: free_rep_distinct)
  have len: "length qs + card A = length ps"
  proof -
    have "card A \<le> card (set ps)"
      using A by (intro card_mono) auto
    moreover have "card (set qs) = card (set ps) - card A"
      using A qs by (simp add: card_Diff_subset finite_subset)
    ultimately show ?thesis
      using dist by (simp add: distinct_card)
  qed
  have core: "page_core (pm_pages ?t) = used_core A (page_core (pm_pages s))"
    using cl by (simp add: claimed_def)
  have reg: "available ?t = available s" "region_pages ?t = region_pages s"
    using claimed_regions [OF cl] by (simp_all add: available_def region_pages_def)
  have "set qs = {a \<in> set (region_pages ?t). \<exists>x. page_core (pm_pages ?t) a = Some (x, PAGE_STATE_FREE)}"
  proof -
    have "set ps = {a \<in> set (region_pages s). \<exists>x. page_core (pm_pages s) a = Some (x, PAGE_STATE_FREE)}"
      using inv by (simp add: pmm_inv_def)
    then show ?thesis
      unfolding core reg qs by (auto simp: used_core_def)
  qed
  moreover have "memory_free ?t = of_nat (4096 * length qs)"
  proof -
    have "memory_free t = of_nat (4096 * length ps)"
      using inv cl by (simp add: pmm_inv_def claimed_def)
    then show ?thesis
      using len [symmetric] by (simp add: algebra_simps)
  qed
  moreover have "NULL \<notin> dom (pm_pages ?t)"
    using claimed_dom [OF cl] inv by (simp add: pmm_inv_def)
  moreover have "\<forall>r \<in> set (available ?t). region_ok (page_core (pm_pages ?t)) r"
    unfolding core reg using inv by (simp add: pmm_inv_def region_ok_used_core)
  moreover have "free_rep ?t qs"
    using rep by (simp add: free_rep_def)
  ultimately show ?thesis
    using inv cl len reg by (simp add: pmm_inv_def claimed_def)
qed

section \<open>Allocating from the stack\<close>

lemma update_state_claimed:
  assumes "pm_pages s a = Some pg"
  shows "claimed {a} {a} s (s\<lparr>pm_pages := (pm_pages s)(a \<mapsto> pg\<lparr>pg_state := PAGE_STATE_USED\<rparr>)\<rparr>)"
  using assms by (auto simp: claimed_def used_core_def page_core_def)

lemma pmm_allocate_page_refine:
  assumes inv: "pmm_inv s (a # b # ps)"
  shows "\<exists>s'. pmm_allocate_page s = Ret (IR_OK, a, s') \<and> pmm_inv s' (b # ps) \<and>
    page_core (pm_pages s') = used_core {a} (page_core (pm_pages s)) \<and>
    (\<forall>x. x \<notin> set (a # b # ps) \<longrightarrow> pm_pages s' x = pm_pages s x) \<and> regions_array s' = regions_array s \<and>
    memory_free s' + memory_used s' = memory_free s + memory_used s"
proof -
  have rep: "free_rep s (a # b # ps)"
    using inv by (rule pmm_inv_free_rep)
  then obtain s1 pg where s1: "pmm_free_list_pop s = Ret (a, s1)" "free_rep s1 (b # ps)"
      "relinked {a, b} s s1" "pm_pages s1 a = Some pg"
    using pmm_free_list_pop_refine by blast
  define s2 where "s2 = s1\<lparr>pm_pages := (pm_pages s1)(a \<mapsto> pg\<lparr>pg_state := PAGE_STATE_USED\<rparr>)\<rparr>"
  have "a \<noteq> NULL" "a \<notin> set (b # ps)"
    using free_rep_nonnull [OF rep] free_rep_distinct [OF rep] by auto
  have cl: "claimed {a} {a, b} s s2"
    using claimed_trans [OF relinked_claimed [OF s1(3)] update_state_claimed [OF s1(4)]]
    by (auto simp: s2_def insert_commute)
  have rep2: "free_rep s2 (b # ps)"
    using s1 by (simp add: s2_def free_rep_def dlseg_upd_state del: dlseg.simps)
  have "pmm_allocate_page s = Ret (IR_OK, a,
      s2\<lparr>memory_free := memory_free s2 - of_nat (card {a}) * PAGE_SIZE,
         memory_used := memory_used s2 + of_nat (card {a}) * PAGE_SIZE\<rparr>)"
    using s1 \<open>a \<noteq> NULL\<close> by (simp add: pmm_allocate_page_def s2_def)
  moreover have "pmm_inv (s2\<lparr>memory_free := memory_free s2 - of_nat (card {a}) * PAGE_SIZE,
         memory_used := memory_used s2 + of_nat (card {a}) * PAGE_SIZE\<rparr>) (b # ps)"
    using \<open>a \<notin> set (b # ps)\<close> by (intro pmm_inv_claim [OF inv cl rep2]) auto
  ultimately show ?thesis
    using cl by (auto simp: claimed_def)
qed

lemma dlseg_relinked:
  "relinked A s t \<Longrightarrow> A \<inter> set us = {} \<Longrightarrow> dlseg (pm_pages t) v p us q = dlseg (pm_pages s) v p us q"
  by (rule dlseg_cong) (auto simp: relinked_def)

lemma pmm_append_popped_step:
  assumes rep: "free_rep t (a # b # qs)" and us: "us \<noteq> []" "dlseg (pm_pages t) NULL p us NULL"
    and disj: "set us \<inter> set (a # b # qs) = {}"
  shows "\<exists>t'. pmm_append_popped i (last us, t) = Ret (a, t') \<and> free_rep t' (b # qs) \<and>
    claimed {a} (set (a # b # qs) \<union> set us) t t' \<and> dlseg (pm_pages t') NULL p (us @ [a]) NULL"
proof -
  obtain t1 pg where t1: "pmm_free_list_pop t = Ret (a, t1)" "free_rep t1 (b # qs)"
      "relinked {a, b} t t1" "pm_pages t1 a = Some pg" "pg_prev pg = NULL" "pg_next pg = NULL"
    using pmm_free_list_pop_refine [OF rep] by blast
  have a: "a \<noteq> NULL" "a \<notin> set (b # qs)" "a \<notin> set us" "last us \<noteq> a" "last us \<notin> set (b # qs)"
    using free_rep_nonnull [OF rep] free_rep_distinct [OF rep] disj last_in_set [OF us(1)] by (auto simp del: last_in_set)
  have "dlseg (pm_pages t1) NULL p us NULL"
    using us(2) disj by (subst dlseg_relinked [OF t1(3)]) auto
  then obtain pl where pl: "pm_pages t1 (last us) = Some pl"
      "dlseg ((pm_pages t1)(last us \<mapsto> pl\<lparr>pg_next := a\<rparr>)) NULL p us a"
    using dlseg_set_end [of "pm_pages t1" NULL p us NULL a] us(1) dlseg_distinct by blast
  define m where "m = (pm_pages t1)(last us \<mapsto> pl\<lparr>pg_next := a\<rparr>,
    a \<mapsto> pg\<lparr>pg_state := PAGE_STATE_USED, pg_prev := last us\<rparr>)"
  have "pmm_append_popped i (last us, t) = Ret (a, t1\<lparr>pm_pages := m\<rparr>)"
    using t1 pl a by (simp add: pmm_append_popped_def m_def)
  moreover have "free_rep (t1\<lparr>pm_pages := m\<rparr>) (b # qs)"
    using t1(2) a unfolding m_def free_rep_def by (simp del: dlseg.simps)
  moreover have "dlseg m NULL p (us @ [a]) NULL"
    unfolding dlseg_append
  proof (intro exI conjI)
    show "dlseg m NULL p us a"
      using pl(2) a by (simp add: m_def)
    show "dlseg m (last (NULL # us)) a [a] NULL"
      using a t1 us(1) by (simp add: m_def)
  qed
  moreover have "claimed {a} (set (a # b # qs) \<union> set us) t (t1\<lparr>pm_pages := m\<rparr>)"
  proof -
    have "page_core m = used_core {a} (page_core (pm_pages t1))"
      using pl(1) t1(4) a by (auto simp: m_def page_core_def used_core_def)
    then show ?thesis
      using t1(3) us(1) by (auto simp: claimed_def relinked_def m_def)
  qed
  ultimately show ?thesis by auto
qed

lemma take_Suc_nth: "k < length ps \<Longrightarrow> take (Suc k) ps = take k ps @ [ps ! k]"
  by (rule take_Suc_conv_app_nth)

lemma pmm_append_loop:
  assumes rep: "free_rep s1 (drop 1 ps)" and ps: "distinct ps" "0 < n" "n < length ps"
    and start: "dlseg (pm_pages s1) NULL (hd ps) (take 1 ps) NULL" "claimed {hd ps} (set ps) s s1"
  shows "\<exists>t. ofold pmm_append_popped (map of_nat [1..<n]) (hd ps, s1) = Ret (ps ! (n - 1), t) \<and>
    free_rep t (drop n ps) \<and> claimed (set (take n ps)) (set ps) s t \<and>
    dlseg (pm_pages t) NULL (hd ps) (take n ps) NULL"
proof -
  define P where "P us pt \<longleftrightarrow> (let k = Suc (length us) in
      fst pt = ps ! (k - 1) \<and> free_rep (snd pt) (drop k ps) \<and>
      claimed (set (take k ps)) (set ps) s (snd pt) \<and>
      dlseg (pm_pages (snd pt)) NULL (hd ps) (take k ps) NULL)" for us :: "u32 list" and pt
  have "ps \<noteq> []"
    using ps by auto
  have "\<exists>t. ofold pmm_append_popped (map of_nat [1..<n]) (hd ps, s1) = Ret t \<and>
      P (map of_nat [1..<n]) t"
  proof (rule ofold_invariant)
    show "P [] (hd ps, s1)"
      using rep start \<open>ps \<noteq> []\<close> by (cases ps) (simp_all add: P_def)
  next
    fix us :: "u32 list" and v ws and t :: "ptr \<times> pmm"
    assume split: "map of_nat [1..<n] = us @ v # ws" and "P us t"
    define k where "k = Suc (length us)"
    have "length (map of_nat [1..<n] :: u32 list) = length us + Suc (length ws)"
      by (simp only: split length_append list.size)
    then have k: "Suc k \<le> n"
      by (simp add: k_def)
    then have lt: "Suc k < length ps"
      using ps by simp
    then have drop: "drop k ps = ps ! k # ps ! Suc k # drop (Suc (Suc k)) ps"
      by (simp add: Cons_nth_drop_Suc)
    have ne: "take k ps \<noteq> []" "last (take k ps) = ps ! (k - 1)"
      using lt by (simp_all add: k_def take_Suc_nth)
    from \<open>P us t\<close> have inv: "fst t = last (take k ps)" "free_rep (snd t) (drop k ps)"
        "claimed (set (take k ps)) (set ps) s (snd t)"
        "dlseg (pm_pages (snd t)) NULL (hd ps) (take k ps) NULL"
      using ne by (simp_all add: P_def k_def [symmetric] Let_def)
    have disj: "set (take k ps) \<inter> set (drop k ps) = {}"
      using ps(1) by (simp add: set_take_disj_set_drop_if_distinct)
    obtain t' where t': "pmm_append_popped v (fst t, snd t) = Ret (ps ! k, t')"
        "free_rep t' (drop (Suc k) ps)"
        "claimed {ps ! k} (set (drop k ps) \<union> set (take k ps)) (snd t) t'"
        "dlseg (pm_pages t') NULL (hd ps) (take k ps @ [ps ! k]) NULL"
      using pmm_append_popped_step [of "snd t" "ps ! k" "ps ! Suc k" "drop (Suc (Suc k)) ps"
          "take k ps" "hd ps" v] inv ne disj lt
      unfolding drop [symmetric] by (auto simp: Cons_nth_drop_Suc)
    have "set (drop k ps) \<union> set (take k ps) = set ps"
      by (metis append_take_drop_id set_append Un_commute)
    then have "claimed (set (take (Suc k) ps)) (set ps) s t'"
      using claimed_trans [OF inv(3) t'(3)] lt by (simp add: take_Suc_nth)
    then have "P (us @ [v]) (ps ! k, t')"
      using t' lt by (simp add: P_def k_def [symmetric] take_Suc_nth [symmetric])
    with t'(1) show "\<exists>t'. pmm_append_popped v t = Ret t' \<and> P (us @ [v]) t'"
      by (cases t) auto
  qed
  then show ?thesis
    using ps by (auto simp: P_def Let_def)
qed

lemma pmm_allocate_pages_refine:
  assumes inv: "pmm_inv s ps" and n: "0 < unat n" "unat n < length ps" "unat n < 2 ^ 32"
  shows "\<exists>s'. pmm_allocate_pages n s = Ret (IR_OK, Some (hd ps), s') \<and>
    pmm_inv s' (drop (unat n) ps) \<and>
    dlseg (pm_pages s') NULL (hd ps) (take (unat n) ps) NULL \<and>
    page_core (pm_pages s') = used_core (set (take (unat n) ps)) (page_core (pm_pages s)) \<and>
    (\<forall>x. x \<notin> set ps \<longrightarrow> pm_pages s' x = pm_pages s x) \<and>
    memory_free s' + memory_used s' = memory_free s + memory_used s \<and> regions_array s' = regions_array s"
proof -
  obtain a b qs where ps: "ps = a # b # qs"
    using n by (cases ps; cases "tl ps") auto
  have rep: "free_rep s ps" and dist: "distinct ps"
    using inv by (auto intro: pmm_inv_free_rep pmm_inv_distinct)
  then obtain s1 pg where s1: "pmm_free_list_pop s = Ret (a, s1)" "free_rep s1 (b # qs)"
      "relinked {a, b} s s1" "pm_pages s1 a = Some pg" "pg_prev pg = NULL" "pg_next pg = NULL"
    using pmm_free_list_pop_refine ps by blast
  define s2 where "s2 = s1\<lparr>pm_pages := (pm_pages s1)(a \<mapsto> pg\<lparr>pg_state := PAGE_STATE_USED\<rparr>)\<rparr>"
  have "a \<noteq> NULL"
    using free_rep_nonnull [OF rep] ps by auto
  have cl: "claimed {hd ps} (set ps) s s2"
    using claimed_mono [OF claimed_trans [OF relinked_claimed [OF s1(3)] update_state_claimed [OF s1(4)]], of "set ps"]
    by (simp add: s2_def ps)
  have rep2: "free_rep s2 (drop 1 ps)"
    using s1 by (simp add: s2_def free_rep_def ps dlseg_upd_state del: dlseg.simps)
  have "dlseg (pm_pages s2) NULL (hd ps) (take 1 ps) NULL"
    using s1 \<open>a \<noteq> NULL\<close> by (simp add: s2_def ps)
  then obtain t where t: "ofold pmm_append_popped (map of_nat [1..<unat n]) (hd ps, s2) =
        Ret (ps ! (unat n - 1), t)"
      "free_rep t (drop (unat n) ps)" "claimed (set (take (unat n) ps)) (set ps) s t"
      "dlseg (pm_pages t) NULL (hd ps) (take (unat n) ps) NULL"
    using pmm_append_loop [OF rep2 dist n(1,2) _ cl] by blast
  have card: "of_nat (card (set (take (unat n) ps))) = n"
    using dist n(2) by (simp add: distinct_card)
  let ?t = "t\<lparr>memory_free := memory_free t - n * PAGE_SIZE, memory_used := memory_used t + n * PAGE_SIZE\<rparr>"
  have "\<not> pages_in_free_list s < n" "n \<noteq> 0"
    using n pmm_inv_count [OF inv] by (auto simp: word_less_nat_alt)
  then have "pmm_allocate_pages n s = Ret (IR_OK, Some (hd ps), ?t)"
    using s1(1,4) t(1) n(3) by (simp add: pmm_allocate_pages_def for_uint_ofold s2_def ps)
  moreover have "pmm_inv ?t (drop (unat n) ps)"
  proof -
    have "set (drop (unat n) ps) = set ps - set (take (unat n) ps)"
      using set_take_disj_set_drop_if_distinct [OF dist, of "unat n" "unat n"]
        append_take_drop_id [of "unat n" ps] by (metis Diff_cancel Un_Diff Diff_triv Un_empty_left inf_commute order_refl set_append)
    then show ?thesis
      using pmm_inv_claim [OF inv t(3) t(2)] set_take_subset [of "unat n" ps] by (simp add: card)
  qed
  ultimately show ?thesis
    using t(3,4) by (auto simp: claimed_def)
qed

section \<open>Taking a run of pages out of a region\<close>

lemma pmm_take_page_step:
  assumes rep: "free_rep t qs" and a: "a = page_ptr arr (ucast i)" "a \<in> set qs"
    and us: "dlseg (pm_pages t) NULL p us q" "set us \<inter> set qs = {}" "distinct us"
  shows "\<exists>t'. pmm_take_page arr i (last (NULL # us), t) = Ret (a, t') \<and> free_rep t' (remove1 a qs) \<and>
    claimed {a} (set qs \<union> set us) t t' \<and> (\<exists>p q. dlseg (pm_pages t') NULL p (us @ [a]) q)"
proof -
  obtain as bs where qs: "qs = as @ a # bs" "a \<notin> set as"
    using split_list_first [OF a(2)] by blast
  have dist: "distinct qs"
    using rep by (rule free_rep_distinct)
  obtain pg where pg: "pm_pages t a = Some pg" and "a \<noteq> NULL"
    using free_rep_dom [OF rep] free_rep_nonnull [OF rep] a(2) by blast
  define t1 where "t1 = t\<lparr>pm_pages := (pm_pages t)(a \<mapsto> pg\<lparr>pg_state := PAGE_STATE_USED\<rparr>)\<rparr>"
  have rep1: "free_rep t1 (as @ a # bs)"
    using rep pg by (simp add: t1_def free_rep_def dlseg_upd_state qs)
  then obtain t2 where t2: "pmm_free_list_remove a t1 = Ret t2" "free_rep t2 (as @ bs)"
      "relinked (set (as @ bs)) t1 t2"
    using pmm_free_list_remove_refine by blast
  have a_free: "a \<notin> set (as @ bs)" and a_us: "a \<notin> set us"
    using dist qs us(2) a(2) by auto
  then have a2: "pm_pages t2 a = Some (pg\<lparr>pg_state := PAGE_STATE_USED\<rparr>)"
    using t2(3) by (simp add: relinked_def t1_def)
  have cl: "claimed {a} (set qs) t t2"
    using claimed_relinked_trans [OF update_state_claimed [OF pg] t2(3) [unfolded t1_def]]
    by (rule claimed_mono) (simp add: qs)
  have seg2: "dlseg (pm_pages t2) NULL p us q"
  proof -
    have "dlseg (pm_pages t1) NULL p us q"
      using us(1) a_us by (simp add: t1_def)
    then show ?thesis
      using us(2) by (subst dlseg_relinked [OF t2(3)]) (auto simp: qs)
  qed
  have "\<exists>t3. (if last (NULL # us) \<noteq> NULL
        then update_page (last (NULL # us)) (\<lambda>pg. pg\<lparr>pg_next := a\<rparr>) t2 else Ret t2) = Ret t3 \<and>
      claimed {a} (set qs \<union> set us) t t3 \<and> free_rep t3 (as @ bs) \<and> pm_pages t3 a = pm_pages t2 a \<and>
      (\<exists>p. dlseg (pm_pages t3) NULL p us a)"
  proof (cases "us = []")
    case True
    then show ?thesis
      using claimed_mono [OF cl, of "set qs \<union> set us"] t2(2) by simp
  next
    case False
    then obtain pl where pl: "pm_pages t2 (last us) = Some pl"
        "dlseg ((pm_pages t2)(last us \<mapsto> pl\<lparr>pg_next := a\<rparr>)) NULL p us a"
      using dlseg_set_end [OF seg2, of a] us(3) by blast
    have lu: "last us \<in> set us"
      using False by simp
    then have ne: "last us \<noteq> NULL" "last us \<noteq> a" "last us \<notin> set (as @ bs)"
      using dlseg_nonnull [OF seg2] a_us us(2) qs by (auto simp del: last_in_set)
    define t3 where "t3 = t2\<lparr>pm_pages := (pm_pages t2)(last us \<mapsto> pl\<lparr>pg_next := a\<rparr>)\<rparr>"
    have "claimed {} {last us} t2 t3"
      using pl(1) by (auto simp: claimed_def t3_def)
    from claimed_mono [OF claimed_trans [OF cl this], of "set qs \<union> set us"]
    have "claimed {a} (set qs \<union> set us) t t3"
      using lu by simp
    moreover have "free_rep t3 (as @ bs)"
      using t2(2) ne(3) unfolding t3_def free_rep_def by (simp del: set_append)
    moreover have "update_page (last us) (\<lambda>pg. pg\<lparr>pg_next := a\<rparr>) t2 = Ret t3"
      using pl(1) by (simp add: t3_def)
    ultimately show ?thesis
      using pl(2) ne False by (auto simp: t3_def)
  qed
  then obtain t3 p' where t3: "(if last (NULL # us) \<noteq> NULL
        then update_page (last (NULL # us)) (\<lambda>pg. pg\<lparr>pg_next := a\<rparr>) t2 else Ret t2) = Ret t3"
      "claimed {a} (set qs \<union> set us) t t3" "free_rep t3 (as @ bs)" "pm_pages t3 a = pm_pages t2 a"
      "dlseg (pm_pages t3) NULL p' us a"
    by blast
  let ?pg = "pg\<lparr>pg_state := PAGE_STATE_USED, pg_prev := last (NULL # us)\<rparr>"
  define t4 where "t4 = t3\<lparr>pm_pages := (pm_pages t3)(a \<mapsto> ?pg)\<rparr>"
  have up1: "update_page a (\<lambda>pg. pg\<lparr>pg_state := PAGE_STATE_USED\<rparr>) t = Ret t1"
    using pg by (simp add: t1_def)
  have up4: "update_page a (\<lambda>pg. pg\<lparr>pg_prev := last (NULL # us)\<rparr>) t3 = Ret t4"
    using t3(4) a2 by (simp add: t4_def)
  have "pmm_take_page arr i (last (NULL # us), t) = Ret (a, t4)"
    unfolding pmm_take_page_def prod.case Let_def a(1) [symmetric] up1 obind.simps t2(1) t3(1) up4
    by (rule refl)
  moreover have "free_rep t4 (remove1 a qs)"
    using t3(3) a_free qs by (simp add: t4_def free_rep_def remove1_append)
  moreover have "claimed {a} (set qs \<union> set us) t t4"
  proof -
    have "claimed {} {a} t3 t4"
      using t3(4) a2 by (auto simp: claimed_def t4_def page_core_def)
    from claimed_mono [OF claimed_trans [OF t3(2) this], of "set qs \<union> set us"] show ?thesis
      using a(2) by simp
  qed
  moreover have "dlseg (pm_pages t4) NULL p' (us @ [a]) (pg_next pg)"
    unfolding dlseg_append using t3(5) a_us \<open>a \<noteq> NULL\<close> by (intro exI [of _ a]) (simp add: t4_def)
  ultimately show ?thesis by blast
qed

lemma distinct_remove1_filter: "distinct qs \<Longrightarrow> remove1 a qs = filter (\<lambda>x. x \<noteq> a) qs"
  by (simp add: distinct_remove1_removeAll removeAll_filter_not_eq eq_commute)

lemma pmm_take_run:
  assumes rep: "free_rep s ps" and run: "distinct (map (\<lambda>i. page_ptr arr (ucast i)) is)"
    and sub: "(\<lambda>i. page_ptr arr (ucast i)) ` set is \<subseteq> set ps"
  defines "run \<equiv> map (\<lambda>i. page_ptr arr (ucast i)) is"
  shows "\<exists>t q. ofold (pmm_take_page arr) is (NULL, s) = Ret (last (NULL # run), t) \<and>
    free_rep t (filter (\<lambda>x. x \<notin> set run) ps) \<and> claimed (set run) (set ps) s t \<and>
    (is \<noteq> [] \<longrightarrow> dlseg (pm_pages t) NULL (hd run) run q)"
proof -
  let ?f = "\<lambda>i. page_ptr arr (ucast (i :: u32))"
  have dist: "distinct ps"
    using rep by (rule free_rep_distinct)
  define P where "P us pt \<longleftrightarrow> (let vs = map ?f us in
      fst pt = last (NULL # vs) \<and> free_rep (snd pt) (filter (\<lambda>x. x \<notin> set vs) ps) \<and>
      claimed (set vs) (set ps) s (snd pt) \<and> (\<exists>p q. dlseg (pm_pages (snd pt)) NULL p vs q))" for us pt
  have "\<exists>t. ofold (pmm_take_page arr) is (NULL, s) = Ret t \<and> P is t"
  proof (rule ofold_invariant)
    have "dlseg (pm_pages s) NULL NULL [] NULL"
      by simp
    with rep show "P [] (NULL, s)"
      unfolding P_def Let_def by (auto simp: claimed_refl simp del: dlseg.simps)
  next
    fix us v ws and t :: "ptr \<times> pmm"
    assume split: "is = us @ v # ws" and "P us t"
    define vs where "vs = map ?f us"
    define qs where "qs = filter (\<lambda>x. x \<notin> set vs) ps"
    from \<open>P us t\<close> obtain p q where inv: "fst t = last (NULL # vs)" "free_rep (snd t) qs"
        "claimed (set vs) (set ps) s (snd t)" "dlseg (pm_pages (snd t)) NULL p vs q"
      by (auto simp: P_def vs_def [symmetric] qs_def [symmetric] Let_def)
    have v: "?f v \<in> set ps" "?f v \<notin> set vs" "distinct vs" "set vs \<subseteq> set ps"
      using sub run by (auto simp: split vs_def)
    then have mem: "?f v \<in> set qs" and disj: "set vs \<inter> set qs = {}"
      by (auto simp: qs_def)
    obtain t' p' q' where t': "pmm_take_page arr v (last (NULL # vs), snd t) = Ret (?f v, t')"
        "free_rep t' (remove1 (?f v) qs)" "claimed {?f v} (set qs \<union> set vs) (snd t) t'"
        "dlseg (pm_pages t') NULL p' (vs @ [?f v]) q'"
      using pmm_take_page_step [OF inv(2) refl mem inv(4) disj v(3)] by blast
    have "remove1 (?f v) qs = filter (\<lambda>x. x \<notin> set (vs @ [?f v])) ps"
      using dist by (simp add: qs_def distinct_remove1_filter conj_commute cong: filter_cong)
    moreover have "claimed (set (vs @ [?f v])) (set ps) s t'"
      using claimed_mono [OF claimed_trans [OF inv(3) t'(3)], of "set ps"] v(4) by (auto simp: qs_def)
    ultimately have "P (us @ [v]) (?f v, t')"
      using t' by (auto simp: P_def vs_def [symmetric])
    then show "\<exists>t'. pmm_take_page arr v t = Ret t' \<and> P (us @ [v]) t'"
      using t'(1) inv(1) by (cases t) auto
  qed
  then obtain t where t: "ofold (pmm_take_page arr) is (NULL, s) = Ret t" "P is t"
    by blast
  then show ?thesis
    unfolding P_def Let_def run_def [symmetric] using dlseg_start [of "pm_pages (snd t)" NULL _ run]
    by (cases t) (auto simp: run_def)
qed

section \<open>Searching for a run\<close>

text \<open>Page \<open>i\<close> of a region is free and starts below the limit.\<close>

definition page_usable :: "pmm \<Rightarrow> physical_region \<Rightarrow> u64 \<Rightarrow> nat \<Rightarrow> bool" where
  "page_usable s r limit i \<longleftrightarrow> (case pm_pages s (region_page r i) of
     None \<Rightarrow> False | Some pg \<Rightarrow> pg_state pg = PAGE_STATE_FREE \<and> pg_address pg < limit)"

definition run_at :: "pmm \<Rightarrow> physical_region \<Rightarrow> u64 \<Rightarrow> nat \<Rightarrow> nat \<Rightarrow> bool" where
  "run_at s r limit n i \<longleftrightarrow> i + n \<le> region_page_count r \<and> (\<forall>j \<in> {i..<i + n}. page_usable s r limit j)"

lemma pmm_find_run_correct:
  assumes pages: "\<And>i. i < N \<Longrightarrow> region_page r i \<in> dom (pm_pages s)"
    and N: "N = region_page_count r" "N < 2 ^ 32" and n: "0 < n" "n = unat cnt"
    and run: "k = N - i" "i \<le> N" "b \<le> i" "i - b < n" "\<And>j. b \<le> j \<Longrightarrow> j < i \<Longrightarrow> page_usable s r limit j"
    and none: "\<And>j. j < b \<Longrightarrow> \<not> run_at s r limit n j"
  shows "(\<exists>j. pmm_find_run s r cnt limit k (of_nat i) (of_nat b) (of_nat (i - b)) = Ret (Some (of_nat j)) \<and>
      run_at s r limit n j) \<or>
    (pmm_find_run s r cnt limit k (of_nat i) (of_nat b) (of_nat (i - b)) = Ret None \<and>
      (\<forall>j. \<not> run_at s r limit n j))"
  using run none
proof (induction k arbitrary: i b)
  case 0
  then have "\<not> run_at s r limit n j" for j
    using N by (cases "j < b") (auto simp: run_at_def)
  then show ?case by simp
next
  case (Suc k)
  then have i: "i < N" "k = N - Suc i"
    by auto
  obtain pg where pg: "pm_pages s (region_page r i) = Some pg"
    using pages [OF i(1)] by auto
  have usable: "page_usable s r limit i \<longleftrightarrow> pg_state pg = PAGE_STATE_FREE \<and> pg_address pg < limit"
    by (simp add: page_usable_def pg)
  have ld: "load (pm_pages s) (page_ptr (rg_page_array r) (of_nat i)) = Ret pg"
    using pg by (simp add: region_page_def)
  have next_i: "(of_nat i :: u64) + 1 = of_nat (Suc i)"
    by simp
  show ?case
  proof (cases "page_usable s r limit i")
    case True
    have found: "(of_nat (i - b) :: u64) + 1 = of_nat (Suc i - b)"
      using Suc.prems(3) by (simp add: Suc_diff_le)
    have "unat (of_nat (Suc i - b) :: u64) = Suc i - b"
      using i(1) N(2) by (intro unat_of_nat_u64) simp
    then have eq: "(of_nat (Suc i - b) :: u64) = cnt \<longleftrightarrow> Suc i - b = n"
      using n by (auto simp: word_unat_eq_iff)
    show ?thesis
    proof (cases "Suc i - b = n")
      case fin: True
      have "run_at s r limit n b"
        unfolding run_at_def
      proof (intro conjI ballI)
        show "b + n \<le> region_page_count r"
          using fin i(1) N Suc.prems(3) by linarith
        show "page_usable s r limit j" if "j \<in> {b..<b + n}" for j
          using that Suc.prems(5) [of j] True fin by (cases "j = i") auto
      qed
      moreover have "pmm_find_run s r cnt limit (Suc k) (of_nat i) (of_nat b) (of_nat (i - b)) =
          Ret (Some (of_nat b))"
        using True found eq fin by (simp add: ld usable)
      ultimately show ?thesis by blast
    next
      case False
      have "Suc i - b < n"
        using False Suc.prems(3,4) by linarith
      moreover have "page_usable s r limit j" if "b \<le> j" "j < Suc i" for j
        using that Suc.prems(5) [of j] True by (cases "j = i") auto
      ultimately have "(\<exists>j. pmm_find_run s r cnt limit k (of_nat (Suc i)) (of_nat b) (of_nat (Suc i - b)) =
            Ret (Some (of_nat j)) \<and> run_at s r limit n j) \<or>
          (pmm_find_run s r cnt limit k (of_nat (Suc i)) (of_nat b) (of_nat (Suc i - b)) = Ret None \<and>
            (\<forall>j. \<not> run_at s r limit n j))"
        using Suc.IH [of "Suc i" b] i Suc.prems(3,6) by simp
      then show ?thesis
        using True False by (simp add: ld usable found eq next_i del: of_nat_Suc)
    qed
  next
    case False
    have none: "\<not> run_at s r limit n j" if "j < Suc i" for j
    proof (cases "j < b")
      case True
      then show ?thesis
        by (rule Suc.prems(6))
    next
      case jb: False
      then have "i \<in> {j..<j + n}"
        using that Suc.prems(4) by auto
      then show ?thesis
        using False by (auto simp: run_at_def)
    qed
    have "(\<exists>j. pmm_find_run s r cnt limit k (of_nat (Suc i)) (of_nat (Suc i)) (of_nat (Suc i - Suc i)) =
            Ret (Some (of_nat j)) \<and> run_at s r limit n j) \<or>
          (pmm_find_run s r cnt limit k (of_nat (Suc i)) (of_nat (Suc i)) (of_nat (Suc i - Suc i)) = Ret None \<and>
            (\<forall>j. \<not> run_at s r limit n j))"
      by (rule Suc.IH) (use i n none in auto)
    moreover have "pmm_find_run s r cnt limit (Suc k) (of_nat i) (of_nat b) (of_nat (i - b)) =
        pmm_find_run s r cnt limit k (of_nat (Suc i)) (of_nat (Suc i)) (of_nat (Suc i - Suc i))"
      using False by (auto simp: ld usable next_i simp del: of_nat_Suc)
    ultimately show ?thesis by simp
  qed
qed

lemma region_pages_in_dom:
  assumes "pmm_inv s ps" "r \<in> set (available s)" "i < region_page_count r"
  shows "region_page r i \<in> set (region_pages s)"
    "\<exists>pg. pm_pages s (region_page r i) = Some pg \<and> pg_address pg = rg_base r + 4096 * of_nat i"
proof -
  show "region_page r i \<in> set (region_pages s)"
    using assms(2,3) by (auto simp: region_pages_def intro!: bexI [of _ r])
  have "\<exists>st. page_core (pm_pages s) (region_page r i) = Some (rg_base r + 4096 * of_nat i, st)"
    using assms by (auto simp: pmm_inv_def region_ok_def)
  then show "\<exists>pg. pm_pages s (region_page r i) = Some pg \<and> pg_address pg = rg_base r + 4096 * of_nat i"
    by (auto dest: page_core_SomeD)
qed

lemma page_usable_free:
  assumes inv: "pmm_inv s ps" and r: "r \<in> set (available s)" "i < region_page_count r"
    and "page_usable s r limit i"
  shows "region_page r i \<in> set ps"
proof -
  have "\<exists>x. page_core (pm_pages s) (region_page r i) = Some (x, PAGE_STATE_FREE)"
    using assms(4) by (auto simp: page_usable_def page_core_def split: option.splits)
  moreover have "set ps = {a \<in> set (region_pages s). \<exists>x. page_core (pm_pages s) a = Some (x, PAGE_STATE_FREE)}"
    using inv by (simp add: pmm_inv_def)
  ultimately show ?thesis
    using region_pages_in_dom(1) [OF inv r] by simp
qed

lemma distinct_concat_member: "distinct (concat xss) \<Longrightarrow> xs \<in> set xss \<Longrightarrow> distinct xs"
  by (auto simp: distinct_concat_iff)

lemma region_page_distinct:
  assumes "pmm_inv s ps" "r \<in> set (available s)" "j \<le> region_page_count r"
  shows "distinct (map (region_page r) [i..<j])"
proof -
  let ?xs = "map (\<lambda>r. map (region_page r) [0..<region_page_count r]) (available s)"
  have "distinct (concat ?xs)"
    using assms(1) by (simp add: pmm_inv_def region_pages_def)
  moreover have "map (region_page r) [0..<region_page_count r] \<in> set ?xs"
    using assms(2) by simp
  ultimately have "distinct (map (region_page r) [0..<region_page_count r])"
    by (rule distinct_concat_member)
  then have "inj_on (region_page r) {0..<region_page_count r}"
    by (simp add: distinct_map)
  then have "inj_on (region_page r) {i..<j}"
    by (rule inj_on_subset) (use assms(3) in auto)
  then show ?thesis
    by (simp add: distinct_map)
qed

lemma region_page_u32: "i < 2 ^ 32 \<Longrightarrow> page_ptr (rg_page_array r) (ucast (of_nat i :: u32)) = region_page r i"
  by (simp add: region_page_def ucast_of_nat_u32_u64)

text \<open>Both range allocators on a free run of a region, up to the end of the chain.\<close>

lemma pmm_take_region_run:
  assumes inv: "pmm_inv s ps" and r: "r \<in> set (available s)" and n: "i + n \<le> region_page_count r"
    and sub: "region_page r ` {i..<i + n} \<subseteq> set ps"
  defines "run \<equiv> map (region_page r) [i..<i + n]"
  shows "\<exists>t q. ofold (pmm_take_page (rg_page_array r)) (map of_nat [i..<i + n]) (NULL, s) =
      Ret (last (NULL # run), t) \<and> free_rep t (filter (\<lambda>x. x \<notin> set run) ps) \<and>
      claimed (set run) (set ps) s t \<and> (0 < n \<longrightarrow> dlseg (pm_pages t) NULL (hd run) run q)"
proof -
  let ?is = "map of_nat [i..<i + n] :: u32 list"
  have "region_page_count r < 2 ^ 32"
    using inv r by (auto simp: pmm_inv_def region_ok_def)
  then have run: "map (\<lambda>i. page_ptr (rg_page_array r) (ucast i)) ?is = run"
    using n by (auto simp: run_def region_page_u32)
  have "distinct run"
    using region_page_distinct [OF inv r n] by (simp add: run_def)
  moreover have "(\<lambda>i. page_ptr (rg_page_array r) (ucast i)) ` set ?is \<subseteq> set ps"
    using sub by (simp only: set_map [symmetric] run) (auto simp: run_def)
  moreover have "(?is \<noteq> []) = (0 < n)"
    by auto
  ultimately show ?thesis
    using pmm_take_run [of s ps "rg_page_array r" ?is] pmm_inv_free_rep [OF inv]
    unfolding run by blast
qed

text \<open>The pages \<open>i, \<dots>, i + n - 1\<close> of region \<open>r\<close> left the free list and became a used chain.\<close>

definition took_run :: "pmm \<Rightarrow> ptr list \<Rightarrow> physical_region \<Rightarrow> nat \<Rightarrow> nat \<Rightarrow> pmm \<Rightarrow> bool" where
  "took_run s ps r i n s' \<longleftrightarrow> (let run = map (region_page r) [i..<i + n] in
     pmm_inv s' (filter (\<lambda>x. x \<notin> set run) ps) \<and> set run \<subseteq> set ps \<and>
     (\<exists>q. dlseg (pm_pages s') NULL (region_page r i) run q) \<and>
     page_core (pm_pages s') = used_core (set run) (page_core (pm_pages s)) \<and>
     (\<forall>x. x \<notin> set ps \<longrightarrow> pm_pages s' x = pm_pages s x) \<and>
     memory_free s' + memory_used s' = memory_free s + memory_used s)"

lemma ucast_of_nat_u64_u32: "(ucast (of_nat n :: u64) :: u32) = of_nat n"
  by (rule bit_word_eqI) (simp add: bit_simps)

lemma unat_run_bound:
  assumes "i + unat cnt < 2 ^ 32"
  shows "unat ((of_nat i :: u64) + cnt) = i + unat cnt"
proof -
  have "of_nat i + cnt = (of_nat (i + unat cnt) :: u64)"
    by simp
  moreover have "i + unat cnt < 2 ^ 64"
    using assms by simp
  ultimately show ?thesis
    by (metis unat_of_nat_u64)
qed

lemma pmm_take_accounted:
  assumes inv: "pmm_inv s ps" and r: "r \<in> set (available s)"
    and n: "i + unat cnt \<le> region_page_count r" "0 < unat cnt"
    and sub: "region_page r ` {i..<i + unat cnt} \<subseteq> set ps"
  obtains t where "for_uint (pmm_take_page (rg_page_array r)) (of_nat i + cnt) (of_nat i) (NULL, s) =
      Some (Ret (region_page r (i + unat cnt - 1), t))"
    "took_run s ps r i (unat cnt) (t\<lparr>memory_free := memory_free t - cnt * PAGE_SIZE,
       memory_used := memory_used t + cnt * PAGE_SIZE\<rparr>)"
proof -
  let ?run = "map (region_page r) [i..<i + unat cnt]"
  have small: "region_page_count r < 2 ^ 32"
    using inv r by (auto simp: pmm_inv_def region_ok_def)
  have b: "unat ((of_nat i :: u64) + cnt) = i + unat cnt" and i: "unat (of_nat i :: u32) = i"
    using small n by (simp_all add: unat_run_bound unat_of_nat_u32)
  obtain t q where t: "ofold (pmm_take_page (rg_page_array r)) (map of_nat [i..<i + unat cnt]) (NULL, s) =
      Ret (last (NULL # ?run), t)" "free_rep t (filter (\<lambda>x. x \<notin> set ?run) ps)"
      "claimed (set ?run) (set ps) s t" "dlseg (pm_pages t) NULL (hd ?run) ?run q"
    using pmm_take_region_run [OF inv r n(1) sub] n(2) by blast
  have lst: "last (NULL # ?run) = region_page r (i + unat cnt - 1)" and hd: "hd ?run = region_page r i"
    using n(2) by (auto simp: last_map hd_map last_upt)
  have loop: "for_uint (pmm_take_page (rg_page_array r)) (of_nat i + cnt) (of_nat i) (NULL, s) =
      Some (Ret (region_page r (i + unat cnt - 1), t))"
    using t(1) [unfolded lst] small n by (simp add: for_uint_ofold b i)
  have card: "of_nat (card (set ?run)) = cnt"
    using region_page_distinct [OF inv r n(1), of i] by (simp add: distinct_card del: set_map)
  have run_sub: "set ?run \<subseteq> set ps"
    using sub by auto
  have "pmm_inv (t\<lparr>memory_free := memory_free t - cnt * PAGE_SIZE,
       memory_used := memory_used t + cnt * PAGE_SIZE\<rparr>) (filter (\<lambda>x. x \<notin> set ?run) ps)"
    using pmm_inv_claim [OF inv t(3) t(2) run_sub] by (simp only: card) auto
  then have "took_run s ps r i (unat cnt) (t\<lparr>memory_free := memory_free t - cnt * PAGE_SIZE,
       memory_used := memory_used t + cnt * PAGE_SIZE\<rparr>)"
    using t(3,4) run_sub unfolding took_run_def Let_def hd by (auto simp: claimed_def)
  then show thesis
    using loop that by blast
qed

lemma pmm_contiguous_regions_correct:
  assumes inv: "pmm_inv s ps" and n: "0 < unat cnt" and k: "k \<le> length (regions_array s)"
  shows "(\<exists>r i s'. r \<in> set (available s) \<and> rg_base r \<le> limit \<and> run_at s r limit (unat cnt) i \<and>
        pmm_contiguous_regions cnt limit k s = Ret (IR_OK, Some (region_page r i), s') \<and>
        took_run s ps r i (unat cnt) s') \<or>
      (pmm_contiguous_regions cnt limit k s = Ret (IR_ERROR_NO_MEMORY, None, s) \<and>
        (\<forall>r \<in> set (take k (regions_array s)). rg_type r = REGION_TYPE_AVAILABLE \<longrightarrow> rg_base r \<le> limit \<longrightarrow>
          (\<forall>i. \<not> run_at s r limit (unat cnt) i)))"
  using k
proof (induction k)
  case 0
  then show ?case by simp
next
  case (Suc k)
  define r where "r = regions_array s ! k"
  have take: "set (take (Suc k) (regions_array s)) = insert r (set (take k (regions_array s)))"
    using Suc.prems by (simp add: take_Suc_conv_app_nth r_def)
  show ?case
  proof (cases "rg_type r \<noteq> REGION_TYPE_AVAILABLE \<or> rg_base r > limit")
    case True
    then have "pmm_contiguous_regions cnt limit (Suc k) s = pmm_contiguous_regions cnt limit k s"
      using Suc.prems by (simp add: r_def)
    then show ?thesis
      using Suc True unfolding take by (auto simp: not_less)
  next
    case False
    have r: "r \<in> set (available s)"
      using False Suc.prems by (simp add: available_def r_def)
    have N: "unat (rg_length r div PAGE_SIZE) = region_page_count r" "region_page_count r < 2 ^ 32"
      using inv r by (auto simp: region_page_count_def unat_div pmm_inv_def region_ok_def)
    let ?find = "pmm_find_run s r cnt limit (region_page_count r) 0 0 0"
    have "(\<exists>j. ?find = Ret (Some (of_nat j)) \<and> run_at s r limit (unat cnt) j) \<or>
        (?find = Ret None \<and> (\<forall>j. \<not> run_at s r limit (unat cnt) j))"
      using pmm_find_run_correct [where i = 0 and b = 0 and N = "region_page_count r" and k = "region_page_count r"
          and r = r and s = s and cnt = cnt and n = "unat cnt" and limit = limit]
        region_pages_in_dom(2) [OF inv r] n N(2) by fastforce
    then consider j where "?find = Ret (Some (of_nat j))" "run_at s r limit (unat cnt) j"
      | "?find = Ret None" "\<forall>j. \<not> run_at s r limit (unat cnt) j"
      by blast
    then show ?thesis
    proof cases
      case 1
      then have sub: "region_page r ` {j..<j + unat cnt} \<subseteq> set ps" and le: "j + unat cnt \<le> region_page_count r"
        using page_usable_free [OF inv r] by (auto simp: run_at_def)
      obtain t where t: "for_uint (pmm_take_page (rg_page_array r)) (of_nat j + cnt) (of_nat j) (NULL, s) =
            Some (Ret (region_page r (j + unat cnt - 1), t))"
          "took_run s ps r j (unat cnt) (t\<lparr>memory_free := memory_free t - cnt * PAGE_SIZE,
             memory_used := memory_used t + cnt * PAGE_SIZE\<rparr>)"
        by (rule pmm_take_accounted [OF inv r le n sub])
      have "pmm_contiguous_regions cnt limit (Suc k) s = Ret (IR_OK, Some (region_page r j),
          t\<lparr>memory_free := memory_free t - cnt * PAGE_SIZE, memory_used := memory_used t + cnt * PAGE_SIZE\<rparr>)"
        using 1(1) False Suc.prems t(1) N(1)
        by (simp add: r_def [symmetric] Let_def ucast_of_nat_u64_u32 region_page_def)
      then show ?thesis
        using r False 1(2) t(2) by (auto simp: not_less)
    next
      case 2
      then have "pmm_contiguous_regions cnt limit (Suc k) s = pmm_contiguous_regions cnt limit k s"
        using False Suc.prems N(1) by (simp add: r_def [symmetric] Let_def)
      then show ?thesis
        using Suc 2(2) unfolding take by auto
    qed
  qed
qed

lemma ucast_of_int_u64_u32: "(ucast (word_of_int k :: u64) :: u32) = word_of_int k"
  by (rule bit_word_eqI) (simp add: bit_simps)

lemma int_of_u64_pred: "n < 2 ^ 31 \<Longrightarrow> int_of_u64 (of_nat n - 1) = int n - 1"
proof -
  assume "n < 2 ^ 31"
  have "(of_nat n - 1 :: u64) = word_of_int (int n - 1)"
    by simp
  then have "(ucast (of_nat n - 1 :: u64) :: u32) = word_of_int (int n - 1)"
    by (simp only: ucast_of_int_u64_u32)
  then have "int_of_u64 (of_nat n - 1) = sint (word_of_int (int n - 1) :: u32)"
    by (simp only: int_of_u64_def)
  also have "\<dots> = signed_take_bit 31 (int n - 1)"
    by (subst signed_of_int) simp
  also have "\<dots> = int n - 1"
    using \<open>n < 2 ^ 31\<close> by (subst signed_take_bit_int_eq_self_iff) auto
  finally show ?thesis .
qed

section \<open>Releasing a page\<close>

lemma pmm_free_page_refine:
  assumes inv: "pmm_inv s ps" and a: "a \<in> set (region_pages s)"
    and core: "page_core (pm_pages s) a = Some (addr, PAGE_STATE_USED)"
  shows "\<exists>s'. pmm_free_page a s = Ret s' \<and> pmm_inv s' (a # ps) \<and>
    page_core (pm_pages s') = (page_core (pm_pages s))(a \<mapsto> (addr, PAGE_STATE_FREE)) \<and>
    (\<forall>x. x \<notin> set (a # ps) \<longrightarrow> pm_pages s' x = pm_pages s x) \<and> regions_array s' = regions_array s \<and>
    memory_free s' + memory_used s' = memory_free s + memory_used s"
proof -
  obtain pg where pg: "pm_pages s a = Some pg" "pg_address pg = addr" "pg_state pg = PAGE_STATE_USED"
    using page_core_SomeD [OF core] by blast
  have free: "set ps = {a \<in> set (region_pages s). \<exists>x. page_core (pm_pages s) a = Some (x, PAGE_STATE_FREE)}"
    and null: "NULL \<notin> dom (pm_pages s)"
    using inv by (simp_all add: pmm_inv_def)
  have new: "a \<notin> set ps" "a \<noteq> NULL"
    using core null pg by (auto simp: free)
  define s1 where "s1 = s\<lparr>pm_pages := (pm_pages s)(a \<mapsto> pg\<lparr>pg_state := PAGE_STATE_FREE\<rparr>),
    memory_used := memory_used s - PAGE_SIZE\<rparr>"
  have core1: "page_core (pm_pages s1) = (page_core (pm_pages s))(a \<mapsto> (addr, PAGE_STATE_FREE))"
    using pg by (simp add: s1_def)
  have "free_rep s1 ps"
    using pmm_inv_free_rep [OF inv] new by (simp add: s1_def free_rep_def)
  then obtain s2 where s2: "pmm_free_list_push a s1 = Ret s2" "free_rep s2 (a # ps)"
      "relinked (insert a (set ps)) s1 s2"
    using pmm_free_list_push_refine [of s1 ps a] new by (auto simp: s1_def)
  let ?s = "s2\<lparr>memory_free := memory_free s2 + PAGE_SIZE\<rparr>"
  have "update_page a (\<lambda>pg. pg\<lparr>pg_state := PAGE_STATE_FREE\<rparr>) s =
      Ret (s\<lparr>pm_pages := (pm_pages s)(a \<mapsto> pg\<lparr>pg_state := PAGE_STATE_FREE\<rparr>)\<rparr>)"
    using pg by simp
  then have "pmm_free_page a s = Ret ?s"
    using pg s2(1) by (simp add: pmm_free_page_def Let_def s1_def)
  moreover have core2: "page_core (pm_pages s2) = (page_core (pm_pages s))(a \<mapsto> (addr, PAGE_STATE_FREE))"
    using s2(3) core1 by (simp add: relinked_def)
  moreover have regs: "available ?s = available s" "region_pages ?s = region_pages s"
    using s2(3) by (simp_all add: available_def region_pages_def relinked_def s1_def)
  moreover have "pmm_inv ?s (a # ps)"
  proof -
    have "set (a # ps) = {a \<in> set (region_pages ?s). \<exists>x. page_core (pm_pages ?s) a = Some (x, PAGE_STATE_FREE)}"
      using a unfolding regs by (auto simp: core2 free)
    moreover have "\<forall>r \<in> set (available ?s). region_ok (page_core (pm_pages ?s)) r"
    proof
      fix r assume "r \<in> set (available ?s)"
      then have "region_ok (page_core (pm_pages s)) r"
        using inv unfolding regs by (simp add: pmm_inv_def)
      then show "region_ok (page_core (pm_pages ?s)) r"
        using core by (fastforce simp: region_ok_def core2)
    qed
    moreover have "NULL \<notin> dom (pm_pages ?s)"
      using null new unfolding dom_page_core [symmetric] by (simp add: core2)
    moreover have "memory_free ?s = of_nat (4096 * length (a # ps))"
      using inv s2(3) by (simp add: pmm_inv_def relinked_def s1_def algebra_simps)
    moreover have "free_rep ?s (a # ps)"
      using s2(2) by (simp add: free_rep_def)
    ultimately show ?thesis
      using inv s2(3) unfolding pmm_inv_def regs by (simp add: relinked_def s1_def)
  qed
  ultimately show ?thesis
    using s2(3) by (auto simp: relinked_def s1_def)
qed

section \<open>Allocating a given range\<close>

lemma pmm_check_free_all:
  assumes "\<And>i. i \<in> set is \<Longrightarrow> \<exists>pg. pm_pages s (page_ptr arr (ucast i)) = Some pg \<and> pg_state pg = PAGE_STATE_FREE"
  shows "ofold (pmm_check_free arr s) is () = Ret ()"
  using assms
proof (induction "is")
  case Nil
  then show ?case by simp
next
  case (Cons i "is")
  have "pmm_check_free arr s i () = Ret ()"
    using Cons.prems [of i] by (auto simp: pmm_check_free_def)
  then show ?case
    using Cons by simp
qed

lemma pmm_check_free_some:
  assumes "\<And>i. i \<in> set is \<Longrightarrow> page_ptr arr (ucast i) \<in> dom (pm_pages s)"
    and "\<exists>i \<in> set is. \<exists>pg. pm_pages s (page_ptr arr (ucast i)) = Some pg \<and> pg_state pg \<noteq> PAGE_STATE_FREE"
  shows "ofold (pmm_check_free arr s) is () = Panic"
  using assms
proof (induction "is")
  case Nil
  then show ?case by simp
next
  case (Cons i "is")
  obtain pg where pg: "pm_pages s (page_ptr arr (ucast i)) = Some pg"
    using Cons.prems(1) [of i] by auto
  then have "pmm_check_free arr s i () = (if pg_state pg \<noteq> PAGE_STATE_FREE then Panic else Ret ())"
    by (simp add: pmm_check_free_def)
  then show ?case
    using Cons pg by (cases "pg_state pg = PAGE_STATE_FREE") auto
qed

text \<open>The arguments of the loops of \<^verbatim>\<open>pmm_allocate_range\<close> after rounding outwards.\<close>

definition range_base :: "u64 \<Rightarrow> u64" where
  "range_base address = ROUND_DOWN_PAGE address"

definition range_length :: "u64 \<Rightarrow> u64 \<Rightarrow> u64" where
  "range_length address len = ROUND_UP_PAGE (address + len) - ROUND_DOWN_PAGE address"

lemma region_of_range_SomeD:
  "pmm_region_of_range address len rs = Some r \<Longrightarrow>
     r \<in> set rs \<and> rg_type r = REGION_TYPE_AVAILABLE \<and> rg_base r \<le> address \<and>
     address + len \<le> rg_base r + rg_length r"
  by (induction rs) (auto split: if_splits)

text \<open>Where a page-aligned range lies in the page array of the region that contains it.\<close>

lemma range_in_region:
  assumes ok: "region_ok core r" and le: "rg_base r \<le> address" "address + len \<le> rg_base r + rg_length r"
    and no_wrap: "unat address + unat len < 2 ^ 64"
    and al: "4096 dvd unat address" "4096 dvd unat len"
  defines "i \<equiv> (unat address - unat (rg_base r)) div 4096" and "n \<equiv> unat len div 4096"
  shows "unat ((address - rg_base r) div PAGE_SIZE) = i" "unat (len div PAGE_SIZE) = n"
    "i + n \<le> region_page_count r" "region_page_count r < 2 ^ 32"
    "unat address = unat (rg_base r) + 4096 * i"
proof -
  have base: "4096 dvd unat (rg_base r)" and "4096 dvd unat (rg_length r)"
    and wrap: "unat (rg_base r) + unat (rg_length r) < 2 ^ 64" and small: "region_page_count r < 2 ^ 32"
    using ok by (auto simp: region_ok_def)
  have sub: "unat (address - rg_base r) = unat address - unat (rg_base r)"
    using le(1) by (simp add: unat_sub)
  show "unat ((address - rg_base r) div PAGE_SIZE) = i"
    by (simp add: unat_div sub i_def)
  show "unat (len div PAGE_SIZE) = n"
    by (simp add: unat_div n_def)
  show "region_page_count r < 2 ^ 32"
    by (rule small)
  have ge: "unat (rg_base r) \<le> unat address"
    using le(1) by (simp add: word_le_nat_alt)
  have ends: "unat (address + len) = unat address + unat len"
    "unat (rg_base r + rg_length r) = unat (rg_base r) + unat (rg_length r)"
    using no_wrap wrap by (simp_all add: unat_word_ariths)
  then have "unat address + unat len \<le> unat (rg_base r) + unat (rg_length r)"
    using le(2) by (simp add: word_le_nat_alt)
  moreover have "4096 dvd unat address - unat (rg_base r)"
    using al(1) base by (rule dvd_diff_nat)
  then have i: "4096 * i = unat address - unat (rg_base r)"
    by (simp add: i_def)
  moreover have n: "4096 * n = unat len"
    using al(2) by (simp add: n_def)
  moreover have "4096 * region_page_count r = unat (rg_length r)"
    using \<open>4096 dvd unat (rg_length r)\<close> by (simp add: region_page_count_def)
  ultimately have "4096 * (i + n) \<le> 4096 * region_page_count r"
    using ge by (simp add: algebra_simps)
  then show "i + n \<le> region_page_count r"
    by simp
  show "unat address = unat (rg_base r) + 4096 * i"
    using i ge by simp
qed

lemma pmm_inv_relink:
  assumes inv: "pmm_inv t qs" and a: "a \<notin> set qs" "pm_pages t a = Some pg"
  shows "pmm_inv (t\<lparr>pm_pages := (pm_pages t)(a \<mapsto> pg\<lparr>pg_next := x\<rparr>)\<rparr>) qs" (is "pmm_inv ?t qs")
proof -
  have core: "page_core (pm_pages ?t) = page_core (pm_pages t)"
    using a(2) by simp
  moreover have "dom (pm_pages ?t) = dom (pm_pages t)"
    using a(2) by auto
  moreover have "available ?t = available t" "region_pages ?t = region_pages t"
    by (simp_all add: available_def region_pages_def)
  moreover have "free_rep ?t qs"
    using inv a by (simp add: pmm_inv_def free_rep_def)
  ultimately show ?thesis
    using inv by (simp only: pmm_inv_def) simp
qed

lemma took_run_terminate:
  assumes "took_run s ps r i n t" "0 < n" "distinct (map (region_page r) [i..<i + n])"
  obtains pg where "pm_pages t (region_page r (i + n - 1)) = Some pg"
    "took_run s ps r i n (t\<lparr>pm_pages := (pm_pages t)(region_page r (i + n - 1) \<mapsto> pg\<lparr>pg_next := NULL\<rparr>)\<rparr>)"
    "dlseg ((pm_pages t)(region_page r (i + n - 1) \<mapsto> pg\<lparr>pg_next := NULL\<rparr>)) NULL (region_page r i)
       (map (region_page r) [i..<i + n]) NULL"
proof -
  let ?run = "map (region_page r) [i..<i + n]"
  from assms(1) obtain q where q: "dlseg (pm_pages t) NULL (region_page r i) ?run q"
    by (auto simp: took_run_def Let_def)
  have "?run \<noteq> []" and lst: "last ?run = region_page r (i + n - 1)"
    using assms(2) by (simp_all add: last_map last_upt)
  then obtain pg where pg: "pm_pages t (last ?run) = Some pg"
      "dlseg ((pm_pages t)(last ?run \<mapsto> pg\<lparr>pg_next := NULL\<rparr>)) NULL (region_page r i) ?run NULL"
    using dlseg_set_end [OF q _ assms(3), of NULL] by blast
  have mem: "last ?run \<in> set ?run"
    using \<open>?run \<noteq> []\<close> by (rule last_in_set)
  let ?t = "t\<lparr>pm_pages := (pm_pages t)(last ?run \<mapsto> pg\<lparr>pg_next := NULL\<rparr>)\<rparr>"
  have "pmm_inv ?t (filter (\<lambda>x. x \<notin> set ?run) ps)"
    using assms(1) mem pg(1) by (intro pmm_inv_relink) (auto simp: took_run_def Let_def simp del: set_map)
  moreover have "last ?run \<in> set ps"
    using assms(1) mem by (auto simp: took_run_def Let_def simp del: set_map)
  ultimately have "took_run s ps r i n ?t"
    using assms(1) pg unfolding took_run_def Let_def by (auto simp del: set_map)
  then show thesis
    using that pg unfolding lst by blast
qed

lemma range_rounding:
  assumes "0 < unat len" and no_wrap: "unat address + unat len \<le> 2 ^ 64 - 4096"
  defines "b \<equiv> range_base address" and "l \<equiv> range_length address len"
  shows "4096 dvd unat b" "4096 dvd unat l" "unat b + unat l < 2 ^ 64" "0 < unat l"
    "unat b \<le> unat address" "unat address + unat len \<le> unat b + unat l"
proof -
  have e: "unat (address + len) = unat address + unat len"
    using no_wrap by (simp add: unat_word_ariths)
  note up = ROUND_UP_PAGE_bounds [of "address + len", unfolded e, OF no_wrap]
  note down = ROUND_DOWN_PAGE_bounds [of address]
  have le: "unat (ROUND_DOWN_PAGE address) \<le> unat (ROUND_UP_PAGE (address + len))"
    using up(2) down(2) by linarith
  then have l: "unat l = unat (ROUND_UP_PAGE (address + len)) - unat b"
    by (simp add: l_def b_def range_base_def range_length_def unat_sub word_le_nat_alt)
  show "4096 dvd unat b" "unat b \<le> unat address"
    using down by (simp_all add: b_def range_base_def)
  show "4096 dvd unat l"
    unfolding l using up(1) down(1) by (simp add: b_def range_base_def dvd_diff_nat)
  have "unat b + unat l = unat (ROUND_UP_PAGE (address + len))"
    using l le by (simp add: b_def range_base_def)
  then show "unat b + unat l < 2 ^ 64" "unat address + unat len \<le> unat b + unat l" "0 < unat l"
    using up(2) down(2) assms(1) unat_u64_less [of "ROUND_UP_PAGE (address + len)"]
    by (simp_all add: b_def range_base_def)
qed

lemma pmm_inv_regions: "pmm_inv s ps \<Longrightarrow> take (unat (regions_count s)) (regions_array s) = regions_array s"
  by (simp add: pmm_inv_def unat_of_nat_u64)

text \<open>The region, index and length that a rounded range occupies.\<close>

lemma pmm_range_located:
  assumes inv: "pmm_inv s ps" and len: "0 < unat len" "unat address + unat len \<le> 2 ^ 64 - 4096"
    and reg: "pmm_region_of_range (range_base address) (range_length address len) (regions_array s) = Some r"
  obtains i n where "r \<in> set (available s)" "n = unat (range_length address len div PAGE_SIZE)" "0 < n"
    "i = unat ((range_base address - rg_base r) div PAGE_SIZE)" "i + n \<le> region_page_count r"
    "region_page_count r < 2 ^ 32" "unat (range_base address) = unat (rg_base r) + 4096 * i"
    "(ucast ((range_base address - rg_base r) div PAGE_SIZE) :: u32) = of_nat i"
proof -
  note rnd = range_rounding [OF len]
  note r = region_of_range_SomeD [OF reg]
  have avail: "r \<in> set (available s)"
    using r by (simp add: available_def)
  then have ok: "region_ok (page_core (pm_pages s)) r"
    using inv by (simp add: pmm_inv_def)
  have within: "rg_base r \<le> range_base address"
      "range_base address + range_length address len \<le> rg_base r + rg_length r"
    using r by simp_all
  note loc = range_in_region [OF ok within rnd(3,1,2)]
  have "0 < unat (range_length address len) div 4096"
    using rnd(2,4) by (auto elim!: dvdE)
  then have "0 < unat (range_length address len div PAGE_SIZE)"
    by (simp only: loc(2))
  moreover have "(ucast x :: u32) = of_nat (unat x)" for x :: u64
    using ucast_of_nat_u64_u32 [of "unat x"] by simp
  ultimately show thesis
    using loc(3,4,5) unfolding loc(1,2) [symmetric] by (intro that [OF avail refl _ refl])
qed

lemma pmm_allocate_range_refine:
  assumes inv: "pmm_inv s ps" and len: "0 < unat len" "unat address + unat len \<le> 2 ^ 64 - 4096"
    and reg: "pmm_region_of_range (range_base address) (range_length address len) (regions_array s) = Some r"
    and i: "i = unat ((range_base address - rg_base r) div PAGE_SIZE)"
    and n: "n = unat (range_length address len div PAGE_SIZE)"
  shows "(\<forall>j \<in> {i..<i + n}. region_page r j \<in> set ps) \<Longrightarrow>
      \<exists>s'. pmm_allocate_range address len new s = Ret (IR_OK, Some (region_page r i), s') \<and>
        took_run s ps r i n s' \<and> dlseg (pm_pages s') NULL (region_page r i) (map (region_page r) [i..<i + n]) NULL"
    and "\<not> (\<forall>j \<in> {i..<i + n}. region_page r j \<in> set ps) \<Longrightarrow>
      pmm_allocate_range address len new s = Panic"
proof -
  let ?cnt = "range_length address len div PAGE_SIZE"
  obtain i' n' where "r \<in> set (available s)" "n' = unat ?cnt" "0 < n'"
    "i' = unat ((range_base address - rg_base r) div PAGE_SIZE)" "i' + n' \<le> region_page_count r"
    "region_page_count r < 2 ^ 32" "unat (range_base address) = unat (rg_base r) + 4096 * i'"
    "(ucast ((range_base address - rg_base r) div PAGE_SIZE) :: u32) = of_nat i'"
    by (rule pmm_range_located [OF inv len reg])
  note loc = this [folded i n]
  have r: "r \<in> set (available s)" and bnd: "i + n \<le> region_page_count r" "region_page_count r < 2 ^ 32" "0 < n"
    and idx: "(ucast ((range_base address - rg_base r) div PAGE_SIZE) :: u32) = of_nat i"
    using loc i n by simp_all
  have i32: "i < 2 ^ 32"
    using bnd by linarith
  have b: "unat ((of_nat i :: u64) + ?cnt) = i + n"
    using unat_run_bound [of i ?cnt] bnd n by simp
  have ui: "unat (of_nat i :: u32) = i"
    using i32 by (rule unat_of_nat_u32)
  let ?is = "map of_nat [i..<i + n] :: u32 list"
  have check: "for_uint (pmm_check_free (rg_page_array r) s) (of_nat i + ?cnt) (of_nat i) () =
      Some (ofold (pmm_check_free (rg_page_array r) s) ?is ())"
  proof -
    have "unat ((of_nat i :: u64) + ?cnt) < 2 ^ 32"
      unfolding b using bnd by linarith
    then show ?thesis
      by (subst for_uint_ofold) (simp_all only: b ui)
  qed
  have code: "pmm_allocate_range address len new s =
      obind (looped (for_uint (pmm_check_free (rg_page_array r) s) (of_nat i + ?cnt) (of_nat i) ())) (\<lambda>_.
      obind (looped (for_uint (pmm_take_page (rg_page_array r)) (of_nat i + ?cnt) (of_nat i) (NULL, s)))
      (\<lambda>(previous, s).
      obind (update_page previous (\<lambda>pg. pg\<lparr>pg_next := NULL\<rparr>) s) (\<lambda>s.
      Ret (IR_OK, Some (region_page r i),
           s\<lparr>memory_free := memory_free s - ?cnt * PAGE_SIZE,
             memory_used := memory_used s + ?cnt * PAGE_SIZE\<rparr>))))"
    using len(1) reg idx i32 unfolding pmm_allocate_range_def Let_def range_base_def range_length_def
    by (auto simp: pmm_inv_regions [OF inv] ucast_of_nat_u32_u64 region_page_def)
  have dom: "\<exists>pg. pm_pages s (page_ptr (rg_page_array r) (ucast (of_nat j :: u32))) = Some pg \<and>
      (pg_state pg = PAGE_STATE_FREE \<longleftrightarrow> region_page r j \<in> set ps)" if "j \<in> {i..<i + n}" for j
  proof -
    have j: "j < region_page_count r"
      using that bnd by auto
    obtain pg where pg: "pm_pages s (region_page r j) = Some pg"
      using region_pages_in_dom(2) [OF inv r j] by blast
    have "region_page r j \<in> set (region_pages s)"
      by (rule region_pages_in_dom(1) [OF inv r j])
    moreover have "set ps = {a \<in> set (region_pages s). \<exists>x. page_core (pm_pages s) a = Some (x, PAGE_STATE_FREE)}"
      using inv by (simp add: pmm_inv_def)
    ultimately have "region_page r j \<in> set ps \<longleftrightarrow> pg_state pg = PAGE_STATE_FREE"
      using pg by (auto simp: page_core_def)
    then show ?thesis
      using pg j bnd by (simp add: region_page_u32)
  qed
  show "\<exists>s'. pmm_allocate_range address len new s = Ret (IR_OK, Some (region_page r i), s') \<and>
        took_run s ps r i n s' \<and> dlseg (pm_pages s') NULL (region_page r i) (map (region_page r) [i..<i + n]) NULL"
    if all: "\<forall>j \<in> {i..<i + n}. region_page r j \<in> set ps"
  proof -
    have "ofold (pmm_check_free (rg_page_array r) s) ?is () = Ret ()"
      by (rule pmm_check_free_all) (use dom all in auto)
    moreover obtain t where t: "for_uint (pmm_take_page (rg_page_array r)) (of_nat i + ?cnt) (of_nat i) (NULL, s) =
          Some (Ret (region_page r (i + unat ?cnt - 1), t))"
        "took_run s ps r i (unat ?cnt) (t\<lparr>memory_free := memory_free t - ?cnt * PAGE_SIZE,
           memory_used := memory_used t + ?cnt * PAGE_SIZE\<rparr>)"
      by (rule pmm_take_accounted [OF inv r, of i ?cnt]) (use bnd n all in auto)
    moreover obtain pg where pg: "pm_pages t (region_page r (i + n - 1)) = Some pg"
        "took_run s ps r i n (t\<lparr>memory_free := memory_free t - ?cnt * PAGE_SIZE,
           memory_used := memory_used t + ?cnt * PAGE_SIZE,
           pm_pages := (pm_pages t)(region_page r (i + n - 1) \<mapsto> pg\<lparr>pg_next := NULL\<rparr>)\<rparr>)"
        "dlseg ((pm_pages t)(region_page r (i + n - 1) \<mapsto> pg\<lparr>pg_next := NULL\<rparr>)) NULL (region_page r i)
           (map (region_page r) [i..<i + n]) NULL"
      using took_run_terminate [OF t(2)] bnd n region_page_distinct [OF inv r bnd(1), of i] by auto
    moreover have "t\<lparr>memory_free := x, memory_used := y, pm_pages := m\<rparr> =
        t\<lparr>pm_pages := m, memory_free := x, memory_used := y\<rparr>" for x y m
      by (cases t) simp
    ultimately show ?thesis
      unfolding code check using n by simp
  qed
  show "pmm_allocate_range address len new s = Panic" if no: "\<not> (\<forall>j \<in> {i..<i + n}. region_page r j \<in> set ps)"
  proof -
    have "ofold (pmm_check_free (rg_page_array r) s) ?is () = Panic"
    proof (rule pmm_check_free_some)
      show "page_ptr (rg_page_array r) (ucast k) \<in> dom (pm_pages s)" if "k \<in> set ?is" for k
        using that dom by fastforce
      show "\<exists>k \<in> set ?is. \<exists>pg. pm_pages s (page_ptr (rg_page_array r) (ucast k)) = Some pg \<and>
          pg_state pg \<noteq> PAGE_STATE_FREE"
        using no dom by fastforce
    qed
    then show ?thesis
      unfolding code check by simp
  qed
qed

section \<open>Page infos outside all regions\<close>

text \<open>What \<^verbatim>\<open>calloc\<close> promises of the array it returns: its entries overlap no other page info.\<close>

definition fresh_array :: "pmm \<Rightarrow> ptr \<Rightarrow> nat \<Rightarrow> bool" where
  "fresh_array s arr n \<longleftrightarrow> distinct (map (\<lambda>i. page_ptr arr (of_nat i)) [0..<n]) \<and>
     (\<forall>i < n. page_ptr arr (of_nat i) \<noteq> NULL \<and> page_ptr arr (of_nat i) \<notin> dom (pm_pages s))"

lemma calloc_fold:
  "fold (\<lambda>i m. m(f i \<mapsto> v)) is m x = (if x \<in> f ` set is then Some v else m x)"
  by (induction "is" arbitrary: m) auto

lemma calloc_page_infos_apply:
  "pm_pages (calloc_page_infos arr n s) x =
     (if x \<in> (\<lambda>i. page_ptr arr (of_nat i)) ` {0..<n} then Some page_info_zero else pm_pages s x)"
  by (simp add: calloc_page_infos_def calloc_fold [where f = "\<lambda>i. page_ptr arr (of_nat i)"])

lemma page_ptr_0 [simp]: "page_ptr arr 0 = arr"
  by (simp add: page_ptr_def)

text \<open>The chain built so far, its addresses, and what it leaves alone.\<close>

definition outside_chain :: "ptr \<Rightarrow> u64 \<Rightarrow> nat \<Rightarrow> nat \<Rightarrow> pmm \<Rightarrow> pmm \<Rightarrow> bool" where
  "outside_chain arr address n k s t \<longleftrightarrow>
     (let f = (\<lambda>i. page_ptr arr (of_nat i)) in
      dlseg (pm_pages t) NULL arr (map f [0..<k]) NULL \<and>
      (\<forall>i < k. page_core (pm_pages t) (f i) = Some (address + 4096 * of_nat i, PAGE_STATE_USED_OUTSIDE_REGION)) \<and>
      (\<forall>i < n. k \<le> i \<longrightarrow> pm_pages t (f i) = Some page_info_zero) \<and>
      (\<forall>x. x \<notin> f ` {0..<n} \<longrightarrow> pm_pages t x = pm_pages s x) \<and> t = s\<lparr>pm_pages := pm_pages t\<rparr>)"

lemma outside_chain_step:
  assumes fresh: "fresh_array s arr n" and k: "0 < k" "k < n" "n < 2 ^ 32"
    and ch: "outside_chain arr address n k s t"
  shows "\<exists>t'. pmm_outside_page arr (of_nat k)
        (page_ptr arr (of_nat (k - 1)), address + 4096 * of_nat (k - 1), t) =
      Ret (page_ptr arr (of_nat k), address + 4096 * of_nat k, t') \<and> outside_chain arr address n (Suc k) s t'"
proof -
  define f where "f i = page_ptr arr (of_nat i)" for i
  have f: "f = (\<lambda>i. page_ptr arr (of_nat i))"
    by (simp add: f_def fun_eq_iff)
  have inj: "inj_on f {0..<n}"
    using fresh by (simp add: fresh_array_def distinct_map f)
  have fnz: "f i \<noteq> NULL" if "i < n" for i
    using fresh that by (simp add: fresh_array_def f)
  have neq: "f i \<noteq> f j" if "i < n" "j < n" "i \<noteq> j" for i j
    using inj that unfolding inj_on_def by auto
  have uk: "page_ptr arr (ucast (of_nat k :: u32)) = f k"
    using k by (simp add: f_def ucast_of_nat_u32_u64)
  have seg: "dlseg (pm_pages t) NULL arr (map f [0..<k]) NULL"
    and addr: "\<And>i. i < k \<Longrightarrow> page_core (pm_pages t) (f i) = Some (address + 4096 * of_nat i, PAGE_STATE_USED_OUTSIDE_REGION)"
    and zero: "\<And>i. i < n \<Longrightarrow> k \<le> i \<Longrightarrow> pm_pages t (f i) = Some page_info_zero"
    and frame: "\<And>x. x \<notin> f ` {0..<n} \<Longrightarrow> pm_pages t x = pm_pages s x" and eq: "t = s\<lparr>pm_pages := pm_pages t\<rparr>"
    using ch by (simp_all add: outside_chain_def Let_def f)
  have lst: "last (map f [0..<k]) = f (k - 1)" "map f [0..<k] \<noteq> []"
    using k by (simp_all add: last_map last_upt)
  have "distinct (map f [0..<k])"
    using seg by (rule dlseg_distinct)
  then obtain pl where pl: "pm_pages t (f (k - 1)) = Some pl"
      "dlseg ((pm_pages t)(f (k - 1) \<mapsto> pl\<lparr>pg_next := f k\<rparr>)) NULL arr (map f [0..<k]) (f k)"
    using dlseg_set_end [OF seg lst(2), of "f k"] by (auto simp: lst)
  define pg where "pg = page_info_zero\<lparr>pg_state := PAGE_STATE_USED_OUTSIDE_REGION,
    pg_prev := f (k - 1), pg_address := address + 4096 * of_nat k\<rparr>"
  define m where "m = (pm_pages t)(f k \<mapsto> pg, f (k - 1) \<mapsto> pl\<lparr>pg_next := f k\<rparr>)"
  have fk: "f k \<noteq> f j" if "j < k" for j
    using neq [of k j] that k by simp
  then have kk: "f k \<noteq> f (k - 1)" "f k \<notin> set (map f [0..<k])"
    using k(1) by (simp, metis (no_types) atLeastLessThan_iff imageE set_map set_upt)
  have m_swap: "m = (pm_pages t)(f (k - 1) \<mapsto> pl\<lparr>pg_next := f k\<rparr>, f k \<mapsto> pg)"
    using kk by (simp add: m_def fun_upd_twist)
  have next_addr: "address + 4096 * of_nat (k - 1) + PAGE_SIZE = address + 4096 * of_nat k"
    using k(1) by (cases k) (simp_all add: algebra_simps)
  have "pmm_outside_page arr (of_nat k) (f (k - 1), address + 4096 * of_nat (k - 1), t) =
      Ret (f k, address + 4096 * of_nat k, t\<lparr>pm_pages := m\<rparr>)"
    using zero [OF k(2)] pl(1) kk unfolding pmm_outside_page_def prod.case Let_def next_addr uk
    by (simp add: pg_def m_def)
  moreover have "outside_chain arr address n (Suc k) s (t\<lparr>pm_pages := m\<rparr>)"
    unfolding outside_chain_def Let_def f_def [symmetric]
  proof (intro conjI allI impI)
    have "dlseg m NULL arr (map f [0..<k]) (f k)"
      using pl(2) kk(2) by (simp add: m_swap del: set_map)
    moreover have "dlseg m (last (NULL # map f [0..<k])) (f k) [f k] NULL"
      using fnz [OF k(2)] kk lst by (simp add: m_def pg_def page_info_zero_def)
    ultimately show "dlseg (pm_pages (t\<lparr>pm_pages := m\<rparr>)) NULL arr (map f [0..<Suc k]) NULL"
      by (auto simp: dlseg_append)
    show "page_core (pm_pages (t\<lparr>pm_pages := m\<rparr>)) (f i) = Some (address + 4096 * of_nat i, PAGE_STATE_USED_OUTSIDE_REGION)"
      if "i < Suc k" for i
      using that addr [of i] pl(1) kk neq [of i k] k
      by (auto simp: m_def page_core_def pg_def less_Suc_eq)
    show "pm_pages (t\<lparr>pm_pages := m\<rparr>) (f i) = Some page_info_zero" if "i < n" "Suc k \<le> i" for i
      using that zero [of i] neq [of i k] neq [of i "k - 1"] k by (simp add: m_def)
    show "pm_pages (t\<lparr>pm_pages := m\<rparr>) x = pm_pages s x" if "x \<notin> f ` {0..<n}" for x
      using that frame [OF that] k by (auto simp: m_def)
    show "t\<lparr>pm_pages := m\<rparr> = s\<lparr>pm_pages := pm_pages (t\<lparr>pm_pages := m\<rparr>)\<rparr>"
      by (subst eq) simp
  qed
  ultimately show ?thesis
    by (auto simp: f_def)
qed

lemma outside_chain_loop:
  assumes fresh: "fresh_array s arr n" and n: "0 < n" "n < 2 ^ 32"
    and start: "outside_chain arr address n 1 s t"
  shows "\<exists>u. ofold (pmm_outside_page arr) (map of_nat [1..<n]) (arr, address, t) =
      Ret (page_ptr arr (of_nat (n - 1)), address + 4096 * of_nat (n - 1), u) \<and>
      outside_chain arr address n n s u"
proof -
  have "\<exists>u. ofold (pmm_outside_page arr) (map of_nat [k..<n])
        (page_ptr arr (of_nat (k - 1)), address + 4096 * of_nat (k - 1), t) =
      Ret (page_ptr arr (of_nat (n - 1)), address + 4096 * of_nat (n - 1), u) \<and>
      outside_chain arr address n n s u" if "k \<le> n" "0 < k" "outside_chain arr address n k s t" for k t
    using that
  proof (induction "n - k" arbitrary: k t)
    case 0
    then show ?case by simp
  next
    case (Suc d)
    then have "k < n"
      by simp
    then obtain t' where t': "pmm_outside_page arr (of_nat k)
        (page_ptr arr (of_nat (k - 1)), address + 4096 * of_nat (k - 1), t) =
      Ret (page_ptr arr (of_nat k), address + 4096 * of_nat k, t')" "outside_chain arr address n (Suc k) s t'"
      using outside_chain_step [OF fresh Suc.prems(2) _ n(2) Suc.prems(3)] by blast
    then show ?case
      using Suc.hyps(1) [of "Suc k" t'] Suc.hyps(2) \<open>k < n\<close> by (simp add: upt_conv_Cons)
  qed
  from this [of 1 t] show ?thesis
    using start n by simp
qed

text \<open>Page infos added beside the existing ones do not disturb the allocator.\<close>

lemma pmm_inv_extend:
  assumes inv: "pmm_inv s ps" and same: "\<And>x. x \<in> dom (pm_pages s) \<Longrightarrow> m x = pm_pages s x"
    and null: "NULL \<notin> dom m"
  shows "pmm_inv (s\<lparr>pm_pages := m, memory_used := u\<rparr>) ps" (is "pmm_inv ?t ps")
proof -
  have core: "page_core m x = page_core (pm_pages s) x" if "x \<in> dom (pm_pages s)" for x
    using same [OF that] by (simp add: page_core_def)
  have reg: "available ?t = available s" "region_pages ?t = region_pages s"
    by (simp_all add: available_def region_pages_def)
  have dom: "x \<in> dom (pm_pages s)" if "x \<in> set (region_pages s)" for x
    using that inv by (fastforce simp: region_pages_def pmm_inv_def region_ok_def dest: page_core_SomeD)
  have "region_ok (page_core m) r" if "r \<in> set (available s)" for r
  proof -
    have ok: "region_ok (page_core (pm_pages s)) r"
      using inv that by (simp add: pmm_inv_def)
    moreover have "page_core m (region_page r i) = page_core (pm_pages s) (region_page r i)"
      if "i < region_page_count r" for i
      using region_pages_in_dom(1) [OF inv \<open>r \<in> set (available s)\<close> that] by (intro core dom)
    ultimately show ?thesis
      by (simp add: region_ok_def)
  qed
  moreover have "free_rep ?t ps"
  proof -
    have rep: "free_rep s ps"
      using inv by (rule pmm_inv_free_rep)
    then have "\<And>a. a \<in> set ps \<Longrightarrow> m a = pm_pages s a"
      using free_rep_dom by (intro same) blast
    then have "dlseg m NULL (free_list s) ps NULL = dlseg (pm_pages s) NULL (free_list s) ps NULL"
      by (rule dlseg_cong)
    then show ?thesis
      using rep by (simp add: free_rep_def)
  qed
  moreover have "{a \<in> set (region_pages s). \<exists>x. page_core m a = Some (x, PAGE_STATE_FREE)} =
      {a \<in> set (region_pages s). \<exists>x. page_core (pm_pages s) a = Some (x, PAGE_STATE_FREE)}"
    using core dom by auto
  ultimately show ?thesis
    using inv null unfolding pmm_inv_def reg by simp
qed

lemma outside_chain_start:
  assumes fresh: "fresh_array s arr n" and n: "0 < n"
  shows "outside_chain arr address n 1 s (s\<lparr>pm_pages := (pm_pages (calloc_page_infos arr n s))(arr \<mapsto>
    page_info_zero\<lparr>pg_address := address, pg_state := PAGE_STATE_USED_OUTSIDE_REGION\<rparr>)\<rparr>)"
proof -
  define f where "f i = page_ptr arr (of_nat i)" for i
  have f: "f = (\<lambda>i. page_ptr arr (of_nat i))"
    by (simp add: f_def fun_eq_iff)
  have inj: "inj_on f {0..<n}" and nz: "f 0 \<noteq> NULL"
    using fresh n by (auto simp: fresh_array_def distinct_map f)
  have f0: "f 0 = arr"
    by (simp add: f_def)
  have ne: "f i \<noteq> arr" if "i < n" "0 < i" for i
    using inj_onD [OF inj, of i 0] that n f0 by auto
  have "arr \<in> f ` {0..<n}"
    using f0 n by force
  then show ?thesis
    using nz ne unfolding outside_chain_def Let_def f_def [symmetric]
    by (auto simp: calloc_page_infos_apply f_def [symmetric] f0 page_core_def page_info_zero_def)
qed

lemma pmm_allocate_range_outside:
  assumes inv: "pmm_inv s ps" and len: "0 < unat len" "unat address + unat len \<le> 2 ^ 64 - 4096"
    and reg: "pmm_region_of_range (range_base address) (range_length address len) (regions_array s) = None"
    and n: "n = unat (range_length address len div PAGE_SIZE)" "n < 2 ^ 32" and fresh: "fresh_array s arr n"
  defines "run \<equiv> map (\<lambda>i. page_ptr arr (of_nat i)) [0..<n]"
  shows "\<exists>s'. pmm_allocate_range address len arr s = Ret (IR_OK, Some arr, s') \<and> pmm_inv s' ps \<and>
    dlseg (pm_pages s') NULL arr run NULL \<and>
    (\<forall>i < n. page_core (pm_pages s') (run ! i) =
       Some (range_base address + 4096 * of_nat i, PAGE_STATE_USED_OUTSIDE_REGION)) \<and>
    (\<forall>x. x \<notin> set run \<longrightarrow> pm_pages s' x = pm_pages s x)"
proof -
  let ?b = "range_base address" and ?f = "\<lambda>i. page_ptr arr (of_nat i)"
  have npos: "0 < n"
    using range_rounding(2,4) [OF len] n(1) by (auto simp: unat_div elim!: dvdE)
  then have "arr \<noteq> NULL"
    using fresh by (auto simp: fresh_array_def dest!: spec [of _ 0])
  define pg where "pg = page_info_zero\<lparr>pg_address := ?b, pg_state := PAGE_STATE_USED_OUTSIDE_REGION\<rparr>"
  define s1 where "s1 = s\<lparr>pm_pages := (pm_pages (calloc_page_infos arr n s))(arr \<mapsto> pg)\<rparr>"
  have first: "update_page arr (\<lambda>pg. pg\<lparr>pg_address := ?b, pg_state := PAGE_STATE_USED_OUTSIDE_REGION\<rparr>)
      (calloc_page_infos arr n s) = Ret s1"
  proof -
    have "arr \<in> ?f ` {0..<n}"
      using npos by (intro image_eqI [of _ _ 0]) auto
    then have "pm_pages (calloc_page_infos arr n s) arr = Some page_info_zero"
      by (simp only: calloc_page_infos_apply if_True)
    then show ?thesis
      by (simp add: s1_def pg_def) (simp add: calloc_page_infos_def)
  qed
  have "outside_chain arr ?b n 1 s s1"
    unfolding s1_def pg_def by (rule outside_chain_start [OF fresh npos])
  then obtain u where loop: "ofold (pmm_outside_page arr) (map of_nat [1..<n]) (arr, ?b, s1) =
      Ret (?f (n - 1), ?b + 4096 * of_nat (n - 1), u)" and ch: "outside_chain arr ?b n n s u"
    using outside_chain_loop [OF fresh npos n(2)] by blast
  have seg: "dlseg (pm_pages u) NULL arr run NULL"
    and core: "\<And>i. i < n \<Longrightarrow> page_core (pm_pages u) (?f i) = Some (?b + 4096 * of_nat i, PAGE_STATE_USED_OUTSIDE_REGION)"
    and frame: "\<And>x. x \<notin> ?f ` {0..<n} \<Longrightarrow> pm_pages u x = pm_pages s x" and eq: "u = s\<lparr>pm_pages := pm_pages u\<rparr>"
    using ch by (simp_all add: outside_chain_def Let_def run_def)
  have run: "run \<noteq> []" "last run = ?f (n - 1)" "set run = ?f ` {0..<n}" "distinct run"
    using npos fresh by (simp_all add: run_def last_map last_upt fresh_array_def)
  obtain pl where pl: "pm_pages u (last run) = Some pl"
      "dlseg ((pm_pages u)(last run \<mapsto> pl\<lparr>pg_next := NULL\<rparr>)) NULL arr run NULL"
    using dlseg_set_end [OF seg run(1,4), of NULL] by blast
  define m where "m = (pm_pages u)(last run \<mapsto> pl\<lparr>pg_next := NULL\<rparr>)"
  let ?cnt = "range_length address len div PAGE_SIZE"
  let ?s = "s\<lparr>pm_pages := m, memory_used := memory_used s + ?cnt * PAGE_SIZE\<rparr>"
  have last_in: "last run \<in> set run"
    using run(1) by (rule last_in_set)
  have m_frame: "m x = pm_pages s x" if "x \<notin> set run" for x
    using that frame [of x] last_in run(3) by (auto simp: m_def simp del: last_in_set)
  have "pmm_allocate_range address len arr s = Ret (IR_OK, Some arr, ?s)"
  proof -
    have l: "looped (for_uint (pmm_outside_page arr) ?cnt 1 (arr, ?b, s1)) =
        Ret (?f (n - 1), ?b + 4096 * of_nat (n - 1), u)"
      using for_uint_ofold [of ?cnt "pmm_outside_page arr" 1 "(arr, ?b, s1)"] n loop by simp
    have up: "update_page (?f (n - 1)) (\<lambda>pg. pg\<lparr>pg_next := NULL\<rparr>) u = Ret (s\<lparr>pm_pages := m\<rparr>)"
      using pl(1) run(2) by (simp add: m_def) (subst eq, simp)
    have "len \<noteq> 0"
      using len(1) by auto
    then have "pmm_allocate_range address len arr s =
        obind (update_page arr (\<lambda>pg. pg\<lparr>pg_address := ?b, pg_state := PAGE_STATE_USED_OUTSIDE_REGION\<rparr>)
          (calloc_page_infos arr n s)) (\<lambda>s.
        obind (looped (for_uint (pmm_outside_page arr) ?cnt 1 (arr, ?b, s))) (\<lambda>(previous, _, s).
        obind (update_page previous (\<lambda>pg. pg\<lparr>pg_next := NULL\<rparr>) s) (\<lambda>s.
        Ret (IR_OK, Some arr, s\<lparr>memory_used := memory_used s + ?cnt * PAGE_SIZE\<rparr>))))"
      using reg \<open>arr \<noteq> NULL\<close> n(1) unfolding pmm_allocate_range_def Let_def range_base_def range_length_def
      by (simp add: pmm_inv_regions [OF inv])
    also have "\<dots> = Ret (IR_OK, Some arr, ?s)"
      unfolding first obind.simps l prod.case up by simp
    finally show ?thesis .
  qed
  moreover have "pmm_inv ?s ps"
  proof (rule pmm_inv_extend [OF inv])
    show "m x = pm_pages s x" if "x \<in> dom (pm_pages s)" for x
      using that fresh by (intro m_frame) (auto simp: run(3) fresh_array_def)
    have "NULL \<notin> set run" "NULL \<notin> dom (pm_pages s)"
      using fresh inv by (auto simp: run(3) fresh_array_def pmm_inv_def)
    then show "NULL \<notin> dom m"
      using m_frame [of NULL] by (simp add: domIff)
  qed
  moreover have "page_core m (run ! i) = Some (?b + 4096 * of_nat i, PAGE_STATE_USED_OUTSIDE_REGION)"
    if "i < n" for i
    using core [OF that] pl(1) that by (simp add: m_def run_def)
  ultimately show ?thesis
    using pl(2) m_frame by (simp add: m_def [symmetric])
qed

end
