(* ===== verification/Pmm_Init.thy ===== *)
theory Pmm_Init
  imports Pmm
begin

text \<open>
  Boot of the physical memory manager: \<^verbatim>\<open>pmm_init_region\<close> turns an available region of the memory
  map into an array of page infos and free pages, and the region loop of \<^verbatim>\<open>physical_memory_init\<close>
  establishes the allocator's invariant from an empty state.
\<close>

section \<open>The page loop of a region\<close>

text \<open>After \<open>k\<close> rounds: the first \<open>k\<close> entries are written, those below \<open>m\<close> pushed.\<close>

definition init_chain :: "(nat \<Rightarrow> ptr) \<Rightarrow> u64 \<Rightarrow> nat \<Rightarrow> nat \<Rightarrow> ptr list \<Rightarrow> nat \<Rightarrow> pmm \<Rightarrow> pmm \<Rightarrow> bool" where
  "init_chain f b m N ps k s t \<longleftrightarrow>
     free_rep t (rev (map f [0..<min k m]) @ ps) \<and>
     (\<forall>i < k. page_core (pm_pages t) (f i) =
        Some (b + 4096 * of_nat i, if i < m then PAGE_STATE_FREE else PAGE_STATE_USED)) \<and>
     (\<forall>x. x \<notin> f ` {0..<k} \<longrightarrow> page_core (pm_pages t) x = page_core (pm_pages s) x) \<and>
     regions_array t = regions_array s \<and> regions_count t = regions_count s \<and>
     initialized_regions t = initialized_regions s \<and> memory_free t = memory_free s \<and>
     memory_used t = memory_used s \<and> memory_reserved t = memory_reserved s"

lemma init_chain_step:
  assumes f: "\<And>i. f i = page_ptr arr (of_nat i)" and inj: "inj_on f {0..<N}"
    and fresh: "\<And>i. i < N \<Longrightarrow> f i \<noteq> NULL \<and> f i \<notin> set ps"
    and k: "k < N" "N < 2 ^ 32" "m \<le> N" and ch: "init_chain f b m N ps k s t"
  shows "\<exists>t'. pmm_init_page arr (of_nat m) (of_nat k) (b + 4096 * of_nat k, t) =
      Ret (b + 4096 * of_nat (Suc k), t') \<and> init_chain f b m N ps (Suc k) s t'"
proof -
  have ptr: "page_ptr arr (ucast (of_nat k :: u32)) = f k"
    using k f by (simp add: ucast_of_nat_u32_u64)
  have lt: "(of_nat k :: u32) < of_nat m \<longleftrightarrow> k < m"
    using k by (simp add: word_less_nat_alt unat_of_nat_u32)
  have next_addr: "b + 4096 * of_nat k + PAGE_SIZE = b + 4096 * of_nat (Suc k)"
    by (simp add: algebra_simps)
  let ?free = "rev (map f [0..<min k m]) @ ps"
  define st where "st = (if k < m then PAGE_STATE_FREE else PAGE_STATE_USED)"
  define t1 where "t1 = t\<lparr>pm_pages := (pm_pages t)(f k \<mapsto>
    \<lparr>pg_prev = NULL, pg_next = NULL, pg_address = b + 4096 * of_nat k, pg_state = st\<rparr>)\<rparr>"
  have f_less: "f i \<noteq> f k" if "i < k" for i
    using inj_onD [OF inj, of i k] that k(1) by auto
  have "f k \<notin> f ` {0..<min k m}"
    using f_less by force
  then have old: "f k \<notin> set ?free"
    using fresh [OF k(1)] by simp
  have core1: "page_core (pm_pages t1) = (page_core (pm_pages t))(f k \<mapsto> (b + 4096 * of_nat k, st))"
    by (auto simp: t1_def page_core_def)
  have rep1: "free_rep t1 ?free"
    using ch old by (simp add: init_chain_def t1_def free_rep_def del: set_append)
  have chain: "init_chain f b m N ps (Suc k) s t'"
    if "free_rep t' (rev (map f [0..<min (Suc k) m]) @ ps)" "relinked A t1 t'" for t' A
    using that ch core1 f_less unfolding init_chain_def relinked_def
    by (auto simp: t1_def st_def less_Suc_eq atLeast0_lessThan_Suc)
  show ?thesis
  proof (cases "k < m")
    case True
    obtain t' where t': "pmm_free_list_push (f k) t1 = Ret t'" "free_rep t' (f k # ?free)"
        "relinked (insert (f k) (set ?free)) t1 t'"
      using pmm_free_list_push_refine [OF rep1 old] fresh [OF k(1)] by (auto simp: t1_def)
    moreover have "f k # ?free = rev (map f [0..<min (Suc k) m]) @ ps"
      using True by (simp add: min_def)
    ultimately have "init_chain f b m N ps (Suc k) s t'"
      using chain by simp
    then show ?thesis
      using t'(1) True unfolding pmm_init_page_def prod.case Let_def ptr lt next_addr
      by (simp add: t1_def st_def)
  next
    case False
    then have "min (Suc k) m = min k m"
      by (simp add: min_def)
    then have "init_chain f b m N ps (Suc k) s t1"
      using chain [of t1 "{}"] rep1 by (simp add: relinked_def)
    then show ?thesis
      using False unfolding pmm_init_page_def prod.case Let_def ptr lt next_addr
      by (simp add: t1_def st_def)
  qed
qed

lemma init_chain_loop:
  assumes f: "\<And>i. f i = page_ptr arr (of_nat i)" and inj: "inj_on f {0..<N}"
    and fresh: "\<And>i. i < N \<Longrightarrow> f i \<noteq> NULL \<and> f i \<notin> set ps"
    and N: "N < 2 ^ 32" "m \<le> N" and rep: "free_rep s ps"
  shows "\<exists>t. ofold (pmm_init_page arr (of_nat m)) (map of_nat [0..<N]) (b, s) =
      Ret (b + 4096 * of_nat N, t) \<and> init_chain f b m N ps N s t"
proof -
  have "\<exists>u. ofold (pmm_init_page arr (of_nat m)) (map of_nat [k..<N]) (b + 4096 * of_nat k, t) =
      Ret (b + 4096 * of_nat N, u) \<and> init_chain f b m N ps N s u"
    if "k \<le> N" "init_chain f b m N ps k s t" for k t
    using that
  proof (induction "N - k" arbitrary: k t)
    case 0
    then show ?case by simp
  next
    case (Suc d)
    then have "k < N"
      by simp
    then obtain t' where t': "pmm_init_page arr (of_nat m) (of_nat k) (b + 4096 * of_nat k, t) =
        Ret (b + 4096 * of_nat (Suc k), t')" "init_chain f b m N ps (Suc k) s t'"
      using init_chain_step [OF f inj fresh _ N Suc.prems(2)] by blast
    then show ?case
      using Suc.hyps(1) [of "Suc k" t'] Suc.hyps(2) \<open>k < N\<close> by (simp add: upt_conv_Cons)
  qed
  from this [of 0 s] show ?thesis
    using rep by (simp add: init_chain_def)
qed

section \<open>Geometry of a region\<close>

definition init_base :: "physical_region \<Rightarrow> u64" where
  "init_base r = ROUND_UP_PAGE (rg_base r)"

definition init_length :: "physical_region \<Rightarrow> u64" where
  "init_length r = ROUND_DOWN_PAGE (rg_base r + rg_length r) - init_base r"

definition init_array_size :: "physical_region \<Rightarrow> u64" where
  "init_array_size r = ROUND_UP_PAGE (init_length r div PAGE_SIZE * sizeof_page_info)"

definition init_array :: "physical_region \<Rightarrow> ptr" where
  "init_array r = p_addr_to_physical_map (init_base r + init_length r - init_array_size r)"

text \<open>A region of the memory map that the physical map covers and that contains a whole page.\<close>

definition usable_region :: "physical_region \<Rightarrow> bool" where
  "usable_region r \<longleftrightarrow> unat (rg_base r) + unat (rg_length r) \<le> 2 ^ 39 \<and>
     ROUND_UP_PAGE (rg_base r) \<le> ROUND_DOWN_PAGE (rg_base r + rg_length r)"

lemma init_geometry:
  assumes "usable_region r"
  defines "B \<equiv> unat (init_base r)" and "L \<equiv> unat (init_length r)" and "A \<equiv> unat (init_array_size r)"
  shows "4096 dvd B" "4096 dvd L" "4096 dvd A" "unat (rg_base r) \<le> B"
    "B + L \<le> unat (rg_base r) + unat (rg_length r)" "B + L \<le> 2 ^ 39"
    "32 * (L div 4096) \<le> A" "A \<le> L + 4096"
    "unat (init_length r div PAGE_SIZE) = L div 4096"
proof -
  have bound: "unat (rg_base r) + unat (rg_length r) \<le> 2 ^ 39"
    and le: "ROUND_UP_PAGE (rg_base r) \<le> ROUND_DOWN_PAGE (rg_base r + rg_length r)"
    using assms(1) by (simp_all add: usable_region_def)
  have e: "unat (rg_base r + rg_length r) = unat (rg_base r) + unat (rg_length r)"
    using bound by (simp add: unat_word_ariths)
  have top: "unat (rg_base r) \<le> 2 ^ 64 - 4096"
    using bound by simp
  note up = ROUND_UP_PAGE_bounds [OF top]
  note down = ROUND_DOWN_PAGE_bounds [of "rg_base r + rg_length r", unfolded e]
  show b: "4096 dvd B" and "unat (rg_base r) \<le> B"
    using up by (simp_all add: B_def init_base_def)
  have sub: "L = unat (ROUND_DOWN_PAGE (rg_base r + rg_length r)) - B"
    using le by (simp add: L_def B_def init_length_def init_base_def unat_sub)
  moreover have "B \<le> unat (ROUND_DOWN_PAGE (rg_base r + rg_length r))"
    using le by (simp add: B_def init_base_def word_le_nat_alt)
  ultimately have sum: "B + L = unat (ROUND_DOWN_PAGE (rg_base r + rg_length r))"
    by simp
  show "4096 dvd L"
    unfolding sub using down(1) b by (rule dvd_diff_nat)
  show "B + L \<le> unat (rg_base r) + unat (rg_length r)" and BL: "B + L \<le> 2 ^ 39"
    using sum down(2) bound by simp_all
  show n: "unat (init_length r div PAGE_SIZE) = L div 4096"
    by (simp add: unat_div L_def)
  have "L div 4096 \<le> 2 ^ 27"
    using BL by simp
  then have mul: "unat (init_length r div PAGE_SIZE * sizeof_page_info) = 32 * (L div 4096)"
    using n by (simp add: unat_word_ariths)
  have top2: "unat (init_length r div PAGE_SIZE * sizeof_page_info) \<le> 2 ^ 64 - 4096"
    unfolding mul using \<open>L div 4096 \<le> 2 ^ 27\<close> by simp
  note arr = ROUND_UP_PAGE_bounds [OF top2, unfolded mul]
  show "4096 dvd A" "32 * (L div 4096) \<le> A"
    using arr by (simp_all add: A_def init_array_size_def)
  have "A < 32 * (L div 4096) + 4096"
    using arr by (simp add: A_def init_array_size_def)
  then show "A \<le> L + 4096"
    by linarith
qed

text \<open>The page infos of a region lie in the mapped image of the region itself.\<close>

lemma init_array_pages:
  assumes r: "usable_region r" and big: "init_array_size r < init_length r"
    and i: "i < unat (init_length r) div 4096"
  shows "unat (page_ptr (init_array r) (of_nat i)) =
    0xffff800000000000 + (unat (init_base r) + unat (init_length r) - unat (init_array_size r)) + 32 * i"
    and "32 * i < unat (init_array_size r)"
proof -
  let ?B = "unat (init_base r)" and ?L = "unat (init_length r)" and ?A = "unat (init_array_size r)"
  note g = init_geometry [OF r]
  have AL: "?A < ?L"
    using big by (simp add: word_less_nat_alt)
  show lt: "32 * i < ?A"
    using g(7) i by linarith
  have "unat (init_base r + init_length r) = ?B + ?L"
    using g(6) by (simp add: unat_word_ariths)
  then have phys: "unat (init_base r + init_length r - init_array_size r) = ?B + ?L - ?A"
    using AL by (simp add: unat_sub word_le_nat_alt)
  then have arr: "unat (init_array r) = 0xffff800000000000 + (?B + ?L - ?A)"
    using g(6) by (simp add: init_array_def p_addr_to_physical_map_def unat_word_ariths)
  have "32 * i < 2 ^ 64"
    using lt unat_u64_less [of "init_array_size r"] by linarith
  then have "unat (sizeof_page_info * of_nat i) = 32 * i"
    using i g(6) by (simp add: unat_word_ariths unat_of_nat_u64)
  moreover have "unat (init_array r) + 32 * i < 2 ^ 64"
    using arr lt AL g(6) by simp
  ultimately show "unat (page_ptr (init_array r) (of_nat i)) = 0xffff800000000000 + (?B + ?L - ?A) + 32 * i"
    unfolding page_ptr_def using arr by (simp add: unat_word_ariths)
qed

lemma init_array_inj:
  assumes "usable_region r" "init_array_size r < init_length r"
  shows "inj_on (\<lambda>i. page_ptr (init_array r) (of_nat i)) {0..<unat (init_length r) div 4096}"
proof (rule inj_onI)
  fix i j
  assume "i \<in> {0..<unat (init_length r) div 4096}" "j \<in> {0..<unat (init_length r) div 4096}"
    and eq: "page_ptr (init_array r) (of_nat i) = page_ptr (init_array r) (of_nat j)"
  then have "i < unat (init_length r) div 4096" "j < unat (init_length r) div 4096"
    by simp_all
  then have "0xffff800000000000 + (unat (init_base r) + unat (init_length r) - unat (init_array_size r)) + 32 * i =
      0xffff800000000000 + (unat (init_base r) + unat (init_length r) - unat (init_array_size r)) + 32 * j"
    using init_array_pages(1) [OF assms] eq by metis
  then show "i = j"
    by simp
qed

definition init_free_pages :: "physical_region \<Rightarrow> nat" where
  "init_free_pages r = (unat (init_length r) - unat (init_array_size r)) div 4096"

lemma pmm_init_region_refine:
  assumes r: "usable_region r" "rg_type r = REGION_TYPE_AVAILABLE" and big: "init_array_size r < init_length r"
    and rep: "free_rep s ps"
    and fresh: "\<And>i. i < unat (init_length r) div 4096 \<Longrightarrow> page_ptr (init_array r) (of_nat i) \<notin> set ps"
  defines "N \<equiv> unat (init_length r) div 4096"
  shows "\<exists>t. pmm_init_region r s =
      Ret (r\<lparr>rg_base := init_base r, rg_length := init_length r, rg_page_array := init_array r\<rparr>,
           t\<lparr>memory_free := memory_free t + 4096 * of_nat (init_free_pages r),
             memory_used := memory_used t + init_array_size r\<rparr>) \<and>
      init_chain (\<lambda>i. page_ptr (init_array r) (of_nat i)) (init_base r) (init_free_pages r) N ps N s t"
proof -
  note g = init_geometry [OF r(1)]
  let ?L = "unat (init_length r)" and ?A = "unat (init_array_size r)" and ?m = "init_free_pages r"
  let ?f = "\<lambda>i. page_ptr (init_array r) (of_nat i)"
  have AL: "?A < ?L"
    using big by (simp add: word_less_nat_alt)
  have N: "N < 2 ^ 32" and m: "?m \<le> N"
    using g(6) by (simp_all add: N_def init_free_pages_def div_le_mono)
  have nz: "?f i \<noteq> NULL" if "i < N" for i
  proof -
    have "unat (?f i) \<noteq> 0"
      using init_array_pages(1) [OF r(1) big] that by (simp add: N_def)
    then show ?thesis by auto
  qed
  have fr: "?f i \<noteq> NULL \<and> ?f i \<notin> set ps" if "i < N" for i
    using nz [OF that] fresh [of i] that by (simp add: N_def)
  obtain t where t: "ofold (pmm_init_page (init_array r) (of_nat ?m)) (map of_nat [0..<N]) (init_base r, s) =
      Ret (init_base r + 4096 * of_nat N, t)" "init_chain ?f (init_base r) ?m N ps N s t"
    using init_chain_loop [of ?f "init_array r" N ps ?m s "init_base r", OF refl _ fr N m rep]
      init_array_inj [OF r(1) big] by (auto simp: N_def)
  have "4096 dvd ?L - ?A"
    using g(2,3) by (rule dvd_diff_nat)
  then have usub: "unat (init_length r - init_array_size r) = 4096 * ?m"
    using AL by (simp add: unat_sub word_le_nat_alt init_free_pages_def)
  have sub: "init_length r - init_array_size r = 4096 * of_nat ?m"
    using arg_cong [OF usub, of "of_nat :: nat \<Rightarrow> u64"] by simp
  have idx: "(ucast (PAGE_INDEX_IN_REGION (init_base r + init_length r - init_array_size r) (init_base r)) :: u32) =
      of_nat ?m"
  proof -
    have "init_base r + init_length r - init_array_size r - init_base r = init_length r - init_array_size r"
      by simp
    then have "unat (PAGE_INDEX_IN_REGION (init_base r + init_length r - init_array_size r) (init_base r)) = ?m"
      using usub by (simp add: PAGE_INDEX_IN_REGION_def unat_div)
    then show ?thesis
      by (metis ucast_of_nat_u64_u32 unat_of_nat_u64 unat_u64_less word_unat_eq_iff)
  qed
  have loop: "looped (for_uint (pmm_init_page (init_array r) (of_nat ?m)) (init_length r div PAGE_SIZE) 0
      (init_base r, s)) = Ret (init_base r + 4096 * of_nat N, t)"
    using for_uint_ofold [of "init_length r div PAGE_SIZE" "pmm_init_page (init_array r) (of_nat ?m)" 0] N t(1) g(9)
    by (simp add: N_def)
  have code: "pmm_init_region r s =
      obind (looped (for_uint (pmm_init_page (init_array r)
          (ucast (PAGE_INDEX_IN_REGION (init_base r + init_length r - init_array_size r) (init_base r))))
          (init_length r div PAGE_SIZE) 0 (init_base r, s))) (\<lambda>(_, s).
      Ret (r\<lparr>rg_base := init_base r, rg_length := init_length r, rg_page_array := init_array r\<rparr>,
        s\<lparr>memory_free := memory_free s + (init_length r - init_array_size r),
          memory_used := memory_used s + init_array_size r\<rparr>))"
    using big r(2) unfolding pmm_init_region_def Let_def init_base_def init_length_def init_array_size_def init_array_def
    by auto
  show ?thesis
    unfolding code idx loop obind.simps prod.case sub using t(2) by blast
qed

lemma pmm_init_region_unusable:
  "init_length r \<le> init_array_size r \<Longrightarrow> pmm_init_region r s =
     Ret (r\<lparr>rg_base := init_base r, rg_length := init_length r, rg_type := REGION_TYPE_UNUSABLE\<rparr>, s)"
  by (simp add: pmm_init_region_def Let_def init_base_def init_length_def init_array_size_def)

section \<open>The region loop\<close>

text \<open>Adding an initialized region to those the invariant covers.\<close>

lemma pmm_inv_add_region:
  assumes inv: "pmm_inv v ps" and ch: "init_chain f b m N ps N s t"
    and same: "pm_pages s = pm_pages v" "memory_free s = memory_free v"
    and r: "f = region_page r" "rg_type r = REGION_TYPE_AVAILABLE" "rg_base r = b" "region_page_count r = N"
      "N < 2 ^ 32" "4096 dvd unat (rg_base r)" "4096 dvd unat (rg_length r)"
      "unat (rg_base r) + unat (rg_length r) < 2 ^ 64"
    and fresh: "inj_on f {0..<N}" "\<And>i. i < N \<Longrightarrow> f i \<noteq> NULL \<and> f i \<notin> dom (pm_pages v)" "m \<le> N"
    and bound: "length (region_pages v) + N < 2 ^ 52" "length (regions_array w) < 2 ^ 31"
    and w: "regions_array w = regions_array v @ [r]" "regions_count w = regions_count v + 1"
      "initialized_regions w = regions_count w" "pm_pages w = pm_pages t" "free_list w = free_list t"
      "pages_in_free_list w = pages_in_free_list t" "memory_free w = memory_free t + 4096 * of_nat m"
  shows "pmm_inv w (rev (map f [0..<m]) @ ps)"
proof -
  have core_new: "\<And>i. i < N \<Longrightarrow> page_core (pm_pages w) (f i) =
        Some (b + 4096 * of_nat i, if i < m then PAGE_STATE_FREE else PAGE_STATE_USED)"
    and core_old: "\<And>x. x \<notin> f ` {0..<N} \<Longrightarrow> page_core (pm_pages w) x = page_core (pm_pages v) x"
    and rep: "free_rep w (rev (map f [0..<m]) @ ps)" and mem: "memory_free t = memory_free v"
    using ch w same fresh(3) by (auto simp: init_chain_def free_rep_def min_absorb2)
  have avail: "available w = available v @ [r]"
    using w(1) r(2) by (simp add: available_def)
  then have pages: "region_pages w = region_pages v @ map f [0..<N]"
    by (simp add: region_pages_def r(1,4))
  have old_dom: "x \<in> dom (pm_pages v)" if "x \<in> set (region_pages v)" for x
    using that region_pages_in_dom(2) [OF inv] by (fastforce simp: region_pages_def)
  have new: "f i \<notin> set (region_pages v)" if "i < N" for i
    using old_dom fresh(2) [OF that] by blast
  have not_new: "x \<notin> f ` {0..<N}" if "x \<in> dom (pm_pages v)" for x
    using that fresh(2) by (metis atLeastLessThan_iff imageE)
  have ok: "region_ok (page_core (pm_pages w)) q" if "q \<in> set (available w)" for q
  proof (cases "q \<in> set (available v)")
    case True
    have "page_core (pm_pages w) (region_page q i) = page_core (pm_pages v) (region_page q i)"
      if "i < region_page_count q" for i
      using old_dom [OF region_pages_in_dom(1) [OF inv True that]] by (intro core_old not_new)
    moreover have "region_ok (page_core (pm_pages v)) q"
      using inv True by (simp add: pmm_inv_def)
    ultimately show ?thesis
      by (simp add: region_ok_def)
  next
    case False
    then have "q = r"
      using that avail by simp
    then show ?thesis
      using r core_new by (auto simp: region_ok_def)
  qed
  have "set (rev (map f [0..<m]) @ ps) =
      {a \<in> set (region_pages w). \<exists>x. page_core (pm_pages w) a = Some (x, PAGE_STATE_FREE)}" (is "_ = ?R")
  proof -
    have "?R = {a \<in> set (region_pages v). \<exists>x. page_core (pm_pages v) a = Some (x, PAGE_STATE_FREE)} \<union>
        f ` {i. i < N \<and> i < m}"
      using core_old [OF not_new [OF old_dom]] core_new by (auto simp: pages split: if_splits)
    moreover have "{i. i < N \<and> i < m} = {0..<m}"
      using fresh(3) by auto
    ultimately show ?thesis
      using inv by (auto simp: pmm_inv_def)
  qed
  moreover have "distinct (region_pages w)"
    using inv fresh(1) new by (auto simp: pages pmm_inv_def distinct_map)
  moreover have "NULL \<notin> dom (pm_pages w)"
  proof -
    have "NULL \<notin> f ` {0..<N}"
      using fresh(2) by auto
    then have "page_core (pm_pages w) NULL = page_core (pm_pages v) NULL"
      by (rule core_old)
    moreover have "pm_pages v NULL = None"
      using inv by (auto simp: pmm_inv_def)
    ultimately show ?thesis
      by (simp add: page_core_def domIff)
  qed
  ultimately show ?thesis
    using inv rep ok mem w(1,2,3,7) bound unfolding pmm_inv_def
    by (auto simp: pages algebra_simps)
qed

text \<open>Regions added without pages do not matter.\<close>

lemma pmm_inv_skip_region:
  assumes inv: "pmm_inv v ps" and r: "rg_type r \<noteq> REGION_TYPE_AVAILABLE"
    and w: "w = v\<lparr>regions_array := regions_array v @ [r], regions_count := regions_count v + 1,
      initialized_regions := regions_count v + 1\<rparr>" "length (regions_array w) < 2 ^ 31"
  shows "pmm_inv w ps"
proof -
  have "available w = available v"
    using r w(1) by (simp add: available_def)
  then have "region_pages w = region_pages v"
    by (simp add: region_pages_def)
  then show ?thesis
    using inv w(2) \<open>available w = available v\<close> unfolding pmm_inv_def free_rep_def
    by (simp add: w(1))
qed

text \<open>The state with only the first \<open>k\<close> regions in view.\<close>

definition view_regions :: "nat \<Rightarrow> pmm \<Rightarrow> pmm" where
  "view_regions k s = s\<lparr>regions_array := take k (regions_array s), regions_count := of_nat k,
     initialized_regions := of_nat k\<rparr>"

text \<open>The image of a region under the physical map.\<close>

definition mapped_region :: "physical_region \<Rightarrow> ptr set" where
  "mapped_region r = {a. 0xffff800000000000 + unat (rg_base r) \<le> unat a \<and>
     unat a < 0xffff800000000000 + unat (rg_base r) + unat (rg_length r)}"

definition memory_map_ok :: "physical_region list \<Rightarrow> bool" where
  "memory_map_ok rs \<longleftrightarrow> length rs < 2 ^ 31 \<and>
     (\<forall>r \<in> set rs. rg_type r = REGION_TYPE_AVAILABLE \<longrightarrow> usable_region r) \<and>
     sorted_wrt (\<lambda>q r. rg_type q = REGION_TYPE_AVAILABLE \<longrightarrow> rg_type r = REGION_TYPE_AVAILABLE \<longrightarrow>
       unat (rg_base q) + unat (rg_length q) \<le> unat (rg_base r) \<or>
       unat (rg_base r) + unat (rg_length r) \<le> unat (rg_base q)) rs"

definition boot_state :: "physical_region list \<Rightarrow> pmm" where
  "boot_state rs = \<lparr>pm_pages = Map.empty, free_list = NULL, pages_in_free_list = 0, regions_array = rs,
     regions_count = of_nat (length rs), initialized_regions = 0, memory_free = 0, memory_used = 0,
     memory_reserved = 0\<rparr>"

lemma mapped_region_disjoint:
  assumes "memory_map_ok rs" "i < k" "k < length rs"
    "rg_type (rs ! i) = REGION_TYPE_AVAILABLE" "rg_type (rs ! k) = REGION_TYPE_AVAILABLE"
  shows "mapped_region (rs ! i) \<inter> mapped_region (rs ! k) = {}"
proof -
  have "unat (rg_base (rs ! i)) + unat (rg_length (rs ! i)) \<le> unat (rg_base (rs ! k)) \<or>
       unat (rg_base (rs ! k)) + unat (rg_length (rs ! k)) \<le> unat (rg_base (rs ! i))"
    using assms by (auto simp: memory_map_ok_def sorted_wrt_iff_nth_less)
  then show ?thesis
    by (auto simp: mapped_region_def)
qed

lemma mapped_window:
  assumes "distinct xs" "\<And>a. a \<in> set xs \<Longrightarrow> 0xffff800000000000 \<le> unat a \<and> unat (a :: ptr) < 0xffff800000000000 + 2 ^ 39"
  shows "length xs \<le> 2 ^ 39"
proof -
  have "inj_on unat (set xs)"
    by (auto simp: inj_on_def word_unat_eq_iff)
  then have "card (set xs) = card (unat ` set xs)"
    by (simp add: card_image)
  also have "\<dots> \<le> card {0xffff800000000000..<0xffff800000000000 + 2 ^ 39 :: nat}"
    using assms(2) by (intro card_mono) auto
  also have "\<dots> = 2 ^ 39"
    by simp
  finally show ?thesis
    using assms(1) by (simp add: distinct_card)
qed

definition boot_inv :: "physical_region list \<Rightarrow> nat \<Rightarrow> pmm \<Rightarrow> bool" where
  "boot_inv rs k s \<longleftrightarrow> length (regions_array s) = length rs \<and> drop k (regions_array s) = drop k rs \<and>
     regions_count s = of_nat (length rs) \<and> initialized_regions s = of_nat k \<and>
     (\<exists>ps. pmm_inv (view_regions k s) ps) \<and>
     dom (pm_pages s) \<subseteq> (\<Union>i \<in> {i. i < k \<and> rg_type (rs ! i) = REGION_TYPE_AVAILABLE}. mapped_region (rs ! i))"

lemma boot_inv_nth:
  assumes "boot_inv rs k s" "k < length rs"
  shows "regions_array s ! k = rs ! k"
proof -
  have "length (regions_array s) = length rs"
    using assms(1) by (simp add: boot_inv_def)
  then have "regions_array s ! k = drop k (regions_array s) ! 0"
    using assms(2) by simp
  also have "\<dots> = drop k rs ! 0"
    using assms(1) by (simp add: boot_inv_def)
  also have "\<dots> = rs ! k"
    using assms(2) by simp
  finally show ?thesis .
qed

lemma take_Suc_update: "k < length xs \<Longrightarrow> take (Suc k) (xs[k := x]) = take k xs @ [x]"
  by (simp add: take_Suc_conv_app_nth)

lemma drop_Suc_eq: "drop k xs = drop k ys \<Longrightarrow> drop (Suc k) xs = drop (Suc k) ys"
  by (metis drop_Suc drop_tl)

lemma boot_inv_skip:
  assumes inv: "boot_inv rs k s" and k: "k < length rs" "length rs < 2 ^ 31" and r: "rg_type r \<noteq> REGION_TYPE_AVAILABLE"
  shows "boot_inv rs (Suc k) (s\<lparr>regions_array := (regions_array s)[k := r],
    initialized_regions := initialized_regions s + 1\<rparr>)" (is "boot_inv rs (Suc k) ?s")
proof -
  obtain ps where ps: "pmm_inv (view_regions k s) ps" and len: "length (regions_array s) = length rs"
    using inv by (auto simp: boot_inv_def)
  have "pmm_inv (view_regions (Suc k) ?s) ps"
  proof (rule pmm_inv_skip_region [OF ps r])
    show "view_regions (Suc k) ?s = (view_regions k s)\<lparr>
        regions_array := regions_array (view_regions k s) @ [r],
        regions_count := regions_count (view_regions k s) + 1,
        initialized_regions := regions_count (view_regions k s) + 1\<rparr>"
      using k len by (simp add: view_regions_def take_Suc_update add.commute)
    show "length (regions_array (view_regions (Suc k) ?s)) < 2 ^ 31"
      using k len by (simp add: view_regions_def)
  qed
  moreover have "dom (pm_pages ?s) \<subseteq>
      (\<Union>i \<in> {i. i < Suc k \<and> rg_type (rs ! i) = REGION_TYPE_AVAILABLE}. mapped_region (rs ! i))"
    using inv by (fastforce simp: boot_inv_def less_Suc_eq)
  moreover have "drop (Suc k) (regions_array ?s) = drop (Suc k) rs"
    using inv drop_Suc_eq [of k "regions_array s" rs] by (simp add: boot_inv_def)
  ultimately show ?thesis
    using inv by (auto simp: boot_inv_def)
qed

lemma init_pages_mapped:
  assumes r: "usable_region r" "init_array_size r < init_length r" and i: "i < unat (init_length r) div 4096"
  shows "page_ptr (init_array r) (of_nat i) \<in> mapped_region r"
proof -
  note g = init_geometry [OF r(1)]
  have "unat (init_array_size r) < unat (init_length r)"
    using r(2) by (simp add: word_less_nat_alt)
  then show ?thesis
    unfolding mapped_region_def mem_Collect_eq init_array_pages(1) [OF r i]
    using init_array_pages(2) [OF r i] g(4,5) by linarith
qed

lemma mapped_region_window:
  assumes "usable_region r" "a \<in> mapped_region r"
  shows "0xffff800000000000 \<le> unat a \<and> unat a < 0xffff800000000000 + 2 ^ 39"
  using assms by (auto simp: mapped_region_def usable_region_def)

lemma boot_step_init:
  assumes map: "memory_map_ok rs" and k: "k < length rs" and inv: "boot_inv rs k s"
  defines "r \<equiv> rs ! k"
  assumes r: "rg_type r = REGION_TYPE_AVAILABLE" "init_array_size r < init_length r"
  shows "\<exists>s'. pmm_init_nth_region (of_nat k) s = Ret s' \<and> boot_inv rs (Suc k) s'"
proof -
  let ?f = "\<lambda>i. page_ptr (init_array r) (of_nat i)" and ?N = "unat (init_length r) div 4096"
  obtain ps where ps: "pmm_inv (view_regions k s) ps" and len: "length (regions_array s) = length rs"
    and rest: "drop k (regions_array s) = drop k rs" "regions_count s = of_nat (length rs)" "initialized_regions s = of_nat k"
    and dom: "dom (pm_pages s) \<subseteq> (\<Union>i \<in> {i. i < k \<and> rg_type (rs ! i) = REGION_TYPE_AVAILABLE}. mapped_region (rs ! i))"
    using inv by (auto simp: boot_inv_def)
  have small: "length rs < 2 ^ 31" and use: "usable_region r"
    using map k r by (auto simp: memory_map_ok_def r_def)
  note g = init_geometry [OF use]
  have uk: "unat (of_nat k :: u32) = k"
    by (rule unat_of_nat_u32) (use k small in simp)
  have nth: "regions_array s ! k = r"
    using boot_inv_nth [OF inv k] by (simp add: r_def)
  have pages_v: "pm_pages (view_regions k s) = pm_pages s" and mem_v: "memory_free (view_regions k s) = memory_free s"
    by (simp_all add: view_regions_def)
  have rep: "free_rep s ps"
    using pmm_inv_free_rep [OF ps] by (simp add: free_rep_def view_regions_def)
  have fresh: "?f i \<notin> dom (pm_pages s)" if "i < ?N" for i
    using dom mapped_region_disjoint [OF map _ k] init_pages_mapped [OF use r(2) that] r(1)
    by (fastforce simp: r_def)
  have nz: "?f i \<noteq> NULL" if "i < ?N" for i
  proof -
    have "unat (?f i) \<noteq> 0"
      using mapped_region_window [OF use init_pages_mapped [OF use r(2) that]] by auto
    then show ?thesis by auto
  qed
  have "?f i \<notin> set ps" if "i < ?N" for i
    using fresh [OF that] free_rep_dom [OF rep] by blast
  then obtain t where t: "pmm_init_region r s =
      Ret (r\<lparr>rg_base := init_base r, rg_length := init_length r, rg_page_array := init_array r\<rparr>,
           t\<lparr>memory_free := memory_free t + 4096 * of_nat (init_free_pages r),
             memory_used := memory_used t + init_array_size r\<rparr>)"
      "init_chain ?f (init_base r) (init_free_pages r) ?N ps ?N s t"
    using pmm_init_region_refine [OF use r(1,2) rep] by blast
  define r' where "r' = r\<lparr>rg_base := init_base r, rg_length := init_length r, rg_page_array := init_array r\<rparr>"
  define s' where "s' = t\<lparr>memory_free := memory_free t + 4096 * of_nat (init_free_pages r),
             memory_used := memory_used t + init_array_size r, regions_array := (regions_array s)[k := r'],
             initialized_regions := initialized_regions s + 1\<rparr>"
  have tf: "regions_array t = regions_array s" "regions_count t = regions_count s" "initialized_regions t = initialized_regions s"
    using t(2) by (auto simp: init_chain_def)
  have code: "pmm_init_nth_region (of_nat k) s = Ret s'"
    using k len r(1) t(1) tf unfolding pmm_init_nth_region_def Let_def uk nth
    by (simp add: s'_def r'_def)
  have inj: "inj_on ?f {0..<?N}"
    by (rule init_array_inj [OF use r(2)])
  have fr': "?f = region_page r'"
    by (simp add: fun_eq_iff region_page_def r'_def)
  have old_dom: "set (region_pages (view_regions k s)) \<subseteq> dom (pm_pages s)"
    using region_pages_in_dom(2) [OF ps] by (fastforce simp: region_pages_def pages_v)
  have "\<exists>qs. pmm_inv (view_regions (Suc k) s') qs"
  proof (rule exI, rule pmm_inv_add_region [OF ps t(2), where r = r'])
    have "length (region_pages (view_regions k s) @ map ?f [0..<?N]) \<le> 2 ^ 39"
    proof (rule mapped_window)
      have "?f i \<notin> set (region_pages (view_regions k s))" if "i < ?N" for i
        using fresh [OF that] old_dom by blast
      moreover have "distinct (region_pages (view_regions k s))"
        using ps by (simp add: pmm_inv_def)
      ultimately show "distinct (region_pages (view_regions k s) @ map ?f [0..<?N])"
        using inj by (auto simp: distinct_map)
      fix a assume "a \<in> set (region_pages (view_regions k s) @ map ?f [0..<?N])"
      then consider "a \<in> dom (pm_pages s)" | i where "i < ?N" "a = ?f i"
        using old_dom by auto
      then show "0xffff800000000000 \<le> unat a \<and> unat a < 0xffff800000000000 + 2 ^ 39"
      proof cases
        case 1
        then obtain i where "i < k" "rg_type (rs ! i) = REGION_TYPE_AVAILABLE" "a \<in> mapped_region (rs ! i)"
          using dom by auto
        moreover have "usable_region (rs ! i)"
          using map calculation k by (auto simp: memory_map_ok_def)
        ultimately show ?thesis
          using mapped_region_window by blast
      next
        case 2
        then show ?thesis
          using mapped_region_window [OF use init_pages_mapped [OF use r(2)]] by blast
      qed
    qed
    then show "length (region_pages (view_regions k s)) + ?N < 2 ^ 52"
      by simp
    show "regions_array (view_regions (Suc k) s') = regions_array (view_regions k s) @ [r']"
      using k len by (simp add: view_regions_def s'_def take_Suc_update)
    show "unat (rg_base r') + unat (rg_length r') < 2 ^ 64"
      using g(6) by (simp add: r'_def)
    show "?N < 2 ^ 32" "init_free_pages r \<le> ?N"
      using g(6) by (simp_all add: init_free_pages_def div_le_mono)
    show "rg_type r' = REGION_TYPE_AVAILABLE" "rg_base r' = init_base r" "region_page_count r' = ?N"
        "4096 dvd unat (rg_base r')" "4096 dvd unat (rg_length r')"
      using r(1) g by (simp_all add: r'_def region_page_count_def)
    show "?f i \<noteq> NULL \<and> ?f i \<notin> dom (pm_pages (view_regions k s))" if "i < ?N" for i
      using nz fresh that by (simp add: pages_v)
  qed (use inj fr' k small len in \<open>simp_all add: view_regions_def s'_def\<close>)
  moreover have "dom (pm_pages s') \<subseteq>
      (\<Union>i \<in> {i. i < Suc k \<and> rg_type (rs ! i) = REGION_TYPE_AVAILABLE}. mapped_region (rs ! i))"
  proof
    fix x assume "x \<in> dom (pm_pages s')"
    then have x: "x \<in> dom (page_core (pm_pages t))"
      by (simp add: s'_def dom_page_core)
    show "x \<in> (\<Union>i \<in> {i. i < Suc k \<and> rg_type (rs ! i) = REGION_TYPE_AVAILABLE}. mapped_region (rs ! i))"
    proof (cases "x \<in> ?f ` {0..<?N}")
      case True
      then show ?thesis
        using init_pages_mapped [OF use r(2)] r(1) unfolding r_def by fastforce
    next
      case False
      then have "page_core (pm_pages t) x = page_core (pm_pages s) x"
        using t(2) by (simp add: init_chain_def)
      then have "x \<in> dom (pm_pages s)"
        using x dom_page_core [of "pm_pages s"] by (auto simp: domIff)
      then show ?thesis
        using dom by (fastforce simp: less_Suc_eq)
    qed
  qed
  moreover have "drop (Suc k) (regions_array s') = drop (Suc k) rs"
    using rest drop_Suc_eq [of k "regions_array s" rs] by (simp add: s'_def)
  ultimately have "boot_inv rs (Suc k) s'"
    using len rest tf by (simp add: boot_inv_def s'_def)
  with code show ?thesis by blast
qed

lemma boot_step:
  assumes map: "memory_map_ok rs" and k: "k < length rs" and inv: "boot_inv rs k s"
  shows "\<exists>s'. pmm_init_nth_region (of_nat k) s = Ret s' \<and> boot_inv rs (Suc k) s'"
proof -
  let ?r = "rs ! k"
  have small: "length rs < 2 ^ 31" and len: "length (regions_array s) = length rs"
    using map inv by (auto simp: memory_map_ok_def boot_inv_def)
  have uk: "unat (of_nat k :: u32) = k"
    by (rule unat_of_nat_u32) (use k small in simp)
  have nth: "regions_array s ! k = ?r"
    by (rule boot_inv_nth [OF inv k])
  consider "rg_type ?r = REGION_TYPE_AVAILABLE" "init_array_size ?r < init_length ?r"
    | "rg_type ?r = REGION_TYPE_AVAILABLE" "init_length ?r \<le> init_array_size ?r"
    | "rg_type ?r \<noteq> REGION_TYPE_AVAILABLE"
    by fastforce
  then show ?thesis
  proof cases
    case 1
    then show ?thesis
      by (rule boot_step_init [OF map k inv])
  next
    case 2
    let ?q = "?r\<lparr>rg_base := init_base ?r, rg_length := init_length ?r, rg_type := REGION_TYPE_UNUSABLE\<rparr>"
    have "pmm_init_nth_region (of_nat k) s = Ret (s\<lparr>regions_array := (regions_array s)[k := ?q],
        initialized_regions := initialized_regions s + 1\<rparr>)"
      using k len 2 unfolding pmm_init_nth_region_def Let_def uk nth by (simp add: pmm_init_region_unusable)
    then show ?thesis
      using boot_inv_skip [OF inv k small, of ?q] by simp
  next
    case 3
    have "(regions_array s)[k := ?r] = regions_array s"
      using nth by (metis list_update_id)
    moreover have "pmm_init_nth_region (of_nat k) s = Ret (s\<lparr>initialized_regions := initialized_regions s + 1\<rparr>)"
      using k len 3 unfolding pmm_init_nth_region_def Let_def uk nth by simp
    ultimately show ?thesis
      using boot_inv_skip [OF inv k small 3] by simp
  qed
qed

lemma boot_inv_start: "boot_inv rs 0 (boot_state rs)"
proof -
  have "pmm_inv (view_regions 0 (boot_state rs)) []"
    by (simp add: pmm_inv_def view_regions_def boot_state_def free_rep_def available_def region_pages_def)
  then show ?thesis
    by (auto simp: boot_inv_def boot_state_def)
qed

lemma boot_loop:
  assumes "memory_map_ok rs"
  shows "\<exists>s ps. for_uint pmm_init_nth_region (regions_count (boot_state rs)) 0 (boot_state rs) = Some (Ret s) \<and>
    pmm_inv s ps \<and> length (regions_array s) = length rs"
proof -
  have small: "length rs < 2 ^ 31"
    using assms by (simp add: memory_map_ok_def)
  then have cnt: "unat (regions_count (boot_state rs)) = length rs"
    by (simp add: boot_state_def unat_of_nat_u64)
  have "\<exists>s. ofold pmm_init_nth_region (map of_nat [0..<length rs]) (boot_state rs) = Ret s \<and>
      boot_inv rs (length (map of_nat [0..<length rs] :: u32 list)) s"
  proof (rule ofold_invariant [where P = "\<lambda>us. boot_inv rs (length us)"])
    show "boot_inv rs (length []) (boot_state rs)"
      by (simp add: boot_inv_start)
    fix us :: "u32 list" and v ws t
    assume split: "map of_nat [0..<length rs] = us @ v # ws" and inv: "boot_inv rs (length us) t"
    have "length (map of_nat [0..<length rs] :: u32 list) = length us + Suc (length ws)"
      by (simp only: split length_append list.size)
    then have k: "length us < length rs"
      by simp
    have "v = map of_nat [0..<length rs] ! length us"
      by (simp only: split nth_append_length)
    then have "v = of_nat (length us)"
      using k by simp
    then show "\<exists>t'. pmm_init_nth_region v t = Ret t' \<and> boot_inv rs (length (us @ [v])) t'"
      using boot_step [OF assms k inv] by simp
  qed
  then obtain s where s: "ofold pmm_init_nth_region (map of_nat [0..<length rs]) (boot_state rs) = Ret s"
      "boot_inv rs (length rs) s"
    by auto
  have "view_regions (length rs) s = s"
    using s(2) by (simp add: view_regions_def boot_inv_def)
  then show ?thesis
    using s small cnt for_uint_ofold [of "regions_count (boot_state rs)" pmm_init_nth_region 0 "boot_state rs"]
    by (auto simp: boot_inv_def)
qed

section \<open>A region without a whole page\<close>

text \<open>A loop whose bound its 32-bit counter cannot reach, and whose body always returns, never ends.\<close>

lemma for_uint_diverges:
  assumes big: "2 ^ 32 \<le> unat bound" and I: "I s"
    and body: "\<And>i s. I s \<Longrightarrow> \<exists>s'. body i s = Ret s' \<and> I s'"
  shows "for_uint body bound i s = None"
proof -
  have "False" if "for_uint body bound i s = Some y" "I s" for y
  proof -
    have "2 ^ 32 \<le> unat bound \<longrightarrow> (\<forall>i s. I s \<longrightarrow> (\<exists>s'. body i s = Ret s' \<and> I s')) \<longrightarrow> I s \<longrightarrow> False"
    proof (rule for_uint.raw_induct [where P = "\<lambda>body bound i s y. 2 ^ 32 \<le> unat bound \<longrightarrow>
          (\<forall>i s. I s \<longrightarrow> (\<exists>s'. body i s = Ret s' \<and> I s')) \<longrightarrow> I s \<longrightarrow> False", OF _ that(1)], intro impI)
      fix loop body and bound :: u64 and i :: u32 and s y
      assume IH: "\<And>body bound i s y. loop body bound i s = Some y \<Longrightarrow> 2 ^ 32 \<le> unat bound \<longrightarrow>
          (\<forall>i s. I s \<longrightarrow> (\<exists>s'. body i s = Ret s' \<and> I s')) \<longrightarrow> I s \<longrightarrow> False"
        and step: "(if ucast i < bound then case body i s of Ret x \<Rightarrow> loop body bound (i + 1) x
            | Fault \<Rightarrow> Some Fault | Panic \<Rightarrow> Some Panic | Hang \<Rightarrow> Some Hang else Some (Ret s)) = Some y"
        and b: "2 ^ 32 \<le> unat bound" and bd: "\<forall>i s. I s \<longrightarrow> (\<exists>s'. body i s = Ret s' \<and> I s')" and "I s"
      have "ucast i < bound"
        using b unat_u32_less [of i] by (simp add: word_less_nat_alt)
      moreover obtain s' where "body i s = Ret s'" "I s'"
        using bd \<open>I s\<close> by blast
      ultimately show False
        using IH [of body bound "i + 1" s' y] step b bd by simp
    qed
    then show False
      using big body that(2) by blast
  qed
  then show ?thesis
    using I by (cases "for_uint body bound i s") auto
qed

lemma pmm_init_page_returns:
  assumes "free_list s = NULL \<or> free_list s \<in> dom (pm_pages s)"
  shows "\<exists>a t. pmm_init_page arr m i (b, s) = Ret (a, t) \<and> (free_list t = NULL \<or> free_list t \<in> dom (pm_pages t))"
  using assms
  by (auto simp: pmm_init_page_def pmm_free_list_push_def Let_def update_page_def load_def split: option.splits)

text \<open>
  A region inside a single page: rounding inwards gives it a negative length, which is read as an
  enormous one.
\<close>

lemma sub_page_region_length:
  assumes "ROUND_UP_PAGE (rg_base r) = ROUND_DOWN_PAGE (rg_base r + rg_length r) + PAGE_SIZE"
  shows "init_length r = - 4096"
  using assms by (simp add: init_length_def init_base_def)

end
