(* ===== verification/Frame_Allocator.thy ===== *)
theory Frame_Allocator
  imports Pmm_Init
begin

text \<open>
  What the physical memory manager promises. The locale \<open>frame_allocator\<close> is the contract its
  clients use (single pages in and out); it is interpreted on \<^verbatim>\<open>pmm_allocate_page\<close> and
  \<^verbatim>\<open>pmm_free_page\<close>. The step relation covers every allocating and releasing call, and its
  reachable states keep the invariant. The properties of the component close the theory.
\<close>

section \<open>The contract of single-page allocation\<close>

locale frame_allocator =
  fixes inv :: "'s \<Rightarrow> 'p list \<Rightarrow> bool" and owned :: "'s \<Rightarrow> 'p \<Rightarrow> bool"
    and alloc :: "'s \<Rightarrow> (ir_status \<times> 'p \<times> 's) outcome" and release :: "'p \<Rightarrow> 's \<Rightarrow> 's outcome"
  assumes alloc_ok: "inv s (a # b # ps) \<Longrightarrow>
      \<exists>s'. alloc s = Ret (IR_OK, a, s') \<and> inv s' (b # ps) \<and> (\<forall>x. owned s' x \<longleftrightarrow> owned s x \<or> x = a)"
    and release_ok: "inv s ps \<Longrightarrow> owned s a \<Longrightarrow>
      \<exists>s'. release a s = Ret s' \<and> inv s' (a # ps) \<and> (\<forall>x. owned s' x \<longleftrightarrow> owned s x \<and> x \<noteq> a)"
    and free_not_owned: "inv s ps \<Longrightarrow> a \<in> set ps \<Longrightarrow> \<not> owned s a"
    and free_distinct: "inv s ps \<Longrightarrow> distinct ps"
begin

fun alloc_n :: "nat \<Rightarrow> 's \<Rightarrow> ('p list \<times> 's) outcome" where
  "alloc_n 0 s = Ret ([], s)"
| "alloc_n (Suc n) s = obind (alloc s) (\<lambda>(status, a, s). obind (alloc_n n s) (\<lambda>(as, s). Ret (a # as, s)))"

lemma alloc_n_ok:
  "inv s (as @ b # ps) \<Longrightarrow> \<exists>s'. alloc_n (length as) s = Ret (as, s') \<and> inv s' (b # ps) \<and>
     (\<forall>x. owned s' x \<longleftrightarrow> owned s x \<or> x \<in> set as)"
proof (induction as arbitrary: s)
  case Nil
  then show ?case by simp
next
  case (Cons a as)
  obtain c qs where c: "as @ b # ps = c # qs"
    by (cases as) auto
  then obtain s1 where s1: "alloc s = Ret (IR_OK, a, s1)" "inv s1 (as @ b # ps)"
      "\<forall>x. owned s1 x \<longleftrightarrow> owned s x \<or> x = a"
    using alloc_ok [of s a c qs] Cons.prems by auto
  then show ?case
    using Cons.IH [OF s1(2)] by auto
qed

lemma release_all_ok:
  "inv s ps \<Longrightarrow> distinct as \<Longrightarrow> \<forall>a \<in> set as. owned s a \<Longrightarrow>
     \<exists>s'. ofold release as s = Ret s' \<and> inv s' (rev as @ ps) \<and> (\<forall>x. owned s' x \<longleftrightarrow> owned s x \<and> x \<notin> set as)"
proof (induction as arbitrary: s ps)
  case Nil
  then show ?case by simp
next
  case (Cons a as)
  then obtain s1 where s1: "release a s = Ret s1" "inv s1 (a # ps)" "\<forall>x. owned s1 x \<longleftrightarrow> owned s x \<and> x \<noteq> a"
    using release_ok by force
  then show ?case
    using Cons.IH [OF s1(2)] Cons.prems by force
qed

text \<open>Pages taken one by one are pairwise distinct, belonged to nobody, and can all be given back.\<close>

lemma alloc_release:
  assumes "inv s (as @ b # ps)"
  shows "\<exists>s1 s2. alloc_n (length as) s = Ret (as, s1) \<and> distinct as \<and> (\<forall>a \<in> set as. \<not> owned s a \<and> owned s1 a) \<and>
    ofold release as s1 = Ret s2 \<and> inv s2 (rev as @ b # ps) \<and> (\<forall>x. owned s2 x \<longleftrightarrow> owned s x)"
proof -
  obtain s1 where s1: "alloc_n (length as) s = Ret (as, s1)" "inv s1 (b # ps)"
      "\<forall>x. owned s1 x \<longleftrightarrow> owned s x \<or> x \<in> set as"
    using alloc_n_ok [OF assms] by blast
  have dist: "distinct as"
    using free_distinct [OF assms] by simp
  have new: "\<forall>a \<in> set as. \<not> owned s a"
    using free_not_owned [OF assms] by simp
  obtain s2 where "ofold release as s1 = Ret s2" "inv s2 (rev as @ b # ps)"
      "\<forall>x. owned s2 x \<longleftrightarrow> owned s1 x \<and> x \<notin> set as"
    using release_all_ok [OF s1(2) dist] s1(3) by blast
  then show ?thesis
    using s1 dist new by blast
qed

end

text \<open>A page of a region that is in use.\<close>

definition page_in_use :: "pmm \<Rightarrow> ptr \<Rightarrow> bool" where
  "page_in_use s a \<longleftrightarrow> a \<in> set (region_pages s) \<and>
     (case page_core (pm_pages s) a of Some (_, PAGE_STATE_USED) \<Rightarrow> True | _ \<Rightarrow> False)"

lemma page_in_use_iff:
  "page_in_use s a \<longleftrightarrow> a \<in> set (region_pages s) \<and> (\<exists>x. page_core (pm_pages s) a = Some (x, PAGE_STATE_USED))"
  by (auto simp: page_in_use_def split: option.splits page_state.splits)

lemma pmm_free_core:
  "pmm_inv s ps \<Longrightarrow> a \<in> set ps \<Longrightarrow> a \<in> set (region_pages s) \<and> (\<exists>x. page_core (pm_pages s) a = Some (x, PAGE_STATE_FREE))"
  by (auto simp: pmm_inv_def)

lemma pmm_inv_pages_of_regions:
  "pmm_inv s ps \<Longrightarrow> regions_array s' = regions_array s \<Longrightarrow> region_pages s' = region_pages s"
  by (simp add: region_pages_def available_def)

interpretation pmm: frame_allocator pmm_inv page_in_use pmm_allocate_page pmm_free_page
proof
  fix s a b ps
  assume inv: "pmm_inv s (a # b # ps)"
  obtain s' where s': "pmm_allocate_page s = Ret (IR_OK, a, s')" "pmm_inv s' (b # ps)"
      "page_core (pm_pages s') = used_core {a} (page_core (pm_pages s))" "regions_array s' = regions_array s"
    using pmm_allocate_page_refine [OF inv] by blast
  have "\<forall>x. page_in_use s' x \<longleftrightarrow> page_in_use s x \<or> x = a"
    using pmm_free_core [OF inv, of a] s'(3) pmm_inv_pages_of_regions [OF inv s'(4)]
    by (auto simp: page_in_use_iff used_core_def)
  with s' show "\<exists>s'. pmm_allocate_page s = Ret (IR_OK, a, s') \<and> pmm_inv s' (b # ps) \<and>
      (\<forall>x. page_in_use s' x \<longleftrightarrow> page_in_use s x \<or> x = a)"
    by blast
next
  fix s ps a
  assume inv: "pmm_inv s ps" and own: "page_in_use s a"
  then obtain addr where "a \<in> set (region_pages s)" "page_core (pm_pages s) a = Some (addr, PAGE_STATE_USED)"
    by (auto simp: page_in_use_iff)
  then obtain s' where s': "pmm_free_page a s = Ret s'" "pmm_inv s' (a # ps)"
      "page_core (pm_pages s') = (page_core (pm_pages s))(a \<mapsto> (addr, PAGE_STATE_FREE))"
      "regions_array s' = regions_array s"
    using pmm_free_page_refine [OF inv] by blast
  have "\<forall>x. page_in_use s' x \<longleftrightarrow> page_in_use s x \<and> x \<noteq> a"
    using s'(3) pmm_inv_pages_of_regions [OF inv s'(4)] by (auto simp: page_in_use_iff)
  with s' show "\<exists>s'. pmm_free_page a s = Ret s' \<and> pmm_inv s' (a # ps) \<and>
      (\<forall>x. page_in_use s' x \<longleftrightarrow> page_in_use s x \<and> x \<noteq> a)"
    by blast
next
  show "\<not> page_in_use s a" if "pmm_inv s ps" "a \<in> set ps" for s ps a
    using pmm_free_core [OF that] by (auto simp: page_in_use_iff)
  show "distinct ps" if "pmm_inv s ps" for s ps
    using that by (rule pmm_inv_distinct)
qed

section \<open>Remaining branches\<close>

text \<open>Asking for every free page panics when the last one is popped.\<close>

lemma pmm_allocate_pages_exhaust:
  assumes inv: "pmm_inv s ps" and n: "unat n = length ps" "ps \<noteq> []" "unat n < 2 ^ 32"
  shows "pmm_allocate_pages n s = Panic"
proof -
  have rep: "free_rep s ps" and dist: "distinct ps"
    using inv by (auto intro: pmm_inv_free_rep pmm_inv_distinct)
  have enough: "\<not> pages_in_free_list s < n" "n \<noteq> 0"
    using n pmm_inv_count [OF inv] by (auto simp: word_less_nat_alt)
  show ?thesis
  proof (cases "length ps = 1")
    case True
    then obtain a where "ps = [a]"
      by (cases ps) auto
    then show ?thesis
      using rep enough by (simp add: pmm_allocate_pages_def pmm_free_list_pop_last)
  next
    case False
    then obtain a b qs where ps: "ps = a # b # qs"
      using n(2) by (cases ps; cases "tl ps") auto
    obtain s1 pg where s1: "pmm_free_list_pop s = Ret (a, s1)" "free_rep s1 (b # qs)"
        "relinked {a, b} s s1" "pm_pages s1 a = Some pg" "pg_prev pg = NULL" "pg_next pg = NULL"
      using pmm_free_list_pop_refine rep ps by blast
    define s2 where "s2 = s1\<lparr>pm_pages := (pm_pages s1)(a \<mapsto> pg\<lparr>pg_state := PAGE_STATE_USED\<rparr>)\<rparr>"
    have "a \<noteq> NULL"
      using free_rep_nonnull [OF rep] ps by auto
    have cl: "claimed {hd ps} (set ps) s s2"
      using claimed_mono [OF claimed_trans [OF relinked_claimed [OF s1(3)] update_state_claimed [OF s1(4)]], of "set ps"]
      by (simp add: s2_def ps)
    have rep2: "free_rep s2 (drop 1 ps)"
      using s1 by (simp add: s2_def free_rep_def ps dlseg_upd_state del: dlseg.simps)
    have seg2: "dlseg (pm_pages s2) NULL (hd ps) (take 1 ps) NULL"
      using s1 \<open>a \<noteq> NULL\<close> by (simp add: s2_def ps)
    define k where "k = unat n - 1"
    have k: "0 < k" "k < length ps" "unat n = Suc k"
      using n(1) ps by (simp_all add: k_def)
    obtain t where t: "ofold pmm_append_popped (map of_nat [1..<k]) (hd ps, s2) = Ret (ps ! (k - 1), t)"
        "free_rep t (drop k ps)"
      using pmm_append_loop [OF rep2 dist k(1,2) seg2 cl] by blast
    have "drop k ps = [last ps]"
      using k n(1) by (metis Cons_nth_drop_Suc diff_Suc_1 drop_all last_conv_nth le_refl n(2))
    then have "pmm_free_list_pop t = Panic"
      using t(2) pmm_free_list_pop_last by simp
    then have "pmm_append_popped (of_nat k) (ps ! (k - 1), t) = Panic"
      by (simp add: pmm_append_popped_def)
    moreover have "map of_nat [1..<unat n] = map of_nat [1..<k] @ [of_nat k :: u32]"
      using k by simp
    ultimately have "ofold pmm_append_popped (map of_nat [1..<unat n]) (hd ps, s2) = Panic"
      using t(1) by (simp only: ofold_append obind.simps ofold.simps)
    then show ?thesis
      using enough s1(1,4) n(3) by (simp add: pmm_allocate_pages_def for_uint_ofold s2_def ps)
  qed
qed

lemma pmm_find_run_zero:
  assumes "\<And>j. j < N \<Longrightarrow> region_page r j \<in> dom (pm_pages s)" "i + k = N" "f + k < 2 ^ 64"
  shows "pmm_find_run s r 0 limit k (of_nat i) b (of_nat f) = Ret None"
  using assms(2,3)
proof (induction k arbitrary: i b f)
  case 0
  then show ?case by simp
next
  case (Suc k)
  obtain pg where pg: "pm_pages s (region_page r i) = Some pg"
    using assms(1) [of i] Suc.prems by auto
  have "(of_nat (Suc f) :: u64) \<noteq> 0"
    using Suc.prems(2) by (subst of_nat_u64_eq_0_iff) auto
  moreover have "(of_nat (Suc f) :: u64) = of_nat f + 1" "(of_nat (Suc i) :: u64) = of_nat i + 1"
    by simp_all
  ultimately show ?case
    using Suc.IH [where i = "Suc i" and b = b and f = "Suc f"]
      Suc.IH [where i = "Suc i" and b = "of_nat (Suc i)" and f = 0] Suc.prems pg
    by (simp add: region_page_def del: of_nat_Suc)
qed

lemma pmm_contiguous_zero:
  assumes inv: "pmm_inv s ps" and k: "k \<le> length (regions_array s)"
  shows "pmm_contiguous_regions 0 limit k s = Ret (IR_ERROR_NO_MEMORY, None, s)"
  using k
proof (induction k)
  case 0
  then show ?case by simp
next
  case (Suc k)
  let ?r = "regions_array s ! k"
  have "pmm_find_run s ?r 0 limit (unat (rg_length ?r div PAGE_SIZE)) 0 0 0 = Ret None"
    if "rg_type ?r = REGION_TYPE_AVAILABLE"
  proof -
    have r: "?r \<in> set (available s)"
      using that Suc.prems by (simp add: available_def)
    then have "region_page_count ?r < 2 ^ 32"
      using inv by (auto simp: pmm_inv_def region_ok_def)
    moreover have "unat (rg_length ?r div PAGE_SIZE) = region_page_count ?r"
      by (simp add: region_page_count_def unat_div)
    moreover have "region_page ?r j \<in> dom (pm_pages s)" if "j < region_page_count ?r" for j
      using region_pages_in_dom(2) [OF inv r that] by blast
    ultimately show ?thesis
      using pmm_find_run_zero [of "region_page_count ?r" ?r s 0 "region_page_count ?r" 0 limit 0] by simp
  qed
  then show ?case
    using Suc by (simp add: Let_def)
qed

lemma pmm_region_limit:
  assumes "pmm_inv s ps"
  shows "nat (int_of_u64 (initialized_regions s - 1) + 1) = length (regions_array s)"
proof -
  have "initialized_regions s = of_nat (length (regions_array s))" "length (regions_array s) < 2 ^ 31"
    using assms by (simp_all add: pmm_inv_def)
  then show ?thesis
    using int_of_u64_pred [of "length (regions_array s)"] by simp
qed

lemma pmm_allocate_contiguous_cases:
  fixes limit :: u64
  assumes inv: "pmm_inv s ps"
  defines "lim \<equiv> if limit = 0 then - 1 else limit"
  shows "(\<exists>r i s'. 0 < unat cnt \<and> r \<in> set (available s) \<and> rg_base r \<le> lim \<and> run_at s r lim (unat cnt) i \<and>
        pmm_allocate_contiguous cnt limit s = Ret (IR_OK, Some (region_page r i), s') \<and>
        took_run s ps r i (unat cnt) s') \<or>
      (pmm_allocate_contiguous cnt limit s = Ret (IR_ERROR_NO_MEMORY, None, s) \<and>
        (unat cnt = 0 \<or> (\<forall>r \<in> set (available s). rg_base r \<le> lim \<longrightarrow> (\<forall>i. \<not> run_at s r lim (unat cnt) i))))"
proof (cases "unat cnt = 0")
  case True
  then have "cnt = 0"
    by (simp add: unat_eq_zero)
  then show ?thesis
    using pmm_contiguous_zero [OF inv order_refl, of lim] True
    by (simp add: pmm_allocate_contiguous_def pmm_region_limit [OF inv] lim_def Let_def)
next
  case False
  have "pmm_allocate_contiguous cnt limit s = pmm_contiguous_regions cnt lim (length (regions_array s)) s"
    by (simp add: pmm_allocate_contiguous_def pmm_region_limit [OF inv] lim_def Let_def)
  then show ?thesis
    using pmm_contiguous_regions_correct [OF inv, of cnt "length (regions_array s)" lim] False
    by (auto simp: available_def)
qed

section \<open>The allocator as a transition system\<close>

inductive pmm_step :: "pmm \<Rightarrow> pmm \<Rightarrow> bool" where
  page: "pmm_allocate_page s = Ret (status, p, s') \<Longrightarrow> pmm_step s s'"
| pages: "pmm_allocate_pages n s = Ret (status, out, s') \<Longrightarrow> unat n < 2 ^ 32 \<Longrightarrow> pmm_step s s'"
| contiguous: "pmm_allocate_contiguous n limit s = Ret (status, out, s') \<Longrightarrow> pmm_step s s'"
| in_range: "pmm_allocate_range address len new s = Ret (status, out, s') \<Longrightarrow>
     unat address + unat len \<le> 2 ^ 64 - 4096 \<Longrightarrow> unat (range_length address len) div 4096 < 2 ^ 32 \<Longrightarrow>
     new = NULL \<or> fresh_array s new (unat (range_length address len) div 4096) \<Longrightarrow> pmm_step s s'"
| free_page: "page_in_use s a \<Longrightarrow> pmm_free_page a s = Ret s' \<Longrightarrow> pmm_step s s'"

inductive_cases pmm_stepE: "pmm_step s s'"

lemma pmm_allocate_page_inv:
  assumes inv: "pmm_inv s ps" and ret: "pmm_allocate_page s = Ret (status, p, s')"
  shows "\<exists>qs. pmm_inv s' qs"
proof -
  have null: "NULL \<notin> dom (pm_pages s)" and rep: "free_rep s ps"
    using inv by (auto simp: pmm_inv_def)
  consider "ps = []" | a where "ps = [a]" | a b qs where "ps = a # b # qs"
    by (metis neq_Nil_conv)
  then show ?thesis
  proof cases
    case 1
    then show ?thesis
      using pmm_free_list_pop_empty [of s] rep null ret by (simp add: pmm_allocate_page_def)
  next
    case 2
    then show ?thesis
      using pmm_free_list_pop_last [of s] rep ret by (simp add: pmm_allocate_page_def)
  next
    case 3
    then show ?thesis
      using pmm_allocate_page_refine [of s a b qs] inv ret by auto
  qed
qed

lemma pmm_allocate_pages_inv:
  assumes inv: "pmm_inv s ps" and ret: "pmm_allocate_pages n s = Ret (status, out, s')" and n: "unat n < 2 ^ 32"
  shows "\<exists>qs. pmm_inv s' qs"
proof -
  consider "length ps < unat n" | "unat n = 0" | "unat n = length ps" "ps \<noteq> []" | "0 < unat n" "unat n < length ps"
    by fastforce
  then show ?thesis
  proof cases
    case 1
    then show ?thesis
      using ret inv pmm_inv_count [OF inv] by (auto simp: pmm_allocate_pages_def word_less_nat_alt)
  next
    case 2
    then have "n = 0"
      by (simp add: unat_eq_zero)
    then show ?thesis
      using ret inv by (auto simp: pmm_allocate_pages_def)
  next
    case 3
    then show ?thesis
      using pmm_allocate_pages_exhaust [OF inv 3 n] ret by simp
  next
    case 4
    then show ?thesis
      using pmm_allocate_pages_refine [OF inv 4 n] ret by auto
  qed
qed

lemma pmm_allocate_range_inv:
  assumes inv: "pmm_inv s ps" and ret: "pmm_allocate_range address len new s = Ret (status, out, s')"
    and len: "unat address + unat len \<le> 2 ^ 64 - 4096" "unat (range_length address len) div 4096 < 2 ^ 32"
    and new: "new = NULL \<or> fresh_array s new (unat (range_length address len) div 4096)"
  shows "\<exists>qs. pmm_inv s' qs"
proof (cases "len = 0")
  case True
  then show ?thesis
    using inv ret by (auto simp: pmm_allocate_range_def)
next
  case False
  then have pos: "0 < unat len"
    by (simp add: unat_gt_0)
  have n: "unat (range_length address len div PAGE_SIZE) = unat (range_length address len) div 4096"
    by (simp add: unat_div)
  let ?reg = "pmm_region_of_range (range_base address) (range_length address len) (regions_array s)"
  show ?thesis
  proof (cases ?reg)
    case None
    show ?thesis
    proof (cases "new = NULL")
      case True
      then show ?thesis
        using None False inv ret
        by (auto simp: pmm_allocate_range_def Let_def pmm_inv_regions [OF inv] range_base_def range_length_def)
    next
      case f: False
      then show ?thesis
        using pmm_allocate_range_outside [OF inv pos len(1) None n [symmetric] len(2), of new] new ret by fastforce
    qed
  next
    case (Some r)
    note ref = pmm_allocate_range_refine [OF inv pos len(1) Some refl refl, of new]
    from ref ret show ?thesis
      by (force simp: took_run_def Let_def)
  qed
qed

lemma pmm_step_inv: "pmm_step s s' \<Longrightarrow> pmm_inv s ps \<Longrightarrow> \<exists>qs. pmm_inv s' qs"
proof (induction rule: pmm_step.induct)
  case (page s status p s')
  then show ?case by (rule pmm_allocate_page_inv [rotated])
next
  case (pages n s status out s')
  then show ?case using pmm_allocate_pages_inv by blast
next
  case (contiguous n limit s status out s')
  then show ?case
    using pmm_allocate_contiguous_cases [where s = s and ps = ps and limit = limit and cnt = n] by (auto simp: took_run_def Let_def)
next
  case (in_range address len new s status out s')
  then show ?case using pmm_allocate_range_inv by blast
next
  case (free_page s a s')
  then show ?case using pmm.release_ok by fastforce
qed

section \<open>A small concrete state\<close>

text \<open>One region of four pages; its last page is in use, the other three are free.\<close>

definition demo_region :: physical_region where
  "demo_region = \<lparr>rg_base = 0x100000, rg_length = 0x4000, rg_page_array = 0x1000, rg_type = REGION_TYPE_AVAILABLE\<rparr>"

definition demo_pmm :: pmm where
  "demo_pmm = \<lparr>pm_pages = [
       0x1000 \<mapsto> \<lparr>pg_prev = 0x1020, pg_next = NULL, pg_address = 0x100000, pg_state = PAGE_STATE_FREE\<rparr>,
       0x1020 \<mapsto> \<lparr>pg_prev = 0x1040, pg_next = 0x1000, pg_address = 0x101000, pg_state = PAGE_STATE_FREE\<rparr>,
       0x1040 \<mapsto> \<lparr>pg_prev = NULL, pg_next = 0x1020, pg_address = 0x102000, pg_state = PAGE_STATE_FREE\<rparr>,
       0x1060 \<mapsto> \<lparr>pg_prev = NULL, pg_next = NULL, pg_address = 0x103000, pg_state = PAGE_STATE_USED\<rparr>],
     free_list = 0x1040, pages_in_free_list = 3, regions_array = [demo_region], regions_count = 1,
     initialized_regions = 1, memory_free = 0x3000, memory_used = 0x1000, memory_reserved = 0\<rparr>"

lemma demo_region_count: "region_page_count demo_region = 4"
  by (simp add: region_page_count_def demo_region_def)

lemma upt_4: "[0..<4] = [0, 1, 2, 3 :: nat]"
  by (simp add: upt_rec)

lemma demo_region_pages: "region_pages demo_pmm = [0x1000, 0x1020, 0x1040, 0x1060]"
  by (simp add: region_pages_def available_def demo_pmm_def demo_region_count upt_4)
    (simp add: demo_region_def region_page_def page_ptr_def demo_region_count upt_4)

lemma demo_available: "available demo_pmm = [demo_region]"
  by (simp add: available_def demo_pmm_def demo_region_def)

lemma less_4_cases: "(i < (4::nat)) = (i = 0 \<or> i = 1 \<or> i = 2 \<or> i = 3)"
  by auto

lemma less_3_cases: "(i < (3::nat)) = (i = 0 \<or> i = 1 \<or> i = 2)"
  by auto

lemma demo_pmm_inv: "pmm_inv demo_pmm [0x1040, 0x1020, 0x1000]"
proof -
  have "region_ok (page_core (pm_pages demo_pmm)) demo_region"
    unfolding region_ok_def demo_region_count
    by (auto simp: less_4_cases demo_region_def region_page_def page_ptr_def page_core_def demo_pmm_def)
  moreover have "free_rep demo_pmm [0x1040, 0x1020, 0x1000]"
    by (simp add: free_rep_def demo_pmm_def)
  moreover have "set [0x1040, 0x1020, 0x1000] =
      {a \<in> set (region_pages demo_pmm). \<exists>x. page_core (pm_pages demo_pmm) a = Some (x, PAGE_STATE_FREE)}"
    unfolding demo_region_pages by (auto simp: page_core_def demo_pmm_def)
  ultimately show ?thesis
    unfolding pmm_inv_def by (simp add: demo_region_pages demo_available) (simp add: demo_pmm_def)
qed

section \<open>Properties\<close>

text \<open>C19: Initialising the regions of a memory map whose available regions are disjoint, lie in the
  physical map and each contain a whole page always returns and establishes the allocator's
  invariant: the free list is well linked, holds exactly the free pages of the available regions,
  and the counters agree with it.\<close>

theorem pmm_boot_invariant:
  assumes "memory_map_ok rs"
  shows "\<exists>s ps. looped (for_uint pmm_init_nth_region (regions_count (boot_state rs)) 0 (boot_state rs)) = Ret s \<and>
    pmm_inv s ps \<and> length (regions_array s) = length rs"
  using boot_loop [OF assms] by fastforce

definition demo_map :: "physical_region list" where
  "demo_map = [\<lparr>rg_base = 0x100000, rg_length = 0x8000, rg_page_array = 0, rg_type = REGION_TYPE_AVAILABLE\<rparr>,
     \<lparr>rg_base = 0xa0000, rg_length = 0x60000, rg_page_array = 0, rg_type = REGION_TYPE_RESERVED\<rparr>]"

theorem pmm_boot_invariant_witness:
  "\<exists>s ps. looped (for_uint pmm_init_nth_region (regions_count (boot_state demo_map)) 0 (boot_state demo_map)) = Ret s \<and>
    pmm_inv s ps \<and> length (regions_array s) = length demo_map"
proof (rule pmm_boot_invariant)
  show "memory_map_ok demo_map"
    by (simp add: memory_map_ok_def demo_map_def usable_region_def ROUND_DOWN_PAGE_eq_ROUND_DOWN ROUND_DOWN_def
        ROUND_UP_PAGE_def ROUND_UP_def)
qed

text \<open>C1: The invariant holds in every state that any sequence of allocator calls (one page, several
  pages, a contiguous run, a given range, releasing a page in use) reaches.\<close>

theorem pmm_reachable_invariant:
  assumes "pmm_step\<^sup>*\<^sup>* s t" "pmm_inv s ps"
  shows "\<exists>qs. pmm_inv t qs"
  using assms
proof (induction arbitrary: ps rule: rtranclp_induct)
  case base
  then show ?case by blast
next
  case (step t u)
  then show ?case using pmm_step_inv by blast
qed

theorem pmm_reachable_invariant_witness:
  "pmm_step\<^sup>*\<^sup>* demo_pmm (snd (snd (case pmm_allocate_page demo_pmm of Ret x \<Rightarrow> x))) \<and>
   (\<exists>qs. pmm_inv (snd (snd (case pmm_allocate_page demo_pmm of Ret x \<Rightarrow> x))) qs)"
proof -
  obtain s' where "pmm_allocate_page demo_pmm = Ret (IR_OK, 0x1040, s')"
    using pmm_allocate_page_refine [OF demo_pmm_inv] by blast
  then have "pmm_step\<^sup>*\<^sup>* demo_pmm (snd (snd (case pmm_allocate_page demo_pmm of Ret x \<Rightarrow> x)))"
    by (auto intro: pmm_step.page)
  then show ?thesis
    using pmm_reachable_invariant [OF _ demo_pmm_inv] by blast
qed

text \<open>C27: \<^verbatim>\<open>pmm_allocate_pages\<close> on every branch. More pages than are free: \<^verbatim>\<open>IR_ERROR_NO_MEMORY\<close>, nothing
  changes. None: success with a null list. Fewer than are free: the returned list is the first
  \<open>n\<close> free pages, linked both ways and null-terminated, all marked used, the others stay free, the
  counters move by \<open>n\<close> pages, and no page outside the free list is touched. Exactly the free pages:
  the kernel panics although the documented result is success.\<close>

theorem pmm_allocate_pages_correct:
  assumes "pmm_inv s ps" "unat n < 2 ^ 32"
  shows "if length ps < unat n then pmm_allocate_pages n s = Ret (IR_ERROR_NO_MEMORY, None, s)
    else if unat n = 0 then pmm_allocate_pages n s = Ret (IR_OK, Some NULL, s)
    else if unat n = length ps then pmm_allocate_pages n s = Panic
    else (\<exists>s'. pmm_allocate_pages n s = Ret (IR_OK, Some (hd ps), s') \<and>
      pmm_inv s' (drop (unat n) ps) \<and> dlseg (pm_pages s') NULL (hd ps) (take (unat n) ps) NULL \<and>
      page_core (pm_pages s') = used_core (set (take (unat n) ps)) (page_core (pm_pages s)) \<and>
      (\<forall>x. x \<notin> set ps \<longrightarrow> pm_pages s' x = pm_pages s x) \<and>
      memory_free s' + memory_used s' = memory_free s + memory_used s)"
proof -
  have "pmm_allocate_pages n s = Ret (IR_ERROR_NO_MEMORY, None, s)" if "length ps < unat n"
    using that pmm_inv_count [OF assms(1)] by (simp add: pmm_allocate_pages_def word_less_nat_alt)
  moreover have "pmm_allocate_pages n s = Ret (IR_OK, Some NULL, s)" if "unat n = 0"
    using that by (simp add: pmm_allocate_pages_def unat_eq_zero)
  ultimately show ?thesis
    using pmm_allocate_pages_exhaust [OF assms(1) _ _ assms(2)] pmm_allocate_pages_refine [OF assms(1) _ _ assms(2)]
    by auto
qed

theorem pmm_allocate_pages_correct_witness:
  "\<exists>s'. pmm_allocate_pages 2 demo_pmm = Ret (IR_OK, Some 0x1040, s') \<and> pmm_inv s' [0x1000] \<and>
      dlseg (pm_pages s') NULL 0x1040 [0x1040, 0x1020] NULL \<and>
      page_core (pm_pages s') = used_core {0x1040, 0x1020} (page_core (pm_pages demo_pmm)) \<and>
      (\<forall>x. x \<notin> {0x1040, 0x1020, 0x1000} \<longrightarrow> pm_pages s' x = pm_pages demo_pmm x) \<and>
      memory_free s' + memory_used s' = memory_free demo_pmm + memory_used demo_pmm"
  using pmm_allocate_pages_correct [OF demo_pmm_inv, of 2] by (simp del: dlseg.simps)

text \<open>C20: \<^verbatim>\<open>pmm_allocate_contiguous\<close> is sound and complete. Either it returns the first page of a run of
  \<open>n\<close> pages that are consecutive in an available region, all free and below the limit, takes exactly
  those off the free list and chains them, keeping the invariant; or it returns
  \<^verbatim>\<open>IR_ERROR_NO_MEMORY\<close>, changes nothing, and no such run exists (or no page was asked for).\<close>

theorem pmm_allocate_contiguous_correct:
  fixes limit :: u64
  assumes "pmm_inv s ps"
  defines "lim \<equiv> if limit = 0 then - 1 else limit"
  shows "(\<exists>r i s'. 0 < unat n \<and> r \<in> set (available s) \<and> rg_base r \<le> lim \<and> run_at s r lim (unat n) i \<and>
        pmm_allocate_contiguous n limit s = Ret (IR_OK, Some (region_page r i), s') \<and>
        took_run s ps r i (unat n) s') \<or>
      (pmm_allocate_contiguous n limit s = Ret (IR_ERROR_NO_MEMORY, None, s) \<and>
        (unat n = 0 \<or> (\<forall>r \<in> set (available s). rg_base r \<le> lim \<longrightarrow> (\<forall>i. \<not> run_at s r lim (unat n) i))))"
  unfolding lim_def by (rule pmm_allocate_contiguous_cases [OF assms(1)])

theorem pmm_allocate_contiguous_correct_witness:
  "\<exists>i s'. pmm_allocate_contiguous 3 0 demo_pmm = Ret (IR_OK, Some (region_page demo_region i), s') \<and>
     took_run demo_pmm [0x1040, 0x1020, 0x1000] demo_region i 3 s'"
proof -
  have "run_at demo_pmm demo_region (- 1) 3 0"
    unfolding run_at_def demo_region_count
    by (auto simp: page_usable_def demo_region_def region_page_def page_ptr_def demo_pmm_def less_3_cases)
  moreover have "rg_base demo_region \<le> - 1"
    by (simp add: demo_region_def)
  ultimately show ?thesis
    using pmm_allocate_contiguous_correct [OF demo_pmm_inv, of 3 0] by (auto simp: demo_available)
qed

text \<open>C28: \<^verbatim>\<open>pmm_allocate_range\<close> for a range inside an available region: if all its pages are free it
  returns the page info of its first page, takes exactly the pages that cover the rounded range off
  the free list, and chains them to a null-terminated list in address order; if one of them is in use
  the check runs into a breakpoint and the kernel panics, where the documentation promises
  \<^verbatim>\<open>IR_ERROR_NO_MEMORY\<close>.\<close>

theorem pmm_allocate_range_correct:
  assumes inv: "pmm_inv s ps" and len: "0 < unat len" "unat address + unat len \<le> 2 ^ 64 - 4096"
    and reg: "pmm_region_of_range (range_base address) (range_length address len) (regions_array s) = Some r"
  defines "i \<equiv> unat ((range_base address - rg_base r) div PAGE_SIZE)"
    and "n \<equiv> unat (range_length address len div PAGE_SIZE)"
  shows "if \<forall>j \<in> {i..<i + n}. region_page r j \<in> set ps
    then \<exists>s'. pmm_allocate_range address len new s = Ret (IR_OK, Some (region_page r i), s') \<and>
      took_run s ps r i n s' \<and> dlseg (pm_pages s') NULL (region_page r i) (map (region_page r) [i..<i + n]) NULL
    else pmm_allocate_range address len new s = Panic"
  using pmm_allocate_range_refine [OF inv len reg, of i n new] by (simp add: i_def n_def)

theorem pmm_allocate_range_correct_witness:
  "\<exists>s'. pmm_allocate_range 0x101800 0x900 0 demo_pmm = Ret (IR_OK, Some (region_page demo_region 1), s') \<and>
     took_run demo_pmm [0x1040, 0x1020, 0x1000] demo_region 1 2 s'"
proof -
  have b: "range_base 0x101800 = 0x101000" and l: "range_length 0x101800 0x900 = 0x2000"
    by (simp_all add: range_base_def range_length_def ROUND_DOWN_PAGE_eq_ROUND_DOWN ROUND_DOWN_def
        ROUND_UP_PAGE_def ROUND_UP_def)
  have reg: "pmm_region_of_range (range_base 0x101800) (range_length 0x101800 0x900) (regions_array demo_pmm) =
      Some demo_region"
    by (simp add: b l) (simp add: demo_pmm_def demo_region_def)
  have i: "unat ((range_base 0x101800 - rg_base demo_region) div PAGE_SIZE) = 1"
    and n: "unat (range_length 0x101800 0x900 div PAGE_SIZE) = 2"
    by (simp_all add: b l) (simp add: demo_region_def)
  have all: "\<forall>j \<in> {1..<1 + 2}. region_page demo_region j \<in> set [0x1040, 0x1020, 0x1000]"
  proof -
    have "{1..<1 + 2} = {1, 2 :: nat}"
      by auto
    then show ?thesis
      by (simp add: demo_region_def region_page_def page_ptr_def)
  qed
  show ?thesis
    using pmm_allocate_range_correct [OF demo_pmm_inv _ _ reg, of 0] all by (simp only: i n) auto
qed

text \<open>C29: Pages allocated one by one are pairwise distinct and were in nobody's use; after releasing all
  of them the same pages are in use as before and the free list holds the same pages, the released
  ones on top.\<close>

theorem pmm_alloc_release_roundtrip:
  assumes "pmm_inv s (as @ b # ps)"
  shows "\<exists>s1 s2. pmm.alloc_n (length as) s = Ret (as, s1) \<and> distinct as \<and>
    (\<forall>a \<in> set as. \<not> page_in_use s a \<and> page_in_use s1 a) \<and> ofold pmm_free_page as s1 = Ret s2 \<and>
    pmm_inv s2 (rev as @ b # ps) \<and> (\<forall>x. page_in_use s2 x \<longleftrightarrow> page_in_use s x)"
  using assms by (rule pmm.alloc_release)

theorem pmm_alloc_release_roundtrip_witness:
  "\<exists>s1 s2. pmm.alloc_n 2 demo_pmm = Ret ([0x1040, 0x1020], s1) \<and> ofold pmm_free_page [0x1040, 0x1020] s1 = Ret s2 \<and>
    pmm_inv s2 [0x1020, 0x1040, 0x1000] \<and> (\<forall>x. page_in_use s2 x \<longleftrightarrow> page_in_use demo_pmm x)"
  using pmm_alloc_release_roundtrip [of demo_pmm "[0x1040, 0x1020]" "0x1000" "[]"] demo_pmm_inv
  by (auto simp: numeral_2_eq_2)

lemma region_containing:
  assumes ok: "region_ok core r" and a: "rg_base r \<le> address" "unat address < unat (rg_base r) + unat (rg_length r)"
  defines "i \<equiv> (unat address - unat (rg_base r)) div 4096"
  shows "address < rg_base r + rg_length r" "i < region_page_count r"
    "unat (PAGE_INDEX_IN_REGION address (rg_base r)) = i"
    "rg_base r + 4096 * of_nat i = ROUND_DOWN_PAGE address"
proof -
  have al: "4096 dvd unat (rg_base r)" "4096 dvd unat (rg_length r)"
    and wrap: "unat (rg_base r) + unat (rg_length r) < 2 ^ 64"
    using ok by (auto simp: region_ok_def)
  have "unat (rg_base r + rg_length r) = unat (rg_base r) + unat (rg_length r)"
    using wrap by (simp add: unat_word_ariths)
  then show "address < rg_base r + rg_length r"
    using a(2) by (simp add: word_less_nat_alt)
  have ge: "unat (rg_base r) \<le> unat address"
    using a(1) by (simp add: word_le_nat_alt)
  show "unat (PAGE_INDEX_IN_REGION address (rg_base r)) = i"
    using a(1) by (simp add: PAGE_INDEX_IN_REGION_def unat_div unat_sub i_def)
  obtain q where q: "unat (rg_base r) = 4096 * q"
    using al(1) by (auto elim: dvdE)
  obtain l where l: "unat (rg_length r) = 4096 * l"
    using al(2) by (auto elim: dvdE)
  show "i < region_page_count r"
    using a(2) ge unfolding i_def region_page_count_def q l by auto
  obtain d where d: "unat address = 4096 * q + d"
    using ge unfolding q by (metis le_iff_add)
  have "4096 * (q + i) = unat address div 4096 * 4096"
    unfolding i_def q d by simp
  moreover have "rg_base r = of_nat (4096 * q)"
    using arg_cong [OF q, of "of_nat :: nat \<Rightarrow> u64"] by simp
  then have "rg_base r + 4096 * of_nat i = of_nat (4096 * (q + i))"
    by (simp add: algebra_simps)
  ultimately have "rg_base r + 4096 * of_nat i = of_nat (unat address div 4096 * 4096)"
    by (simp only:)
  also have "\<dots> = ROUND_DOWN_PAGE address"
    using arg_cong [OF unat_ROUND_DOWN_PAGE [of address], of "of_nat :: nat \<Rightarrow> u64"] by simp
  finally show "rg_base r + 4096 * of_nat i = ROUND_DOWN_PAGE address" .
qed

lemma pmm_page_in_regions_unique:
  assumes "r \<in> set rs" "rg_base r \<le> address" "address < rg_base r + rg_length r"
    "\<And>q. q \<in> set rs \<Longrightarrow> rg_base q \<le> address \<Longrightarrow> address < rg_base q + rg_length q \<Longrightarrow> q = r"
  shows "pmm_page_in_regions address rs =
    page_ptr (rg_page_array r) (ucast (ucast (PAGE_INDEX_IN_REGION address (rg_base r)) :: u32))"
  using assms(1,4)
proof (induction rs)
  case Nil
  then show ?case by simp
next
  case (Cons q rs)
  show ?case
  proof (cases "rg_base q \<le> address \<and> address < rg_base q + rg_length q")
    case True
    then show ?thesis
      using Cons.prems(2) [of q] by simp
  next
    case False
    then have "r \<in> set rs"
      using Cons.prems(1) assms(2,3) by auto
    moreover have "pmm_page_in_regions address (q # rs) = pmm_page_in_regions address rs"
      using False by (simp only: pmm_page_in_regions.simps if_False)
    ultimately show ?thesis
      using Cons.IH Cons.prems(2) by simp
  qed
qed

text \<open>\<^verbatim>\<open>pmm_page_from_p_addr\<close> finds the page info of a physical address: if an available region is
  the only one that contains the address, the result is the page info whose recorded address is the
  address rounded down to its page.\<close>

theorem pmm_page_from_p_addr_correct:
  assumes inv: "pmm_inv s ps" and r: "r \<in> set (regions_array s)" "rg_type r = REGION_TYPE_AVAILABLE"
    "rg_base r \<le> address" "unat address < unat (rg_base r) + unat (rg_length r)"
    and only: "\<And>q. q \<in> set (regions_array s) \<Longrightarrow> rg_base q \<le> address \<Longrightarrow> address < rg_base q + rg_length q \<Longrightarrow> q = r"
  shows "\<exists>pg. pm_pages s (pmm_page_from_p_addr address s) = Some pg \<and> pg_address pg = ROUND_DOWN_PAGE address"
proof -
  have avail: "r \<in> set (available s)"
    using r by (simp add: available_def)
  then have ok: "region_ok (page_core (pm_pages s)) r"
    using inv by (simp add: pmm_inv_def)
  note loc = region_containing [OF ok r(3,4)]
  let ?i = "(unat address - unat (rg_base r)) div 4096"
  have "PAGE_INDEX_IN_REGION address (rg_base r) = of_nat ?i"
    using arg_cong [OF loc(3), of "of_nat :: nat \<Rightarrow> u64"] by simp
  moreover have "?i < 2 ^ 32"
    using loc(2) ok by (simp add: region_ok_def)
  ultimately have "pmm_page_from_p_addr address s = region_page r ?i"
    using pmm_page_in_regions_unique [OF r(1,3) loc(1) only]
    by (simp add: pmm_page_from_p_addr_def pmm_inv_regions [OF inv] ucast_of_nat_u64_u32 region_page_u32)
  then show ?thesis
    using region_pages_in_dom(2) [OF inv avail loc(2)] loc(4) by simp
qed

theorem pmm_page_from_p_addr_correct_witness:
  "\<exists>pg. pm_pages demo_pmm (pmm_page_from_p_addr 0x102abc demo_pmm) = Some pg \<and> pg_address pg = ROUND_DOWN_PAGE 0x102abc"
  by (rule pmm_page_from_p_addr_correct [OF demo_pmm_inv, of demo_region])
    (simp_all add: demo_pmm_def demo_region_def)

text \<open>An available region that contains no whole page (its start rounded up lies one page above
  its end rounded down) makes \<^verbatim>\<open>pmm_init_region\<close> run for ever: the length wraps around to almost
  \<open>2 ^ 64\<close> and the 32-bit page counter never reaches the page count.\<close>

theorem pmm_init_region_sub_page_hangs:
  assumes r: "rg_type r = REGION_TYPE_AVAILABLE"
      "ROUND_UP_PAGE (rg_base r) = ROUND_DOWN_PAGE (rg_base r + rg_length r) + PAGE_SIZE"
    and fl: "free_list s = NULL \<or> free_list s \<in> dom (pm_pages s)"
  shows "pmm_init_region r s = Hang"
proof -
  have len: "init_length r = - 4096"
    by (rule sub_page_region_length [OF r(2)])
  have size: "init_array_size r = 0x200000000000000"
    by (simp add: init_array_size_def len ROUND_UP_PAGE_def ROUND_UP_def)
  have loop: "for_uint (pmm_init_page arr m) (init_length r div PAGE_SIZE) 0 (b, s) = None" for arr m b
  proof (rule for_uint_diverges [where I = "\<lambda>(b, s). free_list s = NULL \<or> free_list s \<in> dom (pm_pages s)"])
    show "2 ^ 32 \<le> unat (init_length r div PAGE_SIZE)"
      by (simp add: len)
    show "\<exists>x'. pmm_init_page arr m i x = Ret x' \<and>
        (case x' of (b, s) \<Rightarrow> free_list s = NULL \<or> free_list s \<in> dom (pm_pages s))"
      if "case x of (b, s) \<Rightarrow> free_list s = NULL \<or> free_list s \<in> dom (pm_pages s)" for i x
      using that pmm_init_page_returns [of "snd x" arr m i "fst x"] by (cases x) auto
  qed (use fl in simp)
  have "\<not> init_length r \<le> init_array_size r"
    by (simp add: len size)
  then show ?thesis
    using loop r(1) unfolding pmm_init_region_def Let_def init_length_def init_base_def init_array_size_def
    by simp
qed

theorem pmm_init_region_sub_page_hangs_witness:
  "pmm_init_region \<lparr>rg_base = 0x1100, rg_length = 0x100, rg_page_array = 0, rg_type = REGION_TYPE_AVAILABLE\<rparr>
     (boot_state []) = Hang"
  by (rule pmm_init_region_sub_page_hangs)
    (simp_all add: boot_state_def ROUND_DOWN_PAGE_eq_ROUND_DOWN ROUND_DOWN_def ROUND_UP_PAGE_def ROUND_UP_def)

end
