(* ===== verification/Paging.thy ===== *)
theory Paging
  imports Pmm
begin

text \<open>
  x86\_64 page tables (\<^verbatim>\<open>arch/x86_64/paging.c\<close>). A store maps the address of every table in the
  physical map to its 512 entries; page-table memory comes from the physical memory manager, whose
  state is part of the model. TLB invalidation and loading \<^verbatim>\<open>cr3\<close> have no effect on this state.
\<close>

section \<open>Entries\<close>

definition LARGE_PAGE_SIZE :: u64 where
  [simp]: "LARGE_PAGE_SIZE = 0x200000"

definition GIGABYTE_PAGE_SIZE :: u64 where
  [simp]: "GIGABYTE_PAGE_SIZE = 0x40000000"

definition PML4_PAGE_SIZE :: u64 where
  [simp]: "PML4_PAGE_SIZE = 0x8000000000"

definition PAGE_ADDRESS_MASK :: u64 where
  "PAGE_ADDRESS_MASK = 0x000ffffffffff000"

definition HIGHER_HALF_BITS :: u64 where
  "HIGHER_HALF_BITS = 0xffff800000000000"

definition PAGE_PRESENT :: u64 where
  "PAGE_PRESENT = 0x1"

definition PAGE_WRITABLE :: u64 where
  "PAGE_WRITABLE = 0x2"

definition PAGE_USER :: u64 where
  "PAGE_USER = 0x4"

definition PAGE_WRITE_THROUGH :: u64 where
  "PAGE_WRITE_THROUGH = 0x8"

definition PAGE_CACHE_DISABLE :: u64 where
  "PAGE_CACHE_DISABLE = 0x10"

definition PAGE_LARGE_PAGE :: u64 where
  "PAGE_LARGE_PAGE = 0x80"

definition PAGE_GLOBAL :: u64 where
  "PAGE_GLOBAL = 0x100"

definition PAGE_NO_EXECUTE :: u64 where
  "PAGE_NO_EXECUTE = 0x8000000000000000"

definition IS_PRESENT :: "u64 \<Rightarrow> bool" where
  "IS_PRESENT e \<longleftrightarrow> e AND PAGE_PRESENT \<noteq> 0"

definition IS_LARGE_PAGE :: "u64 \<Rightarrow> bool" where
  "IS_LARGE_PAGE e \<longleftrightarrow> e AND PAGE_LARGE_PAGE \<noteq> 0"

definition INDEX_AT_LEVEL :: "u64 \<Rightarrow> nat \<Rightarrow> nat" where
  "INDEX_AT_LEVEL virtual_address table_level =
     unat (drop_bit (12 + table_level * 9) virtual_address AND 0x1ff)"

definition V_ADDR_REGION_READABLE :: u64 where
  "V_ADDR_REGION_READABLE = 0x1"

definition V_ADDR_REGION_WRITABLE :: u64 where
  "V_ADDR_REGION_WRITABLE = 0x2"

definition V_ADDR_REGION_EXECUTABLE :: u64 where
  "V_ADDR_REGION_EXECUTABLE = 0x4"

definition V_ADDR_REGION_MAP_SPECIFIC :: u64 where
  "V_ADDR_REGION_MAP_SPECIFIC = 0x8"

definition V_ADDR_REGION_DISABLE_CACHE :: u64 where
  "V_ADDR_REGION_DISABLE_CACHE = 0x10"

lemmas page_bits = PAGE_ADDRESS_MASK_def HIGHER_HALF_BITS_def PAGE_PRESENT_def PAGE_WRITABLE_def
  PAGE_USER_def PAGE_WRITE_THROUGH_def PAGE_CACHE_DISABLE_def PAGE_LARGE_PAGE_def PAGE_GLOBAL_def
  PAGE_NO_EXECUTE_def V_ADDR_REGION_READABLE_def V_ADDR_REGION_WRITABLE_def
  V_ADDR_REGION_EXECUTABLE_def V_ADDR_REGION_MAP_SPECIFIC_def V_ADDR_REGION_DISABLE_CACHE_def

section \<open>State\<close>

type_synonym page_table = "nat \<Rightarrow> u64"
type_synonym table_store = "ptr \<rightharpoonup> page_table"

record mmu =
  mm_pmm :: pmm
  mm_tables :: table_store
  no_execute_supported :: bool

record address_space =
  table_base :: ptr
  as_lock :: lock

definition get_entry :: "ptr \<Rightarrow> nat \<Rightarrow> mmu \<Rightarrow> u64 outcome" where
  "get_entry table index s = obind (load (mm_tables s) table) (\<lambda>t. Ret (t index))"

definition set_entry :: "ptr \<Rightarrow> nat \<Rightarrow> u64 \<Rightarrow> mmu \<Rightarrow> mmu outcome" where
  "set_entry table index e s =
     obind (load (mm_tables s) table) (\<lambda>t. Ret (s\<lparr>mm_tables := (mm_tables s)(table \<mapsto> t(index := e))\<rparr>))"

section \<open>Helpers\<close>

definition intermediate_page_flags :: "u64 \<Rightarrow> u64" where
  "intermediate_page_flags leaf_flags =
     leaf_flags AND NOT (PAGE_NO_EXECUTE OR PAGE_CACHE_DISABLE OR PAGE_WRITE_THROUGH)"

definition leaf_page_flags :: "mmu \<Rightarrow> u64 \<Rightarrow> u64" where
  "leaf_page_flags s flags =
     (if no_execute_supported s then flags else flags AND NOT PAGE_NO_EXECUTE)"

definition page_size :: "nat \<Rightarrow> u64" where
  "page_size table_level =
     (if table_level = 0 then PAGE_SIZE
      else if table_level = 1 then LARGE_PAGE_SIZE
      else if table_level = 2 then GIGABYTE_PAGE_SIZE
      else if table_level = 3 then PML4_PAGE_SIZE
      else - 1)"

definition paging_allocate_table :: "mmu \<Rightarrow> (ptr \<times> mmu) outcome" where
  "paging_allocate_table s =
     obind (pmm_allocate_page (mm_pmm s)) (\<lambda>(status, page, p).
     if status = IR_OK then
       obind (load (pm_pages p) page) (\<lambda>pg.
       let table = p_addr_to_physical_map (pg_address pg) in
       Ret (table, s\<lparr>mm_pmm := p, mm_tables := (mm_tables s)(table \<mapsto> (\<lambda>_. 0))\<rparr>))
     else Ret (NULL, s\<lparr>mm_pmm := p\<rparr>))"

text \<open>Splitting the large page in entry \<open>index\<close> of \<open>table\<close> into a table of smaller pages.\<close>

definition paging_split_page :: "ptr \<Rightarrow> nat \<Rightarrow> nat \<Rightarrow> mmu \<Rightarrow> (ir_status \<times> mmu) outcome" where
  "paging_split_page table index table_level s =
     obind (paging_allocate_table s) (\<lambda>(new_table, s).
     if new_table = NULL then Ret (IR_ERROR_NO_MEMORY, s) else
     obind (get_entry table index s) (\<lambda>entry.
     let new_size_is_large = table_level - 1 > 0;
         flags = entry AND NOT PAGE_ADDRESS_MASK;
         flags = (if \<not> new_size_is_large then flags AND NOT PAGE_LARGE_PAGE else flags);
         address = entry AND PAGE_ADDRESS_MASK;
         smaller_page_size = page_size (table_level - 1);
         contents = (\<lambda>i. if i < 512 then (address + of_nat i * smaller_page_size) OR leaf_page_flags s flags else 0);
         s = s\<lparr>mm_tables := (mm_tables s)(new_table \<mapsto> contents)\<rparr>;
         new_table_physical_address = (new_table - physical_map_base) AND PAGE_ADDRESS_MASK;
         new_flags = intermediate_page_flags flags AND NOT PAGE_LARGE_PAGE in
     obind (set_entry table index (new_table_physical_address OR new_flags) s) (\<lambda>s.
     Ret (IR_OK, s))))"

definition table_empty :: "page_table \<Rightarrow> bool" where
  "table_empty t = list_all (\<lambda>i. t i = 0) [0..<512]"

definition maybe_release_frame :: "ptr \<Rightarrow> mmu \<Rightarrow> (bool \<times> mmu) outcome" where
  "maybe_release_frame page_frame s =
     obind (load (mm_tables s) page_frame) (\<lambda>t.
     if \<not> table_empty t then Ret (False, s) else
     let page = pmm_page_from_p_addr (physical_map_to_p_addr page_frame) (mm_pmm s) in
     obind (pmm_free_page page (mm_pmm s)) (\<lambda>p. Ret (True, s\<lparr>mm_pmm := p\<rparr>)))"

section \<open>Mapping\<close>

text \<open>
  One level of the descent: \<^term>\<open>Inl status\<close> is a return from the function, \<^term>\<open>Inr table\<close> the
  table of the next level.
\<close>

definition paging_map_level ::
  "u64 \<Rightarrow> u64 \<Rightarrow> u64 \<Rightarrow> bool \<Rightarrow> nat \<Rightarrow> ptr \<Rightarrow> mmu \<Rightarrow> ((ir_status + ptr) \<times> mmu) outcome" where
  "paging_map_level virtual_address physical_address protection_flags use_2mb level table s =
     (let intermediate_flags = intermediate_page_flags protection_flags;
          index = INDEX_AT_LEVEL virtual_address level in
      obind (get_entry table index s) (\<lambda>e.
      if use_2mb \<and> index = 1 then
        obind (if IS_PRESENT e \<and> \<not> IS_LARGE_PAGE e
               then obind (pmm_free_page (pmm_page_from_p_addr (e AND PAGE_ADDRESS_MASK) (mm_pmm s)) (mm_pmm s))
                      (\<lambda>p. Ret (s\<lparr>mm_pmm := p\<rparr>))
               else Ret s) (\<lambda>s.
        obind (set_entry table index
                 (physical_address OR leaf_page_flags s protection_flags OR PAGE_LARGE_PAGE) s) (\<lambda>s.
        Ret (Inl IR_OK, s)))
      else
        obind (if IS_LARGE_PAGE e then paging_split_page table index level s else Ret (IR_OK, s))
        (\<lambda>(status, s).
        if status \<noteq> IR_OK then Ret (Inl status, s) else
        obind (get_entry table index s) (\<lambda>e.
        obind (if \<not> IS_PRESENT e then
                 obind (paging_allocate_table s) (\<lambda>(t, s).
                 let new_table = t - physical_map_base in
                 if new_table = 0 then Ret (IR_ERROR_NO_MEMORY, s)
                 else obind (set_entry table index (new_table AND PAGE_ADDRESS_MASK) s)
                        (\<lambda>s. Ret (IR_OK, s)))
               else Ret (IR_OK, s)) (\<lambda>(status, s).
        if status \<noteq> IR_OK then Ret (Inl status, s) else
        obind (get_entry table index s) (\<lambda>e.
        let e = (e AND PAGE_ADDRESS_MASK) OR intermediate_flags in
        obind (set_entry table index e s) (\<lambda>s.
        Ret (Inr ((e AND PAGE_ADDRESS_MASK) + physical_map_base), s))))))))"

fun paging_map_levels ::
  "nat \<Rightarrow> u64 \<Rightarrow> u64 \<Rightarrow> u64 \<Rightarrow> bool \<Rightarrow> ptr \<Rightarrow> mmu \<Rightarrow> ((ir_status + ptr) \<times> mmu) outcome" where
  "paging_map_levels 0 va pa flags use_2mb table s = Ret (Inr table, s)"
| "paging_map_levels (Suc level) va pa flags use_2mb table s =
     obind (paging_map_level va pa flags use_2mb (Suc level) table s) (\<lambda>(r, s).
     case r of
       Inl status \<Rightarrow> Ret (Inl status, s)
     | Inr table \<Rightarrow> paging_map_levels level va pa flags use_2mb table s)"

definition paging_map_page ::
  "ptr \<Rightarrow> u64 \<Rightarrow> u64 \<Rightarrow> u64 \<Rightarrow> bool \<Rightarrow> mmu \<Rightarrow> (ir_status \<times> mmu) outcome" where
  "paging_map_page table virtual_address physical_address protection_flags use_2mb s =
     obind (paging_map_levels 3 virtual_address physical_address protection_flags use_2mb table s)
     (\<lambda>(r, s).
     case r of
       Inl status \<Rightarrow> Ret (status, s)
     | Inr table \<Rightarrow>
         obind (set_entry table (INDEX_AT_LEVEL virtual_address 0)
                  (physical_address OR leaf_page_flags s protection_flags) s) (\<lambda>s.
         Ret (IR_OK, s)))"

text \<open>The page flags a set of region flags asks for.\<close>

definition mmu_page_flags :: "u64 \<Rightarrow> u64 \<Rightarrow> u64" where
  "mmu_page_flags address flags =
     (let page_flags = PAGE_PRESENT;
          page_flags = (if flags AND V_ADDR_REGION_WRITABLE \<noteq> 0 then page_flags OR PAGE_WRITABLE else page_flags);
          page_flags = (if NOT flags AND V_ADDR_REGION_EXECUTABLE \<noteq> 0 then page_flags OR PAGE_NO_EXECUTE else page_flags);
          page_flags = (if flags AND V_ADDR_REGION_DISABLE_CACHE \<noteq> 0
                        then page_flags OR (PAGE_CACHE_DISABLE OR PAGE_WRITE_THROUGH) else page_flags) in
      if arch_is_kernel_pointer address then page_flags OR PAGE_GLOBAL else page_flags OR PAGE_USER)"

fun mmu_map_loop :: "ptr \<Rightarrow> u64 \<Rightarrow> u64 list \<Rightarrow> u64 \<Rightarrow> mmu \<Rightarrow> (ir_status \<times> mmu) outcome" where
  "mmu_map_loop table address [] page_flags s = Ret (IR_OK, s)"
| "mmu_map_loop table address (p_addr # p_addr_list) page_flags s =
     obind (paging_map_page table address p_addr page_flags False s) (\<lambda>(status, s).
     if status \<noteq> IR_OK then Ret (status, s)
     else mmu_map_loop table (address + PAGE_SIZE) p_addr_list page_flags s)"

text \<open>The array of physical addresses is the list \<open>p_addr_list\<close>; its length is the count.\<close>

definition arch_mmu_map ::
  "address_space \<Rightarrow> u64 \<Rightarrow> u64 list \<Rightarrow> u64 \<Rightarrow> mmu \<Rightarrow> (ir_status \<times> mmu) outcome" where
  "arch_mmu_map addr_space address p_addr_list flags s =
     mmu_map_loop (table_base addr_space) address p_addr_list (mmu_page_flags address flags) s"

text \<open>The counter is unsigned, so the comparison of \<^verbatim>\<open>i - count\<close> is true on every round.\<close>

partial_function (option) mmu_map_contiguous_loop ::
  "ptr \<Rightarrow> u64 \<Rightarrow> u64 \<Rightarrow> u64 \<Rightarrow> u64 \<Rightarrow> u64 \<Rightarrow> mmu \<Rightarrow> (ir_status \<times> mmu) outcome option" where
  "mmu_map_contiguous_loop table address cnt physical_address page_flags i s =
     (if i < cnt then
        (case paging_map_page table address physical_address page_flags False s of
           Ret (status, s) \<Rightarrow>
             if status \<noteq> IR_OK then Some (Ret (status, s))
             else if address mod LARGE_PAGE_SIZE = 0 \<and> i - cnt \<ge> LARGE_PAGE_SIZE div PAGE_SIZE then
               mmu_map_contiguous_loop table (address + LARGE_PAGE_SIZE) cnt
                 (physical_address + LARGE_PAGE_SIZE) page_flags (i + LARGE_PAGE_SIZE div PAGE_SIZE + 1) s
             else
               mmu_map_contiguous_loop table (address + PAGE_SIZE) cnt
                 (physical_address + PAGE_SIZE) page_flags (i + 1) s
         | Fault \<Rightarrow> Some Fault | Panic \<Rightarrow> Some Panic | Hang \<Rightarrow> Some Hang)
      else Some (Ret (IR_OK, s)))"

definition arch_mmu_map_contiguous ::
  "address_space \<Rightarrow> u64 \<Rightarrow> u64 \<Rightarrow> u64 \<Rightarrow> u64 \<Rightarrow> mmu \<Rightarrow> (ir_status \<times> mmu) outcome" where
  "arch_mmu_map_contiguous addr_space address cnt physical_address flags s =
     (let page_flags = PAGE_PRESENT;
          page_flags = (if flags AND V_ADDR_REGION_WRITABLE \<noteq> 0 then page_flags OR PAGE_WRITABLE else page_flags);
          page_flags = (if NOT flags AND V_ADDR_REGION_EXECUTABLE \<noteq> 0 then page_flags OR PAGE_NO_EXECUTE else page_flags) in
      looped (mmu_map_contiguous_loop (table_base addr_space) address cnt physical_address page_flags 0 s))"

section \<open>Changing and removing mappings\<close>

definition paging_protect_level ::
  "u64 \<Rightarrow> u64 \<Rightarrow> nat \<Rightarrow> ptr \<Rightarrow> mmu \<Rightarrow> ((ir_status + ptr) \<times> mmu) outcome" where
  "paging_protect_level virtual_address new_flags level table s =
     (let index = INDEX_AT_LEVEL virtual_address level in
      obind (get_entry table index s) (\<lambda>e.
      obind (if IS_LARGE_PAGE e then paging_split_page table index level s else Ret (IR_OK, s))
      (\<lambda>(status, s).
      if status \<noteq> IR_OK then Ret (Inl status, s) else
      obind (get_entry table index s) (\<lambda>e.
      if \<not> IS_PRESENT e then Ret (Inl IR_ERROR_NOT_FOUND, s) else
      let e = (e AND PAGE_ADDRESS_MASK) OR intermediate_page_flags new_flags in
      obind (set_entry table index e s) (\<lambda>s.
      Ret (Inr ((e AND PAGE_ADDRESS_MASK) OR HIGHER_HALF_BITS), s))))))"

fun paging_protect_levels ::
  "nat \<Rightarrow> u64 \<Rightarrow> u64 \<Rightarrow> ptr \<Rightarrow> mmu \<Rightarrow> ((ir_status + ptr) \<times> mmu) outcome" where
  "paging_protect_levels 0 va flags table s = Ret (Inr table, s)"
| "paging_protect_levels (Suc level) va flags table s =
     obind (paging_protect_level va flags (Suc level) table s) (\<lambda>(r, s).
     case r of
       Inl status \<Rightarrow> Ret (Inl status, s)
     | Inr table \<Rightarrow> paging_protect_levels level va flags table s)"

definition paging_protect_page :: "ptr \<Rightarrow> u64 \<Rightarrow> u64 \<Rightarrow> mmu \<Rightarrow> (ir_status \<times> mmu) outcome" where
  "paging_protect_page table virtual_address new_flags s =
     obind (paging_protect_levels 3 virtual_address new_flags table s) (\<lambda>(r, s).
     case r of
       Inl status \<Rightarrow> Ret (status, s)
     | Inr table \<Rightarrow>
         let index = INDEX_AT_LEVEL virtual_address 0 in
         obind (get_entry table index s) (\<lambda>e.
         obind (set_entry table index ((e AND PAGE_ADDRESS_MASK) OR leaf_page_flags s new_flags) s) (\<lambda>s.
         Ret (IR_OK, s))))"

text \<open>The loop calls \<^verbatim>\<open>paging_protect_page\<close> with the region flags it was given and drops its status.\<close>

fun mmu_protect_loop :: "nat \<Rightarrow> ptr \<Rightarrow> u64 \<Rightarrow> u64 \<Rightarrow> mmu \<Rightarrow> mmu outcome" where
  "mmu_protect_loop 0 table address flags s = Ret s"
| "mmu_protect_loop (Suc k) table address flags s =
     obind (paging_protect_page table address flags s) (\<lambda>(_, s).
     mmu_protect_loop k table (address + PAGE_SIZE) flags s)"

definition arch_mmu_protect ::
  "address_space option \<Rightarrow> u64 \<Rightarrow> u64 \<Rightarrow> u32 \<Rightarrow> mmu \<Rightarrow> (ir_status \<times> mmu) outcome" where
  "arch_mmu_protect addr_space address cnt flags s =
     (case addr_space of
        None \<Rightarrow> Ret (IR_ERROR_INVALID_ARGUMENTS, s)
      | Some a \<Rightarrow>
          if address = 0 then Ret (IR_ERROR_INVALID_ARGUMENTS, s)
          else if cnt = 0 then Ret (IR_OK, s)
          else obind (mmu_protect_loop (unat cnt) (table_base a) address (ucast flags) s) (\<lambda>s.
               Ret (IR_OK, s)))"

text \<open>
  The descent of \<^verbatim>\<open>paging_unmap_page\<close>: \<^term>\<open>None\<close> is an early return, otherwise the tables visited,
  the lowest first.
\<close>

fun paging_unmap_levels ::
  "nat \<Rightarrow> u64 \<Rightarrow> ptr \<Rightarrow> ptr list \<Rightarrow> mmu \<Rightarrow> ((ir_status + ptr list) \<times> mmu) outcome" where
  "paging_unmap_levels 0 va table levels s = Ret (Inr (table # levels), s)"
| "paging_unmap_levels (Suc level) va table levels s =
     (let index = INDEX_AT_LEVEL va (Suc level) in
      obind (get_entry table index s) (\<lambda>e.
      obind (if IS_LARGE_PAGE e then paging_split_page table index (Suc level) s else Ret (IR_OK, s))
      (\<lambda>(status, s).
      if status \<noteq> IR_OK then Ret (Inl status, s) else
      obind (get_entry table index s) (\<lambda>e.
      if e = 0 then Ret (Inl IR_OK, s) else
      paging_unmap_levels level va ((e AND PAGE_ADDRESS_MASK) + physical_map_base) (table # levels) s))))"

text \<open>
  Releasing empty tables: rounds \<open>i = 0, 1, 2\<close>, each testing the lowest table, clearing the entry
  of the table one level up from the round and freeing the lowest table's page.
\<close>

fun paging_release_levels :: "nat \<Rightarrow> nat \<Rightarrow> u64 \<Rightarrow> ptr \<Rightarrow> ptr list \<Rightarrow> mmu \<Rightarrow> mmu outcome" where
  "paging_release_levels 0 i va table levels s = Ret s"
| "paging_release_levels (Suc k) i va table levels s =
     (if i \<ge> 2 \<and> arch_is_kernel_pointer va then Ret s else
      obind (maybe_release_frame table s) (\<lambda>(released, s).
      if \<not> released then Ret s else
      obind (set_entry (levels ! (i + 1)) (INDEX_AT_LEVEL va (i + 1)) 0 s) (\<lambda>s.
      obind (pmm_free_page (pmm_page_from_p_addr (physical_map_to_p_addr table) (mm_pmm s)) (mm_pmm s)) (\<lambda>p.
      paging_release_levels k (i + 1) va table levels (s\<lparr>mm_pmm := p\<rparr>)))))"

definition paging_unmap_page :: "ptr \<Rightarrow> u64 \<Rightarrow> mmu \<Rightarrow> (ir_status \<times> mmu) outcome" where
  "paging_unmap_page table virtual_address s =
     obind (paging_unmap_levels 3 virtual_address table [] s) (\<lambda>(r, s).
     case r of
       Inl status \<Rightarrow> Ret (status, s)
     | Inr levels \<Rightarrow>
         obind (set_entry (levels ! 0) (INDEX_AT_LEVEL virtual_address 0) 0 s) (\<lambda>s.
         obind (paging_release_levels 3 0 virtual_address (levels ! 0) levels s) (\<lambda>s.
         Ret (IR_OK, s))))"

fun mmu_unmap_loop :: "nat \<Rightarrow> ptr \<Rightarrow> u64 \<Rightarrow> mmu \<Rightarrow> mmu outcome" where
  "mmu_unmap_loop 0 table address s = Ret s"
| "mmu_unmap_loop (Suc k) table address s =
     obind (paging_unmap_page table address s) (\<lambda>(_, s).
     mmu_unmap_loop k table (address + PAGE_SIZE) s)"

text \<open>The count is a length in bytes, and the number of pages an \<^verbatim>\<open>int\<close>.\<close>

definition arch_mmu_unmap ::
  "address_space option \<Rightarrow> u64 \<Rightarrow> u64 \<Rightarrow> mmu \<Rightarrow> (ir_status \<times> mmu) outcome" where
  "arch_mmu_unmap addr_space address cnt s =
     (case addr_space of
        None \<Rightarrow> Ret (IR_ERROR_INVALID_ARGUMENTS, s)
      | Some a \<Rightarrow>
          obind (mmu_unmap_loop (nat (int_of_u64 (cnt div PAGE_SIZE))) (table_base a) address s) (\<lambda>s.
          Ret (IR_OK, s)))"

definition arch_mmu_create_address_space ::
  "ptr \<Rightarrow> mmu \<Rightarrow> (ir_status \<times> address_space \<times> mmu) outcome" where
  "arch_mmu_create_address_space kernel_pml4 s =
     obind (paging_allocate_table s) (\<lambda>(table, s).
     obind (load (mm_tables s) kernel_pml4) (\<lambda>k.
     obind (load (mm_tables s) table) (\<lambda>_.
     Ret (IR_OK, \<lparr>table_base = table, as_lock = False\<rparr>,
          s\<lparr>mm_tables := (mm_tables s)(table \<mapsto> k)\<rparr>))))"

section \<open>The tree of tables\<close>

definition next_table :: "u64 \<Rightarrow> ptr" where
  "next_table e = (e AND PAGE_ADDRESS_MASK) + physical_map_base"

text \<open>The table reached from \<open>t\<close> by following entries, as the processor does.\<close>

fun table_at :: "table_store \<Rightarrow> ptr \<Rightarrow> nat list \<Rightarrow> ptr option" where
  "table_at T t [] = Some t"
| "table_at T t (i # is) =
     (case T t of None \<Rightarrow> None
      | Some tab \<Rightarrow> if IS_PRESENT (tab i) \<and> \<not> IS_LARGE_PAGE (tab i)
                     then table_at T (next_table (tab i)) is else None)"

definition entry_at :: "table_store \<Rightarrow> ptr \<Rightarrow> nat list \<Rightarrow> nat \<Rightarrow> u64 option" where
  "entry_at T root p i = (case table_at T root p of None \<Rightarrow> None | Some t \<Rightarrow> map_option (\<lambda>tab. tab i) (T t))"

text \<open>Distinct paths reach distinct tables, and all of them exist. An entry that maps a large page ends a path.\<close>

definition wf_tables :: "table_store \<Rightarrow> ptr \<Rightarrow> bool" where
  "wf_tables T root \<longleftrightarrow>
     (\<forall>p t. length p \<le> 3 \<longrightarrow> table_at T root p = Some t \<longrightarrow> t \<in> dom T) \<and>
     (\<forall>p q t. length p \<le> 3 \<longrightarrow> length q \<le> 3 \<longrightarrow> table_at T root p = Some t \<longrightarrow>
        table_at T root q = Some t \<longrightarrow> p = q)"

lemma table_at_append:
  "table_at T root (p @ q) = (case table_at T root p of None \<Rightarrow> None | Some t \<Rightarrow> table_at T t q)"
  by (induction p arbitrary: root) (auto split: option.splits)

lemma table_at_avoid:
  assumes "T t0 = Some tab0"
    and "\<And>j. j < length p \<Longrightarrow> table_at T root (take j p) = Some t0 \<Longrightarrow> p ! j \<noteq> i"
  shows "table_at (T(t0 \<mapsto> tab0(i := e))) root p = table_at T root p"
  using assms(2)
proof (induction p arbitrary: root)
  case Nil
  then show ?case by simp
next
  case (Cons k p)
  define T' where "T' = T(t0 \<mapsto> tab0(i := e))"
  have k: "root = t0 \<Longrightarrow> k \<noteq> i"
    using Cons.prems [of 0] by auto
  show ?case
  proof (cases "T root")
    case None
    then show ?thesis
      using assms(1) by (cases "root = t0") auto
  next
    case (Some tab)
    have "table_at T' (next_table (tab k)) p = table_at T (next_table (tab k)) p"
      if "IS_PRESENT (tab k) \<and> \<not> IS_LARGE_PAGE (tab k)"
      unfolding T'_def
    proof (rule Cons.IH)
      fix j assume "j < length p" "table_at T (next_table (tab k)) (take j p) = Some t0"
      then show "p ! j \<noteq> i"
        using Cons.prems [of "Suc j"] Some that by simp
    qed
    moreover have "\<exists>tab'. T' root = Some tab' \<and> tab' k = tab k"
      using Some k assms(1) by (auto simp: T'_def)
    ultimately show ?thesis
      using Some unfolding T'_def [symmetric] by auto
  qed
qed

text \<open>In a well-formed tree only paths through the changed entry can see a change.\<close>

lemma table_at_upd_other:
  assumes wf: "wf_tables T root" and p0: "table_at T root p0 = Some t0" "T t0 = Some tab0" "length p0 \<le> 3"
    and p: "length p \<le> 3" "take (Suc (length p0)) p \<noteq> p0 @ [i]"
  shows "table_at (T(t0 \<mapsto> tab0(i := e))) root p = table_at T root p"
proof (rule table_at_avoid [of T t0 tab0, OF p0(2)])
  fix j assume j: "j < length p" and at: "table_at T root (take j p) = Some t0"
  have "length (take j p) \<le> 3"
    using p(1) by simp
  then have "take j p = p0"
    using wf at p0 unfolding wf_tables_def by blast
  then show "p ! j \<noteq> i"
    using p(2) j by (auto simp: take_Suc_conv_app_nth)
qed

lemma table_at_through:
  assumes wf: "wf_tables T root" and p0: "table_at T root p0 = Some t0" "T t0 = Some tab0" "length p0 \<le> 3"
  shows "table_at (T(t0 \<mapsto> tab0(i := e))) root (p0 @ i # q) =
    (if IS_PRESENT e \<and> \<not> IS_LARGE_PAGE e then table_at (T(t0 \<mapsto> tab0(i := e))) (next_table e) q else None)"
proof -
  have "table_at (T(t0 \<mapsto> tab0(i := e))) root p0 = Some t0"
    using table_at_upd_other [OF wf p0 p0(3)] p0(1) by simp
  then show ?thesis
    by (simp add: table_at_append)
qed

lemma take_Suc_split:
  assumes "take (Suc (length p0)) p = p0 @ [i]"
  obtains q where "p = p0 @ i # q"
proof -
  have "p = take (Suc (length p0)) p @ drop (Suc (length p0)) p"
    by simp
  then have "p = p0 @ i # drop (Suc (length p0)) p"
    using assms by simp
  then show thesis
    by (rule that)
qed

text \<open>Rewriting the flags of an entry that points to a table moves no table.\<close>

lemma table_at_reflag:
  assumes wf: "wf_tables T root" and p0: "table_at T root p0 = Some t0" "T t0 = Some tab0" "length p0 \<le> 3"
    and old: "IS_PRESENT (tab0 i)" "\<not> IS_LARGE_PAGE (tab0 i)"
    and new: "IS_PRESENT e" "\<not> IS_LARGE_PAGE e" "next_table e = next_table (tab0 i)" and p: "length p \<le> 3"
  shows "table_at (T(t0 \<mapsto> tab0(i := e))) root p = table_at T root p"
proof (cases "take (Suc (length p0)) p = p0 @ [i]")
  case False
  then show ?thesis
    by (rule table_at_upd_other [OF wf p0 p])
next
  case True
  then obtain q where q: "p = p0 @ i # q"
    by (rule take_Suc_split)
  let ?n = "next_table (tab0 i)"
  have at: "table_at T root (p0 @ i # q') = table_at T ?n q'" for q'
    using p0 old by (simp add: table_at_append)
  have "table_at (T(t0 \<mapsto> tab0(i := e))) ?n q = table_at T ?n q"
  proof (rule table_at_avoid [of T t0 tab0, OF p0(2)])
    fix j assume "j < length q" and "table_at T ?n (take j q) = Some t0"
    then have "table_at T root (p0 @ i # take j q) = Some t0" "length (p0 @ i # take j q) \<le> 3"
      using p q by (simp_all add: at)
    then have "p0 @ i # take j q = p0"
      using wf p0 unfolding wf_tables_def by blast
    then show "q ! j \<noteq> i"
      by simp
  qed
  then show ?thesis
    unfolding q using table_at_through [OF wf p0, of i e q] new by (simp add: at)
qed

text \<open>A fresh empty table behind an entry that was not present.\<close>

lemma table_at_fresh_tables:
  assumes "\<And>p. length p \<le> 3 \<Longrightarrow> table_at T root p \<noteq> Some n" "length p \<le> 3"
  shows "table_at (T(n \<mapsto> z)) root p = table_at T root p"
  using assms
proof (induction p rule: rev_induct)
  case Nil
  then show ?case by simp
next
  case (snoc i p)
  have "table_at T root p \<noteq> Some n"
    using snoc.prems by simp
  then show ?case
    using snoc by (auto simp: table_at_append split: option.splits)
qed

lemma table_at_grow:
  assumes wf: "wf_tables T root" and p0: "table_at T root p0 = Some t0" "T t0 = Some tab0" "length p0 \<le> 3"
    and old: "\<not> IS_PRESENT (tab0 i)" and fresh: "\<And>p. length p \<le> 3 \<Longrightarrow> table_at T root p \<noteq> Some n"
    and new: "IS_PRESENT e" "\<not> IS_LARGE_PAGE e" "next_table e = n" and p: "length p \<le> 3"
  shows "table_at (T(n \<mapsto> (\<lambda>_. 0), t0 \<mapsto> tab0(i := e))) root p =
    (if p = p0 @ [i] then Some n else table_at T root p)"
proof -
  define T1 where "T1 = T(n \<mapsto> (\<lambda>_. 0))"
  have same: "table_at T1 root p = table_at T root p" if "length p \<le> 3" for p
    unfolding T1_def using fresh that by (rule table_at_fresh_tables)
  have "n \<noteq> t0"
    using fresh [OF p0(3)] p0(1) by auto
  then have p0': "table_at T1 root p0 = Some t0" "T1 t0 = Some tab0"
    using p0 same by (simp_all add: T1_def)
  have wf': "wf_tables T1 root"
    using wf unfolding wf_tables_def by (simp add: same) (auto simp: T1_def)
  have "table_at (T1(t0 \<mapsto> tab0(i := e))) root p = (if p = p0 @ [i] then Some n else table_at T root p)"
  proof (cases "take (Suc (length p0)) p = p0 @ [i]")
    case False
    then have "p \<noteq> p0 @ [i]"
      by auto
    then show ?thesis
      using table_at_upd_other [OF wf' p0' p0(3) p False, of e] same [OF p] by simp
  next
    case True
    then obtain q where q: "p = p0 @ i # q"
      by (rule take_Suc_split)
    have "table_at T root p = None"
      using p0 old by (simp add: q table_at_append)
    moreover have "\<not> IS_PRESENT 0"
      by (simp add: IS_PRESENT_def)
    then have "table_at (T1(t0 \<mapsto> tab0(i := e))) n q = (if q = [] then Some n else None)"
      using \<open>n \<noteq> t0\<close> by (cases q) (simp_all add: T1_def)
    ultimately show ?thesis
      unfolding q using table_at_through [OF wf' p0' p0(3), of i e q] new by simp
  qed
  then show ?thesis
    by (simp only: T1_def)
qed

section \<open>Bits of entries\<close>

lemma bit_PAGE_ADDRESS_MASK: "bit PAGE_ADDRESS_MASK n \<longleftrightarrow> 12 \<le> n \<and> n < 52"
proof -
  have eq: "PAGE_ADDRESS_MASK = push_bit 12 (mask 40)"
    by (simp add: PAGE_ADDRESS_MASK_def mask_eq_exp_minus_1 push_bit_eq_mult)
  show ?thesis
    unfolding eq by (auto simp: bit_simps)
qed

lemma IS_PRESENT_bit: "IS_PRESENT e \<longleftrightarrow> bit e 0"
  using and_exp_eq_0_iff_not_bit [of e 0] by (simp add: IS_PRESENT_def PAGE_PRESENT_def)

lemma IS_LARGE_PAGE_bit: "IS_LARGE_PAGE e \<longleftrightarrow> bit e 7"
  using and_exp_eq_0_iff_not_bit [of e 7] by (simp add: IS_LARGE_PAGE_def PAGE_LARGE_PAGE_def)

text \<open>Flags that make an entry point to a table or a small page.\<close>

definition table_flags :: "u64 \<Rightarrow> bool" where
  "table_flags f \<longleftrightarrow> f AND PAGE_ADDRESS_MASK = 0 \<and> IS_PRESENT f \<and> \<not> IS_LARGE_PAGE f"

lemma and_mask_zero_iff: "f AND PAGE_ADDRESS_MASK = 0 \<longleftrightarrow> (\<forall>n. 12 \<le> n \<longrightarrow> n < 52 \<longrightarrow> \<not> bit f n)"
proof
  assume "f AND PAGE_ADDRESS_MASK = 0"
  then have "bit (f AND PAGE_ADDRESS_MASK) n \<longleftrightarrow> bit (0 :: u64) n" for n
    by simp
  then show "\<forall>n. 12 \<le> n \<longrightarrow> n < 52 \<longrightarrow> \<not> bit f n"
    by (auto simp: bit_and_iff bit_PAGE_ADDRESS_MASK)
next
  assume "\<forall>n. 12 \<le> n \<longrightarrow> n < 52 \<longrightarrow> \<not> bit f n"
  then show "f AND PAGE_ADDRESS_MASK = 0"
    by (intro bit_word_eqI) (auto simp: bit_and_iff bit_PAGE_ADDRESS_MASK)
qed

lemma address_of_entry:
  assumes "f AND PAGE_ADDRESS_MASK = 0"
  shows "((x AND PAGE_ADDRESS_MASK) OR f) AND PAGE_ADDRESS_MASK = x AND PAGE_ADDRESS_MASK"
  using assms by (intro bit_word_eqI) (auto simp: and_mask_zero_iff bit_simps bit_PAGE_ADDRESS_MASK)

lemma entry_present: "table_flags f \<Longrightarrow> IS_PRESENT ((x AND PAGE_ADDRESS_MASK) OR f)"
  by (simp add: table_flags_def IS_PRESENT_bit bit_simps)

lemma entry_not_large: "table_flags f \<Longrightarrow> \<not> IS_LARGE_PAGE ((x AND PAGE_ADDRESS_MASK) OR f)"
  by (simp add: table_flags_def IS_LARGE_PAGE_bit bit_simps bit_PAGE_ADDRESS_MASK)

lemma table_flags_intermediate: "table_flags f \<Longrightarrow> table_flags (intermediate_page_flags f)"
proof -
  assume f: "table_flags f"
  have "(PAGE_NO_EXECUTE OR PAGE_CACHE_DISABLE OR PAGE_WRITE_THROUGH) = 0x8000000000000018"
    by (simp add: page_bits)
  moreover have "\<not> bit (0x8000000000000018 :: u64) 0"
    by simp
  ultimately have "\<not> bit (PAGE_NO_EXECUTE OR PAGE_CACHE_DISABLE OR PAGE_WRITE_THROUGH) 0"
    by (simp only: not_False_eq_True)
  with f show ?thesis
    unfolding table_flags_def IS_PRESENT_bit IS_LARGE_PAGE_bit and_mask_zero_iff intermediate_page_flags_def
    by (simp add: bit_and_iff bit_or_iff bit_not_iff)
qed

lemma table_flags_page_flags: "table_flags (mmu_page_flags address flags)"
  by (cases "flags AND V_ADDR_REGION_WRITABLE = 0"; cases "NOT flags AND V_ADDR_REGION_EXECUTABLE = 0";
      cases "flags AND V_ADDR_REGION_DISABLE_CACHE = 0"; cases "arch_is_kernel_pointer address";
      simp only: table_flags_def mmu_page_flags_def Let_def if_True if_False not_True_eq_False not_False_eq_True;
      simp add: IS_PRESENT_def IS_LARGE_PAGE_def page_bits)

lemma not_present_0 [simp]: "\<not> IS_PRESENT 0"
  by (simp add: IS_PRESENT_def)

lemma not_large_0 [simp]: "\<not> IS_LARGE_PAGE 0"
  by (simp add: IS_LARGE_PAGE_def)

lemma next_table_entry:
  "f AND PAGE_ADDRESS_MASK = 0 \<Longrightarrow> next_table ((x AND PAGE_ADDRESS_MASK) OR f) = next_table x"
  by (simp add: next_table_def address_of_entry)

section \<open>Effect of the three kinds of writes on the tree\<close>

lemma wf_dom: "wf_tables T root \<Longrightarrow> length p \<le> 3 \<Longrightarrow> table_at T root p = Some t \<Longrightarrow> \<exists>tab. T t = Some tab"
  unfolding wf_tables_def by blast

lemma wf_inj:
  "wf_tables T root \<Longrightarrow> length p \<le> 3 \<Longrightarrow> length q \<le> 3 \<Longrightarrow> table_at T root p = Some t \<Longrightarrow>
     table_at T root q = Some t \<Longrightarrow> p = q"
  unfolding wf_tables_def by blast

text \<open>A write that leaves every table where it was.\<close>

lemma same_tables_wf:
  assumes "wf_tables T root" "T t0 = Some tab0"
    and "\<And>p. length p \<le> 3 \<Longrightarrow> table_at (T(t0 \<mapsto> tab0(i := e))) root p = table_at T root p"
  shows "wf_tables (T(t0 \<mapsto> tab0(i := e))) root"
  using assms unfolding wf_tables_def by auto

lemma same_tables_entry:
  assumes wf: "wf_tables T root" and p0: "table_at T root p0 = Some t0" "T t0 = Some tab0" "length p0 \<le> 3"
    and same: "\<And>p. length p \<le> 3 \<Longrightarrow> table_at (T(t0 \<mapsto> tab0(i := e))) root p = table_at T root p"
    and p: "length p \<le> 3"
  shows "entry_at (T(t0 \<mapsto> tab0(i := e))) root p j = (if p = p0 \<and> j = i then Some e else entry_at T root p j)"
proof (cases "table_at T root p")
  case None
  then show ?thesis
    using p0 same [OF p] by (auto simp: entry_at_def)
next
  case (Some t)
  have "t = t0 \<longleftrightarrow> p = p0"
    using wf_inj [OF wf p p0(3) _ p0(1)] Some p0(1) by auto
  then show ?thesis
    using Some p0 same [OF p] by (auto simp: entry_at_def)
qed

lemma grow_wf:
  assumes wf: "wf_tables T root" and p0: "table_at T root p0 = Some t0" "T t0 = Some tab0" "length p0 < 3"
    and old: "\<not> IS_PRESENT (tab0 i)" and fresh: "\<And>p. length p \<le> 3 \<Longrightarrow> table_at T root p \<noteq> Some n"
    and new: "IS_PRESENT e" "\<not> IS_LARGE_PAGE e" "next_table e = n"
  shows "wf_tables (T(n \<mapsto> (\<lambda>_. 0), t0 \<mapsto> tab0(i := e))) root" (is "wf_tables ?T root")
proof -
  have at: "table_at ?T root p = (if p = p0 @ [i] then Some n else table_at T root p)" if "length p \<le> 3" for p
    using table_at_grow [OF wf p0(1,2) _ old fresh new that] p0(3) by simp
  have "n \<noteq> t0"
    using fresh [of p0] p0 by auto
  have "t \<in> dom ?T" if "length p \<le> 3" "table_at ?T root p = Some t" for p t
    using that wf_dom [OF wf that(1)] by (auto simp: at split: if_splits)
  moreover have "p = q" if "length p \<le> 3" "length q \<le> 3" "table_at ?T root p = Some t" "table_at ?T root q = Some t" for p q t
    using that fresh wf_inj [OF wf that(1,2)] by (auto simp: at split: if_splits)
  ultimately show ?thesis
    unfolding wf_tables_def by blast
qed

lemma grow_entry:
  assumes wf: "wf_tables T root" and p0: "table_at T root p0 = Some t0" "T t0 = Some tab0" "length p0 < 3"
    and old: "\<not> IS_PRESENT (tab0 i)" and fresh: "\<And>p. length p \<le> 3 \<Longrightarrow> table_at T root p \<noteq> Some n"
    and new: "IS_PRESENT e" "\<not> IS_LARGE_PAGE e" "next_table e = n" and p: "length p \<le> 3"
  shows "entry_at (T(n \<mapsto> (\<lambda>_. 0), t0 \<mapsto> tab0(i := e))) root p j =
    (if p = p0 \<and> j = i then Some e else if p = p0 @ [i] then Some 0 else entry_at T root p j)"
proof -
  have "n \<noteq> t0"
    using fresh [of p0] p0 by auto
  have le: "length p0 \<le> 3"
    using p0(3) by simp
  note at = table_at_grow [OF wf p0(1,2) le old fresh new p]
  show ?thesis
  proof (cases "p = p0 @ [i]")
    case True
    then show ?thesis
      using at \<open>n \<noteq> t0\<close> by (simp add: entry_at_def)
  next
    case False
    show ?thesis
    proof (cases "table_at T root p")
      case None
      then show ?thesis
        using p0 False at by (auto simp: entry_at_def)
    next
      case (Some t)
      have "t = t0 \<longleftrightarrow> p = p0"
        using wf_inj [OF wf p le _ p0(1)] Some p0(1) by auto
      moreover have "t \<noteq> n"
        using fresh [OF p] Some by auto
      ultimately show ?thesis
        using Some p0 at False by (auto simp: entry_at_def)
    qed
  qed
qed

section \<open>Page-table memory\<close>

text \<open>
  The free pages of the physical memory manager can become tables: their addresses are page
  aligned and in the address field of an entry, different pages have different addresses, and
  none of them is a table of the tree already.
\<close>

definition mmu_inv :: "mmu \<Rightarrow> ptr \<Rightarrow> ptr list \<Rightarrow> bool" where
  "mmu_inv s root ps \<longleftrightarrow> pmm_inv (mm_pmm s) ps \<and> wf_tables (mm_tables s) root \<and>
     (\<forall>a \<in> set ps. \<forall>x st. page_core (pm_pages (mm_pmm s)) a = Some (x, st) \<longrightarrow>
        x AND PAGE_ADDRESS_MASK = x \<and> x \<noteq> 0 \<and>
        (\<forall>p. length p \<le> 3 \<longrightarrow> table_at (mm_tables s) root p \<noteq> Some (p_addr_to_physical_map x))) \<and>
     (\<forall>a \<in> set ps. \<forall>b \<in> set ps. \<forall>x st st'. page_core (pm_pages (mm_pmm s)) a = Some (x, st) \<longrightarrow>
        page_core (pm_pages (mm_pmm s)) b = Some (x, st') \<longrightarrow> a = b)"

lemma mmu_inv_wf: "mmu_inv s root ps \<Longrightarrow> wf_tables (mm_tables s) root"
  by (simp add: mmu_inv_def)

lemma mmu_inv_frame:
  "mmu_inv s root ps \<Longrightarrow> a \<in> set ps \<Longrightarrow> page_core (pm_pages (mm_pmm s)) a = Some (x, st) \<Longrightarrow>
     x AND PAGE_ADDRESS_MASK = x \<and> x \<noteq> 0 \<and>
     (\<forall>p. length p \<le> 3 \<longrightarrow> table_at (mm_tables s) root p \<noteq> Some (p_addr_to_physical_map x))"
  unfolding mmu_inv_def by blast

lemma mmu_inv_frame_inj:
  "mmu_inv s root ps \<Longrightarrow> a \<in> set ps \<Longrightarrow> b \<in> set ps \<Longrightarrow> page_core (pm_pages (mm_pmm s)) a = Some (x, st) \<Longrightarrow>
     page_core (pm_pages (mm_pmm s)) b = Some (x, st') \<Longrightarrow> a = b"
  unfolding mmu_inv_def by blast

text \<open>Changing entries without moving or adding tables keeps the invariant.\<close>

lemma mmu_inv_same_tables:
  assumes "mmu_inv s root ps" and "wf_tables T' root"
    and "\<And>p. length p \<le> 3 \<Longrightarrow> table_at T' root p = table_at (mm_tables s) root p"
  shows "mmu_inv (s\<lparr>mm_tables := T'\<rparr>) root ps"
  using assms by (simp add: mmu_inv_def)

lemma paging_allocate_table_ok:
  assumes inv: "mmu_inv s root (a # b # ps)"
  obtains x p where "paging_allocate_table s = Ret (p_addr_to_physical_map x,
      s\<lparr>mm_pmm := p, mm_tables := (mm_tables s)(p_addr_to_physical_map x \<mapsto> (\<lambda>_. 0))\<rparr>)"
    and "pmm_inv p (b # ps)" and "x AND PAGE_ADDRESS_MASK = x" "x \<noteq> 0"
    and "\<And>q. length q \<le> 3 \<Longrightarrow> table_at (mm_tables s) root q \<noteq> Some (p_addr_to_physical_map x)"
    and "\<And>c y st. c \<in> set (b # ps) \<Longrightarrow> page_core (pm_pages p) c = Some (y, st) \<Longrightarrow>
           y \<noteq> x \<and> page_core (pm_pages (mm_pmm s)) c = Some (y, st)"
proof -
  have pi: "pmm_inv (mm_pmm s) (a # b # ps)"
    using inv by (simp add: mmu_inv_def)
  obtain p where p: "pmm_allocate_page (mm_pmm s) = Ret (IR_OK, a, p)" "pmm_inv p (b # ps)"
      "page_core (pm_pages p) = used_core {a} (page_core (pm_pages (mm_pmm s)))"
    using pmm_allocate_page_refine [OF pi] by blast
  have "a \<in> dom (pm_pages (mm_pmm s))"
    using free_rep_dom [OF pmm_inv_free_rep [OF pi]] by simp
  then obtain x st where core: "page_core (pm_pages (mm_pmm s)) a = Some (x, st)"
    unfolding dom_page_core [symmetric] by auto
  then have "page_core (pm_pages p) a = Some (x, PAGE_STATE_USED)"
    unfolding p(3) used_core_def by simp
  then obtain pg where pg: "pm_pages p a = Some pg" "pg_address pg = x"
    using page_core_SomeD by blast
  have new: "a \<notin> set (b # ps)"
    using pmm_inv_distinct [OF pi] by simp
  show thesis
  proof (rule that)
    show "paging_allocate_table s = Ret (p_addr_to_physical_map x,
        s\<lparr>mm_pmm := p, mm_tables := (mm_tables s)(p_addr_to_physical_map x \<mapsto> (\<lambda>_. 0))\<rparr>)"
      using p(1) pg by (simp add: paging_allocate_table_def Let_def)
    show "y \<noteq> x \<and> page_core (pm_pages (mm_pmm s)) c = Some (y, st')"
      if c: "c \<in> set (b # ps)" "page_core (pm_pages p) c = Some (y, st')" for c y st'
    proof -
      have "c \<noteq> a"
        using c(1) new by auto
      then have old: "page_core (pm_pages (mm_pmm s)) c = Some (y, st')"
        using c(2) unfolding p(3) used_core_def by simp
      moreover have "y \<noteq> x"
      proof
        assume "y = x"
        then have "c = a"
          using mmu_inv_frame_inj [OF inv, of c a x st' st] c(1) core old by simp
        then show False
          using \<open>c \<noteq> a\<close> by simp
      qed
      ultimately show ?thesis
        by simp
    qed
  qed (use p(2) inv core in \<open>auto simp: mmu_inv_def\<close>)
qed

section \<open>Walking down while mapping\<close>

text \<open>
  What one level of the descent does to the tree: entry \<open>i\<close> of the table at \<open>p0\<close> gets the flags
  \<open>f\<close> and keeps its address if it had one; the table behind it exists afterwards; nothing else
  changes.
\<close>

definition level_mapped :: "table_store \<Rightarrow> table_store \<Rightarrow> ptr \<Rightarrow> nat list \<Rightarrow> nat \<Rightarrow> u64 \<Rightarrow> bool" where
  "level_mapped T T' root p0 i f \<longleftrightarrow>
     (\<exists>e. entry_at T' root p0 i = Some e \<and> e AND NOT PAGE_ADDRESS_MASK = f \<and>
        (\<forall>e0. entry_at T root p0 i = Some e0 \<longrightarrow> IS_PRESENT e0 \<longrightarrow> e AND PAGE_ADDRESS_MASK = e0 AND PAGE_ADDRESS_MASK)) \<and>
     (\<forall>p j. length p \<le> 3 \<longrightarrow> (p, j) \<noteq> (p0, i) \<longrightarrow> entry_at T' root p j =
        (if p = p0 @ [i] \<and> entry_at T root p j = None then Some 0 else entry_at T root p j))"

lemma entry_flags:
  assumes "f AND PAGE_ADDRESS_MASK = 0"
  shows "((x AND PAGE_ADDRESS_MASK) OR f) AND NOT PAGE_ADDRESS_MASK = f"
  using assms by (intro bit_word_eqI) (auto simp: and_mask_zero_iff bit_simps bit_PAGE_ADDRESS_MASK)

lemma reflag_level:
  assumes inv: "mmu_inv s root ps" and p0: "table_at (mm_tables s) root p0 = Some t0" "length p0 < 3"
    and tab: "mm_tables s t0 = Some tab0" and old: "IS_PRESENT (tab0 i)" and nl: "\<not> IS_LARGE_PAGE (tab0 i)"
    and f: "table_flags f"
  defines "e \<equiv> (tab0 i AND PAGE_ADDRESS_MASK) OR f"
  defines "T' \<equiv> (mm_tables s)(t0 \<mapsto> tab0(i := e))"
  shows "mmu_inv (s\<lparr>mm_tables := T'\<rparr>) root ps \<and> table_at T' root (p0 @ [i]) = Some (next_table e) \<and>
    level_mapped (mm_tables s) T' root p0 i f"
proof -
  define T where "T = mm_tables s"
  have wf: "wf_tables T root" and le: "length p0 \<le> 3"
    using mmu_inv_wf [OF inv] p0(2) by (simp_all add: T_def)
  have p0': "table_at T root p0 = Some t0" and tab': "T t0 = Some tab0"
    using p0 tab by (simp_all add: T_def)
  have fm: "f AND PAGE_ADDRESS_MASK = 0"
    using f by (simp add: table_flags_def)
  have new: "IS_PRESENT e" "\<not> IS_LARGE_PAGE e" "next_table e = next_table (tab0 i)"
    unfolding e_def using f fm by (simp_all add: entry_present entry_not_large next_table_entry)
  have same: "table_at T' root p = table_at T root p" if "length p \<le> 3" for p
    unfolding T'_def T_def [symmetric] by (rule table_at_reflag [OF wf p0' tab' le old nl new that])
  have wf': "wf_tables T' root"
    unfolding T'_def T_def [symmetric]
    by (rule same_tables_wf [OF wf tab']) (use same in \<open>simp add: T'_def T_def [symmetric]\<close>)
  have ent: "entry_at T' root p j = (if p = p0 \<and> j = i then Some e else entry_at T root p j)" if "length p \<le> 3" for p j
    unfolding T'_def T_def [symmetric]
    by (rule same_tables_entry [OF wf p0' tab' le _ that]) (use same in \<open>simp add: T'_def T_def [symmetric]\<close>)
  have next_at: "table_at T root (p0 @ [i]) = Some (next_table e)"
    using p0' tab' old nl new by (simp add: table_at_append)
  have len: "length (p0 @ [i]) \<le> 3"
    using p0(2) by simp
  obtain tabn where "T (next_table e) = Some tabn"
    using wf_dom [OF wf len next_at] by blast
  then have exists: "entry_at T root (p0 @ [i]) j \<noteq> None" for j
    using next_at by (simp add: entry_at_def)
  have "mmu_inv (s\<lparr>mm_tables := T'\<rparr>) root ps"
    using inv wf' same by (intro mmu_inv_same_tables) (simp_all add: T_def)
  moreover have "entry_at T root p0 i = Some (tab0 i)"
    using p0' tab' by (simp add: entry_at_def)
  then have "level_mapped T T' root p0 i f"
    unfolding level_mapped_def using le
    by (simp add: ent e_def entry_flags [OF fm] address_of_entry [OF fm]) (metis exists)
  ultimately show ?thesis
    using same [OF len] next_at by (simp add: T_def)
qed

lemma grow_level:
  assumes inv: "mmu_inv s root (a # b # ps)" and p0: "table_at (mm_tables s) root p0 = Some t0" "length p0 < 3"
    and tab: "mm_tables s t0 = Some tab0" and old: "\<not> IS_PRESENT (tab0 i)" and f: "table_flags f"
    and x: "x AND PAGE_ADDRESS_MASK = x"
      "\<And>q. length q \<le> 3 \<Longrightarrow> table_at (mm_tables s) root q \<noteq> Some (p_addr_to_physical_map x)"
    and pmm: "pmm_inv p (b # ps)" "\<And>c y st. c \<in> set (b # ps) \<Longrightarrow> page_core (pm_pages p) c = Some (y, st) \<Longrightarrow>
           y \<noteq> x \<and> page_core (pm_pages (mm_pmm s)) c = Some (y, st)"
  defines "e \<equiv> x OR f"
  defines "T' \<equiv> (mm_tables s)(p_addr_to_physical_map x \<mapsto> (\<lambda>_. 0), t0 \<mapsto> tab0(i := e))"
  shows "mmu_inv (s\<lparr>mm_pmm := p, mm_tables := T'\<rparr>) root (b # ps) \<and>
    table_at T' root (p0 @ [i]) = Some (next_table e) \<and> level_mapped (mm_tables s) T' root p0 i f"
proof -
  define T where "T = mm_tables s"
  define n where "n = p_addr_to_physical_map x"
  have wf: "wf_tables T root" and le: "length p0 \<le> 3" and len: "length (p0 @ [i]) \<le> 3"
    using mmu_inv_wf [OF inv] p0(2) by (simp_all add: T_def)
  have p0': "table_at T root p0 = Some t0" and tab': "T t0 = Some tab0"
    and fresh: "\<And>q. length q \<le> 3 \<Longrightarrow> table_at T root q \<noteq> Some n"
    using p0 tab x(2) by (simp_all add: T_def n_def)
  have fm: "f AND PAGE_ADDRESS_MASK = 0"
    using f by (simp add: table_flags_def)
  have e: "e = (x AND PAGE_ADDRESS_MASK) OR f"
    using x(1) by (simp add: e_def)
  have new: "IS_PRESENT e" "\<not> IS_LARGE_PAGE e" "next_table e = n"
    unfolding e n_def next_table_entry [OF fm] using f
    by (simp_all only: entry_present entry_not_large not_False_eq_True)
       (simp add: next_table_def p_addr_to_physical_map_def x(1))
  have T': "T' = T(n \<mapsto> (\<lambda>_. 0), t0 \<mapsto> tab0(i := e))"
    by (simp add: T'_def T_def n_def)
  have at: "table_at T' root q = (if q = p0 @ [i] then Some n else table_at T root q)" if "length q \<le> 3" for q
    unfolding T' by (rule table_at_grow [OF wf p0' tab' le old fresh new that])
  have wf': "wf_tables T' root"
    unfolding T' by (rule grow_wf [OF wf p0' tab' p0(2) old fresh new])
  have ent: "entry_at T' root q j =
      (if q = p0 \<and> j = i then Some e else if q = p0 @ [i] then Some 0 else entry_at T root q j)"
    if "length q \<le> 3" for q j
    unfolding T' by (rule grow_entry [OF wf p0' tab' p0(2) old fresh new that])
  have old_e: "entry_at T root p0 i = Some (tab0 i)" "entry_at T root (p0 @ [i]) j = None" for j
    using p0' tab' old by (simp_all add: entry_at_def table_at_append)
  have "level_mapped T T' root p0 i f"
    unfolding level_mapped_def using le old entry_flags [OF fm, of x, folded e]
    by (simp add: ent old_e)
  moreover have "mmu_inv (s\<lparr>mm_pmm := p, mm_tables := T'\<rparr>) root (b # ps)"
  proof -
    have "p_addr_to_physical_map y \<noteq> n"
      if "c \<in> set (b # ps)" "page_core (pm_pages p) c = Some (y, st)" for c y st
      using pmm(2) [OF that] by (simp add: n_def p_addr_to_physical_map_def)
    moreover have "y AND PAGE_ADDRESS_MASK = y \<and> y \<noteq> 0 \<and>
        (\<forall>q. length q \<le> 3 \<longrightarrow> table_at T root q \<noteq> Some (p_addr_to_physical_map y))"
      if "c \<in> set (b # ps)" "page_core (pm_pages p) c = Some (y, st)" for c y st
      using mmu_inv_frame [OF inv, of c y st] pmm(2) [OF that] that(1) by (simp add: T_def)
    moreover have "c = d" if "c \<in> set (b # ps)" "d \<in> set (b # ps)"
      "page_core (pm_pages p) c = Some (y, st)" "page_core (pm_pages p) d = Some (y, st')" for c d y st st'
      using mmu_inv_frame_inj [OF inv, of c d y st st'] pmm(2) [OF that(1,3)] pmm(2) [OF that(2,4)] that(1,2)
      by simp
    ultimately show ?thesis
      using pmm wf' by (auto simp: mmu_inv_def at simp del: list.set)
  qed
  ultimately show ?thesis
    using at [OF len] new(3) by (simp add: T_def)
qed

lemma paging_map_level_ok:
  fixes va :: u64
  assumes inv: "mmu_inv s root ps" and len: "2 \<le> length ps" and f: "table_flags f"
    and p0: "table_at (mm_tables s) root p0 = Some t0" "length p0 + level = 3" "0 < level"
    and small: "\<And>e. entry_at (mm_tables s) root p0 (INDEX_AT_LEVEL va level) = Some e \<Longrightarrow> \<not> IS_LARGE_PAGE e"
  defines "i \<equiv> INDEX_AT_LEVEL va level"
  shows "\<exists>n s' k. paging_map_level va pa f False level t0 s = Ret (Inr n, s') \<and> k \<le> 1 \<and>
    mmu_inv s' root (drop k ps) \<and> table_at (mm_tables s') root (p0 @ [i]) = Some n \<and>
    level_mapped (mm_tables s) (mm_tables s') root p0 i (intermediate_page_flags f) \<and>
    no_execute_supported s' = no_execute_supported s"
proof -
  define g where "g = intermediate_page_flags f"
  have g: "table_flags g"
    using f by (simp add: g_def table_flags_intermediate)
  have lt: "length p0 < 3"
    using p0 by simp
  obtain tab0 where tab0: "mm_tables s t0 = Some tab0"
    using wf_dom [OF mmu_inv_wf [OF inv] _ p0(1)] lt by auto
  have nl: "\<not> IS_LARGE_PAGE (tab0 i)"
    using small p0(1) tab0 by (simp add: entry_at_def i_def)
  show ?thesis
  proof (cases "IS_PRESENT (tab0 i)")
    case True
    define e where "e = (tab0 i AND PAGE_ADDRESS_MASK) OR g"
    have "paging_map_level va pa f False level t0 s =
        Ret (Inr (next_table e), s\<lparr>mm_tables := (mm_tables s)(t0 \<mapsto> tab0(i := e))\<rparr>)"
      using tab0 nl True unfolding paging_map_level_def i_def [symmetric]
      by (simp add: get_entry_def set_entry_def Let_def e_def g_def next_table_def)
    then show ?thesis
      using reflag_level [OF inv p0(1) lt tab0 True nl g] inv unfolding e_def [symmetric] g_def [symmetric]
      by (intro exI [of _ "next_table e"] exI [of _ "s\<lparr>mm_tables := (mm_tables s)(t0 \<mapsto> tab0(i := e))\<rparr>"] exI [of _ 0])
        simp
  next
    case False
    obtain a b qs where ps: "ps = a # b # qs"
      using len by (cases ps; cases "tl ps") auto
    obtain x p where alloc: "paging_allocate_table s = Ret (p_addr_to_physical_map x,
        s\<lparr>mm_pmm := p, mm_tables := (mm_tables s)(p_addr_to_physical_map x \<mapsto> (\<lambda>_. 0))\<rparr>)"
      and p: "pmm_inv p (b # qs)" and x: "x AND PAGE_ADDRESS_MASK = x" "x \<noteq> 0"
        "\<And>q. length q \<le> 3 \<Longrightarrow> table_at (mm_tables s) root q \<noteq> Some (p_addr_to_physical_map x)"
      and core: "\<And>c y st. c \<in> set (b # qs) \<Longrightarrow> page_core (pm_pages p) c = Some (y, st) \<Longrightarrow>
           y \<noteq> x \<and> page_core (pm_pages (mm_pmm s)) c = Some (y, st)"
      by (rule paging_allocate_table_ok [OF inv [unfolded ps]]) (rule that, assumption+)
    define e where "e = x OR g"
    define s' where "s' = s\<lparr>mm_pmm := p,
      mm_tables := (mm_tables s)(p_addr_to_physical_map x \<mapsto> (\<lambda>_. 0), t0 \<mapsto> tab0(i := e))\<rparr>"
    have ne: "p_addr_to_physical_map x \<noteq> t0"
      using x(3) [of p0] p0(1) lt by auto
    have nz: "p_addr_to_physical_map x \<noteq> physical_map_base"
      using x(2) by (simp add: p_addr_to_physical_map_def)
    have sub: "p_addr_to_physical_map x - physical_map_base = x"
      by (simp add: p_addr_to_physical_map_def)
    have e: "(x AND PAGE_ADDRESS_MASK) OR g = e" "e AND PAGE_ADDRESS_MASK = x"
      using address_of_entry [of g x] g x(1) by (simp_all add: e_def table_flags_def)
    have "paging_map_level va pa f False level t0 s = Ret (Inr (next_table e), s')"
      using tab0 nl False ne nz x(1,2) alloc e unfolding paging_map_level_def i_def [symmetric]
      by (simp add: get_entry_def set_entry_def Let_def sub g_def [symmetric] next_table_def s'_def del: physical_map_base_def)
    moreover have "mmu_inv s' root (b # qs) \<and> table_at (mm_tables s') root (p0 @ [i]) = Some (next_table e) \<and>
        level_mapped (mm_tables s) (mm_tables s') root p0 i g \<and> no_execute_supported s' = no_execute_supported s"
    proof -
      note grow = grow_level [of s root a b qs p0 t0 tab0 i g x p, OF inv [unfolded ps] p0(1) lt tab0 False g x(1) x(3) p core]
      have "mm_tables s' = (mm_tables s)(p_addr_to_physical_map x \<mapsto> (\<lambda>_. 0), t0 \<mapsto> tab0(i := e))"
        "no_execute_supported s' = no_execute_supported s"
        by (simp_all add: s'_def)
      then show ?thesis
        using grow unfolding e_def [symmetric] s'_def [symmetric] by (simp only: simp_thms)
    qed
    moreover have "drop 1 ps = b # qs"
      by (simp add: ps)
    ultimately show ?thesis
      unfolding g_def [symmetric] by (intro exI [of _ "next_table e"] exI [of _ s'] exI [of _ 1]) simp
  qed
qed

text \<open>The path from the root to the lowest table of an address, and the effect of a whole descent.\<close>

definition walk :: "u64 \<Rightarrow> nat list" where
  "walk va = [INDEX_AT_LEVEL va 3, INDEX_AT_LEVEL va 2, INDEX_AT_LEVEL va 1]"

text \<open>No entry on the path to the lowest table, from table number \<open>lo\<close> on, maps a large page.\<close>

definition small_from :: "nat \<Rightarrow> table_store \<Rightarrow> ptr \<Rightarrow> u64 \<Rightarrow> bool" where
  "small_from lo T root va \<longleftrightarrow> (\<forall>k e. lo \<le> k \<longrightarrow> k < 3 \<longrightarrow>
     entry_at T root (take k (walk va)) (walk va ! k) = Some e \<longrightarrow> \<not> IS_LARGE_PAGE e)"

abbreviation small_walk :: "table_store \<Rightarrow> ptr \<Rightarrow> u64 \<Rightarrow> bool" where
  "small_walk \<equiv> small_from 0"

definition on_walk :: "nat \<Rightarrow> nat list \<Rightarrow> nat list \<Rightarrow> nat \<Rightarrow> bool" where
  "on_walk lo q p j \<longleftrightarrow> lo \<le> length p \<and> length p < length q \<and> p = take (length p) q \<and> j = q ! length p"

definition walk_mapped :: "nat \<Rightarrow> nat list \<Rightarrow> u64 \<Rightarrow> table_store \<Rightarrow> table_store \<Rightarrow> ptr \<Rightarrow> bool" where
  "walk_mapped lo q f T T' root \<longleftrightarrow> (\<forall>p j. length p \<le> 3 \<longrightarrow>
     (if on_walk lo q p j
      then \<exists>e. entry_at T' root p j = Some e \<and> e AND NOT PAGE_ADDRESS_MASK = f \<and>
        (\<forall>e0. entry_at T root p j = Some e0 \<longrightarrow> IS_PRESENT e0 \<longrightarrow> e AND PAGE_ADDRESS_MASK = e0 AND PAGE_ADDRESS_MASK)
      else entry_at T' root p j =
        (if p = take (length p) q \<and> entry_at T root p j = None then Some 0 else entry_at T root p j)))"

lemma walk_mapped_step:
  assumes l: "level_mapped T T1 root (take lo q) (q ! lo) f" and w: "walk_mapped (Suc lo) q f T1 T2 root"
    and lo: "lo < length q" "length q = 3"
  shows "walk_mapped lo q f T T2 root"
  unfolding walk_mapped_def
proof (intro allI impI)
  fix p j assume p: "length (p :: nat list) \<le> 3"
  note w' = w [unfolded walk_mapped_def, rule_format, OF p, of j]
  show "if on_walk lo q p j
      then \<exists>e. entry_at T2 root p j = Some e \<and> e AND NOT PAGE_ADDRESS_MASK = f \<and>
        (\<forall>e0. entry_at T root p j = Some e0 \<longrightarrow> IS_PRESENT e0 \<longrightarrow> e AND PAGE_ADDRESS_MASK = e0 AND PAGE_ADDRESS_MASK)
      else entry_at T2 root p j =
        (if p = take (length p) q \<and> entry_at T root p j = None then Some 0 else entry_at T root p j)"
  proof (cases "p = take lo q \<and> j = q ! lo")
    case True
    then have "on_walk lo q p j" "\<not> on_walk (Suc lo) q p j"
      using lo by (auto simp: on_walk_def)
    then show ?thesis
      using w' l True by (auto simp: level_mapped_def)
  next
    case False
    then have on: "on_walk lo q p j \<longleftrightarrow> on_walk (Suc lo) q p j"
      by (auto simp: on_walk_def Suc_le_eq le_less)
    have T1: "entry_at T1 root p j =
        (if p = take lo q @ [q ! lo] \<and> entry_at T root p j = None then Some 0 else entry_at T root p j)"
      using l False p unfolding level_mapped_def by blast
    have "take lo q @ [q ! lo] = take (Suc lo) q"
      using lo by (simp add: take_Suc_conv_app_nth)
    then show ?thesis
      using w' lo unfolding on T1 by (auto split: if_splits)
  qed
qed

lemma small_from_level:
  assumes "level_mapped T T1 root (take lo (walk va)) i f" "small_from lo T root va" "lo < 3"
  shows "small_from (Suc lo) T1 root va"
  unfolding small_from_def
proof (intro allI impI)
  fix k e
  assume k: "Suc lo \<le> k" "k < 3" and e: "entry_at T1 root (take k (walk va)) (walk va ! k) = Some e"
  have "length (take k (walk va)) \<le> 3" "take k (walk va) \<noteq> take lo (walk va)"
    using k by (auto simp: walk_def dest: arg_cong [where f = length])
  then have "e = 0 \<or> entry_at T root (take k (walk va)) (walk va ! k) = Some e"
    using assms(1) e unfolding level_mapped_def by (auto split: if_splits)
  then show "\<not> IS_LARGE_PAGE e"
    using assms(2) [unfolded small_from_def, rule_format, OF Suc_leD [OF k(1)] k(2)] by auto
qed

lemma walk_mapped_refl:
  assumes "wf_tables T root" "table_at T root q = Some t" "length q = 3"
  shows "walk_mapped 3 q f T T root"
proof -
  have "entry_at T root p j \<noteq> None" if p: "p = take (length p) q" "length p \<le> 3" for p j
  proof -
    have "q = p @ drop (length p) q"
      using p(1) by (metis append_take_drop_id)
    then obtain t' where t': "table_at T root p = Some t'"
      using assms(2) by (metis option.exhaust option.simps(4) table_at_append)
    then show ?thesis
      using wf_dom [OF assms(1) p(2)] by (auto simp: entry_at_def)
  qed
  then show ?thesis
    using assms(3) by (auto simp: walk_mapped_def on_walk_def)
qed

lemma paging_map_levels_ok:
  assumes "mmu_inv s root ps" "Suc level \<le> length ps" "table_flags f" "level \<le> 3"
    and "table_at (mm_tables s) root (take (3 - level) (walk va)) = Some t0"
    and "small_from (3 - level) (mm_tables s) root va"
  shows "\<exists>n s' k. paging_map_levels level va pa f False t0 s = Ret (Inr n, s') \<and> k \<le> level \<and>
    mmu_inv s' root (drop k ps) \<and> table_at (mm_tables s') root (walk va) = Some n \<and>
    walk_mapped (3 - level) (walk va) (intermediate_page_flags f) (mm_tables s) (mm_tables s') root \<and>
    no_execute_supported s' = no_execute_supported s"
  using assms
proof (induction level arbitrary: s ps t0)
  case 0
  then have at: "table_at (mm_tables s) root (walk va) = Some t0"
    by (simp add: walk_def)
  moreover have "walk_mapped 3 (walk va) (intermediate_page_flags f) (mm_tables s) (mm_tables s) root"
    by (rule walk_mapped_refl [OF mmu_inv_wf [OF 0(1)] at]) (simp add: walk_def)
  ultimately show ?case
    using 0(1) by (intro exI [of _ t0] exI [of _ s] exI [of _ 0]) simp
next
  case (Suc level)
  define lo where "lo = 2 - level"
  have level: "level < 3" "3 - Suc level = lo" "3 - level = Suc lo" "lo < 3"
    using Suc.prems(4) by (auto simp: lo_def)
  define i where "i = walk va ! lo"
  have i: "INDEX_AT_LEVEL va (Suc level) = i"
    using level(1) by (auto simp: walk_def i_def lo_def less_Suc_eq numeral_3_eq_3 numeral_2_eq_2)
  have p0: "table_at (mm_tables s) root (take lo (walk va)) = Some t0"
    using Suc.prems(5) level by simp
  have len: "length (walk va) = 3"
    by (simp add: walk_def)
  have "length (take lo (walk va)) + Suc level = 3"
    using level len by (simp add: lo_def)
  moreover have "\<not> IS_LARGE_PAGE e" if "entry_at (mm_tables s) root (take lo (walk va)) i = Some e" for e
    using Suc.prems(6) that level(4) unfolding small_from_def level(2) i_def by blast
  ultimately  obtain n s1 k where one: "paging_map_level va pa f False (Suc level) t0 s = Ret (Inr n, s1)" "k \<le> 1"
      "mmu_inv s1 root (drop k ps)" "table_at (mm_tables s1) root (take lo (walk va) @ [i]) = Some n"
      "level_mapped (mm_tables s) (mm_tables s1) root (take lo (walk va)) i (intermediate_page_flags f)"
      "no_execute_supported s1 = no_execute_supported s"
    using paging_map_level_ok [OF Suc.prems(1) _ Suc.prems(3) p0, of "Suc level" va pa] Suc.prems(2)
    unfolding i by auto
  have "take lo (walk va) @ [i] = take (Suc lo) (walk va)"
    using level len by (simp add: i_def take_Suc_conv_app_nth)
  then have at: "table_at (mm_tables s1) root (take (3 - level) (walk va)) = Some n"
    using one(4) level by simp
  have enough: "Suc level \<le> length (drop k ps)"
    using Suc.prems(2) one(2) by (simp del: One_nat_def)
  have "small_from (3 - level) (mm_tables s1) root va"
    using small_from_level [OF one(5) Suc.prems(6) [unfolded level(2)] level(4)] level(3) by simp
  then obtain m s2 k' where two: "paging_map_levels level va pa f False n s1 = Ret (Inr m, s2)" "k' \<le> level"
      "mmu_inv s2 root (drop k' (drop k ps))" "table_at (mm_tables s2) root (walk va) = Some m"
      "walk_mapped (Suc lo) (walk va) (intermediate_page_flags f) (mm_tables s1) (mm_tables s2) root"
      "no_execute_supported s2 = no_execute_supported s1"
    using Suc.IH [OF one(3) enough Suc.prems(3) less_imp_le [OF level(1)] at] unfolding level(3) by blast
  have "walk_mapped lo (walk va) (intermediate_page_flags f) (mm_tables s) (mm_tables s2) root"
    by (rule walk_mapped_step [OF one(5) [unfolded i_def] two(5)]) (simp_all add: len level(4))
  moreover have "paging_map_levels (Suc level) va pa f False t0 s = Ret (Inr m, s2)" "k' + k \<le> Suc level"
    using one(1,2) two(1,2) by simp_all
  moreover have "mmu_inv s2 root (drop (k' + k) ps)" "no_execute_supported s2 = no_execute_supported s"
    using two(3,6) one(6) by simp_all
  ultimately show ?case
    using two(4) unfolding level(2) by blast
qed

section \<open>Translation\<close>

definition leaf_entry :: "table_store \<Rightarrow> ptr \<Rightarrow> u64 \<Rightarrow> u64 option" where
  "leaf_entry T root va = entry_at T root (walk va) (INDEX_AT_LEVEL va 0)"

text \<open>
  The entry the processor uses for an address, with its level: 0 for a page of 4 KB, 1 for one of 2 MB and 2 for one of
  1 GB. There is none when a table is missing or an entry on the way is not present.
\<close>

fun find_entry :: "(nat list \<Rightarrow> nat \<Rightarrow> u64 option) \<Rightarrow> nat list \<Rightarrow> nat list \<Rightarrow> (nat \<times> u64) option" where
  "find_entry E p [] = None"
| "find_entry E p (i # is) = (case E p i of None \<Rightarrow> None | Some e \<Rightarrow>
     if \<not> IS_PRESENT e then None
     else if is = [] then Some (0, e)
     else if IS_LARGE_PAGE e then (if length is < 3 then Some (length is, e) else None)
     else find_entry E (p @ [i]) is)"

definition translation :: "table_store \<Rightarrow> ptr \<Rightarrow> u64 \<Rightarrow> (nat \<times> u64) option" where
  "translation T root va = find_entry (entry_at T root) [] (walk va @ [INDEX_AT_LEVEL va 0])"

lemma find_entry_cong:
  assumes "\<And>k. k < length is \<Longrightarrow> E' (p @ take k is) (is ! k) = E (p @ take k is) (is ! k)"
  shows "find_entry E' p is = find_entry E p is"
  using assms
proof (induction "is" arbitrary: p)
  case (Cons i "is")
  have "E' p i = E p i"
    using Cons.prems [of 0] by simp
  moreover have "find_entry E' (p @ [i]) is = find_entry E (p @ [i]) is"
    by (rule Cons.IH) (use Cons.prems [of "Suc k" for k] in simp)
  ultimately show ?case
    by (simp split: option.split)
qed simp

lemma entry_at_below:
  assumes "\<And>e. entry_at T root p i = Some e \<Longrightarrow> \<not> IS_PRESENT e"
  shows "entry_at T root (p @ [i]) j = None"
  using assms by (auto simp: entry_at_def table_at_append split: option.splits)

lemma find_entry_small:
  assumes "\<And>e. entry_at T root p i = Some e \<Longrightarrow> \<not> IS_LARGE_PAGE e" "is \<noteq> []"
  shows "find_entry (entry_at T root) p (i # is) = find_entry (entry_at T root) (p @ [i]) is"
proof (cases "\<exists>e. entry_at T root p i = Some e \<and> IS_PRESENT e")
  case True
  then show ?thesis
    using assms by auto
next
  case False
  then have "entry_at T root (p @ [i]) j = None" for j
    by (intro entry_at_below) blast
  then have "find_entry (entry_at T root) (p @ [i]) is = None"
    by (cases "is") simp_all
  then show ?thesis
    using False by (auto split: option.splits)
qed

text \<open>
  Mapping the page with path \<open>q\<close> and lowest index \<open>i0\<close> changes no other translation: entries that were missing are 0,
  and the entries on the path point to tables.
\<close>

lemma find_entry_mapped:
  assumes q: "length q = 3"
    and new: "\<And>p j. on_walk 0 q p j \<Longrightarrow> \<exists>e. entry_at T' root p j = Some e \<and> IS_PRESENT e \<and> \<not> IS_LARGE_PAGE e"
    and other: "\<And>p j. length p \<le> 3 \<Longrightarrow> \<not> on_walk 0 q p j \<Longrightarrow> (p, j) \<noteq> (q, i0) \<Longrightarrow> entry_at T' root p j =
      (if p = take (length p) q \<and> entry_at T root p j = None then Some 0 else entry_at T root p j)"
    and small: "\<And>k e. k < 3 \<Longrightarrow> entry_at T root (take k q) (q ! k) = Some e \<Longrightarrow> \<not> IS_LARGE_PAGE e"
    and "k \<le> 3" "length js = 4 - k" "js \<noteq> drop k (q @ [i0])"
  shows "find_entry (entry_at T' root) (take k q) js = find_entry (entry_at T root) (take k q) js"
  using assms(5-)
proof (induction js arbitrary: k)
  case (Cons i r)
  let ?E = "entry_at T root" and ?E' = "entry_at T' root"
  have len: "length r = 3 - k"
    using Cons.prems by simp
  show ?case
  proof (cases "k < 3 \<and> i = q ! k")
    case True
    then have on: "on_walk 0 q (take k q) i" and snoc: "take k q @ [i] = take (Suc k) q"
      using q by (simp_all add: on_walk_def take_Suc_conv_app_nth)
    have r: "r \<noteq> []" "Suc k \<le> 3" "length r = 4 - Suc k" "r \<noteq> drop (Suc k) (q @ [i0])"
      using True len q Cons.prems(3) by (auto simp: Cons_nth_drop_Suc [symmetric] nth_append)
    have "find_entry ?E' (take k q) (i # r) = find_entry ?E' (take (Suc k) q) r"
      using new [OF on] r(1) by (auto simp: snoc)
    also have "\<dots> = find_entry ?E (take (Suc k) q) r"
      using r(2-) by (rule Cons.IH)
    also have "\<dots> = find_entry ?E (take k q) (i # r)"
      unfolding snoc [symmetric] by (rule find_entry_small [symmetric]) (use small [of k] True r(1) in auto)
    finally show ?thesis .
  next
    case False
    have off: "\<not> on_walk 0 q (take k q) i" "(take k q, i) \<noteq> (q, i0)" "length (take k q) \<le> 3"
      using False q Cons.prems len by (auto simp: on_walk_def)
    note here = other [OF off(3,1,2)]
    have "?E' (take k q @ i # take m r) (r ! m) = ?E (take k q @ i # take m r) (r ! m)" if "m < length r" for m
    proof -
      have k: "k < 3" "Suc k + m \<le> 3"
        using that len by auto
      have "(take k q @ i # take m r) ! k = i"
        using k q by (simp add: nth_append)
      then have "\<And>n. k < n \<Longrightarrow> take k q @ i # take m r \<noteq> take n q"
        using False k(1) by (metis nth_take)
      then have "take k q @ i # take m r \<noteq> take (length (take k q @ i # take m r)) q" "take k q @ i # take m r \<noteq> q"
        using k q by (simp, metis take_all_iff order.refl)
      then show ?thesis
        using k q that by (subst other) (auto simp: on_walk_def)
    qed
    then have deep: "find_entry ?E' (take k q @ [i]) r = find_entry ?E (take k q @ [i]) r"
      by (intro find_entry_cong) simp
    show ?thesis
      using here deep by (auto split: option.splits)
  qed
qed simp

definition same_page :: "u64 \<Rightarrow> u64 \<Rightarrow> bool" where
  "same_page va va' \<longleftrightarrow> walk va = walk va' \<and> INDEX_AT_LEVEL va 0 = INDEX_AT_LEVEL va' 0"

lemma INDEX_AT_LEVEL_nat: "INDEX_AT_LEVEL va l = unat va div 2 ^ (12 + l * 9) mod 512"
proof -
  have unat_lt: "unat va < 2 ^ LENGTH(64)"
    by (rule unsigned_less)
  have "(0x1ff :: u64) = mask 9"
    by (simp add: mask_eq_exp_minus_1)
  then have "drop_bit (12 + l * 9) va AND 0x1ff = take_bit 9 (drop_bit (12 + l * 9) va)"
    by (simp only: take_bit_eq_mask)
  then show ?thesis
    unfolding INDEX_AT_LEVEL_def using unat_lt
    by (simp only: unsigned_take_bit_eq unsigned_drop_bit_eq)
      (simp add: take_bit_eq_mod drop_bit_eq_div unsigned_drop_bit_eq min_def)
qed

lemma radix_512_eq:
  fixes a b c d :: nat
  assumes "b < 512" "d < 512"
  shows "512 * a + b = 512 * c + d \<longleftrightarrow> a = c \<and> b = d"
proof
  assume eq: "512 * a + b = 512 * c + d"
  have "(512 * a + b) div 512 = a" "(512 * c + d) div 512 = c" "(512 * a + b) mod 512 = b" "(512 * c + d) mod 512 = d"
    using assms by simp_all
  then show "a = c \<and> b = d"
    unfolding eq by simp
qed simp

lemma same_page_iff: "same_page va va' \<longleftrightarrow> unat va div 4096 mod 2 ^ 36 = unat va' div 4096 mod 2 ^ 36"
proof -
  have split: "x mod 2 ^ 36 = 512 * (512 * (512 * (x div 512 div 512 div 512 mod 512) + x div 512 div 512 mod 512)
      + x div 512 mod 512) + x mod 512" for x :: nat
    using mod_mult2_eq [of x 512 "512 * 512 * 512"] mod_mult2_eq [of "x div 512" 512 "512 * 512"]
      mod_mult2_eq [of "x div 512 div 512" 512 512] by simp
  have idx: "INDEX_AT_LEVEL v 0 = unat v div 4096 mod 512"
      "INDEX_AT_LEVEL v 1 = unat v div 4096 div 512 mod 512"
      "INDEX_AT_LEVEL v 2 = unat v div 4096 div 512 div 512 mod 512"
      "INDEX_AT_LEVEL v 3 = unat v div 4096 div 512 div 512 div 512 mod 512" for v
    by (simp_all add: INDEX_AT_LEVEL_nat div_mult2_eq [symmetric])
  show ?thesis
    unfolding same_page_def walk_def idx split [of "unat va div 4096"] split [of "unat va' div 4096"]
    by (simp only: radix_512_eq [OF mod_less_divisor mod_less_divisor] zero_less_numeral list.inject) blast
qed

lemma length_walk [simp]: "length (walk va) = 3"
  by (simp add: walk_def)

lemma take_walk [simp]: "take 3 (walk va) = walk va"
  by simp

lemma same_page_refl [simp]: "same_page va va"
  by (simp add: same_page_def)

lemma next_pages_differ:
  assumes "0 < k" "k < 2 ^ 36"
  shows "\<not> same_page va (va + of_nat k * PAGE_SIZE)"
proof
  assume "same_page va (va + of_nat k * PAGE_SIZE)"
  moreover have "unat (of_nat k * PAGE_SIZE) = k * 4096"
    using assms(2) unat_of_nat_u64 [of "k * 4096"] by simp
  then have "unat (va + of_nat k * PAGE_SIZE) = (unat va + k * 4096) mod 2 ^ 64"
    by (simp only: unat_word_ariths) simp
  moreover have "(x + k * 4096) mod 2 ^ 64 div 4096 mod 2 ^ 36 = (x div 4096 + k) mod 2 ^ 36" for x :: nat
  proof -
    have "(x + k * 4096) mod 2 ^ 64 = 4096 * ((x + k * 4096) div 4096 mod 2 ^ 52) + (x + k * 4096) mod 4096"
      using mod_mult2_eq [of "x + k * 4096" 4096 "2 ^ 52"] by simp
    then have "(x + k * 4096) mod 2 ^ 64 div 4096 = (x + k * 4096) div 4096 mod 2 ^ 52"
      by (simp add: div_mult_self4)
    also have "(x + k * 4096) div 4096 = x div 4096 + k"
      by simp
    finally show ?thesis
      using mod_mod_cancel [of "2 ^ 36" "2 ^ 52" "x div 4096 + k"] le_imp_power_dvd [of 36 52 "2 :: nat"] by simp
  qed
  ultimately have "unat va div 4096 mod 2 ^ 36 = (unat va div 4096 + k) mod 2 ^ 36"
    unfolding same_page_iff by simp
  then have "2 ^ 36 dvd k"
    using mod_eq_dvd_iff_nat [of "unat va div 4096" "unat va div 4096 + k" "2 ^ 36"] by simp
  then show False
    using assms by (auto dest: dvd_imp_le)
qed

text \<open>
  The effect of mapping one page: its leaf entry is the new one, the translations of all other
  pages are as before, and the entries on the way have the intermediate flags.
\<close>

definition page_mapped :: "u64 \<Rightarrow> u64 \<Rightarrow> u64 \<Rightarrow> table_store \<Rightarrow> table_store \<Rightarrow> ptr \<Rightarrow> bool" where
  "page_mapped va e f T T' root \<longleftrightarrow> leaf_entry T' root va = Some e \<and>
     (\<forall>va'. \<not> same_page va va' \<longrightarrow> translation T' root va' = translation T root va') \<and>
     (\<forall>k < 3. \<exists>d. entry_at T' root (take k (walk va)) (walk va ! k) = Some d \<and> d AND NOT PAGE_ADDRESS_MASK = f) \<and>
     (\<forall>va'. small_walk T root va' \<longrightarrow> small_walk T' root va')"

lemma flags_of_entry:
  assumes "d AND NOT PAGE_ADDRESS_MASK = f" "table_flags f"
  shows "IS_PRESENT d" "\<not> IS_LARGE_PAGE d"
  using assms by (auto simp: table_flags_def IS_PRESENT_bit IS_LARGE_PAGE_bit bit_simps bit_PAGE_ADDRESS_MASK)

lemma translation_leaf:
  assumes "leaf_entry T root va = Some e" "IS_PRESENT e"
    and "\<And>k. k < 3 \<Longrightarrow> \<exists>d. entry_at T root (take k (walk va)) (walk va ! k) = Some d \<and> IS_PRESENT d \<and> \<not> IS_LARGE_PAGE d"
  shows "translation T root va = Some (0, e)"
  using assms(1,2) assms(3) [of 0] assms(3) [of 1] assms(3) [of 2]
  by (auto simp: translation_def leaf_entry_def walk_def numeral_2_eq_2)

text \<open>In the other direction, for an address outside every large page.\<close>

lemma translation_small:
  assumes "translation T root va = Some d" "small_walk T root va"
  obtains e where "d = (0, e)" "leaf_entry T root va = Some e" "IS_PRESENT e"
proof -
  have small: "\<And>e. entry_at T root [] (INDEX_AT_LEVEL va 3) = Some e \<Longrightarrow> \<not> IS_LARGE_PAGE e"
    "\<And>e. entry_at T root [INDEX_AT_LEVEL va 3] (INDEX_AT_LEVEL va 2) = Some e \<Longrightarrow> \<not> IS_LARGE_PAGE e"
    "\<And>e. entry_at T root [INDEX_AT_LEVEL va 3, INDEX_AT_LEVEL va 2] (INDEX_AT_LEVEL va 1) = Some e \<Longrightarrow> \<not> IS_LARGE_PAGE e"
    using assms(2) [unfolded small_from_def, rule_format, of 0] assms(2) [unfolded small_from_def, rule_format, of 1]
      assms(2) [unfolded small_from_def, rule_format, of 2] by (simp_all add: walk_def numeral_2_eq_2)
  show thesis
    using assms(1) small that
    by (auto simp: translation_def leaf_entry_def walk_def split: option.splits if_splits)
qed

lemma leaf_write:
  assumes inv: "mmu_inv s root ps" and q: "table_at (mm_tables s) root q = Some t0" "length q = 3"
  shows "\<exists>s'. set_entry t0 i e s = Ret s' \<and> mmu_inv s' root ps \<and> no_execute_supported s' = no_execute_supported s \<and>
    (\<forall>p j. length p \<le> 3 \<longrightarrow> entry_at (mm_tables s') root p j =
       (if p = q \<and> j = i then Some e else entry_at (mm_tables s) root p j))"
proof -
  define T where "T = mm_tables s"
  have wf: "wf_tables T root" and at: "table_at T root q = Some t0" and le: "length q \<le> 3"
    using mmu_inv_wf [OF inv] q by (simp_all add: T_def)
  obtain tab0 where tab0: "T t0 = Some tab0"
    using wf_dom [OF wf le at] by blast
  have same: "table_at (T(t0 \<mapsto> tab0(i := e))) root p = table_at T root p" if "length p \<le> 3" for p
  proof (rule table_at_upd_other [OF wf at tab0 le that])
    have "length (take (Suc (length q)) p) \<noteq> length (q @ [i])"
      using that q(2) by simp
    then show "take (Suc (length q)) p \<noteq> q @ [i]"
      by metis
  qed
  have "wf_tables (T(t0 \<mapsto> tab0(i := e))) root"
    by (rule same_tables_wf [OF wf tab0 same]) (use at q in auto)
  then have "mmu_inv (s\<lparr>mm_tables := T(t0 \<mapsto> tab0(i := e))\<rparr>) root ps"
    using inv same by (intro mmu_inv_same_tables) (simp_all add: T_def)
  moreover have "set_entry t0 i e s = Ret (s\<lparr>mm_tables := T(t0 \<mapsto> tab0(i := e))\<rparr>)"
    using tab0 by (simp add: set_entry_def T_def)
  ultimately show ?thesis
    using same_tables_entry [OF wf at tab0 le same] by (simp add: T_def)
qed

lemma paging_map_page_ok:
  assumes inv: "mmu_inv s root ps" and len: "4 \<le> length ps" and f: "table_flags f"
    and small: "small_walk (mm_tables s) root va"
  shows "\<exists>s' k. paging_map_page root va pa f False s = Ret (IR_OK, s') \<and> k \<le> 3 \<and> mmu_inv s' root (drop k ps) \<and>
    no_execute_supported s' = no_execute_supported s \<and>
    page_mapped va (pa OR leaf_page_flags s f) (intermediate_page_flags f) (mm_tables s) (mm_tables s') root"
proof -
  define g where "g = intermediate_page_flags f"
  have "\<exists>n s1 k. paging_map_levels 3 va pa f False root s = Ret (Inr n, s1) \<and> k \<le> 3 \<and>
      mmu_inv s1 root (drop k ps) \<and> table_at (mm_tables s1) root (walk va) = Some n \<and>
      walk_mapped (3 - 3) (walk va) g (mm_tables s) (mm_tables s1) root \<and>
      no_execute_supported s1 = no_execute_supported s"
    unfolding g_def by (rule paging_map_levels_ok [OF inv _ f]) (use len small in simp_all)
  then obtain n s1 k where down: "paging_map_levels 3 va pa f False root s = Ret (Inr n, s1)" "k \<le> 3"
      "mmu_inv s1 root (drop k ps)" "table_at (mm_tables s1) root (walk va) = Some n"
      "walk_mapped 0 (walk va) g (mm_tables s) (mm_tables s1) root"
      "no_execute_supported s1 = no_execute_supported s"
    unfolding diff_self_eq_0 by blast
  define e where "e = pa OR leaf_page_flags s f"
  have q: "length (walk va) = 3"
    by (simp add: walk_def)
  obtain s2 where up: "set_entry n (INDEX_AT_LEVEL va 0) e s1 = Ret s2" "mmu_inv s2 root (drop k ps)"
      "no_execute_supported s2 = no_execute_supported s1"
      "\<And>p j. length p \<le> 3 \<Longrightarrow> entry_at (mm_tables s2) root p j =
        (if p = walk va \<and> j = INDEX_AT_LEVEL va 0 then Some e else entry_at (mm_tables s1) root p j)"
    using leaf_write [OF down(3,4) q] by blast
  have entry: "if on_walk 0 (walk va) p j
      then \<exists>d. entry_at (mm_tables s2) root p j = Some d \<and> d AND NOT PAGE_ADDRESS_MASK = g
      else (p, j) \<noteq> (walk va, INDEX_AT_LEVEL va 0) \<longrightarrow> entry_at (mm_tables s2) root p j =
        (if p = take (length p) (walk va) \<and> entry_at (mm_tables s) root p j = None then Some 0 else entry_at (mm_tables s) root p j)"
    if "length p \<le> 3" for p j
    using down(5) [unfolded walk_mapped_def, rule_format, OF that, of j] up(4) [OF that, of j]
    by (auto simp: on_walk_def split: if_splits)
  have on_path: "\<exists>d. entry_at (mm_tables s2) root p j = Some d \<and> IS_PRESENT d \<and> \<not> IS_LARGE_PAGE d"
    if "on_walk 0 (walk va) p j" for p j
    using entry [of p j] that q flags_of_entry [of _ g] table_flags_intermediate [OF f] by (auto simp: on_walk_def g_def)
  have off_path: "entry_at (mm_tables s2) root p j =
      (if p = take (length p) (walk va) \<and> entry_at (mm_tables s) root p j = None then Some 0 else entry_at (mm_tables s) root p j)"
    if "length p \<le> 3" "\<not> on_walk 0 (walk va) p j" "(p, j) \<noteq> (walk va, INDEX_AT_LEVEL va 0)" for p j
    using entry [OF that(1), of j] that(2,3) by simp
  have small': "\<not> IS_LARGE_PAGE d" if "k < 3" "entry_at (mm_tables s) root (take k (walk va)) (walk va ! k) = Some d" for k d
    using small that by (simp add: small_from_def)
  have "leaf_page_flags s1 f = leaf_page_flags s f"
    using down(6) by (simp add: leaf_page_flags_def)
  then have "paging_map_page root va pa f False s = Ret (IR_OK, s2)"
    using down(1) up(1) by (simp add: paging_map_page_def e_def)
  moreover have "page_mapped va e g (mm_tables s) (mm_tables s2) root"
    unfolding page_mapped_def
  proof (intro conjI allI impI)
    show "leaf_entry (mm_tables s2) root va = Some e"
      using up(4) [of "walk va"] q by (simp add: leaf_entry_def)
  next
    fix va' assume va': "\<not> same_page va va'"
    have "walk va' @ [INDEX_AT_LEVEL va' 0] \<noteq> drop 0 (walk va @ [INDEX_AT_LEVEL va 0])"
      using va' by (auto simp: same_page_def)
    then show "translation (mm_tables s2) root va' = translation (mm_tables s) root va'"
      unfolding translation_def using find_entry_mapped [OF q on_path off_path small',
          where k = 0 and js = "walk va' @ [INDEX_AT_LEVEL va' 0]"]
      by simp
  next
    fix va' assume old: "small_walk (mm_tables s) root va'"
    show "small_walk (mm_tables s2) root va'"
      unfolding small_from_def
    proof (intro allI impI)
      fix k d assume k: "k < 3" and d: "entry_at (mm_tables s2) root (take k (walk va')) (walk va' ! k) = Some d"
      have len: "length (take k (walk va')) \<le> 3" "take k (walk va') \<noteq> walk va"
        using k by (auto simp: walk_def dest: arg_cong [where f = length])
      show "\<not> IS_LARGE_PAGE d"
      proof (cases "on_walk 0 (walk va) (take k (walk va')) (walk va' ! k)")
        case True
        then show ?thesis
          using on_path d by fastforce
      next
        case False
        then show ?thesis
          using off_path [OF len(1) False] len(2) d old k by (auto simp: small_from_def split: if_splits)
      qed
    qed
  next
    fix k :: nat assume k: "k < 3"
    then have "on_walk 0 (walk va) (take k (walk va)) (walk va ! k)"
      using q by (simp add: on_walk_def)
    then obtain d where "entry_at (mm_tables s1) root (take k (walk va)) (walk va ! k) = Some d"
        "d AND NOT PAGE_ADDRESS_MASK = g"
      using down(5) [unfolded walk_mapped_def, rule_format, of "take k (walk va)" "walk va ! k"] q k by auto
    moreover have "take k (walk va) \<noteq> walk va"
      using q k by (metis length_take min.absorb4 nat_neq_iff)
    ultimately show "\<exists>d. entry_at (mm_tables s2) root (take k (walk va)) (walk va ! k) = Some d \<and> d AND NOT PAGE_ADDRESS_MASK = g"
      using up(4) [of "take k (walk va)"] q by simp
  qed
  ultimately show ?thesis
    using down(2,6) up(2,3) unfolding e_def g_def by auto
qed

lemma leaf_flags_present: "IS_PRESENT f \<Longrightarrow> IS_PRESENT (pa OR leaf_page_flags s f)"
  by (simp add: IS_PRESENT_bit leaf_page_flags_def bit_simps PAGE_NO_EXECUTE_def)

lemma same_page_sym: "same_page a b \<longleftrightarrow> same_page b a"
  by (auto simp: same_page_def)

lemma page_mapped_translation:
  assumes "page_mapped va e f T T' root" "IS_PRESENT e" "table_flags f"
  shows "translation T' root va = Some (0, e)"
  using assms flags_of_entry [of _ f] by (intro translation_leaf) (auto simp: page_mapped_def)

lemma mmu_map_loop_ok:
  assumes "mmu_inv s root ps" "3 * length L < length ps" "table_flags f" "length L \<le> 2 ^ 36"
    and "\<And>i. i < length L \<Longrightarrow> small_walk (mm_tables s) root (address + of_nat i * PAGE_SIZE)"
  shows "\<exists>s' k. mmu_map_loop root address L f s = Ret (IR_OK, s') \<and> mmu_inv s' root (drop k ps) \<and> k \<le> 3 * length L \<and>
    (\<forall>i < length L. translation (mm_tables s') root (address + of_nat i * PAGE_SIZE) =
       Some (0, L ! i OR leaf_page_flags s f)) \<and>
    (\<forall>va. (\<forall>i < length L. \<not> same_page (address + of_nat i * PAGE_SIZE) va) \<longrightarrow>
       translation (mm_tables s') root va = translation (mm_tables s) root va)"
  using assms
proof (induction L arbitrary: s ps address)
  case Nil
  then show ?case
    by (intro exI [of _ s] exI [of _ 0]) simp
next
  case (Cons pa L)
  have first: "small_walk (mm_tables s) root address" and "4 \<le> length ps"
    using Cons.prems(2) Cons.prems(5) [of 0] by simp_all
  then obtain s1 k where one: "paging_map_page root address pa f False s = Ret (IR_OK, s1)" "k \<le> 3"
      "mmu_inv s1 root (drop k ps)" "no_execute_supported s1 = no_execute_supported s"
      "page_mapped address (pa OR leaf_page_flags s f) (intermediate_page_flags f) (mm_tables s) (mm_tables s1) root"
    using paging_map_page_ok [OF Cons.prems(1) _ Cons.prems(3) first] by blast
  have enough: "3 * length L < length (drop k ps)" "length L \<le> 2 ^ 36"
    using Cons.prems(2,4) one(2) by simp_all
  have flags: "leaf_page_flags s1 f = leaf_page_flags s f"
    using one(4) by (simp add: leaf_page_flags_def)
  have shift: "address + PAGE_SIZE + of_nat i * PAGE_SIZE = address + of_nat (Suc i) * PAGE_SIZE" for i
    by (simp add: algebra_simps)
  have small: "small_walk (mm_tables s1) root (address + PAGE_SIZE + of_nat i * PAGE_SIZE)" if "i < length L" for i
    using Cons.prems(5) [of "Suc i"] one(5) that unfolding shift page_mapped_def by simp
  obtain s2 k' where two: "mmu_map_loop root (address + PAGE_SIZE) L f s1 = Ret (IR_OK, s2)"
      "mmu_inv s2 root (drop k' (drop k ps))" "k' \<le> 3 * length L"
      "\<And>i. i < length L \<Longrightarrow> translation (mm_tables s2) root (address + PAGE_SIZE + of_nat i * PAGE_SIZE) =
         Some (0, L ! i OR leaf_page_flags s f)"
      "\<And>va. (\<forall>i < length L. \<not> same_page (address + PAGE_SIZE + of_nat i * PAGE_SIZE) va) \<Longrightarrow>
         translation (mm_tables s2) root va = translation (mm_tables s1) root va"
    using Cons.IH [OF one(3) enough(1) Cons.prems(3) enough(2) small] unfolding flags by blast
  have "translation (mm_tables s2) root (address + of_nat i * PAGE_SIZE) = Some (0, (pa # L) ! i OR leaf_page_flags s f)"
    if "i < length (pa # L)" for i
  proof (cases i)
    case 0
    have "\<not> same_page (address + of_nat (Suc j) * PAGE_SIZE) address" if "j < length L" for j
      using next_pages_differ [of "Suc j" address] that Cons.prems(4) same_page_sym by auto
    then have "translation (mm_tables s2) root address = translation (mm_tables s1) root address"
      by (intro two(5)) (auto simp only: shift)
    then show ?thesis
      using 0 page_mapped_translation [OF one(5) _ table_flags_intermediate] leaf_flags_present Cons.prems(3)
        by (simp add: table_flags_def)
  next
    case (Suc j)
    then show ?thesis
      using two(4) [of j] that unfolding shift by simp
  qed
  moreover have "translation (mm_tables s2) root va = translation (mm_tables s) root va"
    if va: "\<forall>i < length (pa # L). \<not> same_page (address + of_nat i * PAGE_SIZE) va" for va
  proof -
    have "translation (mm_tables s2) root va = translation (mm_tables s1) root va"
      by (rule two(5)) (use va in \<open>force simp only: shift length_Cons\<close>)
    moreover have "\<not> same_page address va"
      using va [rule_format, of 0] by simp
    ultimately show ?thesis
      using one(5) by (simp add: page_mapped_def)
  qed
  moreover have "mmu_map_loop root address (pa # L) f s = Ret (IR_OK, s2)"
    using one(1) two(1) by simp
  moreover have "mmu_inv s2 root (drop (k' + k) ps)" "k' + k \<le> 3 * length (pa # L)"
    using two(2,3) one(2) by simp_all
  ultimately show ?case
    by blast
qed

section \<open>Walking down while unmapping\<close>

lemma paging_unmap_levels_ok:
  assumes at: "table_at (mm_tables s) root (walk va) = Some t0"
  obtains t1 t2 where "table_at (mm_tables s) root [INDEX_AT_LEVEL va 3, INDEX_AT_LEVEL va 2] = Some t1"
    "table_at (mm_tables s) root [INDEX_AT_LEVEL va 3] = Some t2"
    "paging_unmap_levels 3 va root [] s = Ret (Inr [t0, t1, t2, root], s)"
proof -
  have nz: "e \<noteq> 0" if "IS_PRESENT e" for e
    using that by auto
  have step: "paging_unmap_levels (Suc l) va t lv s = paging_unmap_levels l va (next_table (tab (INDEX_AT_LEVEL va (Suc l)))) (t # lv) s"
    if "mm_tables s t = Some tab" "IS_PRESENT (tab (INDEX_AT_LEVEL va (Suc l)))" "\<not> IS_LARGE_PAGE (tab (INDEX_AT_LEVEL va (Suc l)))"
    for t tab l va lv
    using that nz [of "tab (INDEX_AT_LEVEL va (Suc l))"] by (simp add: get_entry_def Let_def next_table_def)
  from at obtain r where r: "mm_tables s root = Some r" "IS_PRESENT (r (INDEX_AT_LEVEL va 3))" "\<not> IS_LARGE_PAGE (r (INDEX_AT_LEVEL va 3))"
    "table_at (mm_tables s) (next_table (r (INDEX_AT_LEVEL va 3))) [INDEX_AT_LEVEL va 2, INDEX_AT_LEVEL va 1] = Some t0"
    unfolding walk_def table_at.simps(2) [of _ root] by (auto split: option.splits if_splits simp del: table_at.simps)
  define t2 where "t2 = next_table (r (INDEX_AT_LEVEL va 3))"
  from r(4) obtain r2 where r2: "mm_tables s t2 = Some r2" "IS_PRESENT (r2 (INDEX_AT_LEVEL va 2))" "\<not> IS_LARGE_PAGE (r2 (INDEX_AT_LEVEL va 2))"
    "table_at (mm_tables s) (next_table (r2 (INDEX_AT_LEVEL va 2))) [INDEX_AT_LEVEL va 1] = Some t0"
    unfolding t2_def [symmetric] table_at.simps(2) [of _ t2] by (auto split: option.splits if_splits simp del: table_at.simps)
  define t1 where "t1 = next_table (r2 (INDEX_AT_LEVEL va 2))"
  from r2(4) obtain r1 where r1: "mm_tables s t1 = Some r1" "IS_PRESENT (r1 (INDEX_AT_LEVEL va 1))" "\<not> IS_LARGE_PAGE (r1 (INDEX_AT_LEVEL va 1))"
    "next_table (r1 (INDEX_AT_LEVEL va 1)) = t0"
    unfolding t1_def [symmetric] by (auto split: option.splits if_splits)
  have num: "Suc 2 = 3" "Suc 1 = 2" "Suc 0 = 1"
    by simp_all
  have "paging_unmap_levels 3 va root [] s = paging_unmap_levels 2 va t2 [root] s"
    using step [of root r va 2 "[]"] r(1-3) unfolding num t2_def by blast
  also have "\<dots> = paging_unmap_levels 1 va t1 [t2, root] s"
    using step [of t2 r2 va 1 "[root]"] r2(1-3) unfolding num t1_def by blast
  also have "\<dots> = paging_unmap_levels 0 va t0 [t1, t2, root] s"
    using step [of t1 r1 va 0 "[t2, root]"] r1 unfolding num by blast
  finally have "paging_unmap_levels 3 va root [] s = Ret (Inr [t0, t1, t2, root], s)"
    by simp
  then show thesis
    using r r2 by (intro that) (simp_all add: t1_def t2_def)
qed

lemma table_at_small:
  assumes "table_at T root (walk va) = Some t"
  shows "small_walk T root va"
  unfolding small_from_def
proof (intro allI impI)
  fix k e assume k: "k < 3" and e: "entry_at T root (take k (walk va)) (walk va ! k) = Some e"
  have "walk va = take k (walk va) @ walk va ! k # drop (Suc k) (walk va)"
    using k by (simp add: id_take_nth_drop)
  then have "table_at T root (take k (walk va) @ walk va ! k # drop (Suc k) (walk va)) = Some t"
    using assms by simp
  then show "\<not> IS_LARGE_PAGE e"
    using e unfolding table_at_append by (auto simp: entry_at_def split: option.splits if_splits)
qed

lemma paging_unmap_page_ok:
  assumes inv: "mmu_inv s root ps" and at: "table_at (mm_tables s) root (walk va) = Some t"
    and tab: "mm_tables s t = Some tab" and other: "i < 512" "i \<noteq> INDEX_AT_LEVEL va 0" "tab i \<noteq> 0"
  shows "\<exists>s'. paging_unmap_page root va s = Ret (IR_OK, s') \<and> mmu_inv s' root ps \<and>
    translation (mm_tables s') root va = None \<and>
    (\<forall>va'. \<not> same_page va va' \<longrightarrow> translation (mm_tables s') root va' = translation (mm_tables s) root va')"
proof -
  obtain t1 t2 where down: "paging_unmap_levels 3 va root [] s = Ret (Inr [t, t1, t2, root], s)"
    using paging_unmap_levels_ok [OF at] by metis
  define s' where "s' = s\<lparr>mm_tables := (mm_tables s)(t \<mapsto> tab(INDEX_AT_LEVEL va 0 := 0))\<rparr>"
  have set: "set_entry t (INDEX_AT_LEVEL va 0) 0 s = Ret s'"
    using tab by (simp add: set_entry_def s'_def)
  have upd: "mmu_inv s' root ps" "\<And>p j. length p \<le> 3 \<Longrightarrow> entry_at (mm_tables s') root p j =
       (if p = walk va \<and> j = INDEX_AT_LEVEL va 0 then Some 0 else entry_at (mm_tables s) root p j)"
    using leaf_write [OF inv at length_walk, of "INDEX_AT_LEVEL va 0" 0] set by auto
  have "\<not> table_empty (tab(INDEX_AT_LEVEL va 0 := 0))"
    using other by (auto simp: table_empty_def list_all_iff)
  then have "maybe_release_frame t s' = Ret (False, s')"
    by (simp add: maybe_release_frame_def s'_def)
  then have "paging_release_levels 3 0 va t [t, t1, t2, root] s' = Ret s'"
    by (simp add: numeral_3_eq_3)
  then have "paging_unmap_page root va s = Ret (IR_OK, s')"
    using down set by (simp add: paging_unmap_page_def)
  moreover have "translation (mm_tables s') root va' = translation (mm_tables s) root va'" if "\<not> same_page va va'" for va'
    unfolding translation_def
  proof (rule find_entry_cong)
    fix k assume k: "k < length (walk va' @ [INDEX_AT_LEVEL va' 0])"
    then have "k < 3 \<or> k = 3"
      by auto
    then show "entry_at (mm_tables s') root ([] @ take k (walk va' @ [INDEX_AT_LEVEL va' 0])) ((walk va' @ [INDEX_AT_LEVEL va' 0]) ! k) =
        entry_at (mm_tables s) root ([] @ take k (walk va' @ [INDEX_AT_LEVEL va' 0])) ((walk va' @ [INDEX_AT_LEVEL va' 0]) ! k)"
      using that upd(2) by (auto simp: same_page_def nth_append dest: arg_cong [where f = length])
  qed
  moreover have "translation (mm_tables s') root va = None"
  proof -
    have "small_walk (mm_tables s) root va"
      using at by (rule table_at_small)
    then have "small_walk (mm_tables s') root va"
      using upd(2) by (auto simp: small_from_def dest: arg_cong [where f = length])
    moreover have "leaf_entry (mm_tables s') root va = Some 0"
      using upd(2) [of "walk va"] by (simp add: leaf_entry_def)
    ultimately show ?thesis
      by (cases "translation (mm_tables s') root va") (auto elim!: translation_small)
  qed
  ultimately show ?thesis
    using upd(1) by simp
qed

text \<open>Freeing a page that is free already only changes the count of used bytes.\<close>

lemma pmm_free_page_again:
  assumes "pm_pages p a = Some pg" "pg_state pg = PAGE_STATE_FREE"
  shows "pmm_free_page a p = Ret (p\<lparr>memory_used := memory_used p - PAGE_SIZE\<rparr>)"
proof -
  have "pg\<lparr>pg_state := PAGE_STATE_FREE\<rparr> = pg"
    using assms(2) by (cases pg) simp
  then have "(pm_pages p)(a \<mapsto> pg\<lparr>pg_state := PAGE_STATE_FREE\<rparr>) = pm_pages p"
    using assms(1) by (simp add: fun_upd_idem)
  then have "p\<lparr>pm_pages := (pm_pages p)(a \<mapsto> pg\<lparr>pg_state := PAGE_STATE_FREE\<rparr>)\<rparr> = p"
    by simp
  then have "update_page a (\<lambda>pg. pg\<lparr>pg_state := PAGE_STATE_FREE\<rparr>) p = Ret p"
    using assms(1) by simp
  then show ?thesis
    using assms by (simp add: pmm_free_page_def Let_def)
qed

lemma page_from_p_addr_used [simp]:
  "pmm_page_from_p_addr x (p\<lparr>memory_used := u\<rparr>) = pmm_page_from_p_addr x p"
  by (simp add: pmm_page_from_p_addr_def)

text \<open>One round of the release loop once the lowest table's page has been freed.\<close>

lemma release_again:
  assumes t: "mm_tables s t = Some z" "table_empty z" and a: "pmm_page_from_p_addr (physical_map_to_p_addr t) (mm_pmm s) = a"
      "pm_pages (mm_pmm s) a = Some pg" "pg_state pg = PAGE_STATE_FREE"
    and u: "levels ! (i + 1) \<noteq> t" "mm_tables s (levels ! (i + 1)) = Some tab" and user: "\<not> arch_is_kernel_pointer va"
  shows "paging_release_levels (Suc k) i va t levels s =
    paging_release_levels k (i + 1) va t levels
      (s\<lparr>mm_tables := (mm_tables s)(levels ! (i + 1) \<mapsto> tab(INDEX_AT_LEVEL va (i + 1) := 0)),
         mm_pmm := mm_pmm s\<lparr>memory_used := memory_used (mm_pmm s) - 2 * PAGE_SIZE\<rparr>\<rparr>)"
proof -
  define s1 where "s1 = s\<lparr>mm_pmm := mm_pmm s\<lparr>memory_used := memory_used (mm_pmm s) - PAGE_SIZE\<rparr>\<rparr>"
  have "maybe_release_frame t s = Ret (True, s1)"
    using t a pmm_free_page_again [OF a(2,3)] by (simp add: maybe_release_frame_def s1_def)
  moreover define s2 where "s2 = s1\<lparr>mm_tables := (mm_tables s)(levels ! (i + 1) \<mapsto> tab(INDEX_AT_LEVEL va (i + 1) := 0))\<rparr>"
  moreover have "set_entry (levels ! (i + 1)) (INDEX_AT_LEVEL va (i + 1)) 0 s1 = Ret s2"
    using u by (simp add: set_entry_def s1_def s2_def)
  moreover have "pmm_free_page (pmm_page_from_p_addr (physical_map_to_p_addr t) (mm_pmm s2)) (mm_pmm s2) =
      Ret (mm_pmm s\<lparr>memory_used := memory_used (mm_pmm s) - 2 * PAGE_SIZE\<rparr>)"
    using a pmm_free_page_again [of "mm_pmm s2" a pg] by (simp add: s1_def s2_def)
  ultimately show ?thesis
    using user by (simp add: s1_def s2_def)
qed

lemma release_first:
  assumes t: "mm_tables s t = Some z" "table_empty z" and a: "pmm_page_from_p_addr (physical_map_to_p_addr t) (mm_pmm s) = a"
    and free: "pmm_free_page a (mm_pmm s) = Ret p" "pmm_page_from_p_addr (physical_map_to_p_addr t) p = a"
      "pm_pages p a = Some pg" "pg_state pg = PAGE_STATE_FREE"
    and u: "levels ! 1 \<noteq> t" "mm_tables s (levels ! 1) = Some tab" and user: "\<not> arch_is_kernel_pointer va"
  shows "paging_release_levels (Suc k) 0 va t levels s =
    paging_release_levels k 1 va t levels
      (s\<lparr>mm_tables := (mm_tables s)(levels ! 1 \<mapsto> tab(INDEX_AT_LEVEL va 1 := 0)),
         mm_pmm := p\<lparr>memory_used := memory_used p - PAGE_SIZE\<rparr>\<rparr>)"
proof -
  have "maybe_release_frame t s = Ret (True, s\<lparr>mm_pmm := p\<rparr>)"
    using t a free(1) by (simp add: maybe_release_frame_def)
  moreover have "set_entry (levels ! 1) (INDEX_AT_LEVEL va 1) 0 (s\<lparr>mm_pmm := p\<rparr>) =
      Ret (s\<lparr>mm_pmm := p, mm_tables := (mm_tables s)(levels ! 1 \<mapsto> tab(INDEX_AT_LEVEL va 1 := 0))\<rparr>)"
    using u by (simp add: set_entry_def)
  ultimately show ?thesis
    using free(2) pmm_free_page_again [OF free(3,4)] user by simp
qed

text \<open>
  Unmapping the last page of a lowest-level table in user space: the same, empty, lowest table is
  tested in all three rounds, so the entries of all levels are cleared.
\<close>

lemma paging_unmap_last_page:
  assumes inv: "mmu_inv s root ps" and at: "table_at (mm_tables s) root (walk va) = Some t"
    and tab: "mm_tables s t = Some tab" and rest: "\<And>i. i < 512 \<Longrightarrow> i \<noteq> INDEX_AT_LEVEL va 0 \<Longrightarrow> tab i = 0"
    and a: "pmm_page_from_p_addr (physical_map_to_p_addr t) (mm_pmm s) = a" "a \<in> set (region_pages (mm_pmm s))"
      "page_core (pm_pages (mm_pmm s)) a = Some (x, PAGE_STATE_USED)"
    and user: "\<not> arch_is_kernel_pointer va"
  shows "\<exists>s' r. paging_unmap_page root va s = Ret (IR_OK, s') \<and>
    mm_tables s' root = Some r \<and> r (INDEX_AT_LEVEL va 3) = 0 \<and> free_list (mm_pmm s') = a \<and>
    memory_used (mm_pmm s') = memory_used (mm_pmm s) - 6 * PAGE_SIZE \<and>
    memory_free (mm_pmm s') = memory_free (mm_pmm s) + PAGE_SIZE"
proof -
  obtain t1 t2 where down: "table_at (mm_tables s) root [INDEX_AT_LEVEL va 3, INDEX_AT_LEVEL va 2] = Some t1"
    "table_at (mm_tables s) root [INDEX_AT_LEVEL va 3] = Some t2"
    "paging_unmap_levels 3 va root [] s = Ret (Inr [t, t1, t2, root], s)"
    by (rule paging_unmap_levels_ok [OF at])
  note wf = mmu_inv_wf [OF inv]
  have ne: "t1 \<noteq> t" "t2 \<noteq> t" "root \<noteq> t" "root \<noteq> t1" "root \<noteq> t2" "t1 \<noteq> t2"
    using wf_inj [OF wf _ _ down(1), of "walk va"] wf_inj [OF wf _ _ down(2), of "walk va"]
      wf_inj [OF wf _ _ at, of "[]"] wf_inj [OF wf _ _ down(1), of "[]"] wf_inj [OF wf _ _ down(2), of "[]"]
      wf_inj [OF wf _ _ down(1), of "[INDEX_AT_LEVEL va 3]"] at down(2)
    by (auto simp: walk_def)
  obtain r1 r2 r where tabs: "mm_tables s t1 = Some r1" "mm_tables s t2 = Some r2" "mm_tables s root = Some r"
    using wf_dom [OF wf _ down(1)] wf_dom [OF wf _ down(2)] wf_dom [OF wf, of "[]" root] by auto
  have pinv: "pmm_inv (mm_pmm s) ps"
    using inv by (simp add: mmu_inv_def)
  obtain p where p: "pmm_free_page a (mm_pmm s) = Ret p" "pmm_inv p (a # ps)"
      "page_core (pm_pages p) = (page_core (pm_pages (mm_pmm s)))(a \<mapsto> (x, PAGE_STATE_FREE))"
      "regions_array p = regions_array (mm_pmm s)"
      "memory_free p + memory_used p = memory_free (mm_pmm s) + memory_used (mm_pmm s)"
    using pmm_free_page_refine [OF pinv a(2,3)] by blast
  have pa: "pmm_page_from_p_addr y p = pmm_page_from_p_addr y (mm_pmm s)" for y
    using p(2,4) pinv by (simp add: pmm_page_from_p_addr_def pmm_inv_def)
  obtain pg where pg: "pm_pages p a = Some pg" "pg_state pg = PAGE_STATE_FREE"
    using page_core_SomeD [of "pm_pages p" a x] unfolding p(3) by auto
  have free: "memory_free p = memory_free (mm_pmm s) + PAGE_SIZE"
    using p(2) pinv by (simp add: pmm_inv_def)
  then have used: "memory_used p = memory_used (mm_pmm s) - PAGE_SIZE"
    using p(5) by (simp add: algebra_simps)
  have head: "free_list p = a"
    using free_rep_head [OF pmm_inv_free_rep [OF p(2)]] .
  define z where "z = tab(INDEX_AT_LEVEL va 0 := 0)"
  have z: "table_empty z"
    using rest by (auto simp: z_def table_empty_def list_all_iff)
  define s0 where "s0 = s\<lparr>mm_tables := (mm_tables s)(t \<mapsto> z)\<rparr>"
  define lv where "lv = [t, t1, t2, root]"
  have set: "set_entry t (INDEX_AT_LEVEL va 0) 0 s = Ret s0"
    using tab by (simp add: set_entry_def s0_def z_def)
  define s1 where "s1 = s0\<lparr>mm_tables := (mm_tables s0)(t1 \<mapsto> r1(INDEX_AT_LEVEL va 1 := 0)),
    mm_pmm := p\<lparr>memory_used := memory_used p - PAGE_SIZE\<rparr>\<rparr>"
  define s2 where "s2 = s1\<lparr>mm_tables := (mm_tables s1)(t2 \<mapsto> r2(INDEX_AT_LEVEL va 2 := 0)),
    mm_pmm := mm_pmm s1\<lparr>memory_used := memory_used (mm_pmm s1) - 2 * PAGE_SIZE\<rparr>\<rparr>"
  define s3 where "s3 = s2\<lparr>mm_tables := (mm_tables s2)(root \<mapsto> r(INDEX_AT_LEVEL va 3 := 0)),
    mm_pmm := mm_pmm s2\<lparr>memory_used := memory_used (mm_pmm s2) - 2 * PAGE_SIZE\<rparr>\<rparr>"
  have "paging_release_levels (Suc 2) 0 va t lv s0 = paging_release_levels 2 1 va t lv s1"
    using release_first [of s0 t z a p pg lv r1 va 2] z a(1) p(1) pa pg ne tabs user
    by (simp add: s0_def s1_def lv_def)
  also have "\<dots> = paging_release_levels (Suc 1) 1 va t lv s1"
    by (simp add: numeral_2_eq_2)
  also have "\<dots> = paging_release_levels (Suc 0) 2 va t lv s2"
    using release_again [of s1 t z a pg lv 1 r2 va 1] z a(1) pa pg ne tabs user
    by (simp add: s0_def s1_def s2_def lv_def numeral_2_eq_2)
  also have "\<dots> = Ret s3"
    using release_again [of s2 t z a pg lv 2 r va 0] z a(1) pa pg ne tabs user
    by (simp add: s0_def s1_def s2_def s3_def lv_def numeral_3_eq_3)
  finally have "paging_release_levels 3 0 va t lv s0 = Ret s3"
    by (simp add: numeral_3_eq_3 numeral_2_eq_2)
  then have "paging_unmap_page root va s = Ret (IR_OK, s3)"
    using down(3) set by (simp add: paging_unmap_page_def lv_def)
  moreover have "mm_tables s3 root = Some (r(INDEX_AT_LEVEL va 3 := 0))" "free_list (mm_pmm s3) = a"
      "memory_used (mm_pmm s3) = memory_used (mm_pmm s) - 6 * PAGE_SIZE"
      "memory_free (mm_pmm s3) = memory_free (mm_pmm s) + PAGE_SIZE"
    using used free head by (simp_all add: s1_def s2_def s3_def)
  ultimately show ?thesis
    by auto
qed

end
