(* ===== verification/Address_Space.thy ===== *)
theory Address_Space
  imports Paging
begin

text \<open>
  The page tables as a map from pages to entries: the contract \<open>page_map\<close> of mapping and
  unmapping a page, what follows from it, its interpretation on the operations of
  \<^verbatim>\<open>arch/x86_64/paging.c\<close>, and the properties of mapping, unmapping and splitting pages.
\<close>

section \<open>The contract of a page map\<close>

locale page_map =
  fixes same :: "'a \<Rightarrow> 'a \<Rightarrow> bool"
    and lookup :: "'s \<Rightarrow> 'a \<Rightarrow> 'e option"
    and put :: "'s \<Rightarrow> 'a \<Rightarrow> 'e \<Rightarrow> 's \<Rightarrow> bool"
    and del :: "'s \<Rightarrow> 'a \<Rightarrow> 's \<Rightarrow> bool"
  assumes lookup_put: "put s a e s' \<Longrightarrow> lookup s' b = (if same a b then Some e else lookup s b)"
    and lookup_del: "del s a s' \<Longrightarrow> lookup s' b = (if same a b then None else lookup s b)"
    and lookup_same: "same a b \<Longrightarrow> lookup s a = lookup s b"
begin

lemma put_del_restores:
  assumes "put s a e s'" "del s' a s''" "lookup s a = None"
  shows "lookup s'' = lookup s"
  using assms lookup_same by (auto simp: lookup_put lookup_del fun_eq_iff)

lemma put_overwrites:
  assumes "put s a e s'" "put s' a e' s''" "put s a e' t"
  shows "lookup s'' = lookup t"
  using assms by (auto simp: lookup_put fun_eq_iff)

lemma put_commutes:
  assumes "put s a e s1" "put s1 b e' s2" "put s b e' t1" "put t1 a e t2" "\<And>c. \<not> (same a c \<and> same b c)"
  shows "lookup s2 = lookup t2"
  using assms by (auto simp: lookup_put fun_eq_iff)

end

section \<open>The page tables are a page map\<close>

text \<open>Mapping, restricted to addresses outside every large page.\<close>

definition maps_page :: "ptr \<Rightarrow> mmu \<Rightarrow> u64 \<Rightarrow> nat \<times> u64 \<Rightarrow> mmu \<Rightarrow> bool" where
  "maps_page root s va d s' \<longleftrightarrow> (\<exists>ps pa f. mmu_inv s root ps \<and> 4 \<le> length ps \<and> table_flags f \<and>
     small_walk (mm_tables s) root va \<and> d = (0, pa OR leaf_page_flags s f) \<and>
     paging_map_page root va pa f False s = Ret (IR_OK, s'))"

text \<open>Unmapping, restricted to addresses whose lowest table keeps another entry.\<close>

definition unmaps_page :: "ptr \<Rightarrow> mmu \<Rightarrow> u64 \<Rightarrow> mmu \<Rightarrow> bool" where
  "unmaps_page root s va s' \<longleftrightarrow> (\<exists>ps t tab i. mmu_inv s root ps \<and> table_at (mm_tables s) root (walk va) = Some t \<and>
     mm_tables s t = Some tab \<and> i < 512 \<and> i \<noteq> INDEX_AT_LEVEL va 0 \<and> tab i \<noteq> 0 \<and>
     paging_unmap_page root va s = Ret (IR_OK, s'))"

lemma translation_same_page: "same_page a b \<Longrightarrow> translation T root a = translation T root b"
  by (simp add: translation_def same_page_def)

lemma maps_page_translation:
  assumes "maps_page root s va d s'"
  shows "translation (mm_tables s') root va' = (if same_page va va' then Some d else translation (mm_tables s) root va')"
proof -
  obtain ps pa f where m: "mmu_inv s root ps" "4 \<le> length ps" "table_flags f" "small_walk (mm_tables s) root va"
      "d = (0, pa OR leaf_page_flags s f)" "paging_map_page root va pa f False s = Ret (IR_OK, s')"
    using assms unfolding maps_page_def by blast
  have mapped: "page_mapped va (snd d) (intermediate_page_flags f) (mm_tables s) (mm_tables s') root"
    using paging_map_page_ok [OF m(1-4), of pa] m(5,6) by auto
  have "IS_PRESENT (snd d)"
    using m(3,5) leaf_flags_present by (simp add: table_flags_def)
  then have "translation (mm_tables s') root va = Some d"
    using page_mapped_translation [OF mapped _ table_flags_intermediate [OF m(3)]] m(5) by simp
  then show ?thesis
    using mapped translation_same_page [of va va'] by (auto simp: page_mapped_def)
qed

lemma unmaps_page_translation:
  assumes "unmaps_page root s va s'"
  shows "translation (mm_tables s') root va' = (if same_page va va' then None else translation (mm_tables s) root va')"
proof -
  obtain ps t tab i where u: "mmu_inv s root ps" "table_at (mm_tables s) root (walk va) = Some t"
      "mm_tables s t = Some tab" "i < 512" "i \<noteq> INDEX_AT_LEVEL va 0" "tab i \<noteq> 0"
      "paging_unmap_page root va s = Ret (IR_OK, s')"
    using assms unfolding unmaps_page_def by blast
  show ?thesis
    using paging_unmap_page_ok [OF u(1-6)] u(7) translation_same_page [of va va'] by auto
qed

interpretation pt: page_map same_page "\<lambda>s. translation (mm_tables s) root" "maps_page root" "unmaps_page root" for root
  by unfold_locales (auto simp: maps_page_translation unmaps_page_translation dest: translation_same_page)

section \<open>A small address space\<close>

text \<open>Two tables of small pages and one page of 2 MB, at \<^verbatim>\<open>0x600000\<close>.\<close>

definition demo_frame :: "ptr \<Rightarrow> ptr \<Rightarrow> u64 \<Rightarrow> page_state \<Rightarrow> physical_page_info" where
  "demo_frame prev nxt addr st = \<lparr>pg_prev = prev, pg_next = nxt, pg_address = addr, pg_state = st\<rparr>"

definition demo_frame_region :: physical_region where
  "demo_frame_region = \<lparr>rg_base = 0x100000, rg_length = 0x9000, rg_page_array = 0x1000, rg_type = REGION_TYPE_AVAILABLE\<rparr>"

definition demo_frames :: pmm where
  "demo_frames = \<lparr>pm_pages = [
       0x1000 \<mapsto> demo_frame NULL NULL 0x100000 PAGE_STATE_USED,
       0x1020 \<mapsto> demo_frame NULL NULL 0x101000 PAGE_STATE_USED,
       0x1040 \<mapsto> demo_frame NULL NULL 0x102000 PAGE_STATE_USED,
       0x1060 \<mapsto> demo_frame NULL NULL 0x103000 PAGE_STATE_USED,
       0x1080 \<mapsto> demo_frame NULL NULL 0x104000 PAGE_STATE_USED,
       0x10a0 \<mapsto> demo_frame 0x10c0 NULL 0x105000 PAGE_STATE_FREE,
       0x10c0 \<mapsto> demo_frame 0x10e0 0x10a0 0x106000 PAGE_STATE_FREE,
       0x10e0 \<mapsto> demo_frame 0x1100 0x10c0 0x107000 PAGE_STATE_FREE,
       0x1100 \<mapsto> demo_frame NULL 0x10e0 0x108000 PAGE_STATE_FREE],
     free_list = 0x1100, pages_in_free_list = 4,
     regions_array = [demo_frame_region],
     regions_count = 1, initialized_regions = 1, memory_free = 0x4000, memory_used = 0x5000, memory_reserved = 0\<rparr>"

definition demo_root :: ptr where
  "demo_root = 0xffff800000100000"

definition demo_tables :: table_store where
  "demo_tables = [
       0xffff800000100000 \<mapsto> (\<lambda>_. 0)(0 := 0x101007),
       0xffff800000101000 \<mapsto> (\<lambda>_. 0)(0 := 0x102007),
       0xffff800000102000 \<mapsto> (\<lambda>_. 0)(0 := 0x103007, 1 := 0x104007, 3 := 0x40000087),
       0xffff800000103000 \<mapsto> (\<lambda>_. 0)(1 := 0x500007),
       0xffff800000104000 \<mapsto> (\<lambda>_. 0)(0 := 0x600007, 1 := 0x601007)]"

definition demo_mmu :: mmu where
  "demo_mmu = \<lparr>mm_pmm = demo_frames, mm_tables = demo_tables, no_execute_supported = True\<rparr>"

lemmas demo_defs = demo_frames_def demo_frame_def demo_root_def demo_tables_def demo_mmu_def

lemma demo_frame_count: "region_page_count demo_frame_region = 9"
  by (simp add: region_page_count_def demo_frame_region_def)

lemma less_9_cases: "(i < (9::nat)) = (i = 0 \<or> i = 1 \<or> i = 2 \<or> i = 3 \<or> i = 4 \<or> i = 5 \<or> i = 6 \<or> i = 7 \<or> i = 8)"
  by auto

lemma demo_frame_available: "available demo_frames = [demo_frame_region]"
  by (simp add: available_def demo_frames_def demo_frame_region_def)

lemma demo_frame_pages:
  "region_pages demo_frames = [0x1000, 0x1020, 0x1040, 0x1060, 0x1080, 0x10a0, 0x10c0, 0x10e0, 0x1100]"
proof -
  have "[0..<9] = [0, 1, 2, 3, 4, 5, 6, 7, 8 :: nat]"
    by (simp add: upt_rec)
  then show ?thesis
    by (simp add: region_pages_def demo_frame_available demo_frame_count)
      (simp add: demo_frame_region_def region_page_def page_ptr_def)
qed

lemma demo_frames_inv: "pmm_inv demo_frames [0x1100, 0x10e0, 0x10c0, 0x10a0]"
proof -
  have "region_ok (page_core (pm_pages demo_frames)) demo_frame_region"
    unfolding region_ok_def demo_frame_count
    by (auto simp: less_9_cases demo_frame_region_def region_page_def page_ptr_def page_core_def demo_frames_def demo_frame_def)
  moreover have "free_rep demo_frames [0x1100, 0x10e0, 0x10c0, 0x10a0]"
    by (simp add: free_rep_def demo_frames_def demo_frame_def)
  moreover have "set [0x1100, 0x10e0, 0x10c0, 0x10a0] =
      {a \<in> set (region_pages demo_frames). \<exists>x. page_core (pm_pages demo_frames) a = Some (x, PAGE_STATE_FREE)}"
    unfolding demo_frame_pages by (auto simp: page_core_def demo_frames_def demo_frame_def)
  ultimately show ?thesis
    unfolding pmm_inv_def
    by (simp add: demo_frame_pages demo_frame_available) (simp add: demo_frames_def demo_frame_def)
qed

lemmas entry_eval = IS_PRESENT_def IS_LARGE_PAGE_def next_table_def PAGE_PRESENT_def PAGE_LARGE_PAGE_def PAGE_ADDRESS_MASK_def

lemma demo_table_at:
  "length p \<le> 3 \<Longrightarrow> table_at demo_tables demo_root p = Some t \<longleftrightarrow>
    (p = [] \<and> t = demo_root \<or> p = [0] \<and> t = 0xffff800000101000 \<or> p = [0, 0] \<and> t = 0xffff800000102000 \<or>
     p = [0, 0, 0] \<and> t = 0xffff800000103000 \<or> p = [0, 0, 1] \<and> t = 0xffff800000104000)"
proof -
  have one: "table_at demo_tables 0xffff800000102000 [i] =
      (if i = 0 then Some 0xffff800000103000 else if i = 1 then Some 0xffff800000104000 else None)" for i
    by (simp add: demo_tables_def entry_eval)
  have two: "table_at demo_tables 0xffff800000101000 (i # q) =
      (if i = 0 then table_at demo_tables 0xffff800000102000 q else None)" for i q
    by (simp add: demo_tables_def entry_eval)
  have three: "table_at demo_tables demo_root (i # q) =
      (if i = 0 then table_at demo_tables 0xffff800000101000 q else None)" for i q
    by (simp add: demo_tables_def demo_root_def entry_eval)
  assume "length p \<le> 3"
  then consider "p = []" | i where "p = [i]" | i j where "p = [i, j]" | i j k where "p = [i, j, k]"
    by (auto simp: le_Suc_eq numeral_3_eq_3 length_Suc_conv)
  then show ?thesis
    by cases (auto simp: three two one simp del: table_at.simps(2))
qed

lemma demo_mmu_inv: "mmu_inv demo_mmu demo_root [0x1100, 0x10e0, 0x10c0, 0x10a0]"
proof -
  have "wf_tables demo_tables demo_root"
    unfolding wf_tables_def by (auto simp: demo_table_at) (auto simp: demo_tables_def demo_root_def entry_eval split: if_splits)
  then show ?thesis
    using demo_frames_inv unfolding mmu_inv_def
    by (simp add: demo_mmu_def demo_table_at)
      (auto simp: demo_frames_def demo_frame_def page_core_def p_addr_to_physical_map_def demo_root_def PAGE_ADDRESS_MASK_def)
qed

section \<open>Splitting a large page\<close>

lemma in_address_mask:
  assumes "4096 dvd unat x" "unat x < 2 ^ 52"
  shows "x AND PAGE_ADDRESS_MASK = x"
proof -
  obtain k where k: "unat x = 4096 * k"
    using assms(1) by blast
  then have x: "x = push_bit 12 (of_nat k)"
    using unat_of_nat_u64 by (simp add: push_bit_eq_mult mult.commute flip: k) (metis k of_nat_mult of_nat_numeral of_nat_unat ucast_id mult.commute)
  have "take_bit 40 (of_nat k :: u64) = of_nat k"
    using assms(2) k by (simp add: take_bit_of_nat take_bit_nat_eq_self)
  then have "bit (of_nat k :: u64) (n - 12) \<Longrightarrow> n < 52" for n
    using bit_take_bit_iff [of 40 "of_nat k :: u64" "n - 12"] by auto
  then show ?thesis
    unfolding x by (intro bit_word_eqI) (auto simp: bit_and_iff bit_push_bit_iff bit_PAGE_ADDRESS_MASK)
qed

lemma address_part_bounds: "4096 dvd unat (e AND PAGE_ADDRESS_MASK) \<and> unat (e AND PAGE_ADDRESS_MASK) < 2 ^ 52"
proof -
  have "e AND PAGE_ADDRESS_MASK \<le> PAGE_ADDRESS_MASK"
    by (rule word_and_le1)
  then have "unat (e AND PAGE_ADDRESS_MASK) \<le> unat PAGE_ADDRESS_MASK"
    by (simp add: word_le_nat_alt)
  then have "unat (e AND PAGE_ADDRESS_MASK) < 2 ^ 52"
    by (simp add: PAGE_ADDRESS_MASK_def)
  moreover have "take_bit 12 (e AND PAGE_ADDRESS_MASK) = 0"
    by (rule bit_word_eqI) (auto simp: bit_take_bit_iff bit_and_iff bit_PAGE_ADDRESS_MASK)
  then have "take_bit 12 (unat (e AND PAGE_ADDRESS_MASK)) = 0"
    by (metis unsigned_take_bit_eq unsigned_0)
  ultimately show ?thesis
    by (simp add: take_bit_eq_mod mod_eq_0_iff_dvd)
qed

lemma split_address:
  assumes A: "2 ^ (12 + 9 * Suc l) dvd unat A" "unat A < 2 ^ 52" and l: "l \<le> 1" and o: "unat off < 2 ^ (12 + 9 * Suc l)"
  defines "sz \<equiv> 2 ^ (12 + 9 * l) :: u64"
  shows "(A + of_nat (unat off div unat sz) * sz) AND PAGE_ADDRESS_MASK = A + of_nat (unat off div unat sz) * sz"
    "A + of_nat (unat off div unat sz) * sz + off mod sz = A + off"
proof -
  define B where "B = (2 :: nat) ^ (12 + 9 * l)"
  define m where "m = (2 :: nat) ^ (12 + 9 * Suc l)"
  define j where "j = unat off div B"
  have sz: "unat sz = B"
    using l by (auto simp: sz_def B_def le_Suc_eq)
  have m: "m = B * 512"
    by (simp add: m_def B_def power_add)
  have mle: "m \<le> 2 ^ 30" "4096 dvd B" "m dvd 2 ^ 52"
    using l by (auto simp: m_def B_def le_Suc_eq)
  have j: "j * B \<le> unat off" "unat off < m"
    using o by (simp_all add: j_def m_def)
  obtain c where c: "unat A = m * c"
    using A(1) by (auto simp: m_def)
  obtain d where d: "2 ^ 52 = m * d"
    using mle(3) by blast
  have "c < d"
    using A(2) unfolding c d by simp
  then have "m * c + m \<le> m * d"
    by (metis Suc_leI mult_Suc_right mult_le_mono2 add.commute)
  then have fits: "unat A + m \<le> 2 ^ 52"
    by (simp only: c d)
  have jB: "j * B < m"
    using j by linarith
  have "of_nat j * sz = of_nat (j * B)"
    by (simp add: sz_def B_def)
  then have ujB: "unat (of_nat j * sz) = j * B"
    using jB mle(1) unat_of_nat_u64 [of "j * B"] by simp
  then have sum: "unat (A + of_nat j * sz) = unat A + j * B"
    using fits jB by (simp add: unat_word_ariths)
  have "4096 dvd unat A"
    using c m mle(2) by simp
  then show "(A + of_nat (unat off div unat sz) * sz) AND PAGE_ADDRESS_MASK = A + of_nat (unat off div unat sz) * sz"
    unfolding sz j_def [symmetric] using fits jB mle(2) by (intro in_address_mask) (simp_all add: sum)
  have "of_nat j * sz + off mod sz = off"
  proof (rule word_unat_eq_iff [THEN iffD2])
    have "unat (of_nat j * sz + off mod sz) = (j * B + unat off mod B) mod 2 ^ 64"
      unfolding unat_word_ariths(1) unat_mod_distrib sz ujB by simp
    also have "j * B + unat off mod B = unat off"
      by (simp add: j_def)
    finally show "unat (of_nat j * sz + off mod sz) = unat off"
      using j(2) mle(1) by simp
  qed
  then show "A + of_nat (unat off div unat sz) * sz + off mod sz = A + off"
    unfolding sz j_def [symmetric] by (simp add: add.assoc)
qed

lemma page_size_power: "l \<le> 2 \<Longrightarrow> page_size l = 2 ^ (12 + 9 * l)"
  by (auto simp: page_size_def le_Suc_eq numeral_2_eq_2)

lemma not_present_mask: "\<not> bit (x AND PAGE_ADDRESS_MASK) 0" "\<not> bit (x AND PAGE_ADDRESS_MASK) 7"
  by (simp_all add: bit_and_iff bit_PAGE_ADDRESS_MASK)

lemma leaf_page_flags_upd [simp]:
  "leaf_page_flags (s\<lparr>mm_tables := T\<rparr>) f = leaf_page_flags s f"
  "leaf_page_flags (s\<lparr>mm_pmm := p\<rparr>) f = leaf_page_flags s f"
  by (simp_all add: leaf_page_flags_def)

lemma flag_bit_values:
  "bit PAGE_LARGE_PAGE 7" "\<not> bit PAGE_LARGE_PAGE 0"
  "\<not> bit PAGE_NO_EXECUTE 0" "\<not> bit PAGE_CACHE_DISABLE 0" "\<not> bit PAGE_WRITE_THROUGH 0"
  "\<not> bit PAGE_NO_EXECUTE 7" "\<not> bit PAGE_CACHE_DISABLE 7" "\<not> bit PAGE_WRITE_THROUGH 7"
  by (simp_all add: page_bits)

section \<open>Properties\<close>

text \<open>C3: Mapping a list of physical pages at an address succeeds whenever the page allocator can supply
  three tables per page and no address of the range lies in a large page: afterwards page number \<open>i\<close> translates to the
  \<open>i\<close>-th physical page with the access flags the region flags ask for, the entry used for every address of another
  page, of any size, is the one used before, and the table tree is still well formed.\<close>

theorem arch_mmu_map_correct:
  assumes "mmu_inv s (table_base as) ps" "3 * length L < length ps" "length L \<le> 2 ^ 36"
    and "\<And>i. i < length L \<Longrightarrow> small_walk (mm_tables s) (table_base as) (address + of_nat i * PAGE_SIZE)"
  shows "\<exists>s' k. arch_mmu_map as address L flags s = Ret (IR_OK, s') \<and> mmu_inv s' (table_base as) (drop k ps) \<and>
    (\<forall>i < length L. translation (mm_tables s') (table_base as) (address + of_nat i * PAGE_SIZE) =
       Some (0, L ! i OR leaf_page_flags s (mmu_page_flags address flags))) \<and>
    (\<forall>va. (\<forall>i < length L. \<not> same_page (address + of_nat i * PAGE_SIZE) va) \<longrightarrow>
       translation (mm_tables s') (table_base as) va = translation (mm_tables s) (table_base as) va)"
  using mmu_map_loop_ok [OF assms(1,2) table_flags_page_flags [of address flags] assms(3,4)]
  unfolding arch_mmu_map_def by blast

lemma demo_walks:
  "walk 0x1000 = [0, 0, 0]" "INDEX_AT_LEVEL 0x1000 0 = 1" "walk 0x200000 = [0, 0, 1]" "INDEX_AT_LEVEL 0x200000 0 = 0"
  "walk 0x202000 = [0, 0, 1]" "INDEX_AT_LEVEL 0x202000 0 = 2" "walk 0x400000 = [0, 0, 2]" "INDEX_AT_LEVEL 0x400000 0 = 0"
  "walk 0x612345 = [0, 0, 3]" "INDEX_AT_LEVEL 0x612345 0 = 18" "walk 0x40000000 = [0, 1, 0]"
  by (simp_all add: walk_def INDEX_AT_LEVEL_nat)

lemma below_3: "k < 3 \<longleftrightarrow> k = 0 \<or> k = 1 \<or> k = (2 :: nat)"
  by auto

lemmas demo_entry = entry_at_def demo_mmu_def demo_tables_def demo_root_def entry_eval

lemma demo_small_walks:
  "small_walk (mm_tables demo_mmu) demo_root 0x202000" "small_walk (mm_tables demo_mmu) demo_root 0x400000"
  "small_walk (mm_tables demo_mmu) demo_root 0x40000000"
  by (auto simp: small_from_def demo_walks below_3 demo_entry)

lemma demo_translations:
  "translation (mm_tables demo_mmu) demo_root 0x200000 = Some (0, 0x600007)"
  "translation (mm_tables demo_mmu) demo_root 0x202000 = None"
  "translation (mm_tables demo_mmu) demo_root 0x612345 = Some (1, 0x40000087)"
  by (simp_all add: translation_def demo_walks demo_entry)

theorem arch_mmu_map_correct_witness:
  "\<exists>s'. arch_mmu_map \<lparr>table_base = demo_root, as_lock = False\<rparr> 0x400000 [0x700000] 3 demo_mmu = Ret (IR_OK, s') \<and>
    translation (mm_tables s') demo_root 0x400000 = Some (0, 0x700000 OR leaf_page_flags demo_mmu (mmu_page_flags 0x400000 3)) \<and>
    translation (mm_tables s') demo_root 0x612345 = Some (1, 0x40000087)"
proof -
  have "\<not> same_page 0x400000 0x612345"
    by (simp add: same_page_def demo_walks)
  then show ?thesis
    using arch_mmu_map_correct [of demo_mmu "\<lparr>table_base = demo_root, as_lock = False\<rparr>" "[0x1100, 0x10e0, 0x10c0, 0x10a0]"
        "[0x700000]" "0x400000" "3"] demo_mmu_inv demo_small_walks(2) demo_translations(3) by auto
qed

text \<open>C30: Mapping a page that was not mapped, outside every large page and beside a mapped page of the same lowest
  table, succeeds when the page allocator has four pages; unmapping it then succeeds, and every address translates
  as it did before.\<close>

theorem paging_map_unmap_roundtrip:
  assumes "mmu_inv s root ps" "4 \<le> length ps" "table_flags f" "small_walk (mm_tables s) root va"
    and "translation (mm_tables s) root va = None"
    and "walk vb = walk va" "translation (mm_tables s) root vb \<noteq> None"
  shows "\<exists>s' s''. paging_map_page root va pa f False s = Ret (IR_OK, s') \<and>
    translation (mm_tables s') root va = Some (0, pa OR leaf_page_flags s f) \<and>
    paging_unmap_page root va s' = Ret (IR_OK, s'') \<and>
    translation (mm_tables s'') root = translation (mm_tables s) root"
proof -
  obtain s' k where s': "paging_map_page root va pa f False s = Ret (IR_OK, s')" "mmu_inv s' root (drop k ps)"
      "page_mapped va (pa OR leaf_page_flags s f) (intermediate_page_flags f) (mm_tables s) (mm_tables s') root"
    using paging_map_page_ok [OF assms(1-4)] by blast
  have maps: "maps_page root s va (0, pa OR leaf_page_flags s f) s'"
    using assms(1-4) s'(1) unfolding maps_page_def by blast
  have apart: "\<not> same_page va vb"
    using assms(5,7) translation_same_page [of va vb] by auto
  have "small_walk (mm_tables s') root vb"
    using s'(3) assms(4,6) by (simp add: page_mapped_def small_from_def)
  moreover obtain d where "translation (mm_tables s') root vb = Some d"
    using maps_page_translation [OF maps, of vb] apart assms(7) by auto
  ultimately obtain e where "leaf_entry (mm_tables s') root vb = Some e" "IS_PRESENT e"
    by (elim translation_small)
  then have "leaf_entry (mm_tables s') root vb = Some e" "e \<noteq> 0"
    by auto
  then obtain t tab where t: "table_at (mm_tables s') root (walk va) = Some t" "mm_tables s' t = Some tab"
      "tab (INDEX_AT_LEVEL vb 0) \<noteq> 0"
    using assms(6) by (auto simp: leaf_entry_def entry_at_def split: option.splits)
  have i: "INDEX_AT_LEVEL vb 0 < 512" "INDEX_AT_LEVEL vb 0 \<noteq> INDEX_AT_LEVEL va 0"
    using apart assms(6) by (simp_all add: INDEX_AT_LEVEL_nat same_page_def)
  then obtain s'' where s'': "paging_unmap_page root va s' = Ret (IR_OK, s'')"
    using paging_unmap_page_ok [OF s'(2) t(1,2) i t(3)] by blast
  then have "unmaps_page root s' va s''"
    unfolding unmaps_page_def using s'(2) t i by blast
  then show ?thesis
    using pt.put_del_restores [OF maps _ assms(5)] maps_page_translation [OF maps, of va] s'(1) s'' by auto
qed

theorem paging_map_unmap_roundtrip_witness:
  "\<exists>s' s''. paging_map_page demo_root 0x202000 0x700000 7 False demo_mmu = Ret (IR_OK, s') \<and>
     paging_unmap_page demo_root 0x202000 s' = Ret (IR_OK, s'') \<and>
     translation (mm_tables s'') demo_root 0x612345 = Some (1, 0x40000087)"
proof -
  have "table_flags 7"
    by (simp add: table_flags_def IS_PRESENT_def IS_LARGE_PAGE_def page_bits)
  then show ?thesis
    using paging_map_unmap_roundtrip [OF demo_mmu_inv _ _ demo_small_walks(1) demo_translations(2), of 7 "0x200000" "0x700000"]
      demo_translations(1,3) by (auto simp: demo_walks)
qed

text \<open>C22: Splitting a large page preserves the translation: whenever the page allocator has a page to
  spare, the entry of a 2 MB or 1 GB page is replaced by a pointer to a fresh table, and every byte
  of the large page is reached through that table at the physical address it had before; pieces of a
  1 GB page are themselves large pages, pieces of a 2 MB page are not.\<close>

theorem paging_split_page_preserves:
  assumes pmm: "pmm_inv (mm_pmm s) (a # b # ps)"
    and x: "page_core (pm_pages (mm_pmm s)) a = Some (x, st)" "x AND PAGE_ADDRESS_MASK = x"
      "x < physical_map_length" "p_addr_to_physical_map x \<notin> dom (mm_tables s)"
    and tab: "mm_tables s table = Some tab" and large: "IS_LARGE_PAGE (tab i)" and l: "l \<le> 1"
    and aligned: "unat (page_size (Suc l)) dvd unat (tab i AND PAGE_ADDRESS_MASK)"
  shows "\<exists>s' contents e. paging_split_page table i (Suc l) s = Ret (IR_OK, s') \<and>
    mm_tables s' = (mm_tables s)(p_addr_to_physical_map x \<mapsto> contents, table \<mapsto> tab(i := e)) \<and>
    next_table e = p_addr_to_physical_map x \<and> \<not> IS_LARGE_PAGE e \<and> (IS_PRESENT e \<longleftrightarrow> IS_PRESENT (tab i)) \<and>
    (\<forall>off. off < page_size (Suc l) \<longrightarrow>
       (let c = contents (unat off div unat (page_size l)) in
        (c AND PAGE_ADDRESS_MASK) + off mod page_size l = (tab i AND PAGE_ADDRESS_MASK) + off \<and>
        (IS_LARGE_PAGE c \<longleftrightarrow> l = 1) \<and> (IS_PRESENT c \<longleftrightarrow> IS_PRESENT (tab i))))"
proof -
  define A where "A = tab i AND PAGE_ADDRESS_MASK"
  define n where "n = p_addr_to_physical_map x"
  obtain p where p: "pmm_allocate_page (mm_pmm s) = Ret (IR_OK, a, p)"
      "page_core (pm_pages p) = used_core {a} (page_core (pm_pages (mm_pmm s)))"
    using pmm_allocate_page_refine [OF pmm] by blast
  then obtain pg where pg: "pm_pages p a = Some pg" "pg_address pg = x"
    using x(1) page_core_SomeD [of "pm_pages p" a x PAGE_STATE_USED] by (auto simp: used_core_def)
  have alloc: "paging_allocate_table s = Ret (n, s\<lparr>mm_pmm := p, mm_tables := (mm_tables s)(n \<mapsto> (\<lambda>_. 0))\<rparr>)"
    using p(1) pg by (simp add: paging_allocate_table_def Let_def n_def)
  have nx: "n - physical_map_base = x" "n \<noteq> NULL" "n \<noteq> table"
  proof -
    have "x \<noteq> 0x800000000000"
      using x(3) by auto
    moreover have "x + 0xffff800000000000 = 0 \<longleftrightarrow> x = - 0xffff800000000000" "(- 0xffff800000000000 :: u64) = 0x800000000000"
      by (simp add: add_eq_0_iff2) simp
    ultimately show "n \<noteq> NULL"
      by (simp add: n_def p_addr_to_physical_map_def)
  qed (use x(4) tab in \<open>auto simp: n_def p_addr_to_physical_map_def\<close>)
  define flags where "flags = (if l = 0 then (tab i AND NOT PAGE_ADDRESS_MASK) AND NOT PAGE_LARGE_PAGE else tab i AND NOT PAGE_ADDRESS_MASK)"
  define contents where "contents = (\<lambda>j. if j < 512 then (A + of_nat j * page_size l) OR leaf_page_flags s flags else 0)"
  define e where "e = x OR (intermediate_page_flags flags AND NOT PAGE_LARGE_PAGE)"
  define s' where "s' = s\<lparr>mm_pmm := p, mm_tables := (mm_tables s)(n \<mapsto> contents, table \<mapsto> tab(i := e))\<rparr>"
  have run: "paging_split_page table i (Suc l) s = Ret (IR_OK, s')"
    using alloc nx tab x(2) unfolding paging_split_page_def
    by (simp add: get_entry_def set_entry_def Let_def contents_def e_def flags_def A_def s'_def
      cong: if_cong del: physical_map_base_def)
  have fm: "leaf_page_flags s flags AND PAGE_ADDRESS_MASK = 0"
      "(intermediate_page_flags flags AND NOT PAGE_LARGE_PAGE) AND PAGE_ADDRESS_MASK = 0"
    by (auto simp: and_mask_zero_iff leaf_page_flags_def intermediate_page_flags_def flags_def bit_and_iff bit_not_iff bit_PAGE_ADDRESS_MASK)
  have flag_bits: "bit flags 0 \<longleftrightarrow> IS_PRESENT (tab i)" "bit flags 7 \<longleftrightarrow> l = 1"
    using large l by (auto simp: flags_def IS_PRESENT_bit IS_LARGE_PAGE_bit bit_and_iff bit_not_iff bit_PAGE_ADDRESS_MASK flag_bit_values)
  have "e AND PAGE_ADDRESS_MASK = x"
    using address_of_entry [OF fm(2), of x] x(2) by (simp add: e_def)
  then have "next_table e = n"
    by (simp add: next_table_def n_def p_addr_to_physical_map_def)
  moreover have "\<not> IS_LARGE_PAGE e" "IS_PRESENT e \<longleftrightarrow> IS_PRESENT (tab i)"
    using not_present_mask [of x] flag_bits x(2)
    by (auto simp: e_def IS_PRESENT_bit IS_LARGE_PAGE_bit bit_simps flag_bit_values intermediate_page_flags_def)
  moreover have "let c = contents (unat off div unat (page_size l)) in
        (c AND PAGE_ADDRESS_MASK) + off mod page_size l = A + off \<and>
        (IS_LARGE_PAGE c \<longleftrightarrow> l = 1) \<and> (IS_PRESENT c \<longleftrightarrow> IS_PRESENT (tab i))" if off: "off < page_size (Suc l)" for off
  proof -
    define j where "j = unat off div unat (page_size l)"
    have pl: "page_size l = 2 ^ (12 + 9 * l)" "page_size (Suc l) = 2 ^ (12 + 9 * Suc l)"
      using l by (simp_all add: page_size_power del: mult_Suc_right)
    have un: "unat (page_size (Suc l)) = 2 ^ (12 + 9 * Suc l)" "unat (page_size l) = 2 ^ (12 + 9 * l)"
      using l by (auto simp: page_size_def le_Suc_eq)
    have o: "unat off < 2 ^ (12 + 9 * Suc l)"
      using off un(1) by (simp add: word_less_nat_alt)
    have j: "j < 512"
      using o unfolding j_def un(2) by (intro less_mult_imp_div_less) (simp add: power_add mult.commute)
    have A: "2 ^ (12 + 9 * Suc l) dvd unat A" "unat A < 2 ^ 52"
      using aligned address_part_bounds [of "tab i"] un(1) by (simp_all add: A_def del: mult_Suc_right)
    note split = split_address [OF A l o, folded pl(1), folded j_def]
    have c: "contents j = ((A + of_nat j * page_size l) AND PAGE_ADDRESS_MASK) OR leaf_page_flags s flags"
      using j split(1) by (simp add: contents_def)
    have "contents j AND PAGE_ADDRESS_MASK = A + of_nat j * page_size l"
      unfolding c address_of_entry [OF fm(1)] by (rule split(1))
    moreover have "IS_LARGE_PAGE (contents j) \<longleftrightarrow> l = 1" "IS_PRESENT (contents j) \<longleftrightarrow> IS_PRESENT (tab i)"
      using not_present_mask [of "A + of_nat j * page_size l"] flag_bits unfolding c IS_LARGE_PAGE_bit IS_PRESENT_bit
      by (simp_all add: bit_or_iff leaf_page_flags_def bit_and_iff bit_not_iff flag_bit_values bit_PAGE_ADDRESS_MASK)
    ultimately show ?thesis
      using split(2) unfolding j_def [symmetric] Let_def by simp
  qed
  ultimately show ?thesis
    using run unfolding A_def [symmetric] n_def [symmetric] by (intro exI [of _ s'] exI [of _ contents] exI [of _ e]) (simp add: s'_def)
qed

definition demo_large_table :: page_table where
  "demo_large_table = (\<lambda>_. 0)(0 := 0x40000087)"

definition demo_large_mmu :: mmu where
  "demo_large_mmu = \<lparr>mm_pmm = demo_frames, mm_tables = [0xffff800000101000 \<mapsto> demo_large_table], no_execute_supported = True\<rparr>"

theorem paging_split_page_preserves_witness:
  "\<exists>s'. paging_split_page 0xffff800000101000 0 (Suc 0) demo_large_mmu = Ret (IR_OK, s') \<and>
     (\<exists>contents. mm_tables s' 0xffff800000108000 = Some contents \<and>
        (contents 5 AND PAGE_ADDRESS_MASK) + 0x123 = 0x40005123)"
proof -
  have h: "pmm_inv (mm_pmm demo_large_mmu) (0x1100 # 0x10e0 # [0x10c0, 0x10a0])"
      "page_core (pm_pages (mm_pmm demo_large_mmu)) 0x1100 = Some (0x108000, PAGE_STATE_FREE)"
      "(0x108000 :: u64) AND PAGE_ADDRESS_MASK = 0x108000" "(0x108000 :: u64) < physical_map_length"
      "p_addr_to_physical_map 0x108000 \<notin> dom (mm_tables demo_large_mmu)"
      "mm_tables demo_large_mmu 0xffff800000101000 = Some demo_large_table"
      "IS_LARGE_PAGE (demo_large_table 0)" "(0 :: nat) \<le> 1"
      "unat (page_size (Suc 0)) dvd unat (demo_large_table 0 AND PAGE_ADDRESS_MASK)"
    using demo_frames_inv by (simp_all add: demo_large_mmu_def demo_frames_def demo_frame_def page_core_def
         p_addr_to_physical_map_def page_bits IS_LARGE_PAGE_def page_size_def demo_large_table_def)
  obtain s' contents e where s': "paging_split_page 0xffff800000101000 0 (Suc 0) demo_large_mmu = Ret (IR_OK, s')"
      "mm_tables s' = (mm_tables demo_large_mmu)(p_addr_to_physical_map 0x108000 \<mapsto> contents,
        0xffff800000101000 \<mapsto> demo_large_table(0 := e))"
    and c: "\<And>off. off < page_size (Suc 0) \<Longrightarrow>
       (contents (unat off div unat (page_size 0)) AND PAGE_ADDRESS_MASK) + off mod page_size 0 =
       (demo_large_table 0 AND PAGE_ADDRESS_MASK) + off"
    using paging_split_page_preserves [OF h] unfolding Let_def by blast
  show ?thesis
    using s' c [of "0x5123"] by (auto simp: p_addr_to_physical_map_def page_size_def PAGE_ADDRESS_MASK_def demo_large_table_def)
qed

text \<open>A mapping made without write access revokes the write access of every page that shares its
  512 GB range: the intermediate entries are overwritten with the flags of the new page, so an
  address below the same top-level entry is no longer writable, whatever its own entry says.\<close>

definition writable :: "table_store \<Rightarrow> ptr \<Rightarrow> u64 \<Rightarrow> bool" where
  "writable T root va \<longleftrightarrow>
     (\<forall>k < 3. \<exists>d. entry_at T root (take k (walk va)) (walk va ! k) = Some d \<and> d AND PAGE_WRITABLE \<noteq> 0) \<and>
     (\<exists>d. leaf_entry T root va = Some d \<and> d AND PAGE_WRITABLE \<noteq> 0)"

theorem paging_readonly_revokes_siblings:
  assumes "mmu_inv s root ps" "4 \<le> length ps" "table_flags f" "f AND PAGE_WRITABLE = 0"
    and "INDEX_AT_LEVEL va' 3 = INDEX_AT_LEVEL va 3" "small_walk (mm_tables s) root va"
  shows "\<exists>s'. paging_map_page root va pa f False s = Ret (IR_OK, s') \<and> \<not> writable (mm_tables s') root va'"
proof -
  obtain s' where s': "paging_map_page root va pa f False s = Ret (IR_OK, s')"
      "page_mapped va (pa OR leaf_page_flags s f) (intermediate_page_flags f) (mm_tables s) (mm_tables s') root"
    using paging_map_page_ok [OF assms(1-3) assms(6)] by blast
  then have "\<exists>d. entry_at (mm_tables s') root (take 0 (walk va)) (walk va ! 0) = Some d \<and>
      d AND NOT PAGE_ADDRESS_MASK = intermediate_page_flags f"
    unfolding page_mapped_def by (meson zero_less_numeral)
  then obtain d where d: "entry_at (mm_tables s') root [] (INDEX_AT_LEVEL va 3) = Some d"
      "d AND NOT PAGE_ADDRESS_MASK = intermediate_page_flags f"
    by (auto simp: walk_def)
  have w: "e AND PAGE_WRITABLE = 0 \<longleftrightarrow> \<not> bit e 1" for e :: u64
    using and_exp_eq_0_iff_not_bit [of e 1] by (simp add: PAGE_WRITABLE_def)
  have "\<not> bit (d AND NOT PAGE_ADDRESS_MASK) 1"
    unfolding d(2) using assms(4) by (simp add: w intermediate_page_flags_def bit_and_iff)
  then have "d AND PAGE_WRITABLE = 0"
    by (simp add: w bit_and_iff bit_not_iff bit_PAGE_ADDRESS_MASK)
  then have "\<not> writable (mm_tables s') root va'"
    using d(1) assms(5) unfolding writable_def by (auto simp: walk_def intro: exI [of _ 0])
  then show ?thesis
    using s'(1) by blast
qed

theorem paging_readonly_revokes_siblings_witness:
  "writable (mm_tables demo_mmu) demo_root 0x1000 \<and>
   (\<exists>s'. paging_map_page demo_root 0x40000000 0x700000 5 False demo_mmu = Ret (IR_OK, s') \<and>
      \<not> writable (mm_tables s') demo_root 0x1000)"
proof
  show "writable (mm_tables demo_mmu) demo_root 0x1000"
    unfolding writable_def leaf_entry_def demo_walks below_3 by (auto simp: demo_entry PAGE_WRITABLE_def)
  show "\<exists>s'. paging_map_page demo_root 0x40000000 0x700000 5 False demo_mmu = Ret (IR_OK, s') \<and>
      \<not> writable (mm_tables s') demo_root 0x1000"
    by (rule paging_readonly_revokes_siblings [OF demo_mmu_inv])
      (simp_all add: table_flags_def IS_PRESENT_def IS_LARGE_PAGE_def page_bits INDEX_AT_LEVEL_nat demo_small_walks(3))
qed

text \<open>Unmapping the last page of a lowest-level table in user space removes every mapping below the
  same top-level entry, although only the lowest table is empty: all three rounds test the lowest
  table and clear the entry one level further up. The table's page is counted as freed six times.\<close>

theorem paging_unmap_last_page_drops_siblings:
  assumes inv: "mmu_inv s root ps" and at: "table_at (mm_tables s) root (walk va) = Some t"
    and tab: "mm_tables s t = Some tab" and rest: "\<And>i. i < 512 \<Longrightarrow> i \<noteq> INDEX_AT_LEVEL va 0 \<Longrightarrow> tab i = 0"
    and a: "pmm_page_from_p_addr (physical_map_to_p_addr t) (mm_pmm s) = a" "a \<in> set (region_pages (mm_pmm s))"
      "page_core (pm_pages (mm_pmm s)) a = Some (x, PAGE_STATE_USED)"
    and user: "\<not> arch_is_kernel_pointer va"
  shows "\<exists>s'. paging_unmap_page root va s = Ret (IR_OK, s') \<and>
    (\<forall>va'. INDEX_AT_LEVEL va' 3 = INDEX_AT_LEVEL va 3 \<longrightarrow> translation (mm_tables s') root va' = None) \<and>
    memory_used (mm_pmm s') = memory_used (mm_pmm s) - 6 * PAGE_SIZE \<and>
    memory_free (mm_pmm s') = memory_free (mm_pmm s) + PAGE_SIZE"
proof -
  obtain s' r where s': "paging_unmap_page root va s = Ret (IR_OK, s')" "mm_tables s' root = Some r"
      "r (INDEX_AT_LEVEL va 3) = 0" "memory_used (mm_pmm s') = memory_used (mm_pmm s) - 6 * PAGE_SIZE"
      "memory_free (mm_pmm s') = memory_free (mm_pmm s) + PAGE_SIZE"
    using paging_unmap_last_page [OF inv at tab rest a user] by blast
  have "translation (mm_tables s') root va' = None" if "INDEX_AT_LEVEL va' 3 = INDEX_AT_LEVEL va 3" for va'
    using s'(2,3) that by (simp add: translation_def entry_at_def walk_def)
  then show ?thesis
    using s' by blast
qed

theorem paging_unmap_last_page_drops_siblings_witness:
  "translation (mm_tables demo_mmu) demo_root 0x200000 = Some (0, 0x600007) \<and>
   (\<exists>s'. paging_unmap_page demo_root 0x1000 demo_mmu = Ret (IR_OK, s') \<and>
      translation (mm_tables s') demo_root 0x200000 = None)"
proof -
  have top: "INDEX_AT_LEVEL 0x200000 3 = INDEX_AT_LEVEL 0x1000 3"
    by (simp add: INDEX_AT_LEVEL_nat)
  have "\<exists>s'. paging_unmap_page demo_root 0x1000 demo_mmu = Ret (IR_OK, s') \<and>
    (\<forall>va'. INDEX_AT_LEVEL va' 3 = INDEX_AT_LEVEL 0x1000 3 \<longrightarrow> translation (mm_tables s') demo_root va' = None) \<and>
    memory_used (mm_pmm s') = memory_used (mm_pmm demo_mmu) - 6 * PAGE_SIZE \<and>
    memory_free (mm_pmm s') = memory_free (mm_pmm demo_mmu) + PAGE_SIZE"
  proof (rule paging_unmap_last_page_drops_siblings [OF demo_mmu_inv])
    show "table_at (mm_tables demo_mmu) demo_root (walk 0x1000) = Some 0xffff800000103000"
      unfolding demo_walks demo_mmu_def by (simp add: demo_table_at del: table_at.simps)
    show "mm_tables demo_mmu 0xffff800000103000 = Some ((\<lambda>_. 0)(1 := 0x500007))"
      by (simp add: demo_mmu_def demo_tables_def)
    show "pmm_page_from_p_addr (physical_map_to_p_addr 0xffff800000103000) (mm_pmm demo_mmu) = 0x1060"
      by (simp add: demo_mmu_def demo_frames_def physical_map_to_p_addr_def pmm_page_from_p_addr_def
          demo_frame_region_def page_ptr_def PAGE_INDEX_IN_REGION_def)
    show "0x1060 \<in> set (region_pages (mm_pmm demo_mmu))"
      by (simp add: demo_mmu_def demo_frame_pages)
    show "page_core (pm_pages (mm_pmm demo_mmu)) 0x1060 = Some (0x103000, PAGE_STATE_USED)"
      by (simp add: demo_mmu_def demo_frames_def demo_frame_def page_core_def)
  qed (simp_all add: demo_walks arch_is_kernel_pointer_def)
  then show ?thesis
    using top demo_translations(1) by blast
qed

end
