(* ===== verification/Kernel_State.thy ===== *)
theory Kernel_State
  imports Paging Linked_List
begin

text \<open>
  The state of the kernel proper: one store per kind of structure, the scheduler's queues, the
  tables of interrupts and port ranges, user memory and the current thread. A kernel list is the
  HOL list of the pointers it stores; the pointer-level implementation is refined to such lists in
  the theory of linked lists. The header every kernel object starts with is in its own store under
  the object's address, so a cast to the wrong structure finds nothing in the store of that
  structure and is a \<^term>\<open>Fault\<close>. Calls that only reach hardware (routing an interrupt line, writing
  an I/O port) are recorded in the order they are made. The addresses \<^verbatim>\<open>malloc\<close> and \<^verbatim>\<open>calloc\<close> return are supplied by the
  state as a list; an exhausted list is a null result.
\<close>

section \<open>Structures\<close>

text \<open>\<^verbatim>\<open>struct object\<close>.\<close>

record object =
  ob_type :: u32
  references :: u32
  ob_parent :: ptr
  children :: "ptr list"
  signals :: u64
  signal_listeners :: "ptr list"
  ob_lock :: lock

record signal_listener =
  sl_target :: ptr
  sl_thread :: ptr
  target_signals :: u64
  observed_signals :: u64
  deadline :: u64

record handle =
  handle_id :: u64
  rights :: u64
  h_object :: ptr

record v_addr_region =
  vr_base :: u64
  vr_length :: u64
  vr_flags :: u64
  can_destroy :: bool
  destroyed :: bool
  containing_address_space :: ptr
  vr_vm_object :: ptr

record vm_object =
  page_list :: ptr
  page_count :: u64
  vm_size :: u64
  access_flags :: u64

datatype termination_state = ACTIVE | TERMINATING | TERMINATED

text \<open>The registers of a saved context that the kernel's C code sets.\<close>

record registers =
  rip :: u64
  rsp :: u64
  rdi :: u64
  reg_cs :: u64
  reg_ss :: u64
  rflags :: u64
  gs_base :: u64

text \<open>
  The state of a task, the only member besides its object header, is stored under its address. The address of a process's \<^verbatim>\<open>address_space\<close> member
  is represented by that of the process.
\<close>

record process =
  root_v_addr_region :: ptr
  pr_state :: termination_state
  pr_exit_code :: u64
  handle_table :: "ptr list"
  next_handle_id :: u64
  free_handle_ids :: "u64 list"
  handle_table_lock :: lock

record thread =
  kernel_stack_top :: u64
  kernel_stack :: ptr
  th_state :: termination_state
  th_exit_code :: u64
  th_context :: registers
  sleeping_until :: u64
  blocking_listener :: ptr
  in_syscall :: bool
  thread_id :: u32

record channel =
  peer :: ptr
  message_queue :: "ptr list"

text \<open>The data block of a message: handle pointers, then bytes.\<close>

record channel_message =
  msg_handles :: "ptr list"
  msg_bytes :: "u8 list"

record interrupt =
  int_thread :: ptr
  int_queue :: "u64 list"
  int_vector :: u32
  irq_line :: u32
  armed :: bool

record ioport =
  base_port :: u32
  range_length :: u64

record kernel =
  objs :: "ptr \<rightharpoonup> object"
  listeners :: "ptr \<rightharpoonup> signal_listener"
  handles :: "ptr \<rightharpoonup> handle"
  regions :: "ptr \<rightharpoonup> v_addr_region"
  vms :: "ptr \<rightharpoonup> vm_object"
  procs :: "ptr \<rightharpoonup> process"
  threads :: "ptr \<rightharpoonup> thread"
  chans :: "ptr \<rightharpoonup> channel"
  msgs :: "ptr \<rightharpoonup> channel_message"
  ints :: "ptr \<rightharpoonup> interrupt"
  ports :: "ptr \<rightharpoonup> ioport"
  spaces :: "ptr \<rightharpoonup> address_space"
  tasks :: "ptr \<rightharpoonup> termination_state"
  run_queue :: "ptr list"
  waiting_for_signals :: "ptr list"
  sleeping_threads :: "ptr list"
  allocated_ranges :: "ptr list"
  io_space_lock :: lock
  interrupt_table :: "ptr list"
  irq_calls :: "(u32 \<times> u32 option) list"
  port_writes :: "(u32 \<times> u64 \<times> u64) list"
  microseconds_since_boot :: u64
  current_thread :: ptr
  idle_thread :: ptr
  idle_process :: ptr
  next_thread_id :: u32
  kernel_region :: ptr
  kernel_mmu :: mmu
  cpu_context :: registers
  cr3 :: u64
  interrupt_stack :: u64
  memory :: "ptr \<Rightarrow> u8"
  heap :: "ptr list"

section \<open>Constants\<close>

definition OBJECT_TYPE_V_ADDR_REGION :: u32 where [simp]: "OBJECT_TYPE_V_ADDR_REGION = 1"
definition OBJECT_TYPE_VM_OBJECT :: u32 where [simp]: "OBJECT_TYPE_VM_OBJECT = 2"
definition OBJECT_TYPE_PROCESS :: u32 where [simp]: "OBJECT_TYPE_PROCESS = 3"
definition OBJECT_TYPE_THREAD :: u32 where [simp]: "OBJECT_TYPE_THREAD = 4"
definition OBJECT_TYPE_TASK :: u32 where [simp]: "OBJECT_TYPE_TASK = 5"
definition OBJECT_TYPE_CHANNEL :: u32 where [simp]: "OBJECT_TYPE_CHANNEL = 6"
definition OBJECT_TYPE_INTERRUPT :: u32 where [simp]: "OBJECT_TYPE_INTERRUPT = 7"
definition OBJECT_TYPE_IOPORT :: u32 where [simp]: "OBJECT_TYPE_IOPORT = 8"

definition IR_RIGHT_DUPLICATE :: u64 where "IR_RIGHT_DUPLICATE = 0x1"
definition IR_RIGHT_TRANSFER :: u64 where "IR_RIGHT_TRANSFER = 0x2"
definition IR_RIGHT_READ :: u64 where "IR_RIGHT_READ = 0x4"
definition IR_RIGHT_WRITE :: u64 where "IR_RIGHT_WRITE = 0x8"
definition IR_RIGHT_MAP :: u64 where "IR_RIGHT_MAP = 0x10"
definition IR_RIGHT_EXECUTE :: u64 where "IR_RIGHT_EXECUTE = 0x20"
definition IR_RIGHT_INFO :: u64 where "IR_RIGHT_INFO = 0x40"
definition IR_RIGHT_ALL :: u64 where "IR_RIGHT_ALL = 0x1ff"

definition PROCESS_SIGNAL_TERMINATED :: u64 where "PROCESS_SIGNAL_TERMINATED = 0x1"
definition CHANNEL_SIGNAL_PEER_DISCONNECTED :: u64 where "CHANNEL_SIGNAL_PEER_DISCONNECTED = 0x10"

definition VM_READABLE :: u64 where "VM_READABLE = 0x1"
definition VM_WRITABLE :: u64 where "VM_WRITABLE = 0x2"
definition VM_EXECUTABLE :: u64 where "VM_EXECUTABLE = 0x4"
definition VM_DISABLE_CACHING :: u64 where "VM_DISABLE_CACHING = 0x8"
definition VM_MMIO_FLAGS :: u64 where "VM_MMIO_FLAGS = VM_DISABLE_CACHING OR VM_WRITABLE OR VM_READABLE"

definition NUMBER_OF_INTERRUPTS :: nat where "NUMBER_OF_INTERRUPTS = 256"

section \<open>Access\<close>

text \<open>Changing the structure a pointer refers to; a pointer that refers to none is a fault.\<close>

definition upd_obj :: "ptr \<Rightarrow> (object \<Rightarrow> object) \<Rightarrow> kernel \<Rightarrow> kernel outcome" where
  "upd_obj p f s = obind (load (objs s) p) (\<lambda>x. Ret (s\<lparr>objs := (objs s)(p \<mapsto> f x)\<rparr>))"

definition upd_listener :: "ptr \<Rightarrow> (signal_listener \<Rightarrow> signal_listener) \<Rightarrow> kernel \<Rightarrow> kernel outcome" where
  "upd_listener p f s = obind (load (listeners s) p) (\<lambda>x. Ret (s\<lparr>listeners := (listeners s)(p \<mapsto> f x)\<rparr>))"

definition upd_handle :: "ptr \<Rightarrow> (handle \<Rightarrow> handle) \<Rightarrow> kernel \<Rightarrow> kernel outcome" where
  "upd_handle p f s = obind (load (handles s) p) (\<lambda>x. Ret (s\<lparr>handles := (handles s)(p \<mapsto> f x)\<rparr>))"

definition upd_region :: "ptr \<Rightarrow> (v_addr_region \<Rightarrow> v_addr_region) \<Rightarrow> kernel \<Rightarrow> kernel outcome" where
  "upd_region p f s = obind (load (regions s) p) (\<lambda>x. Ret (s\<lparr>regions := (regions s)(p \<mapsto> f x)\<rparr>))"

definition upd_proc :: "ptr \<Rightarrow> (process \<Rightarrow> process) \<Rightarrow> kernel \<Rightarrow> kernel outcome" where
  "upd_proc p f s = obind (load (procs s) p) (\<lambda>x. Ret (s\<lparr>procs := (procs s)(p \<mapsto> f x)\<rparr>))"

definition upd_thread :: "ptr \<Rightarrow> (thread \<Rightarrow> thread) \<Rightarrow> kernel \<Rightarrow> kernel outcome" where
  "upd_thread p f s = obind (load (threads s) p) (\<lambda>x. Ret (s\<lparr>threads := (threads s)(p \<mapsto> f x)\<rparr>))"

definition upd_chan :: "ptr \<Rightarrow> (channel \<Rightarrow> channel) \<Rightarrow> kernel \<Rightarrow> kernel outcome" where
  "upd_chan p f s = obind (load (chans s) p) (\<lambda>x. Ret (s\<lparr>chans := (chans s)(p \<mapsto> f x)\<rparr>))"

definition upd_int :: "ptr \<Rightarrow> (interrupt \<Rightarrow> interrupt) \<Rightarrow> kernel \<Rightarrow> kernel outcome" where
  "upd_int p f s = obind (load (ints s) p) (\<lambda>x. Ret (s\<lparr>ints := (ints s)(p \<mapsto> f x)\<rparr>))"

text \<open>The spinlock of an object and of a process's handle table.\<close>

definition lock_obj :: "ptr \<Rightarrow> kernel \<Rightarrow> kernel outcome" where
  "lock_obj p s = obind (load (objs s) p) (\<lambda>x.
     obind (spinlock_aquire (ob_lock x)) (\<lambda>l. Ret (s\<lparr>objs := (objs s)(p \<mapsto> x\<lparr>ob_lock := l\<rparr>)\<rparr>)))"

definition unlock_obj :: "ptr \<Rightarrow> kernel \<Rightarrow> kernel outcome" where
  "unlock_obj p s = upd_obj p (\<lambda>x. x\<lparr>ob_lock := spinlock_release (ob_lock x)\<rparr>) s"

definition lock_handle_table :: "ptr \<Rightarrow> kernel \<Rightarrow> kernel outcome" where
  "lock_handle_table p s = obind (load (procs s) p) (\<lambda>x.
     obind (spinlock_aquire (handle_table_lock x)) (\<lambda>l.
     Ret (s\<lparr>procs := (procs s)(p \<mapsto> x\<lparr>handle_table_lock := l\<rparr>)\<rparr>)))"

definition unlock_handle_table :: "ptr \<Rightarrow> kernel \<Rightarrow> kernel outcome" where
  "unlock_handle_table p s = upd_proc p (\<lambda>x. x\<lparr>handle_table_lock := spinlock_release (handle_table_lock x)\<rparr>) s"

text \<open>\<^verbatim>\<open>(struct process*)this_cpu->current_thread->object.parent\<close>.\<close>

definition current_process :: "kernel \<Rightarrow> ptr outcome" where
  "current_process s = obind (load (objs s) (current_thread s)) (\<lambda>x. Ret (ob_parent x))"

definition malloc :: "kernel \<Rightarrow> ptr \<times> kernel" where
  "malloc s = (case heap s of [] \<Rightarrow> (NULL, s) | p # ps \<Rightarrow> (p, s\<lparr>heap := ps\<rparr>))"

text \<open>An object header as \<^verbatim>\<open>calloc\<close> leaves it, with its type and parent set.\<close>

definition new_object :: "u32 \<Rightarrow> ptr \<Rightarrow> object" where
  "new_object t par = \<lparr>ob_type = t, references = 0, ob_parent = par, children = [], signals = 0,
     signal_listeners = [], ob_lock = False\<rparr>"

text \<open>Searching a list with a comparison that reads the elements.\<close>

fun list_find :: "(ptr \<Rightarrow> int outcome) \<Rightarrow> ptr list \<Rightarrow> ptr option outcome" where
  "list_find cmp [] = Ret None"
| "list_find cmp (x # xs) = obind (cmp x) (\<lambda>c. if c = 0 then Ret (Some x) else list_find cmp xs)"

fun list_find_and_remove :: "(ptr \<Rightarrow> int outcome) \<Rightarrow> ptr list \<Rightarrow> (ptr option \<times> ptr list) outcome" where
  "list_find_and_remove cmp [] = Ret (None, [])"
| "list_find_and_remove cmp (x # xs) = obind (cmp x) (\<lambda>c.
     if c = 0 then Ret (Some x, xs)
     else obind (list_find_and_remove cmp xs) (\<lambda>(r, ys). Ret (r, x # ys)))"

text \<open>\<^verbatim>\<open>linked_list_find_and_remove\<close> with a null comparison function.\<close>

definition remove_ptr :: "ptr \<Rightarrow> ptr list \<Rightarrow> ptr list" where
  "remove_ptr target xs = (case index_of (\<lambda>x. default_search x target = 0) xs of None \<Rightarrow> xs | Some i \<Rightarrow> delete_at i xs)"

text \<open>Memory is bytes; a 64-bit store writes eight of them, the lowest first.\<close>

definition write_word :: "ptr \<Rightarrow> u64 \<Rightarrow> (ptr \<Rightarrow> u8) \<Rightarrow> ptr \<Rightarrow> u8" where
  "write_word a w m = (\<lambda>x. if unat (x - a) < 8 then ucast (drop_bit (8 * unat (x - a)) w) else m x)"

definition read_word :: "ptr \<Rightarrow> (ptr \<Rightarrow> u8) \<Rightarrow> u64" where
  "read_word a m = foldr (\<lambda>i w. push_bit 8 w OR ucast (m (a + of_nat i))) [0..<8] 0"

fun write_bytes :: "ptr \<Rightarrow> u8 list \<Rightarrow> (ptr \<Rightarrow> u8) \<Rightarrow> ptr \<Rightarrow> u8" where
  "write_bytes a [] m = m"
| "write_bytes a (b # bs) m = write_bytes (a + 1) bs (m(a := b))"

definition read_bytes :: "ptr \<Rightarrow> nat \<Rightarrow> (ptr \<Rightarrow> u8) \<Rightarrow> u8 list" where
  "read_bytes a n m = map (\<lambda>i. m (a + of_nat i)) [0..<n]"

definition put_word :: "ptr \<Rightarrow> u64 \<Rightarrow> kernel \<Rightarrow> kernel" where
  "put_word a w s = s\<lparr>memory := write_word a w (memory s)\<rparr>"

section \<open>Lemmas on access\<close>

lemma upd_simps [simp]:
  "objs s p = Some ob \<Longrightarrow> upd_obj p f s = Ret (s\<lparr>objs := (objs s)(p \<mapsto> f ob)\<rparr>)"
  "listeners s p = Some l \<Longrightarrow> upd_listener p f1 s = Ret (s\<lparr>listeners := (listeners s)(p \<mapsto> f1 l)\<rparr>)"
  "handles s p = Some h \<Longrightarrow> upd_handle p f2 s = Ret (s\<lparr>handles := (handles s)(p \<mapsto> f2 h)\<rparr>)"
  "regions s p = Some r \<Longrightarrow> upd_region p f3 s = Ret (s\<lparr>regions := (regions s)(p \<mapsto> f3 r)\<rparr>)"
  "procs s p = Some q \<Longrightarrow> upd_proc p f4 s = Ret (s\<lparr>procs := (procs s)(p \<mapsto> f4 q)\<rparr>)"
  "threads s p = Some t \<Longrightarrow> upd_thread p f5 s = Ret (s\<lparr>threads := (threads s)(p \<mapsto> f5 t)\<rparr>)"
  "chans s p = Some c \<Longrightarrow> upd_chan p f6 s = Ret (s\<lparr>chans := (chans s)(p \<mapsto> f6 c)\<rparr>)"
  "ints s p = Some i \<Longrightarrow> upd_int p f7 s = Ret (s\<lparr>ints := (ints s)(p \<mapsto> f7 i)\<rparr>)"
  by (simp_all add: upd_obj_def upd_listener_def upd_handle_def upd_region_def upd_proc_def upd_thread_def
      upd_chan_def upd_int_def)

lemma lock_simps [simp]:
  "objs s p = Some ob \<Longrightarrow> \<not> ob_lock ob \<Longrightarrow> lock_obj p s = Ret (s\<lparr>objs := (objs s)(p \<mapsto> ob\<lparr>ob_lock := True\<rparr>)\<rparr>)"
  "objs s p = Some ob \<Longrightarrow> ob_lock ob \<Longrightarrow> lock_obj p s = Hang"
  "objs s p = Some ob \<Longrightarrow> unlock_obj p s = Ret (s\<lparr>objs := (objs s)(p \<mapsto> ob\<lparr>ob_lock := False\<rparr>)\<rparr>)"
  "procs s p = Some q \<Longrightarrow> \<not> handle_table_lock q \<Longrightarrow>
     lock_handle_table p s = Ret (s\<lparr>procs := (procs s)(p \<mapsto> q\<lparr>handle_table_lock := True\<rparr>)\<rparr>)"
  "procs s p = Some q \<Longrightarrow> handle_table_lock q \<Longrightarrow> lock_handle_table p s = Hang"
  "procs s p = Some q \<Longrightarrow> unlock_handle_table p s = Ret (s\<lparr>procs := (procs s)(p \<mapsto> q\<lparr>handle_table_lock := False\<rparr>)\<rparr>)"
  by (simp_all add: lock_obj_def unlock_obj_def lock_handle_table_def unlock_handle_table_def)

lemma lock_obj_eq_Ret_conv [outcome_simps]:
  "lock_obj p s = Ret s' \<longleftrightarrow>
     (\<exists>ob. objs s p = Some ob \<and> \<not> ob_lock ob \<and> s' = s\<lparr>objs := (objs s)(p \<mapsto> ob\<lparr>ob_lock := True\<rparr>)\<rparr>)"
  by (auto simp: lock_obj_def outcome_simps spinlock_aquire_def split: if_splits)

lemma list_find_pure:
  assumes "\<And>x. x \<in> set xs \<Longrightarrow> cmp x = Ret (c x)"
  shows "list_find cmp xs = Ret (map_option (\<lambda>i. xs ! i) (index_of (\<lambda>x. c x = 0) xs))"
  using assms
proof (induction xs)
  case Nil
  then show ?case by simp
next
  case (Cons x xs)
  then show ?case
    by (cases "index_of (\<lambda>x. c x = 0) xs") auto
qed

lemma list_find_and_remove_pure:
  assumes "\<And>x. x \<in> set xs \<Longrightarrow> cmp x = Ret (c x)"
  shows "list_find_and_remove cmp xs =
    (case index_of (\<lambda>x. c x = 0) xs of None \<Rightarrow> Ret (None, xs) | Some i \<Rightarrow> Ret (Some (xs ! i), delete_at i xs))"
  using assms
proof (induction xs)
  case Nil
  then show ?case by simp
next
  case (Cons x xs)
  then show ?case
    by (cases "index_of (\<lambda>x. c x = 0) xs") (auto simp: delete_at_def)
qed

lemma bit_read_word:
  "bit (read_word a m) n \<longleftrightarrow> n < 64 \<and> bit (m (a + of_nat (n div 8))) (n mod 8)"
proof -
  have "bit (foldr (\<lambda>i w. push_bit 8 w OR ucast (m (a + of_nat i))) [k..<8] (0::u64)) n \<longleftrightarrow>
      n < 8 * (8 - k) \<and> bit (m (a + of_nat (k + n div 8))) (n mod 8)" if "k \<le> 8" for k
    using that
  proof (induction "8 - k" arbitrary: k n)
    case 0
    then show ?case by simp
  next
    case (Suc d)
    then have k: "k < 8" and d: "d = 8 - Suc k"
      by simp_all
    have "bit (foldr (\<lambda>i w. push_bit 8 w OR ucast (m (a + of_nat i))) [k..<8] (0::u64)) n \<longleftrightarrow>
        (8 \<le> n \<and> n < 64 \<and> bit (foldr (\<lambda>i w. push_bit 8 w OR ucast (m (a + of_nat i))) [Suc k..<8] (0::u64)) (n - 8)) \<or>
        (n < 64 \<and> bit (m (a + of_nat k)) n)"
      using k by (auto simp: upt_conv_Cons bit_or_iff bit_push_bit_iff bit_ucast_iff)
    also have "\<dots> \<longleftrightarrow> n < 8 * (8 - k) \<and> bit (m (a + of_nat (k + n div 8))) (n mod 8)"
    proof (cases "n < 8")
      case True
      moreover have "n < 8 * (8 - k)"
        using True k by arith
      ultimately show ?thesis
        by simp
    next
      case False
      then have "n div 8 = Suc ((n - 8) div 8)" "(n - 8) mod 8 = n mod 8"
        by (simp_all add: le_div_geq le_mod_geq)
      moreover have "\<not> bit (m (a + of_nat k)) n"
        using False by (auto dest: bit_imp_le_length)
      ultimately show ?thesis
        using Suc.hyps(1) [OF d, of "n - 8"] False k by auto
    qed
    finally show ?case .
  qed
  from this [of 0] show ?thesis
    by (simp add: read_word_def)
qed

lemma read_write_word: "read_word a (write_word a w m) = w"
proof (rule bit_word_eqI)
  fix n assume n: "n < LENGTH(64)"
  then have "unat (of_nat (n div 8) :: u64) = n div 8"
    by (intro unat_of_nat_u64) simp
  moreover have "n div 8 < 8"
    using n by simp
  moreover have "8 * (n div 8) + n mod 8 = n"
    by simp
  ultimately show "bit (read_word a (write_word a w m)) n \<longleftrightarrow> bit w n"
    using n by (simp add: bit_read_word write_word_def bit_ucast_iff bit_drop_bit_eq)
qed

lemma put_word_sel [simp]:
  "objs (put_word a w s) = objs s" "listeners (put_word a w s) = listeners s" "handles (put_word a w s) = handles s"
  "regions (put_word a w s) = regions s" "vms (put_word a w s) = vms s" "procs (put_word a w s) = procs s"
  "threads (put_word a w s) = threads s" "chans (put_word a w s) = chans s" "msgs (put_word a w s) = msgs s"
  "ints (put_word a w s) = ints s" "ports (put_word a w s) = ports s" "run_queue (put_word a w s) = run_queue s"
  "current_thread (put_word a w s) = current_thread s" "memory (put_word a w s) = write_word a w (memory s)"
  "heap (put_word a w s) = heap s" "kernel_mmu (put_word a w s) = kernel_mmu s"
  by (simp_all add: put_word_def)

section \<open>A kernel without objects\<close>

definition blank_registers :: registers where
  "blank_registers = \<lparr>rip = 0, rsp = 0, rdi = 0, reg_cs = 0, reg_ss = 0, rflags = 0, gs_base = 0\<rparr>"

definition blank_pmm :: pmm where
  "blank_pmm = \<lparr>pm_pages = Map.empty, free_list = NULL, pages_in_free_list = 0, regions_array = [], regions_count = 0,
     initialized_regions = 0, memory_free = 0, memory_used = 0, memory_reserved = 0\<rparr>"

definition blank_kernel :: kernel where
  "blank_kernel = \<lparr>objs = Map.empty, listeners = Map.empty, handles = Map.empty, regions = Map.empty, vms = Map.empty,
     procs = Map.empty, threads = Map.empty, chans = Map.empty, msgs = Map.empty, ints = Map.empty, ports = Map.empty,
     spaces = Map.empty, tasks = Map.empty, run_queue = [], waiting_for_signals = [], sleeping_threads = [], allocated_ranges = [],
     io_space_lock = False, interrupt_table = replicate NUMBER_OF_INTERRUPTS NULL, irq_calls = [], port_writes = [],
     microseconds_since_boot = 0, current_thread = NULL, idle_thread = NULL, idle_process = NULL, next_thread_id = 1, kernel_region = NULL,
     kernel_mmu = \<lparr>mm_pmm = blank_pmm, mm_tables = Map.empty, no_execute_supported = False\<rparr>,
     cpu_context = blank_registers, cr3 = 0, interrupt_stack = 0, memory = (\<lambda>_. 0), heap = []\<rparr>"

end
