(* ===== verification/Lifetime.thy ===== *)
theory Lifetime
  imports Kernel_State
begin

text \<open>
  Signals and the lifetime of kernel objects: \<^verbatim>\<open>object_set_signals\<close> with the part of the scheduler
  that wakes listeners, and \<^verbatim>\<open>object_decrement_references\<close> with the cleanup function of every type
  of object. Releasing one object can release others (a region its parent and its memory object, a
  channel the objects of unread handles), so these functions call each other; the recursion is
  bounded by an explicit depth, and running out of it is \<^term>\<open>Hang\<close>.
\<close>

section \<open>Waking threads\<close>

definition schedule_thread :: "ptr \<Rightarrow> kernel \<Rightarrow> kernel outcome" where
  "schedule_thread thread s =
     (if thread = NULL then Panic else
      obind (load (threads s) thread) (\<lambda>t.
      if th_state t = TERMINATED then Panic
      else Ret (s\<lparr>run_queue := run_queue s @ [thread]\<rparr>)))"

definition scheduler_unblock_listener :: "ptr \<Rightarrow> kernel \<Rightarrow> kernel outcome" where
  "scheduler_unblock_listener listener s =
     (let s = s\<lparr>waiting_for_signals := remove_ptr listener (waiting_for_signals s)\<rparr> in
      obind (load (listeners s) listener) (\<lambda>l.
      obind (lock_obj (sl_target l) s) (\<lambda>s.
      obind (upd_obj (sl_target l) (\<lambda>x. x\<lparr>signal_listeners := remove_ptr listener (signal_listeners x)\<rparr>) s) (\<lambda>s.
      obind (unlock_obj (sl_target l) s) (\<lambda>s.
      obind (upd_thread (sl_thread l) (\<lambda>t. t\<lparr>blocking_listener := NULL\<rparr>) s) (\<lambda>s.
      Ret (s\<lparr>run_queue := run_queue s @ [sl_thread l]\<rparr>)))))))"

text \<open>
  The listener loop. \<^verbatim>\<open>linked_list_remove\<close> takes out the element before a non-zero position; after
  a listener was woken the counter stays where it is.
\<close>

partial_function (option) set_signals_loop :: "ptr \<Rightarrow> u64 \<Rightarrow> nat \<Rightarrow> kernel \<Rightarrow> kernel outcome option" where
  "set_signals_loop obj sig i s =
     (case objs s obj of None \<Rightarrow> Some Fault | Some x \<Rightarrow>
      if i < length (signal_listeners x) then
        (let listener = signal_listeners x ! i in
         case listeners s listener of None \<Rightarrow> Some Fault | Some l \<Rightarrow>
         if target_signals l AND sig \<noteq> 0 then
           (case obind (upd_obj obj (\<lambda>x. x\<lparr>signal_listeners := delete_at (i - 1) (signal_listeners x)\<rparr>) s) (\<lambda>s.
                 obind (upd_listener listener (\<lambda>l. l\<lparr>observed_signals := sig\<rparr>) s) (\<lambda>s.
                 scheduler_unblock_listener listener s)) of
              Ret s \<Rightarrow> set_signals_loop obj sig i s
            | Fault \<Rightarrow> Some Fault | Panic \<Rightarrow> Some Panic | Hang \<Rightarrow> Some Hang)
         else set_signals_loop obj sig (Suc i) s)
      else Some (Ret s))"

declare set_signals_loop.simps [code]

definition object_set_signals :: "ptr \<Rightarrow> u64 \<Rightarrow> kernel \<Rightarrow> kernel outcome" where
  "object_set_signals obj sig s =
     obind (upd_obj obj (\<lambda>x. x\<lparr>signals := sig\<rparr>) s) (\<lambda>s.
     looped (set_signals_loop obj sig 0 s))"

section \<open>Cleanup that frees no other object\<close>

text \<open>Every page of the list but the last is given back.\<close>

partial_function (option) vm_free_pages :: "ptr \<Rightarrow> pmm \<Rightarrow> pmm outcome option" where
  "vm_free_pages page p =
     (case pm_pages p page of None \<Rightarrow> Some Fault | Some pg \<Rightarrow>
      if pg_next pg \<noteq> NULL then
        (case pmm_free_page page p of
           Ret p \<Rightarrow> vm_free_pages (pg_next pg) p
         | Fault \<Rightarrow> Some Fault | Panic \<Rightarrow> Some Panic | Hang \<Rightarrow> Some Hang)
      else Some (Ret p))"

declare vm_free_pages.simps [code]

text \<open>\<^verbatim>\<open>free\<close> of a kernel object: its header and its structure are gone, the address space of a process with it.\<close>

definition free_object :: "ptr \<Rightarrow> kernel \<Rightarrow> kernel" where
  "free_object p s = s\<lparr>objs := (objs s)(p := None), regions := (regions s)(p := None), vms := (vms s)(p := None),
     procs := (procs s)(p := None), threads := (threads s)(p := None), chans := (chans s)(p := None),
     ints := (ints s)(p := None), ports := (ports s)(p := None), spaces := (spaces s)(p := None)\<rparr>"

definition vm_object_cleanup :: "ptr \<Rightarrow> kernel \<Rightarrow> kernel outcome" where
  "vm_object_cleanup vm s =
     obind (load (vms s) vm) (\<lambda>v.
     obind (looped (vm_free_pages (page_list v) (mm_pmm (kernel_mmu s)))) (\<lambda>p.
     Ret (free_object vm (s\<lparr>kernel_mmu := (kernel_mmu s)\<lparr>mm_pmm := p\<rparr>\<rparr>))))"

definition process_cleanup :: "ptr \<Rightarrow> kernel \<Rightarrow> kernel outcome" where
  "process_cleanup p s = Ret (free_object p s)"

definition thread_cleanup :: "ptr \<Rightarrow> kernel \<Rightarrow> kernel outcome" where
  "thread_cleanup p s = Ret (free_object p s)"

text \<open>The table index is the vector read as a C \<^verbatim>\<open>int\<close>; an index outside the table is a fault.\<close>

definition interrupt_cleanup :: "ptr \<Rightarrow> kernel \<Rightarrow> kernel outcome" where
  "interrupt_cleanup interrupt s =
     obind (load (ints s) interrupt) (\<lambda>i.
     let vector = sint (int_vector i);
         s = s\<lparr>irq_calls := irq_calls s @ [(irq_line i, None)]\<rparr> in
     if vector < 0 \<or> vector \<ge> int (length (interrupt_table s)) then Fault
     else Ret (free_object interrupt (s\<lparr>interrupt_table := (interrupt_table s)[nat vector := NULL]\<rparr>)))"

definition range_by_base :: "kernel \<Rightarrow> ptr \<Rightarrow> ptr \<Rightarrow> int outcome" where
  "range_by_base s data target = obind (load (ports s) data) (\<lambda>r. Ret (int_of_u64 (ucast (base_port r) - target)))"

definition ioport_cleanup :: "ptr \<Rightarrow> kernel \<Rightarrow> kernel outcome" where
  "ioport_cleanup rng s =
     obind (load (ports s) rng) (\<lambda>r.
     obind (list_find_and_remove (\<lambda>d. range_by_base s d (ucast (base_port r))) (allocated_ranges s)) (\<lambda>(_, xs).
     Ret (free_object rng (s\<lparr>allocated_ranges := xs\<rparr>))))"

text \<open>The order of two regions by their base addresses.\<close>

definition compare_bases :: "kernel \<Rightarrow> ptr \<Rightarrow> ptr \<Rightarrow> int outcome" where
  "compare_bases s data target =
     obind (load (regions s) data) (\<lambda>d.
     obind (load (regions s) target) (\<lambda>t.
     if vr_base d = vr_base t then Ret 0 else if vr_base d < vr_base t then Ret (- 1) else Ret 1))"

text \<open>The address space argument of \<^verbatim>\<open>arch_mmu_unmap\<close>, which tests it for null.\<close>

definition space_at :: "ptr \<Rightarrow> kernel \<Rightarrow> address_space option outcome" where
  "space_at p s = (if p = NULL then Ret None else obind (load (spaces s) p) (\<lambda>a. Ret (Some a)))"

section \<open>Releasing references\<close>

text \<open>
  The functions that call each other, as a datatype of calls; each function is given the meaning of
  the calls it makes, and \<open>release\<close> ties the knot to a given depth.
\<close>

datatype release_call =
    Decrement ptr
  | Region_cleanup ptr
  | Region_destroy ptr
  | Destroy_children ptr
  | Channel_cleanup ptr
  | Drain_messages ptr
  | Release_handles "ptr list"

type_synonym release_fun = "release_call \<Rightarrow> kernel \<Rightarrow> kernel outcome"

definition decrement_body :: "release_fun \<Rightarrow> ptr \<Rightarrow> kernel \<Rightarrow> kernel outcome" where
  "decrement_body rec obj s =
     obind (load (objs s) obj) (\<lambda>x.
     if ob_type x = 0 then Panic else
     obind (upd_obj obj (\<lambda>x. x\<lparr>references := references x - 1\<rparr>) s) (\<lambda>s.
     if references x - 1 \<noteq> 0 then Ret s else
     obind (lock_obj obj s) (\<lambda>s.
     if ob_type x = OBJECT_TYPE_V_ADDR_REGION then rec (Region_cleanup obj) s
     else if ob_type x = OBJECT_TYPE_VM_OBJECT then vm_object_cleanup obj s
     else if ob_type x = OBJECT_TYPE_PROCESS then process_cleanup obj s
     else if ob_type x = OBJECT_TYPE_THREAD then thread_cleanup obj s
     else if ob_type x = OBJECT_TYPE_CHANNEL then rec (Channel_cleanup obj) s
     else if ob_type x = OBJECT_TYPE_INTERRUPT then interrupt_cleanup obj s
     else if ob_type x = OBJECT_TYPE_IOPORT then ioport_cleanup obj s
     else Fault)))"

definition region_destroy_body :: "release_fun \<Rightarrow> ptr \<Rightarrow> kernel \<Rightarrow> kernel outcome" where
  "region_destroy_body rec region s =
     obind (load (objs s) region) (\<lambda>x.
     let par = ob_parent x in
     obind (if par \<noteq> NULL then
              obind (load (objs s) par) (\<lambda>p.
              obind (list_find_and_remove (\<lambda>d. compare_bases s d region) (children p)) (\<lambda>(_, cs).
              upd_obj par (\<lambda>p. p\<lparr>children := cs\<rparr>) s))
            else Ret s) (\<lambda>s.
     obind (upd_region region (\<lambda>r. r\<lparr>destroyed := True\<rparr>) s) (\<lambda>s.
     obind (if par \<noteq> NULL then rec (Decrement par) s else Ret s) (\<lambda>s.
     obind (upd_obj region (\<lambda>x. x\<lparr>ob_parent := NULL\<rparr>) s) (\<lambda>s.
     obind (load (regions s) region) (\<lambda>r.
     obind (if vr_vm_object r \<noteq> NULL then
              obind (space_at (containing_address_space r) s) (\<lambda>space.
              obind (arch_mmu_unmap space (vr_base r) (vr_length r) (kernel_mmu s))
                (\<lambda>(_, m). rec (Decrement (vr_vm_object r)) (s\<lparr>kernel_mmu := m\<rparr>)))
            else Ret s) (\<lambda>s.
     rec (Destroy_children region) s)))))))"

definition destroy_children_body :: "release_fun \<Rightarrow> ptr \<Rightarrow> kernel \<Rightarrow> kernel outcome" where
  "destroy_children_body rec region s =
     obind (load (objs s) region) (\<lambda>x.
     case children x of
       [] \<Rightarrow> Ret s
     | child # cs \<Rightarrow>
         obind (upd_obj region (\<lambda>x. x\<lparr>children := cs\<rparr>) s) (\<lambda>s.
         obind (load (regions s) child) (\<lambda>c.
         obind (if \<not> destroyed c then rec (Region_destroy child) s else Ret s) (\<lambda>s.
         rec (Destroy_children region) s))))"

definition region_cleanup_body :: "release_fun \<Rightarrow> ptr \<Rightarrow> kernel \<Rightarrow> kernel outcome" where
  "region_cleanup_body rec region s =
     obind (load (regions s) region) (\<lambda>r.
     obind (if \<not> destroyed r then rec (Region_destroy region) s else Ret s) (\<lambda>s.
     Ret (free_object region s)))"

definition channel_cleanup_body :: "release_fun \<Rightarrow> ptr \<Rightarrow> kernel \<Rightarrow> kernel outcome" where
  "channel_cleanup_body rec channel s =
     obind (load (chans s) channel) (\<lambda>c.
     obind (if peer c \<noteq> NULL then
              obind (lock_obj (peer c) s) (\<lambda>s.
              obind (load (objs s) (peer c)) (\<lambda>p.
              obind (object_set_signals (peer c) (signals p OR CHANNEL_SIGNAL_PEER_DISCONNECTED) s) (\<lambda>s.
              obind (unlock_obj (peer c) s) (\<lambda>s.
              upd_chan channel (\<lambda>c. c\<lparr>peer := NULL\<rparr>) s))))
            else Ret s) (\<lambda>s.
     obind (rec (Drain_messages channel) s) (\<lambda>s.
     Ret (free_object channel s))))"

definition drain_messages_body :: "release_fun \<Rightarrow> ptr \<Rightarrow> kernel \<Rightarrow> kernel outcome" where
  "drain_messages_body rec channel s =
     obind (load (chans s) channel) (\<lambda>c.
     case message_queue c of
       [] \<Rightarrow> Ret s
     | message # ms \<Rightarrow>
         obind (upd_chan channel (\<lambda>c. c\<lparr>message_queue := ms\<rparr>) s) (\<lambda>s.
         obind (load (msgs s) message) (\<lambda>m.
         obind (rec (Release_handles (msg_handles m)) s) (\<lambda>s.
         rec (Drain_messages channel) (s\<lparr>msgs := (msgs s)(message := None)\<rparr>)))))"

definition release_handles_body :: "release_fun \<Rightarrow> ptr list \<Rightarrow> kernel \<Rightarrow> kernel outcome" where
  "release_handles_body rec hs s =
     (case hs of
        [] \<Rightarrow> Ret s
      | h # hs \<Rightarrow>
          obind (load (handles s) h) (\<lambda>hh.
          obind (rec (Decrement (h_object hh)) s) (\<lambda>s.
          rec (Release_handles hs) (s\<lparr>handles := (handles s)(h := None)\<rparr>))))"

primrec release :: "nat \<Rightarrow> release_fun" where
  "release 0 = (\<lambda>call s. Hang)"
| "release (Suc n) = (\<lambda>call s.
     case call of
       Decrement obj \<Rightarrow> decrement_body (release n) obj s
     | Region_cleanup region \<Rightarrow> region_cleanup_body (release n) region s
     | Region_destroy region \<Rightarrow> region_destroy_body (release n) region s
     | Destroy_children region \<Rightarrow> destroy_children_body (release n) region s
     | Channel_cleanup channel \<Rightarrow> channel_cleanup_body (release n) channel s
     | Drain_messages channel \<Rightarrow> drain_messages_body (release n) channel s
     | Release_handles hs \<Rightarrow> release_handles_body (release n) hs s)"

definition object_decrement_references :: "nat \<Rightarrow> ptr \<Rightarrow> kernel \<Rightarrow> kernel outcome" where
  "object_decrement_references depth obj s = release depth (Decrement obj) s"

definition v_addr_region_destroy :: "nat \<Rightarrow> ptr \<Rightarrow> kernel \<Rightarrow> kernel outcome" where
  "v_addr_region_destroy depth region s = release depth (Region_destroy region) s"

definition v_addr_region_cleanup :: "nat \<Rightarrow> ptr \<Rightarrow> kernel \<Rightarrow> kernel outcome" where
  "v_addr_region_cleanup depth region s = release depth (Region_cleanup region) s"

definition channel_cleanup :: "nat \<Rightarrow> ptr \<Rightarrow> kernel \<Rightarrow> kernel outcome" where
  "channel_cleanup depth channel s = release depth (Channel_cleanup channel) s"

section \<open>Depth\<close>

text \<open>An outcome is refined by one that agrees with it unless it is \<^term>\<open>Hang\<close>.\<close>

definition refines :: "'a outcome \<Rightarrow> 'a outcome \<Rightarrow> bool" where
  "refines m m' \<longleftrightarrow> (m \<noteq> Hang \<longrightarrow> m' = m)"

lemma refines_refl [intro, simp]: "refines m m"
  by (simp add: refines_def)

lemma refines_Hang [simp]: "refines Hang m"
  by (simp add: refines_def)

lemma refines_obind [intro]:
  assumes "refines m m'" and "\<And>x. refines (f x) (g x)"
  shows "refines (obind m f) (obind m' g)"
  using assms by (cases m) (auto simp: refines_def)

lemma refines_if [intro]:
  "refines a a' \<Longrightarrow> refines b b' \<Longrightarrow> refines (if c then a else b) (if c then a' else b')"
  by simp

lemma refines_let [intro]: "refines (f x) (g x) \<Longrightarrow> refines (let y = x in f y) (let y = x in g y)"
  by simp

lemma refines_list_case [intro]:
  "refines a a' \<Longrightarrow> (\<And>x xs. refines (b x xs) (b' x xs)) \<Longrightarrow>
     refines (case ys of [] \<Rightarrow> a | x # xs \<Rightarrow> b x xs) (case ys of [] \<Rightarrow> a' | x # xs \<Rightarrow> b' x xs)"
  by (cases ys) simp_all

lemma refines_prod_case [intro]:
  "(\<And>x y. refines (f x y) (g x y)) \<Longrightarrow> refines (case p of (x, y) \<Rightarrow> f x y) (case p of (x, y) \<Rightarrow> g x y)"
  by (cases p) simp

lemmas release_bodies = decrement_body_def region_destroy_body_def destroy_children_body_def region_cleanup_body_def
  channel_cleanup_body_def drain_messages_body_def release_handles_body_def

lemma release_step_refines:
  assumes rec: "\<And>call s. refines (rec call s) (rec' call s)"
  shows "refines (decrement_body rec obj s) (decrement_body rec' obj s)"
    "refines (region_cleanup_body rec obj s) (region_cleanup_body rec' obj s)"
    "refines (region_destroy_body rec obj s) (region_destroy_body rec' obj s)"
    "refines (destroy_children_body rec obj s) (destroy_children_body rec' obj s)"
    "refines (channel_cleanup_body rec obj s) (channel_cleanup_body rec' obj s)"
    "refines (drain_messages_body rec obj s) (drain_messages_body rec' obj s)"
    "refines (release_handles_body rec hs s) (release_handles_body rec' hs s)"
  unfolding release_bodies
  by (intro refines_obind refines_if refines_let refines_list_case refines_prod_case refines_refl rec)+

lemma release_refines: "refines (release n call s) (release (n + k) call s)"
proof (induction n arbitrary: call s)
  case 0
  then show ?case by simp
next
  case (Suc n)
  then show ?case
    by (cases call) (auto intro: release_step_refines)
qed

lemma release_depth: "release n call s \<noteq> Hang \<Longrightarrow> n \<le> m \<Longrightarrow> release m call s = release n call s"
  using release_refines [of n call s "m - n"] by (simp add: refines_def)

section \<open>Single steps\<close>

lemma decrement_shared:
  assumes "objs s obj = Some x" "ob_type x \<noteq> 0" "references x \<noteq> 1"
  shows "object_decrement_references (Suc n) obj s = Ret (s\<lparr>objs := (objs s)(obj \<mapsto> x\<lparr>references := references x - 1\<rparr>)\<rparr>)"
  using assms by (simp add: object_decrement_references_def decrement_body_def)

lemma decrement_last_locked:
  assumes "objs s obj = Some x" "ob_type x \<noteq> 0" "references x = 1" "ob_lock x"
  shows "object_decrement_references n obj s = Hang"
  using assms by (cases n) (simp_all add: object_decrement_references_def decrement_body_def)

lemma decrement_last_vm_object:
  assumes "objs s obj = Some x" "ob_type x = OBJECT_TYPE_VM_OBJECT" "references x = 1" "\<not> ob_lock x"
  shows "object_decrement_references (Suc n) obj s =
    vm_object_cleanup obj (s\<lparr>objs := (objs s)(obj \<mapsto> x\<lparr>references := 0, ob_lock := True\<rparr>)\<rparr>)"
  using assms by (simp add: object_decrement_references_def decrement_body_def)

text \<open>No listener wants the new signals: only the signals change.\<close>

lemma set_signals_none:
  assumes "objs s obj = Some x" "i \<le> length (signal_listeners x)"
    and "\<And>l. l \<in> set (drop i (signal_listeners x)) \<Longrightarrow> \<exists>r. listeners s l = Some r \<and> target_signals r AND sig = 0"
  shows "set_signals_loop obj sig i s = Some (Ret s)"
  using assms
proof (induction "length (signal_listeners x) - i" arbitrary: i)
  case 0
  then show ?case
    by (subst set_signals_loop.simps) simp
next
  case (Suc d)
  then have i: "i < length (signal_listeners x)" and d: "d = length (signal_listeners x) - Suc i"
    by simp_all
  have split: "drop i (signal_listeners x) = signal_listeners x ! i # drop (Suc i) (signal_listeners x)"
    using i by (simp add: Cons_nth_drop_Suc)
  then obtain r where r: "listeners s (signal_listeners x ! i) = Some r" "target_signals r AND sig = 0"
    using Suc.prems(3) by auto
  have "set_signals_loop obj sig (Suc i) s = Some (Ret s)"
    using Suc.hyps(1) [OF d Suc.prems(1)] Suc.prems(3) i by (simp add: split)
  then show ?case
    using Suc.prems(1) i r by (subst set_signals_loop.simps) (simp add: Let_def)
qed

text \<open>Waking a listener of an object whose lock is held spins for ever.\<close>

lemma set_signals_locked:
  assumes obj: "objs s obj = Some x" "ob_lock x" "signal_listeners x = l # ls"
    and l: "listeners s l = Some r" "target_signals r AND sig \<noteq> 0" "sl_target r = obj"
  shows "object_set_signals obj sig s = Hang"
proof -
  have "scheduler_unblock_listener l t = Hang"
    if "objs t obj = Some x'" "ob_lock x'" "listeners t l = Some r'" "sl_target r' = obj" for t x' r'
    using that by (simp add: scheduler_unblock_listener_def Let_def)
  then have "set_signals_loop obj sig 0 (s\<lparr>objs := (objs s)(obj \<mapsto> x\<lparr>signals := sig\<rparr>)\<rparr>) = Some Hang"
    using obj l by (subst set_signals_loop.simps) (simp add: Let_def)
  then show ?thesis
    using obj(1) by (simp add: object_set_signals_def)
qed

end
