(* ===== verification/Handle.thy ===== *)
theory Handle
  imports Lifetime
begin

text \<open>
  Handles (\<^verbatim>\<open>kernel/handle.c\<close>): the ids a process gives its handles, lookup in the handle table,
  and the system calls that duplicate, replace and close a handle. The locale \<open>id_allocator\<close> is the
  contract of handing out ids; it is interpreted on the id fields of a process.
\<close>

section \<open>Operations\<close>

definition handle_rights_are_subset :: "u64 \<Rightarrow> u64 \<Rightarrow> bool" where
  "handle_rights_are_subset held requested \<longleftrightarrow> held OR requested = held"

text \<open>The difference of the ids, converted to \<^verbatim>\<open>int\<close>.\<close>

definition handle_by_id :: "kernel \<Rightarrow> ptr \<Rightarrow> u64 \<Rightarrow> int outcome" where
  "handle_by_id s data target = obind (load (handles s) data) (\<lambda>h. Ret (int_of_u64 (handle_id h - target)))"

definition take_handle_id :: "process \<Rightarrow> u64 \<times> process" where
  "take_handle_id p =
     (case free_handle_ids p of
        i # ids \<Rightarrow> (i, p\<lparr>free_handle_ids := ids\<rparr>)
      | [] \<Rightarrow> (next_handle_id p + 1, p\<lparr>next_handle_id := next_handle_id p + 1\<rparr>))"

definition handle_get_next_id :: "ptr \<Rightarrow> kernel \<Rightarrow> (u64 \<times> kernel) outcome" where
  "handle_get_next_id process s =
     obind (load (procs s) process) (\<lambda>p.
     let (i, p) = take_handle_id p in Ret (i, s\<lparr>procs := (procs s)(process \<mapsto> p)\<rparr>))"

definition handle_create :: "ptr \<Rightarrow> ptr \<Rightarrow> u64 \<Rightarrow> kernel \<Rightarrow> (ir_status \<times> ptr \<times> kernel) outcome" where
  "handle_create process obj rts s =
     obind (upd_obj obj (\<lambda>x. x\<lparr>references := references x + 1\<rparr>) s) (\<lambda>s.
     let (new_handle, s) = malloc s in
     if new_handle = NULL then Fault else
     obind (handle_get_next_id process s) (\<lambda>(i, s).
     Ret (IR_OK, new_handle,
          s\<lparr>handles := (handles s)(new_handle \<mapsto> \<lparr>handle_id = i, rights = rts, h_object = obj\<rparr>)\<rparr>)))"

text \<open>The new id is an \<^verbatim>\<open>unsigned int\<close>. On failure the output is left as it was.\<close>

definition handle_copy :: "ptr \<Rightarrow> u64 \<Rightarrow> u32 \<Rightarrow> kernel \<Rightarrow> (ir_status \<times> ptr option \<times> kernel) outcome" where
  "handle_copy original new_rights new_id s =
     (let (new_handle, s) = malloc s in
      if new_handle = NULL then Ret (IR_ERROR_NO_MEMORY, None, s) else
      obind (load (handles s) original) (\<lambda>h.
      obind (upd_obj (h_object h) (\<lambda>x. x\<lparr>references := references x + 1\<rparr>) s) (\<lambda>s.
      Ret (IR_OK, Some new_handle,
           s\<lparr>handles := (handles s)(new_handle \<mapsto>
               \<lparr>handle_id = ucast new_id, rights = new_rights, h_object = h_object h\<rparr>)\<rparr>))))"

definition find_handle :: "ptr \<Rightarrow> u64 \<Rightarrow> kernel \<Rightarrow> ptr option outcome" where
  "find_handle process target s =
     obind (load (procs s) process) (\<lambda>p. list_find (\<lambda>h. handle_by_id s h target) (handle_table p))"

definition add_to_handle_table :: "ptr \<Rightarrow> ptr \<Rightarrow> kernel \<Rightarrow> kernel outcome" where
  "add_to_handle_table process h s = upd_proc process (\<lambda>p. p\<lparr>handle_table := handle_table p @ [h]\<rparr>) s"

text \<open>
  The search is given the address of the parameter on the kernel stack, \<open>stack_address\<close>, in place
  of the id.
\<close>

definition sys_handle_duplicate :: "ptr \<Rightarrow> u64 \<Rightarrow> u64 \<Rightarrow> ptr \<Rightarrow> kernel \<Rightarrow> (ir_status \<times> kernel) outcome" where
  "sys_handle_duplicate stack_address original_id new_rights id_out s =
     (if \<not> arch_validate_user_pointer id_out then Ret (IR_ERROR_INVALID_ARGUMENTS, s) else
      obind (current_process s) (\<lambda>process.
      obind (lock_handle_table process s) (\<lambda>s.
      obind (find_handle process stack_address s) (\<lambda>found.
      case found of
        None \<Rightarrow> obind (unlock_handle_table process s) (\<lambda>s. Ret (IR_ERROR_BAD_HANDLE, s))
      | Some h \<Rightarrow>
          obind (load (handles s) h) (\<lambda>hh.
          if \<not> handle_rights_are_subset (rights hh) new_rights
          then obind (unlock_handle_table process s) (\<lambda>s. Ret (IR_ERROR_BAD_HANDLE, s))
          else
            obind (handle_get_next_id process s) (\<lambda>(new_id, s).
            obind (handle_copy h new_rights (ucast new_id) s) (\<lambda>(_, copy, s).
            obind (add_to_handle_table process (case copy of None \<Rightarrow> h | Some c \<Rightarrow> c) s) (\<lambda>s.
            obind (unlock_handle_table process s) (\<lambda>s.
            Ret (IR_OK, put_word id_out new_id s)))))))))) "

text \<open>The copy is neither added to the table nor reported, and the old handle stays.\<close>

definition sys_handle_replace :: "ptr \<Rightarrow> u64 \<Rightarrow> u64 \<Rightarrow> ptr \<Rightarrow> kernel \<Rightarrow> (ir_status \<times> kernel) outcome" where
  "sys_handle_replace stack_address handle new_rights new_handle s =
     (if \<not> arch_validate_user_pointer new_handle then Ret (IR_ERROR_INVALID_ARGUMENTS, s) else
      obind (current_process s) (\<lambda>process.
      obind (lock_handle_table process s) (\<lambda>s.
      obind (find_handle process stack_address s) (\<lambda>found.
      case found of
        None \<Rightarrow> obind (unlock_handle_table process s) (\<lambda>s. Ret (IR_ERROR_BAD_HANDLE, s))
      | Some h \<Rightarrow>
          obind (load (handles s) h) (\<lambda>hh.
          if \<not> handle_rights_are_subset (rights hh) new_rights
          then obind (unlock_handle_table process s) (\<lambda>s. Ret (IR_ERROR_INVALID_ARGUMENTS, s))
          else
            let (_, s) = malloc s in
            obind (handle_get_next_id process s) (\<lambda>(new_id, s).
            obind (handle_copy h new_rights (ucast new_id) s) (\<lambda>(_, _, s).
            obind (unlock_handle_table process s) (\<lambda>s.
            Ret (IR_OK, s)))))))))"

definition sys_handle_close :: "nat \<Rightarrow> u64 \<Rightarrow> kernel \<Rightarrow> (ir_status \<times> kernel) outcome" where
  "sys_handle_close depth i s =
     obind (current_process s) (\<lambda>process.
     obind (lock_handle_table process s) (\<lambda>s.
     obind (load (procs s) process) (\<lambda>p.
     obind (list_find_and_remove (\<lambda>h. handle_by_id s h i) (handle_table p)) (\<lambda>(found, rest).
     case found of
       Some h \<Rightarrow>
         obind (upd_proc process (\<lambda>p. p\<lparr>handle_table := rest\<rparr>) s) (\<lambda>s.
         obind (unlock_handle_table process s) (\<lambda>s.
         obind (load (handles s) h) (\<lambda>hh.
         obind (upd_proc process (\<lambda>p. p\<lparr>free_handle_ids := free_handle_ids p @ [handle_id hh]\<rparr>) s) (\<lambda>s.
         obind (object_decrement_references depth (h_object hh) s) (\<lambda>s.
         Ret (IR_OK, s\<lparr>handles := (handles s)(h := None)\<rparr>))))))
     | None \<Rightarrow> obind (unlock_handle_table process s) (\<lambda>s. Ret (IR_ERROR_BAD_HANDLE, s))))))"

section \<open>Handing out ids\<close>

text \<open>
  \<open>inv s L n\<close>: the ids in \<open>L\<close> are in use in the state \<open>s\<close>, and at least \<open>n\<close> more can be issued.
\<close>

locale id_allocator =
  fixes inv :: "'s \<Rightarrow> 'i set \<Rightarrow> nat \<Rightarrow> bool"
    and issue :: "'s \<Rightarrow> 'i \<times> 's"
    and retire :: "'i \<Rightarrow> 's \<Rightarrow> 's"
    and invalid :: 'i
  assumes issue_fresh: "inv s L (Suc n) \<Longrightarrow> fst (issue s) \<notin> L \<and> fst (issue s) \<noteq> invalid"
    and issue_inv: "inv s L (Suc n) \<Longrightarrow> inv (snd (issue s)) (insert (fst (issue s)) L) n"
    and retire_inv: "inv s L n \<Longrightarrow> i \<in> L \<Longrightarrow> inv (retire i s) (L - {i}) n"
begin

fun issue_many :: "nat \<Rightarrow> 's \<Rightarrow> 'i list \<times> 's" where
  "issue_many 0 s = ([], s)"
| "issue_many (Suc n) s = (let (i, s) = issue s; (rest, s) = issue_many n s in (i # rest, s))"

lemma issue_many_fresh:
  "inv s L (n + k) \<Longrightarrow>
     distinct (fst (issue_many n s)) \<and> set (fst (issue_many n s)) \<inter> L = {} \<and> invalid \<notin> set (fst (issue_many n s)) \<and>
     inv (snd (issue_many n s)) (set (fst (issue_many n s)) \<union> L) k"
proof (induction n arbitrary: s L)
  case 0
  then show ?case by simp
next
  case (Suc n)
  have one: "inv s L (Suc (n + k))"
    using Suc.prems by simp
  have "inv (snd (issue s)) (insert (fst (issue s)) L) (n + k)"
    using one by (rule issue_inv)
  from Suc.IH [OF this] show ?case
    using issue_fresh [OF one] by (auto simp: case_prod_beta Let_def)
qed

lemma retire_issue:
  assumes "inv s L (Suc n)"
  shows "inv (retire (fst (issue s)) (snd (issue s))) L n"
  using retire_inv [OF issue_inv [OF assms], of "fst (issue s)"] issue_fresh [OF assms]
  by (simp add: insert_Diff_if)

end

text \<open>Ids stay below \<open>2 ^ 32\<close>, where the comparison of \<^verbatim>\<open>handle_by_id\<close> is exact.\<close>

definition ids_ok :: "process \<Rightarrow> u64 set \<Rightarrow> nat \<Rightarrow> bool" where
  "ids_ok p L n \<longleftrightarrow> distinct (free_handle_ids p) \<and> set (free_handle_ids p) \<inter> L = {} \<and>
     (\<forall>i \<in> L \<union> set (free_handle_ids p). 0 < unat i \<and> unat i \<le> unat (next_handle_id p)) \<and>
     unat (next_handle_id p) + n < 2 ^ 32"

definition return_handle_id :: "u64 \<Rightarrow> process \<Rightarrow> process" where
  "return_handle_id i p = p\<lparr>free_handle_ids := free_handle_ids p @ [i]\<rparr>"

lemma unat_next_id: "unat i + Suc n < 2 ^ 32 \<Longrightarrow> unat ((i :: u64) + 1) = Suc (unat i)"
  by (simp add: unat_word_ariths)

interpretation hid: id_allocator ids_ok take_handle_id return_handle_id 0
proof
  fix p :: process and L n
  assume ok: "ids_ok p L (Suc n)"
  show "fst (take_handle_id p) \<notin> L \<and> fst (take_handle_id p) \<noteq> 0"
  proof (cases "free_handle_ids p")
    case Nil
    have "unat (next_handle_id p + 1) = Suc (unat (next_handle_id p))"
      using ok by (intro unat_next_id) (auto simp: ids_ok_def)
    moreover have "\<And>i. i \<in> L \<Longrightarrow> unat i \<le> unat (next_handle_id p)"
      using ok by (auto simp: ids_ok_def)
    ultimately have "next_handle_id p + 1 \<notin> L" "next_handle_id p + 1 \<noteq> 0"
      by fastforce (metis \<open>unat (next_handle_id p + 1) = Suc (unat (next_handle_id p))\<close> nat.simps(3) unsigned_0)
    then show ?thesis
      using Nil by (simp add: take_handle_id_def)
  next
    case (Cons i rest)
    then show ?thesis
      using ok by (auto simp: ids_ok_def take_handle_id_def)
  qed
  show "ids_ok (snd (take_handle_id p)) (insert (fst (take_handle_id p)) L) n"
  proof (cases "free_handle_ids p")
    case Nil
    have "unat (next_handle_id p + 1) = Suc (unat (next_handle_id p))"
      using ok by (intro unat_next_id) (auto simp: ids_ok_def)
    then show ?thesis
      using ok Nil by (auto simp: ids_ok_def take_handle_id_def)
  next
    case (Cons i rest)
    then show ?thesis
      using ok by (auto simp: ids_ok_def take_handle_id_def)
  qed
next
  fix p :: process and L n i
  assume "ids_ok p L n" "i \<in> L"
  then show "ids_ok (return_handle_id i p) (L - {i}) n"
    by (auto simp: ids_ok_def return_handle_id_def)
qed

section \<open>The handle table\<close>

definition id_of :: "kernel \<Rightarrow> ptr \<Rightarrow> u64" where
  "id_of s h = (case handles s h of None \<Rightarrow> 0 | Some x \<Rightarrow> handle_id x)"

text \<open>
  The handles of a process exist, are listed once, have different ids and none of them is a free
  id; there is room for \<open>n\<close> more.
\<close>

definition handles_ok :: "kernel \<Rightarrow> ptr \<Rightarrow> nat \<Rightarrow> bool" where
  "handles_ok s process n \<longleftrightarrow> (\<exists>p. procs s process = Some p \<and> set (handle_table p) \<subseteq> dom (handles s) \<and>
     distinct (handle_table p) \<and> inj_on (id_of s) (set (handle_table p)) \<and> ids_ok p (id_of s ` set (handle_table p)) n)"

lemma int_of_u64_eq_0_iff: "int_of_u64 x = 0 \<longleftrightarrow> (ucast x :: u32) = 0"
  by (simp add: int_of_u64_def signed_eq_0_iff)

lemma ucast_minus_u64: "(ucast (a - b :: u64) :: u32) = ucast a - ucast b"
proof (rule word_uint_eq_iff [THEN iffD2])
  have "uint (ucast (a - b) :: u32) = take_bit 32 (uint (a - b))"
    by (simp add: unsigned_ucast_eq)
  also have "uint (a - b) = take_bit 64 (uint a - uint b)"
    by (simp add: uint_word_ariths take_bit_eq_mod)
  also have "take_bit 32 (take_bit 64 (uint a - uint b)) = take_bit 32 (uint a - uint b)"
    by simp
  also have "\<dots> = take_bit 32 (take_bit 32 (uint a) - take_bit 32 (uint b))"
    by (simp add: take_bit_diff)
  also have "\<dots> = uint (ucast a - ucast b :: u32)"
    by (simp add: uint_word_ariths unsigned_ucast_eq take_bit_eq_mod)
  finally show "uint (ucast (a - b) :: u32) = uint (ucast a - ucast b :: u32)" .
qed

lemma id_match_iff: "int_of_u64 (a - b) = 0 \<longleftrightarrow> (ucast a :: u32) = ucast b"
  unfolding int_of_u64_eq_0_iff ucast_minus_u64 by simp

lemma ucast_u32_inj: "unat (a :: u64) < 2 ^ 32 \<Longrightarrow> unat b < 2 ^ 32 \<Longrightarrow> (ucast a :: u32) = ucast b \<longleftrightarrow> a = b"
  by (auto simp: word_unat_eq_iff unsigned_ucast_eq take_bit_nat_eq_self)

lemma handles_okD:
  assumes "handles_ok s process n" "procs s process = Some p"
  shows "set (handle_table p) \<subseteq> dom (handles s)" "distinct (handle_table p)"
    "inj_on (id_of s) (set (handle_table p))" "ids_ok p (id_of s ` set (handle_table p)) n"
  using assms unfolding handles_ok_def by auto

lemma ids_ok_bound:
  assumes "ids_ok p L n" "i \<in> L"
  shows "unat i < 2 ^ 32"
proof -
  have "unat i \<le> unat (next_handle_id p)" "unat (next_handle_id p) + n < 2 ^ 32"
    using assms unfolding ids_ok_def by blast+
  then show ?thesis
    by linarith
qed

lemma handle_by_id_of:
  "handles s h \<noteq> None \<Longrightarrow> handle_by_id s h target = Ret (int_of_u64 (id_of s h - target))"
  by (auto simp: handle_by_id_def id_of_def)

lemma index_of_unique:
  assumes "distinct xs" "i < length xs" "\<And>x. x \<in> set xs \<Longrightarrow> P x \<longleftrightarrow> x = xs ! i"
  shows "index_of P xs = Some i"
  using assms
proof (induction xs arbitrary: i)
  case Nil
  then show ?case by simp
next
  case (Cons x xs)
  show ?case
  proof (cases i)
    case 0
    then show ?thesis using Cons.prems by simp
  next
    case (Suc j)
    then have "index_of P xs = Some j"
      using Cons.prems by (intro Cons.IH) simp_all
    moreover have "x \<noteq> xs ! j"
      using Cons.prems(1,2) Suc by auto
    then have "\<not> P x"
      using Cons.prems(3) [of x] Suc by simp
    ultimately show ?thesis
      using Suc by simp
  qed
qed

lemma handle_match:
  assumes "handles_ok s process n" "procs s process = Some p" "h \<in> set (handle_table p)" "h' \<in> set (handle_table p)"
  shows "int_of_u64 (id_of s h' - id_of s h) = 0 \<longleftrightarrow> h' = h"
proof -
  have ids: "ids_ok p (id_of s ` set (handle_table p)) n" "inj_on (id_of s) (set (handle_table p))"
    using handles_okD [OF assms(1,2)] by blast+
  show ?thesis
    using ucast_u32_inj [OF ids_ok_bound [OF ids(1)] ids_ok_bound [OF ids(1)], of "id_of s h'" "id_of s h"]
      inj_onD [OF ids(2)] assms(3,4) unfolding id_match_iff by auto
qed

lemma nth_index:
  assumes "h \<in> set xs" "distinct xs" "\<And>x. x \<in> set xs \<Longrightarrow> P x \<longleftrightarrow> x = h"
  obtains i where "index_of P xs = Some i" "i < length xs" "xs ! i = h"
proof -
  obtain i where "i < length xs" "xs ! i = h"
    using assms(1) by (auto simp: in_set_conv_nth)
  then show thesis
    using that index_of_unique [OF assms(2), of i P] assms(3) by blast
qed

lemma delete_at_remove1: "distinct xs \<Longrightarrow> i < length xs \<Longrightarrow> delete_at i xs = remove1 (xs ! i) xs"
proof (induction xs arbitrary: i)
  case Nil
  then show ?case by simp
next
  case (Cons x xs)
  then show ?case
    by (cases i) (auto simp: delete_at_def)
qed

lemma find_handle_found:
  assumes ok: "handles_ok s process n" and p: "procs s process = Some p" "h \<in> set (handle_table p)"
  shows "find_handle process (id_of s h) s = Ret (Some h)"
    and "list_find_and_remove (\<lambda>d. handle_by_id s d (id_of s h)) (handle_table p) = Ret (Some h, remove1 h (handle_table p))"
proof -
  have dom: "\<And>x. x \<in> set (handle_table p) \<Longrightarrow> handle_by_id s x (id_of s h) = Ret (int_of_u64 (id_of s x - id_of s h))"
    and dist: "distinct (handle_table p)"
    using handles_okD(1,2) [OF ok p(1)] handle_by_id_of by blast+
  obtain i where i: "index_of (\<lambda>x. int_of_u64 (id_of s x - id_of s h) = 0) (handle_table p) = Some i"
      "i < length (handle_table p)" "handle_table p ! i = h"
    by (rule nth_index [of h "handle_table p" "\<lambda>x. int_of_u64 (id_of s x - id_of s h) = 0",
          OF p(2) dist handle_match [OF ok p(1) p(2)]])
  show "find_handle process (id_of s h) s = Ret (Some h)"
    using p(1) i by (simp add: find_handle_def list_find_pure [OF dom])
  show "list_find_and_remove (\<lambda>d. handle_by_id s d (id_of s h)) (handle_table p) = Ret (Some h, remove1 h (handle_table p))"
    using i delete_at_remove1 [OF dist i(2)] by (simp add: list_find_and_remove_pure [OF dom])
qed

lemma handle_missing:
  assumes "handles_ok s process n" "procs s process = Some p"
    and none: "\<And>h. h \<in> set (handle_table p) \<Longrightarrow> (ucast (id_of s h) :: u32) \<noteq> ucast target"
  shows "find_handle process target s = Ret None"
    and "list_find_and_remove (\<lambda>d. handle_by_id s d target) (handle_table p) = Ret (None, handle_table p)"
proof -
  have dom: "\<And>x. x \<in> set (handle_table p) \<Longrightarrow> handle_by_id s x target = Ret (int_of_u64 (id_of s x - target))"
    using handles_okD(1) [OF assms(1,2)] handle_by_id_of by blast
  have i: "index_of (\<lambda>x. int_of_u64 (id_of s x - target) = 0) (handle_table p) = None"
    using none by (simp add: index_of_None_iff id_match_iff)
  show "find_handle process target s = Ret None"
    using assms(2) i by (simp add: find_handle_def list_find_pure [OF dom])
  show "list_find_and_remove (\<lambda>d. handle_by_id s d target) (handle_table p) = Ret (None, handle_table p)"
    using i by (simp add: list_find_and_remove_pure [OF dom])
qed

text \<open>The invariant depends on a state only through the handles of the table and the process.\<close>

lemma handles_ok_cong:
  assumes "handles_ok s process n" "procs s process = Some p" "procs s' process = Some p'"
    and "handle_table p' = handle_table p" "free_handle_ids p' = free_handle_ids p" "next_handle_id p' = next_handle_id p"
    and "\<And>h. h \<in> set (handle_table p) \<Longrightarrow> handles s' h = handles s h"
  shows "handles_ok s' process n"
proof -
  have id: "h \<in> set (handle_table p) \<Longrightarrow> id_of s' h = id_of s h" for h
    using assms(7) by (simp add: id_of_def)
  then have "id_of s' ` set (handle_table p) = id_of s ` set (handle_table p)"
      "inj_on (id_of s') (set (handle_table p)) = inj_on (id_of s) (set (handle_table p))"
    by (auto simp: inj_on_def)
  then show ?thesis
    using assms unfolding handles_ok_def ids_ok_def by (auto 0 4 simp: subset_iff dom_def)
qed

end
