(* ===== verification/Handle_Table.thy ===== *)
theory Handle_Table
  imports Handle
begin

text \<open>
  What the system calls on handles guarantee, and what they do not: fresh ids, exact closing of a
  handle, the comparison that only looks at the low 32 bits of an id, and duplication that searches
  for a stack address.
\<close>

section \<open>Adding and removing a handle\<close>

lemma handles_ok_add:
  assumes ok: "handles_ok s process (Suc n)" and p: "procs s process = Some p"
    and h: "h \<notin> dom (handles s)" and take: "take_handle_id p = (i, p1)"
    and s': "procs s' process = Some (p1\<lparr>handle_table := handle_table p1 @ [h]\<rparr>)"
      "handles s' = (handles s)(h \<mapsto> x)" "handle_id x = i"
  shows "handles_ok s' process n" "i \<noteq> 0" "\<And>g. g \<in> set (handle_table p) \<Longrightarrow> id_of s g \<noteq> i"
proof -
  note ok' = handles_okD [OF ok p]
  have i: "i \<notin> id_of s ` set (handle_table p)" "i \<noteq> 0" "ids_ok p1 (insert i (id_of s ` set (handle_table p))) n"
    using hid.issue_fresh [OF ok'(4)] hid.issue_inv [OF ok'(4)] by (simp_all add: take)
  show "i \<noteq> 0"
    by (rule i(2))
  show "id_of s g \<noteq> i" if "g \<in> set (handle_table p)" for g
    using i(1) that by blast
  have t: "handle_table p1 = handle_table p"
    using take by (auto simp: take_handle_id_def split: list.splits)
  have new: "h \<notin> set (handle_table p)"
    using h ok'(1) by blast
  have id: "id_of s' g = (if g = h then i else id_of s g)" for g
    using s'(2,3) by (simp add: id_of_def)
  have img: "id_of s' ` set (handle_table p @ [h]) = insert i (id_of s ` set (handle_table p))"
    using new by (auto simp: id)
  have inj: "inj_on (id_of s') (set (handle_table p @ [h]))"
    using ok'(3) i(1) new unfolding inj_on_def by (auto simp: id)
  have "ids_ok (p1\<lparr>handle_table := handle_table p @ [h]\<rparr>) (insert i (id_of s ` set (handle_table p))) n"
    using i(3) by (simp add: ids_ok_def)
  then show "handles_ok s' process n"
    unfolding handles_ok_def using s'(1,2) ok'(1,2) new inj img
    by (intro exI [of _ "p1\<lparr>handle_table := handle_table p @ [h]\<rparr>"]) (auto simp: t)
qed

lemma handles_ok_remove:
  assumes ok: "handles_ok s process n" and p: "procs s process = Some p" "h \<in> set (handle_table p)"
    and s': "procs s' process = Some p'" "handle_table p' = remove1 h (handle_table p)"
      "free_handle_ids p' = free_handle_ids p @ [id_of s h]" "next_handle_id p' = next_handle_id p"
      "handles s' = (handles s)(h := None)"
  shows "handles_ok s' process n"
proof -
  note ok' = handles_okD [OF ok p(1)]
  have set: "set (remove1 h (handle_table p)) = set (handle_table p) - {h}"
    using ok'(2) by simp
  have id: "g \<noteq> h \<Longrightarrow> id_of s' g = id_of s g" for g
    using s'(5) by (simp add: id_of_def)
  have "id_of s' ` (set (handle_table p) - {h}) = id_of s ` set (handle_table p) - {id_of s h}"
    using ok'(3) p(2) by (auto simp: id inj_on_def)
  moreover have "ids_ok p' (id_of s ` set (handle_table p) - {id_of s h}) n"
    using hid.retire_inv [OF ok'(4), of "id_of s h"] p(2) s'(3,4) by (simp add: ids_ok_def return_handle_id_def)
  moreover have "inj_on (id_of s') (set (handle_table p) - {h})"
    using ok'(3) by (auto simp: inj_on_def id)
  ultimately show ?thesis
    unfolding handles_ok_def using s' ok'(1,2) by (intro exI [of _ p']) (auto simp: set)
qed

section \<open>A process with two handles\<close>

definition demo_process :: process where
  "demo_process = \<lparr>root_v_addr_region = NULL, pr_state = ACTIVE, pr_exit_code = 0, handle_table = [0x100, 0x110],
     next_handle_id = 2, free_handle_ids = [], handle_table_lock = False\<rparr>"

definition demo_kernel :: kernel where
  "demo_kernel = blank_kernel\<lparr>
     objs := [0x10 \<mapsto> (new_object OBJECT_TYPE_THREAD 0x20)\<lparr>references := 1\<rparr>,
              0x20 \<mapsto> (new_object OBJECT_TYPE_PROCESS NULL)\<lparr>references := 2\<rparr>,
              0x30 \<mapsto> (new_object OBJECT_TYPE_CHANNEL NULL)\<lparr>references := 2\<rparr>],
     procs := [0x20 \<mapsto> demo_process],
     handles := [0x100 \<mapsto> \<lparr>handle_id = 1, rights = IR_RIGHT_ALL, h_object = 0x20\<rparr>,
                 0x110 \<mapsto> \<lparr>handle_id = 2, rights = IR_RIGHT_ALL, h_object = 0x30\<rparr>],
     current_thread := 0x10, heap := [0x200]\<rparr>"

lemmas demo_kernel_simps = demo_kernel_def demo_process_def blank_kernel_def new_object_def

lemma demo_handles_ok: "handles_ok demo_kernel 0x20 1"
  unfolding handles_ok_def
  by (intro exI [of _ demo_process]) (auto simp: demo_kernel_simps ids_ok_def id_of_def inj_on_def)

section \<open>Properties\<close>

text \<open>C21: Creating a handle for an existing object and adding it to the handle table gives it a valid id
  that no other handle of the process has, adds one reference to the object, and keeps the handle
  table well formed.\<close>

theorem handle_create_fresh:
  assumes ok: "handles_ok s process (Suc n)" and p: "procs s process = Some p" and obj: "objs s obj = Some x"
    and heap: "heap s = h # hs" "h \<noteq> NULL" "h \<notin> dom (handles s)"
  shows "\<exists>s1 s2. handle_create process obj rts s = Ret (IR_OK, h, s1) \<and> add_to_handle_table process h s1 = Ret s2 \<and>
    handles_ok s2 process n \<and> id_of s2 h \<noteq> 0 \<and> (\<forall>g \<in> set (handle_table p). id_of s2 g \<noteq> id_of s2 h) \<and>
    objs s2 = (objs s)(obj \<mapsto> x\<lparr>references := references x + 1\<rparr>) \<and> find_handle process (id_of s2 h) s2 = Ret (Some h)"
proof -
  obtain i p1 where take: "take_handle_id p = (i, p1)"
    by (cases "take_handle_id p")
  define s1 where "s1 = s\<lparr>objs := (objs s)(obj \<mapsto> x\<lparr>references := references x + 1\<rparr>), heap := hs,
    procs := (procs s)(process \<mapsto> p1), handles := (handles s)(h \<mapsto> \<lparr>handle_id = i, rights = rts, h_object = obj\<rparr>)\<rparr>"
  define s2 where "s2 = s1\<lparr>procs := (procs s)(process \<mapsto> p1\<lparr>handle_table := handle_table p1 @ [h]\<rparr>)\<rparr>"
  have create: "handle_create process obj rts s = Ret (IR_OK, h, s1)"
    using obj heap p take by (simp add: handle_create_def malloc_def handle_get_next_id_def s1_def)
  have add: "add_to_handle_table process h s1 = Ret s2"
    by (simp add: add_to_handle_table_def s1_def s2_def)
  have p2: "procs s2 process = Some (p1\<lparr>handle_table := handle_table p1 @ [h]\<rparr>)"
    "handles s2 = (handles s)(h \<mapsto> \<lparr>handle_id = i, rights = rts, h_object = obj\<rparr>)"
    by (simp_all add: s1_def s2_def)
  note ok2 = handles_ok_add [OF ok p heap(3) take p2 handle.select_convs(1)]
  have "id_of s2 h = i" "\<And>g. g \<in> set (handle_table p) \<Longrightarrow> id_of s2 g = id_of s g"
    using heap(3) handles_okD(1) [OF ok p] by (auto simp: id_of_def p2(2))
  moreover have "find_handle process (id_of s2 h) s2 = Ret (Some h)"
    by (rule find_handle_found(1) [OF ok2(1) p2(1)]) simp
  moreover have "objs s2 = (objs s)(obj \<mapsto> x\<lparr>references := references x + 1\<rparr>)"
    by (simp add: s1_def s2_def)
  ultimately show ?thesis
    using create add ok2 by (intro exI [of _ s1] exI [of _ s2]) auto
qed

theorem handle_create_fresh_witness:
  "\<exists>s1 s2. handle_create 0x20 0x30 IR_RIGHT_ALL demo_kernel = Ret (IR_OK, 0x200, s1) \<and>
     add_to_handle_table 0x20 0x200 s1 = Ret s2 \<and> handles_ok s2 0x20 0 \<and> find_handle 0x20 (id_of s2 0x200) s2 = Ret (Some 0x200)"
  using handle_create_fresh [of demo_kernel "0x20" 0 demo_process "0x30"
      "(new_object OBJECT_TYPE_CHANNEL NULL)\<lparr>references := 2\<rparr>" "0x200" "[]" IR_RIGHT_ALL] demo_handles_ok
  by (auto simp: demo_kernel_simps)

lemma unlocked_process:
  "\<not> handle_table_lock p \<Longrightarrow> p\<lparr>handle_table_lock := False\<rparr> = p"
  "\<not> handle_table_lock p \<Longrightarrow> p\<lparr>handle_table := t, handle_table_lock := False, free_handle_ids := ids\<rparr> =
     p\<lparr>handle_table := t, free_handle_ids := ids\<rparr>"
  by (cases p, simp)+

text \<open>Searching the locked table.\<close>

lemma locked_table:
  assumes ok: "handles_ok s process n" and p: "procs s process = Some p" and lock: "\<not> handle_table_lock p"
  defines "sl \<equiv> s\<lparr>procs := (procs s)(process \<mapsto> p\<lparr>handle_table_lock := True\<rparr>)\<rparr>"
  shows "lock_handle_table process s = Ret sl" "handles_ok sl process n"
    "h \<in> set (handle_table p) \<Longrightarrow> list_find_and_remove (\<lambda>d. handle_by_id sl d (id_of s h)) (handle_table p) =
       Ret (Some h, remove1 h (handle_table p))"
    "h \<in> set (handle_table p) \<Longrightarrow> find_handle process (id_of s h) sl = Ret (Some h)"
    "(\<forall>h \<in> set (handle_table p). (ucast (id_of s h) :: u32) \<noteq> ucast i) \<Longrightarrow>
       list_find_and_remove (\<lambda>d. handle_by_id sl d i) (handle_table p) = Ret (None, handle_table p)"
    "(\<forall>h \<in> set (handle_table p). (ucast (id_of s h) :: u32) \<noteq> ucast i) \<Longrightarrow> find_handle process i sl = Ret None"
proof -
  have sl: "procs sl process = Some (p\<lparr>handle_table_lock := True\<rparr>)" "id_of sl = id_of s"
    by (simp_all add: sl_def id_of_def fun_eq_iff)
  show "lock_handle_table process s = Ret sl"
    using p lock by (simp add: sl_def)
  show okl: "handles_ok sl process n"
    by (rule handles_ok_cong [OF ok p sl(1)]) (simp_all add: sl_def)
  show "list_find_and_remove (\<lambda>d. handle_by_id sl d (id_of s h)) (handle_table p) = Ret (Some h, remove1 h (handle_table p))"
      "find_handle process (id_of s h) sl = Ret (Some h)" if "h \<in> set (handle_table p)"
    using find_handle_found [OF okl sl(1), of h] that sl(2) by simp_all
  show "list_find_and_remove (\<lambda>d. handle_by_id sl d i) (handle_table p) = Ret (None, handle_table p)"
      "find_handle process i sl = Ret None" if "\<forall>h \<in> set (handle_table p). (ucast (id_of s h) :: u32) \<noteq> ucast i"
    using handle_missing [OF okl sl(1), of i] that sl(2) by simp_all
qed

text \<open>The state in which the reference is released: the handle has left the table and its id is available.\<close>

definition unlisted :: "ptr \<Rightarrow> ptr \<Rightarrow> kernel \<Rightarrow> kernel" where
  "unlisted process h s = s\<lparr>procs := (procs s)(process := map_option (\<lambda>p. p\<lparr>handle_table := remove1 h (handle_table p),
     free_handle_ids := free_handle_ids p @ [id_of s h]\<rparr>) (procs s process))\<rparr>"

lemma sys_handle_close_release:
  assumes cur: "current_process s = Ret process" and ok: "handles_ok s process n" and p: "procs s process = Some p"
    and lock: "\<not> handle_table_lock p" and h: "h \<in> set (handle_table p)" "handles s h = Some hh"
    and u: "object_decrement_references d (h_object hh) (unlisted process h s) = Ret u"
  shows "sys_handle_close d (handle_id hh) s = Ret (IR_OK, u\<lparr>handles := (handles u)(h := None)\<rparr>)"
proof -
  note table = locked_table [OF ok p lock]
  have "id_of s h = handle_id hh"
    using h(2) by (simp add: id_of_def)
  then show ?thesis
    using cur table(1) table(3) [OF h(1)] h p u unlocked_process [OF lock]
    by (simp add: sys_handle_close_def unlisted_def)
qed

lemma sys_handle_close_found:
  assumes cur: "current_process s = Ret process" and ok: "handles_ok s process n" and p: "procs s process = Some p"
    and lock: "\<not> handle_table_lock p" and h: "h \<in> set (handle_table p)" "handles s h = Some hh"
    and x: "objs s (h_object hh) = Some x" "ob_type x \<noteq> 0" "references x \<noteq> 1"
  shows "\<exists>s'. sys_handle_close (Suc d) (handle_id hh) s = Ret (IR_OK, s') \<and>
        procs s' process = Some (p\<lparr>handle_table := remove1 h (handle_table p), free_handle_ids := free_handle_ids p @ [handle_id hh]\<rparr>) \<and>
        handles s' = (handles s)(h := None) \<and> objs s' = (objs s)(h_object hh \<mapsto> x\<lparr>references := references x - 1\<rparr>)"
proof -
  note table = locked_table [OF ok p lock]
  have "id_of s h = handle_id hh"
    using h(2) by (simp add: id_of_def)
  then show ?thesis
    using cur table(1) table(3) [OF h(1)] h x p unlocked_process [OF lock]
    by (simp add: sys_handle_close_def) (simp add: decrement_shared)
qed

lemma sys_handle_close_missing:
  assumes cur: "current_process s = Ret process" and ok: "handles_ok s process n" and p: "procs s process = Some p"
    and lock: "\<not> handle_table_lock p" and none: "\<forall>h \<in> set (handle_table p). (ucast (id_of s h) :: u32) \<noteq> ucast i"
  shows "sys_handle_close depth i s = Ret (IR_ERROR_BAD_HANDLE, s)"
  using cur locked_table(1,5) [OF ok p lock] none p unlocked_process [OF lock]
  by (simp add: sys_handle_close_def fun_upd_idem)

text \<open>C8: Closing a handle of the current process takes exactly that handle out of the table and makes its id available, then
  releases the reference, whether it is the last one or not, and then frees the handle. While another reference to the object
  remains, that is all: the count goes down by one, the table stays unlocked and well formed, nothing else changes, and the id is
  unknown afterwards. An id is unknown when it differs from those of all open handles in its low 32 bits; closing it reports a bad
  handle and changes nothing.\<close>

theorem sys_handle_close_correct:
  assumes cur: "current_process s = Ret process" and ok: "handles_ok s process n" and p: "procs s process = Some p"
    and lock: "\<not> handle_table_lock p"
  shows "(\<forall>h hh x. h \<in> set (handle_table p) \<longrightarrow> handles s h = Some hh \<longrightarrow> objs s (h_object hh) = Some x \<longrightarrow>
      ob_type x \<noteq> 0 \<longrightarrow> references x \<noteq> 1 \<longrightarrow>
      (\<exists>s'. sys_handle_close (Suc d) (handle_id hh) s = Ret (IR_OK, s') \<and> handles_ok s' process n \<and>
        procs s' process = Some (p\<lparr>handle_table := remove1 h (handle_table p), free_handle_ids := free_handle_ids p @ [handle_id hh]\<rparr>) \<and>
        handles s' = (handles s)(h := None) \<and> objs s' = (objs s)(h_object hh \<mapsto> x\<lparr>references := references x - 1\<rparr>) \<and>
        find_handle process (handle_id hh) s' = Ret None)) \<and>
    (\<forall>h hh u. h \<in> set (handle_table p) \<longrightarrow> handles s h = Some hh \<longrightarrow>
      object_decrement_references (Suc d) (h_object hh) (unlisted process h s) = Ret u \<longrightarrow>
      sys_handle_close (Suc d) (handle_id hh) s = Ret (IR_OK, u\<lparr>handles := (handles u)(h := None)\<rparr>)) \<and>
    (\<forall>i. (\<forall>h \<in> set (handle_table p). (ucast (id_of s h) :: u32) \<noteq> ucast i) \<longrightarrow>
      sys_handle_close (Suc d) i s = Ret (IR_ERROR_BAD_HANDLE, s))"
proof (intro conjI allI impI)
  fix h hh x
  assume h: "h \<in> set (handle_table p)" "handles s h = Some hh"
    and x: "objs s (h_object hh) = Some x" "ob_type x \<noteq> 0" "references x \<noteq> 1"
  define p' where "p' = p\<lparr>handle_table := remove1 h (handle_table p), free_handle_ids := free_handle_ids p @ [handle_id hh]\<rparr>"
  obtain s' where s': "sys_handle_close (Suc d) (handle_id hh) s = Ret (IR_OK, s')" "procs s' process = Some p'"
      "handles s' = (handles s)(h := None)" "objs s' = (objs s)(h_object hh \<mapsto> x\<lparr>references := references x - 1\<rparr>)"
    using sys_handle_close_found [OF cur ok p lock h x] unfolding p'_def by blast
  have id: "id_of s h = handle_id hh"
    using h(2) by (simp add: id_of_def)
  have ok': "handles_ok s' process n"
    by (rule handles_ok_remove [OF ok p h(1) s'(2)]) (simp_all add: p'_def id s')
  moreover have "find_handle process (handle_id hh) s' = Ret None"
  proof (rule handle_missing(1) [OF ok' s'(2)])
    fix g assume "g \<in> set (handle_table p')"
    then have g: "g \<in> set (handle_table p)" "g \<noteq> h"
      using handles_okD(2) [OF ok p] by (auto simp: p'_def)
    then show "(ucast (id_of s' g) :: u32) \<noteq> ucast (handle_id hh)"
      using handle_match [OF ok p h(1) g(1)] id by (simp add: id_match_iff id_of_def s'(3))
  qed
  ultimately show "\<exists>s'. sys_handle_close (Suc d) (handle_id hh) s = Ret (IR_OK, s') \<and> handles_ok s' process n \<and>
        procs s' process = Some (p\<lparr>handle_table := remove1 h (handle_table p), free_handle_ids := free_handle_ids p @ [handle_id hh]\<rparr>) \<and>
        handles s' = (handles s)(h := None) \<and> objs s' = (objs s)(h_object hh \<mapsto> x\<lparr>references := references x - 1\<rparr>) \<and>
        find_handle process (handle_id hh) s' = Ret None"
    using s' unfolding p'_def by blast
qed (rule sys_handle_close_release [OF cur ok p lock] sys_handle_close_missing [OF cur ok p lock]; assumption)+

lemma demo_current: "current_process demo_kernel = Ret 0x20" "procs demo_kernel 0x20 = Some demo_process"
  "\<not> handle_table_lock demo_process"
  by (simp_all add: current_process_def demo_kernel_simps)

theorem sys_handle_close_correct_witness:
  "\<exists>s'. sys_handle_close (Suc 0) 2 demo_kernel = Ret (IR_OK, s') \<and> handles_ok s' 0x20 1 \<and> find_handle 0x20 2 s' = Ret None"
  using sys_handle_close_correct [OF demo_current(1) demo_handles_ok demo_current(2,3), of 0, THEN conjunct1, rule_format,
      of "0x110" "\<lparr>handle_id = 2, rights = IR_RIGHT_ALL, h_object = 0x30\<rparr>" "(new_object OBJECT_TYPE_CHANNEL NULL)\<lparr>references := 2\<rparr>"]
  by (auto simp: demo_kernel_simps)

text \<open>Handle ids are compared by their low 32 bits only: an id that differs from that of an open
  handle by a multiple of \<open>2 ^ 32\<close> closes that handle.\<close>

theorem handle_id_truncation:
  assumes "current_process s = Ret process" "handles_ok s process n" "procs s process = Some p" "\<not> handle_table_lock p"
    and "h \<in> set (handle_table p)" "handles s h = Some hh" "objs s (h_object hh) = Some x" "ob_type x \<noteq> 0" "references x \<noteq> 1"
  shows "\<exists>s'. sys_handle_close (Suc d) (handle_id hh + 2 ^ 32) s = Ret (IR_OK, s') \<and> handles s' h = None \<and>
    handle_id hh + 2 ^ 32 \<noteq> handle_id hh"
proof -
  have "(ucast (2 ^ 32 :: u64) :: u32) = 0"
    by simp
  moreover have "(ucast (a + b :: u64) :: u32) = ucast a + ucast b" for a b :: u64
    using ucast_minus_u64 [of a "- b"] ucast_minus_u64 [of 0 b] by simp
  ultimately have u: "(ucast (handle_id hh + 2 ^ 32) :: u32) = ucast (handle_id hh)"
    by simp
  have "int_of_u64 (a - (handle_id hh + 2 ^ 32)) = int_of_u64 (a - handle_id hh)" for a
    unfolding int_of_u64_def ucast_minus_u64 u ..
  then have "handle_by_id t d (handle_id hh + 2 ^ 32) = handle_by_id t d (handle_id hh)" for t d
    by (simp add: handle_by_id_def)
  then have "sys_handle_close (Suc d) (handle_id hh + 2 ^ 32) s = sys_handle_close (Suc d) (handle_id hh) s"
    by (simp add: sys_handle_close_def)
  then show ?thesis
    using sys_handle_close_found [OF assms] by fastforce
qed

theorem handle_id_truncation_witness:
  "\<exists>s'. sys_handle_close (Suc 0) 0x100000002 demo_kernel = Ret (IR_OK, s') \<and> handles s' 0x110 = None"
  using handle_id_truncation [OF demo_current(1) demo_handles_ok demo_current(2,3),
      of "0x110" "\<lparr>handle_id = 2, rights = IR_RIGHT_ALL, h_object = 0x30\<rparr>" "(new_object OBJECT_TYPE_CHANNEL NULL)\<lparr>references := 2\<rparr>" 0]
  by (auto simp: demo_kernel_simps)

text \<open>Duplicating and replacing a handle search the table for the address of the id on the kernel
  stack, not for the id. Unless the low half of that address happens to be the id of an open handle,
  both report a bad handle for every id, including valid ones, and change nothing.\<close>

theorem sys_handle_duplicate_fails:
  assumes cur: "current_process s = Ret process" and ok: "handles_ok s process n" and p: "procs s process = Some p"
    and lock: "\<not> handle_table_lock p" and out: "arch_validate_user_pointer id_out"
    and stack: "\<forall>h \<in> set (handle_table p). (ucast (id_of s h) :: u32) \<noteq> ucast stack_address"
  shows "sys_handle_duplicate stack_address i new_rights id_out s = Ret (IR_ERROR_BAD_HANDLE, s) \<and>
    sys_handle_replace stack_address i new_rights id_out s = Ret (IR_ERROR_BAD_HANDLE, s)"
  using cur locked_table(1,6) [OF ok p lock] stack out unlocked_process [OF lock] p
  by (simp add: sys_handle_duplicate_def sys_handle_replace_def fun_upd_idem)

theorem sys_handle_duplicate_fails_witness:
  "find_handle 0x20 2 demo_kernel = Ret (Some 0x110) \<and>
   sys_handle_duplicate 0xffff900000002f48 2 IR_RIGHT_ALL 0x7000 demo_kernel = Ret (IR_ERROR_BAD_HANDLE, demo_kernel)"
proof -
  have "find_handle 0x20 (id_of demo_kernel 0x110) demo_kernel = Ret (Some 0x110)"
    by (rule find_handle_found(1) [OF demo_handles_ok demo_current(2)]) (simp add: demo_process_def)
  moreover have "id_of demo_kernel 0x110 = 2"
    by (simp add: id_of_def demo_kernel_simps)
  moreover have "sys_handle_duplicate 0xffff900000002f48 2 IR_RIGHT_ALL 0x7000 demo_kernel = Ret (IR_ERROR_BAD_HANDLE, demo_kernel)"
    by (rule sys_handle_duplicate_fails [OF demo_current(1) demo_handles_ok demo_current(2,3), THEN conjunct1])
      (simp_all add: arch_validate_user_pointer_def demo_kernel_simps id_of_def)
  ultimately show ?thesis
    by simp
qed

end
