(* ===== verification/Vm_Object.thy ===== *)
theory Vm_Object
  imports Handle Frame_Allocator
begin

text \<open>
  Memory objects (\<^verbatim>\<open>kernel/memory/vm_object.c\<close>): creation from free pages, from a physical range
  and from a page list, and the two system calls. Cleanup is in the theory of object lifetimes.
\<close>

section \<open>Operations\<close>

definition set_pmm :: "pmm \<Rightarrow> kernel \<Rightarrow> kernel" where
  "set_pmm p s = s\<lparr>kernel_mmu := (kernel_mmu s)\<lparr>mm_pmm := p\<rparr>\<rparr>"

definition new_vm_object :: "ptr \<Rightarrow> vm_object \<Rightarrow> kernel \<Rightarrow> kernel" where
  "new_vm_object a v s = s\<lparr>objs := (objs s)(a \<mapsto> new_object OBJECT_TYPE_VM_OBJECT NULL), vms := (vms s)(a \<mapsto> v)\<rparr>"

definition vm_object_create :: "u64 \<Rightarrow> u64 \<Rightarrow> kernel \<Rightarrow> (ir_status \<times> ptr \<times> kernel) outcome" where
  "vm_object_create bytes flags s =
     (let bytes = ROUND_UP_PAGE bytes;
          (vm_obj, s) = malloc s in
      if vm_obj = NULL then Fault else
      obind (pmm_allocate_pages (bytes div PAGE_SIZE) (mm_pmm (kernel_mmu s))) (\<lambda>(status, pages, p).
      let s = set_pmm p s in
      if status \<noteq> IR_OK then Ret (status, NULL, s) else
      Ret (IR_OK, vm_obj, new_vm_object vm_obj
             \<lparr>page_list = (case pages of None \<Rightarrow> NULL | Some a \<Rightarrow> a), page_count = bytes div PAGE_SIZE,
              vm_size = bytes, access_flags = flags\<rparr> s)))"

text \<open>
  The next \<^verbatim>\<open>calloc\<close> result is the page array \<^verbatim>\<open>pmm_allocate_range\<close> may need; it is used up when the
  returned list is that array.
\<close>

definition vm_object_create_physical :: "u64 \<Rightarrow> u64 \<Rightarrow> u64 \<Rightarrow> kernel \<Rightarrow> (ir_status \<times> ptr \<times> kernel) outcome" where
  "vm_object_create_physical physical_address bytes flags s =
     (let old_base = physical_address;
          physical_address = ROUND_DOWN_PAGE physical_address;
          old_end = old_base + bytes;
          bytes = ROUND_UP_PAGE old_end - physical_address;
          (vm_obj, s) = malloc s in
      if vm_obj = NULL then Fault else
      obind (pmm_allocate_range physical_address bytes (fst (malloc s)) (mm_pmm (kernel_mmu s))) (\<lambda>(status, pages, p).
      let s = set_pmm p (if pages = Some (fst (malloc s)) then snd (malloc s) else s) in
      if status = IR_OK then
        Ret (IR_OK, vm_obj, new_vm_object vm_obj
               \<lparr>page_list = (case pages of None \<Rightarrow> NULL | Some a \<Rightarrow> a), page_count = bytes div PAGE_SIZE,
                vm_size = bytes, access_flags = flags\<rparr> s)
      else Ret (status, NULL, s)))"

partial_function (option) count_pages :: "page_store \<Rightarrow> ptr \<Rightarrow> u64 \<Rightarrow> u64 outcome option" where
  "count_pages m page cnt =
     (if page = NULL then Some (Ret cnt)
      else case m page of None \<Rightarrow> Some Fault | Some pg \<Rightarrow> count_pages m (pg_next pg) (cnt + 1))"

declare count_pages.simps [code]

definition vm_object_from_page_list :: "ptr \<Rightarrow> u64 \<Rightarrow> kernel \<Rightarrow> (ir_status \<times> ptr \<times> kernel) outcome" where
  "vm_object_from_page_list pages flags s =
     (let (vm_obj, s) = malloc s in
      if vm_obj = NULL then Ret (IR_ERROR_NO_MEMORY, NULL, s) else
      obind (looped (count_pages (pm_pages (mm_pmm (kernel_mmu s))) pages 0)) (\<lambda>n.
      Ret (IR_OK, vm_obj, new_vm_object vm_obj
             \<lparr>page_list = pages, page_count = n, vm_size = n * PAGE_SIZE, access_flags = flags\<rparr> s)))"

text \<open>The common end of the system calls that create an object and hand out its handle.\<close>

definition publish_handle :: "ptr \<Rightarrow> ptr \<Rightarrow> u64 \<Rightarrow> ptr \<Rightarrow> kernel \<Rightarrow> (ir_status \<times> kernel) outcome" where
  "publish_handle process obj rts out s =
     obind (handle_create process obj rts s) (\<lambda>(status, h, s).
     if status \<noteq> IR_OK then Ret (status, s) else
     obind (add_to_handle_table process h s) (\<lambda>s.
     obind (load (handles s) h) (\<lambda>hh.
     Ret (IR_OK, put_word out (handle_id hh) s))))"

definition sys_vm_object_create :: "u64 \<Rightarrow> u64 \<Rightarrow> ptr \<Rightarrow> kernel \<Rightarrow> (ir_status \<times> kernel) outcome" where
  "sys_vm_object_create bytes flags handle_out s =
     (if \<not> arch_validate_user_pointer handle_out then Ret (IR_ERROR_INVALID_ARGUMENTS, s) else
      obind (current_process s) (\<lambda>process.
      obind (vm_object_create bytes flags s) (\<lambda>(status, vm_obj, s).
      if status \<noteq> IR_OK then Ret (status, s) else
      publish_handle process vm_obj
        (if NOT flags AND VM_EXECUTABLE \<noteq> 0 then IR_RIGHT_ALL AND NOT IR_RIGHT_EXECUTE else IR_RIGHT_ALL)
        handle_out s)))"

definition sys_vm_object_create_physical :: "u64 \<Rightarrow> u64 \<Rightarrow> ptr \<Rightarrow> kernel \<Rightarrow> (ir_status \<times> kernel) outcome" where
  "sys_vm_object_create_physical address bytes handle_out s =
     (if \<not> arch_validate_user_pointer handle_out then Ret (IR_ERROR_INVALID_ARGUMENTS, s) else
      obind (current_process s) (\<lambda>process.
      obind (vm_object_create_physical address bytes VM_MMIO_FLAGS s) (\<lambda>(status, vm_obj, s).
      if status \<noteq> IR_OK then Ret (status, s) else
      publish_handle process vm_obj (IR_RIGHT_MAP OR IR_RIGHT_READ OR IR_RIGHT_WRITE) handle_out s)))"

section \<open>Giving pages back\<close>

lemma vm_free_pages_ok:
  assumes "pmm_inv p ps" "dlseg (pm_pages p) v a (qs @ [z]) NULL"
    and "\<And>q. q \<in> set qs \<Longrightarrow> q \<in> set (region_pages p) \<and> (\<exists>x. page_core (pm_pages p) q = Some (x, PAGE_STATE_USED))"
    and "set (qs @ [z]) \<inter> set ps = {}"
  shows "\<exists>p'. vm_free_pages a p = Some (Ret p') \<and> pmm_inv p' (rev qs @ ps) \<and>
    page_core (pm_pages p') z = page_core (pm_pages p) z \<and> region_pages p' = region_pages p"
  using assms
proof (induction qs arbitrary: a v p ps)
  case Nil
  then show ?case
    by (subst vm_free_pages.simps) (auto split: option.splits)
next
  case (Cons q qs)
  obtain pg where pg: "pm_pages p q = Some pg" "a = q" "q \<noteq> NULL" "dlseg (pm_pages p) q (pg_next pg) (qs @ [z]) NULL"
    using Cons.prems(2) by (auto split: option.splits)
  have dist: "distinct (q # qs @ [z])"
    using dlseg_distinct [OF Cons.prems(2)] by simp
  obtain x where x: "page_core (pm_pages p) q = Some (x, PAGE_STATE_USED)" "q \<in> set (region_pages p)"
    using Cons.prems(3) by auto
  obtain p1 where p1: "pmm_free_page q p = Ret p1" "pmm_inv p1 (q # ps)"
      "page_core (pm_pages p1) = (page_core (pm_pages p))(q \<mapsto> (x, PAGE_STATE_FREE))"
      "\<And>y. y \<notin> set (q # ps) \<Longrightarrow> pm_pages p1 y = pm_pages p y" "regions_array p1 = regions_array p"
    using pmm_free_page_refine [OF Cons.prems(1) x(2,1)] by blast
  have same: "\<And>y. y \<in> set (qs @ [z]) \<Longrightarrow> pm_pages p1 y = pm_pages p y"
  proof -
    fix y assume "y \<in> set (qs @ [z])"
    then have "y \<notin> set (q # ps)"
      using dist Cons.prems(4) by auto
    then show "pm_pages p1 y = pm_pages p y"
      by (rule p1(4))
  qed
  have pages: "region_pages p1 = region_pages p"
    using p1(5) by (simp add: region_pages_def available_def)
  have "dlseg (pm_pages p1) q (pg_next pg) (qs @ [z]) NULL"
    using pg(4) dlseg_cong [of "qs @ [z]" "pm_pages p1" "pm_pages p"] same by blast
  moreover have "set (qs @ [z]) \<inter> set (q # ps) = {}"
    using Cons.prems(4) dist by auto
  moreover have "\<And>r. r \<in> set qs \<Longrightarrow> r \<in> set (region_pages p1) \<and> (\<exists>x. page_core (pm_pages p1) r = Some (x, PAGE_STATE_USED))"
    using Cons.prems(3) dist by (auto simp: pages p1(3))
  ultimately obtain p2 where p2: "vm_free_pages (pg_next pg) p1 = Some (Ret p2)" "pmm_inv p2 (rev qs @ q # ps)"
      "page_core (pm_pages p2) z = page_core (pm_pages p1) z" "region_pages p2 = region_pages p1"
    using Cons.IH [OF p1(2)] by blast
  have "pg_next pg \<noteq> NULL"
    using pg(4) by (cases qs) (auto split: option.splits)
  then have "vm_free_pages a p = Some (Ret p2)"
    using pg(1,2) p1(1) p2(1) by (subst vm_free_pages.simps) simp
  then show ?case
    using p2 p1(3) dist pages by auto
qed

section \<open>Properties\<close>

text \<open>Creating a memory object takes its pages off the free list, and destroying it gives all of them
  back except one: the loop stops at the page whose \<^verbatim>\<open>next\<close> is null, so each object leaks its last page.\<close>

theorem vm_object_cleanup_leaks_page:
  assumes inv: "pmm_inv (mm_pmm (kernel_mmu s)) ps" and heap: "heap s = a # hs" "a \<noteq> NULL"
    and n: "n = unat (ROUND_UP_PAGE bytes div PAGE_SIZE)" "0 < n" "n < length ps" "n < 2 ^ 32"
  shows "\<exists>s1 s2. vm_object_create bytes flags s = Ret (IR_OK, a, s1) \<and>
    pmm_inv (mm_pmm (kernel_mmu s1)) (drop n ps) \<and> vm_object_cleanup a s1 = Ret s2 \<and> objs s2 a = None \<and>
    pmm_inv (mm_pmm (kernel_mmu s2)) (rev (take (n - 1) ps) @ drop n ps)"
proof -
  define p where "p = mm_pmm (kernel_mmu s)"
  have inv': "pmm_inv p ps"
    using inv by (simp add: p_def)
  obtain p1 where p1: "pmm_allocate_pages (ROUND_UP_PAGE bytes div PAGE_SIZE) p = Ret (IR_OK, Some (hd ps), p1)"
      "pmm_inv p1 (drop n ps)" "dlseg (pm_pages p1) NULL (hd ps) (take n ps) NULL"
      "page_core (pm_pages p1) = used_core (set (take n ps)) (page_core (pm_pages p))"
      "regions_array p1 = regions_array p"
    using pmm_allocate_pages_refine [OF inv', of "ROUND_UP_PAGE bytes div PAGE_SIZE"] n unfolding n(1) [symmetric] by blast
  have split: "take n ps = take (n - 1) ps @ [ps ! (n - 1)]"
    using n(2,3) take_Suc_conv_app_nth [of "n - 1" ps] by simp
  have used: "q \<in> set (region_pages p1) \<and> (\<exists>x. page_core (pm_pages p1) q = Some (x, PAGE_STATE_USED))"
    if "q \<in> set (take (n - 1) ps)" for q
  proof -
    have "q \<in> set ps" "q \<in> set (take n ps)"
      using that split by (auto dest: in_set_takeD)
    then show ?thesis
      using inv' p1(4,5) by (auto simp: pmm_inv_def used_core_def region_pages_def available_def)
  qed
  have "set (take (n - 1) ps @ [ps ! (n - 1)]) \<inter> set (drop n ps) = {}"
    using set_take_disj_set_drop_if_distinct [OF pmm_inv_distinct [OF inv'], of n n] by (simp add: split)
  then obtain p2 where p2: "vm_free_pages (hd ps) p1 = Some (Ret p2)" "pmm_inv p2 (rev (take (n - 1) ps) @ drop n ps)"
    using vm_free_pages_ok [OF p1(2) p1(3) [unfolded split] used] by blast
  have "vm_object_create bytes flags s = Ret (IR_OK, a, new_vm_object a
      \<lparr>page_list = hd ps, page_count = ROUND_UP_PAGE bytes div PAGE_SIZE, vm_size = ROUND_UP_PAGE bytes, access_flags = flags\<rparr>
      (set_pmm p1 (s\<lparr>heap := hs\<rparr>)))"
    using p1(1) heap by (simp add: vm_object_create_def malloc_def p_def Let_def)
  then show ?thesis
    using p1(2) p2 by (simp add: new_vm_object_def set_pmm_def vm_object_cleanup_def free_object_def)
qed

theorem vm_object_cleanup_leaks_page_witness:
  "\<exists>s1 s2. vm_object_create 0x1001 VM_READABLE (set_pmm demo_pmm (blank_kernel\<lparr>heap := [0x9000]\<rparr>)) = Ret (IR_OK, 0x9000, s1) \<and>
    pmm_inv (mm_pmm (kernel_mmu s1)) [0x1000] \<and> vm_object_cleanup 0x9000 s1 = Ret s2 \<and> objs s2 0x9000 = None \<and>
    pmm_inv (mm_pmm (kernel_mmu s2)) [0x1040, 0x1000]"
proof -
  define s where "s = set_pmm demo_pmm (blank_kernel\<lparr>heap := [0x9000]\<rparr>)"
  have s: "pmm_inv (mm_pmm (kernel_mmu s)) [0x1040, 0x1020, 0x1000]" "heap s = [0x9000]"
    by (simp_all add: s_def set_pmm_def demo_pmm_inv)
  have n: "2 = unat (ROUND_UP_PAGE 0x1001 div PAGE_SIZE)"
    by code_simp
  show ?thesis
    unfolding s_def [symmetric]
    using vm_object_cleanup_leaks_page [OF s _ n, of VM_READABLE] by simp
qed

end
