(* ===== verification/V_Addr_Region.thy ===== *)
theory V_Addr_Region
  imports Vm_Object
begin

text \<open>
  Virtual address regions (\<^verbatim>\<open>kernel/memory/v_addr_region.c\<close>) and the kernel's own region
  (\<^verbatim>\<open>kernel/memory/vmem.c\<close>): creation in the first gap of a parent or at a given address, mapping a
  memory object, and the system calls. Destruction and cleanup are in the theory of object
  lifetimes. The abstract specification is \<open>first_fit\<close> on the intervals the children occupy.
\<close>

section \<open>Operations\<close>

text \<open>\<^verbatim>\<open>linked_list_add_sorted\<close> with a comparison that reads the elements.\<close>

fun list_add_sorted :: "(ptr \<Rightarrow> int outcome) \<Rightarrow> ptr \<Rightarrow> ptr list \<Rightarrow> ptr list outcome" where
  "list_add_sorted cmp d [] = Ret [d]"
| "list_add_sorted cmp d (x # xs) = obind (cmp x) (\<lambda>c.
     if c \<le> 0 then obind (list_add_sorted cmp d xs) (\<lambda>ys. Ret (x # ys)) else Ret (d # x # xs))"

definition v_addr_region_create_root ::
  "ptr \<Rightarrow> u64 \<Rightarrow> u64 \<Rightarrow> kernel \<Rightarrow> (ir_status \<times> ptr \<times> kernel) outcome" where
  "v_addr_region_create_root addr_space base len s =
     (let (region, s) = malloc s in
      if region = NULL then Ret (IR_ERROR_NO_MEMORY, NULL, s) else
      Ret (IR_OK, region,
           s\<lparr>objs := (objs s)(region \<mapsto> new_object OBJECT_TYPE_V_ADDR_REGION NULL),
             regions := (regions s)(region \<mapsto>
               \<lparr>vr_base = base, vr_length = len, vr_flags = 0, can_destroy = False, destroyed = False,
                containing_address_space = addr_space, vr_vm_object = NULL\<rparr>)\<rparr>))"

text \<open>The search for a gap in front of a child: whether one was found, and the end of the child before it.\<close>

fun region_find_gap :: "kernel \<Rightarrow> u64 \<Rightarrow> u64 \<Rightarrow> ptr list \<Rightarrow> (bool \<times> u64) outcome" where
  "region_find_gap s len previous_end [] = Ret (False, previous_end)"
| "region_find_gap s len previous_end (c # cs) =
     obind (load (regions s) c) (\<lambda>r.
     if vr_base r - previous_end \<ge> len then Ret (True, previous_end)
     else region_find_gap s len (vr_base r + vr_length r) cs)"

text \<open>Allocating a child region and linking it into its parent.\<close>

definition region_attach :: "ptr \<Rightarrow> u64 \<Rightarrow> u64 \<Rightarrow> u64 \<Rightarrow> kernel \<Rightarrow> (ptr \<times> kernel) outcome" where
  "region_attach par base len flags s =
     obind (upd_obj par (\<lambda>x. x\<lparr>references := references x + 1\<rparr>) s) (\<lambda>s.
     let (region, s) = malloc s in
     if region = NULL then Fault else
     obind (load (regions s) par) (\<lambda>pr.
     let s = s\<lparr>objs := (objs s)(region \<mapsto> new_object OBJECT_TYPE_V_ADDR_REGION par),
               regions := (regions s)(region \<mapsto>
                 \<lparr>vr_base = base, vr_length = len, vr_flags = flags, can_destroy = True, destroyed = False,
                  containing_address_space = containing_address_space pr, vr_vm_object = NULL\<rparr>)\<rparr> in
     obind (load (objs s) par) (\<lambda>p.
     obind (list_add_sorted (\<lambda>d. compare_bases s d region) region (children p)) (\<lambda>cs.
     obind (upd_obj par (\<lambda>x. x\<lparr>children := cs\<rparr>) s) (\<lambda>s.
     Ret (region, s))))))"

definition v_addr_region_create ::
  "ptr \<Rightarrow> u64 \<Rightarrow> u64 \<Rightarrow> kernel \<Rightarrow> (ir_status \<times> ptr \<times> u64 \<times> kernel) outcome" where
  "v_addr_region_create par len flags s =
     (let len = ROUND_UP_PAGE len in
      obind (load (regions s) par) (\<lambda>pr.
      if destroyed pr then Ret (IR_ERROR_BAD_STATE, NULL, 0, s) else
      obind (load (objs s) par) (\<lambda>p.
      obind (region_find_gap s len (vr_base pr) (children p)) (\<lambda>(found, previous_end).
      if \<not> found \<and> vr_base pr + vr_length pr - previous_end < len then Ret (IR_ERROR_NO_MEMORY, NULL, 0, s) else
      obind (region_attach par previous_end len flags s) (\<lambda>(region, s).
      Ret (IR_OK, region, previous_end, s))))))"

fun region_overlaps :: "kernel \<Rightarrow> u64 \<Rightarrow> u64 \<Rightarrow> ptr list \<Rightarrow> bool outcome" where
  "region_overlaps s start fin [] = Ret False"
| "region_overlaps s start fin (c # cs) =
     obind (load (regions s) c) (\<lambda>r.
     if start < vr_base r + vr_length r \<and> fin > vr_base r then Ret True
     else region_overlaps s start fin cs)"

definition v_addr_region_create_specific ::
  "ptr \<Rightarrow> u64 \<Rightarrow> u64 \<Rightarrow> u64 \<Rightarrow> kernel \<Rightarrow> (ir_status \<times> ptr \<times> u64 \<times> kernel) outcome" where
  "v_addr_region_create_specific par address len flags s =
     obind (load (regions s) par) (\<lambda>pr.
     if destroyed pr then Ret (IR_ERROR_BAD_STATE, NULL, 0, s) else
     let old_base = address;
         address = ROUND_DOWN_PAGE old_base;
         old_end = old_base + len;
         len = ROUND_UP_PAGE old_end - address;
         len = ROUND_UP_PAGE len in
     obind (load (objs s) par) (\<lambda>p.
     obind (region_overlaps s address (address + len) (children p)) (\<lambda>overlap.
     if overlap then Ret (IR_ERROR_NO_MEMORY, NULL, 0, s) else
     obind (region_attach par address len flags s) (\<lambda>(region, s).
     Ret (IR_OK, region, address, s)))))"

text \<open>
  The array of physical addresses. The counter is a 32-bit integer compared with the 64-bit page
  count.
\<close>

partial_function (option) gather_pages ::
  "page_store \<Rightarrow> u64 \<Rightarrow> u32 \<Rightarrow> ptr \<Rightarrow> u64 list \<Rightarrow> u64 list outcome option" where
  "gather_pages m cnt i page acc =
     (if ucast i < cnt then
        (case m page of None \<Rightarrow> Some Fault
         | Some pg \<Rightarrow> gather_pages m cnt (i + 1) (pg_next pg) (acc @ [pg_address pg]))
      else Some (Ret acc))"

declare gather_pages.simps [code]

text \<open>Giving a new region its memory object and mapping its pages.\<close>

definition region_link_vm :: "ptr \<Rightarrow> ptr \<Rightarrow> ptr \<Rightarrow> kernel \<Rightarrow> kernel outcome" where
  "region_link_vm par vm region s =
     obind (upd_obj vm (\<lambda>x. x\<lparr>references := references x + 1\<rparr>) s) (\<lambda>s.
     obind (upd_obj par (\<lambda>x. x\<lparr>references := references x + 1\<rparr>) s) (\<lambda>s.
     upd_region region (\<lambda>r. r\<lparr>vr_vm_object := vm\<rparr>) s))"

definition region_map_pages ::
  "nat \<Rightarrow> ptr \<Rightarrow> u64 \<Rightarrow> ptr \<Rightarrow> ptr \<Rightarrow> u64 \<Rightarrow> kernel \<Rightarrow> (ir_status \<times> ptr \<times> u64 \<times> kernel) outcome" where
  "region_map_pages depth par flags vm region address s =
     obind (load (vms s) vm) (\<lambda>v.
     let (physical_addresses, s) = malloc s in
     if page_count v \<noteq> 0 \<and> physical_addresses = NULL then Fault else
     obind (looped (gather_pages (pm_pages (mm_pmm (kernel_mmu s))) (page_count v) 0 (page_list v) [])) (\<lambda>addresses.
     obind (load (regions s) par) (\<lambda>pr.
     obind (load (spaces s) (containing_address_space pr)) (\<lambda>space.
     obind (arch_mmu_map space address addresses flags (kernel_mmu s)) (\<lambda>(result, m).
     if result = IR_ERROR_NO_MEMORY then
       obind (arch_mmu_unmap (Some space) address (page_count v) m) (\<lambda>(_, m).
       obind (object_decrement_references depth vm (s\<lparr>kernel_mmu := m\<rparr>)) (\<lambda>s.
       obind (upd_obj par (\<lambda>x. x\<lparr>children := remove_ptr region (children x)\<rparr>) s) (\<lambda>s.
       obind (object_decrement_references depth par s) (\<lambda>s.
       Ret (IR_ERROR_NO_MEMORY, NULL, 0, free_object region s)))))
     else Ret (IR_OK, region, address, s\<lparr>kernel_mmu := m\<rparr>))))))"

definition v_addr_region_map_vm_object ::
  "nat \<Rightarrow> ptr \<Rightarrow> u64 \<Rightarrow> ptr \<Rightarrow> u64 \<Rightarrow> kernel \<Rightarrow> (ir_status \<times> ptr \<times> u64 \<times> kernel) outcome" where
  "v_addr_region_map_vm_object depth par flags vm address s =
     obind (load (regions s) par) (\<lambda>pr.
     if destroyed pr then Ret (IR_ERROR_BAD_STATE, NULL, 0, s) else
     obind (load (vms s) vm) (\<lambda>v.
     obind (if flags AND V_ADDR_REGION_MAP_SPECIFIC \<noteq> 0
            then v_addr_region_create_specific par address (vm_size v) (flags AND NOT V_ADDR_REGION_MAP_SPECIFIC) s
            else v_addr_region_create par (vm_size v) flags s) (\<lambda>(status, region, address, s).
     if status \<noteq> IR_OK then Ret (status, NULL, 0, s) else
     obind (region_link_vm par vm region s) (\<lambda>s.
     region_map_pages depth par (flags AND NOT V_ADDR_REGION_MAP_SPECIFIC) vm region address s))))"

section \<open>System calls\<close>

text \<open>The end of the two system calls that hand out a child region.\<close>

definition publish_region :: "ptr \<Rightarrow> ptr \<Rightarrow> u64 \<Rightarrow> ptr \<Rightarrow> ptr \<Rightarrow> kernel \<Rightarrow> (ir_status \<times> kernel) outcome" where
  "publish_region process child address region_out address_out s =
     obind (handle_create process child IR_RIGHT_ALL s) (\<lambda>(_, child_handle, s).
     obind (add_to_handle_table process child_handle s) (\<lambda>s.
     obind (unlock_handle_table process s) (\<lambda>s.
     obind (load (handles s) child_handle) (\<lambda>h.
     Ret (IR_OK, put_word address_out address (put_word region_out (handle_id h) s))))))"

definition sys_v_addr_region_create ::
  "u64 \<Rightarrow> u64 \<Rightarrow> u64 \<Rightarrow> ptr \<Rightarrow> ptr \<Rightarrow> kernel \<Rightarrow> (ir_status \<times> kernel) outcome" where
  "sys_v_addr_region_create par_id len flags region_out address_out s =
     (if \<not> arch_validate_user_pointer region_out \<or> \<not> arch_validate_user_pointer address_out
      then Ret (IR_ERROR_INVALID_ARGUMENTS, s) else
      obind (current_process s) (\<lambda>process.
      obind (lock_handle_table process s) (\<lambda>s.
      obind (find_handle process par_id s) (\<lambda>found.
      case found of
        None \<Rightarrow> obind (unlock_handle_table process s) (\<lambda>s. Ret (IR_ERROR_BAD_HANDLE, s))
      | Some h \<Rightarrow>
          obind (load (handles s) h) (\<lambda>hh.
          obind (load (objs s) (h_object hh)) (\<lambda>x.
          if ob_type x \<noteq> OBJECT_TYPE_V_ADDR_REGION
          then obind (unlock_handle_table process s) (\<lambda>s. Ret (IR_ERROR_WRONG_TYPE, s)) else
          obind (v_addr_region_create (h_object hh) len flags s) (\<lambda>(status, child, address, s).
          if status \<noteq> IR_OK then obind (unlock_handle_table process s) (\<lambda>s. Ret (status, s)) else
          publish_region process child address region_out address_out s)))))))"

definition sys_v_addr_region_map ::
  "nat \<Rightarrow> u64 \<Rightarrow> u64 \<Rightarrow> u64 \<Rightarrow> ptr \<Rightarrow> ptr \<Rightarrow> kernel \<Rightarrow> (ir_status \<times> kernel) outcome" where
  "sys_v_addr_region_map depth par_id vm_id flags region_out address_out s =
     (if \<not> arch_validate_user_pointer region_out \<or> \<not> arch_validate_user_pointer address_out
      then Ret (IR_ERROR_INVALID_ARGUMENTS, s) else
      obind (current_process s) (\<lambda>process.
      obind (lock_handle_table process s) (\<lambda>s.
      obind (find_handle process par_id s) (\<lambda>found.
      obind (find_handle process vm_id s) (\<lambda>found2.
      case (found, found2) of
        (Some h, Some h2) \<Rightarrow>
          obind (load (handles s) h) (\<lambda>hh.
          obind (load (handles s) h2) (\<lambda>hh2.
          obind (load (objs s) (h_object hh)) (\<lambda>x.
          obind (if ob_type x \<noteq> OBJECT_TYPE_V_ADDR_REGION then Ret True
                 else obind (load (objs s) (h_object hh2)) (\<lambda>y. Ret (ob_type y \<noteq> OBJECT_TYPE_VM_OBJECT))) (\<lambda>wrong.
          if wrong then obind (unlock_handle_table process s) (\<lambda>s. Ret (IR_ERROR_WRONG_TYPE, s)) else
          obind (v_addr_region_map_vm_object depth (h_object hh) flags (h_object hh2) 0 s) (\<lambda>(status, child, address, s).
          if status \<noteq> IR_OK then obind (unlock_handle_table process s) (\<lambda>s. Ret (status, s)) else
          publish_region process child address region_out address_out s)))))
      | _ \<Rightarrow> obind (unlock_handle_table process s) (\<lambda>s. Ret (IR_ERROR_BAD_HANDLE, s)))))))"

definition sys_v_addr_region_destroy :: "nat \<Rightarrow> u64 \<Rightarrow> kernel \<Rightarrow> (ir_status \<times> kernel) outcome" where
  "sys_v_addr_region_destroy depth region_id s =
     obind (current_process s) (\<lambda>process.
     obind (lock_handle_table process s) (\<lambda>s.
     obind (find_handle process region_id s) (\<lambda>found.
     case found of
       None \<Rightarrow> obind (unlock_handle_table process s) (\<lambda>s. Ret (IR_ERROR_BAD_HANDLE, s))
     | Some h \<Rightarrow>
         obind (load (handles s) h) (\<lambda>hh.
         obind (load (objs s) (h_object hh)) (\<lambda>x.
         if ob_type x \<noteq> OBJECT_TYPE_V_ADDR_REGION
         then obind (unlock_handle_table process s) (\<lambda>s. Ret (IR_ERROR_WRONG_TYPE, s)) else
         obind (unlock_handle_table process s) (\<lambda>s.
         obind (load (regions s) (h_object hh)) (\<lambda>r.
         if \<not> can_destroy r then Ret (IR_ERROR_ACCESS_DENIED, s) else
         obind (v_addr_region_destroy depth (h_object hh) s) (\<lambda>s. Ret (IR_OK, s)))))))))"

section \<open>The kernel's region\<close>

text \<open>
  \<open>kernel_space\<close> is the address of \<^verbatim>\<open>kernel_address_space\<close>; \<open>image_start\<close> and \<open>image_end\<close> are the linker's
  symbols \<^verbatim>\<open>_start\<close> and \<^verbatim>\<open>_end\<close>.
\<close>

definition virtual_memory_init :: "ptr \<Rightarrow> u64 \<Rightarrow> u64 \<Rightarrow> kernel \<Rightarrow> kernel outcome" where
  "virtual_memory_init kernel_space image_start image_end s =
     obind (v_addr_region_create_root kernel_space KERNEL_MEMORY_BASE KERNEL_MEMORY_LENGTH s) (\<lambda>(status, region, s).
     let s = (if status = IR_OK then s\<lparr>kernel_region := region\<rparr> else s) in
     obind (v_addr_region_create_specific (kernel_region s) image_start (ROUND_UP_PAGE (image_end - image_start))
              (V_ADDR_REGION_READABLE OR V_ADDR_REGION_WRITABLE OR V_ADDR_REGION_EXECUTABLE) s) (\<lambda>(_, _, _, s).
     obind (v_addr_region_create_specific (kernel_region s) physical_map_base physical_map_length
              (V_ADDR_REGION_READABLE OR V_ADDR_REGION_WRITABLE) s) (\<lambda>(_, _, _, s).
     Ret s)))"

definition init_kernel_address_space :: "ptr \<Rightarrow> address_space \<Rightarrow> kernel \<Rightarrow> kernel" where
  "init_kernel_address_space kernel_space addr_space s = s\<lparr>spaces := (spaces s)(kernel_space \<mapsto> addr_space)\<rparr>"

section \<open>First fit\<close>

text \<open>Intervals given by their start and length, in ascending order and without overlap between \<open>b\<close> and \<open>e\<close>.\<close>

fun layout :: "nat \<Rightarrow> nat \<Rightarrow> (nat \<times> nat) list \<Rightarrow> bool" where
  "layout b e [] \<longleftrightarrow> b \<le> e"
| "layout b e ((x, l) # ivs) \<longleftrightarrow> b \<le> x \<and> layout (x + l) e ivs"

text \<open>The lowest start of a gap of at least \<open>n\<close>.\<close>

fun first_fit :: "nat \<Rightarrow> nat \<Rightarrow> nat \<Rightarrow> (nat \<times> nat) list \<Rightarrow> nat option" where
  "first_fit n b e [] = (if n \<le> e - b then Some b else None)"
| "first_fit n b e ((x, l) # ivs) = (if n \<le> x - b then Some b else first_fit n (x + l) e ivs)"

lemma layout_append: "layout b e (as @ (q, n) # bs) \<longleftrightarrow> layout b q as \<and> layout (q + n) e bs"
  by (induction b q as rule: layout.induct) auto

lemma layout_le: "layout b e ivs \<Longrightarrow> b \<le> e"
  by (induction b e ivs rule: layout.induct) auto

lemma layout_bounds: "layout b e ivs \<Longrightarrow> (x, l) \<in> set ivs \<Longrightarrow> b \<le> x \<and> x + l \<le> e"
proof (induction b e ivs rule: layout.induct)
  case (1 b e)
  then show ?case by simp
next
  case (2 b e y k ivs)
  then show ?case
    using layout_le [of "y + k" e ivs] by force
qed

lemma first_fit_sound:
  assumes "layout b e ivs" "0 < n" "first_fit n b e ivs = Some q"
  shows "\<exists>as bs. ivs = as @ bs \<and> layout b e (as @ (q, n) # bs)"
  using assms
proof (induction n b e ivs rule: first_fit.induct)
  case (1 n b e)
  then show ?case
    by (auto intro!: exI [of _ "[]"] split: if_splits)
next
  case (2 n b e x l ivs)
  show ?case
  proof (cases "n \<le> x - b")
    case True
    then show ?thesis
      using 2(2-) by (intro exI [of _ "[]"] exI [of _ "(x, l) # ivs"]) auto
  next
    case False
    then obtain as bs where "ivs = as @ bs" "layout (x + l) e (as @ (q, n) # bs)"
      using 2 by auto
    then show ?thesis
      using 2(2) by (intro exI [of _ "(x, l) # as"] exI [of _ bs]) auto
  qed
qed

lemma first_fit_complete:
  assumes "layout b e ivs" "0 < n" "first_fit n b e ivs = None" "b \<le> q" "q + n \<le> e"
  shows "\<exists>(x, l) \<in> set ivs. q < x + l \<and> x < q + n"
  using assms
proof (induction n b e ivs rule: first_fit.induct)
  case (1 n b e)
  then show ?case by (auto split: if_splits)
next
  case (2 n b e x l ivs)
  show ?case
  proof (cases "x + l \<le> q")
    case True
    then show ?thesis
      using 2 by (auto split: if_splits)
  next
    case False
    then show ?thesis
      using 2(2-) by (auto split: if_splits)
  qed
qed

section \<open>The search for a gap\<close>

definition interval :: "kernel \<Rightarrow> ptr \<Rightarrow> nat \<times> nat" where
  "interval s c = (case regions s c of None \<Rightarrow> (0, 0) | Some r \<Rightarrow> (unat (vr_base r), unat (vr_length r)))"

lemma word_diff_of_nat:
  "q \<le> x \<Longrightarrow> x - q < 2 ^ 64 \<Longrightarrow> unat ((of_nat x :: u64) - of_nat q) = x - q"
  by (metis of_nat_diff unat_of_nat_u64)

lemma region_find_gap_first_fit:
  assumes "layout b e (map (interval s) cs)" "set cs \<subseteq> dom (regions s)"
  shows "\<exists>found q. region_find_gap s len (of_nat b) cs = Ret (found, of_nat q) \<and> b \<le> q \<and> q \<le> e \<and>
    first_fit (unat len) b e (map (interval s) cs) = (if found \<or> unat len \<le> e - q then Some q else None)"
  using assms
proof (induction cs arbitrary: b)
  case Nil
  then show ?case
    by (intro exI [of _ False] exI [of _ b]) auto
next
  case (Cons c cs)
  obtain r where r: "regions s c = Some r"
    using Cons.prems(2) by auto
  have iv: "interval s c = (unat (vr_base r), unat (vr_length r))"
    by (simp add: interval_def r)
  have b: "b \<le> unat (vr_base r)" and rest: "layout (unat (vr_base r) + unat (vr_length r)) e (map (interval s) cs)"
    using Cons.prems(1) by (simp_all add: iv)
  have "unat (vr_base r - of_nat b) = unat (vr_base r) - b"
    using word_diff_of_nat [OF b] unat_u64_less [of "vr_base r"] by simp
  then have gap: "len \<le> vr_base r - of_nat b \<longleftrightarrow> unat len \<le> unat (vr_base r) - b"
    by (simp add: word_le_nat_alt)
  show ?case
  proof (cases "unat len \<le> unat (vr_base r) - b")
    case True
    then show ?thesis
      using gap r iv b layout_le [OF rest] by (intro exI [of _ True] exI [of _ b]) simp
  next
    case False
    then show ?thesis
      using gap r iv b Cons.IH [OF rest] Cons.prems(2) by fastforce
  qed
qed

section \<open>Linking a child\<close>

definition region_layout :: "kernel \<Rightarrow> ptr \<Rightarrow> bool" where
  "region_layout s par \<longleftrightarrow> (\<exists>pr p. regions s par = Some pr \<and> objs s par = Some p \<and> par \<notin> set (children p) \<and>
     set (children p) \<subseteq> dom (regions s) \<and> unat (vr_base pr) + unat (vr_length pr) \<le> 2 ^ 64 \<and>
     layout (unat (vr_base pr)) (unat (vr_base pr) + unat (vr_length pr)) (map (interval s) (children p)))"

lemma list_add_sorted_at:
  assumes "\<And>x. x \<in> set as \<Longrightarrow> \<exists>c. cmp x = Ret c \<and> c \<le> 0" "\<And>x. x \<in> set bs \<Longrightarrow> \<exists>c. cmp x = Ret c \<and> 0 < c"
  shows "list_add_sorted cmp d (as @ bs) = Ret (as @ d # bs)"
  using assms
proof (induction as)
  case Nil
  then show ?case
  proof (cases bs)
    case (Cons b bs')
    then obtain c where "cmp b = Ret c" "0 < c"
      using Nil(2) [of b] by auto
    then show ?thesis
      using Cons by simp
  qed simp
next
  case (Cons a as)
  then have "list_add_sorted cmp d (as @ bs) = Ret (as @ d # bs)" "\<exists>c. cmp a = Ret c \<and> c \<le> 0"
    by simp_all
  then show ?case
    by auto
qed

lemma compare_bases_unat:
  assumes "regions s d = Some rd" "regions s t = Some rt"
  shows "\<exists>c. compare_bases s d t = Ret c \<and> (c \<le> 0 \<longleftrightarrow> unat (vr_base rd) \<le> unat (vr_base rt)) \<and>
    (0 < c \<longleftrightarrow> unat (vr_base rt) < unat (vr_base rd))"
  using assms by (auto simp: compare_bases_def word_less_nat_alt word_unat_eq_iff)

text \<open>Attaching a child whose interval fits between the children \<open>as\<close> and \<open>bs\<close> puts it between them.\<close>

lemma region_attach_at:
  assumes par: "regions s par = Some pr" "objs s par = Some p" "children p = as @ bs"
    and fit: "layout b e (map (interval s) as @ (unat base, unat len) # map (interval s) bs)" "0 < unat len"
    and cs: "set (as @ bs) \<subseteq> dom (regions s)"
    and a: "heap s = a # hs" "a \<noteq> NULL" "a \<notin> dom (regions s)"
  obtains s' where "region_attach par base len flags s = Ret (a, s')"
    and "objs s' par = Some (p\<lparr>references := references p + 1, children := as @ a # bs\<rparr>)"
    and "objs s' a = Some (new_object OBJECT_TYPE_V_ADDR_REGION par)"
    and "regions s' = (regions s)(a \<mapsto> \<lparr>vr_base = base, vr_length = len, vr_flags = flags, can_destroy = True,
           destroyed = False, containing_address_space = containing_address_space pr, vr_vm_object = NULL\<rparr>)"
    and "vms s' = vms s" and "kernel_mmu s' = kernel_mmu s" and "heap s' = hs"
    and "\<And>x. x \<noteq> a \<Longrightarrow> x \<noteq> par \<Longrightarrow> objs s' x = objs s x"
proof -
  let ?r = "\<lparr>vr_base = base, vr_length = len, vr_flags = flags, can_destroy = True,
           destroyed = False, containing_address_space = containing_address_space pr, vr_vm_object = NULL\<rparr>"
  have apar: "a \<noteq> par"
    using a(3) par(1) by auto
  define t where "t = s\<lparr>heap := hs, objs := (objs s)(par \<mapsto> p\<lparr>references := references p + 1\<rparr>,
      a \<mapsto> new_object OBJECT_TYPE_V_ADDR_REGION par), regions := (regions s)(a \<mapsto> ?r)\<rparr>"
  have cmp: "\<exists>k. compare_bases t c a = Ret k \<and> (k \<le> 0 \<longleftrightarrow> fst (interval s c) \<le> unat base) \<and>
      (0 < k \<longleftrightarrow> unat base < fst (interval s c))" if c: "c \<in> set (as @ bs)" for c
  proof -
    obtain rc where rc: "regions s c = Some rc" "c \<noteq> a"
      using c cs a(3) by blast
    then show ?thesis
      using compare_bases_unat [of t c rc a ?r] by (simp add: t_def interval_def)
  qed
  have lay: "layout b (unat base) (map (interval s) as)" "layout (unat base + unat len) e (map (interval s) bs)"
    using fit(1) by (simp_all add: layout_append)
  have "fst (interval s c) \<le> unat base" if "c \<in> set as" for c
    using layout_bounds [OF lay(1), of "fst (interval s c)" "snd (interval s c)"] that by simp
  moreover have "unat base < fst (interval s c)" if "c \<in> set bs" for c
    using layout_bounds [OF lay(2), of "fst (interval s c)" "snd (interval s c)"] that fit(2) by simp
  ultimately have ins: "list_add_sorted (\<lambda>d. compare_bases t d a) a (as @ bs) = Ret (as @ a # bs)"
    using cmp by (intro list_add_sorted_at) force+
  have "region_attach par base len flags s = Ret (a, t\<lparr>objs := (objs t)(par \<mapsto> p\<lparr>references := references p + 1,
      children := as @ a # bs\<rparr>)\<rparr>)"
    using par a(1,2) apar ins by (simp add: region_attach_def malloc_def Let_def t_def)
  then show thesis
    by (rule that) (use apar in \<open>simp_all add: t_def\<close>)
qed

section \<open>Properties\<close>

lemma interval_upd: "c \<noteq> a \<Longrightarrow> regions s' = (regions s)(a \<mapsto> r) \<Longrightarrow> interval s' c = interval s c"
  by (simp add: interval_def)

lemma map_interval_upd:
  "a \<notin> set cs \<Longrightarrow> regions s' = (regions s)(a \<mapsto> r) \<Longrightarrow> map (interval s') cs = map (interval s) cs"
  by (auto intro!: interval_upd)

text \<open>A child attached where it fits keeps the layout of its parent.\<close>

lemma region_attach_layout:
  assumes par: "regions s par = Some pr" "objs s par = Some p" "region_layout s par"
    and split: "map (interval s) (children p) = us @ ws"
    and fit: "layout (unat (vr_base pr)) (unat (vr_base pr) + unat (vr_length pr)) (us @ (unat base, unat len) # ws)" "0 < unat len"
    and a: "heap s = a # hs" "a \<noteq> NULL" "a \<notin> dom (regions s)"
  shows "\<exists>s'. region_attach par base len flags s = Ret (a, s') \<and> region_layout s' par \<and>
    regions s' = (regions s)(a \<mapsto> \<lparr>vr_base = base, vr_length = len, vr_flags = flags, can_destroy = True,
           destroyed = False, containing_address_space = containing_address_space pr, vr_vm_object = NULL\<rparr>) \<and>
    (\<exists>p'. objs s' par = Some p' \<and> set (children p') = insert a (set (children p)) \<and> references p' = references p + 1)"
proof -
  obtain as bs where cs: "children p = as @ bs" "us = map (interval s) as" "ws = map (interval s) bs"
    using split by (auto simp: map_eq_append_conv)
  have lay: "par \<notin> set (as @ bs)" "set (as @ bs) \<subseteq> dom (regions s)" "unat (vr_base pr) + unat (vr_length pr) \<le> 2 ^ 64"
    using par cs(1) by (auto simp: region_layout_def)
  let ?r = "\<lparr>vr_base = base, vr_length = len, vr_flags = flags, can_destroy = True,
           destroyed = False, containing_address_space = containing_address_space pr, vr_vm_object = NULL\<rparr>"
  obtain s' where s': "region_attach par base len flags s = Ret (a, s')"
      "objs s' par = Some (p\<lparr>references := references p + 1, children := as @ a # bs\<rparr>)"
      "regions s' = (regions s)(a \<mapsto> ?r)"
    by (rule region_attach_at [OF par(1,2) cs(1) fit(1) [unfolded cs(2,3)] fit(2) lay(2) a, of flags]) blast
  have "a \<notin> set as" "a \<notin> set bs" "a \<noteq> par"
    using a(3) lay(2) par(1) by auto
  moreover from this have "map (interval s') (as @ a # bs) = us @ (unat base, unat len) # ws"
    using map_interval_upd [OF _ s'(3)] s'(3) cs by (simp add: interval_def)
  ultimately have "region_layout s' par"
    using s'(2,3) par(1) lay fit(1) by (auto simp: region_layout_def)
  then show ?thesis
    using s' cs(1) by auto
qed

text \<open>C7: \<^verbatim>\<open>v_addr_region_create\<close> places the new region first-fit: at the lowest gap of its parent that
  holds the rounded length, inside the parent and apart from every sibling, keeping the children
  sorted and disjoint; it fails with \<open>IR_ERROR_NO_MEMORY\<close> only when every placement inside the
  parent meets a sibling.\<close>

theorem v_addr_region_create_correct:
  assumes par: "regions s par = Some pr" "objs s par = Some p" "region_layout s par" "\<not> destroyed pr"
    and a: "heap s = a # hs" "a \<noteq> NULL" "a \<notin> dom (regions s)"
    and n: "n = unat (ROUND_UP_PAGE len)" "0 < n"
    and b: "b = unat (vr_base pr)" "e = b + unat (vr_length pr)" "ivs = map (interval s) (children p)"
  shows "(\<exists>q s'. v_addr_region_create par len flags s = Ret (IR_OK, a, of_nat q, s') \<and>
      first_fit n b e ivs = Some q \<and> b \<le> q \<and> q + n \<le> e \<and> (\<forall>(x, l) \<in> set ivs. x + l \<le> q \<or> q + n \<le> x) \<and>
      region_layout s' par \<and> interval s' a = (q, n) \<and>
      (\<exists>p'. objs s' par = Some p' \<and> set (children p') = insert a (set (children p)))) \<or>
    (v_addr_region_create par len flags s = Ret (IR_ERROR_NO_MEMORY, NULL, 0, s) \<and> first_fit n b e ivs = None \<and>
      (\<forall>q. b \<le> q \<longrightarrow> q + n \<le> e \<longrightarrow> (\<exists>(x, l) \<in> set ivs. q < x + l \<and> x < q + n)))"
proof -
  have lay: "layout b e ivs" "set (children p) \<subseteq> dom (regions s)" "e \<le> 2 ^ 64"
    using par b by (auto simp: region_layout_def)
  obtain found q where gap: "region_find_gap s (ROUND_UP_PAGE len) (vr_base pr) (children p) = Ret (found, of_nat q)"
      "b \<le> q" "q \<le> e" "first_fit n b e ivs = (if found \<or> n \<le> e - q then Some q else None)"
    using region_find_gap_first_fit [of b e s "children p" "ROUND_UP_PAGE len"] lay b n by auto
  have "e - q < 2 ^ 64"
    using gap(2) b unat_u64_less [of "vr_length pr"] by linarith
  moreover have "vr_base pr + vr_length pr = of_nat e"
    by (simp add: b)
  ultimately have room: "vr_base pr + vr_length pr - of_nat q < ROUND_UP_PAGE len \<longleftrightarrow> e - q < n"
    using word_diff_of_nat [OF gap(3)] n(1) by (simp add: word_less_nat_alt)
  show ?thesis
  proof (cases "found \<or> n \<le> e - q")
    case True
    then obtain us ws where fit: "ivs = us @ ws" "layout b e (us @ (q, n) # ws)"
      using first_fit_sound [OF lay(1) n(2), of q] gap(4) by auto
    then have qn: "q + n \<le> e" and pos: "layout b q us" "layout (q + n) e ws"
      using layout_bounds [OF fit(2), of q n] by (auto simp: layout_append)
    then have uq: "unat (of_nat q :: u64) = q"
      using lay(3) n(2) by (intro unat_of_nat_u64) linarith
    obtain s' where s': "region_attach par (of_nat q) (ROUND_UP_PAGE len) flags s = Ret (a, s')" "region_layout s' par"
        "regions s' = (regions s)(a \<mapsto> \<lparr>vr_base = of_nat q, vr_length = ROUND_UP_PAGE len, vr_flags = flags, can_destroy = True,
           destroyed = False, containing_address_space = containing_address_space pr, vr_vm_object = NULL\<rparr>)"
        "\<exists>p'. objs s' par = Some p' \<and> set (children p') = insert a (set (children p))"
      using region_attach_layout [OF par(1-3) _ _ _ a, of us ws "of_nat q" "ROUND_UP_PAGE len" flags] fit b n uq by metis
    have "v_addr_region_create par len flags s = Ret (IR_OK, a, of_nat q, s')"
      using par gap(1) s'(1) room True by (auto simp: v_addr_region_create_def)
    moreover have "\<forall>(x, l) \<in> set ivs. x + l \<le> q \<or> q + n \<le> x"
      using layout_bounds [OF pos(1)] layout_bounds [OF pos(2)] fit(1) by auto
    moreover have "interval s' a = (q, n)"
      using s'(3) n(1) uq by (simp add: interval_def)
    ultimately show ?thesis
      using gap qn s'(2,4) True by auto
  next
    case False
    then have "v_addr_region_create par len flags s = Ret (IR_ERROR_NO_MEMORY, NULL, 0, s)"
      using par gap(1) room by (simp add: v_addr_region_create_def)
    then show ?thesis
      using False gap(4) first_fit_complete [OF lay(1) n(2)] by simp
  qed
qed

definition demo_parent_region :: v_addr_region where
  "demo_parent_region = \<lparr>vr_base = 0x1000, vr_length = 0xF000, vr_flags = 0, can_destroy = False, destroyed = False,
     containing_address_space = NULL, vr_vm_object = NULL\<rparr>"

definition demo_parent_object :: object where
  "demo_parent_object = \<lparr>ob_type = OBJECT_TYPE_V_ADDR_REGION, references = 1, ob_parent = NULL, children = [0x200],
     signals = 0, signal_listeners = [], ob_lock = False\<rparr>"

definition demo_regions :: kernel where
  "demo_regions = blank_kernel\<lparr>heap := [0x9000],
     objs := [0x100 \<mapsto> demo_parent_object, 0x200 \<mapsto> (new_object OBJECT_TYPE_V_ADDR_REGION 0x100)\<lparr>references := 1\<rparr>],
     regions := [0x100 \<mapsto> demo_parent_region,
                 0x200 \<mapsto> \<lparr>vr_base = 0x2000, vr_length = 0x1000, vr_flags = 0, can_destroy = True, destroyed = False,
                   containing_address_space = NULL, vr_vm_object = NULL\<rparr>]\<rparr>"

lemma demo_regions_sel:
  "regions demo_regions 0x100 = Some demo_parent_region" "objs demo_regions 0x100 = Some demo_parent_object"
  "heap demo_regions = 0x9000 # []" "0x9000 \<notin> dom (regions demo_regions)"
  "map (interval demo_regions) (children demo_parent_object) = [(0x2000, 0x1000)]"
  by (simp_all add: demo_regions_def demo_parent_object_def interval_def)

lemma demo_region_layout: "region_layout demo_regions 0x100"
  by (simp add: region_layout_def demo_regions_def demo_parent_region_def demo_parent_object_def interval_def)

theorem v_addr_region_create_correct_witness:
  "\<exists>s'. v_addr_region_create 0x100 0x1001 3 demo_regions = Ret (IR_OK, 0x9000, 0x3000, s') \<and>
     region_layout s' 0x100 \<and> interval s' 0x9000 = (0x3000, 0x2000)"
proof -
  have n: "0x2000 = unat (ROUND_UP_PAGE 0x1001)"
    by code_simp
  have root: "\<not> destroyed demo_parent_region" "unat (vr_base demo_parent_region) = 0x1000" "unat (vr_length demo_parent_region) = 0xF000"
    by (simp_all add: demo_parent_region_def)
  show ?thesis
    using v_addr_region_create_correct [OF demo_regions_sel(1,2) demo_region_layout root(1) demo_regions_sel(3) _
        demo_regions_sel(4) n _ refl refl refl, of 3]
    unfolding root demo_regions_sel(5) by auto
qed

section \<open>Creation at a given address\<close>

lemma layout_mono: "layout b e ivs \<Longrightarrow> b' \<le> b \<Longrightarrow> e \<le> e' \<Longrightarrow> layout b' e' ivs"
  by (induction b e ivs arbitrary: b' rule: layout.induct) auto

lemma layout_insert:
  assumes "layout b e ivs" "0 < n" "\<And>x l. (x, l) \<in> set ivs \<Longrightarrow> x + l \<le> q \<or> q + n \<le> x"
  shows "\<exists>as bs. ivs = as @ bs \<and> layout (min b q) (max e (q + n)) (as @ (q, n) # bs)"
  using assms
proof (induction b e ivs rule: layout.induct)
  case (1 b e)
  then show ?case
    by (intro exI [of _ "[]"]) auto
next
  case (2 b e x l ivs)
  show ?case
  proof (cases "x + l \<le> q")
    case True
    obtain as bs where "ivs = as @ bs" "layout (min (x + l) q) (max e (q + n)) (as @ (q, n) # bs)"
      using 2 by auto
    then show ?thesis
      using 2(2) True by (intro exI [of _ "(x, l) # as"] exI [of _ bs]) (simp add: min_def)
  next
    case False
    then have "q + n \<le> x"
      using 2(4) by auto
    then show ?thesis
      using 2(2) layout_mono [of "x + l" e ivs "x + l" "max e (q + n)"]
      by (intro exI [of _ "[]"] exI [of _ "(x, l) # ivs"]) auto
  qed
qed

lemma region_overlaps_iff:
  assumes "set cs \<subseteq> dom (regions s)" "\<And>x l. (x, l) \<in> set (map (interval s) cs) \<Longrightarrow> x + l < 2 ^ 64"
  shows "region_overlaps s start fin cs =
    Ret (\<exists>(x, l) \<in> set (map (interval s) cs). unat start < x + l \<and> x < unat fin)"
  using assms
proof (induction cs)
  case Nil
  then show ?case by simp
next
  case (Cons c cs)
  obtain r where r: "regions s c = Some r"
    using Cons.prems(1) by auto
  then have iv: "interval s c = (unat (vr_base r), unat (vr_length r))"
    by (simp add: interval_def)
  have "unat (vr_base r) + unat (vr_length r) < 2 ^ 64"
    using Cons.prems(2) [of "unat (vr_base r)" "unat (vr_length r)"] by (simp add: iv)
  then have "unat (vr_base r + vr_length r) = unat (vr_base r) + unat (vr_length r)"
    by (simp add: unat_word_ariths)
  then have head: "region_overlaps s start fin (c # cs) =
      (if unat start < unat (vr_base r) + unat (vr_length r) \<and> unat (vr_base r) < unat fin then Ret True
       else region_overlaps s start fin cs)"
    using r by (simp add: word_less_nat_alt)
  have tail: "region_overlaps s start fin cs =
      Ret (\<exists>(x, l) \<in> set (map (interval s) cs). unat start < x + l \<and> x < unat fin)"
    using Cons by simp
  show ?case
    unfolding head tail by (simp add: iv) blast
qed

text \<open>The page-aligned bounds of a range that does not reach the end of the address space.\<close>

lemma outward_bounds:
  assumes "unat address + unat len + 4095 < 2 ^ 64"
    and q: "q = unat address div 4096 * 4096"
    and n: "n = (unat address + unat len + 4095) div 4096 * 4096 - q"
  shows "unat (ROUND_DOWN_PAGE address) = q"
    and "unat (ROUND_UP_PAGE (ROUND_UP_PAGE (address + len) - ROUND_DOWN_PAGE address)) = n"
    and "q + n < 2 ^ 64" and "0 < unat len \<Longrightarrow> 0 < n"
proof -
  let ?top = "(unat address + unat len + 4095) div 4096 * 4096"
  have le: "?top \<le> unat address + unat len + 4095"
    by (rule div_times_less_eq_dividend)
  have qe: "q \<le> ?top"
    unfolding q by (intro mult_le_mono1 div_le_mono) simp
  show down: "unat (ROUND_DOWN_PAGE address) = q"
    unfolding q by (rule unat_ROUND_DOWN_PAGE)
  have "unat (address + len) = unat address + unat len"
    using assms(1) by (simp add: unat_word_ariths)
  then have up: "unat (ROUND_UP_PAGE (address + len)) = ?top"
    using le assms(1) by (simp add: unat_ROUND_UP_PAGE)
  have diff: "unat (ROUND_UP_PAGE (address + len) - ROUND_DOWN_PAGE address) = n"
    using qe up down n by (simp add: unat_sub word_le_nat_alt)
  have "4096 dvd n"
    unfolding n q by (intro dvd_diff_nat) simp_all
  then obtain k where k: "n = 4096 * k" ..
  have "(n + 4095) div 4096 * 4096 = n"
    unfolding k by simp
  moreover have "n < 2 ^ 64"
    using unat_u64_less diff by metis
  ultimately show "unat (ROUND_UP_PAGE (ROUND_UP_PAGE (address + len) - ROUND_DOWN_PAGE address)) = n"
    unfolding unat_ROUND_UP_PAGE [of "ROUND_UP_PAGE (address + len) - ROUND_DOWN_PAGE address"] diff by simp
  show "q + n < 2 ^ 64"
    using n qe le assms(1) by linarith
  show "0 < n" if "0 < unat len"
  proof -
    have "unat address + unat len \<le> ?top"
      using div_mult_mod_eq [of "unat address + unat len + 4095" 4096]
        mod_less_divisor [of 4096 "unat address + unat len + 4095"] by linarith
    moreover have "q \<le> unat address"
      unfolding q by (rule div_times_less_eq_dividend)
    ultimately show ?thesis
      using that n by linarith
  qed
qed

text \<open>C31: \<^verbatim>\<open>v_addr_region_create_specific\<close> rounds the range outwards to pages and refuses it exactly when
  it meets a sibling. Otherwise the region is created where it was asked for, wherever that is: the
  children stay sorted and disjoint when the range lies inside the parent, but the parent's bounds
  are never checked.\<close>

theorem v_addr_region_create_specific_correct:
  assumes par: "regions s par = Some pr" "objs s par = Some p" "region_layout s par" "\<not> destroyed pr"
    and a: "heap s = a # hs" "a \<noteq> NULL" "a \<notin> dom (regions s)"
    and ivs: "ivs = map (interval s) (children p)" "\<And>x l. (x, l) \<in> set ivs \<Longrightarrow> x + l < 2 ^ 64"
    and len: "unat address + unat len + 4095 < 2 ^ 64" "0 < unat len"
    and q: "q = unat address div 4096 * 4096" "n = (unat address + unat len + 4095) div 4096 * 4096 - q"
  shows "if \<exists>(x, l) \<in> set ivs. q < x + l \<and> x < q + n
    then v_addr_region_create_specific par address len flags s = Ret (IR_ERROR_NO_MEMORY, NULL, 0, s)
    else \<exists>s'. v_addr_region_create_specific par address len flags s = Ret (IR_OK, a, of_nat q, s') \<and>
           interval s' a = (q, n) \<and> (\<exists>p'. objs s' par = Some p' \<and> a \<in> set (children p')) \<and>
           (unat (vr_base pr) \<le> q \<longrightarrow> q + n \<le> unat (vr_base pr) + unat (vr_length pr) \<longrightarrow> region_layout s' par)"
proof -
  let ?len = "ROUND_UP_PAGE (ROUND_UP_PAGE (address + len) - ROUND_DOWN_PAGE address)"
  let ?b = "unat (vr_base pr)" and ?e = "unat (vr_base pr) + unat (vr_length pr)"
  note out = outward_bounds [OF len(1) q]
  have lay: "layout ?b ?e ivs" "set (children p) \<subseteq> dom (regions s)"
    using par ivs by (auto simp: region_layout_def)
  have base: "ROUND_DOWN_PAGE address = of_nat q"
    using out(1) by (metis word_unat_eq_iff unat_of_nat_u64 unat_u64_less)
  have fin: "unat (of_nat q + ?len) = q + n"
    using out(1,2,3) base by (simp add: unat_word_ariths)
  have ov: "region_overlaps s (of_nat q) (of_nat q + ?len) (children p) =
      Ret (\<exists>(x, l) \<in> set ivs. q < x + l \<and> x < q + n)"
    using region_overlaps_iff [OF lay(2), of "of_nat q" "of_nat q + ?len"] ivs fin out(1) base by simp
  show ?thesis
  proof (cases "\<exists>(x, l) \<in> set ivs. q < x + l \<and> x < q + n")
    case True
    then show ?thesis
      using par ov by (simp add: v_addr_region_create_specific_def base Let_def)
  next
    case False
    then have free: "\<And>x l. (x, l) \<in> set ivs \<Longrightarrow> x + l \<le> q \<or> q + n \<le> x"
      by force
    obtain us ws where uw: "ivs = us @ ws" "layout (min ?b q) (max ?e (q + n)) (us @ (q, n) # ws)"
      using layout_insert [OF lay(1) out(4) [OF len(2)] free] by blast
    obtain as bs where cs: "children p = as @ bs" "us = map (interval s) as" "ws = map (interval s) bs"
      using map_eq_append_conv [of "interval s" "children p" us ws] ivs(1) uw(1) by metis
    have fit: "layout (min ?b q) (max ?e (q + n))
        (map (interval s) as @ (unat (of_nat q :: u64), unat ?len) # map (interval s) bs)" "0 < unat ?len"
      using uw(2) cs out base len(2) by simp_all
    obtain s' where s': "region_attach par (of_nat q) ?len flags s = Ret (a, s')"
      "objs s' par = Some (p\<lparr>references := references p + 1, children := as @ a # bs\<rparr>)"
      "regions s' = (regions s)(a \<mapsto> \<lparr>vr_base = of_nat q, vr_length = ?len, vr_flags = flags, can_destroy = True,
           destroyed = False, containing_address_space = containing_address_space pr, vr_vm_object = NULL\<rparr>)"
      by (rule region_attach_at [OF par(1,2) cs(1) fit lay(2) [unfolded cs(1)] a, of flags]) blast
    have "region_layout s' par" if "?b \<le> q" "q + n \<le> ?e"
      using region_attach_layout [OF par(1-3) _ _ fit(2) a, of us ws "of_nat q" flags] uw ivs(1) that s'(1) out(1,2) base
      by (auto simp: min_def max_def split: if_splits)
    moreover have "interval s' a = (q, n)"
      using s'(3) out base by (simp add: interval_def)
    moreover have "v_addr_region_create_specific par address len flags s = Ret (IR_OK, a, of_nat q, s')"
      using par ov False s'(1) by (simp add: v_addr_region_create_specific_def base Let_def)
    ultimately show ?thesis
      using s'(2) False by auto
  qed
qed

text \<open>The parent ends at \<open>0x10000\<close>.\<close>

theorem v_addr_region_create_specific_correct_witness:
  "\<exists>s'. v_addr_region_create_specific 0x100 0x20800 0x10 3 demo_regions = Ret (IR_OK, 0x9000, 0x20000, s') \<and>
     interval s' 0x9000 = (0x20000, 0x1000) \<and> (\<exists>p'. objs s' 0x100 = Some p' \<and> 0x9000 \<in> set (children p'))"
proof -
  have bound: "x + l < 2 ^ 64" if "(x, l) \<in> set [(0x2000, 0x1000)]" for x l :: nat
    using that by simp
  have len: "unat (0x20800 :: u64) + unat (0x10 :: u64) + 4095 < 2 ^ 64" "0 < unat (0x10 :: u64)"
    and q: "(0x20000 :: nat) = unat (0x20800 :: u64) div 4096 * 4096"
      "(0x1000 :: nat) = (unat (0x20800 :: u64) + unat (0x10 :: u64) + 4095) div 4096 * 4096 - 0x20000"
    by simp_all
  show ?thesis
    using v_addr_region_create_specific_correct [OF demo_regions_sel(1,2) demo_region_layout _ demo_regions_sel(3) _
        demo_regions_sel(4) demo_regions_sel(5) [symmetric] bound len q, of 3]
    by (simp add: demo_parent_region_def)
qed

section \<open>Mapping a memory object\<close>

text \<open>Mapping writes to no byte of memory: the state of objects and page tables is apart from it.\<close>

lemma malloc_memory: "malloc s = (a, t) \<Longrightarrow> memory t = memory s"
  by (auto simp: malloc_def split: list.splits)

lemma upd_memory:
  "memory s = m \<Longrightarrow> post (upd_obj p f s) (\<lambda>t. memory t = m)" "memory s = m \<Longrightarrow> post (upd_region p g s) (\<lambda>t. memory t = m)"
  by (auto simp: post_def upd_obj_def upd_region_def outcome_simps)

lemma region_attach_memory: "memory s = m \<Longrightarrow> post (region_attach par base len flags s) (\<lambda>(r, t). memory t = m)"
  unfolding region_attach_def
  by (intro post_let post_if post_prod post_fail post_obind [OF upd_memory(1)] post_any [of _ _ "load st p" for st p]
      post_any [of _ _ "list_add_sorted c d xs" for c d xs] post_Ret) (auto dest: malloc_memory)

lemma create_memory: "memory s = m \<Longrightarrow> post (v_addr_region_create par len flags s) (\<lambda>(st, r, a, t). memory t = m)"
  unfolding v_addr_region_create_def
  by (intro post_let post_if post_prod post_fail post_any [of _ _ "load st p" for st p] post_Ret
      post_any [of _ _ "region_find_gap t l p cs" for t l p cs] post_obind [OF region_attach_memory]) auto

lemma link_memory: "memory s = m \<Longrightarrow> post (region_link_vm par vm region s) (\<lambda>t. memory t = m)"
  unfolding region_link_vm_def by (intro post_obind [OF upd_memory(1)] upd_memory(2))

lemma map_pages_memory:
  "memory s = m \<Longrightarrow> post (region_map_pages d par flags vm region a s) (\<lambda>(st, r, a, t). st = IR_OK \<longrightarrow> memory t = m)"
  unfolding region_map_pages_def
  by (intro post_let post_if post_prod post_fail post_any [of _ _ "load st p" for st p] post_Ret post_any [of _ _ "looped x" for x]
      post_any [of _ _ "arch_mmu_map a b c d e" for a b c d e] post_any [of _ _ "arch_mmu_unmap a b c d" for a b c d]
      post_any [of _ _ "object_decrement_references d x s" for d x s] post_any [of _ _ "upd_obj p f s" for p f s])
    (auto dest: malloc_memory)

lemma map_vm_object_memory:
  assumes "v_addr_region_map_vm_object d par flags vm ad s = Ret (IR_OK, r, a, t)" "flags AND V_ADDR_REGION_MAP_SPECIFIC = 0"
  shows "memory t = memory s"
proof -
  have "post (v_addr_region_map_vm_object d par flags vm ad s) (\<lambda>(st, r, a, t). st = IR_OK \<longrightarrow> memory t = memory s)"
    unfolding v_addr_region_map_vm_object_def assms(2)
    by (simp only: simp_thms if_False, intro post_if post_prod post_any [of _ _ "load st p" for st p] post_Ret
        post_obind [OF create_memory [OF refl]]) (auto intro!: post_obind [OF link_memory] map_pages_memory)
  then show ?thesis
    using assms(1) by (simp add: post_def)
qed

lemma list_add_sorted_set: "list_add_sorted cmp d xs = Ret ys \<Longrightarrow> set ys = insert d (set xs)"
  by (induction xs arbitrary: ys) (auto simp: outcome_simps split: if_splits)

lemma region_attach_SomeD:
  assumes "region_attach par base len flags s = Ret (region, s')" "objs s par = Some p"
    and a: "heap s = a # hs" "a \<noteq> NULL" "a \<notin> dom (objs s)"
  shows "region = a \<and> a \<noteq> par \<and> (\<exists>cs. set cs = insert a (set (children p)) \<and>
      objs s' = (objs s)(a \<mapsto> new_object OBJECT_TYPE_V_ADDR_REGION par,
        par \<mapsto> p\<lparr>references := references p + 1, children := cs\<rparr>)) \<and>
    (\<exists>pr. regions s par = Some pr \<and> regions s' = (regions s)(a \<mapsto> \<lparr>vr_base = base, vr_length = len, vr_flags = flags,
      can_destroy = True, destroyed = False, containing_address_space = containing_address_space pr, vr_vm_object = NULL\<rparr>)) \<and>
    vms s' = vms s"
proof -
  have "a \<noteq> par"
    using assms(2) a(3) by auto
  then show ?thesis
    using assms(1,2) a(1,2) unfolding region_attach_def malloc_def Let_def
    by (auto simp: outcome_simps fun_upd_twist) (rule exI, rule conjI, erule list_add_sorted_set, rule refl)
qed

lemma region_create_attach:
  assumes "v_addr_region_create par len flags s = Ret (IR_OK, region, ad, s')"
  shows "\<exists>l. region_attach par ad l flags s = Ret (region, s')"
  using assms by (auto simp: v_addr_region_create_def outcome_simps Let_def split: if_splits prod.splits)

lemma region_create_specific_attach:
  assumes "v_addr_region_create_specific par address len flags s = Ret (IR_OK, region, ad, s')"
  shows "\<exists>l. region_attach par ad l flags s = Ret (region, s')"
  using assms by (auto simp: v_addr_region_create_specific_def outcome_simps Let_def split: if_splits prod.splits)

lemma malloc_sel [simp]:
  "objs (snd (malloc s)) = objs s" "regions (snd (malloc s)) = regions s" "spaces (snd (malloc s)) = spaces s"
  by (simp_all add: malloc_def split: list.splits)

lemma region_map_pages_frame:
  assumes "region_map_pages depth par flags vm region address s = Ret (IR_OK, region', ad, s1)"
  shows "region' = region \<and> ad = address \<and> objs s1 = objs s \<and> regions s1 = regions s \<and> spaces s1 = spaces s"
  using assms unfolding region_map_pages_def Let_def
  by (auto simp: outcome_simps case_prod_unfold split: if_splits)

lemma region_map_attach:
  assumes "v_addr_region_map_vm_object depth par flags vm address s = Ret (IR_OK, region, ad, s1)"
  shows "\<exists>f l s' s2. region_attach par ad l f s = Ret (region, s') \<and> region_link_vm par vm region s' = Ret s2 \<and>
    objs s1 = objs s2 \<and> regions s1 = regions s2 \<and> spaces s1 = spaces s2"
  using assms unfolding v_addr_region_map_vm_object_def
  by (auto simp: outcome_simps split: if_splits prod.splits dest!: region_map_pages_frame)
    (metis region_create_specific_attach region_create_attach)+

lemma region_map_objs:
  assumes map: "v_addr_region_map_vm_object depth par flags vm address s = Ret (IR_OK, region, ad, s1)"
    and obs: "objs s par = Some p" "objs s vm = Some v" "par \<noteq> vm"
    and a: "heap s = a # hs" "a \<noteq> NULL" "a \<notin> dom (objs s)"
  obtains cs r where "region = a" "a \<noteq> par" "a \<noteq> vm" "set cs = insert a (set (children p))"
    "objs s1 = (objs s)(a \<mapsto> new_object OBJECT_TYPE_V_ADDR_REGION par, vm \<mapsto> v\<lparr>references := references v + 1\<rparr>,
       par \<mapsto> p\<lparr>children := cs, references := 2 + references p\<rparr>)"
    "regions s1 = (regions s)(a \<mapsto> r)" "vr_base r = ad" "vr_vm_object r = vm" "\<not> destroyed r"
proof -
  obtain f l s' s2 where at: "region_attach par ad l f s = Ret (region, s')" "region_link_vm par vm region s' = Ret s2"
      "objs s1 = objs s2" "regions s1 = regions s2"
    using region_map_attach [OF map] by blast
  note new = region_attach_SomeD [OF at(1) obs(1) a]
  have r: "region = a" "a \<noteq> par" "a \<noteq> vm"
    using new obs(2) a(3) by auto
  then show thesis
    using new at(2-4) obs that by (auto simp: region_link_vm_def outcome_simps fun_upd_twist)
qed

text \<open>Mapping a memory object counts its region twice in the references of the parent region, and
  destroying the region takes back only one of them: after both, the parent has one reference too
  many and is never freed. The references of the memory object are balanced.\<close>

theorem region_map_destroy_leaks_parent:
  assumes map: "v_addr_region_map_vm_object depth par flags vm address s = Ret (IR_OK, region, ad, s1)"
    and obs: "objs s par = Some p" "objs s vm = Some v" "par \<noteq> vm" "par \<noteq> NULL" "vm \<noteq> NULL"
      "set (children p) \<subseteq> dom (regions s)"
    and refs: "ob_type p \<noteq> 0" "ob_type v \<noteq> 0" "references p + 1 \<noteq> 0" "references v \<noteq> 0"
    and a: "heap s = a # hs" "a \<noteq> NULL" "a \<notin> dom (objs s)"
    and unmap: "regions s1 region = Some r" "space_at (containing_address_space r) s1 = Ret space"
      "arch_mmu_unmap space (vr_base r) (vr_length r) (kernel_mmu s1) = Ret (status, m)"
  shows "\<exists>s2 p'. v_addr_region_destroy (Suc (Suc n)) region s1 = Ret s2 \<and> objs s2 par = Some p' \<and>
    references p' = references p + 1 \<and> objs s2 vm = Some v"
proof -
  obtain cs r' where r': "region = a" "a \<noteq> par" "a \<noteq> vm" "set cs = insert a (set (children p))"
    "objs s1 = (objs s)(a \<mapsto> new_object OBJECT_TYPE_V_ADDR_REGION par, vm \<mapsto> v\<lparr>references := references v + 1\<rparr>,
       par \<mapsto> p\<lparr>children := cs, references := 2 + references p\<rparr>)"
    "regions s1 = (regions s)(a \<mapsto> r')" "vr_vm_object r' = vm"
    by (rule region_map_objs [OF map obs(1-3) a]) blast
  have r: "r' = r"
    using r'(1,6) unmap(1) by simp
  have "\<exists>c. compare_bases s1 d a = Ret c" if d: "d \<in> set cs" for d
  proof -
    obtain rd where "regions s1 d = Some rd"
      using d r'(4,6) obs(6) by (cases "d = a") auto
    then show ?thesis
      using compare_bases_unat [of s1 d rd a r'] r'(6) by auto
  qed
  then obtain c where "\<And>d. d \<in> set cs \<Longrightarrow> compare_bases s1 d a = Ret (c d)"
    by metis
  then obtain x ds where find: "list_find_and_remove (\<lambda>d. compare_bases s1 d a) cs = Ret (x, ds)"
    using list_find_and_remove_pure [of cs "\<lambda>d. compare_bases s1 d a" c]
    by (cases "index_of (\<lambda>x. c x = 0) cs") auto
  have "2 + references p = 1 + (references p + 1)"
    by simp
  then have "2 + references p \<noteq> 1"
    using refs(3) by (metis add_cancel_left_right)
  moreover have "space_at (containing_address_space r) s' = Ret space" if "spaces s' = spaces s1" for s'
    using unmap(2) that by (simp add: space_at_def split: if_splits)
  ultimately show ?thesis
    using r' r unmap(3) find obs refs
    by (simp add: v_addr_region_destroy_def region_destroy_body_def decrement_body_def destroy_children_body_def Let_def
        new_object_def add.commute)
qed

definition demo_map_state :: kernel where
  "demo_map_state = demo_regions\<lparr>
     objs := (objs demo_regions)(0x300 \<mapsto> (new_object OBJECT_TYPE_VM_OBJECT NULL)\<lparr>references := 1\<rparr>),
     vms := [0x300 \<mapsto> \<lparr>page_list = NULL, page_count = 0, vm_size = 0, access_flags = 0\<rparr>],
     regions := (regions demo_regions)(0x100 \<mapsto> demo_parent_region\<lparr>containing_address_space := 0x400\<rparr>),
     spaces := [0x400 \<mapsto> \<lparr>table_base = 0, as_lock = False\<rparr>]\<rparr>"

theorem region_map_destroy_leaks_parent_witness:
  "\<exists>s1 s2 p'. v_addr_region_map_vm_object 1 0x100 0 0x300 0 demo_map_state = Ret (IR_OK, 0x9000, 0x1000, s1) \<and>
     v_addr_region_destroy 2 0x9000 s1 = Ret s2 \<and> objs s2 0x100 = Some p' \<and> references p' = 2"
proof -
  let ?m = "v_addr_region_map_vm_object 1 0x100 0 0x300 0 demo_map_state"
  have "case ?m of Ret (status, region, ad, s1) \<Rightarrow> status = IR_OK \<and> region = 0x9000 \<and> ad = 0x1000 \<and>
      (case regions s1 0x9000 of Some r \<Rightarrow> containing_address_space r = 0x400 \<and> vr_length r = 0 | None \<Rightarrow> False) \<and>
      spaces s1 0x400 = Some \<lparr>table_base = 0, as_lock = False\<rparr> | _ \<Rightarrow> False"
    by code_simp
  then obtain s1 r where s1: "?m = Ret (IR_OK, 0x9000, 0x1000, s1)" "regions s1 0x9000 = Some r"
      "containing_address_space r = 0x400" "vr_length r = 0" "spaces s1 0x400 = Some \<lparr>table_base = 0, as_lock = False\<rparr>"
    by (auto split: outcome.splits option.splits)
  have space: "space_at (containing_address_space r) s1 = Ret (Some \<lparr>table_base = 0, as_lock = False\<rparr>)"
    using s1 by (simp add: space_at_def)
  have unmap: "arch_mmu_unmap (Some \<lparr>table_base = 0, as_lock = False\<rparr>) (vr_base r) (vr_length r) (kernel_mmu s1) =
      Ret (IR_OK, kernel_mmu s1)"
    using s1(4) by (simp add: arch_mmu_unmap_def int_of_u64_def)
  have obs: "objs demo_map_state 0x100 = Some demo_parent_object"
      "objs demo_map_state 0x300 = Some ((new_object OBJECT_TYPE_VM_OBJECT NULL)\<lparr>references := 1\<rparr>)"
      "set (children demo_parent_object) \<subseteq> dom (regions demo_map_state)" "heap demo_map_state = 0x9000 # []"
      "0x9000 \<notin> dom (objs demo_map_state)"
    by (simp_all add: demo_map_state_def demo_regions_def demo_parent_object_def)
  have "\<exists>s2 p'. v_addr_region_destroy (Suc (Suc 0)) 0x9000 s1 = Ret s2 \<and> objs s2 0x100 = Some p' \<and>
      references p' = references demo_parent_object + 1 \<and>
      objs s2 0x300 = Some ((new_object OBJECT_TYPE_VM_OBJECT NULL)\<lparr>references := 1\<rparr>)"
    by (rule region_map_destroy_leaks_parent [OF s1(1) obs(1,2) _ _ _ obs(3) _ _ _ _ obs(4) _ obs(5) s1(2) space unmap])
      (simp_all add: demo_parent_object_def new_object_def)
  then show ?thesis
    using s1(1) by (auto simp: demo_parent_object_def numeral_2_eq_2)
qed

end
