(* ===== verification/Channel.thy ===== *)
theory Channel
  imports Handle_Table
begin

text \<open>
  Channels (\<^verbatim>\<open>kernel/channel.c\<close>): creation of a pair, queueing a message, and the system calls. Cleanup
  is in the theory of object lifetimes. A message is the list of handle pointers and the list of
  bytes its data block holds.
\<close>

section \<open>Operations\<close>

definition new_channel :: "ptr \<Rightarrow> ptr \<Rightarrow> kernel \<Rightarrow> kernel" where
  "new_channel a peer_ptr s = s\<lparr>objs := (objs s)(a \<mapsto> new_object OBJECT_TYPE_CHANNEL NULL),
     chans := (chans s)(a \<mapsto> \<lparr>peer = peer_ptr, message_queue = []\<rparr>)\<rparr>"

definition channel_create :: "kernel \<Rightarrow> ir_status \<times> ptr \<times> ptr \<times> kernel" where
  "channel_create s =
     (let (channel, s) = malloc s;
          (peer_ptr, s) = malloc s in
      if channel = NULL \<or> peer_ptr = NULL then (IR_ERROR_NO_MEMORY, NULL, NULL, s)
      else (IR_OK, channel, peer_ptr, new_channel peer_ptr channel (new_channel channel peer_ptr s)))"

text \<open>
  The size passed to \<^verbatim>\<open>calloc\<close> is computed modulo \<open>2 ^ 64\<close>; when it wraps, the copies run past the
  block.
\<close>

definition channel_write :: "ptr \<Rightarrow> ptr \<Rightarrow> u64 \<Rightarrow> ptr list \<Rightarrow> kernel \<Rightarrow> kernel outcome" where
  "channel_write destination message message_length hs s =
     (let (item, s) = malloc s in
      if item = NULL then Fault
      else if 16 + 8 * length hs + unat message_length \<ge> 2 ^ 64 then Fault
      else upd_chan destination (\<lambda>c. c\<lparr>message_queue := message_queue c @ [item]\<rparr>)
             (s\<lparr>msgs := (msgs s)(item \<mapsto>
                 \<lparr>msg_handles = hs, msg_bytes = read_bytes message (unat message_length) (memory s)\<rparr>)\<rparr>))"

section \<open>System calls\<close>

definition sys_channel_create :: "ptr \<Rightarrow> ptr \<Rightarrow> kernel \<Rightarrow> (ir_status \<times> kernel) outcome" where
  "sys_channel_create channel_out peer_out s =
     (if \<not> arch_validate_user_pointer channel_out \<or> \<not> arch_validate_user_pointer peer_out
      then Ret (IR_ERROR_INVALID_ARGUMENTS, s) else
      let (status, channel, peer_ptr, s) = channel_create s in
      if status \<noteq> IR_OK then Ret (status, s) else
      obind (current_process s) (\<lambda>process.
      obind (handle_create process channel IR_RIGHT_ALL s) (\<lambda>(_, channel_handle, s).
      obind (handle_create process peer_ptr IR_RIGHT_ALL s) (\<lambda>(_, peer_handle, s).
      obind (add_to_handle_table process channel_handle s) (\<lambda>s.
      obind (add_to_handle_table process peer_handle s) (\<lambda>s.
      obind (load (handles s) channel_handle) (\<lambda>ch.
      obind (load (handles s) peer_handle) (\<lambda>ph.
      Ret (IR_OK, put_word peer_out (handle_id ph) (put_word channel_out (handle_id ch) s))))))))))"

text \<open>Giving the handles of a message to the process that reads it.\<close>

fun receive_handles :: "ptr \<Rightarrow> ptr \<Rightarrow> ptr list \<Rightarrow> kernel \<Rightarrow> kernel outcome" where
  "receive_handles process buffer [] s = Ret s"
| "receive_handles process buffer (h # hs) s =
     obind (handle_get_next_id process s) (\<lambda>(i, s).
     obind (upd_handle h (\<lambda>x. x\<lparr>handle_id := i\<rparr>) s) (\<lambda>s.
     obind (add_to_handle_table process h s) (\<lambda>s.
     receive_handles process (buffer + 8) hs (put_word buffer i s))))"

text \<open>The message is taken off the queue but not freed.\<close>

definition sys_channel_read ::
  "u64 \<Rightarrow> ptr \<Rightarrow> u64 \<Rightarrow> ptr \<Rightarrow> ptr \<Rightarrow> kernel \<Rightarrow> (ir_status \<times> kernel) outcome" where
  "sys_channel_read channel buffer buffer_length handles_count_out message_length_out s =
     (if \<not> arch_validate_user_pointer buffer \<or> \<not> arch_validate_user_pointer handles_count_out \<or>
         \<not> arch_validate_user_pointer message_length_out
      then Ret (IR_ERROR_INVALID_ARGUMENTS, s) else
      obind (current_process s) (\<lambda>process.
      obind (lock_handle_table process s) (\<lambda>s.
      obind (find_handle process channel s) (\<lambda>found.
      case found of
        None \<Rightarrow> obind (unlock_handle_table process s) (\<lambda>s. Ret (IR_ERROR_BAD_HANDLE, s))
      | Some h \<Rightarrow>
          obind (load (handles s) h) (\<lambda>hh.
          let chan = h_object hh in
          obind (load (objs s) chan) (\<lambda>x.
          if ob_type x \<noteq> OBJECT_TYPE_CHANNEL
          then obind (unlock_handle_table process s) (\<lambda>s. Ret (IR_ERROR_WRONG_TYPE, s)) else
          obind (lock_obj chan s) (\<lambda>s.
          obind (unlock_handle_table process s) (\<lambda>s.
          obind (load (chans s) chan) (\<lambda>c.
          case message_queue c of
            [] \<Rightarrow> obind (unlock_obj chan s) (\<lambda>s. obind (unlock_handle_table process s) (\<lambda>s.
                    Ret (IR_ERROR_NOT_FOUND, s)))
          | message # rest \<Rightarrow>
              obind (load (msgs s) message) (\<lambda>m.
              let message_length = of_nat (length (msg_bytes m));
                  handle_count = of_nat (length (msg_handles m)) in
              if message_length + handle_count * 8 > buffer_length
              then obind (unlock_obj chan s) (\<lambda>s. obind (unlock_handle_table process s) (\<lambda>s.
                     Ret (IR_ERROR_BUFFER_TOO_SMALL, s)))
              else
                obind (upd_chan chan (\<lambda>c. c\<lparr>message_queue := rest\<rparr>) s) (\<lambda>s.
                let s = s\<lparr>memory := write_bytes (buffer + 8 * handle_count) (msg_bytes m) (memory s)\<rparr> in
                obind (receive_handles process buffer (msg_handles m) s) (\<lambda>s.
                let s = put_word message_length_out message_length (put_word handles_count_out handle_count s) in
                obind (unlock_obj chan s) (\<lambda>s.
                Ret (IR_OK, s))))))))))))))"

text \<open>Looking up the handles to be transferred: an error status, or the pointers stored in the array.\<close>

fun transfer_lookup :: "ptr \<Rightarrow> ptr \<Rightarrow> u64 list \<Rightarrow> kernel \<Rightarrow> (ir_status + ptr list) outcome" where
  "transfer_lookup process handle_pointers [] s = Ret (Inr [])"
| "transfer_lookup process handle_pointers (i # ids) s =
     obind (find_handle process i s) (\<lambda>found.
     case found of
       None \<Rightarrow> Ret (Inl IR_ERROR_NOT_FOUND)
     | Some h \<Rightarrow>
         if handle_pointers = NULL then Fault else
         obind (load (handles s) h) (\<lambda>hh.
         if NOT (rights hh) AND IR_RIGHT_TRANSFER \<noteq> 0 then Ret (Inl IR_ERROR_ACCESS_DENIED)
         else obind (transfer_lookup process handle_pointers ids s) (\<lambda>r. Ret (map_sum id ((#) h) r))))"

fun transfer_remove :: "ptr \<Rightarrow> ptr list \<Rightarrow> kernel \<Rightarrow> kernel outcome" where
  "transfer_remove process [] s = Ret s"
| "transfer_remove process (h # hs) s =
     obind (load (handles s) h) (\<lambda>hh.
     obind (upd_proc process (\<lambda>p. p\<lparr>handle_table := remove_ptr h (handle_table p),
              free_handle_ids := free_handle_ids p @ [handle_id hh]\<rparr>) s) (\<lambda>s.
     transfer_remove process hs s))"

text \<open>
  The counters are 32 bits wide: with a count of \<open>2 ^ 32\<close> or more the first loop ends only in an error.
\<close>

definition sys_channel_write ::
  "u64 \<Rightarrow> ptr \<Rightarrow> u64 \<Rightarrow> ptr \<Rightarrow> u64 \<Rightarrow> kernel \<Rightarrow> (ir_status \<times> kernel) outcome" where
  "sys_channel_write channel message message_length handles_ptr handles_count s =
     (if \<not> arch_validate_user_pointer message \<or> \<not> arch_validate_user_pointer handles_ptr
      then Ret (IR_ERROR_INVALID_ARGUMENTS, s) else
      obind (current_process s) (\<lambda>process.
      obind (lock_handle_table process s) (\<lambda>s.
      obind (find_handle process channel s) (\<lambda>found.
      case found of
        None \<Rightarrow> obind (unlock_handle_table process s) (\<lambda>s. Ret (IR_ERROR_BAD_HANDLE, s))
      | Some h \<Rightarrow>
          obind (load (handles s) h) (\<lambda>hh.
          let chan = h_object hh in
          obind (load (objs s) chan) (\<lambda>x.
          if ob_type x \<noteq> OBJECT_TYPE_CHANNEL
          then obind (unlock_handle_table process s) (\<lambda>s. Ret (IR_ERROR_WRONG_TYPE, s)) else
          obind (lock_obj chan s) (\<lambda>s.
          let (handle_pointers, s) = malloc s in
          obind (transfer_lookup process handle_pointers
                   (map (\<lambda>i. read_word (handles_ptr + 8 * of_nat i) (memory s)) [0..<min (unat handles_count) (2 ^ 32)]) s)
            (\<lambda>r. case r of
               Inl status \<Rightarrow> obind (unlock_obj chan s) (\<lambda>s. obind (unlock_handle_table process s) (\<lambda>s. Ret (status, s)))
             | Inr hs \<Rightarrow>
                 if unat handles_count \<ge> 2 ^ 32 then Hang else
                 obind (transfer_remove process hs s) (\<lambda>s.
                 obind (channel_write chan message message_length hs s) (\<lambda>s.
                 obind (unlock_obj chan s) (\<lambda>s.
                 obind (unlock_handle_table process s) (\<lambda>s.
                 Ret (IR_OK, s)))))))))))))"

section \<open>Memory\<close>

lemma unat_dec: "x \<noteq> a \<Longrightarrow> unat ((x :: u64) - (a + 1)) = unat (x - a) - 1"
proof -
  assume "x \<noteq> a"
  then have "x - a \<noteq> 0"
    by simp
  then have "unat (x - a - 1) = unat (x - a) - 1"
    by (rule unat_minus_one)
  then show ?thesis
    by (simp add: algebra_simps)
qed

lemma write_bytes_apply:
  "length bs \<le> 2 ^ 64 \<Longrightarrow>
     write_bytes a bs m x = (if unat (x - a) < length bs then bs ! unat (x - a) else m x)"
proof (induction bs arbitrary: a m)
  case Nil
  then show ?case by simp
next
  case (Cons b bs)
  show ?case
  proof (cases "x = a")
    case True
    have "unat (a - (a + 1)) = 2 ^ 64 - 1"
      by (simp add: unsigned_minus_1_eq_mask mask_eq_exp_minus_1)
    then show ?thesis
      using Cons True by simp
  next
    case False
    then have "0 < unat (x - a)"
      by (simp add: unat_gt_0)
    then show ?thesis
      using Cons False by (auto simp: unat_dec nth_Cons')
  qed
qed

lemma read_write_bytes: "length bs \<le> 2 ^ 64 \<Longrightarrow> read_bytes a (length bs) (write_bytes a bs m) = bs"
  by (rule nth_equalityI) (simp_all add: read_bytes_def write_bytes_apply unat_of_nat_u64)

lemma read_bytes_cong:
  "(\<And>i. i < n \<Longrightarrow> m (a + of_nat i) = m' (a + of_nat i)) \<Longrightarrow> read_bytes a n m = read_bytes a n m'"
  by (simp add: read_bytes_def)

lemma write_word_outside:
  assumes "unat x < unat a \<or> unat a + 8 \<le> unat x" "unat a + 8 \<le> 2 ^ 64"
  shows "write_word a w m x = m x"
proof -
  have "8 \<le> unat (x - a)"
  proof (cases "unat x < unat a")
    case True
    then have "unat (x - a) = 2 ^ 64 + unat x - unat a"
      using assms(2) by (simp add: unat_sub_if')
    then show ?thesis
      using assms(2) by linarith
  next
    case False
    then show ?thesis
      using assms by (simp add: unat_sub word_le_nat_alt)
  qed
  then show ?thesis
    by (simp add: write_word_def)
qed

lemma read_bytes_write_word:
  assumes "unat a + n \<le> unat b" "unat b + 8 \<le> 2 ^ 64"
  shows "read_bytes a n (write_word b w m) = read_bytes a n m"
proof (rule read_bytes_cong)
  fix i assume i: "i < n"
  then have "unat (of_nat i :: u64) = i"
    using assms by (intro unat_of_nat_u64) linarith
  then have "unat (a + of_nat i) = unat a + i"
    using i assms by (simp add: unat_word_ariths)
  then show "write_word b w m (a + of_nat i) = m (a + of_nat i)"
    using i assms by (intro write_word_outside) simp_all
qed

lemma read_word_cong:
  "(\<And>i. i < 8 \<Longrightarrow> m (a + of_nat i) = m' (a + of_nat i)) \<Longrightarrow> read_word a m = read_word a m'"
  unfolding read_word_def by (intro foldr_cong) simp_all

lemma read_write_word_other:
  assumes "unat a + 8 \<le> unat b" "unat b + 8 \<le> 2 ^ 64"
  shows "read_word a (write_word b w m) = read_word a m"
proof (rule read_word_cong)
  fix i :: nat assume i: "i < 8"
  then have "unat (of_nat i :: u64) = i"
    by (intro unat_of_nat_u64) simp
  then have "unat (a + of_nat i) = unat a + i"
    using i assms by (simp add: unat_word_ariths)
  then show "write_word b w m (a + of_nat i) = m (a + of_nat i)"
    using i assms by (intro write_word_outside) simp_all
qed

section \<open>Writing and reading without handles\<close>

lemma unlocked_object: "\<not> ob_lock x \<Longrightarrow> x\<lparr>ob_lock := False\<rparr> = x"
  by (cases x) simp

text \<open>A message without handles is appended to the queue of the channel it is written to.\<close>

lemma sys_channel_write_bytes:
  assumes cur: "current_process s = Ret process" and ok: "handles_ok s process n" and p: "procs s process = Some p"
    and lock: "\<not> handle_table_lock p"
    and h: "h \<in> set (handle_table p)" "handles s h = Some hh"
    and x: "objs s (h_object hh) = Some x" "ob_type x = OBJECT_TYPE_CHANNEL" "\<not> ob_lock x"
    and c: "chans s (h_object hh) = Some c"
    and args: "arch_validate_user_pointer message" "arch_validate_user_pointer handles_ptr" "unat len < 2 ^ 63"
    and heap: "heap s = b # item # hs" "item \<noteq> NULL"
  shows "sys_channel_write (handle_id hh) message len handles_ptr 0 s =
    Ret (IR_OK, s\<lparr>heap := hs, msgs := (msgs s)(item \<mapsto> \<lparr>msg_handles = [], msg_bytes = read_bytes message (unat len) (memory s)\<rparr>),
      chans := (chans s)(h_object hh \<mapsto> c\<lparr>message_queue := message_queue c @ [item]\<rparr>)\<rparr>)"
proof -
  note table = locked_table [OF ok p lock]
  have "id_of s h = handle_id hh"
    using h(2) by (simp add: id_of_def)
  then show ?thesis
    using cur table(1) table(4) [OF h(1)] h x c args heap p
    by (simp add: sys_channel_write_def channel_write_def malloc_def unlocked_process [OF lock] unlocked_object [OF x(3)]
        fun_upd_idem)
qed

text \<open>Reading the first message of a queue when it has no handles and fits the buffer.\<close>

lemma sys_channel_read_bytes:
  assumes cur: "current_process s = Ret process" and ok: "handles_ok s process n" and p: "procs s process = Some p"
    and lock: "\<not> handle_table_lock p"
    and h: "h \<in> set (handle_table p)" "handles s h = Some hh"
    and x: "objs s (h_object hh) = Some x" "ob_type x = OBJECT_TYPE_CHANNEL" "\<not> ob_lock x"
    and c: "chans s (h_object hh) = Some c" "message_queue c = item # rest"
      "msgs s item = Some \<lparr>msg_handles = [], msg_bytes = bs\<rparr>"
    and args: "arch_validate_user_pointer buffer" "arch_validate_user_pointer hc" "arch_validate_user_pointer ml"
      "of_nat (length bs) \<le> buffer_length"
  shows "sys_channel_read (handle_id hh) buffer buffer_length hc ml s =
    Ret (IR_OK, s\<lparr>chans := (chans s)(h_object hh \<mapsto> c\<lparr>message_queue := rest\<rparr>),
      memory := write_word ml (of_nat (length bs)) (write_word hc 0 (write_bytes buffer bs (memory s)))\<rparr>)"
proof -
  note table = locked_table [OF ok p lock]
  have "id_of s h = handle_id hh"
    using h(2) by (simp add: id_of_def)
  then show ?thesis
    using cur table(1) table(4) [OF h(1)] h x c args p
    by (simp add: sys_channel_read_def unlocked_process [OF lock] unlocked_object [OF x(3)] fun_upd_idem put_word_def
        Let_def not_less)
qed

section \<open>Properties\<close>

text \<open>C15: A message is delivered to the wrong end. The header says that data is sent to the other end of a channel, but a
  message without handles, written to an end whose queue is empty, is queued at that end itself and changes no other channel, the
  peer included: the writer's own next read takes it back, with its bytes unchanged, their number and a count of no handles in the
  two output words, and all queues as they were before.\<close>

theorem channel_write_returns_to_sender:
  assumes cur: "current_process s = Ret process" and ok: "handles_ok s process n" and p: "procs s process = Some p"
    and lock: "\<not> handle_table_lock p"
    and h: "h \<in> set (handle_table p)" "handles s h = Some hh"
    and x: "objs s (h_object hh) = Some x" "ob_type x = OBJECT_TYPE_CHANNEL" "\<not> ob_lock x"
    and c: "chans s (h_object hh) = Some c" "message_queue c = []"
    and args: "arch_validate_user_pointer message" "arch_validate_user_pointer handles_ptr" "unat len < 2 ^ 63"
    and heap: "heap s = b # item # hs" "item \<noteq> NULL"
    and out: "arch_validate_user_pointer buffer" "arch_validate_user_pointer hc" "arch_validate_user_pointer ml"
      "len \<le> buffer_length" "unat buffer + unat len \<le> unat hc" "unat hc + 8 \<le> unat ml"
  shows "\<exists>s1 s2. sys_channel_write (handle_id hh) message len handles_ptr 0 s = Ret (IR_OK, s1) \<and>
    chans s1 = (chans s)(h_object hh \<mapsto> c\<lparr>message_queue := [item]\<rparr>) \<and>
    sys_channel_read (handle_id hh) buffer buffer_length hc ml s1 = Ret (IR_OK, s2) \<and>
    read_bytes buffer (unat len) (memory s2) = read_bytes message (unat len) (memory s) \<and>
    read_word hc (memory s2) = 0 \<and> read_word ml (memory s2) = len \<and>
    chans s2 = chans s \<and> objs s2 = objs s \<and> procs s2 = procs s"
proof -
  let ?bs = "read_bytes message (unat len) (memory s)"
  define s1 where "s1 = s\<lparr>heap := hs, msgs := (msgs s)(item \<mapsto> \<lparr>msg_handles = [], msg_bytes = ?bs\<rparr>),
      chans := (chans s)(h_object hh \<mapsto> c\<lparr>message_queue := [item]\<rparr>)\<rparr>"
  have w: "sys_channel_write (handle_id hh) message len handles_ptr 0 s = Ret (IR_OK, s1)"
    using sys_channel_write_bytes [OF cur ok p lock h x c(1) args heap] c(2) by (simp add: s1_def)
  have len: "length ?bs = unat len"
    by (simp add: read_bytes_def)
  have cur1: "current_process s1 = Ret process"
    using cur by (simp add: s1_def current_process_def)
  have ok1: "handles_ok s1 process n"
    by (rule handles_ok_cong [OF ok p]) (use p in \<open>simp_all add: s1_def\<close>)
  have p1: "procs s1 process = Some p" "handles s1 h = Some hh" "objs s1 (h_object hh) = Some x"
      "chans s1 (h_object hh) = Some (c\<lparr>message_queue := [item]\<rparr>)" "msgs s1 item = Some \<lparr>msg_handles = [], msg_bytes = ?bs\<rparr>"
    using p h(2) x(1) by (simp_all add: s1_def)
  let ?m = "write_word ml len (write_word hc 0 (write_bytes buffer ?bs (memory s)))"
  have r: "sys_channel_read (handle_id hh) buffer buffer_length hc ml s1 =
      Ret (IR_OK, s1\<lparr>chans := (chans s1)(h_object hh \<mapsto> c\<lparr>message_queue := []\<rparr>), memory := ?m\<rparr>)"
    using sys_channel_read_bytes [OF cur1 ok1 p1(1) lock h(1) p1(2,3) x(2,3) p1(4) _ p1(5) out(1-3), of "[]" buffer_length]
      out(4) len by (simp add: s1_def)
  have ml: "unat ml + 8 \<le> 2 ^ 64" "unat hc + 8 \<le> 2 ^ 64"
    using out(3,6) by (simp_all add: arch_validate_user_pointer_def USER_MEMORY_LENGTH_def word_le_nat_alt)
  have "read_bytes buffer (unat len) ?m = ?bs"
    using read_write_bytes [of ?bs buffer] len out(5,6) ml args(3) by (simp add: read_bytes_write_word)
  moreover have "read_word hc ?m = 0"
    using read_write_word_other [OF out(6) ml(1)] by (simp add: read_write_word)
  moreover have "c\<lparr>message_queue := []\<rparr> = c"
    using c(2) by (cases c) simp
  ultimately show ?thesis
    using w r c(1) by (simp add: read_write_word) (simp add: s1_def fun_upd_idem)
qed

text \<open>Writing to one end of a channel does not reach the other end: whatever its peer's queue held is
  still all it holds, and when that was nothing a read from the peer finds no message.\<close>

theorem channel_write_not_delivered:
  assumes cur: "current_process s = Ret process" and ok: "handles_ok s process n" and p: "procs s process = Some p"
    and lock: "\<not> handle_table_lock p"
    and h: "h \<in> set (handle_table p)" "handles s h = Some hh"
    and x: "objs s (h_object hh) = Some x" "ob_type x = OBJECT_TYPE_CHANNEL" "\<not> ob_lock x"
    and c: "chans s (h_object hh) = Some c" "peer c \<noteq> h_object hh" "chans s (peer c) = Some d" "message_queue d = []"
    and g: "g \<in> set (handle_table p)" "handles s g = Some gg" "h_object gg = peer c"
    and y: "objs s (peer c) = Some y" "ob_type y = OBJECT_TYPE_CHANNEL" "\<not> ob_lock y"
    and args: "arch_validate_user_pointer message" "arch_validate_user_pointer handles_ptr" "unat len < 2 ^ 63"
    and heap: "heap s = b # item # hs" "item \<noteq> NULL"
    and out: "arch_validate_user_pointer buffer" "arch_validate_user_pointer hc" "arch_validate_user_pointer ml"
  shows "\<exists>s1. sys_channel_write (handle_id hh) message len handles_ptr 0 s = Ret (IR_OK, s1) \<and>
    chans s1 (peer c) = Some d \<and>
    sys_channel_read (handle_id gg) buffer buffer_length hc ml s1 = Ret (IR_ERROR_NOT_FOUND, s1)"
proof -
  define s1 where "s1 = s\<lparr>heap := hs, msgs := (msgs s)(item \<mapsto> \<lparr>msg_handles = [], msg_bytes = read_bytes message (unat len) (memory s)\<rparr>),
      chans := (chans s)(h_object hh \<mapsto> c\<lparr>message_queue := message_queue c @ [item]\<rparr>)\<rparr>"
  have w: "sys_channel_write (handle_id hh) message len handles_ptr 0 s = Ret (IR_OK, s1)"
    using sys_channel_write_bytes [OF cur ok p lock h x c(1) args heap] by (simp add: s1_def)
  have cur1: "current_process s1 = Ret process"
    using cur by (simp add: s1_def current_process_def)
  have p1: "procs s1 process = Some p"
    using p by (simp add: s1_def)
  have ok1: "handles_ok s1 process n"
    by (rule handles_ok_cong [OF ok p p1]) (simp_all add: s1_def)
  note table = locked_table [OF ok1 p1 lock]
  have "id_of s1 g = handle_id gg"
    using g(2) by (simp add: id_of_def s1_def)
  then have "sys_channel_read (handle_id gg) buffer buffer_length hc ml s1 = Ret (IR_ERROR_NOT_FOUND, s1)"
    using cur1 table(1) table(4) [OF g(1)] g y c out p
    by (simp add: sys_channel_read_def Let_def unlocked_process [OF lock] unlocked_object [OF y(3)] fun_upd_idem s1_def)
  then show ?thesis
    using w c(2,3) by (auto simp: s1_def)
qed

section \<open>Two connected channels\<close>

definition demo_end :: object where
  "demo_end = \<lparr>ob_type = OBJECT_TYPE_CHANNEL, references = 1, ob_parent = NULL, children = [], signals = 0,
     signal_listeners = [], ob_lock = False\<rparr>"

definition demo_handle :: "u64 \<Rightarrow> ptr \<Rightarrow> handle" where
  "demo_handle i obj = \<lparr>handle_id = i, rights = IR_RIGHT_ALL, h_object = obj\<rparr>"

definition demo_channel :: "ptr \<Rightarrow> channel" where
  "demo_channel other = \<lparr>peer = other, message_queue = []\<rparr>"

definition demo_channels :: kernel where
  "demo_channels = blank_kernel\<lparr>
     objs := [0x10 \<mapsto> new_object OBJECT_TYPE_THREAD 0x20, 0x20 \<mapsto> new_object OBJECT_TYPE_PROCESS NULL,
              0x30 \<mapsto> demo_end, 0x40 \<mapsto> demo_end],
     procs := [0x20 \<mapsto> demo_process], handles := [0x100 \<mapsto> demo_handle 1 0x30, 0x110 \<mapsto> demo_handle 2 0x40],
     chans := [0x30 \<mapsto> demo_channel 0x40, 0x40 \<mapsto> demo_channel 0x30],
     memory := (\<lambda>_. 0)(0x5000 := 72, 0x5001 := 105),
     current_thread := 0x10, heap := [0x200, 0x210]\<rparr>"

lemma demo_sel [simp]:
  "ob_type demo_end = OBJECT_TYPE_CHANNEL" "references demo_end = 1" "signal_listeners demo_end = []" "\<not> ob_lock demo_end"
  "handle_id (demo_handle i obj) = i" "h_object (demo_handle i obj) = obj"
  "peer (demo_channel other) = other" "message_queue (demo_channel other) = []"
  by (simp_all add: demo_end_def demo_handle_def demo_channel_def)

lemma demo_channels_ok: "handles_ok demo_channels 0x20 (Suc 0)"
  unfolding handles_ok_def
  by (intro exI [of _ demo_process]) (auto simp: demo_channels_def demo_process_def ids_ok_def id_of_def inj_on_def)

lemma demo_channels_sel:
  "current_process demo_channels = Ret 0x20" "procs demo_channels 0x20 = Some demo_process" "\<not> handle_table_lock demo_process"
  "0x100 \<in> set (handle_table demo_process)" "handles demo_channels 0x100 = Some (demo_handle 1 0x30)"
  "0x110 \<in> set (handle_table demo_process)" "handles demo_channels 0x110 = Some (demo_handle 2 0x40)"
  "heap demo_channels = 0x200 # 0x210 # []" "objs demo_channels 0x30 = Some demo_end" "objs demo_channels 0x40 = Some demo_end"
  "chans demo_channels 0x30 = Some (demo_channel 0x40)" "chans demo_channels 0x40 = Some (demo_channel 0x30)"
  by (simp_all add: demo_channels_def demo_process_def current_process_def new_object_def)

lemma demo_user_pointers:
  "arch_validate_user_pointer 0x5000" "arch_validate_user_pointer 0x6000" "arch_validate_user_pointer 0x7000"
  "arch_validate_user_pointer 0x8000"
  by (simp_all add: arch_validate_user_pointer_def)

theorem channel_write_returns_to_sender_witness:
  "\<exists>s1 s2. sys_channel_write 1 0x5000 2 0x6000 0 demo_channels = Ret (IR_OK, s1) \<and>
     chans s1 0x40 = Some (demo_channel 0x30) \<and> message_queue (demo_channel 0x30) = [] \<and> peer (demo_channel 0x40) = 0x40 \<and>
     sys_channel_read 1 0x6000 16 0x7000 0x8000 s1 = Ret (IR_OK, s2) \<and>
     read_bytes 0x6000 2 (memory s2) = [72, 105] \<and> read_word 0x8000 (memory s2) = 2"
proof -
  have bytes: "read_bytes 0x5000 2 (memory demo_channels) = [72, 105]"
    by (simp add: read_bytes_def demo_channels_def upt_conv_Cons)
  show ?thesis
    using channel_write_returns_to_sender [of demo_channels "0x20" "Suc 0" demo_process "0x100" "demo_handle 1 0x30" demo_end
        "demo_channel 0x40" "0x5000" "0x6000" 2 "0x200" "0x210" "[]" "0x6000" "0x7000" "0x8000" 16]
    by (auto simp: demo_channels_sel demo_channels_ok demo_user_pointers bytes)
qed

theorem channel_write_not_delivered_witness:
  "\<exists>s1. sys_channel_write 1 0x5000 2 0x6000 0 demo_channels = Ret (IR_OK, s1) \<and>
     sys_channel_read 2 0x6000 16 0x7000 0x8000 s1 = Ret (IR_ERROR_NOT_FOUND, s1)"
  using channel_write_not_delivered [of demo_channels "0x20" "Suc 0" demo_process "0x100" "demo_handle 1 0x30" demo_end
      "demo_channel 0x40" "demo_channel 0x30" "0x110" "demo_handle 2 0x40" demo_end "0x5000" "0x6000" 2 "0x200" "0x210" "[]"
      "0x6000" "0x7000" "0x8000" 16]
  by (auto simp: demo_channels_sel demo_channels_ok demo_user_pointers)

section \<open>Closing one end\<close>

lemma and_or_nonzero: "a AND b \<noteq> 0 \<Longrightarrow> a AND (c OR b) \<noteq> (0 :: u64)"
proof -
  have "(c OR b) AND b = b"
    by (rule bit_eqI) (auto simp: bit_and_iff bit_or_iff)
  then have "a AND b = (a AND (c OR b)) AND b"
    by (simp add: and.assoc)
  then show "a AND b \<noteq> 0 \<Longrightarrow> a AND (c OR b) \<noteq> 0"
    by auto
qed

text \<open>C32: Closing the last handle to one end of a channel while a thread waits for the other end to report
  the disconnection never returns: the cleanup holds the lock of the peer while it raises the signal,
  and waking the thread takes the same lock.\<close>

theorem channel_cleanup_deadlock:
  assumes chan: "objs s chan = Some x" "ob_type x = OBJECT_TYPE_CHANNEL" "references x = 1" "chans s chan = Some c"
    and peer: "peer c \<noteq> NULL" "peer c \<noteq> chan" "objs s (peer c) = Some y" "signal_listeners y = l # ls"
    and l: "listeners s l = Some r" "sl_target r = peer c" "target_signals r AND CHANNEL_SIGNAL_PEER_DISCONNECTED \<noteq> 0"
  shows "object_decrement_references depth chan s = Hang"
proof (cases "ob_lock x \<or> depth = 0")
  case True
  then show ?thesis
    using chan by (cases depth) (auto simp: object_decrement_references_def decrement_body_def)
next
  case False
  then obtain d where d: "depth = Suc d" and free: "\<not> ob_lock x"
    by (cases depth) auto
  define t where "t = s\<lparr>objs := (objs s)(chan \<mapsto> x\<lparr>references := 0, ob_lock := True\<rparr>)\<rparr>"
  have dec: "object_decrement_references depth chan s = release d (Channel_cleanup chan) t"
    using chan free by (simp add: object_decrement_references_def decrement_body_def d t_def)
  show ?thesis
  proof (cases "ob_lock y \<or> d = 0")
    case True
    then show ?thesis
      using dec chan peer by (cases d) (auto simp: channel_cleanup_body_def t_def)
  next
    case False
    then obtain e where e: "d = Suc e" and yfree: "\<not> ob_lock y"
      by (cases d) auto
    define sig where "sig = signals y OR CHANNEL_SIGNAL_PEER_DISCONNECTED"
    have "target_signals r AND sig \<noteq> 0"
      unfolding sig_def using l(3) by (rule and_or_nonzero)
    then have "object_set_signals (peer c) sig (t\<lparr>objs := (objs t)(peer c \<mapsto> y\<lparr>ob_lock := True\<rparr>)\<rparr>) = Hang"
      using peer l by (intro set_signals_locked [of _ _ "y\<lparr>ob_lock := True\<rparr>" l ls r]) (simp_all add: t_def)
    then show ?thesis
      using dec chan peer yfree by (simp add: e channel_cleanup_body_def t_def sig_def)
  qed
qed

definition demo_waiting :: kernel where
  "demo_waiting = demo_channels\<lparr>objs := (objs demo_channels)(0x40 \<mapsto> demo_end\<lparr>signal_listeners := [0x300]\<rparr>),
     listeners := [0x300 \<mapsto> \<lparr>sl_target = 0x40, sl_thread = 0x10, target_signals = CHANNEL_SIGNAL_PEER_DISCONNECTED,
       observed_signals = 0, deadline = 0\<rparr>]\<rparr>"

theorem channel_cleanup_deadlock_witness: "object_decrement_references 10 0x30 demo_waiting = Hang"
  by (rule channel_cleanup_deadlock [of _ _ demo_end "demo_channel 0x40" "demo_end\<lparr>signal_listeners := [0x300]\<rparr>" "0x300" "[]"
        "\<lparr>sl_target = 0x40, sl_thread = 0x10, target_signals = CHANNEL_SIGNAL_PEER_DISCONNECTED, observed_signals = 0, deadline = 0\<rparr>"])
    (simp_all add: demo_waiting_def demo_channels_sel CHANNEL_SIGNAL_PEER_DISCONNECTED_def)

end
