(* ===== verification/Process.thy ===== *)
theory Process
  imports V_Addr_Region Channel Address_Space
begin

text \<open>
  Processes and threads (\<^verbatim>\<open>kernel/process.c\<close>): creation, starting, termination, tasks, and their system
  calls. \<open>kernel_pml4\<close> is the address of the kernel's top page table, \<open>kernel_space\<close> that of
  \<^verbatim>\<open>kernel_address_space\<close>, \<open>idle_entry\<close> that of \<^verbatim>\<open>idle_task\<close>. A failed call that leaves an output variable
  uninitialised, where the caller goes on to use it, is a \<^term>\<open>Fault\<close>.
\<close>

section \<open>Contexts\<close>

definition arch_set_instruction_pointer :: "u64 \<Rightarrow> registers \<Rightarrow> registers" where
  "arch_set_instruction_pointer pointer r = r\<lparr>rip := pointer\<rparr>"

definition arch_set_stack_pointer :: "u64 \<Rightarrow> registers \<Rightarrow> registers" where
  "arch_set_stack_pointer pointer r = r\<lparr>rsp := pointer\<rparr>"

definition arch_set_arg_0 :: "u64 \<Rightarrow> registers \<Rightarrow> registers" where
  "arch_set_arg_0 arg0 r = r\<lparr>rdi := arg0\<rparr>"

definition arch_initialize_thread_context :: "registers \<Rightarrow> registers" where
  "arch_initialize_thread_context r = r\<lparr>reg_cs := 0x23, reg_ss := 0x1b, rflags := 0x202\<rparr>"

text \<open>The base of the processor's local data is that of the running context.\<close>

definition arch_initialize_idle_thread_context :: "u64 \<Rightarrow> registers \<Rightarrow> registers" where
  "arch_initialize_idle_thread_context gs r = r\<lparr>reg_cs := 0x8, reg_ss := 0x10, rflags := 0x202, gs_base := gs\<rparr>"

section \<open>The idle thread\<close>

definition new_process :: process where
  "new_process = \<lparr>root_v_addr_region = NULL, pr_state = ACTIVE, pr_exit_code = 0, handle_table = [],
     next_handle_id = 0, free_handle_ids = [], handle_table_lock = False\<rparr>"

definition new_thread :: "u32 \<Rightarrow> thread" where
  "new_thread i = \<lparr>kernel_stack_top = 0, kernel_stack = NULL, th_state = ACTIVE, th_exit_code = 0,
     th_context = blank_registers, sleeping_until = 0, blocking_listener = NULL, in_syscall = False, thread_id = i\<rparr>"

definition create_idle_process :: "ptr \<Rightarrow> kernel \<Rightarrow> kernel outcome" where
  "create_idle_process kernel_space s =
     (let (process, s) = malloc s in
      if process = NULL then Fault else
      obind (load (spaces s) kernel_space) (\<lambda>space.
      Ret (s\<lparr>objs := (objs s)(process \<mapsto> new_object 0 NULL), procs := (procs s)(process \<mapsto> new_process),
             spaces := (spaces s)(process \<mapsto> space), idle_process := process\<rparr>)))"

text \<open>A stack of the kernel: its region and base address.\<close>

definition map_kernel_stack :: "nat \<Rightarrow> kernel \<Rightarrow> (ptr \<times> u64 \<times> kernel) outcome" where
  "map_kernel_stack depth s =
     obind (vm_object_create PER_THREAD_KERNEL_STACK_SIZE (VM_READABLE OR VM_WRITABLE) s) (\<lambda>(status, vm, s).
     if status \<noteq> IR_OK then Fault else
     obind (v_addr_region_map_vm_object depth (kernel_region s) (V_ADDR_REGION_READABLE OR V_ADDR_REGION_WRITABLE) vm 0 s)
       (\<lambda>(status, region, stack_base, s).
     if status \<noteq> IR_OK then Fault else Ret (region, stack_base, s)))"

definition create_idle_thread :: "nat \<Rightarrow> u64 \<Rightarrow> kernel \<Rightarrow> (ptr \<times> kernel) outcome" where
  "create_idle_thread depth idle_entry s =
     (let (thread, s) = malloc s in
      if thread = NULL then Fault else
      obind (upd_obj (idle_process s) (\<lambda>x. x\<lparr>children := children x @ [thread]\<rparr>) s) (\<lambda>s.
      let s = s\<lparr>objs := (objs s)(thread \<mapsto> new_object 0 (idle_process s)),
                threads := (threads s)(thread \<mapsto> new_thread 0)\<rparr> in
      obind (map_kernel_stack depth s) (\<lambda>(region, stack_base, s).
      obind (map_kernel_stack depth s) (\<lambda>(_, user_stack_base, s).
      obind (upd_thread thread (\<lambda>t. t\<lparr>kernel_stack := region,
               kernel_stack_top := stack_base + PER_THREAD_KERNEL_STACK_SIZE - 16,
               th_context := arch_initialize_idle_thread_context (gs_base (cpu_context s))
                 (arch_set_stack_pointer (user_stack_base + PER_THREAD_KERNEL_STACK_SIZE - 16)
                   (arch_set_instruction_pointer idle_entry (th_context t)))\<rparr>) s) (\<lambda>s.
      Ret (thread, s))))))"

section \<open>Creating processes and threads\<close>

definition process_create :: "ptr \<Rightarrow> kernel \<Rightarrow> (ir_status \<times> ptr \<times> ptr \<times> ptr \<times> kernel) outcome" where
  "process_create kernel_pml4 s =
     (let (process, s) = malloc s in
      if process = NULL then Fault else
      let s = s\<lparr>objs := (objs s)(process \<mapsto> new_object OBJECT_TYPE_PROCESS NULL),
                procs := (procs s)(process \<mapsto> new_process)\<rparr> in
      obind (arch_mmu_create_address_space kernel_pml4 (kernel_mmu s)) (\<lambda>(status, space, m).
      let s = s\<lparr>kernel_mmu := m\<rparr> in
      if status \<noteq> IR_OK then Ret (status, NULL, NULL, NULL, free_object process s) else
      let s = s\<lparr>spaces := (spaces s)(process \<mapsto> space)\<rparr>;
          (status, channel, channel_peer, s) = channel_create s in
      if status \<noteq> IR_OK then Ret (status, NULL, NULL, NULL, free_object process s) else
      obind (v_addr_region_create_root process 0 USER_MEMORY_LENGTH s) (\<lambda>(status, root, s).
      if status \<noteq> IR_OK
      then Ret (status, NULL, NULL, NULL, free_object channel_peer (free_object channel (free_object process s))) else
      obind (upd_proc process (\<lambda>p. p\<lparr>root_v_addr_region := root\<rparr>) s) (\<lambda>s.
      obind (handle_create process process IR_RIGHT_ALL s) (\<lambda>(_, process_handle, s).
      obind (handle_create process root IR_RIGHT_ALL s) (\<lambda>(_, v_addr_region_handle, s).
      obind (handle_create process channel_peer IR_RIGHT_ALL s) (\<lambda>(_, channel_handle, s).
      obind (add_to_handle_table process process_handle s) (\<lambda>s.
      obind (add_to_handle_table process v_addr_region_handle s) (\<lambda>s.
      obind (add_to_handle_table process channel_handle s) (\<lambda>s.
      Ret (IR_OK, process, root, channel, s)))))))))))"

definition thread_create :: "nat \<Rightarrow> ptr \<Rightarrow> kernel \<Rightarrow> (ir_status \<times> ptr \<times> kernel) outcome" where
  "thread_create depth parent_process s =
     (let (thread, s) = malloc s in
      if thread = NULL then Ret (IR_ERROR_NO_MEMORY, NULL, s) else
      obind (lock_obj parent_process s) (\<lambda>s.
      obind (upd_obj parent_process (\<lambda>x. x\<lparr>children := children x @ [thread]\<rparr>) s) (\<lambda>s.
      let s = s\<lparr>objs := (objs s)(thread \<mapsto> new_object OBJECT_TYPE_THREAD parent_process),
                threads := (threads s)(thread \<mapsto> (new_thread (next_thread_id s))
                  \<lparr>th_context := arch_initialize_thread_context blank_registers\<rparr>),
                next_thread_id := next_thread_id s + 1\<rparr> in
      obind (vm_object_create PER_THREAD_KERNEL_STACK_SIZE (VM_READABLE OR VM_WRITABLE) s) (\<lambda>(status, vm, s).
      obind (if status = IR_OK then
               obind (v_addr_region_map_vm_object depth (kernel_region s)
                        (V_ADDR_REGION_READABLE OR V_ADDR_REGION_WRITABLE) vm 0 s) (\<lambda>(status, region, stack_base, s).
               if status = IR_OK then Ret (Some (region, stack_base), s)
               else obind (vm_object_cleanup vm s) (\<lambda>s. Ret (None, s)))
             else Ret (None, s)) (\<lambda>(stack, s).
      case stack of
        Some (region, stack_base) \<Rightarrow>
          obind (upd_obj parent_process (\<lambda>x. x\<lparr>references := references x + 1\<rparr>) s) (\<lambda>s.
          obind (unlock_obj parent_process s) (\<lambda>s.
          obind (upd_thread thread (\<lambda>t. t\<lparr>kernel_stack := region,
                   kernel_stack_top := stack_base + PER_THREAD_KERNEL_STACK_SIZE - 16\<rparr>) s) (\<lambda>s.
          Ret (IR_OK, thread, s))))
      | None \<Rightarrow>
          obind (upd_obj parent_process (\<lambda>x. x\<lparr>children := remove_ptr thread (children x)\<rparr>) s) (\<lambda>s.
          obind (unlock_obj parent_process s) (\<lambda>s.
          Ret (IR_ERROR_NO_MEMORY, NULL, free_object thread s))))))))"

definition thread_start :: "ptr \<Rightarrow> u64 \<Rightarrow> u64 \<Rightarrow> u64 \<Rightarrow> kernel \<Rightarrow> (ir_status \<times> kernel) outcome" where
  "thread_start thread entry stack_top arg0 s =
     obind (upd_thread thread (\<lambda>t. t\<lparr>th_context := arch_set_arg_0 arg0 (arch_set_stack_pointer stack_top
              (arch_set_instruction_pointer entry (th_context t)))\<rparr>) s) (\<lambda>s.
     obind (upd_obj thread (\<lambda>x. x\<lparr>references := references x + 1\<rparr>) s) (\<lambda>s.
     obind (schedule_thread thread s) (\<lambda>s.
     Ret (IR_OK, s))))"

text \<open>The lock of the parent is not released when the task was created or when memory ran out.\<close>

definition task_create :: "ptr \<Rightarrow> kernel \<Rightarrow> (ir_status \<times> kernel) outcome" where
  "task_create par s =
     obind (lock_obj par s) (\<lambda>s.
     obind (load (tasks s) par) (\<lambda>state.
     if state \<noteq> ACTIVE then obind (unlock_obj par s) (\<lambda>s. Ret (IR_ERROR_BAD_STATE, s)) else
     obind (upd_obj par (\<lambda>x. x\<lparr>references := references x + 1\<rparr>) s) (\<lambda>s.
     let (new_task, s) = malloc s in
     if new_task = NULL then Ret (IR_ERROR_NO_MEMORY, s) else
     let s = s\<lparr>objs := (objs s)(new_task \<mapsto> new_object OBJECT_TYPE_TASK par), tasks := (tasks s)(new_task \<mapsto> ACTIVE)\<rparr> in
     obind (upd_obj par (\<lambda>x. x\<lparr>children := children x @ [new_task]\<rparr>) s) (\<lambda>s.
     Ret (IR_OK, s)))))"

section \<open>Termination\<close>

text \<open>One round of the loop over the threads of a dying process.\<close>

definition kill_thread :: "ptr \<Rightarrow> kernel \<Rightarrow> kernel outcome" where
  "kill_thread thread s =
     obind (upd_thread thread (\<lambda>t. t\<lparr>th_state := TERMINATING, th_exit_code := - 1\<rparr>) s) (\<lambda>s.
     obind (load (threads s) thread) (\<lambda>t.
     obind (if blocking_listener t \<noteq> NULL then scheduler_unblock_listener (blocking_listener t) s else Ret s) (\<lambda>s.
     upd_thread thread (\<lambda>t. t\<lparr>sleeping_until := 0\<rparr>) s)))"

text \<open>Waking a thread leaves the list of children alone, so the loop visits each child once.\<close>

definition process_kill_locked :: "nat \<Rightarrow> ptr \<Rightarrow> u64 \<Rightarrow> kernel \<Rightarrow> kernel outcome" where
  "process_kill_locked depth process exit_code s =
     obind (load (objs s) process) (\<lambda>x.
     obind (if ob_parent x \<noteq> NULL then
              obind (lock_obj (ob_parent x) s) (\<lambda>s.
              obind (upd_obj (ob_parent x) (\<lambda>y. y\<lparr>children := remove_ptr process (children y)\<rparr>) s) (\<lambda>s.
              obind (object_decrement_references depth (ob_parent x) s) (\<lambda>s.
              unlock_obj (ob_parent x) s)))
            else Ret s) (\<lambda>s.
     obind (upd_proc process (\<lambda>p. p\<lparr>pr_state := TERMINATING, pr_exit_code := exit_code\<rparr>) s) (\<lambda>s.
     obind (load (objs s) process) (\<lambda>x.
     obind (ofold kill_thread (children x) s) (\<lambda>s.
     obind (load (objs s) process) (\<lambda>x.
     object_set_signals process (signals x OR PROCESS_SIGNAL_TERMINATED) s))))))"

partial_function (option) close_all_handles :: "nat \<Rightarrow> ptr \<Rightarrow> kernel \<Rightarrow> kernel outcome option" where
  "close_all_handles depth process s =
     (case procs s process of None \<Rightarrow> Some Fault | Some p \<Rightarrow>
      case handle_table p of
        [] \<Rightarrow> Some (Ret s)
      | h # hs \<Rightarrow>
          (let s = s\<lparr>procs := (procs s)(process \<mapsto> p\<lparr>handle_table := hs\<rparr>)\<rparr> in
           case obind (load (handles s) h) (\<lambda>hh. object_decrement_references depth (h_object hh) s) of
             Ret s \<Rightarrow> close_all_handles depth process (s\<lparr>handles := (handles s)(h := None)\<rparr>)
           | Fault \<Rightarrow> Some Fault | Panic \<Rightarrow> Some Panic | Hang \<Rightarrow> Some Hang))"

declare close_all_handles.simps [code]

definition process_finish_termination :: "nat \<Rightarrow> ptr \<Rightarrow> kernel \<Rightarrow> kernel outcome" where
  "process_finish_termination depth process s =
     obind (looped (close_all_handles depth process s)) (\<lambda>s.
     obind (upd_proc process (\<lambda>p. p\<lparr>free_handle_ids := []\<rparr>) s) (\<lambda>s.
     obind (load (procs s) process) (\<lambda>p.
     v_addr_region_destroy depth (root_v_addr_region p) s)))"

definition thread_finish_termination :: "nat \<Rightarrow> ptr \<Rightarrow> kernel \<Rightarrow> kernel outcome" where
  "thread_finish_termination depth thread s =
     obind (upd_thread thread (\<lambda>t. t\<lparr>th_state := TERMINATED\<rparr>) s) (\<lambda>s.
     obind (load (threads s) thread) (\<lambda>t.
     obind (load (objs s) thread) (\<lambda>x.
     let process = ob_parent x in
     obind (lock_obj process s) (\<lambda>s.
     obind (load (objs s) process) (\<lambda>y.
     obind (if length (children y) = 1 then
              obind (load (procs s) process) (\<lambda>p.
              obind (if pr_state p = ACTIVE then process_kill_locked depth process (th_exit_code t) s else Ret s) (\<lambda>s.
              process_finish_termination depth process s))
            else Ret s) (\<lambda>s.
     obind (upd_obj process (\<lambda>y. y\<lparr>children := remove_ptr thread (children y)\<rparr>) s) (\<lambda>s.
     obind (unlock_obj process s) (\<lambda>s.
     obind (object_decrement_references depth process s) (\<lambda>s.
     obind (v_addr_region_cleanup depth (kernel_stack t) s) (\<lambda>s.
     obind (load (objs s) thread) (\<lambda>x.
     obind (object_set_signals thread (signals x OR PROCESS_SIGNAL_TERMINATED) s) (\<lambda>s.
     object_decrement_references depth thread s))))))))))))"

section \<open>System calls\<close>

text \<open>
  The handle for the new process is made for \<open>process\<close>, the user's pointer, and the third output
  pointer is not validated.
\<close>

definition sys_process_create :: "ptr \<Rightarrow> ptr \<Rightarrow> ptr \<Rightarrow> ptr \<Rightarrow> kernel \<Rightarrow> (ir_status \<times> kernel) outcome" where
  "sys_process_create kernel_pml4 process region_out channel s =
     (if \<not> arch_validate_user_pointer process \<or> \<not> arch_validate_user_pointer region_out
      then Ret (IR_ERROR_INVALID_ARGUMENTS, s) else
      obind (current_process s) (\<lambda>current.
      obind (process_create kernel_pml4 s) (\<lambda>(status, new_process, root_region, startup_channel, s).
      if status \<noteq> IR_OK then Fault else
      obind (handle_create current process IR_RIGHT_ALL s) (\<lambda>(_, process_handle, s).
      obind (handle_create current root_region IR_RIGHT_ALL s) (\<lambda>(_, region_handle, s).
      obind (handle_create current startup_channel IR_RIGHT_ALL s) (\<lambda>(_, channel_handle, s).
      obind (add_to_handle_table current process_handle s) (\<lambda>s.
      obind (add_to_handle_table current region_handle s) (\<lambda>s.
      obind (add_to_handle_table current channel_handle s) (\<lambda>s.
      obind (load (handles s) process_handle) (\<lambda>ph.
      obind (load (handles s) region_handle) (\<lambda>rh.
      obind (load (handles s) channel_handle) (\<lambda>ch.
      Ret (IR_OK, put_word channel (handle_id ch) (put_word region_out (handle_id rh)
             (put_word process (handle_id ph) s)))))))))))))))"

definition sys_thread_create :: "nat \<Rightarrow> u64 \<Rightarrow> ptr \<Rightarrow> kernel \<Rightarrow> (ir_status \<times> kernel) outcome" where
  "sys_thread_create depth parent_process out s =
     obind (current_process s) (\<lambda>process.
     obind (lock_handle_table process s) (\<lambda>s.
     obind (find_handle process parent_process s) (\<lambda>found.
     case found of
       None \<Rightarrow> obind (unlock_handle_table process s) (\<lambda>s. Ret (IR_ERROR_BAD_HANDLE, s))
     | Some h \<Rightarrow>
         obind (load (handles s) h) (\<lambda>hh.
         obind (thread_create depth (h_object hh) s) (\<lambda>(status, thread, s).
         if status \<noteq> IR_OK then Fault else
         obind (handle_create process thread IR_RIGHT_ALL s) (\<lambda>(_, th, s).
         obind (add_to_handle_table process th s) (\<lambda>s.
         obind (unlock_handle_table process s) (\<lambda>s.
         obind (load (handles s) th) (\<lambda>h.
         Ret (IR_OK, put_word out (handle_id h) s))))))))))"

definition sys_thread_start :: "u64 \<Rightarrow> u64 \<Rightarrow> u64 \<Rightarrow> u64 \<Rightarrow> kernel \<Rightarrow> (ir_status \<times> kernel) outcome" where
  "sys_thread_start thread entry stack_top arg0 s =
     (if \<not> arch_validate_user_pointer entry \<or> \<not> arch_validate_user_pointer stack_top
      then Ret (IR_ERROR_INVALID_ARGUMENTS, s) else
      obind (current_process s) (\<lambda>process.
      obind (lock_handle_table process s) (\<lambda>s.
      obind (find_handle process thread s) (\<lambda>found.
      case found of
        None \<Rightarrow> obind (unlock_handle_table process s) (\<lambda>s. Ret (IR_ERROR_BAD_HANDLE, s))
      | Some h \<Rightarrow>
          obind (load (handles s) h) (\<lambda>hh.
          obind (thread_start (h_object hh) entry stack_top arg0 s) (\<lambda>(_, s).
          obind (unlock_handle_table process s) (\<lambda>s.
          Ret (IR_OK, s))))))))"

definition sys_process_exit :: "nat \<Rightarrow> u64 \<Rightarrow> kernel \<Rightarrow> (ir_status \<times> kernel) outcome" where
  "sys_process_exit depth exit_code s =
     obind (current_process s) (\<lambda>this_process.
     obind (load (procs s) this_process) (\<lambda>p.
     if pr_state p \<noteq> ACTIVE then Ret (IR_ERROR_BAD_STATE, s) else
     obind (lock_obj this_process s) (\<lambda>s.
     obind (process_kill_locked depth this_process exit_code s) (\<lambda>s.
     obind (unlock_obj this_process s) (\<lambda>s.
     Ret (IR_OK, s))))))"

definition sys_thread_exit :: "u64 \<Rightarrow> kernel \<Rightarrow> (ir_status \<times> kernel) outcome" where
  "sys_thread_exit exit_code s =
     obind (upd_thread (current_thread s) (\<lambda>t. t\<lparr>th_state := TERMINATING, th_exit_code := exit_code\<rparr>) s) (\<lambda>s.
     Ret (IR_OK, s))"

section \<open>Properties of creation\<close>

definition IR_HANDLE_INVALID :: u64 where "IR_HANDLE_INVALID = 0"
definition THIS_PROCESS_HANDLE :: u64 where "THIS_PROCESS_HANDLE = 1"
definition ROOT_V_ADDR_REGION_HANDLE :: u64 where "ROOT_V_ADDR_REGION_HANDLE = 2"
definition STARTUP_CHANNEL_HANDLE :: u64 where "STARTUP_CHANNEL_HANDLE = 3"

text \<open>The state after a process was created.\<close>

lemma process_create_state:
  assumes heap: "heap s = [pr, ch, pe, root, h1, h2, h3] @ hs" "NULL \<notin> {pr, ch, pe, root, h1, h2, h3}"
      "distinct [pr, ch, pe, root]" "distinct [h1, h2, h3]"
    and mmu: "arch_mmu_create_address_space kernel_pml4 (kernel_mmu s) = Ret (IR_OK, space, m)"
  defines "p \<equiv> new_process\<lparr>root_v_addr_region := root, next_handle_id := 3, handle_table := [h1, h2, h3]\<rparr>"
  shows "process_create kernel_pml4 s = Ret (IR_OK, pr, root, ch, s\<lparr>heap := hs, kernel_mmu := m, spaces := (spaces s)(pr \<mapsto> space),
    chans := (chans s)(ch \<mapsto> \<lparr>peer = pe, message_queue = []\<rparr>, pe \<mapsto> \<lparr>peer = ch, message_queue = []\<rparr>),
    regions := (regions s)(root \<mapsto> \<lparr>vr_base = 0, vr_length = USER_MEMORY_LENGTH, vr_flags = 0, can_destroy = False,
      destroyed = False, containing_address_space = pr, vr_vm_object = NULL\<rparr>),
    objs := (objs s)(ch \<mapsto> new_object OBJECT_TYPE_CHANNEL NULL, pr \<mapsto> (new_object OBJECT_TYPE_PROCESS NULL)\<lparr>references := 1\<rparr>,
      root \<mapsto> (new_object OBJECT_TYPE_V_ADDR_REGION NULL)\<lparr>references := 1\<rparr>,
      pe \<mapsto> (new_object OBJECT_TYPE_CHANNEL NULL)\<lparr>references := 1\<rparr>),
    handles := (handles s)(h1 \<mapsto> \<lparr>handle_id = 1, rights = IR_RIGHT_ALL, h_object = pr\<rparr>,
      h2 \<mapsto> \<lparr>handle_id = 2, rights = IR_RIGHT_ALL, h_object = root\<rparr>, h3 \<mapsto> \<lparr>handle_id = 3, rights = IR_RIGHT_ALL, h_object = pe\<rparr>),
    procs := (procs s)(pr \<mapsto> p)\<rparr>)"
proof -
  have ne: "pr \<noteq> ch" "ch \<noteq> pr" "pr \<noteq> pe" "pe \<noteq> pr" "pr \<noteq> root" "root \<noteq> pr" "ch \<noteq> pe" "pe \<noteq> ch" "ch \<noteq> root" "root \<noteq> ch"
      "pe \<noteq> root" "root \<noteq> pe" "h1 \<noteq> h2" "h2 \<noteq> h1" "h1 \<noteq> h3" "h3 \<noteq> h1" "h2 \<noteq> h3" "h3 \<noteq> h2"
    using heap(3,4) by auto
  then show ?thesis
    using heap(1,2) mmu unfolding process_create_def
    by (simp add: malloc_def channel_create_def new_channel_def v_addr_region_create_root_def handle_create_def
        handle_get_next_id_def take_handle_id_def add_to_handle_table_def new_process_def new_object_def p_def
        fun_upd_twist)
qed

text \<open>C25: A new process starts with exactly three handles, to itself, to its root region covering the
  whole user address space and to one end of a channel whose other end is returned, under the ids
  the interface promises; its handle table is well formed.\<close>

theorem process_create_handles:
  assumes heap: "heap s = [pr, ch, pe, root, h1, h2, h3] @ hs" "NULL \<notin> {pr, ch, pe, root, h1, h2, h3}"
      "distinct [pr, ch, pe, root]" "distinct [h1, h2, h3]"
    and mmu: "arch_mmu_create_address_space kernel_pml4 (kernel_mmu s) = Ret (IR_OK, space, m)"
  shows "\<exists>s' p. process_create kernel_pml4 s = Ret (IR_OK, pr, root, ch, s') \<and> procs s' pr = Some p \<and>
    handle_table p = [h1, h2, h3] \<and> root_v_addr_region p = root \<and> pr_state p = ACTIVE \<and> handles_ok s' pr 1000 \<and>
    handles s' h1 = Some \<lparr>handle_id = THIS_PROCESS_HANDLE, rights = IR_RIGHT_ALL, h_object = pr\<rparr> \<and>
    handles s' h2 = Some \<lparr>handle_id = ROOT_V_ADDR_REGION_HANDLE, rights = IR_RIGHT_ALL, h_object = root\<rparr> \<and>
    handles s' h3 = Some \<lparr>handle_id = STARTUP_CHANNEL_HANDLE, rights = IR_RIGHT_ALL, h_object = pe\<rparr> \<and>
    chans s' ch = Some \<lparr>peer = pe, message_queue = []\<rparr> \<and> chans s' pe = Some \<lparr>peer = ch, message_queue = []\<rparr> \<and>
    interval s' root = (0, 2 ^ 47) \<and> spaces s' pr = Some space"
proof -
  define p where "p = new_process\<lparr>root_v_addr_region := root, next_handle_id := 3, handle_table := [h1, h2, h3]\<rparr>"
  obtain t where t: "process_create kernel_pml4 s = Ret (IR_OK, pr, root, ch, t)" "procs t pr = Some p"
      "handles t = (handles s)(h1 \<mapsto> \<lparr>handle_id = 1, rights = IR_RIGHT_ALL, h_object = pr\<rparr>,
        h2 \<mapsto> \<lparr>handle_id = 2, rights = IR_RIGHT_ALL, h_object = root\<rparr>, h3 \<mapsto> \<lparr>handle_id = 3, rights = IR_RIGHT_ALL, h_object = pe\<rparr>)"
      "chans t = (chans s)(ch \<mapsto> \<lparr>peer = pe, message_queue = []\<rparr>, pe \<mapsto> \<lparr>peer = ch, message_queue = []\<rparr>)"
      "interval t root = (0, 2 ^ 47)" "spaces t pr = Some space"
    using process_create_state [OF assms] by (simp add: interval_def USER_MEMORY_LENGTH_def p_def)
  have "handles_ok t pr 1000"
    unfolding handles_ok_def using heap(4)
    by (intro exI [of _ p]) (auto simp: t p_def new_process_def ids_ok_def id_of_def inj_on_def)
  then show ?thesis
    using heap(3,4) t by (intro exI [of _ t] exI [of _ p])
      (simp add: p_def new_process_def THIS_PROCESS_HANDLE_def ROOT_V_ADDR_REGION_HANDLE_def STARTUP_CHANNEL_HANDLE_def)
qed

text \<open>Creating a task leaves its parent locked: creating a second task under the same parent never
  returns.\<close>

theorem task_create_deadlock:
  assumes "task_create par s = Ret (IR_OK, s1)" "par \<notin> set (heap s)"
  shows "task_create par s1 = Hang"
proof -
  obtain x where "objs s1 par = Some x" "ob_lock x"
    using assms unfolding task_create_def
    by (auto simp: outcome_simps malloc_def upd_obj_def Let_def split: if_splits list.splits prod.splits)
  then show ?thesis
    by (simp add: task_create_def)
qed

definition demo_boot :: kernel where
  "demo_boot = blank_kernel\<lparr>kernel_mmu := demo_mmu, heap := [0x10, 0x20, 0x30, 0x40, 0x50, 0x60, 0x70, 0x80]\<rparr>"

lemma demo_create_space: "\<exists>space m. arch_mmu_create_address_space demo_root demo_mmu = Ret (IR_OK, space, m)"
proof -
  have "case arch_mmu_create_address_space demo_root demo_mmu of Ret (status, _) \<Rightarrow> status = IR_OK | _ \<Rightarrow> False"
    by code_simp
  then show ?thesis
    by (auto split: outcome.splits)
qed

theorem process_create_handles_witness:
  "\<exists>s' p. process_create demo_root demo_boot = Ret (IR_OK, 0x10, 0x40, 0x20, s') \<and> procs s' 0x10 = Some p \<and>
     handle_table p = [0x50, 0x60, 0x70] \<and> handles_ok s' 0x10 1000"
proof -
  obtain space m where "arch_mmu_create_address_space demo_root demo_mmu = Ret (IR_OK, space, m)"
    using demo_create_space by blast
  then show ?thesis
    using process_create_handles [of demo_boot "0x10" "0x20" "0x30" "0x40" "0x50" "0x60" "0x70" "[0x80]" demo_root space m]
    by (auto simp: demo_boot_def)
qed

theorem task_create_deadlock_witness:
  "\<exists>s1. task_create 0x10 (blank_kernel\<lparr>heap := [0x20], objs := [0x10 \<mapsto> new_object OBJECT_TYPE_TASK NULL],
      tasks := [0x10 \<mapsto> ACTIVE]\<rparr>) = Ret (IR_OK, s1) \<and> task_create 0x10 s1 = Hang"
proof -
  let ?s = "blank_kernel\<lparr>heap := [0x20], objs := [0x10 \<mapsto> new_object OBJECT_TYPE_TASK NULL], tasks := [0x10 \<mapsto> ACTIVE]\<rparr>"
  obtain s1 where "task_create 0x10 ?s = Ret (IR_OK, s1)"
    by (simp add: task_create_def malloc_def new_object_def)
  then show ?thesis
    using task_create_deadlock [of "0x10" ?s s1] by simp
qed

section \<open>The handle of a created process\<close>

text \<open>\<^verbatim>\<open>sys_process_create\<close> cannot succeed: it makes the handle for the new process from the pointer the
  user passed for the result, so unless a kernel object happens to lie at that user address it
  follows a pointer to no object.\<close>

theorem sys_process_create_faults:
  assumes args: "arch_validate_user_pointer process" "arch_validate_user_pointer region_out"
    and heap: "heap s = [pr, ch, pe, root, h1, h2, h3] @ hs" "NULL \<notin> {pr, ch, pe, root, h1, h2, h3}"
      "distinct [pr, ch, pe, root]" "distinct [h1, h2, h3]"
    and mmu: "arch_mmu_create_address_space kernel_pml4 (kernel_mmu s) = Ret (IR_OK, space, m)"
    and current: "current_process s = Ret current"
    and user: "objs s process = None" "process \<notin> {pr, ch, pe, root}"
  shows "sys_process_create kernel_pml4 process region_out channel s = Fault"
  using args current user process_create_state [OF heap mmu]
  by (simp add: sys_process_create_def handle_create_def upd_obj_def)

theorem sys_process_create_faults_witness:
  "sys_process_create demo_root 0x5000 0x6000 0x7000
     (demo_boot\<lparr>objs := [0x90 \<mapsto> new_object OBJECT_TYPE_THREAD 0xA0], current_thread := 0x90\<rparr>) = Fault"
proof -
  obtain space m where "arch_mmu_create_address_space demo_root demo_mmu = Ret (IR_OK, space, m)"
    using demo_create_space by blast
  then show ?thesis
    using sys_process_create_faults [of "0x5000" "0x6000"
        "demo_boot\<lparr>objs := [0x90 \<mapsto> new_object OBJECT_TYPE_THREAD 0xA0], current_thread := 0x90\<rparr>"
        "0x10" "0x20" "0x30" "0x40" "0x50" "0x60" "0x70" "[0x80]" demo_root space m "0xA0" "0x7000"] demo_user_pointers
    by (simp add: demo_boot_def current_process_def new_object_def)
qed

end
