(* ===== verification/Reclaim.thy ===== *)
theory Reclaim
  imports Process
begin

text \<open>
  What releasing references can and cannot do: it never makes an object appear and never changes a
  process that survives. With it, why a process whose own handle is the last reference to its root
  region uses that region after it was freed, and what releasing a mapped region does to the region,
  its parent and the memory object.
\<close>

section \<open>Releasing only takes away\<close>

definition shrinks :: "kernel \<Rightarrow> kernel \<Rightarrow> bool" where
  "shrinks s t \<longleftrightarrow> (\<forall>a. objs s a = None \<longrightarrow> objs t a = None) \<and> (\<forall>a. procs t a = None \<or> procs t a = procs s a)"

lemma shrinks_refl: "shrinks s s"
  by (simp add: shrinks_def)

lemma shrinks_trans: "shrinks s t \<Longrightarrow> shrinks t u \<Longrightarrow> shrinks s u"
  unfolding shrinks_def by metis

lemma shrinks_frame:
  "shrinks s (t\<lparr>kernel_mmu := m\<rparr>) = shrinks s t" "shrinks s (t\<lparr>msgs := ms\<rparr>) = shrinks s t"
  "shrinks s (t\<lparr>handles := hs\<rparr>) = shrinks s t" "shrinks s (t\<lparr>run_queue := q\<rparr>) = shrinks s t"
  "shrinks s (t\<lparr>waiting_for_signals := q\<rparr>) = shrinks s t" "shrinks s (t\<lparr>allocated_ranges := q\<rparr>) = shrinks s t"
  "shrinks s (t\<lparr>irq_calls := c\<rparr>) = shrinks s t" "shrinks s (t\<lparr>interrupt_table := i\<rparr>) = shrinks s t"
  "shrinks s (t\<lparr>regions := r\<rparr>) = shrinks s t" "shrinks s (t\<lparr>chans := c'\<rparr>) = shrinks s t"
  "shrinks s (t\<lparr>listeners := l\<rparr>) = shrinks s t" "shrinks s (t\<lparr>threads := th\<rparr>) = shrinks s t"
  by (simp_all add: shrinks_def)

lemma shrinks_free: "shrinks s t \<Longrightarrow> shrinks s (free_object p t)"
  by (auto simp: shrinks_def free_object_def)

lemma post_kernel:
  "post m (shrinks s) \<Longrightarrow> (\<And>t. shrinks s t \<Longrightarrow> post (f t) (shrinks s)) \<Longrightarrow> post (obind m f) (shrinks s)"
  by (rule post_obind)

lemmas post_load = post_any [of _ _ "load st p" for st p]
lemmas post_read = post_load post_any [of _ _ "list_find_and_remove c xs" for c xs] post_any [of _ _ "space_at p s" for p s]
  post_any [of _ _ "arch_mmu_unmap a b n m" for a b n m] post_any [of _ _ "looped (vm_free_pages p m)" for p m]

lemma post_upd:
  "shrinks s t \<Longrightarrow> post (upd_obj p f t) (shrinks s)"
  "shrinks s t \<Longrightarrow> post (lock_obj p t) (shrinks s)"
  "shrinks s t \<Longrightarrow> post (unlock_obj p t) (shrinks s)"
  "shrinks s t \<Longrightarrow> post (upd_listener p f1 t) (shrinks s)"
  "shrinks s t \<Longrightarrow> post (upd_region p f2 t) (shrinks s)"
  "shrinks s t \<Longrightarrow> post (upd_thread p f3 t) (shrinks s)"
  "shrinks s t \<Longrightarrow> post (upd_chan p f4 t) (shrinks s)"
  by (auto simp: post_def outcome_simps unlock_obj_def upd_obj_def upd_listener_def upd_region_def upd_thread_def upd_chan_def
      shrinks_frame) (auto simp: shrinks_def)

lemma post_unblock: "shrinks s t \<Longrightarrow> post (scheduler_unblock_listener l t) (shrinks s)"
  unfolding scheduler_unblock_listener_def
  by (intro post_let post_read post_kernel post_upd post_Ret) (simp_all add: shrinks_frame)

lemma set_signals_loop_shrinks:
  assumes "set_signals_loop obj sig i t = Some r"
  shows "shrinks s t \<longrightarrow> post r (shrinks s)"
proof (rule set_signals_loop.raw_induct [OF _ assms, where P = "\<lambda>_ _ _ t r. shrinks s t \<longrightarrow> post r (shrinks s)"])
  fix self obj sig i t r
  assume rec: "\<And>obj sig i t r. self obj sig i t = Some r \<Longrightarrow> shrinks s t \<longrightarrow> post r (shrinks s)"
    and body: "(case objs t obj of None \<Rightarrow> Some Fault | Some x \<Rightarrow>
      if i < length (signal_listeners x) then
        (let listener = signal_listeners x ! i in
         case listeners t listener of None \<Rightarrow> Some Fault | Some l \<Rightarrow>
         if target_signals l AND sig \<noteq> 0 then
           (case obind (upd_obj obj (\<lambda>x. x\<lparr>signal_listeners := delete_at (i - 1) (signal_listeners x)\<rparr>) t) (\<lambda>s.
                 obind (upd_listener listener (\<lambda>l. l\<lparr>observed_signals := sig\<rparr>) s) (\<lambda>s.
                 scheduler_unblock_listener listener s)) of
              Ret s \<Rightarrow> self obj sig i s
            | Fault \<Rightarrow> Some Fault | Panic \<Rightarrow> Some Panic | Hang \<Rightarrow> Some Hang)
         else self obj sig (Suc i) t)
      else Some (Ret t)) = Some r"
  show "shrinks s t \<longrightarrow> post r (shrinks s)"
  proof
    assume s: "shrinks s t"
    let ?wake = "\<lambda>listener. obind (upd_obj obj (\<lambda>x. x\<lparr>signal_listeners := delete_at (i - 1) (signal_listeners x)\<rparr>) t) (\<lambda>s.
        obind (upd_listener listener (\<lambda>l. l\<lparr>observed_signals := sig\<rparr>) s) (\<lambda>s. scheduler_unblock_listener listener s))"
    have wake: "post (?wake l) (shrinks s)" for l
      by (intro post_kernel post_upd post_unblock s)
    show "post r (shrinks s)"
    proof (cases "objs t obj")
      case None
      then show ?thesis using body by auto
    next
      case (Some x)
      show ?thesis
      proof (cases "i < length (signal_listeners x)")
        case False
        then show ?thesis using body Some s by (auto intro: post_Ret)
      next
        case True
        let ?l = "signal_listeners x ! i"
        show ?thesis
        proof (cases "listeners t ?l")
          case None
          then show ?thesis using body Some True by auto
        next
          case l: (Some l)
          show ?thesis
          proof (cases "target_signals l AND sig = 0")
            case no: True
            then have "self obj sig (Suc i) t = Some r"
              using body Some True l by (simp add: Let_def)
            then show ?thesis
              using rec s by blast
          next
            case False
            then have r: "(case ?wake ?l of Ret s \<Rightarrow> self obj sig i s
                | Fault \<Rightarrow> Some Fault | Panic \<Rightarrow> Some Panic | Hang \<Rightarrow> Some Hang) = Some r"
              using body Some True l by (simp add: Let_def del: upd_simps)
            show ?thesis
            proof (cases "?wake ?l")
              case (Ret u)
              then show ?thesis
                using r rec wake [of ?l] by (auto simp: post_def)
            qed (use r in auto)
          qed
        qed
      qed
    qed
  qed
qed

lemma post_signals: "shrinks s t \<Longrightarrow> post (object_set_signals obj sig t) (shrinks s)"
  unfolding object_set_signals_def
proof (intro post_kernel post_upd)
  fix u assume "shrinks s u"
  then show "post (looped (set_signals_loop obj sig 0 u)) (shrinks s)"
    using set_signals_loop_shrinks by (cases "set_signals_loop obj sig 0 u") auto
qed

lemma release_step_shrinks:
  assumes rec: "\<And>call u. shrinks s u \<Longrightarrow> post (rec call u) (shrinks s)" and s: "shrinks s t"
  shows "post (decrement_body rec obj t) (shrinks s)"
    "post (region_cleanup_body rec obj t) (shrinks s)"
    "post (region_destroy_body rec obj t) (shrinks s)"
    "post (destroy_children_body rec obj t) (shrinks s)"
    "post (channel_cleanup_body rec obj t) (shrinks s)"
    "post (drain_messages_body rec obj t) (shrinks s)"
    "post (release_handles_body rec hs t) (shrinks s)"
  unfolding release_bodies vm_object_cleanup_def process_cleanup_def thread_cleanup_def interrupt_cleanup_def ioport_cleanup_def
  by (intro post_read post_kernel post_let post_if post_list post_prod post_upd post_signals post_Ret post_fail rec s shrinks_free |
      simp add: shrinks_frame)+

lemma release_shrinks: "shrinks s t \<Longrightarrow> post (release n call t) (shrinks s)"
proof (induction n arbitrary: call t)
  case 0
  then show ?case by simp
next
  case (Suc n)
  show ?case
    by (cases call) (simp_all add: release_step_shrinks [OF Suc.IH Suc.prems])
qed

section \<open>A process that holds its own root region\<close>

text \<open>The root region is gone, and the process still names it.\<close>

definition root_lost :: "ptr \<Rightarrow> ptr \<Rightarrow> kernel \<Rightarrow> bool" where
  "root_lost process root s \<longleftrightarrow> objs s root = None \<and> (\<forall>p. procs s process = Some p \<longrightarrow> root_v_addr_region p = root)"

lemma root_lost_shrinks: "root_lost process root s \<Longrightarrow> shrinks s t \<Longrightarrow> root_lost process root t"
  unfolding root_lost_def shrinks_def by (metis option.distinct(1))

lemma decrement_shrinks: "post (object_decrement_references depth obj s) (shrinks s)"
  unfolding object_decrement_references_def by (rule release_shrinks [OF shrinks_refl])

lemma close_all_handles_lost:
  assumes "close_all_handles depth process s = Some r"
  shows "root_lost process root s \<longrightarrow> post r (root_lost process root)"
proof (rule close_all_handles.raw_induct [OF _ assms,
      where P = "\<lambda>_ process s r. root_lost process root s \<longrightarrow> post r (root_lost process root)"], goal_cases)
  case (1 self depth process s r)
  note rec = 1(1) and body = 1(2)
  show ?case
  proof
    assume lost: "root_lost process root s"
    show "post r (root_lost process root)"
    proof (cases "procs s process")
      case None
      then show ?thesis using body by auto
    next
      case (Some p)
      show ?thesis
      proof (cases "handle_table p")
        case Nil
        then show ?thesis using body Some lost by (auto intro: post_Ret)
      next
        case (Cons h hs)
        let ?s = "s\<lparr>procs := (procs s)(process \<mapsto> p\<lparr>handle_table := hs\<rparr>)\<rparr>"
        let ?close = "obind (load (handles s) h) (\<lambda>hh. object_decrement_references depth (h_object hh) ?s)"
        have r: "(case ?close of Ret s \<Rightarrow> self depth process (s\<lparr>handles := (handles s)(h := None)\<rparr>)
            | Fault \<Rightarrow> Some Fault | Panic \<Rightarrow> Some Panic | Hang \<Rightarrow> Some Hang) = Some r"
          using body Some Cons by (simp add: Let_def)
        have "root_lost process root ?s"
          using lost Some by (simp add: root_lost_def)
        moreover have "post ?close (shrinks ?s)"
          by (rule post_any) (rule decrement_shrinks)
        ultimately have lost': "post ?close (root_lost process root)"
          using root_lost_shrinks by (auto simp: post_def)
        show ?thesis
        proof (cases ?close)
          case (Ret u)
          then have "self depth process (u\<lparr>handles := (handles u)(h := None)\<rparr>) = Some r"
            using r by simp
          moreover have "root_lost process root (u\<lparr>handles := (handles u)(h := None)\<rparr>)"
            using lost' Ret by (simp add: post_def root_lost_def)
          ultimately show ?thesis
            using rec by blast
        qed (use r in auto)
      qed
    qed
  qed
qed

text \<open>Releasing the last reference to a region frees it, if it returns.\<close>

lemma decrement_last_region_gone:
  assumes "objs s root = Some x" "ob_type x = OBJECT_TYPE_V_ADDR_REGION" "references x = 1"
    and "object_decrement_references depth root s = Ret t"
  shows "objs t root = None"
proof (cases depth)
  case 0
  then show ?thesis
    using assms(4) by (simp add: object_decrement_references_def)
next
  case (Suc d)
  show ?thesis
    using assms unfolding Suc object_decrement_references_def
    by (cases d) (auto simp: decrement_body_def region_cleanup_body_def outcome_simps free_object_def)
qed

text \<open>C33: When the handle in a process's own table is the last reference to its root region, finishing the termination of
  the process uses that region after it was freed: closing the handles, whatever they release, frees the region, or the process
  with it, and the code goes on to destroy the region that the process still names.\<close>

theorem process_finish_termination_use_after_free:
  assumes p: "procs s process = Some p" "handle_table p = h1 # h2 # hs" "root_v_addr_region p = root" "process \<noteq> root"
    and h: "handles s h1 = Some hh1" "h_object hh1 = process" "handles s h2 = Some hh2" "h_object hh2 = root" "h1 \<noteq> h2"
    and x: "objs s process = Some x" "ob_type x \<noteq> 0" "references x \<noteq> 1"
    and y: "objs s root = Some y" "ob_type y = OBJECT_TYPE_V_ADDR_REGION" "references y = 1"
    and closed: "close_all_handles depth process s = Some (Ret t)"
  shows "objs t root = None \<and> process_finish_termination depth process s = Fault"
proof (cases depth)
  case 0
  then show ?thesis
    using p h closed by (simp add: close_all_handles.simps object_decrement_references_def)
next
  case (Suc d)
  define s1 where "s1 = s\<lparr>procs := (procs s)(process \<mapsto> p\<lparr>handle_table := h2 # hs\<rparr>),
    objs := (objs s)(process \<mapsto> x\<lparr>references := references x - 1\<rparr>), handles := (handles s)(h1 := None)\<rparr>"
  define s2 where "s2 = s1\<lparr>procs := (procs s)(process \<mapsto> p\<lparr>handle_table := hs\<rparr>)\<rparr>"
  have first: "close_all_handles depth process s = close_all_handles depth process s1"
    using p h x by (subst close_all_handles.simps) (simp add: Suc decrement_shared s1_def)
  have second: "close_all_handles depth process s1 =
      (case object_decrement_references depth root s2 of
         Ret s \<Rightarrow> close_all_handles depth process (s\<lparr>handles := (handles s)(h2 := None)\<rparr>)
       | Fault \<Rightarrow> Some Fault | Panic \<Rightarrow> Some Panic | Hang \<Rightarrow> Some Hang)"
    using h by (subst close_all_handles.simps) (simp add: s1_def s2_def)
  obtain u where u: "object_decrement_references depth root s2 = Ret u"
      "close_all_handles depth process (u\<lparr>handles := (handles u)(h2 := None)\<rparr>) = Some (Ret t)"
    using closed unfolding first second by (cases "object_decrement_references depth root s2") auto
  have "objs u root = None"
    using decrement_last_region_gone [of s2 root y depth u] y p(4) u(1) by (simp add: s2_def s1_def)
  moreover have "shrinks s2 u"
    using decrement_shrinks [of depth root s2] u(1) by (simp add: post_def)
  then have "procs u process = None \<or> procs u process = Some (p\<lparr>handle_table := hs\<rparr>)"
    unfolding shrinks_def s2_def by (auto split: if_splits)
  then have "\<forall>q. procs u process = Some q \<longrightarrow> root_v_addr_region q = root"
    using p(3) by auto
  ultimately have "root_lost process root (u\<lparr>handles := (handles u)(h2 := None)\<rparr>)"
    by (simp add: root_lost_def)
  then have lost: "root_lost process root t"
    using close_all_handles_lost [OF u(2)] by (simp add: post_def)
  then have "process_finish_termination depth process s = Fault"
    using closed unfolding process_finish_termination_def root_lost_def upd_proc_def
    by (cases "procs t process") (auto simp: Suc v_addr_region_destroy_def region_destroy_body_def)
  then show ?thesis
    using lost by (simp add: root_lost_def)
qed

text \<open>The only thread of a process made by \<^verbatim>\<open>process_create\<close> alone.\<close>

definition demo_dying :: "kernel" where
  "demo_dying = blank_kernel\<lparr>
     objs := [0x10 \<mapsto> (new_object OBJECT_TYPE_PROCESS NULL)\<lparr>references := 2, children := [0x90]\<rparr>,
              0x40 \<mapsto> (new_object OBJECT_TYPE_V_ADDR_REGION NULL)\<lparr>references := 1\<rparr>],
     procs := [0x10 \<mapsto> new_process\<lparr>root_v_addr_region := 0x40, next_handle_id := 2, handle_table := [0x50, 0x60]\<rparr>],
     regions := [0x40 \<mapsto> \<lparr>vr_base = 0, vr_length = USER_MEMORY_LENGTH, vr_flags = 0, can_destroy = False,
       destroyed = False, containing_address_space = 0x10, vr_vm_object = NULL\<rparr>],
     handles := [0x50 \<mapsto> demo_handle 1 0x10, 0x60 \<mapsto> demo_handle 2 0x40]\<rparr>"

theorem process_finish_termination_use_after_free_witness:
  "process_finish_termination 20 0x10 demo_dying = Fault"
proof -
  have "case close_all_handles 20 0x10 demo_dying of Some (Ret t) \<Rightarrow> True | _ \<Rightarrow> False"
    by code_simp
  then obtain t where "close_all_handles 20 0x10 demo_dying = Some (Ret t)"
    by (auto split: option.splits outcome.splits)
  then show ?thesis
    using process_finish_termination_use_after_free [of demo_dying "0x10"
        "new_process\<lparr>root_v_addr_region := 0x40, next_handle_id := 2, handle_table := [0x50, 0x60]\<rparr>" "0x50" "0x60" "[]" "0x40"
        "demo_handle 1 0x10" "demo_handle 2 0x40" "(new_object OBJECT_TYPE_PROCESS NULL)\<lparr>references := 2, children := [0x90]\<rparr>"
        "(new_object OBJECT_TYPE_V_ADDR_REGION NULL)\<lparr>references := 1\<rparr>" 20 t]
    by (simp add: demo_dying_def new_process_def new_object_def)
qed

section \<open>Releasing a mapping\<close>

lemma find_child:
  assumes "r \<in> set cs" "distinct cs" "\<And>d. d \<in> set cs \<Longrightarrow> \<exists>rd. regions s d = Some rd \<and> (vr_base rd = vr_base rr \<longleftrightarrow> d = r)"
    and "regions s r = Some rr"
  shows "list_find_and_remove (\<lambda>d. compare_bases s d r) cs = Ret (Some r, remove1 r cs)"
proof -
  have "\<exists>c. compare_bases s d r = Ret c \<and> (c = 0 \<longleftrightarrow> d = r)" if "d \<in> set cs" for d
    using assms(3) [OF that] assms(4) by (auto simp: compare_bases_def)
  then obtain c where c: "\<And>d. d \<in> set cs \<Longrightarrow> compare_bases s d r = Ret (c d) \<and> (c d = 0 \<longleftrightarrow> d = r)"
    by metis
  then obtain i where i: "index_of (\<lambda>d. c d = 0) cs = Some i" "i < length cs" "cs ! i = r"
    using nth_index [of r cs "\<lambda>d. c d = 0"] assms(1,2) by blast
  then show ?thesis
    using delete_at_remove1 [OF assms(2) i(2)] c by (subst list_find_and_remove_pure [of cs _ c]) auto
qed

text \<open>C23: Dropping the last reference to a region that maps a memory object takes the mapping down: the range of the region is
  unmapped from its address space, the region leaves its parent's list, the parent and the memory object lose one
  reference each, and the region is gone. No other object and no other region changes.\<close>

theorem region_release_correct:
  assumes x: "objs s r = Some x" "ob_type x = OBJECT_TYPE_V_ADDR_REGION" "references x = 1" "\<not> ob_lock x" "children x = []" "ob_parent x = par"
    and rr: "regions s r = Some rr" "\<not> destroyed rr" "vr_vm_object rr = vm"
    and px: "par \<noteq> NULL" "par \<noteq> r" "objs s par = Some px" "ob_type px \<noteq> 0" "references px \<noteq> 1"
    and child: "r \<in> set (children px)" "distinct (children px)"
      "\<And>d. d \<in> set (children px) \<Longrightarrow> \<exists>rd. regions s d = Some rd \<and> (vr_base rd = vr_base rr \<longleftrightarrow> d = r)"
    and v: "vm \<noteq> NULL" "vm \<noteq> r" "vm \<noteq> par" "objs s vm = Some v" "ob_type v \<noteq> 0" "references v \<noteq> 1"
    and unmap: "spaces s (containing_address_space rr) = Some space" "containing_address_space rr \<noteq> NULL"
      "arch_mmu_unmap (Some space) (vr_base rr) (vr_length rr) (kernel_mmu s) = Ret (status, m)"
  shows "\<exists>s'. object_decrement_references (4 + n) r s = Ret s' \<and> kernel_mmu s' = m \<and>
    objs s' = (objs s)(r := None, par \<mapsto> px\<lparr>children := remove1 r (children px), references := references px - 1\<rparr>,
      vm \<mapsto> v\<lparr>references := references v - 1\<rparr>) \<and>
    regions s' = (regions s)(r := None)"
proof -
  define t where "t = s\<lparr>objs := (objs s)(r \<mapsto> x\<lparr>references := 0, ob_lock := True\<rparr>)\<rparr>"
  have find: "list_find_and_remove (\<lambda>d. compare_bases t d r) (children px) = Ret (Some r, remove1 r (children px))"
    using child rr(1) by (intro find_child [of _ _ _ rr]) (simp_all add: t_def)
  have depth: "4 + n = Suc (Suc (Suc (Suc n)))"
    by simp
  have space: "space_at (containing_address_space rr) u = Ret (Some space)" if "spaces u = spaces s" for u
    using that unmap(1,2) by (simp add: space_at_def)
  have "object_decrement_references (4 + n) r s = region_cleanup_body (release (Suc (Suc n))) r t"
    using x unfolding depth by (simp add: object_decrement_references_def decrement_body_def t_def)
  then show ?thesis
    using x rr px v unmap(3) find space
    by (simp add: region_cleanup_body_def region_destroy_body_def decrement_body_def destroy_children_body_def free_object_def t_def
        fun_upd_twist)
qed

definition demo_mapped :: kernel where
  "demo_mapped = blank_kernel\<lparr>
     objs := [0x100 \<mapsto> demo_parent_object\<lparr>references := 2\<rparr>, 0x200 \<mapsto> (new_object OBJECT_TYPE_V_ADDR_REGION 0x100)\<lparr>references := 1\<rparr>,
              0x300 \<mapsto> (new_object OBJECT_TYPE_VM_OBJECT NULL)\<lparr>references := 2\<rparr>],
     regions := [0x100 \<mapsto> demo_parent_region,
                 0x200 \<mapsto> \<lparr>vr_base = 0x200000, vr_length = 0x1000, vr_flags = 0, can_destroy = True, destroyed = False,
                   containing_address_space = 0x400, vr_vm_object = 0x300\<rparr>],
     spaces := [0x400 \<mapsto> \<lparr>table_base = demo_root, as_lock = False\<rparr>], kernel_mmu := demo_mmu\<rparr>"

theorem region_release_correct_witness:
  "\<exists>s' p'. object_decrement_references 4 0x200 demo_mapped = Ret s' \<and> objs s' 0x200 = None \<and> objs s' 0x100 = Some p' \<and>
     children p' = [] \<and> references p' = 1 \<and> objs s' 0x300 = Some ((new_object OBJECT_TYPE_VM_OBJECT NULL)\<lparr>references := 1\<rparr>)"
proof -
  have "case arch_mmu_unmap (Some \<lparr>table_base = demo_root, as_lock = False\<rparr>) 0x200000 0x1000 demo_mmu of Ret _ \<Rightarrow> True | _ \<Rightarrow> False"
    by code_simp
  then obtain status m where "arch_mmu_unmap (Some \<lparr>table_base = demo_root, as_lock = False\<rparr>) 0x200000 0x1000 demo_mmu = Ret (status, m)"
    by (auto split: outcome.splits)
  then show ?thesis
    using region_release_correct [of demo_mapped "0x200" "(new_object OBJECT_TYPE_V_ADDR_REGION 0x100)\<lparr>references := 1\<rparr>" "0x100"
        "\<lparr>vr_base = 0x200000, vr_length = 0x1000, vr_flags = 0, can_destroy = True, destroyed = False,
                   containing_address_space = 0x400, vr_vm_object = 0x300\<rparr>" "0x300" "demo_parent_object\<lparr>references := 2\<rparr>"
        "(new_object OBJECT_TYPE_VM_OBJECT NULL)\<lparr>references := 2\<rparr>" "\<lparr>table_base = demo_root, as_lock = False\<rparr>" status m 0]
    by (auto simp: demo_mapped_def new_object_def demo_parent_object_def)
qed

end
