(* ===== verification/Scheduler.thy ===== *)
theory Scheduler
  imports Process
begin

text \<open>
  The round-robin scheduler (\<^verbatim>\<open>kernel/scheduler.c\<close>), waiting for the signals of an object
  (\<^verbatim>\<open>kernel/object.c\<close>) and the time (\<^verbatim>\<open>kernel/time.c\<close>). Entering a context does not come back: a switch returns
  whether the processor now runs another context, and a system call that switched has no result
  (\<^term>\<open>None\<close>) until its thread is run again. \<open>kernel_pml4\<close> is the address of the kernel's top page table
  and \<open>leave_function\<close> that of \<^verbatim>\<open>arch_leave_function\<close>.
\<close>

section \<open>Switching\<close>

text \<open>Waking the listeners whose deadline has passed, as long as the first one is such.\<close>

partial_function (option) wake_listeners :: "kernel \<Rightarrow> kernel outcome option" where
  "wake_listeners s =
     (case waiting_for_signals s of
        [] \<Rightarrow> Some (Ret s)
      | listener # rest \<Rightarrow>
          (case listeners s listener of None \<Rightarrow> Some Fault | Some l \<Rightarrow>
           if deadline l < microseconds_since_boot s then
             (case scheduler_unblock_listener listener (s\<lparr>waiting_for_signals := rest\<rparr>) of
                Ret s \<Rightarrow> wake_listeners s
              | Fault \<Rightarrow> Some Fault | Panic \<Rightarrow> Some Panic | Hang \<Rightarrow> Some Hang)
           else Some (Ret s)))"

partial_function (option) wake_sleepers :: "kernel \<Rightarrow> kernel outcome option" where
  "wake_sleepers s =
     (case sleeping_threads s of
        [] \<Rightarrow> Some (Ret s)
      | thread # rest \<Rightarrow>
          (case threads s thread of None \<Rightarrow> Some Fault | Some t \<Rightarrow>
           if sleeping_until t < microseconds_since_boot s then
             (case schedule_thread thread (s\<lparr>sleeping_threads := rest\<rparr>) of
                Ret s \<Rightarrow> wake_sleepers s
              | Fault \<Rightarrow> Some Fault | Panic \<Rightarrow> Some Panic | Hang \<Rightarrow> Some Hang)
           else Some (Ret s)))"

declare wake_listeners.simps [code] wake_sleepers.simps [code]

text \<open>Running a thread: its address space, its kernel stack and its registers.\<close>

definition enter_thread :: "ptr \<Rightarrow> bool \<Rightarrow> ptr \<Rightarrow> kernel \<Rightarrow> kernel outcome" where
  "enter_thread thread reschedule next_thread s =
     obind (load (objs s) next_thread) (\<lambda>x.
     let s = s\<lparr>current_thread := next_thread\<rparr>;
         s = (if reschedule \<and> thread \<noteq> idle_thread s then s\<lparr>run_queue := run_queue s @ [thread]\<rparr> else s) in
     obind (load (spaces s) (ob_parent x)) (\<lambda>space.
     obind (load (threads s) next_thread) (\<lambda>t.
     Ret (s\<lparr>cr3 := physical_map_to_p_addr (table_base space), interrupt_stack := kernel_stack_top t,
            cpu_context := th_context t\<rparr>))))"

definition enter_idle :: "ptr \<Rightarrow> ptr \<Rightarrow> bool \<Rightarrow> kernel \<Rightarrow> kernel outcome" where
  "enter_idle kernel_pml4 thread reschedule s =
     (let s = (if reschedule then s\<lparr>run_queue := run_queue s @ [thread]\<rparr> else s);
          s = s\<lparr>current_thread := idle_thread s\<rparr> in
      obind (load (threads s) (idle_thread s)) (\<lambda>t.
      Ret (s\<lparr>cr3 := kernel_pml4 - KERNEL_VIRTUAL_ADDRESS, interrupt_stack := kernel_stack_top t,
             cpu_context := th_context t\<rparr>)))"

text \<open>The search for the next thread; threads that are terminating and not in a system call are finished.\<close>

partial_function (option) run_next ::
  "nat \<Rightarrow> ptr \<Rightarrow> ptr \<Rightarrow> bool \<Rightarrow> kernel \<Rightarrow> (bool \<times> kernel) outcome option" where
  "run_next depth kernel_pml4 thread reschedule s =
     (case run_queue s of
        [] \<Rightarrow> Some (if thread \<noteq> idle_thread s
                     then obind (enter_idle kernel_pml4 thread reschedule s) (\<lambda>s. Ret (True, s))
                     else Ret (False, s))
      | next_thread # rest \<Rightarrow>
          (let s = s\<lparr>run_queue := rest\<rparr> in
           case threads s next_thread of None \<Rightarrow> Some Fault | Some t \<Rightarrow>
           if th_state t = ACTIVE \<or> in_syscall t
           then Some (obind (enter_thread thread reschedule next_thread s) (\<lambda>s. Ret (True, s)))
           else (case thread_finish_termination depth next_thread s of
                   Ret s \<Rightarrow> run_next depth kernel_pml4 thread reschedule s
                 | Fault \<Rightarrow> Some Fault | Panic \<Rightarrow> Some Panic | Hang \<Rightarrow> Some Hang)))"

declare run_next.simps [code]

definition switch_task :: "nat \<Rightarrow> ptr \<Rightarrow> bool \<Rightarrow> kernel \<Rightarrow> (bool \<times> kernel) outcome" where
  "switch_task depth kernel_pml4 reschedule s =
     obind (looped (wake_listeners s)) (\<lambda>s.
     obind (looped (wake_sleepers s)) (\<lambda>s.
     looped (run_next depth kernel_pml4 (current_thread s) reschedule s)))"

text \<open>Saving the current context to be resumed in \<^verbatim>\<open>arch_leave_function\<close>.\<close>

definition save_current_context :: "u64 \<Rightarrow> kernel \<Rightarrow> kernel outcome" where
  "save_current_context leave_function s =
     upd_thread (current_thread s) (\<lambda>t. t\<lparr>th_context := arch_set_instruction_pointer leave_function (cpu_context s)\<rparr>) s"

text \<open>The result of a call that ends in a switch.\<close>

definition after_switch :: "(bool \<times> kernel) outcome \<Rightarrow> (ir_status option \<times> kernel) outcome" where
  "after_switch r = obind r (\<lambda>(switched, s). Ret (if switched then None else Some IR_OK, s))"

definition sys_yield :: "nat \<Rightarrow> ptr \<Rightarrow> u64 \<Rightarrow> kernel \<Rightarrow> (ir_status option \<times> kernel) outcome" where
  "sys_yield depth kernel_pml4 leave_function s =
     obind (save_current_context leave_function s) (\<lambda>s.
     obind (upd_thread (current_thread s) (\<lambda>t. t\<lparr>in_syscall := False\<rparr>) s) (\<lambda>s.
     after_switch (switch_task depth kernel_pml4 True s)))"

definition scheduler_block_listener_and_switch :: "nat \<Rightarrow> ptr \<Rightarrow> u64 \<Rightarrow> ptr \<Rightarrow> kernel \<Rightarrow> (ir_status option \<times> kernel) outcome" where
  "scheduler_block_listener_and_switch depth kernel_pml4 leave_function listener s =
     (let s = s\<lparr>waiting_for_signals := waiting_for_signals s @ [listener]\<rparr> in
      obind (upd_thread (current_thread s) (\<lambda>t. t\<lparr>blocking_listener := listener\<rparr>) s) (\<lambda>s.
      obind (save_current_context leave_function s) (\<lambda>s.
      after_switch (switch_task depth kernel_pml4 False s))))"

text \<open>
  Without a comparison function, \<^verbatim>\<open>linked_list_add_sorted\<close> orders the sleeping threads by their
  addresses.
\<close>

definition scheduler_sleep_microseconds :: "nat \<Rightarrow> ptr \<Rightarrow> ptr \<Rightarrow> u64 \<Rightarrow> kernel \<Rightarrow> (bool \<times> kernel) outcome" where
  "scheduler_sleep_microseconds depth kernel_pml4 thread microseconds s =
     obind (upd_thread thread (\<lambda>t. t\<lparr>sleeping_until := microseconds_since_boot s + microseconds\<rparr>) s) (\<lambda>s.
     switch_task depth kernel_pml4 False
       (s\<lparr>sleeping_threads := insert_before (\<lambda>y. default_search y thread \<le> 0) thread (sleeping_threads s)\<rparr>))"

definition sys_sleep_microseconds :: "nat \<Rightarrow> ptr \<Rightarrow> u64 \<Rightarrow> u64 \<Rightarrow> kernel \<Rightarrow> (ir_status option \<times> kernel) outcome" where
  "sys_sleep_microseconds depth kernel_pml4 leave_function microseconds s =
     obind (save_current_context leave_function s) (\<lambda>s.
     after_switch (scheduler_sleep_microseconds depth kernel_pml4 (current_thread s) microseconds s))"

definition sys_time_microseconds :: "ptr \<Rightarrow> kernel \<Rightarrow> (ir_status \<times> kernel) outcome" where
  "sys_time_microseconds out s =
     (if \<not> arch_validate_user_pointer out then Ret (IR_ERROR_INVALID_ARGUMENTS, s)
      else Ret (IR_OK, put_word out (microseconds_since_boot s) s))"

section \<open>Waiting for signals\<close>

text \<open>The part of \<^verbatim>\<open>sys_object_wait\<close> after the thread was blocked.\<close>

definition object_wait_resume :: "nat \<Rightarrow> ptr \<Rightarrow> ptr \<Rightarrow> u64 \<Rightarrow> ptr \<Rightarrow> kernel \<Rightarrow> (ir_status \<times> kernel) outcome" where
  "object_wait_resume depth listener obj target observed_out s =
     obind (load (listeners s) listener) (\<lambda>l.
     let sig = observed_signals l;
         s = (put_word observed_out sig s)\<lparr>listeners := (listeners s)(listener := None)\<rparr> in
     obind (object_decrement_references depth obj s) (\<lambda>s.
     Ret (if sig AND target \<noteq> 0 then IR_OK else IR_ERROR_TIMED_OUT, s)))"

text \<open>\<open>garbage\<close> is what \<^verbatim>\<open>malloc\<close> left in the member the code does not set.\<close>

definition sys_object_wait ::
  "nat \<Rightarrow> ptr \<Rightarrow> u64 \<Rightarrow> u64 \<Rightarrow> u64 \<Rightarrow> u64 \<Rightarrow> u64 \<Rightarrow> ptr \<Rightarrow> kernel \<Rightarrow> (ir_status option \<times> kernel) outcome" where
  "sys_object_wait depth kernel_pml4 leave_function garbage object_handle target timeout observed_out s =
     (if \<not> arch_validate_user_pointer observed_out then Ret (Some IR_ERROR_INVALID_ARGUMENTS, s) else
      obind (current_process s) (\<lambda>process.
      obind (lock_handle_table process s) (\<lambda>s.
      obind (find_handle process object_handle s) (\<lambda>found.
      case found of
        None \<Rightarrow> obind (unlock_handle_table process s) (\<lambda>s. Ret (Some IR_ERROR_BAD_HANDLE, s))
      | Some h \<Rightarrow>
          obind (load (handles s) h) (\<lambda>hh.
          let obj = h_object hh in
          obind (lock_obj obj s) (\<lambda>s.
          obind (unlock_handle_table process s) (\<lambda>s.
          obind (load (objs s) obj) (\<lambda>x.
          if signals x AND target \<noteq> 0 then
            obind (unlock_obj obj (put_word observed_out target s)) (\<lambda>s. Ret (Some IR_OK, s))
          else if timeout > 0 then
            let (listener, s) = malloc s in
            if listener = NULL then obind (unlock_obj obj s) (\<lambda>s. Ret (Some IR_ERROR_NO_MEMORY, s)) else
            let s = s\<lparr>listeners := (listeners s)(listener \<mapsto> \<lparr>sl_target = obj, sl_thread = current_thread s,
                      target_signals = target, observed_signals = garbage,
                      deadline = (if timeout = - 1 then - 1 else microseconds_since_boot s + timeout)\<rparr>)\<rparr> in
            obind (upd_obj obj (\<lambda>x. x\<lparr>references := references x + 1,
                     signal_listeners := signal_listeners x @ [listener]\<rparr>) s) (\<lambda>s.
            obind (unlock_obj obj s) (\<lambda>s.
            obind (scheduler_block_listener_and_switch depth kernel_pml4 leave_function listener s) (\<lambda>(status, s).
            case status of
              None \<Rightarrow> Ret (None, s)
            | Some _ \<Rightarrow> obind (object_wait_resume depth listener obj target observed_out s) (\<lambda>(status, s). Ret (Some status, s)))))
          else
            let s = put_word observed_out (signals x) s in
            Ret (Some (if signals x AND target \<noteq> 0 then IR_OK else IR_ERROR_TIMED_OUT), s)))))))))"

section \<open>Round robin\<close>

text \<open>
  A queue of ready jobs and a running one; every step puts the running job behind the others and runs
  the first.
\<close>

locale round_robin =
  fixes inv :: "'s \<Rightarrow> bool" and running :: "'s \<Rightarrow> 'a" and ready :: "'s \<Rightarrow> 'a list" and step :: "'s \<Rightarrow> 's outcome"
  assumes step: "inv s \<Longrightarrow> ready s = n # q \<Longrightarrow>
    \<exists>s'. step s = Ret s' \<and> inv s' \<and> running s' = n \<and> ready s' = q @ [running s]"
begin

fun steps :: "nat \<Rightarrow> 's \<Rightarrow> 's outcome" where
  "steps 0 s = Ret s"
| "steps (Suc k) s = obind (step s) (steps k)"

lemma steps_rotate:
  assumes "inv s" "ready s \<noteq> []"
  shows "\<exists>s'. steps k s = Ret s' \<and> inv s' \<and> running s' # ready s' = rotate k (running s # ready s)"
  using assms
proof (induction k arbitrary: s)
  case 0
  then show ?case by simp
next
  case (Suc k)
  obtain n q where q: "ready s = n # q"
    using Suc.prems(2) by (cases "ready s") auto
  obtain s1 where s1: "step s = Ret s1" "inv s1" "running s1 = n" "ready s1 = q @ [running s]"
    using step [OF Suc.prems(1) q] by blast
  obtain s' where "steps k s1 = Ret s'" "inv s'" "running s' # ready s' = rotate k (running s1 # ready s1)"
    using Suc.IH [OF s1(2)] s1(4) by auto
  moreover have "rotate (Suc k) (running s # ready s) = rotate k (running s1 # ready s1)"
    using s1 q by (simp add: rotate1_rotate_swap)
  ultimately show ?case
    using s1 by (intro exI [of _ s']) simp
qed

lemma every_ready_runs:
  assumes "inv s" "k < length (ready s)"
  shows "\<exists>s'. steps (Suc k) s = Ret s' \<and> running s' = ready s ! k"
proof -
  have "ready s \<noteq> []"
    using assms(2) by auto
  then obtain s' where s': "steps (Suc k) s = Ret s'" "running s' # ready s' = rotate (Suc k) (running s # ready s)"
    using steps_rotate [OF assms(1), of "Suc k"] by blast
  have "running s' = hd (rotate (Suc k) (running s # ready s))"
    unfolding s'(2) [symmetric] by simp
  also have "\<dots> = (running s # ready s) ! (Suc k mod length (running s # ready s))"
    by (rule hd_rotate_conv_nth) simp
  finally show ?thesis
    using assms(2) s'(1) by simp
qed

end

text \<open>A thread that can be run, and a scheduler with nothing to wake.\<close>

definition runnable :: "kernel \<Rightarrow> ptr \<Rightarrow> bool" where
  "runnable s t \<longleftrightarrow> (\<exists>th x. threads s t = Some th \<and> th_state th = ACTIVE \<and> objs s t = Some x \<and> spaces s (ob_parent x) \<noteq> None)"

definition nothing_due :: "kernel \<Rightarrow> bool" where
  "nothing_due s \<longleftrightarrow>
     (case waiting_for_signals s of [] \<Rightarrow> True | l # _ \<Rightarrow> \<exists>x. listeners s l = Some x \<and> microseconds_since_boot s \<le> deadline x) \<and>
     (case sleeping_threads s of [] \<Rightarrow> True | t # _ \<Rightarrow> \<exists>x. threads s t = Some x \<and> microseconds_since_boot s \<le> sleeping_until x)"

definition sched_ok :: "kernel \<Rightarrow> bool" where
  "sched_ok s \<longleftrightarrow> nothing_due s \<and> idle_thread s \<notin> insert (current_thread s) (set (run_queue s)) \<and>
     (\<forall>t \<in> insert (current_thread s) (set (run_queue s)). runnable s t)"

definition tick :: "nat \<Rightarrow> ptr \<Rightarrow> kernel \<Rightarrow> kernel outcome" where
  "tick depth kernel_pml4 s = obind (switch_task depth kernel_pml4 True s) (\<lambda>(_, s). Ret s)"

lemma wake_none: "nothing_due s \<Longrightarrow> wake_listeners s = Some (Ret s)" "nothing_due s \<Longrightarrow> wake_sleepers s = Some (Ret s)"
  by (subst wake_listeners.simps wake_sleepers.simps, auto simp: nothing_due_def not_less [symmetric] split: list.splits)+

lemma switch_next:
  assumes ok: "sched_ok s" and q: "run_queue s = n # q"
  obtains s' where "switch_task depth kernel_pml4 True s = Ret (True, s')" "sched_ok s'" "current_thread s' = n"
    "run_queue s' = q @ [current_thread s]"
proof -
  have due: "nothing_due s" and idle: "current_thread s \<noteq> idle_thread s" and all: "\<forall>t \<in> insert (current_thread s) (set (n # q)). runnable s t"
    using ok q by (auto simp: sched_ok_def)
  obtain th x space where n: "threads s n = Some th" "th_state th = ACTIVE" "objs s n = Some x" "spaces s (ob_parent x) = Some space"
    using all by (auto simp: runnable_def)
  define s' where "s' = s\<lparr>run_queue := q @ [current_thread s], current_thread := n, cr3 := physical_map_to_p_addr (table_base space),
    interrupt_stack := kernel_stack_top th, cpu_context := th_context th\<rparr>"
  have "switch_task depth kernel_pml4 True s = Ret (True, s')"
    using n q idle by (simp add: switch_task_def wake_none [OF due] run_next.simps enter_thread_def s'_def Let_def)
  moreover have "sched_ok s'"
    using ok q by (simp add: sched_ok_def nothing_due_def runnable_def s'_def cong: list.case_cong)
  ultimately show thesis
    using that [of s'] by (simp add: s'_def)
qed

interpretation rr: round_robin sched_ok current_thread run_queue "tick depth kernel_pml4" for depth kernel_pml4
proof
  fix s n q
  assume "sched_ok s" "run_queue s = n # q"
  then obtain s' where "switch_task depth kernel_pml4 True s = Ret (True, s')" "sched_ok s'" "current_thread s' = n"
      "run_queue s' = q @ [current_thread s]"
    by (rule switch_next)
  then show "\<exists>s'. tick depth kernel_pml4 s = Ret s' \<and> sched_ok s' \<and> current_thread s' = n \<and> run_queue s' = q @ [current_thread s]"
    by (simp add: tick_def)
qed

section \<open>Properties\<close>

text \<open>C6: Round robin is fair: when no thread is due to wake and every thread in the run queue can run, the
  thread at position \<open>k\<close> of the queue is running after \<open>k + 1\<close> switches, and after as many switches as
  there are threads the same thread is running in front of the same queue.\<close>

theorem switch_task_round_robin:
  assumes "sched_ok s" "k < length (run_queue s)"
  shows "(\<exists>s'. round_robin.steps (tick depth kernel_pml4) (Suc k) s = Ret s' \<and> current_thread s' = run_queue s ! k) \<and>
    (\<exists>s'. round_robin.steps (tick depth kernel_pml4) (Suc (length (run_queue s))) s = Ret s' \<and>
       current_thread s' = current_thread s \<and> run_queue s' = run_queue s \<and> sched_ok s')"
proof
  show "\<exists>s'. round_robin.steps (tick depth kernel_pml4) (Suc k) s = Ret s' \<and> current_thread s' = run_queue s ! k"
    by (rule rr.every_ready_runs [OF assms])
  have "run_queue s \<noteq> []"
    using assms(2) by auto
  then obtain s' where s': "round_robin.steps (tick depth kernel_pml4) (Suc (length (run_queue s))) s = Ret s'" "sched_ok s'"
      "current_thread s' # run_queue s' = rotate (Suc (length (run_queue s))) (current_thread s # run_queue s)"
    using rr.steps_rotate [OF assms(1)] by blast
  then have "current_thread s' # run_queue s' = current_thread s # run_queue s"
    using rotate_conv_mod [of "length (current_thread s # run_queue s)" "current_thread s # run_queue s"]
    by (simp del: rotate_Suc)
  then show "\<exists>s'. round_robin.steps (tick depth kernel_pml4) (Suc (length (run_queue s))) s = Ret s' \<and>
       current_thread s' = current_thread s \<and> run_queue s' = run_queue s \<and> sched_ok s'"
    using s' by auto
qed

definition demo_scheduler :: kernel where
  "demo_scheduler = blank_kernel\<lparr>
     objs := [0x10 \<mapsto> new_object OBJECT_TYPE_THREAD 0x40, 0x20 \<mapsto> new_object OBJECT_TYPE_THREAD 0x40,
              0x30 \<mapsto> new_object OBJECT_TYPE_THREAD 0x40],
     threads := [0x10 \<mapsto> new_thread 1, 0x20 \<mapsto> new_thread 2, 0x30 \<mapsto> new_thread 3],
     spaces := [0x40 \<mapsto> \<lparr>table_base = physical_map_base + 0x1000, as_lock = False\<rparr>],
     idle_thread := 0x50, current_thread := 0x10, run_queue := [0x20, 0x30]\<rparr>"

lemma demo_sched_ok: "sched_ok demo_scheduler"
  by (simp add: sched_ok_def nothing_due_def runnable_def demo_scheduler_def blank_kernel_def new_thread_def new_object_def)

theorem switch_task_round_robin_witness:
  "\<exists>s'. round_robin.steps (tick 5 0) 2 demo_scheduler = Ret s' \<and> current_thread s' = 0x30"
  using switch_task_round_robin [OF demo_sched_ok, of 1 5 0] by (simp add: demo_scheduler_def numeral_2_eq_2)

text \<open>Sleeping threads are kept in the order of their addresses, not of the time they wake: a thread
  that is overdue stays asleep as long as a thread at a lower address sleeps for longer.\<close>

theorem overdue_sleeper_not_woken:
  assumes order: "default_search a b \<le> 0" "a \<noteq> b" "b \<noteq> n" and sleeping: "sleeping_threads s = [a]"
    and th: "threads s a = Some ta" "threads s b = Some tb" "microseconds_since_boot s \<le> sleeping_until ta"
    and q: "waiting_for_signals s = []" "run_queue s = n # q" "runnable s n"
  shows "\<exists>s'. scheduler_sleep_microseconds depth kernel_pml4 b time s = Ret (True, s') \<and> sleeping_threads s' = [a, b] \<and>
    threads s' b = Some (tb\<lparr>sleeping_until := microseconds_since_boot s + time\<rparr>) \<and>
    (\<forall>now. microseconds_since_boot s + time < now \<longrightarrow> now \<le> sleeping_until ta \<longrightarrow>
       wake_sleepers (s'\<lparr>microseconds_since_boot := now\<rparr>) = Some (Ret (s'\<lparr>microseconds_since_boot := now\<rparr>)))"
proof -
  let ?tb = "tb\<lparr>sleeping_until := microseconds_since_boot s + time\<rparr>"
  define u where "u = s\<lparr>threads := (threads s)(b \<mapsto> ?tb), sleeping_threads := [a, b]\<rparr>"
  have due: "nothing_due u"
    using order(2) th(1,3) q(1) by (simp add: nothing_due_def u_def)
  obtain tn x space where n: "threads s n = Some tn" "th_state tn = ACTIVE" "objs s n = Some x" "spaces s (ob_parent x) = Some space"
    using q(3) by (auto simp: runnable_def)
  define s' where "s' = u\<lparr>run_queue := q, current_thread := n, cr3 := physical_map_to_p_addr (table_base space),
    interrupt_stack := kernel_stack_top tn, cpu_context := th_context tn\<rparr>"
  have "insert_before (\<lambda>y. default_search y b \<le> 0) b [a] = [a, b]"
    using order(1) by (simp add: insert_before_def)
  then have "scheduler_sleep_microseconds depth kernel_pml4 b time s = switch_task depth kernel_pml4 False u"
    using sleeping th(2) by (simp add: scheduler_sleep_microseconds_def u_def)
  also have "\<dots> = Ret (True, s')"
    using n q order(3) by (simp add: switch_task_def wake_none [OF due])
      (simp add: run_next.simps enter_thread_def u_def s'_def Let_def)
  finally have "scheduler_sleep_microseconds depth kernel_pml4 b time s = Ret (True, s')" .
  moreover have "wake_sleepers (s'\<lparr>microseconds_since_boot := now\<rparr>) = Some (Ret (s'\<lparr>microseconds_since_boot := now\<rparr>))"
    if "now \<le> sleeping_until ta" for now
    using that th(1) order(2) by (subst wake_sleepers.simps) (simp add: s'_def u_def not_less [symmetric])
  ultimately show ?thesis
    by (simp add: s'_def u_def)
qed

theorem overdue_sleeper_not_woken_witness:
  "\<exists>s'. scheduler_sleep_microseconds 5 0 0x10 10
      (demo_scheduler\<lparr>sleeping_threads := [0x8], threads := (threads demo_scheduler)(0x8 \<mapsto> (new_thread 4)\<lparr>sleeping_until := 1000\<rparr>)\<rparr>) =
        Ret (True, s') \<and> sleeping_threads s' = [0x8, 0x10] \<and>
     wake_sleepers (s'\<lparr>microseconds_since_boot := 500\<rparr>) = Some (Ret (s'\<lparr>microseconds_since_boot := 500\<rparr>))"
proof -
  let ?s = "demo_scheduler\<lparr>sleeping_threads := [0x8], threads := (threads demo_scheduler)(0x8 \<mapsto> (new_thread 4)\<lparr>sleeping_until := 1000\<rparr>)\<rparr>"
  have "default_search 0x8 0x10 \<le> 0"
    by code_simp
  moreover have "runnable ?s 0x20"
    by (simp add: runnable_def demo_scheduler_def new_thread_def new_object_def)
  ultimately show ?thesis
    using overdue_sleeper_not_woken [of "0x8" "0x10" "0x20" ?s "(new_thread 4)\<lparr>sleeping_until := 1000\<rparr>" "new_thread 1" "[0x30]" 5 0 10]
    by (auto simp: demo_scheduler_def blank_kernel_def)
qed

text \<open>Waiting for signals reports the mask that was asked for instead of the signals that are set, when
  one of them is set; when none is and the timeout is zero it times out but leaves the object locked,
  so that the next wait on the object never returns.\<close>

theorem sys_object_wait_poll:
  assumes cur: "current_process s = Ret process" and ok: "handles_ok s process n" and p: "procs s process = Some p"
    and lock: "\<not> handle_table_lock p"
    and h: "h \<in> set (handle_table p)" "handles s h = Some hh"
    and x: "objs s (h_object hh) = Some x" "\<not> ob_lock x" and out: "arch_validate_user_pointer out"
  shows "if signals x AND target \<noteq> 0
    then sys_object_wait depth pml4 leave garbage (handle_id hh) target timeout out s = Ret (Some IR_OK, put_word out target s)
    else \<exists>s'. sys_object_wait depth pml4 leave garbage (handle_id hh) target 0 out s = Ret (Some IR_ERROR_TIMED_OUT, s') \<and>
      memory s' = write_word out (signals x) (memory s) \<and>
      sys_object_wait depth pml4 leave garbage (handle_id hh) target' timeout out s' = Hang"
proof -
  note table = locked_table [OF ok p lock]
  have id: "id_of s h = handle_id hh"
    using h(2) by (simp add: id_of_def)
  have idem: "x\<lparr>ob_lock := False\<rparr> = x"
    using x(2) by (rule unlocked_object)
  show ?thesis
  proof (cases "signals x AND target \<noteq> 0")
    case True
    then show ?thesis
      using cur table(1) table(4) [OF h(1)] id h x out p
      by (simp add: sys_object_wait_def unlocked_process [OF lock] idem fun_upd_idem put_word_def Let_def)
  next
    case False
    define s' where "s' = put_word out (signals x) (s\<lparr>objs := (objs s)(h_object hh \<mapsto> x\<lparr>ob_lock := True\<rparr>)\<rparr>)"
    have poll: "sys_object_wait depth pml4 leave garbage (handle_id hh) target 0 out s = Ret (Some IR_ERROR_TIMED_OUT, s')"
      using False cur table(1) table(4) [OF h(1)] id h x out p
      by (simp add: sys_object_wait_def unlocked_process [OF lock] fun_upd_idem Let_def s'_def)
    obtain th where th: "objs s (current_thread s) = Some th" "ob_parent th = process"
      using cur by (auto simp: current_process_def outcome_simps)
    have cur': "current_process s' = Ret process"
      using th x(1) by (cases "current_thread s = h_object hh") (simp_all add: current_process_def s'_def)
    have p': "procs s' process = Some p" "handles s' h = Some hh" "objs s' (h_object hh) = Some (x\<lparr>ob_lock := True\<rparr>)"
      using p h(2) by (simp_all add: s'_def)
    have ok': "handles_ok s' process n"
      by (rule handles_ok_cong [OF ok p p'(1)]) (simp_all add: s'_def)
    note table' = locked_table [OF ok' p'(1) lock]
    have "id_of s' h = handle_id hh"
      using p'(2) by (simp add: id_of_def)
    then have "sys_object_wait depth pml4 leave garbage (handle_id hh) target' timeout out s' = Hang"
      using cur' table'(1) table'(4) [OF h(1)] p' out
      by (simp add: sys_object_wait_def Let_def)
    then show ?thesis
      using False poll by (auto simp: s'_def)
  qed
qed

theorem sys_object_wait_poll_witness:
  "\<exists>s'. sys_object_wait 5 0 0 0 1 CHANNEL_SIGNAL_PEER_DISCONNECTED 0 0x5000 demo_channels = Ret (Some IR_ERROR_TIMED_OUT, s') \<and>
     sys_object_wait 5 0 0 0 1 CHANNEL_SIGNAL_PEER_DISCONNECTED 100 0x5000 s' = Hang"
proof -
  have "signals demo_end = 0"
    by (simp add: demo_end_def)
  then show ?thesis
    using sys_object_wait_poll [OF demo_channels_sel(1) demo_channels_ok demo_channels_sel(2-5), of demo_end "0x5000"
        CHANNEL_SIGNAL_PEER_DISCONNECTED 5 0 0 0 100 CHANNEL_SIGNAL_PEER_DISCONNECTED] demo_channels_sel(9) demo_user_pointers(1)
    by auto
qed

end
