(* ===== verification/Device.thy ===== *)
theory Device
  imports Scheduler
begin

text \<open>
  Interrupt objects (\<^verbatim>\<open>kernel/interrupt.c\<close>) and ranges of I/O ports (\<^verbatim>\<open>kernel/ioport.c\<close>). Routing an interrupt
  line and writing a port are recorded in the order they happen; what a port reads is an argument.
\<close>

section \<open>Interrupts\<close>

text \<open>An entry of the interrupt table; an index outside it is a fault.\<close>

definition interrupt_slot :: "u32 \<Rightarrow> kernel \<Rightarrow> nat outcome" where
  "interrupt_slot vector s =
     (if sint vector < 0 \<or> sint vector \<ge> int (length (interrupt_table s)) then Fault else Ret (nat (sint vector)))"

definition interrupt_dispatch :: "u32 \<Rightarrow> kernel \<Rightarrow> kernel outcome" where
  "interrupt_dispatch number s =
     obind (interrupt_slot number s) (\<lambda>i.
     let interrupt = interrupt_table s ! i in
     if interrupt = NULL then Ret s else
     obind (load (ints s) interrupt) (\<lambda>x.
     if armed x then
       if int_thread x = NULL
       then upd_int interrupt (\<lambda>x. x\<lparr>int_queue := int_queue x @ [microseconds_since_boot s]\<rparr>) s
       else
         obind (upd_int interrupt (\<lambda>x. x\<lparr>int_thread := NULL, armed := False\<rparr>) s) (\<lambda>s.
         schedule_thread (int_thread x) s)
     else Ret s))"

text \<open>The vector and the line are not stored in the object.\<close>

definition interrupt_create :: "u32 \<Rightarrow> u32 \<Rightarrow> kernel \<Rightarrow> (ir_status \<times> ptr \<times> kernel) outcome" where
  "interrupt_create vector irq s =
     obind (interrupt_slot vector s) (\<lambda>i.
     if interrupt_table s ! i \<noteq> NULL then Ret (IR_ERROR_ALREADY_EXISTS, NULL, s) else
     let (obj, s) = malloc s in
     if obj = NULL then Fault else
     Ret (IR_OK, obj,
          s\<lparr>interrupt_table := (interrupt_table s)[i := obj],
            objs := (objs s)(obj \<mapsto> new_object OBJECT_TYPE_INTERRUPT NULL),
            ints := (ints s)(obj \<mapsto> \<lparr>int_thread = NULL, int_queue = [], int_vector = 0, irq_line = 0, armed = False\<rparr>),
            irq_calls := irq_calls s @ [(irq, Some vector)]\<rparr>))"

definition interrupt_reserve :: "u32 \<Rightarrow> kernel \<Rightarrow> (ir_status \<times> kernel) outcome" where
  "interrupt_reserve vector s =
     obind (interrupt_slot vector s) (\<lambda>i.
     if interrupt_table s ! i \<noteq> NULL then Ret (IR_ERROR_ALREADY_EXISTS, s)
     else Ret (IR_OK, s\<lparr>interrupt_table := (interrupt_table s)[i := 0xDEADBEAF]\<rparr>))"

definition interrupt_wait :: "nat \<Rightarrow> ptr \<Rightarrow> u64 \<Rightarrow> ptr \<Rightarrow> kernel \<Rightarrow> (ir_status option \<times> kernel) outcome" where
  "interrupt_wait depth kernel_pml4 leave_function interrupt s =
     obind (load (ints s) interrupt) (\<lambda>x.
     case int_queue x of
       timestamp # rest \<Rightarrow> obind (upd_int interrupt (\<lambda>x. x\<lparr>int_queue := rest\<rparr>) s) (\<lambda>s. Ret (Some IR_OK, s))
     | [] \<Rightarrow>
         obind (upd_int interrupt (\<lambda>x. x\<lparr>int_thread := current_thread s, armed := True\<rparr>) s) (\<lambda>s.
         obind (save_current_context leave_function s) (\<lambda>s.
         after_switch (switch_task depth kernel_pml4 False s))))"

text \<open>The handle is inserted by a comparison that takes the address of the handle for an id.\<close>

definition sys_interrupt_create :: "u64 \<Rightarrow> u64 \<Rightarrow> ptr \<Rightarrow> kernel \<Rightarrow> (ir_status \<times> kernel) outcome" where
  "sys_interrupt_create vector irq out s =
     obind (current_process s) (\<lambda>process.
     obind (interrupt_create (ucast vector) (ucast irq) s) (\<lambda>(status, interrupt, s).
     if status \<noteq> IR_OK then Ret (status, s) else
     obind (handle_create process interrupt IR_RIGHT_ALL s) (\<lambda>(_, h, s).
     obind (load (procs s) process) (\<lambda>p.
     obind (list_add_sorted (\<lambda>d. handle_by_id s d h) h (handle_table p)) (\<lambda>t.
     obind (upd_proc process (\<lambda>p. p\<lparr>handle_table := t\<rparr>) s) (\<lambda>s.
     obind (load (handles s) h) (\<lambda>hh.
     Ret (IR_OK, put_word out (handle_id hh) s))))))))"

text \<open>
  The lookup the next three calls share. The handle is used before the status is tested: an id
  without a handle leaves the pointer uninitialised.
\<close>

definition find_interrupt :: "u64 \<Rightarrow> kernel \<Rightarrow> ((ir_status + ptr) \<times> kernel) outcome" where
  "find_interrupt interrupt_handle s =
     obind (current_process s) (\<lambda>process.
     obind (lock_handle_table process s) (\<lambda>s.
     obind (find_handle process interrupt_handle s) (\<lambda>found.
     case found of
       None \<Rightarrow> Fault
     | Some h \<Rightarrow>
         obind (load (handles s) h) (\<lambda>hh.
         obind (unlock_handle_table process s) (\<lambda>s.
         obind (load (objs s) (h_object hh)) (\<lambda>x.
         if ob_type x \<noteq> OBJECT_TYPE_INTERRUPT then Ret (Inl IR_ERROR_WRONG_TYPE, s)
         else Ret (Inr (h_object hh), s)))))))"

definition sys_interrupt_wait :: "nat \<Rightarrow> ptr \<Rightarrow> u64 \<Rightarrow> u64 \<Rightarrow> kernel \<Rightarrow> (ir_status option \<times> kernel) outcome" where
  "sys_interrupt_wait depth kernel_pml4 leave_function interrupt_handle s =
     obind (find_interrupt interrupt_handle s) (\<lambda>(r, s).
     case r of
       Inl status \<Rightarrow> Ret (Some status, s)
     | Inr interrupt \<Rightarrow>
         obind (upd_int interrupt (\<lambda>x. x\<lparr>armed := True\<rparr>) s) (\<lambda>s.
         interrupt_wait depth kernel_pml4 leave_function interrupt s))"

definition sys_interrupt_arm :: "u64 \<Rightarrow> kernel \<Rightarrow> (ir_status \<times> kernel) outcome" where
  "sys_interrupt_arm interrupt_handle s =
     obind (find_interrupt interrupt_handle s) (\<lambda>(r, s).
     case r of
       Inl status \<Rightarrow> Ret (status, s)
     | Inr interrupt \<Rightarrow> obind (upd_int interrupt (\<lambda>x. x\<lparr>armed := True\<rparr>) s) (\<lambda>s. Ret (IR_OK, s)))"

definition sys_interrupt_disarm :: "u64 \<Rightarrow> kernel \<Rightarrow> (ir_status \<times> kernel) outcome" where
  "sys_interrupt_disarm interrupt_handle s =
     obind (find_interrupt interrupt_handle s) (\<lambda>(r, s).
     case r of
       Inl status \<Rightarrow> Ret (status, s)
     | Inr interrupt \<Rightarrow> obind (upd_int interrupt (\<lambda>x. x\<lparr>armed := False\<rparr>) s) (\<lambda>s. Ret (IR_OK, s)))"

section \<open>Ports\<close>

definition SIZE_BYTE :: u64 where "SIZE_BYTE = 0"
definition SIZE_WORD :: u64 where "SIZE_WORD = 1"
definition SIZE_LONG :: u64 where "SIZE_LONG = 2"
definition SIZE_QUAD :: u64 where "SIZE_QUAD = 3"

text \<open>The test of the code for an overlap with an existing range.\<close>

definition port_conflict :: "u32 \<Rightarrow> u64 \<Rightarrow> ioport \<Rightarrow> bool" where
  "port_conflict vector cnt r \<longleftrightarrow>
     ucast vector + cnt - 1 \<ge> ucast (base_port r) \<and> ucast (base_port r) + range_length r - 1 \<le> ucast vector"

fun any_conflict :: "kernel \<Rightarrow> u32 \<Rightarrow> u64 \<Rightarrow> ptr list \<Rightarrow> bool outcome" where
  "any_conflict s vector cnt [] = Ret False"
| "any_conflict s vector cnt (r # rs) =
     obind (load (ports s) r) (\<lambda>x. if port_conflict vector cnt x then Ret True else any_conflict s vector cnt rs)"

text \<open>The comparison that keeps the list sorted is given the address of the new range for a port.\<close>

definition ioport_create :: "u32 \<Rightarrow> u64 \<Rightarrow> kernel \<Rightarrow> (ir_status \<times> ptr \<times> kernel) outcome" where
  "ioport_create vector cnt s =
     obind (spinlock_aquire (io_space_lock s)) (\<lambda>l.
     let s = s\<lparr>io_space_lock := l\<rparr> in
     obind (any_conflict s vector cnt (allocated_ranges s)) (\<lambda>conflict.
     if conflict then Ret (IR_ERROR_ALREADY_EXISTS, NULL, s\<lparr>io_space_lock := spinlock_release (io_space_lock s)\<rparr>) else
     let (a, s) = malloc s in
     if a = NULL then Fault else
     let s = s\<lparr>objs := (objs s)(a \<mapsto> new_object OBJECT_TYPE_IOPORT NULL),
               ports := (ports s)(a \<mapsto> \<lparr>base_port = vector, range_length = cnt\<rparr>)\<rparr> in
     obind (list_add_sorted (\<lambda>d. range_by_base s d a) a (allocated_ranges s)) (\<lambda>rs.
     Ret (IR_OK, a, s\<lparr>allocated_ranges := rs, io_space_lock := spinlock_release (io_space_lock s)\<rparr>))))"

definition sys_ioport_create :: "u64 \<Rightarrow> u64 \<Rightarrow> ptr \<Rightarrow> kernel \<Rightarrow> (ir_status \<times> kernel) outcome" where
  "sys_ioport_create vector cnt out s =
     obind (ioport_create (ucast vector) cnt s) (\<lambda>(status, a, s).
     if status \<noteq> IR_OK then Ret (status, s) else
     obind (current_process s) (\<lambda>process.
     publish_handle process a (IR_RIGHT_INFO OR IR_RIGHT_TRANSFER OR IR_RIGHT_DUPLICATE) out s))"

text \<open>Port number, value and size of a write; other sizes write nothing.\<close>

definition arch_io_output :: "u32 \<Rightarrow> u64 \<Rightarrow> u32 \<Rightarrow> kernel \<Rightarrow> kernel" where
  "arch_io_output port value word_size s =
     (if ucast word_size = SIZE_BYTE then s\<lparr>port_writes := port_writes s @ [(take_bit 16 port, take_bit 8 value, SIZE_BYTE)]\<rparr>
      else if ucast word_size = SIZE_WORD then s\<lparr>port_writes := port_writes s @ [(take_bit 16 port, take_bit 16 value, SIZE_WORD)]\<rparr>
      else if ucast word_size = SIZE_LONG then s\<lparr>port_writes := port_writes s @ [(take_bit 16 port, take_bit 32 value, SIZE_LONG)]\<rparr>
      else s)"

text \<open>\<open>port_input\<close> is the register after the input instruction, for a port and a size.\<close>

definition arch_io_input :: "(u32 \<Rightarrow> u64 \<Rightarrow> u64) \<Rightarrow> u32 \<Rightarrow> u32 \<Rightarrow> u64" where
  "arch_io_input port_input port word_size =
     (if ucast word_size \<in> {SIZE_BYTE, SIZE_WORD, SIZE_LONG} then port_input (take_bit 16 port) (ucast word_size) else 0)"

definition sys_ioport_send :: "u64 \<Rightarrow> u64 \<Rightarrow> u64 \<Rightarrow> u64 \<Rightarrow> kernel \<Rightarrow> (ir_status \<times> kernel) outcome" where
  "sys_ioport_send ioport offset value word_size s =
     obind (current_process s) (\<lambda>process.
     obind (lock_handle_table process s) (\<lambda>s.
     obind (find_handle process ioport s) (\<lambda>found.
     case found of
       None \<Rightarrow> Ret (IR_ERROR_NOT_FOUND, s)
     | Some h \<Rightarrow>
         obind (load (handles s) h) (\<lambda>hh.
         obind (load (ports s) (h_object hh)) (\<lambda>r.
         if offset \<ge> range_length r then obind (unlock_handle_table process s) (\<lambda>s. Ret (IR_ERROR_ACCESS_DENIED, s)) else
         obind (unlock_handle_table process (arch_io_output (ucast (ucast (base_port r) + offset)) value (ucast word_size) s)) (\<lambda>s.
         Ret (IR_OK, s)))))))"

definition sys_ioport_receive ::
  "(u32 \<Rightarrow> u64 \<Rightarrow> u64) \<Rightarrow> u64 \<Rightarrow> u64 \<Rightarrow> u64 \<Rightarrow> ptr \<Rightarrow> kernel \<Rightarrow> (ir_status \<times> kernel) outcome" where
  "sys_ioport_receive port_input ioport offset word_size out s =
     (if \<not> arch_validate_user_pointer out \<or> sint word_size > sint SIZE_QUAD \<or> sint word_size < sint SIZE_BYTE
      then Ret (IR_ERROR_INVALID_ARGUMENTS, s) else
      obind (current_process s) (\<lambda>process.
      obind (lock_handle_table process s) (\<lambda>s.
      obind (find_handle process ioport s) (\<lambda>found.
      case found of
        None \<Rightarrow> Ret (IR_ERROR_NOT_FOUND, s)
      | Some h \<Rightarrow>
          obind (load (handles s) h) (\<lambda>hh.
          obind (load (ports s) (h_object hh)) (\<lambda>r.
          obind (unlock_handle_table process s) (\<lambda>s.
          if offset \<ge> range_length r then Ret (IR_ERROR_ACCESS_DENIED, s) else
          Ret (IR_OK, put_word out
                 (arch_io_input port_input (ucast (ucast (base_port r) + offset)) (ucast word_size)) s))))))))"

section \<open>Properties\<close>

text \<open>C24: What an interrupt does to its object: nothing unless it is armed; when a thread waits, the thread
  is made ready and the interrupt is disarmed; when none waits, the interrupt is kept, and a later
  wait takes the oldest one kept and returns without blocking.\<close>

theorem interrupt_dispatch_wait:
  assumes slot: "interrupt_slot n s = Ret i" "interrupt_table s ! i = p" "p \<noteq> NULL" "ints s p = Some x"
  shows "(\<not> armed x \<longrightarrow> interrupt_dispatch n s = Ret s) \<and>
    (armed x \<longrightarrow> int_thread x = NULL \<longrightarrow>
      (\<exists>s1 s2 t q. interrupt_dispatch n s = Ret s1 \<and> int_queue x @ [microseconds_since_boot s] = t # q \<and>
        interrupt_wait depth kernel_pml4 leave p s1 = Ret (Some IR_OK, s2) \<and>
        ints s2 = (ints s)(p \<mapsto> x\<lparr>int_queue := q\<rparr>) \<and> run_queue s2 = run_queue s)) \<and>
    (armed x \<longrightarrow> int_thread x \<noteq> NULL \<longrightarrow>
      (\<forall>th. threads s (int_thread x) = Some th \<longrightarrow> th_state th \<noteq> TERMINATED \<longrightarrow>
        (\<exists>s1. interrupt_dispatch n s = Ret s1 \<and> run_queue s1 = run_queue s @ [int_thread x] \<and>
          ints s1 = (ints s)(p \<mapsto> x\<lparr>int_thread := NULL, armed := False\<rparr>) \<and> interrupt_dispatch n s1 = Ret s1)))"
proof (intro conjI impI allI)
  assume "\<not> armed x"
  then show "interrupt_dispatch n s = Ret s"
    using slot by (simp add: interrupt_dispatch_def Let_def)
next
  assume a: "armed x" "int_thread x = NULL"
  obtain t q where q: "int_queue x @ [microseconds_since_boot s] = t # q"
    by (cases "int_queue x @ [microseconds_since_boot s]") auto
  have "interrupt_dispatch n s = Ret (s\<lparr>ints := (ints s)(p \<mapsto> x\<lparr>int_queue := t # q\<rparr>)\<rparr>)"
    using slot a q by (simp add: interrupt_dispatch_def Let_def)
  then show "\<exists>s1 s2 t q. interrupt_dispatch n s = Ret s1 \<and> int_queue x @ [microseconds_since_boot s] = t # q \<and>
        interrupt_wait depth kernel_pml4 leave p s1 = Ret (Some IR_OK, s2) \<and>
        ints s2 = (ints s)(p \<mapsto> x\<lparr>int_queue := q\<rparr>) \<and> run_queue s2 = run_queue s"
    using q by (simp add: interrupt_wait_def)
next
  fix th
  assume a: "armed x" "int_thread x \<noteq> NULL" and th: "threads s (int_thread x) = Some th" "th_state th \<noteq> TERMINATED"
  define s1 where "s1 = s\<lparr>ints := (ints s)(p \<mapsto> x\<lparr>int_thread := NULL, armed := False\<rparr>), run_queue := run_queue s @ [int_thread x]\<rparr>"
  have "interrupt_dispatch n s = Ret s1"
    using slot a th by (simp add: interrupt_dispatch_def schedule_thread_def s1_def)
  moreover have "interrupt_dispatch n s1 = Ret s1"
    using slot by (auto simp: interrupt_dispatch_def interrupt_slot_def s1_def Let_def split: if_splits)
  ultimately show "\<exists>s1. interrupt_dispatch n s = Ret s1 \<and> run_queue s1 = run_queue s @ [int_thread x] \<and>
          ints s1 = (ints s)(p \<mapsto> x\<lparr>int_thread := NULL, armed := False\<rparr>) \<and> interrupt_dispatch n s1 = Ret s1"
    by (simp add: s1_def)
qed

definition demo_interrupts :: kernel where
  "demo_interrupts = blank_kernel\<lparr>interrupt_table := [NULL, 0x40, NULL], microseconds_since_boot := 7, heap := [0x80],
     ints := [0x40 \<mapsto> \<lparr>int_thread = NULL, int_queue = [], int_vector = 1, irq_line = 4, armed = True\<rparr>]\<rparr>"

theorem interrupt_dispatch_wait_witness:
  "\<exists>s1 s2. interrupt_dispatch 1 demo_interrupts = Ret s1 \<and> interrupt_wait 5 0 0 0x40 s1 = Ret (Some IR_OK, s2) \<and>
     run_queue s2 = []"
  using interrupt_dispatch_wait [of 1 demo_interrupts 1 "0x40"
      "\<lparr>int_thread = NULL, int_queue = [], int_vector = 1, irq_line = 4, armed = True\<rparr>" 5 0 0]
  by (auto simp: demo_interrupts_def interrupt_slot_def blank_kernel_def)

text \<open>An interrupt object does not record its vector, so destroying it clears entry 0 of the table
  instead of its own: the entry keeps a pointer to the freed object, the vector can never be registered
  again, and the next interrupt on it uses the freed object.\<close>

theorem interrupt_cleanup_dangling:
  assumes create: "interrupt_create vector irq s = Ret (IR_OK, p, s1)" and "sint vector \<noteq> 0"
  shows "\<exists>s2. interrupt_cleanup p s1 = Ret s2 \<and> interrupt_table s2 ! nat (sint vector) = p \<and> ints s2 p = None \<and>
    interrupt_dispatch vector s2 = Fault \<and> interrupt_create vector irq2 s2 = Ret (IR_ERROR_ALREADY_EXISTS, NULL, s2)"
proof -
  obtain i where i: "interrupt_slot vector s = Ret i"
    using create by (auto simp: interrupt_create_def outcome_simps)
  then have bounds: "0 \<le> sint vector" "i = nat (sint vector)" "i < length (interrupt_table s)"
    by (auto simp: interrupt_slot_def split: if_splits)
  then have "0 < i" "0 < length (interrupt_table s)"
    using assms(2) by linarith+
  moreover have "p \<noteq> NULL" "interrupt_table s1 = (interrupt_table s)[i := p]"
      "ints s1 p = Some \<lparr>int_thread = NULL, int_queue = [], int_vector = 0, irq_line = 0, armed = False\<rparr>"
    using create i by (auto simp: interrupt_create_def malloc_def Let_def split: if_splits prod.splits list.splits)
  ultimately show ?thesis
    using bounds by (simp add: interrupt_cleanup_def free_object_def interrupt_dispatch_def interrupt_create_def
        interrupt_slot_def)
qed

theorem interrupt_cleanup_dangling_witness:
  "\<exists>s1 s2. interrupt_create 2 9 demo_interrupts = Ret (IR_OK, 0x80, s1) \<and> interrupt_cleanup 0x80 s1 = Ret s2 \<and>
     interrupt_dispatch 2 s2 = Fault"
proof -
  obtain s1 where "interrupt_create 2 9 demo_interrupts = Ret (IR_OK, 0x80, s1)"
    by (simp add: interrupt_create_def interrupt_slot_def demo_interrupts_def malloc_def)
  then show ?thesis
    using interrupt_cleanup_dangling [of 2 9 demo_interrupts "0x80" s1] by auto
qed

lemma last_port:
  assumes "0 < unat l" "unat (b :: u32) + unat l < 2 ^ 64"
  shows "unat (ucast b + l - 1 :: u64) = unat b + unat l - 1"
proof -
  have sum: "unat (ucast b + l :: u64) = unat b + unat l"
    using assms(2) by (simp add: unat_word_ariths)
  then have "(ucast b + l :: u64) \<noteq> 0"
    using assms(1) by (metis add_is_0 less_numeral_extra(3) unsigned_0)
  then show ?thesis
    using sum by (simp add: unat_minus_one)
qed

text \<open>The test for overlapping port ranges is the wrong way round: for ranges that do not wrap around,
  a range that shares a port with an existing one of at least two ports is accepted when it starts
  before the last port of that one, and a range that starts above an existing one is refused.\<close>

theorem ioport_create_overlap:
  assumes s: "allocated_ranges s = [r]" "ports s r = Some \<lparr>base_port = b, range_length = l\<rparr>" "\<not> io_space_lock s"
    and size: "0 < unat l" "unat b + unat l < 2 ^ 64" "0 < unat n" "unat v + unat n < 2 ^ 64"
    and heap: "heap s = a # hs" "a \<noteq> NULL" "a \<noteq> r"
  shows "(unat v + 1 < unat b + unat l \<longrightarrow> (\<exists>s'. ioport_create v n s = Ret (IR_OK, a, s'))) \<and>
    (unat b + unat l \<le> unat v \<longrightarrow> (\<exists>s'. ioport_create v n s = Ret (IR_ERROR_ALREADY_EXISTS, NULL, s')))"
proof -
  have "unat (ucast v + n - 1 :: u64) = unat v + unat n - 1" "unat (ucast b + l - 1 :: u64) = unat b + unat l - 1"
    using size by (simp_all only: last_port)
  then have "port_conflict v n \<lparr>base_port = b, range_length = l\<rparr> \<longleftrightarrow> unat b < unat v + unat n \<and> unat b + unat l \<le> unat v + 1"
    using size by (auto simp: port_conflict_def word_le_nat_alt)
  then show ?thesis
    using s heap size by (auto simp: ioport_create_def malloc_def range_by_base_def)
qed

theorem ioport_create_overlap_witness:
  "\<exists>s'. ioport_create 0x60 5 (blank_kernel\<lparr>heap := [0x80], allocated_ranges := [0x40],
      ports := [0x40 \<mapsto> \<lparr>base_port = 0x60, range_length = 5\<rparr>]\<rparr>) = Ret (IR_OK, 0x80, s')"
  using ioport_create_overlap [of "blank_kernel\<lparr>heap := [0x80], allocated_ranges := [0x40],
      ports := [0x40 \<mapsto> \<lparr>base_port = 0x60, range_length = 5\<rparr>]\<rparr>" "0x40" "0x60" 5 5 "0x60" "0x80" "[]"]
  by (simp add: blank_kernel_def)

text \<open>Sending to a port range through an id without a handle reports an error but leaves the handle
  table of the process locked: every later lookup of a handle by the process spins for ever.\<close>

theorem ioport_bad_handle_deadlock:
  assumes cur: "current_process s = Ret process" and ok: "handles_ok s process n" and p: "procs s process = Some p"
    and lock: "\<not> handle_table_lock p" and none: "\<forall>h \<in> set (handle_table p). (ucast (id_of s h) :: u32) \<noteq> ucast i"
  shows "\<exists>s'. sys_ioport_send i offset value word_size s = Ret (IR_ERROR_NOT_FOUND, s') \<and>
    sys_handle_close depth j s' = Hang \<and> sys_ioport_send j offset' value' word_size' s' = Hang"
proof -
  note table = locked_table [OF ok p lock]
  let ?s = "s\<lparr>procs := (procs s)(process \<mapsto> p\<lparr>handle_table_lock := True\<rparr>)\<rparr>"
  have "sys_ioport_send i offset value word_size s = Ret (IR_ERROR_NOT_FOUND, ?s)"
    using cur table(1) table(6) none by (simp add: sys_ioport_send_def)
  moreover have "current_process ?s = Ret process"
    using cur by (simp add: current_process_def)
  ultimately show ?thesis
    by (simp add: sys_handle_close_def sys_ioport_send_def)
qed

theorem ioport_bad_handle_deadlock_witness:
  "\<exists>s'. sys_ioport_send 9 0 1 0 demo_channels = Ret (IR_ERROR_NOT_FOUND, s') \<and> sys_handle_close 5 1 s' = Hang"
proof -
  have "\<forall>h \<in> set (handle_table demo_process). (ucast (id_of demo_channels h) :: u32) \<noteq> ucast (9 :: u64)"
    by (simp add: demo_process_def id_of_def demo_channels_def)
  then show ?thesis
    using ioport_bad_handle_deadlock [OF demo_channels_sel(1) demo_channels_ok demo_channels_sel(2,3), of 9 0 1 0 5 1] by blast
qed

end
