(* ===== verification/Syscall.thy ===== *)
theory Syscall
  imports Device
begin

text \<open>
  The dispatch of system calls (\<^verbatim>\<open>kernel/syscall.c\<close>) over the table of \<^verbatim>\<open>public/iridium/syscalls.h\<close>, with the
  two calls that only report (\<^verbatim>\<open>sys_handle_dump\<close>, \<^verbatim>\<open>sys_framebuffer_get\<close>). What the calls take from
  their surroundings is a record of parameters. Of the debugging call that prints a string only the
  result is modelled.
\<close>

section \<open>Calls that only report\<close>

text \<open>Printing a handle reads it and the type of its object.\<close>

definition sys_handle_dump :: "kernel \<Rightarrow> (ir_status \<times> kernel) outcome" where
  "sys_handle_dump s =
     obind (current_process s) (\<lambda>process.
     obind (lock_handle_table process s) (\<lambda>s.
     obind (load (procs s) process) (\<lambda>p.
     obind (ofold (\<lambda>h s. obind (load (handles s) h) (\<lambda>hh. obind (load (objs s) (h_object hh)) (\<lambda>_. Ret s)))
              (handle_table p) s) (\<lambda>s.
     obind (unlock_handle_table process s) (\<lambda>s. Ret (IR_OK, s))))))"

record framebuffer_info =
  framebuffer_vm_object :: ptr
  fb_width :: u32
  fb_height :: u32
  fb_pitch :: u32
  fb_bits_per_pixel :: u32

definition put_int :: "ptr \<Rightarrow> u32 \<Rightarrow> kernel \<Rightarrow> kernel" where
  "put_int a w s = s\<lparr>memory := (\<lambda>x. if unat (x - a) < 4 then ucast (drop_bit (8 * unat (x - a)) w) else memory s x)\<rparr>"

definition sys_framebuffer_get ::
  "framebuffer_info \<Rightarrow> ptr \<Rightarrow> ptr \<Rightarrow> ptr \<Rightarrow> ptr \<Rightarrow> ptr \<Rightarrow> kernel \<Rightarrow> (ir_status \<times> kernel) outcome" where
  "sys_framebuffer_get fb framebuffer width height pitch bpp s =
     (if \<not> (\<forall>p \<in> set [framebuffer, width, height, pitch, bpp]. arch_validate_user_pointer p)
      then Ret (IR_ERROR_INVALID_ARGUMENTS, s)
      else if framebuffer_vm_object fb = NULL then Ret (IR_ERROR_NOT_FOUND, s) else
      obind (current_process s) (\<lambda>process.
      obind (publish_handle process (framebuffer_vm_object fb) (IR_RIGHT_MAP OR IR_RIGHT_WRITE OR IR_RIGHT_READ) framebuffer s)
        (\<lambda>(status, s).
      Ret (IR_OK, put_int bpp (fb_bits_per_pixel fb) (put_int pitch (fb_pitch fb)
             (put_int height (fb_height fb) (put_int width (fb_width fb) s)))))))"

section \<open>Dispatch\<close>

record environment =
  env_depth :: nat
  env_pml4 :: ptr
  env_leave :: u64
  env_stack :: ptr
  env_garbage :: u64
  env_input :: "u32 \<Rightarrow> u64 \<Rightarrow> u64"
  env_framebuffer :: framebuffer_info

definition returning :: "(ir_status \<times> kernel) outcome \<Rightarrow> (ir_status option \<times> kernel) outcome" where
  "returning r = obind r (\<lambda>(status, s). Ret (Some status, s))"

text \<open>The table: \<^term>\<open>None\<close> is an empty entry, below \<open>syscall_count\<close>.\<close>

definition syscall_count :: nat where
  "syscall_count = 32"

definition syscall_table ::
  "environment \<Rightarrow> nat \<Rightarrow> (u64 \<Rightarrow> u64 \<Rightarrow> u64 \<Rightarrow> u64 \<Rightarrow> u64 \<Rightarrow> kernel \<Rightarrow> (ir_status option \<times> kernel) outcome) option" where
  "syscall_table e n =
     (let d = env_depth e; k = env_pml4 e; lf = env_leave e in
      if n = 1 then Some (\<lambda>a b c _ _ s. returning (sys_handle_duplicate (env_stack e) a b c s))
      else if n = 2 then Some (\<lambda>a b c _ _ s. returning (sys_handle_replace (env_stack e) a b c s))
      else if n = 3 then Some (\<lambda>a _ _ _ _ s. returning (sys_handle_close d a s))
      else if n = 4 then Some (\<lambda>_ _ _ _ _ s. Ret (Some IR_OK, s))
      else if n = 5 then Some (\<lambda>a _ _ _ _ s. returning (sys_process_exit d a s))
      else if n = 6 then Some (\<lambda>a _ _ _ _ s. returning (sys_thread_exit a s))
      else if n = 7 then Some (\<lambda>a b c _ _ s. returning (sys_process_create k a b c s))
      else if n = 8 then Some (\<lambda>a b _ _ _ s. returning (sys_thread_create d a b s))
      else if n = 11 then Some (\<lambda>a b c f _ s. returning (sys_thread_start a b c f s))
      else if n = 12 then Some (\<lambda>a b c f g s. returning (sys_v_addr_region_create a b c f g s))
      else if n = 13 then Some (\<lambda>a b c f g s. returning (sys_v_addr_region_map d a b c f g s))
      else if n = 14 then Some (\<lambda>a _ _ _ _ s. returning (sys_v_addr_region_destroy d a s))
      else if n = 15 then Some (\<lambda>a b c _ _ s. returning (sys_vm_object_create a b c s))
      else if n = 16 then Some (\<lambda>a b c _ _ s. returning (sys_vm_object_create_physical a b c s))
      else if n = 17 then Some (\<lambda>a b c f g s. returning (sys_framebuffer_get (env_framebuffer e) a b c f g s))
      else if n = 18 then Some (\<lambda>_ _ _ _ _ s. returning (sys_handle_dump s))
      else if n = 19 then Some (\<lambda>_ _ _ _ _ s. sys_yield d k lf s)
      else if n = 20 then Some (\<lambda>a _ _ _ _ s. sys_sleep_microseconds d k lf a s)
      else if n = 21 then Some (\<lambda>a _ _ _ _ s. returning (sys_time_microseconds a s))
      else if n = 22 then Some (\<lambda>a b c _ _ s. returning (sys_ioport_create a b c s))
      else if n = 23 then Some (\<lambda>a b c f _ s. returning (sys_ioport_send a b c f s))
      else if n = 24 then Some (\<lambda>a b c f _ s. returning (sys_ioport_receive (env_input e) a b c f s))
      else if n = 25 then Some (\<lambda>a b c _ _ s. returning (sys_interrupt_create a b c s))
      else if n = 26 then Some (\<lambda>a _ _ _ _ s. sys_interrupt_wait d k lf a s)
      else if n = 27 then Some (\<lambda>a _ _ _ _ s. returning (sys_interrupt_arm a s))
      else if n = 28 then Some (\<lambda>a b c f _ s. sys_object_wait d k lf (env_garbage e) a b c f s)
      else if n = 29 then Some (\<lambda>a b _ _ _ s. returning (sys_channel_create a b s))
      else if n = 30 then Some (\<lambda>a b c f g s. returning (sys_channel_read a b c f g s))
      else if n = 31 then Some (\<lambda>a b c f g s. returning (sys_channel_write a b c f g s))
      else None)"

text \<open>
  The entry one past the table is reached by the test of the code; reading it is a fault. The end of
  the call when the processor runs another thread is left to when the thread is run again.
\<close>

definition syscall_finish :: "environment \<Rightarrow> ir_status \<Rightarrow> kernel \<Rightarrow> (ir_status option \<times> kernel) outcome" where
  "syscall_finish e result s =
     obind (upd_thread (current_thread s) (\<lambda>t. t\<lparr>in_syscall := False\<rparr>) s) (\<lambda>s.
     obind (load (threads s) (current_thread s)) (\<lambda>t.
     if th_state t = TERMINATING then
       obind (switch_task (env_depth e) (env_pml4 e) True s) (\<lambda>(switched, s). Ret (if switched then None else Some result, s))
     else Ret (Some result, s)))"

definition syscall_handler ::
  "environment \<Rightarrow> u32 \<Rightarrow> u64 \<Rightarrow> u64 \<Rightarrow> u64 \<Rightarrow> u64 \<Rightarrow> u64 \<Rightarrow> kernel \<Rightarrow> (ir_status option \<times> kernel) outcome" where
  "syscall_handler e syscall_num arg0 arg1 arg2 arg3 arg4 s =
     (if unat syscall_num > syscall_count then Ret (Some IR_ERROR_INVALID_ARGUMENTS, s)
      else if unat syscall_num = syscall_count then Fault else
      case syscall_table e (unat syscall_num) of
        None \<Rightarrow> Ret (Some IR_ERROR_INVALID_ARGUMENTS, s)
      | Some f \<Rightarrow>
          obind (upd_thread (current_thread s) (\<lambda>t. t\<lparr>in_syscall := True\<rparr>) s) (\<lambda>s.
          obind (f arg0 arg1 arg2 arg3 arg4 s) (\<lambda>(result, s).
          case result of None \<Rightarrow> Ret (None, s) | Some r \<Rightarrow> syscall_finish e r s)))"

section \<open>Properties\<close>

definition demo_environment :: environment where
  "demo_environment = \<lparr>env_depth = 5, env_pml4 = 0, env_leave = 0, env_stack = 0, env_garbage = 0, env_input = (\<lambda>_ _. 0),
     env_framebuffer = \<lparr>framebuffer_vm_object = 0, fb_width = 0, fb_height = 0, fb_pitch = 0, fb_bits_per_pixel = 0\<rparr>\<rparr>"

text \<open>A number without a system call is refused without any effect, except the one just past the end of
  the table: the bound lets it through, and the handler calls whatever lies behind the table.\<close>

theorem syscall_unknown:
  "(unat n \<in> {0, 9, 10} \<or> 32 < unat n \<longrightarrow> syscall_handler e n a b c d f s = Ret (Some IR_ERROR_INVALID_ARGUMENTS, s)) \<and>
   (unat n = 32 \<longrightarrow> syscall_handler e n a b c d f s = Fault)"
  by (auto simp: syscall_handler_def syscall_count_def syscall_table_def)

theorem syscall_unknown_witness:
  "syscall_handler demo_environment 32 0 0 0 0 0 blank_kernel = Fault \<and>
   syscall_handler demo_environment 9 0 0 0 0 0 blank_kernel = Ret (Some IR_ERROR_INVALID_ARGUMENTS, blank_kernel) \<and>
   syscall_handler demo_environment 33 0 0 0 0 0 blank_kernel = Ret (Some IR_ERROR_INVALID_ARGUMENTS, blank_kernel)"
  using syscall_unknown [of 32 demo_environment 0 0 0 0 0 blank_kernel] syscall_unknown [of 9 demo_environment 0 0 0 0 0 blank_kernel]
    syscall_unknown [of 33 demo_environment 0 0 0 0 0 blank_kernel] by simp

text \<open>A thread that exits gives up the processor at the end of its system call: the next thread runs,
  and the exiting one is queued as terminating with its exit code. When its turn comes it is finished
  and never entered again.\<close>

theorem syscall_thread_exit:
  assumes t: "threads s (current_thread s) = Some t" "current_thread s \<noteq> idle_thread s"
    and due: "waiting_for_signals s = []" "sleeping_threads s = []"
    and q: "run_queue s = n # q" "n \<noteq> current_thread s" "runnable s n"
  shows "\<exists>s' t'. syscall_handler e 6 code a b c d s = Ret (None, s') \<and> current_thread s' = n \<and>
    run_queue s' = q @ [current_thread s] \<and> threads s' (current_thread s) = Some t' \<and> th_state t' = TERMINATING \<and>
    th_exit_code t' = code \<and>
    (\<forall>u rest. run_queue u = current_thread s # rest \<longrightarrow> threads u (current_thread s) = Some t' \<longrightarrow>
       run_next (env_depth e) (env_pml4 e) (current_thread u) resched u =
         (case thread_finish_termination (env_depth e) (current_thread s) (u\<lparr>run_queue := rest\<rparr>) of
            Ret v \<Rightarrow> run_next (env_depth e) (env_pml4 e) (current_thread u) resched v
          | Fault \<Rightarrow> Some Fault | Panic \<Rightarrow> Some Panic | Hang \<Rightarrow> Some Hang))"
proof -
  let ?t = "t\<lparr>th_state := TERMINATING, th_exit_code := code, in_syscall := False\<rparr>"
  define u where "u = s\<lparr>threads := (threads s)(current_thread s \<mapsto> ?t)\<rparr>"
  obtain tn x space where n: "threads s n = Some tn" "th_state tn = ACTIVE" "objs s n = Some x" "spaces s (ob_parent x) = Some space"
    using q(3) by (auto simp: runnable_def)
  define s' where "s' = u\<lparr>run_queue := q @ [current_thread s], current_thread := n, cr3 := physical_map_to_p_addr (table_base space),
    interrupt_stack := kernel_stack_top tn, cpu_context := th_context tn\<rparr>"
  have wake: "wake_listeners u = Some (Ret u)" "wake_sleepers u = Some (Ret u)"
    using due by (simp_all add: u_def wake_listeners.simps wake_sleepers.simps)
  have sw: "switch_task (env_depth e) (env_pml4 e) True u = Ret (True, s')"
    using n q t(2) by (simp add: switch_task_def wake) (simp add: run_next.simps enter_thread_def u_def s'_def Let_def)
  have upd: "t\<lparr>in_syscall := False, th_state := TERMINATING, th_exit_code := code\<rparr> = ?t"
    by (cases t) simp
  have "syscall_handler e 6 code a b c d s = Ret (None, s')"
    using t(1) sw by (simp add: syscall_handler_def syscall_count_def syscall_table_def Let_def returning_def sys_thread_exit_def
        syscall_finish_def upd u_def)
  moreover have "threads s' (current_thread s) = Some ?t"
    by (simp add: s'_def u_def)
  moreover have "run_next (env_depth e) (env_pml4 e) (current_thread u) resched u =
         (case thread_finish_termination (env_depth e) (current_thread s) (u\<lparr>run_queue := rest\<rparr>) of
            Ret v \<Rightarrow> run_next (env_depth e) (env_pml4 e) (current_thread u) resched v
          | Fault \<Rightarrow> Some Fault | Panic \<Rightarrow> Some Panic | Hang \<Rightarrow> Some Hang)"
    if "run_queue u = current_thread s # rest" "threads u (current_thread s) = Some ?t" for u rest
    using that by (subst run_next.simps) simp
  ultimately show ?thesis
    by (intro exI [of _ s'] exI [of _ ?t]) (simp add: s'_def u_def)
qed

theorem syscall_thread_exit_witness:
  "\<exists>s' t'. syscall_handler demo_environment 6 42 0 0 0 0 demo_scheduler = Ret (None, s') \<and> current_thread s' = 0x20 \<and>
     run_queue s' = [0x30, 0x10] \<and> threads s' 0x10 = Some t' \<and> th_state t' = TERMINATING \<and> th_exit_code t' = 42"
proof -
  have "runnable demo_scheduler 0x20"
    by (simp add: runnable_def demo_scheduler_def new_thread_def new_object_def)
  then show ?thesis
    using syscall_thread_exit [of demo_scheduler "new_thread 1" "0x20" "[0x30]" demo_environment 42 0 0 0 0 True]
    by (auto simp: demo_scheduler_def blank_kernel_def)
qed

end
