(* ===== verification/C_String.thy ===== *)
theory C_String
  imports Kernel_State
begin

text \<open>
  The byte and string routines of \<^verbatim>\<open>kernel/string.c\<close> and of the C library (\<^verbatim>\<open>libc/string\<close>,
  \<^verbatim>\<open>libc/strings\<close>, \<^verbatim>\<open>libc/ctype.c\<close>, \<^verbatim>\<open>libc/stdlib\<close>), over a memory of bytes. A loop that only a
  null byte stops is a \<^theory_text>\<open>partial_function\<close>; one with a counter recurses on the counter. The
  library's routines are close copies of the kernel's; where the two differ the library's has a
  definition of its own. The second half relates the kernel's routines to lists of bytes.
\<close>

type_synonym memory = "ptr \<Rightarrow> u8"

section \<open>Strings\<close>

text \<open>The length is counted in an \<^verbatim>\<open>int\<close> that the return converts to \<^verbatim>\<open>size_t\<close>.\<close>

partial_function (option) strlen_loop :: "memory \<Rightarrow> ptr \<Rightarrow> u32 \<Rightarrow> u64 outcome option" where
  "strlen_loop m str len = (if m str \<noteq> 0 then strlen_loop m (str + 1) (len + 1) else Some (Ret (scast len)))"

definition strlen :: "memory \<Rightarrow> ptr \<Rightarrow> u64 outcome" where
  "strlen m str = (if str = NULL then Ret 0 else looped (strlen_loop m str 0))"

definition libc_strlen :: "memory \<Rightarrow> ptr \<Rightarrow> u64 outcome" where
  "libc_strlen m str = looped (strlen_loop m str 0)"

partial_function (option) strcmp_loop :: "memory \<Rightarrow> ptr \<Rightarrow> ptr \<Rightarrow> int outcome option" where
  "strcmp_loop m string1 string2 =
     (if m string1 = m string2 \<and> m string1 \<noteq> 0 then strcmp_loop m (string1 + 1) (string2 + 1)
      else Some (Ret (uint (m string1) - uint (m string2))))"

definition strcmp :: "memory \<Rightarrow> ptr \<Rightarrow> ptr \<Rightarrow> int outcome" where
  "strcmp m str1 str2 = looped (strcmp_loop m str1 str2)"

text \<open>The loop of \<^verbatim>\<open>strncmp\<close>, which leaves the two pointers and what is left of the count.\<close>

fun strncmp_loop :: "memory \<Rightarrow> ptr \<Rightarrow> ptr \<Rightarrow> nat \<Rightarrow> ptr \<times> ptr \<times> nat" where
  "strncmp_loop m s1 s2 0 = (s1, s2, 0)"
| "strncmp_loop m s1 s2 (Suc n) =
     (if m s1 = m s2 \<and> m s1 \<noteq> 0 then strncmp_loop m (s1 + 1) (s2 + 1) n else (s1, s2, Suc n))"

definition strncmp :: "memory \<Rightarrow> ptr \<Rightarrow> ptr \<Rightarrow> u64 \<Rightarrow> int" where
  "strncmp m str1 str2 n = (case strncmp_loop m str1 str2 (unat n) of (s1, s2, k) \<Rightarrow>
     if k = 0 then 0 else uint (m s1) - uint (m s2))"

definition libc_strncmp :: "memory \<Rightarrow> ptr \<Rightarrow> ptr \<Rightarrow> u64 \<Rightarrow> int" where
  "libc_strncmp m str1 str2 n = (case strncmp_loop m str1 str2 (unat n) of (s1, s2, k) \<Rightarrow>
     uint (m s1) - uint (m s2))"

partial_function (option) strchr_loop :: "memory \<Rightarrow> ptr \<Rightarrow> u8 \<Rightarrow> ptr outcome option" where
  "strchr_loop m string c =
     (if m string \<noteq> 0 then if m string = c then Some (Ret string) else strchr_loop m (string + 1) c
      else Some (Ret (if c = 0 then string else NULL)))"

definition strchr :: "memory \<Rightarrow> ptr \<Rightarrow> u32 \<Rightarrow> ptr outcome" where
  "strchr m str c = looped (strchr_loop m str (ucast c))"

section \<open>Blocks of memory\<close>

text \<open>\<^verbatim>\<open>memcpy\<close> reads the byte it copies from the memory that its earlier writes left.\<close>

definition memcpy :: "ptr \<Rightarrow> ptr \<Rightarrow> u64 \<Rightarrow> memory \<Rightarrow> memory" where
  "memcpy dest src n m = fold (\<lambda>i m. m(dest + of_nat i := m (src + of_nat i))) [0..<unat n] m"

fun memset_loop :: "ptr \<Rightarrow> u8 \<Rightarrow> nat \<Rightarrow> memory \<Rightarrow> memory" where
  "memset_loop str c 0 m = m"
| "memset_loop str c (Suc n) m = memset_loop (str + 1) c n (m(str := c))"

definition memset :: "ptr \<Rightarrow> u32 \<Rightarrow> u64 \<Rightarrow> memory \<Rightarrow> memory" where
  "memset p value n m = memset_loop p (ucast value) (unat n) m"

text \<open>\<^verbatim>\<open>memcmp\<close> looks at the two bytes before it looks at the count.\<close>

fun memcmp_loop :: "memory \<Rightarrow> ptr \<Rightarrow> ptr \<Rightarrow> nat \<Rightarrow> ptr \<times> ptr \<times> nat" where
  "memcmp_loop m s1 s2 n =
     (if m s1 = m s2 then case n of 0 \<Rightarrow> (s1, s2, 0) | Suc k \<Rightarrow> memcmp_loop m (s1 + 1) (s2 + 1) k else (s1, s2, n))"

declare memcmp_loop.simps [simp del]

definition memcmp :: "memory \<Rightarrow> ptr \<Rightarrow> ptr \<Rightarrow> u64 \<Rightarrow> int" where
  "memcmp m str1 str2 n = (case memcmp_loop m str1 str2 (unat n) of (s1, s2, k) \<Rightarrow>
     if k = 0 then 0 else uint (m s1) - uint (m s2))"

definition libc_memcmp :: "memory \<Rightarrow> ptr \<Rightarrow> ptr \<Rightarrow> u64 \<Rightarrow> int" where
  "libc_memcmp m str1 str2 n = (case memcmp_loop m str1 str2 (unat n) of (s1, s2, k) \<Rightarrow>
     uint (m s1) - uint (m s2))"

fun memchr_loop :: "memory \<Rightarrow> ptr \<Rightarrow> u8 \<Rightarrow> nat \<Rightarrow> ptr" where
  "memchr_loop m string c 0 = NULL"
| "memchr_loop m string c (Suc n) = (if m string = c then string else memchr_loop m (string + 1) c n)"

definition memchr :: "memory \<Rightarrow> ptr \<Rightarrow> u32 \<Rightarrow> u64 \<Rightarrow> ptr" where
  "memchr m str c n = memchr_loop m str (ucast c) (unat n)"

text \<open>\<^verbatim>\<open>memmove\<close> returns before either of its loops.\<close>

definition libc_memmove :: "ptr \<Rightarrow> ptr \<Rightarrow> u64 \<Rightarrow> memory \<Rightarrow> ptr \<times> memory" where
  "libc_memmove dest src n m = (dest, m)"

section \<open>Character classes\<close>

definition CT_L :: u8 where "CT_L = 0x01"
definition CT_U :: u8 where "CT_U = 0x02"
definition CT_N :: u8 where "CT_N = 0x04"
definition CT_H :: u8 where "CT_H = 0x08"
definition CT_P :: u8 where "CT_P = 0x10"
definition CT_S :: u8 where "CT_S = 0x20"
definition CT_C :: u8 where "CT_C = 0x40"
definition CT_B :: u8 where "CT_B = 0x80"

lemmas ctype_bits = CT_L_def CT_U_def CT_N_def CT_H_def CT_P_def CT_S_def CT_C_def CT_B_def

text \<open>The initialiser gives the first half of the table; the rest is zero.\<close>

definition ctype_lookup :: "u8 list" where
  "ctype_lookup =
     replicate 9 CT_C @ replicate 5 (CT_C OR CT_S) @ replicate 18 CT_C @
     [CT_S OR CT_B] @ replicate 15 CT_P @
     replicate 10 (CT_N OR CT_H) @ replicate 7 CT_P @
     replicate 6 (CT_U OR CT_H) @ replicate 20 CT_U @ replicate 6 CT_P @
     replicate 6 (CT_L OR CT_H) @ replicate 20 CT_L @ replicate 4 CT_P @ [CT_C] @
     replicate 128 0"

definition ctype_of :: "u32 \<Rightarrow> u8" where
  "ctype_of c = ctype_lookup ! unat (ucast c :: u8)"

definition isalnum :: "u32 \<Rightarrow> u32" where
  "isalnum c = ucast (ctype_of c AND (CT_L OR CT_U OR CT_N))"

definition isalpha :: "u32 \<Rightarrow> u32" where
  "isalpha c = ucast (ctype_of c AND (CT_L OR CT_U))"

definition iscntrl :: "u32 \<Rightarrow> u32" where
  "iscntrl c = ucast (ctype_of c AND CT_C)"

definition isdigit :: "u32 \<Rightarrow> u32" where
  "isdigit c = ucast (ctype_of c AND CT_C)"

definition isgraph :: "u32 \<Rightarrow> u32" where
  "isgraph c = ucast (ctype_of c AND (CT_P OR CT_L OR CT_U OR CT_N))"

definition islower :: "u32 \<Rightarrow> u32" where
  "islower c = ucast (ctype_of c AND CT_L)"

definition isprint :: "u32 \<Rightarrow> u32" where
  "isprint c = ucast (ctype_of c AND (CT_P OR CT_L OR CT_U OR CT_N OR CT_S))"

definition ispunct :: "u32 \<Rightarrow> u32" where
  "ispunct c = ucast (ctype_of c AND CT_P)"

definition isspace :: "u32 \<Rightarrow> u32" where
  "isspace c = ucast (ctype_of c AND CT_S)"

definition isupper :: "u32 \<Rightarrow> u32" where
  "isupper c = ucast (ctype_of c AND CT_U)"

definition isxdigit :: "u32 \<Rightarrow> u32" where
  "isxdigit c = ucast (ctype_of c AND CT_H)"

definition tolower :: "u32 \<Rightarrow> u32" where
  "tolower c = (if isupper c \<noteq> 0 then c OR 32 else c)"

definition toupper :: "u32 \<Rightarrow> u32" where
  "toupper c = (if islower c \<noteq> 0 then c AND 0x5f else c)"

definition lower_at :: "memory \<Rightarrow> ptr \<Rightarrow> u32" where
  "lower_at m p = tolower (ucast (m p))"

partial_function (option) strcasecmp_loop :: "memory \<Rightarrow> ptr \<Rightarrow> ptr \<Rightarrow> u32 outcome option" where
  "strcasecmp_loop m string1 string2 =
     (if lower_at m string1 = lower_at m string2 \<and> m string1 \<noteq> 0 then strcasecmp_loop m (string1 + 1) (string2 + 1)
      else Some (Ret (lower_at m string1 - lower_at m string2)))"

definition strcasecmp :: "memory \<Rightarrow> ptr \<Rightarrow> ptr \<Rightarrow> u32 outcome" where
  "strcasecmp m s1 s2 = looped (strcasecmp_loop m s1 s2)"

fun strncasecmp_loop :: "memory \<Rightarrow> ptr \<Rightarrow> ptr \<Rightarrow> nat \<Rightarrow> u32" where
  "strncasecmp_loop m string1 string2 0 = lower_at m string1 - lower_at m string2"
| "strncasecmp_loop m string1 string2 (Suc n) =
     (if lower_at m string1 = lower_at m string2 \<and> m string1 \<noteq> 0 then strncasecmp_loop m (string1 + 1) (string2 + 1) n
      else lower_at m string1 - lower_at m string2)"

definition strncasecmp :: "memory \<Rightarrow> ptr \<Rightarrow> ptr \<Rightarrow> u64 \<Rightarrow> u32" where
  "strncasecmp m s1 s2 n = strncasecmp_loop m s1 s2 (unat n)"

section \<open>Numbers\<close>

text \<open>\<^verbatim>\<open>char\<close> is signed. The digit loop never moves its pointer.\<close>

partial_function (option) atol_loop :: "memory \<Rightarrow> ptr \<Rightarrow> u64 \<Rightarrow> u64 outcome option" where
  "atol_loop m str negated =
     (if isdigit (scast (m str)) \<noteq> 0 then atol_loop m str (negated * 10 - (scast (m str) - 48)) else Some (Ret negated))"

definition atol :: "memory \<Rightarrow> ptr \<Rightarrow> u64 outcome" where
  "atol m str = (
     let negative = m str = 45;
         str = (if m str = 45 \<or> m str = 43 then str + 1 else str)
     in obind (looped (atol_loop m str 0)) (\<lambda>negated. Ret (if negative then negated else - negated)))"

partial_function (option) atoi_loop :: "memory \<Rightarrow> ptr \<Rightarrow> u32 \<Rightarrow> u32 outcome option" where
  "atoi_loop m str negated =
     (if isdigit (scast (m str)) \<noteq> 0 then atoi_loop m str (negated * 10 - (scast (m str) - 48)) else Some (Ret negated))"

definition atoi :: "memory \<Rightarrow> ptr \<Rightarrow> u32 outcome" where
  "atoi m str = (
     let negative = m str = 45;
         str = (if m str = 45 \<or> m str = 43 then str + 1 else str)
     in obind (looped (atoi_loop m str 0)) (\<lambda>negated. Ret (if negative then negated else - negated)))"

text \<open>The shift counts are sizes in bytes less one, not widths in bits.\<close>

definition libc_abs :: "u32 \<Rightarrow> u32" where
  "libc_abs i = (let sign_mask = signed_drop_bit 3 i in (i XOR sign_mask) + (sign_mask AND 1))"

definition libc_labs :: "u64 \<Rightarrow> u64" where
  "libc_labs i = (let sign_mask = signed_drop_bit 7 i in (i XOR sign_mask) + (sign_mask AND 1))"

section \<open>Strings as lists of bytes\<close>

fun cstring :: "memory \<Rightarrow> ptr \<Rightarrow> u8 list \<Rightarrow> bool" where
  "cstring m p [] \<longleftrightarrow> m p = 0"
| "cstring m p (b # bs) \<longleftrightarrow> m p = b \<and> b \<noteq> 0 \<and> cstring m (p + 1) bs"

text \<open>The order of strings is the lexicographic order of their bytes.\<close>

abbreviation byte_less :: "u8 list \<Rightarrow> u8 list \<Rightarrow> bool" where
  "byte_less xs ys \<equiv> (xs, ys) \<in> lexord {(x, y). x < y}"

definition compares :: "int \<Rightarrow> u8 list \<Rightarrow> u8 list \<Rightarrow> bool" where
  "compares d xs ys \<longleftrightarrow> (d = 0 \<longleftrightarrow> xs = ys) \<and> (d < 0 \<longleftrightarrow> byte_less xs ys)"

lemma compares_simps [simp]:
  "compares d [] [] \<longleftrightarrow> d = 0"
  "compares d (x # xs) [] \<longleftrightarrow> 0 < d"
  "compares d [] (y # ys) \<longleftrightarrow> d < 0"
  "compares d (x # xs) (x # ys) \<longleftrightarrow> compares d xs ys"
  by (auto simp: compares_def)

lemma compares_differ [simp]: "x \<noteq> y \<Longrightarrow> compares (uint x - uint y) (x # xs) (y # ys)"
  by (auto simp: compares_def word_less_def word_uint_eq_iff)

lemma uint_gr_0_u8 [simp]: "0 < uint (b :: u8) \<longleftrightarrow> b \<noteq> 0"
  using uint_ge_0 [of b] by (auto simp: less_le word_uint_eq_iff)

lemma strlen_loop_cstring:
  "cstring m p bs \<Longrightarrow> strlen_loop m p k = Some (Ret (scast (k + of_nat (length bs))))"
  by (induction bs arbitrary: p k) (subst strlen_loop.simps; simp add: add.assoc)+

lemma strcmp_loop_cstring:
  "cstring m p xs \<Longrightarrow> cstring m q ys \<Longrightarrow> \<exists>d. strcmp_loop m p q = Some (Ret d) \<and> compares d xs ys"
proof (induction xs arbitrary: p q ys)
  case Nil
  then show ?case
    by (cases ys) (subst strcmp_loop.simps; simp)+
next
  case (Cons x xs)
  show ?case
  proof (cases ys)
    case Nil
    then show ?thesis
      using Cons.prems by (subst strcmp_loop.simps) simp
  next
    case ys: (Cons y zs)
    show ?thesis
    proof (cases "x = y")
      case True
      then obtain d where "strcmp_loop m (p + 1) (q + 1) = Some (Ret d)" "compares d xs zs"
        using Cons.IH [of "p + 1" "q + 1" zs] Cons.prems ys by auto
      then show ?thesis
        using True Cons.prems ys by (subst strcmp_loop.simps) simp
    next
      case False
      then show ?thesis
        using Cons.prems ys by (subst strcmp_loop.simps) simp
    qed
  qed
qed

lemma strncmp_loop_cstring:
  "cstring m p xs \<Longrightarrow> cstring m q ys \<Longrightarrow> strncmp_loop m p q n = (s1, s2, k) \<Longrightarrow>
     compares (if k = 0 then 0 else uint (m s1) - uint (m s2)) (take n xs) (take n ys)"
proof (induction n arbitrary: p q xs ys)
  case 0
  then show ?case by simp
next
  case (Suc n)
  show ?case
  proof (cases xs)
    case Nil
    then show ?thesis
      using Suc.prems by (cases ys) auto
  next
    case xs: (Cons x as)
    show ?thesis
    proof (cases ys)
      case Nil
      then show ?thesis
        using Suc.prems xs by auto
    next
      case ys: (Cons y bs)
      show ?thesis
        using Suc.prems xs ys Suc.IH [of "p + 1" as "q + 1" bs] by (cases "x = y") auto
    qed
  qed
qed

section \<open>Blocks as lists of bytes\<close>

lemma read_bytes_0 [simp]: "read_bytes p 0 m = []"
  by (simp add: read_bytes_def)

lemma read_bytes_Suc [simp]: "read_bytes p (Suc n) m = m p # read_bytes (p + 1) n m"
  by (simp add: read_bytes_def upt_conv_Cons map_Suc_upt [symmetric] ac_simps comp_def del: upt_Suc map_Suc_upt)

lemma memcmp_loop_blocks:
  "memcmp_loop m p q n = (s1, s2, k) \<Longrightarrow>
     compares (if k = 0 then 0 else uint (m s1) - uint (m s2)) (read_bytes p n m) (read_bytes q n m)"
proof (induction n arbitrary: p q)
  case 0
  then show ?case by (auto simp: memcmp_loop.simps [of m p q 0] split: if_splits)
next
  case (Suc n)
  then show ?case
    by (auto simp: memcmp_loop.simps [of m p q "Suc n"] split: if_splits)
qed

text \<open>An upward copy is right unless the destination starts inside the source.\<close>

definition copyable :: "ptr \<Rightarrow> ptr \<Rightarrow> u64 \<Rightarrow> bool" where
  "copyable dest src n \<longleftrightarrow> dest = src \<or> n \<le> dest - src"

lemma copied_index:
  assumes "copyable dest src n" and "k < unat n"
  shows "\<not> unat (src + of_nat k - dest) < k"
proof (cases "dest = src")
  case True
  then show ?thesis
    using assms(2) unat_u64_less [of n] by (simp add: unat_of_nat_u64)
next
  case False
  define d where "d = dest - src"
  have d: "k < unat d" "unat d < 2 ^ 64"
    using False assms unat_u64_less [of d] by (auto simp: copyable_def d_def word_le_nat_alt)
  have "unat (of_nat k - d) = 2 ^ 64 + k - unat d"
    using d by (simp add: unat_sub_if' unat_of_nat_u64 word_le_nat_alt)
  moreover have "src + of_nat k - dest = of_nat k - d"
    by (simp add: d_def)
  ultimately have "unat (src + of_nat k - dest) = 2 ^ 64 + k - unat d"
    by (simp only:)
  then show ?thesis
    using d by linarith
qed

lemma memcpy_apply:
  assumes "copyable dest src n"
  shows "memcpy dest src n m x = (if unat (x - dest) < unat n then m (src + (x - dest)) else m x)"
proof -
  let ?step = "\<lambda>i m. m(dest + of_nat i := m (src + of_nat i))"
  have "fold ?step [0..<k] m x = (if unat (x - dest) < k then m (src + (x - dest)) else m x)" if "k \<le> unat n" for k x
    using that
  proof (induction k arbitrary: x)
    case 0
    then show ?case by simp
  next
    case (Suc k)
    have k: "unat (of_nat k :: u64) = k"
      using Suc.prems unat_u64_less [of n] by (simp add: unat_of_nat_u64)
    have "unat (x - dest) = k \<longleftrightarrow> x = dest + of_nat k"
    proof
      assume "unat (x - dest) = k"
      then have "of_nat (unat (x - dest)) = (of_nat k :: u64)" by simp
      then show "x = dest + of_nat k" by (simp add: algebra_simps)
    qed (simp add: k)
    then show ?case
      using Suc copied_index [OF assms, of k] by (auto simp: less_Suc_eq)
  qed
  then show ?thesis
    by (simp add: memcpy_def)
qed

lemma read_bytes_eq_conv: "read_bytes p n m = read_bytes q n m' \<longleftrightarrow> (\<forall>i < n. m (p + of_nat i) = m' (q + of_nat i))"
  by (auto simp: read_bytes_def)

lemma memcpy_read_bytes:
  assumes "copyable dest src n"
  shows "read_bytes dest (unat n) (memcpy dest src n m) = read_bytes src (unat n) m"
proof -
  have "unat (of_nat i :: u64) = i" if "i < unat n" for i
    using that unat_u64_less [of n] by (simp add: unat_of_nat_u64)
  then show ?thesis
    by (auto simp: read_bytes_eq_conv memcpy_apply [OF assms])
qed

lemma memset_loop_apply:
  "k < 2 ^ 64 \<Longrightarrow> memset_loop p c k m x = (if unat (x - p) < k then c else m x)"
proof (induction k arbitrary: p m)
  case 0
  then show ?case by simp
next
  case (Suc k)
  have "unat (x - p) = (if x = p then 0 else Suc (unat (x - (p + 1))))"
  proof (cases "x = p")
    case False
    then have "x - p \<noteq> 0" by simp
    then have "unat (x - p - 1) = unat (x - p) - 1"
      by (rule unat_minus_one)
    moreover have "0 < unat (x - p)"
      using \<open>x - p \<noteq> 0\<close> by (simp add: unat_gt_0)
    moreover have "x - (p + 1) = x - p - 1" by simp
    ultimately show ?thesis
      using False by (simp del: diff_diff_eq add: diff_diff_eq [symmetric])
  qed simp
  then show ?case
    using Suc by auto
qed

lemma memset_apply: "memset p v n m x = (if unat (x - p) < unat n then ucast v else m x)"
  unfolding memset_def by (rule memset_loop_apply) (use unat_u64_less [of n] in simp)

lemma scast_of_length:
  assumes "n < 2 ^ 31"
  shows "scast (of_nat n :: u32) = (of_nat n :: u64)"
proof -
  have "signed_take_bit 31 (int n) = int n"
    using assms by (intro signed_take_bit_int_eq_self) auto
  then show ?thesis
    by (simp add: signed_of_nat)
qed

section \<open>Properties\<close>

lemma strings_facts:
  assumes "cstring m p xs" and "cstring m q ys"
  shows "p \<noteq> NULL \<Longrightarrow> length xs < 2 ^ 31 \<Longrightarrow> strlen m p = Ret (of_nat (length xs))"
    and "\<exists>d. strcmp m p q = Ret d \<and> compares d xs ys"
    and "compares (strncmp m p q n) (take (unat n) xs) (take (unat n) ys)"
proof -
  show "strlen m p = Ret (of_nat (length xs))" if "p \<noteq> NULL" "length xs < 2 ^ 31"
    using that by (simp add: strlen_def strlen_loop_cstring [OF assms(1)] scast_of_length)
  show "\<exists>d. strcmp m p q = Ret d \<and> compares d xs ys"
    using strcmp_loop_cstring [OF assms] by (auto simp: strcmp_def)
  show "compares (strncmp m p q n) (take (unat n) xs) (take (unat n) ys)"
    using strncmp_loop_cstring [OF assms] by (auto simp: strncmp_def split: prod.splits)
qed

text \<open>C34: The kernel's string routines agree with lists of bytes: \<^verbatim>\<open>strlen\<close> returns the length of a string of
  less than two gigabytes, \<^verbatim>\<open>strcmp\<close> returns and its sign is the lexicographic order of the two strings,
  and \<^verbatim>\<open>strncmp\<close> orders their prefixes.\<close>

theorem strings_correct:
  assumes "cstring m p xs" and "cstring m q ys"
  shows "(p \<noteq> NULL \<longrightarrow> length xs < 2 ^ 31 \<longrightarrow> strlen m p = Ret (of_nat (length xs))) \<and>
    (\<exists>d. strcmp m p q = Ret d \<and> compares d xs ys) \<and>
    compares (strncmp m p q n) (take (unat n) xs) (take (unat n) ys)"
  using strings_facts [OF assms] by blast

text \<open>The strings \<^verbatim>\<open>"arg"\<close> and \<^verbatim>\<open>"argv"\<close>.\<close>

definition demo_memory :: memory where
  "demo_memory = write_bytes 0x1000 [0x61, 0x72, 0x67, 0] (write_bytes 0x2000 [0x61, 0x72, 0x67, 0x76, 0] (\<lambda>_. 0))"

lemma demo_strings:
  "cstring demo_memory 0x1000 [0x61, 0x72, 0x67]" "cstring demo_memory 0x2000 [0x61, 0x72, 0x67, 0x76]"
  by (simp_all add: demo_memory_def)

lemma demo_bytes: "read_bytes 0x1000 4 demo_memory = [0x61, 0x72, 0x67, 0]" "demo_memory 0x2003 = 0x76"
  by (simp_all add: demo_memory_def read_bytes_def upt_rec)

theorem strings_correct_witness:
  "strlen demo_memory 0x2000 = Ret 4 \<and> (\<exists>d. strcmp demo_memory 0x2000 0x1000 = Ret d \<and> 0 < d) \<and>
   strncmp demo_memory 0x2000 0x1000 3 = 0"
  using strings_correct [OF demo_strings(2,1), of 3] by simp

lemma block_facts:
  shows "copyable dest src n \<Longrightarrow> read_bytes dest (unat n) (memcpy dest src n m) = read_bytes src (unat n) m"
    and "copyable dest src n \<Longrightarrow> unat n \<le> unat (x - dest) \<Longrightarrow> memcpy dest src n m x = m x"
    and "memset dest v n m x = (if unat (x - dest) < unat n then ucast v else m x)"
    and "compares (memcmp m p q n) (read_bytes p (unat n) m) (read_bytes q (unat n) m)"
    and "copyable dest src n \<Longrightarrow> n \<le> src - dest \<Longrightarrow> unat (src - dest) + unat n \<le> 2 ^ 64 \<Longrightarrow>
      memcmp (memcpy dest src n m) dest src n = 0"
proof -
  show read: "read_bytes dest (unat n) (memcpy dest src n m) = read_bytes src (unat n) m" if "copyable dest src n" for m
    using that by (rule memcpy_read_bytes)
  show frame: "memcpy dest src n m x = m x" if "copyable dest src n" "unat n \<le> unat (x - dest)" for x
    using that by (simp add: memcpy_apply)
  show "memset dest v n m x = (if unat (x - dest) < unat n then ucast v else m x)"
    by (rule memset_apply)
  show cmp: "compares (memcmp m p q n) (read_bytes p (unat n) m) (read_bytes q (unat n) m)" for m p q
    using memcmp_loop_blocks by (fastforce simp: memcmp_def split: prod.splits)
  show "memcmp (memcpy dest src n m) dest src n = 0"
    if ok: "copyable dest src n" and apart: "n \<le> src - dest" "unat (src - dest) + unat n \<le> 2 ^ 64"
  proof -
    have "unat n \<le> unat (src + of_nat i - dest)" if "i < unat n" for i
    proof -
      have "unat (src + of_nat i - dest) = unat (src - dest + of_nat i)"
        by (simp add: algebra_simps)
      also have "\<dots> = unat (src - dest) + i"
        using that apart(2) unat_u64_less [of n] by (simp add: unat_word_ariths unat_of_nat_u64)
      finally show ?thesis
        using apart(1) by (simp add: word_le_nat_alt)
    qed
    then have "read_bytes src (unat n) (memcpy dest src n m) = read_bytes src (unat n) m"
      using frame [OF ok] by (auto simp: read_bytes_eq_conv)
    then show ?thesis
      using cmp [of "memcpy dest src n m" dest src] read [OF ok, of m] by (simp add: compares_def)
  qed
qed

text \<open>C35: Copying to a block that does not start inside its source copies every byte and changes no other,
  filling a block does the same with one byte, and \<^verbatim>\<open>memcmp\<close> orders any two blocks by their bytes:
  so it finds a copy equal to its source.\<close>

theorem blocks_correct:
  assumes "copyable dest src n" and "n \<le> src - dest" and "unat (src - dest) + unat n \<le> 2 ^ 64"
  shows "read_bytes dest (unat n) (memcpy dest src n m) = read_bytes src (unat n) m \<and>
    (\<forall>x. unat n \<le> unat (x - dest) \<longrightarrow> memcpy dest src n m x = m x) \<and>
    (\<forall>x v. memset dest v n m x = (if unat (x - dest) < unat n then ucast v else m x)) \<and>
    (\<forall>p q. compares (memcmp m p q n) (read_bytes p (unat n) m) (read_bytes q (unat n) m)) \<and>
    memcmp (memcpy dest src n m) dest src n = 0"
  using block_facts(1-4) block_facts(5) [OF assms] assms(1) by blast

theorem blocks_correct_witness:
  "read_bytes 0x3000 4 (memcpy 0x3000 0x1000 4 demo_memory) = [0x61, 0x72, 0x67, 0] \<and>
   memcpy 0x3000 0x1000 4 demo_memory 0x2003 = 0x76 \<and> memcmp (memcpy 0x3000 0x1000 4 demo_memory) 0x3000 0x1000 4 = 0"
proof -
  have "copyable 0x3000 0x1000 4"
    by (simp add: copyable_def)
  then have "read_bytes 0x3000 4 (memcpy 0x3000 0x1000 4 demo_memory) = read_bytes 0x1000 4 demo_memory"
    and "\<forall>x. 4 \<le> unat (x - 0x3000) \<longrightarrow> memcpy 0x3000 0x1000 4 demo_memory x = demo_memory x"
    and "memcmp (memcpy 0x3000 0x1000 4 demo_memory) 0x3000 0x1000 4 = 0"
    using blocks_correct [of "0x3000" "0x1000" 4 demo_memory] by simp_all
  then show ?thesis
    by (simp add: demo_bytes)
qed

text \<open>The library's \<^verbatim>\<open>strncmp\<close> compares one byte past the count. The startup code of a program looks for
  messages with the prefix \<^verbatim>\<open>arg\<close> this way and so never finds one that carries an argument.\<close>

lemma libc_strncmp_prefix:
  assumes "cstring m p (xs @ y # ys)" and "cstring m q xs" and "unat n = length xs"
  shows "strncmp m p q n = 0" and "libc_strncmp m p q n = uint y"
proof -
  have "\<exists>s1 s2. strncmp_loop m p q (length xs) = (s1, s2, 0) \<and> m s1 = y \<and> m s2 = 0"
    using assms(1,2)
  proof (induction xs arbitrary: p q)
    case Nil
    then show ?case by auto
  next
    case (Cons x xs)
    then show ?case
      using Cons.IH [of "p + 1" "q + 1"] by auto
  qed
  then show "strncmp m p q n = 0" and "libc_strncmp m p q n = uint y"
    by (auto simp: strncmp_def libc_strncmp_def assms(3))
qed

lemma ctype_digit: "48 \<le> c \<Longrightarrow> c \<le> 57 \<Longrightarrow> isdigit (scast (c :: u8)) = 0"
proof -
  assume "48 \<le> c" "c \<le> 57"
  then have "unat c \<in> {48, 49, 50, 51, 52, 53, 54, 55, 56, 57}"
    by (simp add: word_le_nat_alt) presburger
  moreover have "c = of_nat (unat c)" by simp
  ultimately have "c \<in> {48, 49, 50, 51, 52, 53, 54, 55, 56, 57}"
    by fastforce
  then show ?thesis
    by (auto simp: isdigit_def ctype_of_def ctype_lookup_def ctype_bits nth_append)
qed

lemma atoi_loop_stuck:
  assumes "isdigit (scast (m p)) \<noteq> 0"
  shows "atoi_loop m p k = None"
proof -
  have "atoi_loop m p k = Some r \<Longrightarrow> False" for r
    by (rule atoi_loop.raw_induct [of "\<lambda>m' p' k r. m' = m \<longrightarrow> p' = p \<longrightarrow> False" m p k r, simplified])
       (use assms in \<open>auto split: if_splits\<close>)
  then show ?thesis
    by (cases "atoi_loop m p k") auto
qed

text \<open>\<^verbatim>\<open>isdigit\<close> tests for control characters, so \<^verbatim>\<open>atoi\<close> reads no digit, and it never advances over
  what it takes for one: a number reads as zero, and the empty string keeps it running for ever.\<close>

theorem atoi_never_reads:
  assumes "cstring m p bs"
  shows "bs = [] \<Longrightarrow> atoi m p = Hang"
    and "bs = b # bs' \<Longrightarrow> 48 \<le> b \<Longrightarrow> b \<le> 57 \<Longrightarrow> atoi m p = Ret 0"
proof -
  have nul: "isdigit (scast (0 :: u8)) \<noteq> 0"
    by (simp add: isdigit_def ctype_of_def ctype_lookup_def ctype_bits nth_append)
  show "atoi m p = Hang" if "bs = []"
    using assms that atoi_loop_stuck [of m p 0] nul by (simp add: atoi_def)
  show "atoi m p = Ret 0" if "bs = b # bs'" "48 \<le> b" "b \<le> 57"
  proof -
    have b: "m p = b" "isdigit (scast b) = 0" "b \<noteq> 45" "b \<noteq> 43"
      using assms that ctype_digit [of b] by auto
    then have "atoi_loop m p 0 = Some (Ret 0)"
      by (subst atoi_loop.simps) simp
    then show ?thesis
      using b by (simp add: atoi_def)
  qed
qed

end
