(* ===== verification/Format.thy ===== *)
theory Format
  imports C_String "HOL-Library.Signed_Division"
begin

text \<open>
  Formatted output, \<^verbatim>\<open>vsprintf\<close> of \<^verbatim>\<open>kernel/string.c\<close>: number rendering and the interpreter of format
  strings. The format is the list of its bytes before the terminator, so the null byte is the end of
  the list; the variadic arguments are the list of their 64-bit slots, and reading one that was not
  passed is a \<^term>\<open>Fault\<close>; string arguments are read from memory. What is written through \<^verbatim>\<open>dest\<close>,
  which only ever moves forward, is the resulting list of bytes, without the terminator. The
  destination is taken to overlap neither the format nor a string argument.
\<close>

abbreviation ch :: "char \<Rightarrow> u8" where
  "ch c \<equiv> of_char c"

section \<open>Rendering numbers\<close>

text \<open>The base is 10 or 16 at every call; the guard on it only makes the recursion total.\<close>

function value_length :: "u64 \<Rightarrow> u64 \<Rightarrow> nat" where
  "value_length value base = (if value div base \<noteq> 0 \<and> 1 < base then Suc (value_length (value div base) base) else 1)"
  by pat_completeness auto
termination
proof (relation "measure (\<lambda>(v, b). unat v)")
  fix v b :: u64
  assume "v div b \<noteq> 0 \<and> 1 < b"
  then have "v \<noteq> 0" and "1 < unat b"
    by (auto simp: word_less_nat_alt)
  then have "unat v div unat b < unat v"
    by (simp add: unat_gt_0)
  then show "((v div b, b), (v, b)) \<in> measure (\<lambda>(v, b). unat v)"
    by (simp add: unat_div_distrib)
qed simp

declare value_length.simps [simp del]

definition pad :: "u8 \<Rightarrow> int \<Rightarrow> int \<Rightarrow> u8 list" where
  "pad c from till = replicate (nat (till - from)) c"

text \<open>The last \<open>n\<close> decimal digits of a \<^verbatim>\<open>long\<close>, most significant first.\<close>

fun digits_signed :: "nat \<Rightarrow> int \<Rightarrow> u8 list" where
  "digits_signed 0 value = []"
| "digits_signed (Suc n) value = digits_signed n (value sdiv 10) @ [word_of_int (48 + value smod 10)]"

fun digits_unsigned :: "nat \<Rightarrow> u64 \<Rightarrow> u8 list" where
  "digits_unsigned 0 value = []"
| "digits_unsigned (Suc n) value = digits_unsigned n (value div 10) @ [48 + ucast (value mod 10)]"

definition leading_zeros :: "int \<Rightarrow> nat \<Rightarrow> u8 list" where
  "leading_zeros min_length_zeros number_length =
     pad (ch CHR ''0'') (int number_length) (if min_length_zeros = 0 then 1 else min_length_zeros)"

definition sign_char :: "bool \<Rightarrow> bool \<Rightarrow> u8 list" where
  "sign_char display_plus space_if_positive =
     (if display_plus then [ch CHR ''+''] else if space_if_positive then [ch CHR '' ''] else [])"

definition print_decimal_signed :: "u64 \<Rightarrow> int \<Rightarrow> bool \<Rightarrow> bool \<Rightarrow> u8 list" where
  "print_decimal_signed value min_length_zeros display_plus space_if_positive = (
     let sign = (if sint value < 0 then [ch CHR ''-''] else sign_char display_plus space_if_positive);
         value = (if sint value < 0 then - value else value);
         number_length = value_length value 10
     in sign @ leading_zeros min_length_zeros number_length @ digits_signed number_length (sint value))"

definition print_decimal_unsigned :: "u64 \<Rightarrow> int \<Rightarrow> bool \<Rightarrow> bool \<Rightarrow> u8 list" where
  "print_decimal_unsigned value min_length_zeros display_plus space_if_positive = (
     let number_length = value_length value 10
     in sign_char display_plus space_if_positive @ leading_zeros min_length_zeros number_length @
        digits_unsigned number_length value)"

definition hex_characters :: "u8 list" where
  "hex_characters = map of_char ''0123456789abcdef''"

definition hex_characters_capital :: "u8 list" where
  "hex_characters_capital = map of_char ''0123456789ABCDEF''"

text \<open>The loop over the digits of \<^verbatim>\<open>print_hex\<close>, from digit \<open>n - 1\<close> down to digit 0.\<close>

fun hex_loop :: "u8 list \<Rightarrow> u64 \<Rightarrow> int \<Rightarrow> bool \<Rightarrow> nat \<Rightarrow> u8 list" where
  "hex_loop character_set value min_length_zeros print_zeros 0 = []"
| "hex_loop character_set value min_length_zeros print_zeros (Suc digit) = (
     let hex_value = unat (drop_bit (digit * 4) value AND 0xf);
         print_zeros = (print_zeros \<or> int digit + 1 \<le> min_length_zeros \<or> hex_value \<noteq> 0)
     in (if print_zeros \<or> hex_value \<noteq> 0 then [character_set ! hex_value] else []) @
        hex_loop character_set value min_length_zeros print_zeros digit)"

definition print_hex :: "u64 \<Rightarrow> bool \<Rightarrow> bool \<Rightarrow> int \<Rightarrow> u8 list" where
  "print_hex value print_0x capitalized min_length_zeros =
     (if print_0x then [ch CHR ''0'', ch CHR ''x''] else []) @
     hex_loop (if capitalized then hex_characters_capital else hex_characters) value
       (if min_length_zeros \<le> 0 then 1 else min_length_zeros) False 16"

section \<open>Format strings\<close>

record flags =
  flag_hastag :: bool
  flag_space :: bool
  flag_plus :: bool
  flag_zero :: bool

fun parse_flags :: "u8 list \<Rightarrow> flags \<Rightarrow> flags \<times> u8 list" where
  "parse_flags [] f = (f, [])"
| "parse_flags (c # fmt) f =
     (if c = ch CHR ''#'' then parse_flags fmt (f\<lparr>flag_hastag := True\<rparr>)
      else if c = ch CHR ''+'' then parse_flags fmt (f\<lparr>flag_plus := True\<rparr>)
      else if c = ch CHR '' '' then parse_flags fmt (f\<lparr>flag_space := True\<rparr>)
      else if c = ch CHR ''0'' then parse_flags fmt (f\<lparr>flag_zero := True\<rparr>)
      else (f, c # fmt))"

definition ascii_is_numeric :: "u8 \<Rightarrow> bool" where
  "ascii_is_numeric c \<longleftrightarrow> 48 \<le> c \<and> c \<le> 57"

text \<open>A decimal \<^verbatim>\<open>int\<close>, wrapped at its width.\<close>

fun parse_int :: "u8 list \<Rightarrow> u32 \<Rightarrow> u32 \<times> u8 list" where
  "parse_int [] k = (k, [])"
| "parse_int (c # fmt) k = (if ascii_is_numeric c then parse_int fmt (k * 10 + (ucast c - 48)) else (k, c # fmt))"

definition parse_precision :: "u8 list \<Rightarrow> u32 \<times> u8 list" where
  "parse_precision fmt =
     (case fmt of [] \<Rightarrow> (-1, []) | c # rest \<Rightarrow> if c = ch CHR ''.'' then parse_int rest 0 else (-1, fmt))"

fun parse_bits :: "u8 list \<Rightarrow> nat \<times> u8 list" where
  "parse_bits [] = (32, [])"
| "parse_bits (c # fmt) =
     (if c = ch CHR ''h'' then
        (case fmt of [] \<Rightarrow> (16, []) | d # rest \<Rightarrow> if d = ch CHR ''h'' then (8, rest) else (16, fmt))
      else if c = ch CHR ''l'' then
        (case fmt of [] \<Rightarrow> (64, []) | d # rest \<Rightarrow> if d = ch CHR ''l'' then (64, rest) else (64, fmt))
      else if c = ch CHR ''z'' \<or> c = ch CHR ''j'' \<or> c = ch CHR ''t'' then (64, fmt)
      else (32, c # fmt))"

text \<open>Reading an argument: below 64 bits an \<^verbatim>\<open>int\<close> is passed in the low half of the slot.\<close>

definition va_arg :: "u64 list \<Rightarrow> (u64 \<times> u64 list) outcome" where
  "va_arg args = (case args of [] \<Rightarrow> Fault | a # rest \<Rightarrow> Ret (a, rest))"

definition va_arg_from_width_signed :: "u64 list \<Rightarrow> nat \<Rightarrow> (u64 \<times> u64 list) outcome" where
  "va_arg_from_width_signed args bits = obind (va_arg args) (\<lambda>(a, args).
     Ret (if bits = 64 then a else scast (ucast a :: u32), args))"

definition va_arg_from_width_unsigned :: "u64 list \<Rightarrow> nat \<Rightarrow> (u64 \<times> u64 list) outcome" where
  "va_arg_from_width_unsigned args bits = obind (va_arg args) (\<lambda>(a, args).
     Ret (if bits = 8 \<or> bits = 16 then scast (ucast a :: u32) else if bits = 64 then a else ucast (ucast a :: u32), args))"

text \<open>What the specifier at the head of the rest of the format prints; at any other character the
  format is left there. The length of a string is kept in an \<^verbatim>\<open>int\<close>: that of a string of two gigabytes or more can
  be negative, and as the size of the copy it then covers nearly the whole address space, unmapped pages included.\<close>

definition print_specifier ::
  "memory \<Rightarrow> flags \<Rightarrow> int \<Rightarrow> int \<Rightarrow> nat \<Rightarrow> u8 list \<Rightarrow> u64 list \<Rightarrow> (u8 list \<times> u8 list \<times> u64 list) outcome" where
  "print_specifier m f min_width min_precision bits fmt args = (case fmt of [] \<Rightarrow> Ret ([], [], args) | c # rest \<Rightarrow>
     if c = ch CHR ''s'' then
       obind (va_arg args) (\<lambda>(string, args).
       obind (strlen m string) (\<lambda>n.
       let length = (if 0 \<le> min_precision then min_precision else sint (ucast n :: u32))
       in if length < 0 then Fault
          else Ret (pad (ch CHR '' '') length min_width @ read_bytes string (nat length) m, rest, args)))
     else if c = ch CHR ''d'' \<or> c = ch CHR ''i'' then
       obind (va_arg_from_width_signed args bits) (\<lambda>(value, args).
       let fill_character = (if flag_zero f then ch CHR ''0'' else ch CHR '' '')
       in Ret (pad fill_character min_width min_width @
               print_decimal_signed value min_precision (flag_plus f) (flag_space f), rest, args))
     else if c = ch CHR ''u'' then
       obind (va_arg_from_width_unsigned args bits) (\<lambda>(value, args).
       let length = max (int (value_length value 10)) min_precision;
           length = (if flag_plus f \<or> flag_space f then length + 1 else length);
           fill_character = (if flag_zero f then ch CHR ''0'' else ch CHR '' '')
       in Ret (pad fill_character length min_width @
               print_decimal_unsigned value min_precision (flag_plus f) (flag_space f), rest, args))
     else if c = ch CHR ''x'' \<or> c = ch CHR ''X'' \<or> c = ch CHR ''p'' then
       let bits = (if c = ch CHR ''p'' then 64 else bits) in
       obind (va_arg_from_width_unsigned args bits) (\<lambda>(value, args).
       let length = max (int (value_length value 16)) min_precision;
           length = (if flag_hastag f then length + 2 else length)
       in Ret (pad (ch CHR '' '') length min_width @
               print_hex value (flag_hastag f) (c = ch CHR ''X'') min_precision, rest, args))
     else if c = ch CHR ''c'' then
       obind (va_arg args) (\<lambda>(value, args). Ret (pad (ch CHR '' '') 1 min_width @ [ucast value], rest, args))
     else Ret ([], fmt, args))"

text \<open>A conversion, from the character after the percent sign.\<close>

definition no_flags :: flags where
  "no_flags = \<lparr>flag_hastag = False, flag_space = False, flag_plus = False, flag_zero = False\<rparr>"

definition print_conversion :: "memory \<Rightarrow> u8 list \<Rightarrow> u64 list \<Rightarrow> (u8 list \<times> u8 list \<times> u64 list) outcome" where
  "print_conversion m fmt args = (
     let (f, fmt) = parse_flags fmt no_flags;
         (min_width, fmt) = parse_int fmt 0;
         (min_precision, fmt) = parse_precision fmt;
         (bits, fmt) = parse_bits fmt
     in print_specifier m f (sint min_width) (sint min_precision) bits fmt args)"

text \<open>Parsing never moves the format pointer backwards.\<close>

lemma parse_flags_length: "parse_flags fmt f = (f', rest) \<Longrightarrow> length rest \<le> length fmt"
  by (induction fmt f rule: parse_flags.induct) (auto split: if_splits)

lemma parse_int_length: "parse_int fmt k = (k', rest) \<Longrightarrow> length rest \<le> length fmt"
  by (induction fmt k rule: parse_int.induct) (auto split: if_splits)

lemma parse_precision_length: "parse_precision fmt = (k, rest) \<Longrightarrow> length rest \<le> length fmt"
  by (auto simp: parse_precision_def dest: parse_int_length split: list.splits if_splits)

lemma parse_bits_length: "parse_bits fmt = (b, rest) \<Longrightarrow> length rest \<le> length fmt"
  by (cases fmt) (auto split: list.splits if_splits)

lemma print_specifier_length:
  "print_specifier m f w p b fmt args = Ret (out, rest, args') \<Longrightarrow> length rest \<le> length fmt"
  by (cases fmt) (auto simp: print_specifier_def outcome_simps Let_def split: if_splits)

lemma print_conversion_length:
  assumes "print_conversion m fmt args = Ret (out, rest, args')"
  shows "length rest \<le> length fmt"
proof -
  obtain f fmt1 where 1: "parse_flags fmt no_flags = (f, fmt1)" by fastforce
  obtain w fmt2 where 2: "parse_int fmt1 0 = (w, fmt2)" by fastforce
  obtain p fmt3 where 3: "parse_precision fmt2 = (p, fmt3)" by fastforce
  obtain b fmt4 where 4: "parse_bits fmt3 = (b, fmt4)" by fastforce
  have "print_specifier m f (sint w) (sint p) b fmt4 args = Ret (out, rest, args')"
    using assms by (simp add: print_conversion_def 1 2 3 4)
  from print_specifier_length [OF this] show ?thesis
    using parse_flags_length [OF 1] parse_int_length [OF 2] parse_precision_length [OF 3] parse_bits_length [OF 4]
    by linarith
qed

function vsprintf :: "memory \<Rightarrow> u8 list \<Rightarrow> u64 list \<Rightarrow> u8 list outcome" where
  "vsprintf m [] args = Ret []"
| "vsprintf m (c # fmt) args =
     (if c = ch CHR ''%'' then
        (if fmt \<noteq> [] \<and> hd fmt = ch CHR ''%'' then
           obind (vsprintf m (tl fmt) args) (\<lambda>out. Ret (ch CHR ''%'' # out))
         else
           obind (print_conversion m fmt args) (\<lambda>(printed, fmt, args).
           obind (vsprintf m fmt args) (\<lambda>out. Ret (printed @ out))))
      else obind (vsprintf m fmt args) (\<lambda>out. Ret (c # out)))"
  by pat_completeness auto
termination
  by (relation "measure (\<lambda>(m, fmt, args). length fmt)") (auto dest: print_conversion_length simp: less_Suc_eq_le)

definition sprintf :: "memory \<Rightarrow> ptr \<Rightarrow> u8 list \<Rightarrow> u64 list \<Rightarrow> memory outcome" where
  "sprintf m dest format args = obind (vsprintf m format args) (\<lambda>out. Ret (write_bytes dest (out @ [0]) m))"

section \<open>Digits\<close>

text \<open>The \<open>k\<close> lowest digits of a number, most significant first, and reading them back.\<close>

definition digits_of :: "nat \<Rightarrow> nat \<Rightarrow> nat \<Rightarrow> nat list" where
  "digits_of b k n = map (\<lambda>i. n div b ^ i mod b) (rev [0..<k])"

definition number_of :: "nat \<Rightarrow> nat list \<Rightarrow> nat" where
  "number_of b ds = foldl (\<lambda>a d. a * b + d) 0 ds"

lemma number_of_simps [simp]: "number_of b [] = 0" "number_of b (ds @ [d]) = number_of b ds * b + d"
  by (simp_all add: number_of_def)

lemma length_digits_of [simp]: "length (digits_of b k n) = k"
  by (simp add: digits_of_def)

lemma digits_of_0 [simp]: "digits_of b 0 n = []"
  by (simp add: digits_of_def)

lemma digits_of_Suc: "digits_of b (Suc k) n = digits_of b k (n div b) @ [n mod b]"
proof -
  have "rev [0..<Suc k] = rev (map Suc [0..<k]) @ [0]"
    by (simp add: map_Suc_upt upt_conv_Cons del: upt_Suc)
  then show ?thesis
    by (simp add: digits_of_def rev_map div_mult2_eq comp_def del: upt_Suc)
qed

lemma digits_of_Suc_top: "digits_of b (Suc k) n = (n div b ^ k mod b) # digits_of b k n"
  by (simp add: digits_of_def)

lemma digits_of_less: "0 < b \<Longrightarrow> d \<in> set (digits_of b k n) \<Longrightarrow> d < b"
  by (auto simp: digits_of_def)

lemma number_of_digits_of: "n < b ^ k \<Longrightarrow> number_of b (digits_of b k n) = n"
proof (induction k arbitrary: n)
  case 0
  then show ?case by simp
next
  case (Suc k)
  have "n div b < b ^ k"
    using Suc.prems by (simp add: less_mult_imp_div_less mult.commute)
  then show ?case
    using Suc.IH by (simp add: digits_of_Suc)
qed

text \<open>\<^verbatim>\<open>value_length\<close> is the number of digits.\<close>

lemma value_length_pos: "0 < value_length v b"
  by (subst value_length.simps) simp

lemma value_length_bounds:
  assumes "1 < b"
  shows "unat v < unat b ^ value_length v b" and "v \<noteq> 0 \<Longrightarrow> unat b ^ (value_length v b - 1) \<le> unat v"
proof -
  have b: "1 < unat b"
    using assms by (simp add: word_less_nat_alt)
  have "unat v < unat b ^ value_length v b \<and> (v \<noteq> 0 \<longrightarrow> unat b ^ (value_length v b - 1) \<le> unat v)"
    using assms b
  proof (induction v b rule: value_length.induct)
    case (1 v b)
    let ?q = "v div b"
    have q: "unat ?q = unat v div unat b"
      by (simp add: unat_div_distrib)
    show ?case
    proof (cases "?q = 0")
      case True
      then have "unat v < unat b"
        using q "1.prems" by (simp add: div_eq_0_iff)
      then show ?thesis
        using True by (auto simp: value_length.simps [of v b] Suc_le_eq unat_gt_0)
    next
      case False
      then have ih: "unat v div unat b < unat b ^ value_length ?q b" "unat b ^ (value_length ?q b - 1) \<le> unat v div unat b"
        using "1.IH" "1.prems" by (simp_all add: q)
      obtain l where l: "value_length ?q b = Suc l"
        using value_length_pos [of ?q b] gr0_implies_Suc by blast
      have "unat v < unat b ^ Suc (Suc l)"
        using ih(1) l "1.prems" by (simp add: div_less_iff_less_mult mult.commute mult.left_commute)
      moreover have "unat b ^ Suc l \<le> unat v"
      proof -
        have "unat b ^ Suc l \<le> unat b * (unat v div unat b)"
          using ih(2) l by simp
        also have "\<dots> \<le> unat v" by simp
        finally show ?thesis .
      qed
      ultimately show ?thesis
        using False "1.prems" l by (simp add: value_length.simps [of v b])
    qed
  qed
  then show "unat v < unat b ^ value_length v b" and "v \<noteq> 0 \<Longrightarrow> unat b ^ (value_length v b - 1) \<le> unat v"
    by auto
qed

section \<open>Printed numbers read back\<close>

definition decimal_digit :: "nat \<Rightarrow> u8" where
  "decimal_digit d = 48 + of_nat d"

definition decimal_value :: "u8 list \<Rightarrow> nat" where
  "decimal_value bs = number_of 10 (map (\<lambda>c. unat c - 48) bs)"

definition hex_digit_value :: "u8 \<Rightarrow> nat" where
  "hex_digit_value c = (if 97 \<le> c then unat c - 87 else if 65 \<le> c then unat c - 55 else unat c - 48)"

definition hex_value :: "u8 list \<Rightarrow> nat" where
  "hex_value bs = number_of 16 (map hex_digit_value bs)"

lemma number_of_zeros: "number_of b (replicate n 0 @ ds) = number_of b ds"
  by (induction n) (simp_all add: number_of_def)

lemma unat_decimal_digit: "d < 10 \<Longrightarrow> unat (decimal_digit d) = 48 + d"
  by (simp add: decimal_digit_def unat_word_ariths unat_of_nat)

lemma decimal_digit_numeric: "d < 10 \<Longrightarrow> ascii_is_numeric (decimal_digit d)"
  by (simp add: ascii_is_numeric_def word_le_nat_alt unat_decimal_digit)

lemma digits_unsigned_digits_of: "digits_unsigned k v = map decimal_digit (digits_of 10 k (unat v))"
proof (induction k arbitrary: v)
  case 0
  then show ?case by simp
next
  case (Suc k)
  have "ucast (v mod 10) = (of_nat (unat (v mod 10)) :: u8)"
    by simp
  then show ?case
    by (simp add: Suc.IH digits_of_Suc decimal_digit_def unat_div_distrib unat_mod_distrib)
qed

lemma digits_signed_digits_of: "0 \<le> z \<Longrightarrow> digits_signed k z = map decimal_digit (digits_of 10 k (nat z))"
proof (induction k arbitrary: z)
  case 0
  then show ?case by simp
next
  case (Suc k)
  have "z sdiv 10 = z div 10" "z smod 10 = z mod 10"
    using Suc.prems by (cases "z = 0"; simp add: signed_divide_int_def signed_modulo_int_def minus_div_mult_eq_mod)+
  moreover have "(word_of_int (48 + z mod 10) :: u8) = decimal_digit (nat z mod 10)"
  proof -
    have "(word_of_int (z mod 10) :: u8) = of_nat (nat (z mod 10))" by simp
    then show ?thesis
      using Suc.prems by (simp add: decimal_digit_def nat_mod_distrib)
  qed
  ultimately show ?case
    using Suc by (simp add: digits_of_Suc nat_div_distrib pos_imp_zdiv_nonneg_iff)
qed

lemma decimal_value_digits:
  assumes "n < 10 ^ k"
  shows "decimal_value (replicate z 48 @ map decimal_digit (digits_of 10 k n)) = n"
proof -
  have "map (\<lambda>c. unat c - 48) (map decimal_digit (digits_of 10 k n)) = digits_of 10 k n"
    by (auto simp: unat_decimal_digit digits_of_less intro: map_idI)
  then show ?thesis
    by (simp add: decimal_value_def number_of_zeros number_of_digits_of assms)
qed

lemma decimal_digits_numeric: "x \<in> set (digits_of 10 k n) \<Longrightarrow> ascii_is_numeric (decimal_digit x)"
  using digits_of_less [of 10 x k n] by (simp add: decimal_digit_numeric)

text \<open>The shape of a printed number: zeros up to the precision, then its digits.\<close>

definition printed_length :: "u64 \<Rightarrow> u64 \<Rightarrow> int \<Rightarrow> nat" where
  "printed_length base v precision = max (value_length v base) (nat precision)"

definition decimal_text :: "u64 \<Rightarrow> int \<Rightarrow> u8 list \<Rightarrow> bool" where
  "decimal_text v precision ds \<longleftrightarrow> decimal_value ds = unat v \<and> length ds = printed_length 10 v precision \<and>
     (\<forall>c \<in> set ds. ascii_is_numeric c)"

lemma decimal_text_digits:
  "decimal_text v p (leading_zeros p (value_length v 10) @ map decimal_digit (digits_of 10 (value_length v 10) (unat v)))"
proof -
  have "unat v < 10 ^ value_length v 10"
    using value_length_bounds(1) [of 10 v] by simp
  moreover have "ascii_is_numeric 48"
    by (simp add: ascii_is_numeric_def)
  ultimately show ?thesis
    using value_length_pos [of v 10] decimal_value_digits [of "unat v" "value_length v 10" 0]
    by (auto simp: decimal_text_def leading_zeros_def pad_def decimal_value_digits printed_length_def
        decimal_digits_numeric)
qed

lemma sint_uminus:
  assumes "(v :: u64) \<noteq> 0x8000000000000000"
  shows "sint (- v) = - sint v"
proof -
  have "- (2 ^ 63) \<le> sint v" "sint v < 2 ^ 63"
    using sint_greater_eq [of v] sint_less [of v] by simp_all
  moreover have "sint v \<noteq> - (2 ^ 63)"
  proof
    assume "sint v = - (2 ^ 63)"
    then have "(word_of_int (sint v) :: u64) = word_of_int (- (2 ^ 63))" by (simp only:)
    then show False
      using assms by simp
  qed
  ultimately have self: "signed_take_bit 63 (- sint v) = - sint v"
    by (intro signed_take_bit_int_eq_self) auto
  have "sint (- v) = sint (word_of_int (- sint v) :: u64)" by simp
  also have "\<dots> = signed_take_bit (LENGTH(64) - 1) (- sint v)"
    by (rule sint_sbintrunc')
  finally show ?thesis
    using self by simp
qed

lemma sint_unat_nonneg: "0 \<le> sint (v :: u64) \<Longrightarrow> nat (sint v) = unat v"
proof -
  assume nonneg: "0 \<le> sint v"
  have "sint v < 2 ^ 63"
    using sint_less [of v] by simp
  then have self: "take_bit 64 (sint v) = sint v"
    using nonneg by (intro take_bit_int_eq_self) auto
  have "uint v = uint (word_of_int (sint v) :: u64)" by simp
  also have "\<dots> = take_bit LENGTH(64) (sint v)"
    by (rule uint_word_of_int_eq)
  finally have "uint v = sint v"
    using self by simp
  then show ?thesis
    by (metis unat_eq_nat_uint)
qed

lemma print_decimal_unsigned_text:
  "\<exists>ds. print_decimal_unsigned v p pl sp = sign_char pl sp @ ds \<and> decimal_text v p ds"
  using decimal_text_digits by (auto simp: print_decimal_unsigned_def Let_def digits_unsigned_digits_of)

lemma print_decimal_signed_text:
  assumes "v \<noteq> 0x8000000000000000"
  shows "\<exists>ds. print_decimal_signed v p pl sp =
      (if sint v < 0 then [ch CHR ''-''] else sign_char pl sp) @ ds \<and>
    decimal_text (if sint v < 0 then - v else v) p ds"
proof -
  let ?v = "if sint v < 0 then - v else v"
  have "0 \<le> sint ?v"
    using sint_uminus [OF assms] by auto
  moreover from this have "nat (sint ?v) = unat ?v"
    by (simp add: sint_unat_nonneg)
  ultimately show ?thesis
    using decimal_text_digits [of ?v p]
    by (auto simp: print_decimal_signed_def Let_def digits_signed_digits_of)
qed

text \<open>Hexadecimal: once a digit is printed all later ones are.\<close>

definition nibble :: "u64 \<Rightarrow> nat \<Rightarrow> nat" where
  "nibble v i = unat v div 16 ^ i mod 16"

lemma nibble_drop_bit: "unat (drop_bit (i * 4) v AND 0xf) = nibble v i"
proof -
  have "(0xf :: u64) = mask 4"
    by (simp add: mask_eq_exp_minus_1)
  then have "drop_bit (i * 4) v AND 0xf = take_bit 4 (drop_bit (i * 4) v)"
    by (simp add: take_bit_eq_mask)
  then have "unat (drop_bit (i * 4) v AND 0xf) = unat (take_bit 4 (drop_bit (i * 4) v))"
    by (simp only:)
  also have "\<dots> = take_bit 4 (drop_bit (i * 4) (unat v))"
    by (simp only: unsigned_take_bit_eq unsigned_drop_bit_eq)
       (use unat_u64_less [of v] in \<open>simp add: take_bit_eq_mod\<close>)
  also have "\<dots> = unat v div 2 ^ (i * 4) mod 16"
    by (simp add: take_bit_eq_mod drop_bit_eq_div)
  also have "(2 :: nat) ^ (i * 4) = 16 ^ i"
    using power_mult [of "2 :: nat" 4 i] by (simp add: mult.commute)
  finally show ?thesis
    by (simp add: nibble_def)
qed

lemma hex_loop_printing:
  "hex_loop cs v p True k = map (\<lambda>i. cs ! nibble v i) (rev [0..<k])"
  by (induction k) (simp_all add: Let_def nibble_drop_bit)

lemma hex_loop_skipping:
  assumes "unat v < 16 ^ k" and "1 \<le> p" and "nat p \<le> k"
  shows "hex_loop cs v p False k = map (\<lambda>i. cs ! nibble v i) (rev [0..<printed_length 16 v p])"
  using assms(1,3)
proof (induction k)
  case 0
  then show ?case
    using assms(2) by simp
next
  case (Suc k)
  have len: "unat v < 16 ^ value_length v 16" "v \<noteq> 0 \<Longrightarrow> 16 ^ (value_length v 16 - 1) \<le> unat v" "0 < value_length v 16"
    using value_length_bounds [of 16 v] value_length_pos [of v 16] by auto
  show ?case
  proof (cases "int k + 1 \<le> p \<or> nibble v k \<noteq> 0")
    case True
    have "printed_length 16 v p = Suc k"
    proof -
      have "value_length v 16 \<le> Suc k"
      proof (cases "v = 0")
        case True
        then show ?thesis
          by (simp add: value_length.simps)
      next
        case False
        then have "16 ^ (value_length v 16 - 1) < (16 :: nat) ^ Suc k"
          using len(2) Suc.prems(1) by linarith
        then show ?thesis
          using power_less_imp_less_exp [of "16 :: nat" "value_length v 16 - 1" "Suc k"] by simp
      qed
      moreover have "nibble v k \<noteq> 0 \<Longrightarrow> Suc k \<le> value_length v 16"
      proof -
        assume "nibble v k \<noteq> 0"
        then have "16 ^ k \<le> unat v"
          by (cases "unat v < 16 ^ k") (auto simp: nibble_def)
        then have "(16 :: nat) ^ k < 16 ^ value_length v 16"
          using len(1) by linarith
        then show ?thesis
          using power_less_imp_less_exp [of "16 :: nat" k "value_length v 16"] by simp
      qed
      ultimately show ?thesis
        using True Suc.prems(2) by (auto simp: printed_length_def)
    qed
    then show ?thesis
      using True by (auto simp: Let_def nibble_drop_bit hex_loop_printing)
  next
    case False
    have "unat v < 16 ^ k"
    proof -
      have "unat v div 16 ^ k < 16"
        using Suc.prems(1) by (simp add: div_less_iff_less_mult mult.commute)
      then show ?thesis
        using False by (simp add: nibble_def div_eq_0_iff)
    qed
    moreover have "nat p \<le> k"
      using False by auto
    ultimately show ?thesis
      using False Suc.IH by (auto simp: Let_def nibble_drop_bit)
  qed
qed

lemma hex_digit_value_characters:
  assumes "d < 16"
  shows "hex_digit_value (hex_characters ! d) = d" and "hex_digit_value (hex_characters_capital ! d) = d"
proof -
  have "d \<in> set [0..<16]"
    using assms by simp
  moreover have "\<forall>d \<in> set [0..<16]. hex_digit_value (hex_characters ! d) = d \<and> hex_digit_value (hex_characters_capital ! d) = d"
    by (simp add: upt_rec hex_digit_value_def hex_characters_def hex_characters_capital_def)
  ultimately show "hex_digit_value (hex_characters ! d) = d" and "hex_digit_value (hex_characters_capital ! d) = d"
    by blast+
qed

text \<open>The loop has sixteen rounds, so a larger precision counts as sixteen.\<close>

lemma hex_loop_min: "k \<le> 16 \<Longrightarrow> hex_loop cs v (min p 16) z k = hex_loop cs v p z k"
proof (induction k arbitrary: z)
  case (Suc k)
  have "int k + 1 \<le> min p 16 \<longleftrightarrow> int k + 1 \<le> p"
    using Suc.prems by auto
  then show ?case
    using Suc by (simp add: Let_def)
qed simp

lemma hex_characters_set:
  assumes "d < 16"
  shows "hex_characters ! d \<in> set (map of_char ''0123456789abcdef'')"
    and "hex_characters_capital ! d \<in> set (map of_char ''0123456789ABCDEF'')"
proof -
  have "d < length hex_characters" "d < length hex_characters_capital"
    using assms by (simp_all add: hex_characters_def hex_characters_capital_def)
  from this [THEN nth_mem] show "hex_characters ! d \<in> set (map of_char ''0123456789abcdef'')"
    and "hex_characters_capital ! d \<in> set (map of_char ''0123456789ABCDEF'')"
    unfolding hex_characters_def hex_characters_capital_def .
qed

lemma print_hex_text:
  "\<exists>ds. print_hex v x cap q = (if x then [ch CHR ''0'', ch CHR ''x''] else []) @ ds \<and>
    set ds \<subseteq> set (map of_char (if cap then ''0123456789ABCDEF'' else ''0123456789abcdef'')) \<and>
    hex_value ds = unat v \<and> length ds = printed_length 16 v (min q 16)"
proof -
  define p where "p = min q 16"
  let ?p = "if p \<le> 0 then 1 else p" and ?cs = "if cap then hex_characters_capital else hex_characters"
  let ?k = "printed_length 16 v p"
  have bound: "unat v < 16 ^ 16"
    using unat_u64_less [of v] by simp
  have len: "printed_length 16 v ?p = ?k"
    using value_length_pos [of v 16] by (auto simp: printed_length_def)
  have "hex_value (map (\<lambda>i. ?cs ! nibble v i) (rev [0..<?k])) = number_of 16 (digits_of 16 ?k (unat v))"
    by (simp add: hex_value_def digits_of_def comp_def nibble_def hex_digit_value_characters)
  also have "\<dots> = unat v"
  proof (rule number_of_digits_of)
    have "unat v < 16 ^ value_length v 16"
      using value_length_bounds(1) [of 16 v] by simp
    also have "\<dots> \<le> 16 ^ ?k"
      by (rule power_increasing) (simp_all add: printed_length_def)
    finally show "unat v < 16 ^ ?k" .
  qed
  finally have val: "hex_value (map (\<lambda>i. ?cs ! nibble v i) (rev [0..<?k])) = unat v" .
  have cap: "?p = min (if q \<le> 0 then 1 else q) 16"
    by (auto simp: p_def)
  have "hex_loop ?cs v (if q \<le> 0 then 1 else q) False 16 = hex_loop ?cs v ?p False 16"
    unfolding cap by (rule hex_loop_min [symmetric]) simp
  also have "\<dots> = map (\<lambda>i. ?cs ! nibble v i) (rev [0..<?k])"
    unfolding len [symmetric] by (rule hex_loop_skipping [OF bound]) (auto simp: p_def)
  finally have loop: "hex_loop ?cs v (if q \<le> 0 then 1 else q) False 16 = map (\<lambda>i. ?cs ! nibble v i) (rev [0..<?k])" .
  define A where "A = set (map of_char (if cap then ''0123456789ABCDEF'' else ''0123456789abcdef'') :: u8 list)"
  have "nibble v i < 16" for i
    by (simp add: nibble_def)
  then have "?cs ! nibble v i \<in> A" for i
    using hex_characters_set [of "nibble v i"] by (cases cap) (simp_all only: A_def if_True if_False)
  then have "set (map (\<lambda>i. ?cs ! nibble v i) (rev [0..<?k])) \<subseteq> A"
    by auto
  then show ?thesis
    unfolding print_hex_def loop A_def [symmetric] using val unfolding p_def [symmetric]
    by (intro exI [of _ "map (\<lambda>i. ?cs ! nibble v i) (rev [0..<?k])"] conjI refl) simp_all
qed

section \<open>Format strings and their meaning\<close>

text \<open>A conversion specification as its writer thinks of it. The numbers are written with the printer's own digits.\<close>

record conversion =
  cv_flags :: "u8 list"
  cv_width :: "u64 option"
  cv_precision :: "u64 option"
  cv_modifier :: "u8 list"
  cv_letter :: u8

definition number_text :: "u64 \<Rightarrow> u8 list" where
  "number_text w = print_decimal_unsigned w 0 False False"

definition modifiers :: "(u8 list \<times> nat) list" where
  "modifiers = [([], 32), (map of_char ''h'', 16), (map of_char ''hh'', 8), (map of_char ''l'', 64), (map of_char ''ll'', 64),
     (map of_char ''z'', 64), (map of_char ''j'', 64), (map of_char ''t'', 64)]"

definition conversion_letters :: "u8 list" where
  "conversion_letters = map of_char ''sdiuxXpc''"

definition conversion_text :: "conversion \<Rightarrow> u8 list" where
  "conversion_text c = cv_flags c @ (case cv_width c of None \<Rightarrow> [] | Some w \<Rightarrow> number_text w) @
     (case cv_precision c of None \<Rightarrow> [] | Some p \<Rightarrow> ch CHR ''.'' # number_text p) @ cv_modifier c @ [cv_letter c]"

definition conversion_ok :: "conversion \<Rightarrow> bool" where
  "conversion_ok c \<longleftrightarrow> set (cv_flags c) \<subseteq> set (map of_char ''#+ 0'') \<and>
     (\<forall>w. cv_width c = Some w \<longrightarrow> w \<noteq> 0 \<and> w < 0x80000000) \<and> (\<forall>p. cv_precision c = Some p \<longrightarrow> p < 0x80000000) \<and>
     cv_modifier c \<in> set (map fst modifiers) \<and> cv_letter c \<in> set conversion_letters"

definition flags_of :: "u8 list \<Rightarrow> flags" where
  "flags_of fs = \<lparr>flag_hastag = (ch CHR ''#'' \<in> set fs), flag_space = (ch CHR '' '' \<in> set fs),
     flag_plus = (ch CHR ''+'' \<in> set fs), flag_zero = (ch CHR ''0'' \<in> set fs)\<rparr>"

definition starts :: "(u8 \<Rightarrow> bool) \<Rightarrow> u8 list \<Rightarrow> bool" where
  "starts P xs \<longleftrightarrow> xs \<noteq> [] \<and> P (hd xs)"

definition flag_char :: "u8 \<Rightarrow> bool" where
  "flag_char c \<longleftrightarrow> c \<in> set (map of_char ''#+ 0'')"

lemma parse_flags_append:
  "\<forall>c \<in> set fs. flag_char c \<Longrightarrow> starts (\<lambda>c. \<not> flag_char c) rest \<Longrightarrow>
     parse_flags (fs @ rest) f = (\<lparr>flag_hastag = (flag_hastag f \<or> ch CHR ''#'' \<in> set fs), flag_space = (flag_space f \<or> ch CHR '' '' \<in> set fs),
       flag_plus = (flag_plus f \<or> ch CHR ''+'' \<in> set fs), flag_zero = (flag_zero f \<or> ch CHR ''0'' \<in> set fs)\<rparr>, rest)"
proof (induction fs arbitrary: f)
  case Nil
  then show ?case
    by (cases rest) (auto simp: starts_def flag_char_def)
next
  case (Cons c fs)
  have "flag_char c" using Cons.prems by simp
  then show ?case
    using Cons by (auto simp: flag_char_def)
qed

lemma decimal_value_snoc: "decimal_value (bs @ [c]) = decimal_value bs * 10 + (unat c - 48)"
  by (simp add: decimal_value_def)

lemma parse_int_digits:
  "\<forall>c \<in> set ds. ascii_is_numeric c \<Longrightarrow> rest = [] \<or> \<not> ascii_is_numeric (hd rest) \<Longrightarrow>
     parse_int (ds @ rest) k = (foldl (\<lambda>a c. a * 10 + (ucast c - 48)) k ds, rest)"
proof (induction ds arbitrary: k)
  case Nil
  then show ?case by (cases rest) auto
qed auto

lemma foldl_digits:
  "\<forall>c \<in> set ds. ascii_is_numeric c \<Longrightarrow> foldl (\<lambda>a c. a * 10 + (ucast c - 48 :: u32)) 0 ds = of_nat (decimal_value ds)"
proof (induction ds rule: rev_induct)
  case Nil
  then show ?case by (simp add: decimal_value_def)
next
  case (snoc c ds)
  have "48 \<le> unat c"
    using snoc.prems by (simp add: ascii_is_numeric_def word_le_nat_alt)
  then have "(of_nat (unat c - 48) :: u32) = ucast c - 48"
    by (simp add: of_nat_diff)
  then show ?case
    using snoc by (simp add: decimal_value_snoc)
qed

lemma number_text_decimal: "decimal_text w 0 (number_text w)"
  using print_decimal_unsigned_text [of w 0 False False] by (auto simp: number_text_def sign_char_def)

lemma parse_number_text:
  assumes "rest = [] \<or> \<not> ascii_is_numeric (hd rest)"
  shows "parse_int (number_text w @ rest) 0 = (ucast w, rest)"
proof -
  have tx: "\<forall>c \<in> set (number_text w). ascii_is_numeric c" "decimal_value (number_text w) = unat w"
    using number_text_decimal [of w] by (auto simp: decimal_text_def)
  have "(of_nat (unat w) :: u32) = ucast w"
    by simp
  then show ?thesis
    using tx by (simp add: parse_int_digits [OF tx(1) assms] foldl_digits)
qed

lemma number_text_head:
  assumes "w \<noteq> 0"
  shows "starts (\<lambda>c. \<not> flag_char c) (number_text w @ rest)"
proof -
  obtain k where k: "value_length w 10 = Suc k"
    using value_length_pos [of w 10] gr0_implies_Suc by blast
  have bounds: "unat w < 10 ^ Suc k" "10 ^ k \<le> unat w"
    using value_length_bounds [of 10 w] assms k by auto
  then have d: "unat w div 10 ^ k < 10" "unat w div 10 ^ k \<noteq> 0"
    by (simp_all add: div_less_iff_less_mult mult.commute div_eq_0_iff)
  have "number_text w = decimal_digit (unat w div 10 ^ k) # map decimal_digit (digits_of 10 k (unat w))"
    using d(1) k by (simp add: number_text_def print_decimal_unsigned_def sign_char_def leading_zeros_def pad_def
        digits_unsigned_digits_of digits_of_Suc_top)
  moreover have "\<not> flag_char (decimal_digit d)" if "d < 10" "d \<noteq> 0" for d
  proof -
    have "unat (decimal_digit d) = 48 + d"
      using that by (simp add: unat_decimal_digit)
    then show ?thesis
      using that by (auto simp: flag_char_def)
  qed
  ultimately show ?thesis
    using d by (simp add: starts_def)
qed

definition modifier_bits :: "u8 list \<Rightarrow> nat" where
  "modifier_bits md = the (map_of modifiers md)"

lemma modifier_cases:
  assumes "md \<in> set (map fst modifiers)"
  obtains "md = []" | "md = [104]" | "md = [104, 104]" | "md = [108]" | "md = [108, 108]" | "md = [122]" | "md = [106]" | "md = [116]"
  using assms by (auto simp: modifiers_def)

lemma letter_cases:
  assumes "l \<in> set conversion_letters"
  obtains "l = 115" | "l = 100" | "l = 105" | "l = 117" | "l = 120" | "l = 88" | "l = 112" | "l = 99"
  using assms by (auto simp: conversion_letters_def)

lemma modifier_head:
  assumes "md \<in> set (map fst modifiers)" and "l \<in> set conversion_letters"
  shows "starts (\<lambda>c. \<not> flag_char c \<and> \<not> ascii_is_numeric c \<and> c \<noteq> 46) (md @ l # rest)"
  using assms(1)
  by (rule modifier_cases) (rule letter_cases [OF assms(2)]; simp add: starts_def flag_char_def ascii_is_numeric_def)+

lemma parse_bits_modifier:
  assumes "md \<in> set (map fst modifiers)" and "l \<in> set conversion_letters"
  shows "parse_bits (md @ l # rest) = (modifier_bits md, l # rest)"
  using assms(1)
  by (rule modifier_cases) (rule letter_cases [OF assms(2)]; simp add: modifier_bits_def modifiers_def)+

lemma parse_precision_text:
  assumes "\<forall>p. precision = Some p \<longrightarrow> p < 0x80000000"
    and "starts (\<lambda>c. \<not> flag_char c \<and> \<not> ascii_is_numeric c \<and> c \<noteq> 46) rest"
  shows "parse_precision ((case precision of None \<Rightarrow> [] | Some p \<Rightarrow> ch CHR ''.'' # number_text p) @ rest) =
    (case precision of None \<Rightarrow> -1 | Some p \<Rightarrow> ucast p, rest)"
  using assms by (cases precision; cases rest) (auto simp: starts_def parse_precision_def parse_number_text)

lemma sint_ucast_small: "w < 0x80000000 \<Longrightarrow> sint (ucast (w :: u64) :: u32) = uint w"
proof -
  assume "w < 0x80000000"
  then have "uint w < 2 ^ 31"
    by (simp add: word_less_def)
  then have "signed_take_bit 31 (uint w) = uint w"
    using uint_ge_0 [of w] by (intro signed_take_bit_int_eq_self) linarith+
  moreover have "sint (ucast w :: u32) = signed_take_bit (LENGTH(32) - 1) (uint w)"
    unfolding ucast_eq by (rule sint_sbintrunc')
  ultimately show ?thesis
    by simp
qed

lemma print_conversion_text:
  assumes ok: "conversion_ok c"
  shows "print_conversion m (conversion_text c @ rest) args =
    print_specifier m (flags_of (cv_flags c)) (case cv_width c of None \<Rightarrow> 0 | Some w \<Rightarrow> uint w)
      (case cv_precision c of None \<Rightarrow> -1 | Some p \<Rightarrow> uint p) (modifier_bits (cv_modifier c)) (cv_letter c # rest) args"
proof -
  let ?P = "case cv_precision c of None \<Rightarrow> [] | Some p \<Rightarrow> ch CHR ''.'' # number_text p"
  let ?W = "case cv_width c of None \<Rightarrow> [] | Some w \<Rightarrow> number_text w"
  let ?M = "cv_modifier c @ cv_letter c # rest"
  have parts: "\<forall>c \<in> set (cv_flags c). flag_char c" "\<forall>w. cv_width c = Some w \<longrightarrow> w \<noteq> 0 \<and> w < 0x80000000"
      "\<forall>p. cv_precision c = Some p \<longrightarrow> p < 0x80000000" "cv_modifier c \<in> set (map fst modifiers)"
      "cv_letter c \<in> set conversion_letters"
    using ok by (auto simp: conversion_ok_def flag_char_def)
  note head = modifier_head [OF parts(4,5), of rest]
  have P: "starts (\<lambda>c. \<not> flag_char c \<and> \<not> ascii_is_numeric c) (?P @ ?M)"
    using head by (cases "cv_precision c") (auto simp: starts_def flag_char_def ascii_is_numeric_def)
  have W: "starts (\<lambda>c. \<not> flag_char c) (?W @ ?P @ ?M)"
    using P parts(2) by (cases "cv_width c") (auto simp: number_text_head, auto simp: starts_def)
  have flags: "parse_flags (cv_flags c @ ?W @ ?P @ ?M) no_flags = (flags_of (cv_flags c), ?W @ ?P @ ?M)"
    by (subst parse_flags_append [OF parts(1) W]) (simp add: no_flags_def flags_of_def)
  have width: "parse_int (?W @ ?P @ ?M) 0 = (case cv_width c of None \<Rightarrow> 0 | Some w \<Rightarrow> ucast w, ?P @ ?M)"
  proof (cases "cv_width c")
    case None
    then show ?thesis
      using P parse_int_digits [of "[]" "?P @ ?M"] by (auto simp: starts_def)
  next
    case (Some w)
    then show ?thesis
      using P parse_number_text [of "?P @ ?M" w] by (auto simp: starts_def)
  qed
  have split: "conversion_text c @ rest = cv_flags c @ ?W @ ?P @ ?M"
    by (simp add: conversion_text_def)
  have "print_conversion m (conversion_text c @ rest) args =
    print_specifier m (flags_of (cv_flags c)) (sint (case cv_width c of None \<Rightarrow> 0 | Some w \<Rightarrow> (ucast w :: u32)))
      (sint (case cv_precision c of None \<Rightarrow> -1 | Some p \<Rightarrow> (ucast p :: u32))) (modifier_bits (cv_modifier c)) (cv_letter c # rest) args"
    unfolding print_conversion_def split
    by (simp only: flags width parse_precision_text [OF parts(3) head] parse_bits_modifier [OF parts(4,5)] Let_def prod.case)
  then show ?thesis
    using parts(2,3) by (cases "cv_width c"; cases "cv_precision c") (simp_all add: sint_ucast_small)
qed

text \<open>A format string as a sequence of items, and what it means: the reference for \<^verbatim>\<open>vsprintf\<close>.\<close>

datatype format_item = Literal "u8 list" | Percent_Sign | Conversion conversion

fun item_text :: "format_item \<Rightarrow> u8 list" where
  "item_text (Literal bs) = bs"
| "item_text Percent_Sign = [ch CHR ''%'', ch CHR ''%'']"
| "item_text (Conversion c) = ch CHR ''%'' # conversion_text c"

fun item_ok :: "format_item \<Rightarrow> bool" where
  "item_ok (Literal bs) \<longleftrightarrow> ch CHR ''%'' \<notin> set bs"
| "item_ok Percent_Sign \<longleftrightarrow> True"
| "item_ok (Conversion c) \<longleftrightarrow> conversion_ok c"

definition print_item :: "memory \<Rightarrow> format_item \<Rightarrow> u64 list \<Rightarrow> (u8 list \<times> u64 list) outcome" where
  "print_item m i args = (case i of
     Literal bs \<Rightarrow> Ret (bs, args)
   | Percent_Sign \<Rightarrow> Ret ([ch CHR ''%''], args)
   | Conversion c \<Rightarrow>
       obind (print_specifier m (flags_of (cv_flags c)) (case cv_width c of None \<Rightarrow> 0 | Some w \<Rightarrow> uint w)
         (case cv_precision c of None \<Rightarrow> -1 | Some p \<Rightarrow> uint p) (modifier_bits (cv_modifier c)) [cv_letter c] args)
         (\<lambda>(out, _, args). Ret (out, args)))"

fun print_items :: "memory \<Rightarrow> format_item list \<Rightarrow> u64 list \<Rightarrow> u8 list outcome" where
  "print_items m [] args = Ret []"
| "print_items m (i # items) args = obind (print_item m i args) (\<lambda>(out, args).
     obind (print_items m items args) (\<lambda>rest. Ret (out @ rest)))"

lemma obind_if: "obind (if c then a else b) f = (if c then obind a f else obind b f)"
  by simp

lemma print_specifier_rest:
  assumes "l \<in> set conversion_letters"
  shows "print_specifier m f w p b (l # rest) args =
    obind (print_specifier m f w p b [l] args) (\<lambda>(out, _, args). Ret (out, rest, args))"
  by (rule letter_cases [OF assms]; cases args)
     (simp_all add: print_specifier_def va_arg_def va_arg_from_width_signed_def va_arg_from_width_unsigned_def obind_assoc obind_if Let_def cong: if_cong)

lemma vsprintf_literal:
  "ch CHR ''%'' \<notin> set bs \<Longrightarrow> vsprintf m (bs @ fmt) args = obind (vsprintf m fmt args) (\<lambda>out. Ret (bs @ out))"
  by (induction bs) (auto simp: obind_assoc)

lemma conversion_text_head:
  assumes "conversion_ok c"
  shows "conversion_text c @ rest \<noteq> []" and "hd (conversion_text c @ rest) \<noteq> ch CHR ''%''"
proof -
  let ?M = "cv_modifier c @ cv_letter c # rest"
  have parts: "set (cv_flags c) \<subseteq> set (map of_char ''#+ 0'')" "cv_modifier c \<in> set (map fst modifiers)"
      "cv_letter c \<in> set conversion_letters"
    using assms by (auto simp: conversion_ok_def)
  have M: "hd ?M \<noteq> 37"
    using parts(2) by (rule modifier_cases) (rule letter_cases [OF parts(3)]; simp)+
  have digits: "hd (number_text w @ r) \<noteq> 37" for w r
  proof -
    have "number_text w \<noteq> []" "\<forall>c \<in> set (number_text w). ascii_is_numeric c"
      using number_text_decimal [of w] value_length_pos [of w 10] by (auto simp: decimal_text_def printed_length_def)
    then show ?thesis
      by (cases "number_text w") (auto simp: ascii_is_numeric_def)
  qed
  have split: "conversion_text c @ rest = cv_flags c @ (case cv_width c of None \<Rightarrow> [] | Some w \<Rightarrow> number_text w) @
      (case cv_precision c of None \<Rightarrow> [] | Some p \<Rightarrow> ch CHR ''.'' # number_text p) @ ?M"
    by (simp add: conversion_text_def)
  show "conversion_text c @ rest \<noteq> []"
    by (simp add: conversion_text_def)
  show "hd (conversion_text c @ rest) \<noteq> ch CHR ''%''"
    unfolding split using parts(1) M digits
    by (cases "cv_flags c"; cases "cv_width c"; cases "cv_precision c") auto
qed

lemma vsprintf_item:
  assumes "item_ok i"
  shows "vsprintf m (item_text i @ fmt) args =
    obind (print_item m i args) (\<lambda>(out, args). obind (vsprintf m fmt args) (\<lambda>rest. Ret (out @ rest)))"
proof (cases i)
  case (Conversion c)
  then have ok: "conversion_ok c"
    using assms by simp
  then have "cv_letter c \<in> set conversion_letters"
    by (simp add: conversion_ok_def)
  note step = print_conversion_text [OF ok] print_specifier_rest [OF this]
  have "vsprintf m (item_text i @ fmt) args = obind (print_conversion m (conversion_text c @ fmt) args)
      (\<lambda>(printed, fmt, args). obind (vsprintf m fmt args) (\<lambda>out. Ret (printed @ out)))"
    using conversion_text_head [OF ok, of fmt] by (simp add: Conversion)
  also have "\<dots> = obind (print_item m i args) (\<lambda>(out, args). obind (vsprintf m fmt args) (\<lambda>rest. Ret (out @ rest)))"
    by (subst step(1), subst step(2), unfold print_item_def Conversion format_item.case obind_assoc)
       (rule obind_cong [OF refl], auto)
  finally show ?thesis .
qed (use assms in \<open>simp_all add: print_item_def vsprintf_literal\<close>)

section \<open>Properties\<close>

text \<open>C36: Printed numbers read back: what is printed after the sign or the prefix consists of digits of the base, in lower or
  upper case as asked for in hexadecimal, is as long as the number needs or as the precision asks for, and has the number as
  its value. In hexadecimal a precision above sixteen counts as sixteen. For signed numbers this leaves out the smallest
  \<^verbatim>\<open>long\<close>, which has no negation.\<close>

theorem print_numbers_roundtrip:
  "(\<exists>ds. print_decimal_unsigned v p pl sp = sign_char pl sp @ ds \<and> decimal_text v p ds) \<and>
   (v \<noteq> 0x8000000000000000 \<longrightarrow>
     (\<exists>ds. print_decimal_signed v p pl sp = (if sint v < 0 then [ch CHR ''-''] else sign_char pl sp) @ ds \<and>
       decimal_text (if sint v < 0 then - v else v) p ds)) \<and>
   (\<exists>ds. print_hex v pl sp p = (if pl then [ch CHR ''0'', ch CHR ''x''] else []) @ ds \<and>
     set ds \<subseteq> set (map of_char (if sp then ''0123456789ABCDEF'' else ''0123456789abcdef'')) \<and>
     hex_value ds = unat v \<and> length ds = printed_length 16 v (min p 16))"
  using print_decimal_unsigned_text print_decimal_signed_text print_hex_text by blast

theorem print_numbers_roundtrip_witness:
  "(\<exists>ds. print_decimal_signed (- 42) 4 True False = ch CHR ''-'' # ds \<and> decimal_text 42 4 ds \<and> length ds = 4) \<and>
   (\<exists>ds. print_hex 0x1f True False 20 = [ch CHR ''0'', ch CHR ''x''] @ ds \<and> hex_value ds = 31 \<and> length ds = 16)"
proof -
  have "printed_length 10 42 4 = 4" "printed_length 16 0x1f 16 = 16"
    by (simp_all add: printed_length_def value_length.simps)
  then show ?thesis
    using print_numbers_roundtrip [of "- 42" 4 True False] print_numbers_roundtrip [of "0x1f" 20 True False]
    by (auto simp: decimal_text_def simp del: list.map)
qed

text \<open>C9: \<^verbatim>\<open>vsprintf\<close> reads every format string that is written as literal text, percent signs and conversion
  specifications exactly as it was written: flags, width, precision, size and letter are the ones
  meant, the arguments are used in order, and the output is that of the items one after the other. In
  particular it returns whenever every argument is there and every string has an end.\<close>

theorem vsprintf_correct:
  assumes "\<forall>i \<in> set items. item_ok i"
  shows "vsprintf m (concat (map item_text items)) args = print_items m items args"
  using assms
proof (induction items arbitrary: args)
  case Nil
  then show ?case by simp
next
  case (Cons i items)
  then show ?case
    by (simp add: vsprintf_item case_prod_beta)
qed

text \<open>The format \<^verbatim>\<open>"%s=%u%%"\<close>.\<close>

definition demo_format :: "format_item list" where
  "demo_format = [Conversion \<lparr>cv_flags = [], cv_width = None, cv_precision = None, cv_modifier = [], cv_letter = ch CHR ''s''\<rparr>,
     Literal [ch CHR ''=''],
     Conversion \<lparr>cv_flags = [], cv_width = None, cv_precision = None, cv_modifier = [], cv_letter = ch CHR ''u''\<rparr>, Percent_Sign]"

theorem vsprintf_correct_witness:
  "vsprintf demo_memory (map of_char ''%s=%u%%'') [0x1000, 42] = Ret (map of_char ''arg=42%'')"
proof -
  have fmt: "concat (map item_text demo_format) = map of_char ''%s=%u%%''"
    by (simp add: demo_format_def conversion_text_def)
  have ok: "\<forall>i \<in> set demo_format. item_ok i"
    by (simp add: demo_format_def conversion_ok_def conversion_letters_def modifiers_def)
  have "read_bytes 0x1000 3 demo_memory = [0x61, 0x72, 0x67]"
    by (simp add: demo_memory_def numeral_3_eq_3)
  moreover have "value_length 42 10 = Suc (Suc 0)"
    by (simp add: value_length.simps)
  moreover have "strlen demo_memory 0x1000 = Ret 3"
    using strings_facts(1) [OF demo_strings] by simp
  ultimately have "print_items demo_memory demo_format [0x1000, 42] = Ret (map of_char ''arg=42%'')"
    by (simp add: demo_format_def print_item_def print_specifier_def va_arg_def va_arg_from_width_unsigned_def flags_of_def
        pad_def print_decimal_unsigned_def sign_char_def leading_zeros_def modifier_bits_def modifiers_def)
  then show ?thesis
    using vsprintf_correct [OF ok, of demo_memory "[0x1000, 42]"] unfolding fmt by simp
qed

end
