(* ===== verification/Trap.thy ===== *)
theory Trap
  imports Scheduler Device C_String
begin

text \<open>
  Exceptions and interrupts of \<^verbatim>\<open>arch/x86_64/idt.c\<close>: the interrupt descriptor table, the handlers of
  processor exceptions and of the timer, and the dispatch on the interrupt number; with the task state segment of
  \<^verbatim>\<open>gdt.c\<close>, whose descriptor packs an address the same way. What the handlers only print is left out, except that
  printing the call stack follows a chain of frame pointers and may never end.
\<close>

section \<open>Descriptors\<close>

record idt_entry =
  base_low :: u16
  segment :: u16
  ist_index :: u8
  gate :: u8
  base_mid :: u16
  base_high :: u32

definition IDT_GATE_INTERRUPT :: u8 where "IDT_GATE_INTERRUPT = 0xe"
definition INTERRUPT_PRESENT :: u8 where "INTERRUPT_PRESENT = 0x80"

type_synonym idt = "u8 \<Rightarrow> idt_entry"

definition idt_set_entry :: "u8 \<Rightarrow> u16 \<Rightarrow> u64 \<Rightarrow> u8 \<Rightarrow> u8 \<Rightarrow> idt \<Rightarrow> idt" where
  "idt_set_entry index sgm entry_offset gate_type dpl table = table(index := (table index)
     \<lparr>base_low := ucast (entry_offset AND 0xffff), base_mid := ucast (drop_bit 16 entry_offset AND 0xffff),
      base_high := ucast (drop_bit 32 entry_offset AND 0xffffffff),
      gate := gate_type OR push_bit 5 dpl OR INTERRUPT_PRESENT, segment := sgm, ist_index := 0\<rparr>)"

text \<open>The handlers of \<^verbatim>\<open>irq.S\<close>: \<open>isr\<close> and \<open>irq_pointers\<close> give their addresses by vector.\<close>

definition exception_vectors :: "u8 list" where
  "exception_vectors = [0, 1, 2, 3, 4, 5, 6, 7, 8, 0xa, 0xb, 0xc, 0xd, 0xe]"

definition idt_init :: "(u8 \<Rightarrow> u64) \<Rightarrow> (u8 \<Rightarrow> u64) \<Rightarrow> u64 \<Rightarrow> idt \<times> kernel \<Rightarrow> (ir_status \<times> idt \<times> kernel) outcome" where
  "idt_init isr irq_pointers isr_spurious = (\<lambda>(table, s).
     let table = fold (\<lambda>i. idt_set_entry i 0x8 (isr i) IDT_GATE_INTERRUPT 0) exception_vectors table;
         table = idt_set_entry 32 0x8 (isr 32) IDT_GATE_INTERRUPT 0 table;
         table = fold (\<lambda>i. idt_set_entry (of_nat i) 0x8 (irq_pointers (of_nat i)) IDT_GATE_INTERRUPT 0) [34..<255] table;
         table = idt_set_entry 0xff 0x8 isr_spurious IDT_GATE_INTERRUPT 0 table
     in obind (interrupt_reserve 0xff s) (\<lambda>(status, s). Ret (status, table, s)))"

text \<open>Where the processor goes through a gate.\<close>

definition gate_target :: "idt_entry \<Rightarrow> u64" where
  "gate_target e = ucast (base_low e) OR push_bit 16 (ucast (base_mid e)) OR push_bit 32 (ucast (base_high e))"

definition gate_present :: "idt_entry \<Rightarrow> bool" where
  "gate_present e \<longleftrightarrow> gate e AND INTERRUPT_PRESENT \<noteq> 0"

record gdt_tss_entry =
  ts_limit_low :: u16
  ts_base_low :: u16
  ts_base_mid :: u8
  ts_access :: u8
  ts_granularity :: u8
  ts_base_high :: u8
  ts_base_highest :: u32

definition BOOT_STACK_SIZE :: u64 where "BOOT_STACK_SIZE = 16384"

text \<open>The entry as \<^verbatim>\<open>init_tss\<close> leaves it for a segment at \<open>base\<close> of 104 bytes, and the boot stack's top.\<close>

definition init_tss :: "u64 \<Rightarrow> u64 \<Rightarrow> gdt_tss_entry \<Rightarrow> kernel \<Rightarrow> gdt_tss_entry \<times> kernel" where
  "init_tss base stack tss_entry s =
     (tss_entry\<lparr>ts_base_low := ucast (base AND 0xffff), ts_base_mid := ucast (drop_bit 16 base AND 0xff),
        ts_base_high := ucast (drop_bit 24 base AND 0xff), ts_base_highest := ucast (drop_bit 32 base),
        ts_access := 0x89, ts_limit_low := ucast ((104 - 1) AND 0xffff :: u64),
        ts_granularity := ucast (drop_bit 16 (104 - 1) AND 0xf :: u64) OR 0x10\<rparr>,
      s\<lparr>interrupt_stack := stack + BOOT_STACK_SIZE - 16\<rparr>)"

definition tss_base :: "gdt_tss_entry \<Rightarrow> u64" where
  "tss_base e = ucast (ts_base_low e) OR push_bit 16 (ucast (ts_base_mid e)) OR push_bit 24 (ucast (ts_base_high e)) OR
     push_bit 32 (ucast (ts_base_highest e))"

definition arch_set_interrupt_stack :: "u64 \<Rightarrow> kernel \<Rightarrow> kernel" where
  "arch_set_interrupt_stack stack_top s = s\<lparr>interrupt_stack := stack_top\<rparr>"

section \<open>Exceptions\<close>

record trap_context =
  regs :: registers
  reg_rbp :: u64
  interrupt_number :: u64
  error_code :: u64

text \<open>The return addresses that a stack trace prints: it ends at the first frame below the kernel's half.\<close>

partial_function (option) stack_frames :: "memory \<Rightarrow> ptr \<Rightarrow> u64 list option" where
  "stack_frames m frame =
     (if 0xFFFF800000000000 < frame
      then Option.bind (stack_frames m (read_word frame m)) (\<lambda>rest. Some (read_word (frame + 8) m # rest))
      else Some [])"

declare stack_frames.simps [code]

definition print_stack_trace :: "u64 \<Rightarrow> u64 \<Rightarrow> kernel \<Rightarrow> u64 list outcome" where
  "print_stack_trace rbp ip s =
     (if ip = 0 \<or> rbp = 0 then Ret []
      else case stack_frames (memory s) rbp of None \<Rightarrow> Hang | Some frames \<Rightarrow> Ret (ip # frames))"

text \<open>\<^verbatim>\<open>panic\<close> prints the stack trace again and halts.\<close>

definition panic :: "trap_context \<Rightarrow> kernel \<Rightarrow> 'a outcome" where
  "panic context s = obind (print_stack_trace (reg_rbp context) (rip (regs context)) s) (\<lambda>_. Panic)"

definition exception :: "trap_context \<Rightarrow> kernel \<Rightarrow> 'a outcome" where
  "exception context s = obind (print_stack_trace (reg_rbp context) (rip (regs context)) s) (\<lambda>_. panic context s)"

definition double_fault :: "trap_context \<Rightarrow> kernel \<Rightarrow> 'a outcome" where
  "double_fault context s = obind (print_stack_trace (reg_rbp context) (rip (regs context)) s) (\<lambda>_. panic context s)"

definition terminate_current :: "nat \<Rightarrow> ptr \<Rightarrow> kernel \<Rightarrow> (bool \<times> kernel) outcome" where
  "terminate_current depth kernel_pml4 s =
     obind (upd_thread (current_thread s) (\<lambda>t. t\<lparr>th_state := TERMINATING, th_exit_code := -1\<rparr>) s)
       (switch_task depth kernel_pml4 True)"

definition general_protection_fault :: "nat \<Rightarrow> ptr \<Rightarrow> trap_context \<Rightarrow> kernel \<Rightarrow> (bool \<times> kernel) outcome" where
  "general_protection_fault depth kernel_pml4 context s =
     obind (print_stack_trace (reg_rbp context) (rip (regs context)) s) (\<lambda>_.
     if reg_cs (regs context) = 0x8 then panic context s else terminate_current depth kernel_pml4 s)"

text \<open>The number of the current thread is read for the report if there is a current thread.\<close>

definition page_fault :: "nat \<Rightarrow> ptr \<Rightarrow> trap_context \<Rightarrow> kernel \<Rightarrow> (bool \<times> kernel) outcome" where
  "page_fault depth kernel_pml4 context s =
     obind (if current_thread s \<noteq> NULL then obind (load (threads s) (current_thread s)) (\<lambda>_. Ret ()) else Ret ()) (\<lambda>_.
     obind (print_stack_trace (reg_rbp context) (rip (regs context)) s) (\<lambda>_.
     if reg_cs (regs context) = 0x8 then panic context s else terminate_current depth kernel_pml4 s))"

section \<open>Interrupts\<close>

text \<open>The context is copied without the two segment bases at its end.\<close>

definition timer_fired :: "nat \<Rightarrow> ptr \<Rightarrow> trap_context \<Rightarrow> kernel \<Rightarrow> (bool \<times> kernel) outcome" where
  "timer_fired depth kernel_pml4 context s =
     (let s = s\<lparr>microseconds_since_boot := microseconds_since_boot s + 10000\<rparr> in
      obind (upd_thread (current_thread s) (\<lambda>t. t\<lparr>th_context := (regs context)\<lparr>gs_base := gs_base (th_context t)\<rparr>\<rparr>) s)
        (switch_task depth kernel_pml4 True))"

text \<open>The first component tells whether the end of the interrupt was signalled to the controller.\<close>

definition interrupt_handler :: "nat \<Rightarrow> ptr \<Rightarrow> trap_context \<Rightarrow> kernel \<Rightarrow> (bool \<times> bool \<times> kernel) outcome" where
  "interrupt_handler depth kernel_pml4 context s =
     (let n = interrupt_number context; eoi = 32 \<le> n in
      obind (if n = 0x8 then double_fault context s
             else if n = 0xd then general_protection_fault depth kernel_pml4 context s
             else if n = 0xe then page_fault depth kernel_pml4 context s
             else if n = 32 then timer_fired depth kernel_pml4 context s
             else exception context s) (\<lambda>(switched, s).
      Ret (eoi, switched, s)))"

section \<open>Packed addresses\<close>

lemma field_low: "(ucast (ucast (x AND 0xffff :: u64) :: u16) :: u64) = take_bit 16 x"
proof -
  have m: "(0xffff :: u64) = mask 16"
    by (simp add: mask_eq_exp_minus_1)
  show ?thesis
    unfolding m by (rule bit_word_eqI, auto simp: bit_simps)
qed

lemma field_mid: "(ucast (ucast (drop_bit 16 x AND 0xffff :: u64) :: u16) :: u64) = take_bit 16 (drop_bit 16 x)"
  using field_low [of "drop_bit 16 x"] by simp

lemma field_high: "(ucast (ucast (drop_bit 32 x AND 0xffffffff :: u64) :: u32) :: u64) = drop_bit 32 x"
proof -
  have m: "(0xffffffff :: u64) = mask 32"
    by (simp add: mask_eq_exp_minus_1)
  show ?thesis
    unfolding m by (rule bit_word_eqI, auto simp: bit_simps) (drule bit_imp_le_length, simp)+
qed

lemma field_byte: "(ucast (ucast (x AND 0xff :: u64) :: u8) :: u64) = take_bit 8 x"
proof -
  have m: "(0xff :: u64) = mask 8"
    by (simp add: mask_eq_exp_minus_1)
  show ?thesis
    unfolding m by (rule bit_word_eqI, auto simp: bit_simps)
qed

lemma field_highest: "(ucast (ucast (drop_bit 32 (x :: u64)) :: u32) :: u64) = drop_bit 32 x"
  by (rule bit_word_eqI, auto simp: bit_simps) (drule bit_imp_le_length, simp)

lemma gate_target_set_entry: "gate_target (idt_set_entry i sgm off g d table i) = off"
proof -
  have "take_bit 16 off OR push_bit 16 (take_bit 16 (drop_bit 16 off)) OR push_bit 32 (drop_bit 32 off) = off"
    by (rule bit_word_eqI, rename_tac n) (case_tac "n < 16"; case_tac "n < 32"; simp add: bit_simps; arith)
  then show ?thesis
    by (simp add: gate_target_def idt_set_entry_def field_low field_mid field_high)
qed

lemma gate_present_set_entry: "gate_present (idt_set_entry i sgm off IDT_GATE_INTERRUPT 0 table i)"
  by (simp add: gate_present_def idt_set_entry_def IDT_GATE_INTERRUPT_def INTERRUPT_PRESENT_def)

lemma idt_set_entry_other: "j \<noteq> i \<Longrightarrow> idt_set_entry i sgm off g d table j = table j"
  by (simp add: idt_set_entry_def)

lemma tss_base_init: "tss_base (fst (init_tss base stk e s)) = base"
proof -
  have "take_bit 16 base OR push_bit 16 (take_bit 8 (drop_bit 16 base)) OR push_bit 24 (take_bit 8 (drop_bit 24 base)) OR
      push_bit 32 (drop_bit 32 base) = base"
    by (rule bit_word_eqI, rename_tac n) (case_tac "n < 16"; case_tac "n < 24"; case_tac "n < 32"; simp add: bit_simps; arith)
  then show ?thesis
    by (simp add: tss_base_def init_tss_def field_low field_byte field_highest)
qed

definition leads_to :: "idt_entry \<Rightarrow> u64 \<Rightarrow> bool" where
  "leads_to e handler \<longleftrightarrow> gate_present e \<and> gate_target e = handler"

lemma leads_to_set_entry:
  "idt_set_entry i sgm off IDT_GATE_INTERRUPT 0 table v = table v \<or> v = i"
  "leads_to (idt_set_entry i sgm off IDT_GATE_INTERRUPT 0 table i) off"
  by (auto simp: leads_to_def gate_target_set_entry gate_present_set_entry idt_set_entry_other)

lemma fold_set_entry:
  "v \<in> set xs \<Longrightarrow> leads_to (fold (\<lambda>i. idt_set_entry i sgm (h i) IDT_GATE_INTERRUPT 0) xs table v) (h v)"
  "v \<notin> set xs \<Longrightarrow> fold (\<lambda>i. idt_set_entry i sgm (h i) IDT_GATE_INTERRUPT 0) xs table v = table v"
proof (induction xs arbitrary: table rule: rev_induct)
  case (snoc x xs)
  {
    case 1
    then show ?case
      using snoc.IH leads_to_set_entry by (cases "v = x") (auto simp: idt_set_entry_other)
  next
    case 2
    then show ?case
      using snoc.IH by (simp add: idt_set_entry_other)
  }
qed simp_all

text \<open>The routine that each vector is meant to reach; the others have none.\<close>

definition vector_handler :: "(u8 \<Rightarrow> u64) \<Rightarrow> (u8 \<Rightarrow> u64) \<Rightarrow> u64 \<Rightarrow> u8 \<Rightarrow> u64 option" where
  "vector_handler isr irq_pointers isr_spurious v =
     (if v = 0xff then Some isr_spurious else if 34 \<le> v then Some (irq_pointers v)
      else if v = 32 \<or> v \<in> set exception_vectors then Some (isr v) else None)"

definition irq_list :: "u8 list" where
  "irq_list = map of_nat [34..<255]"

lemma irq_vectors: "set irq_list = {v :: u8. 34 \<le> v \<and> v \<noteq> 0xff}"
proof -
  have fwd: "v \<in> of_nat ` {34..<255}" if "34 \<le> v" "v \<noteq> 0xff" for v :: u8
  proof
    show "v = of_nat (unat v)" by simp
    have "unat v < 2 ^ LENGTH(8)"
      by (rule unsigned_less)
    then have "unat v \<le> 255"
      by simp
    moreover have "unat v \<noteq> 255"
      using that(2) by (simp add: word_unat_eq_iff)
    ultimately show "unat v \<in> {34..<255}"
      using that(1) by (simp add: word_le_nat_alt)
  qed
  have bwd: "34 \<le> (of_nat n :: u8) \<and> (of_nat n :: u8) \<noteq> 0xff" if "n \<in> {34..<255}" for n
  proof -
    have "unat (of_nat n :: u8) = n"
      using that by (simp add: unat_of_nat)
    then show ?thesis
      using that by (auto simp: word_le_nat_alt)
  qed
  have "of_nat ` {34..<255} = {v :: u8. 34 \<le> v \<and> v \<noteq> 0xff}"
  proof (intro equalityI subsetI)
    fix v :: u8
    assume "v \<in> of_nat ` {34..<255}"
    then obtain n where "v = of_nat n" "n \<in> {34..<255}" by (rule imageE)
    then show "v \<in> {v. 34 \<le> v \<and> v \<noteq> 0xff}"
      using bwd [of n] by simp
  qed (use fwd in simp)
  then show ?thesis
    unfolding irq_list_def set_map set_upt .
qed

lemma idt_init_table:
  assumes "idt_init isr irqp sp (table, s) = Ret (status, table', s')"
  shows "case vector_handler isr irqp sp v of Some handler \<Rightarrow> leads_to (table' v) handler | None \<Rightarrow> table' v = table v"
proof -
  define t1 where "t1 = fold (\<lambda>i. idt_set_entry i 0x8 (isr i) IDT_GATE_INTERRUPT 0) exception_vectors table"
  define t2 where "t2 = idt_set_entry 32 0x8 (isr 32) IDT_GATE_INTERRUPT 0 t1"
  define t3 where "t3 = fold (\<lambda>i. idt_set_entry i 0x8 (irqp i) IDT_GATE_INTERRUPT 0) irq_list t2"
  have table': "table' = idt_set_entry 0xff 0x8 sp IDT_GATE_INTERRUPT 0 t3"
    using assms by (auto simp: idt_init_def Let_def outcome_simps t1_def t2_def t3_def irq_list_def fold_map comp_def)
  have notin: "v \<notin> set exception_vectors" if "34 \<le> v \<or> v = 32"
    using that by (auto simp: exception_vectors_def word_le_nat_alt)
  consider "v = 0xff" | "34 \<le> v" "v \<noteq> 0xff" | "v = 32" | "v < 34" "v \<noteq> 32" "v \<in> set exception_vectors"
    | "v < 34" "v \<noteq> 32" "v \<notin> set exception_vectors"
    by (meson not_le)
  then show ?thesis
  proof cases
    case 1
    then show ?thesis
      by (simp add: table' vector_handler_def leads_to_set_entry)
  next
    case 2
    then have "v \<in> set irq_list"
      unfolding irq_vectors by simp
    then have "leads_to (t3 v) (irqp v)"
      unfolding t3_def by (rule fold_set_entry(1))
    then show ?thesis
      using 2 by (simp add: table' vector_handler_def idt_set_entry_other)
  next
    case 3
    then have "t3 v = t2 v"
      unfolding t3_def by (intro fold_set_entry(2)) (simp add: irq_vectors)
    then show ?thesis
      using 3 by (simp add: table' vector_handler_def idt_set_entry_other t2_def leads_to_set_entry)
  next
    case 4
    then have "v \<noteq> 0xff" "v \<notin> set irq_list"
      unfolding irq_vectors by (auto simp: not_le [symmetric])
    moreover from this have "t3 v = t2 v"
      unfolding t3_def by (intro fold_set_entry(2))
    moreover have "\<not> 34 \<le> v"
      using 4 by (simp add: not_le)
    ultimately show ?thesis
      using 4 by (simp add: table' vector_handler_def idt_set_entry_other fold_set_entry t2_def t1_def del: not_le)
  next
    case 5
    then have "v \<noteq> 0xff" "v \<notin> set irq_list"
      unfolding irq_vectors by (auto simp: not_le [symmetric])
    moreover from this have "t3 v = t2 v"
      unfolding t3_def by (intro fold_set_entry(2))
    moreover have "\<not> 34 \<le> v"
      using 5 by (simp add: not_le)
    ultimately show ?thesis
      using 5 by (simp add: table' vector_handler_def idt_set_entry_other fold_set_entry t2_def t1_def del: not_le)
  qed
qed

section \<open>Stack traces\<close>

text \<open>A chain of frame pointers that leaves the kernel's half after finitely many frames.\<close>

inductive frames_end :: "memory \<Rightarrow> ptr \<Rightarrow> bool" for m where
  outside: "\<not> 0xFFFF800000000000 < frame \<Longrightarrow> frames_end m frame"
| caller: "0xFFFF800000000000 < frame \<Longrightarrow> frames_end m (read_word frame m) \<Longrightarrow> frames_end m frame"

inductive_cases frames_endE: "frames_end m frame"

lemma stack_frames_ends: "frames_end m frame \<Longrightarrow> \<exists>r. stack_frames m frame = Some r"
  by (induction rule: frames_end.induct) (subst stack_frames.simps; auto)+

lemma stack_frames_only_ends:
  assumes "stack_frames m frame = Some r"
  shows "frames_end m frame"
proof (rule stack_frames.raw_induct [OF _ assms, where P = "\<lambda>m frame r. frames_end m frame"], goal_cases)
  case (1 loop m frame r)
  then show ?case
    by (auto simp: bind_eq_Some_conv intro: frames_end.intros split: if_splits)
qed

definition trace_ends :: "trap_context \<Rightarrow> kernel \<Rightarrow> bool" where
  "trace_ends context s \<longleftrightarrow> rip (regs context) = 0 \<or> reg_rbp context = 0 \<or> frames_end (memory s) (reg_rbp context)"

lemma print_stack_trace_ends: "trace_ends c s \<longleftrightarrow> (\<exists>r. print_stack_trace (reg_rbp c) (rip (regs c)) s = Ret r)"
  using stack_frames_ends stack_frames_only_ends
  by (fastforce simp: trace_ends_def print_stack_trace_def split: option.splits)

lemma panic_ends: "trace_ends c s \<Longrightarrow> panic c s = Panic" "trace_ends c s \<Longrightarrow> exception c s = Panic"
    "trace_ends c s \<Longrightarrow> double_fault c s = Panic"
  by (auto simp: print_stack_trace_ends panic_def exception_def double_fault_def)

section \<open>Properties\<close>

lemma switch_runnable:
  assumes due: "nothing_due s" and cur: "current_thread s \<noteq> idle_thread s" and q: "run_queue s = n # q" and n: "runnable s n"
  shows "\<exists>s'. switch_task depth pml4 True s = Ret (True, s') \<and> current_thread s' = n \<and>
    run_queue s' = q @ [current_thread s] \<and> threads s' = threads s \<and> microseconds_since_boot s' = microseconds_since_boot s"
proof -
  obtain th x space where "threads s n = Some th" "th_state th = ACTIVE" "objs s n = Some x" "spaces s (ob_parent x) = Some space"
    using n by (auto simp: runnable_def)
  then show ?thesis
    using cur q by (simp add: switch_task_def wake_none [OF due] run_next.simps enter_thread_def Let_def)
qed

text \<open>C14: Every interrupt number has the handler it should: a protection fault or a page fault outside the kernel
  ends the thread that caused it with the exit code -1 and runs the next one, the timer advances the
  clock by ten milliseconds, saves the interrupted context and runs the next thread, and everything
  else stops the machine: a fault in the kernel, but also any other exception of a user thread. All this is
  provided that the chain of stack frames that is printed comes to an end.\<close>

theorem interrupt_handler_correct:
  assumes ends: "trace_ends c s" and cur: "threads s (current_thread s) = Some t" "current_thread s \<noteq> NULL"
      "current_thread s \<noteq> idle_thread s"
    and q: "run_queue s = n # q" "n \<noteq> current_thread s" "runnable s n"
    and due: "waiting_for_signals s = []" "sleeping_threads s = []"
  shows "(interrupt_number c \<in> {0xd, 0xe} \<and> reg_cs (regs c) \<noteq> 0x8 \<longrightarrow>
      (\<exists>s'. interrupt_handler depth pml4 c s = Ret (False, True, s') \<and> current_thread s' = n \<and>
        run_queue s' = q @ [current_thread s] \<and>
        threads s' (current_thread s) = Some (t\<lparr>th_state := TERMINATING, th_exit_code := -1\<rparr>))) \<and>
    (interrupt_number c = 32 \<longrightarrow>
      (\<exists>s'. interrupt_handler depth pml4 c s = Ret (True, True, s') \<and> current_thread s' = n \<and>
        run_queue s' = q @ [current_thread s] \<and> microseconds_since_boot s' = microseconds_since_boot s + 10000 \<and>
        threads s' (current_thread s) = Some (t\<lparr>th_context := (regs c)\<lparr>gs_base := gs_base (th_context t)\<rparr>\<rparr>))) \<and>
    (interrupt_number c \<notin> {0xd, 0xe, 32} \<or> interrupt_number c \<in> {0xd, 0xe} \<and> reg_cs (regs c) = 0x8 \<longrightarrow>
      interrupt_handler depth pml4 c s = Panic)"
proof (intro conjI impI)
  obtain r where r: "print_stack_trace (reg_rbp c) (rip (regs c)) s = Ret r"
    using ends print_stack_trace_ends by blast
  {
    assume fault: "interrupt_number c \<in> {0xd, 0xe} \<and> reg_cs (regs c) \<noteq> 0x8"
    let ?s = "s\<lparr>threads := (threads s)(current_thread s \<mapsto> t\<lparr>th_state := TERMINATING, th_exit_code := -1\<rparr>)\<rparr>"
    have "runnable ?s n" "nothing_due ?s"
      using q due by (auto simp: runnable_def nothing_due_def)
    then obtain s' where "switch_task depth pml4 True ?s = Ret (True, s')" "current_thread s' = n"
        "run_queue s' = q @ [current_thread s]" "threads s' = threads ?s"
      using switch_runnable [of ?s n q depth pml4] cur q by auto
    then show "\<exists>s'. interrupt_handler depth pml4 c s = Ret (False, True, s') \<and> current_thread s' = n \<and>
        run_queue s' = q @ [current_thread s] \<and>
        threads s' (current_thread s) = Some (t\<lparr>th_state := TERMINATING, th_exit_code := -1\<rparr>)"
      using fault cur r by (auto simp: interrupt_handler_def general_protection_fault_def page_fault_def terminate_current_def Let_def)
  next
    assume timer: "interrupt_number c = 32"
    let ?s = "s\<lparr>microseconds_since_boot := microseconds_since_boot s + 10000,
      threads := (threads s)(current_thread s \<mapsto> t\<lparr>th_context := (regs c)\<lparr>gs_base := gs_base (th_context t)\<rparr>\<rparr>)\<rparr>"
    have "runnable ?s n" "nothing_due ?s"
      using q due by (auto simp: runnable_def nothing_due_def)
    then obtain s' where "switch_task depth pml4 True ?s = Ret (True, s')" "current_thread s' = n"
        "run_queue s' = q @ [current_thread s]" "threads s' = threads ?s" "microseconds_since_boot s' = microseconds_since_boot ?s"
      using switch_runnable [of ?s n q depth pml4] cur q by auto
    then show "\<exists>s'. interrupt_handler depth pml4 c s = Ret (True, True, s') \<and> current_thread s' = n \<and>
        run_queue s' = q @ [current_thread s] \<and> microseconds_since_boot s' = microseconds_since_boot s + 10000 \<and>
        threads s' (current_thread s) = Some (t\<lparr>th_context := (regs c)\<lparr>gs_base := gs_base (th_context t)\<rparr>\<rparr>)"
      using timer cur by (auto simp: interrupt_handler_def timer_fired_def Let_def)
  next
    assume "interrupt_number c \<notin> {0xd, 0xe, 32} \<or> interrupt_number c \<in> {0xd, 0xe} \<and> reg_cs (regs c) = 0x8"
    then show "interrupt_handler depth pml4 c s = Panic"
      using r cur
      by (auto simp: panic_ends [OF ends] interrupt_handler_def general_protection_fault_def page_fault_def Let_def)
  }
qed

definition demo_fault :: trap_context where
  "demo_fault = \<lparr>regs = blank_registers\<lparr>rip := 0x401000, reg_cs := 0x23\<rparr>, reg_rbp = 0x7fff0, interrupt_number = 0xe, error_code = 4\<rparr>"

theorem interrupt_handler_correct_witness:
  "\<exists>s'. interrupt_handler 5 0 demo_fault demo_scheduler = Ret (False, True, s') \<and> current_thread s' = 0x20 \<and>
     run_queue s' = [0x30, 0x10] \<and>
     threads s' 0x10 = Some ((new_thread 1)\<lparr>th_state := TERMINATING, th_exit_code := -1\<rparr>)"
proof -
  have "trace_ends demo_fault demo_scheduler"
    by (simp add: trace_ends_def demo_fault_def frames_end.outside)
  moreover have "runnable demo_scheduler 0x20"
    by (simp add: runnable_def demo_scheduler_def new_thread_def new_object_def)
  ultimately show ?thesis
    using interrupt_handler_correct [of demo_fault demo_scheduler "new_thread 1" "0x20" "[0x30]" 5 0]
    by (simp add: demo_scheduler_def blank_kernel_def demo_fault_def)
qed

text \<open>The interrupt table sends every vector to its routine: the processor's exceptions and the timer to
  theirs, the vectors from 34 on to the general interrupt entry of that number and the last one to
  the spurious interrupt routine, which no interrupt object can take afterwards; the other entries stay
  as they were. The descriptor of the task state segment unpacks to its address.\<close>

theorem idt_init_correct:
  assumes "idt_init isr irq_pointers isr_spurious (table, s) = Ret (status, table', s')"
  shows "(\<forall>v. case vector_handler isr irq_pointers isr_spurious v of
        Some handler \<Rightarrow> leads_to (table' v) handler | None \<Rightarrow> table' v = table v) \<and>
    (length (interrupt_table s) = NUMBER_OF_INTERRUPTS \<longrightarrow> interrupt_table s' ! 255 \<noteq> NULL \<and>
      interrupt_create 255 irq s' = Ret (IR_ERROR_ALREADY_EXISTS, NULL, s')) \<and>
    tss_base (fst (init_tss base stk e s)) = base"
proof (intro conjI allI impI)
  show "case vector_handler isr irq_pointers isr_spurious v of
      Some handler \<Rightarrow> leads_to (table' v) handler | None \<Rightarrow> table' v = table v" for v
    by (rule idt_init_table [OF assms])
  assume len: "length (interrupt_table s) = NUMBER_OF_INTERRUPTS"
  have s': "interrupt_reserve 0xff s = Ret (status, s')"
    using assms by (auto simp: idt_init_def Let_def outcome_simps)
  then show taken: "interrupt_table s' ! 255 \<noteq> NULL"
    using len by (auto simp: interrupt_reserve_def interrupt_slot_def NUMBER_OF_INTERRUPTS_def split: if_splits)
  have "length (interrupt_table s') = NUMBER_OF_INTERRUPTS"
    using s' len by (auto simp: interrupt_reserve_def outcome_simps split: if_splits)
  then show "interrupt_create 255 irq s' = Ret (IR_ERROR_ALREADY_EXISTS, NULL, s')"
    using taken by (simp add: interrupt_create_def interrupt_slot_def NUMBER_OF_INTERRUPTS_def)
qed (rule tss_base_init)

text \<open>Handlers at the addresses that their vectors spell.\<close>

definition demo_idt :: "(ir_status \<times> idt \<times> kernel) outcome" where
  "demo_idt = idt_init (\<lambda>v. 0xffffffff80001000 + 16 * ucast v) (\<lambda>v. 0xffffffff80008000 + 16 * ucast v) 0xffffffff8000ff00
     (\<lambda>_. \<lparr>base_low = 0, segment = 0, ist_index = 0, gate = 0, base_mid = 0, base_high = 0\<rparr>,
      blank_kernel\<lparr>interrupt_table := replicate NUMBER_OF_INTERRUPTS 0\<rparr>)"

theorem idt_init_correct_witness:
  "\<exists>table' s'. demo_idt = Ret (IR_OK, table', s') \<and> leads_to (table' 14) 0xffffffff800010e0 \<and>
     leads_to (table' 34) 0xffffffff80008220 \<and> \<not> gate_present (table' 9) \<and>
     interrupt_create 255 1 s' = Ret (IR_ERROR_ALREADY_EXISTS, NULL, s')"
proof -
  obtain table' s' where r: "demo_idt = Ret (IR_OK, table', s')"
    by (auto simp: demo_idt_def idt_init_def Let_def interrupt_reserve_def interrupt_slot_def NUMBER_OF_INTERRUPTS_def)
  note facts = idt_init_correct [OF r [unfolded demo_idt_def], THEN conjunct1]
    idt_init_correct [OF r [unfolded demo_idt_def], of 1, THEN conjunct2, THEN conjunct1]
  show ?thesis
    using r spec [OF facts(1), of 14] spec [OF facts(1), of 34] spec [OF facts(1), of 9] facts(2)
    by (intro exI [of _ table'] exI [of _ s']) (simp add: vector_handler_def exception_vectors_def gate_present_def)
qed

end
