(* ===== verification/Boot.thy ===== *)
theory Boot
  imports Frame_Allocator Channel Scheduler C_String
begin

text \<open>
  Starting the kernel: the memory maps and the tags that the boot loader leaves (\<^verbatim>\<open>arch/x86_64/main.c\<close>), bringing up the
  memory system and the first process (\<^verbatim>\<open>kernel/main.c\<close>). What the boot loader leaves is read from memory at the offsets of
  the packed structures of \<^verbatim>\<open>multiboot2.h\<close> and \<^verbatim>\<open>elf.h\<close>. Using a variable that a failed call left uninitialised is a
  \<^term>\<open>Fault\<close>.
\<close>

definition read_u32 :: "memory \<Rightarrow> ptr \<Rightarrow> u32" where
  "read_u32 m a = ucast (read_word a m)"

definition read_u16 :: "memory \<Rightarrow> ptr \<Rightarrow> u16" where
  "read_u16 m a = ucast (read_word a m)"

section \<open>The memory map\<close>

definition MAX_MEMORY_REGIONS :: nat where "MAX_MEMORY_REGIONS = 128"

definition mmap_region :: "u64 \<Rightarrow> u64 \<Rightarrow> u32 \<Rightarrow> physical_region" where
  "mmap_region addr len type =
     (let old_base = addr; old_end = old_base + len in
      \<lparr>rg_base = ROUND_UP_PAGE old_base, rg_length = ROUND_DOWN_PAGE old_end - ROUND_UP_PAGE old_base, rg_page_array = NULL,
       rg_type = (if type = 1 then REGION_TYPE_AVAILABLE else if type = 2 then REGION_TYPE_RESERVED
                  else if type = 3 then REGION_TYPE_RECLAIMABLE else REGION_TYPE_UNUSABLE)\<rparr>)"

text \<open>The entries are 24 bytes: address, length, type; the map begins after a header of 16 bytes.\<close>

fun mmap_loop :: "memory \<Rightarrow> ptr \<Rightarrow> ptr \<Rightarrow> nat \<Rightarrow> physical_region list" where
  "mmap_loop m limit entry 0 = []"
| "mmap_loop m limit entry (Suc k) =
     (if entry < limit
      then mmap_region (read_word entry m) (read_word (entry + 8) m) (read_u32 m (entry + 16)) # mmap_loop m limit (entry + 24) k
      else [])"

definition early_get_physical_memory_regions :: "memory \<Rightarrow> ptr \<Rightarrow> physical_region list" where
  "early_get_physical_memory_regions m mmap =
     mmap_loop m (mmap + ucast (read_u32 m (mmap + 4))) (mmap + 16) MAX_MEMORY_REGIONS"

definition efi_region_type :: "u32 \<Rightarrow> region_type" where
  "efi_region_type type =
     (if type \<in> {1, 2, 3, 4, 7} then REGION_TYPE_AVAILABLE else if type = 9 then REGION_TYPE_RECLAIMABLE else REGION_TYPE_RESERVED)"

text \<open>One entry of the EFI map: merged with the region before it when it continues it with the same type.\<close>

definition efi_add :: "u64 \<Rightarrow> u64 \<Rightarrow> region_type \<Rightarrow> physical_region list \<Rightarrow> physical_region list" where
  "efi_add physical_start pages_count type rs =
     (if rs \<noteq> [] \<and> physical_start = rg_length (last rs) + rg_base (last rs) \<and> type = rg_type (last rs)
      then butlast rs @ [(last rs)\<lparr>rg_length := rg_length (last rs) + pages_count * PAGE_SIZE\<rparr>]
      else rs @ [\<lparr>rg_base = physical_start, rg_length = pages_count * PAGE_SIZE, rg_page_array = NULL, rg_type = type\<rparr>])"

partial_function (option) efi_loop :: "memory \<Rightarrow> ptr \<Rightarrow> u64 \<Rightarrow> ptr \<Rightarrow> physical_region list \<Rightarrow> physical_region list option" where
  "efi_loop m limit descr_size entry rs =
     (if entry < limit \<and> length rs < MAX_MEMORY_REGIONS
      then efi_loop m limit descr_size (entry + descr_size)
             (efi_add (read_word (entry + 8) m) (read_word (entry + 24) m) (efi_region_type (read_u32 m entry)) rs)
      else Some rs)"

definition early_get_physical_memory_regions_efi :: "memory \<Rightarrow> ptr \<Rightarrow> physical_region list outcome" where
  "early_get_physical_memory_regions_efi m mmap =
     (case efi_loop m (mmap + ucast (read_u32 m (mmap + 4))) (ucast (read_u32 m (mmap + 8))) (mmap + 16) [] of
        None \<Rightarrow> Hang | Some rs \<Rightarrow> Ret rs)"

section \<open>The boot loader's tags\<close>

record boot_info =
  found_framebuffer :: bool
  fb_address :: u64
  fb_geometry :: "u32 \<times> u32 \<times> u32 \<times> u8"
  init_module :: "(u64 \<times> u64) option"
  memory_tag :: "ptr option"
  efi_memory_tag :: "ptr option"
  rsdp_addr :: "ptr option"

definition no_boot_info :: boot_info where
  "no_boot_info = \<lparr>found_framebuffer = False, fb_address = 0, fb_geometry = (0, 0, 0, 0), init_module = None,
     memory_tag = None, efi_memory_tag = None, rsdp_addr = None\<rparr>"

text \<open>A flag and the variable it guards are an option: width, height, pitch and depth of the framebuffer in one tuple.\<close>

definition read_tag :: "memory \<Rightarrow> ptr \<Rightarrow> boot_info \<Rightarrow> boot_info" where
  "read_tag m tag b =
     (let type = read_u32 m tag in
      if type = 6 then b\<lparr>memory_tag := Some tag\<rparr>
      else if type = 17 then b\<lparr>efi_memory_tag := Some tag\<rparr>
      else if type = 8 then
        let pitch = read_u32 m (tag + 16); width = read_u32 m (tag + 20); height = read_u32 m (tag + 24);
            bpp = m (tag + 28)
        in if m (tag + 29) = 1 \<and> width > 0 \<and> height > 0 \<and> pitch > 0 \<and> bpp > 0
           then b\<lparr>found_framebuffer := True, fb_address := read_word (tag + 8) m, fb_geometry := (width, height, pitch, bpp)\<rparr>
           else b
      else if type = 3 then b\<lparr>init_module := Some (ucast (read_u32 m (tag + 8)), ucast (read_u32 m (tag + 12)))\<rparr>
      else if type = 14 \<or> type = 15 then
        (if rsdp_addr b = None \<or> type = 15 then b\<lparr>rsdp_addr := Some (tag + 8)\<rparr> else b)
      else b)"

partial_function (option) scan_tags :: "memory \<Rightarrow> ptr \<Rightarrow> boot_info \<Rightarrow> boot_info option" where
  "scan_tags m tag b =
     (if read_u32 m tag = 0 then Some b
      else scan_tags m (ROUND_UP (tag + ucast (read_u32 m (tag + 4))) 8) (read_tag m tag b))"

declare efi_loop.simps [code] scan_tags.simps [code]

text \<open>Which map \<^verbatim>\<open>arch_main\<close> takes; without one it panics.\<close>

definition boot_memory_regions :: "memory \<Rightarrow> boot_info \<Rightarrow> physical_region list outcome" where
  "boot_memory_regions m b =
     (case efi_memory_tag b of
        Some tag \<Rightarrow> early_get_physical_memory_regions_efi m tag
      | None \<Rightarrow> (case memory_tag b of Some tag \<Rightarrow> Ret (early_get_physical_memory_regions m tag) | None \<Rightarrow> Panic))"

section \<open>Bringing up the kernel\<close>

text \<open>\<open>calloc_results\<close>, \<open>kernel_range\<close>, \<open>kernel_space\<close> and \<open>img\<close> are what the memory systems take as parameters: heap results,
  the physical bounds of the kernel image, the kernel's address space and the virtual bounds of the image.\<close>

definition kernel_startup ::
  "(nat \<Rightarrow> ptr) \<Rightarrow> arch_reserved_range list \<Rightarrow> u64 \<times> u64 \<Rightarrow> ptr \<Rightarrow> u64 \<times> u64 \<Rightarrow> kernel \<Rightarrow> kernel outcome" where
  "kernel_startup calloc_results reserved kernel_range kernel_space img s =
     obind (physical_memory_init calloc_results reserved (fst kernel_range) (snd kernel_range) (mm_pmm (kernel_mmu s))) (\<lambda>(_, _, p).
     obind (virtual_memory_init kernel_space (fst img) (snd img) (set_pmm p s)) (\<lambda>s.
     create_idle_process kernel_space s))"

section \<open>Loading the first process\<close>

definition ELFMAG :: "u8 list" where
  "ELFMAG = [0x7f, of_char CHR ''E'', of_char CHR ''L'', of_char CHR ''F'']"

definition segment_flags :: "u32 \<Rightarrow> u64" where
  "segment_flags flags =
     V_ADDR_REGION_MAP_SPECIFIC OR (if flags AND 1 \<noteq> 0 then V_ADDR_REGION_EXECUTABLE else 0)
       OR (if flags AND 2 \<noteq> 0 then V_ADDR_REGION_WRITABLE else 0) OR (if flags AND 4 \<noteq> 0 then V_ADDR_REGION_READABLE else 0)"

text \<open>Filling a section: zeros over its size in memory, then the contents of the file.\<close>

definition fill_segment :: "u64 \<Rightarrow> u64 \<Rightarrow> u64 \<Rightarrow> u64 \<Rightarrow> memory \<Rightarrow> memory" where
  "fill_segment address contents filesz memsz m = memcpy address contents filesz (memset address 0 memsz m)"

text \<open>
  One program header: the section is mapped at its address in the process, whether or not that succeeds, and mapped
  into the kernel to be filled.
\<close>

definition load_segment :: "nat \<Rightarrow> ptr \<Rightarrow> ptr \<Rightarrow> ptr \<Rightarrow> kernel \<Rightarrow> kernel outcome" where
  "load_segment depth addr_space initrd program_header s =
     (let m = memory s in
      if read_u32 m program_header \<noteq> 1 then Ret s else
      let flags = read_u32 m (program_header + 4); offset = read_word (program_header + 8) m;
          vaddr = read_word (program_header + 16) m; filesz = read_word (program_header + 32) m;
          memsz = read_word (program_header + 40) m in
      obind (vm_object_create memsz (VM_EXECUTABLE OR VM_WRITABLE OR VM_READABLE) s) (\<lambda>(status, section_vm, s).
      if status \<noteq> IR_OK then Fault else
      obind (v_addr_region_map_vm_object depth addr_space (segment_flags flags) section_vm vaddr s) (\<lambda>(_, _, _, s).
      obind (v_addr_region_map_vm_object depth (kernel_region s) (V_ADDR_REGION_READABLE OR V_ADDR_REGION_WRITABLE) section_vm 0 s)
        (\<lambda>(status, kernel_mapping, address, s).
      if status \<noteq> IR_OK then Fault else
      v_addr_region_cleanup depth kernel_mapping
        (s\<lparr>memory := fill_segment address (initrd + offset) filesz memsz (memory s)\<rparr>)))))"

definition load_segments :: "nat \<Rightarrow> ptr \<Rightarrow> ptr \<Rightarrow> kernel \<Rightarrow> kernel outcome" where
  "load_segments depth addr_space initrd s =
     (let m = memory s; first = initrd + read_word (initrd + 32) m; n = unat (read_u16 m (initrd + 56)) in
      ofold (\<lambda>i. load_segment depth addr_space initrd (first + of_nat (i * 56))) [0..<n] s)"

text \<open>A megabyte of stack for the first thread.\<close>

definition create_user_stack :: "nat \<Rightarrow> ptr \<Rightarrow> kernel \<Rightarrow> (u64 \<times> kernel) outcome" where
  "create_user_stack depth addr_space s =
     obind (vm_object_create (PAGE_SIZE * 256) (VM_WRITABLE OR VM_READABLE) s) (\<lambda>(status, stack_vm, s).
     if status \<noteq> IR_OK then Fault else
     obind (v_addr_region_map_vm_object depth addr_space (V_ADDR_REGION_READABLE OR V_ADDR_REGION_WRITABLE) stack_vm 0 s)
       (\<lambda>(status, _, stack_address, s).
     if status \<noteq> IR_OK then Fault else Ret (stack_address, s)))"

text \<open>\<open>name_message\<close> is the address of the string \<^verbatim>\<open>"nameInit"\<close> with its terminator.\<close>

definition kernel_main ::
  "nat \<Rightarrow> ptr \<Rightarrow> ptr \<Rightarrow> u64 \<Rightarrow> ptr \<Rightarrow> ptr \<Rightarrow> kernel \<Rightarrow> (bool \<times> kernel) outcome" where
  "kernel_main depth kernel_pml4 kernel_space idle_entry name_message initrd_start_address s =
     obind (create_idle_process kernel_space s) (\<lambda>s.
     obind (create_idle_thread depth idle_entry s) (\<lambda>(idle, s).
     let s = s\<lparr>idle_thread := idle\<rparr> in
     obind (process_create kernel_pml4 s) (\<lambda>(status, init_process, addr_space, channel, s).
     if status \<noteq> IR_OK then Fault else
     if read_bytes initrd_start_address 4 (memory s) \<noteq> ELFMAG then Panic else
     obind (load_segments depth addr_space initrd_start_address s) (\<lambda>s.
     obind (create_user_stack depth addr_space s) (\<lambda>(stack_address, s).
     obind (thread_create depth init_process s) (\<lambda>(status, thread, s).
     if status \<noteq> IR_OK then Fault else
     obind (load (chans s) channel) (\<lambda>c.
     obind (channel_write (peer c) name_message 9 [] s) (\<lambda>s.
     obind (thread_start thread (read_word (initrd_start_address + 24) (memory s)) (stack_address + PAGE_SIZE * 256 - 16) 0 s)
       (\<lambda>(_, s).
     switch_task depth kernel_pml4 False s)))))))))"

section \<open>The memory map is rounded inwards\<close>

text \<open>The entries of the map as the boot loader wrote them.\<close>

definition mmap_entry :: "memory \<Rightarrow> ptr \<Rightarrow> nat \<Rightarrow> u64 \<times> u64 \<times> u32" where
  "mmap_entry m first i = (let e = first + of_nat (24 * i) in (read_word e m, read_word (e + 8) m, read_u32 m (e + 16)))"

definition entry_region :: "u64 \<times> u64 \<times> u32 \<Rightarrow> physical_region" where
  "entry_region e = mmap_region (fst e) (fst (snd e)) (snd (snd e))"

text \<open>Available memory below half a terabyte with a whole page in it; no two such entries overlap.\<close>

definition sane_entry :: "u64 \<times> u64 \<times> u32 \<Rightarrow> bool" where
  "sane_entry e \<longleftrightarrow> snd (snd e) = 1 \<longrightarrow> unat (fst e) + unat (fst (snd e)) \<le> 2 ^ 39 \<and>
     (unat (fst e) + 4095) div 4096 \<le> (unat (fst e) + unat (fst (snd e))) div 4096"

definition entries_apart :: "u64 \<times> u64 \<times> u32 \<Rightarrow> u64 \<times> u64 \<times> u32 \<Rightarrow> bool" where
  "entries_apart d e \<longleftrightarrow> snd (snd d) = 1 \<longrightarrow> snd (snd e) = 1 \<longrightarrow>
     unat (fst d) + unat (fst (snd d)) \<le> unat (fst e) \<or> unat (fst e) + unat (fst (snd e)) \<le> unat (fst d)"

definition sane_map :: "(u64 \<times> u64 \<times> u32) list \<Rightarrow> bool" where
  "sane_map es \<longleftrightarrow> (\<forall>e \<in> set es. sane_entry e) \<and> sorted_wrt entries_apart es"

lemma mmap_loop_entries:
  assumes "unat entry + 24 * n < 2 ^ 64" and "unat limit = unat entry + 24 * n" and "n \<le> k"
  shows "mmap_loop m limit entry k = map (\<lambda>i. entry_region (mmap_entry m entry i)) [0..<n]"
  using assms
proof (induction n arbitrary: entry k)
  case 0
  then show ?case
    by (cases k) (simp_all add: word_less_nat_alt)
next
  case (Suc n)
  then obtain j where k: "k = Suc j" and j: "n \<le> j"
    by (cases k) auto
  have e: "unat (entry + 24) = unat entry + 24"
    using Suc.prems(1) by (subst unat_add_lem [THEN iffD1]) simp_all
  have IH: "mmap_loop m limit (entry + 24) j = map (\<lambda>i. entry_region (mmap_entry m (entry + 24) i)) [0..<n]"
    using Suc.prems e j by (intro Suc.IH) simp_all
  have "entry < limit"
    using Suc.prems(2) by (simp add: word_less_nat_alt)
  moreover have "mmap_entry m (entry + 24) i = mmap_entry m entry (Suc i)" for i
    by (simp add: mmap_entry_def algebra_simps)
  ultimately show ?case
    by (simp add: k IH map_upt_Suc entry_region_def mmap_entry_def del: upt_Suc)
qed

lemma mmap_region_geometry:
  assumes "unat a + unat l \<le> 2 ^ 39" and "(unat a + 4095) div 4096 \<le> (unat a + unat l) div 4096"
  shows "unat (rg_base (mmap_region a l t)) = (unat a + 4095) div 4096 * 4096"
    and "unat (rg_base (mmap_region a l t)) + unat (rg_length (mmap_region a l t)) = (unat a + unat l) div 4096 * 4096"
proof -
  have s: "unat (a + l) = unat a + unat l"
    using assms(1) by (subst unat_add_lem [THEN iffD1]) simp_all
  have b: "unat (ROUND_UP_PAGE a) = (unat a + 4095) div 4096 * 4096"
    using assms(1) by (intro ROUND_UP_PAGE_no_wrap) simp
  have e: "unat (ROUND_DOWN_PAGE (a + l)) = (unat a + unat l) div 4096 * 4096"
    by (simp only: unat_ROUND_DOWN_PAGE s)
  have "ROUND_UP_PAGE a \<le> ROUND_DOWN_PAGE (a + l)"
    using assms(2) by (simp only: word_le_nat_alt b e mult_le_mono1)
  then have d: "unat (ROUND_DOWN_PAGE (a + l) - ROUND_UP_PAGE a) = (unat a + unat l) div 4096 * 4096 - (unat a + 4095) div 4096 * 4096"
    by (simp only: unat_sub b e)
  show "unat (rg_base (mmap_region a l t)) = (unat a + 4095) div 4096 * 4096"
    by (simp add: mmap_region_def Let_def b)
  show "unat (rg_base (mmap_region a l t)) + unat (rg_length (mmap_region a l t)) = (unat a + unat l) div 4096 * 4096"
    using assms(2) by (simp add: mmap_region_def Let_def b d mult_le_mono1)
qed

lemma mmap_region_usable:
  assumes "unat a + unat l \<le> 2 ^ 39" and "(unat a + 4095) div 4096 \<le> (unat a + unat l) div 4096"
  shows "usable_region (mmap_region a l t)"
proof -
  let ?r = "mmap_region a l t"
  note g = mmap_region_geometry [OF assms, of t]
  have s: "unat (rg_base ?r + rg_length ?r) = (unat a + unat l) div 4096 * 4096"
    using assms(1) g(2) by (subst unat_add_lem [THEN iffD1]) (simp_all only: g(2), simp)
  have top: "(unat a + unat l) div 4096 * 4096 \<le> 2 ^ 39"
    using div_times_less_eq_dividend assms(1) by (rule order_trans)
  have "unat (ROUND_UP_PAGE (rg_base ?r)) = (unat a + 4095) div 4096 * 4096"
    using assms top by (subst ROUND_UP_PAGE_no_wrap) (simp_all add: g(1))
  then show ?thesis
    using assms(2) top
    by (simp add: usable_region_def g(2) word_le_nat_alt unat_ROUND_DOWN_PAGE s mult_le_mono1)
qed

lemma entry_region_available: "rg_type (entry_region e) = REGION_TYPE_AVAILABLE \<longleftrightarrow> snd (snd e) = 1"
  by (auto simp: entry_region_def mmap_region_def Let_def)

lemma entry_region_bounds:
  assumes "sane_entry e" "snd (snd e) = 1"
  shows "unat (fst e) \<le> unat (rg_base (entry_region e))"
    "unat (rg_base (entry_region e)) + unat (rg_length (entry_region e)) \<le> unat (fst e) + unat (fst (snd e))"
  using mmap_region_geometry [of "fst e" "fst (snd e)" "snd (snd e)"] assms
  by (simp_all add: sane_entry_def entry_region_def)

lemma sane_map_ok:
  assumes "sane_map es" and "length es \<le> 128"
  shows "memory_map_ok (map entry_region es)"
  unfolding memory_map_ok_def
proof (intro conjI ballI impI)
  show "length (map entry_region es) < 2 ^ 31"
    using assms(2) by simp
  show "usable_region r" if r: "r \<in> set (map entry_region es)" and av: "rg_type r = REGION_TYPE_AVAILABLE" for r
  proof -
    obtain e where e: "e \<in> set es" "r = entry_region e"
      using r unfolding set_map by blast
    then have "snd (snd e) = 1" "sane_entry e"
      using av assms(1) by (auto simp: entry_region_available sane_map_def)
    then show ?thesis
      unfolding e(2) entry_region_def by (intro mmap_region_usable) (simp_all add: sane_entry_def)
  qed
  show "sorted_wrt (\<lambda>q r. rg_type q = REGION_TYPE_AVAILABLE \<longrightarrow> rg_type r = REGION_TYPE_AVAILABLE \<longrightarrow>
       unat (rg_base q) + unat (rg_length q) \<le> unat (rg_base r) \<or>
       unat (rg_base r) + unat (rg_length r) \<le> unat (rg_base q)) (map entry_region es)"
    unfolding sorted_wrt_map
  proof (rule sorted_wrt_mono_rel [of _ entries_apart])
    show "sorted_wrt entries_apart es"
      using assms(1) by (simp add: sane_map_def)
    fix d e assume "d \<in> set es" "e \<in> set es" "entries_apart d e"
    then show "rg_type (entry_region d) = REGION_TYPE_AVAILABLE \<longrightarrow> rg_type (entry_region e) = REGION_TYPE_AVAILABLE \<longrightarrow>
       unat (rg_base (entry_region d)) + unat (rg_length (entry_region d)) \<le> unat (rg_base (entry_region e)) \<or>
       unat (rg_base (entry_region e)) + unat (rg_length (entry_region e)) \<le> unat (rg_base (entry_region d))"
      using assms(1) entry_region_bounds [of d] entry_region_bounds [of e]
      by (fastforce simp: entry_region_available sane_map_def entries_apart_def)
  qed
qed

section \<open>The EFI map keeps the memory it describes\<close>

type_synonym efi_entry = "u64 \<times> u64 \<times> u32"

definition efi_mmap_entry :: "memory \<Rightarrow> ptr \<Rightarrow> nat \<Rightarrow> nat \<Rightarrow> efi_entry" where
  "efi_mmap_entry m first sz i =
     (let e = first + of_nat (sz * i) in (read_word (e + 8) m, read_word (e + 24) m, read_u32 m e))"

definition efi_regions :: "efi_entry list \<Rightarrow> physical_region list" where
  "efi_regions es = fold (\<lambda>(start, pages, type). efi_add start pages (efi_region_type type)) es []"

definition region_bytes :: "physical_region \<Rightarrow> nat set" where
  "region_bytes r = {unat (rg_base r) ..< unat (rg_base r) + unat (rg_length r)}"

definition covered :: "region_type \<Rightarrow> physical_region list \<Rightarrow> nat set" where
  "covered t rs = (\<Union>r \<in> {r \<in> set rs. rg_type r = t}. region_bytes r)"

definition efi_bytes :: "region_type \<Rightarrow> efi_entry list \<Rightarrow> nat set" where
  "efi_bytes t es = (\<Union>(start, pages, type) \<in> {e \<in> set es. efi_region_type (snd (snd e)) = t}.
     {unat start ..< unat start + 4096 * unat pages})"

definition efi_fits :: "efi_entry \<Rightarrow> bool" where
  "efi_fits e \<longleftrightarrow> unat (fst e) + 4096 * unat (fst (snd e)) < 2 ^ 64"

text \<open>The second of two neighbours does not merely continue the first.\<close>

definition separate :: "physical_region \<Rightarrow> physical_region \<Rightarrow> bool" where
  "separate q r \<longleftrightarrow> rg_base r = rg_length q + rg_base q \<longrightarrow> rg_type r \<noteq> rg_type q"

definition efi_good :: "physical_region list \<Rightarrow> bool" where
  "efi_good rs \<longleftrightarrow> (\<forall>r \<in> set rs. unat (rg_base r) + unat (rg_length r) < 2 ^ 64) \<and> successively separate rs"

lemma length_efi_add: "length (efi_add s p t rs) \<le> Suc (length rs)"
  by (simp add: efi_add_def)

lemma efi_loop_entries:
  assumes "unat entry + sz * n < 2 ^ 64" and "unat limit = unat entry + sz * n" and "0 < sz" and "sz < 2 ^ 64"
    and "length rs + n \<le> MAX_MEMORY_REGIONS"
  shows "efi_loop m limit (of_nat sz) entry rs =
     Some (fold (\<lambda>(start, pages, type). efi_add start pages (efi_region_type type)) (map (efi_mmap_entry m entry sz) [0..<n]) rs)"
  using assms
proof (induction n arbitrary: entry rs)
  case 0
  then show ?case
    by (subst efi_loop.simps) (simp add: word_less_nat_alt)
next
  case (Suc n)
  have e: "unat (entry + of_nat sz) = unat entry + sz"
    using Suc.prems(1,4) by (subst unat_add_lem [THEN iffD1]) (simp_all add: unat_of_nat_u64)
  let ?rs = "efi_add (read_word (entry + 8) m) (read_word (entry + 24) m) (efi_region_type (read_u32 m entry)) rs"
  have IH: "efi_loop m limit (of_nat sz) (entry + of_nat sz) ?rs =
      Some (fold (\<lambda>(start, pages, type). efi_add start pages (efi_region_type type))
        (map (efi_mmap_entry m (entry + of_nat sz) sz) [0..<n]) ?rs)"
    using Suc.prems e length_efi_add [of "read_word (entry + 8) m" "read_word (entry + 24) m" "efi_region_type (read_u32 m entry)" rs]
    by (intro Suc.IH) simp_all
  have c: "entry < limit \<and> length rs < MAX_MEMORY_REGIONS"
    using Suc.prems by (auto simp: word_less_nat_alt)
  have shift: "efi_mmap_entry m (entry + of_nat sz) sz = (\<lambda>i. efi_mmap_entry m entry sz (Suc i))"
    by (rule ext) (simp add: efi_mmap_entry_def algebra_simps)
  show ?case
    by (subst efi_loop.simps) (simp add: c IH map_upt_Suc efi_mmap_entry_def [of m entry sz 0] shift del: upt_Suc)
qed

lemma unat_pages_bytes:
  "unat (s :: u64) + 4096 * unat (p :: u64) < 2 ^ 64 \<Longrightarrow> unat (p * PAGE_SIZE) = 4096 * unat p"
  by (simp add: unat_word_ariths(2))

lemma covered_simps [simp]:
  "covered u (xs @ ys) = covered u xs \<union> covered u ys"
  "covered u [r] = (if rg_type r = u then region_bytes r else {})"
  by (auto simp: covered_def)

lemma efi_add_correct:
  assumes good: "efi_good rs" and fits: "efi_fits (s, p, t')"
  shows "efi_good (efi_add s p t rs)"
    "covered u (efi_add s p t rs) = covered u rs \<union> (if t = u then {unat s ..< unat s + 4096 * unat p} else {})"
proof -
  have p: "unat (p * PAGE_SIZE) = 4096 * unat p"
    using fits by (intro unat_pages_bytes [of s]) (simp add: efi_fits_def)
  have "efi_good (efi_add s p t rs) \<and>
    covered u (efi_add s p t rs) = covered u rs \<union> (if t = u then {unat s ..< unat s + 4096 * unat p} else {})"
  proof (cases "rs \<noteq> [] \<and> s = rg_length (last rs) + rg_base (last rs) \<and> t = rg_type (last rs)")
    case True
    define qs r where "qs = butlast rs" and "r = last rs"
    have rs: "rs = qs @ [r]" and s: "s = rg_length r + rg_base r" and t: "t = rg_type r"
      using True by (simp_all add: qs_def r_def)
    have r: "unat (rg_base r) + unat (rg_length r) < 2 ^ 64"
      using good by (simp add: rs efi_good_def)
    then have us: "unat s = unat (rg_base r) + unat (rg_length r)"
      unfolding s by (subst unat_add_lem [THEN iffD1]) simp_all
    have l: "unat (rg_length r + p * PAGE_SIZE) = unat (rg_length r) + 4096 * unat p"
      using fits us by (subst unat_add_lem [THEN iffD1]) (simp_all only: p, simp_all add: efi_fits_def)
    have add: "efi_add s p t (qs @ [r]) = qs @ [r\<lparr>rg_length := rg_length r + p * PAGE_SIZE\<rparr>]"
      using s t by (simp add: efi_add_def)
    have "efi_good (efi_add s p t rs)"
      using good fits unfolding rs add by (auto simp: efi_good_def efi_fits_def l us successively_append_iff separate_def simp del: PAGE_SIZE_def)
    moreover have "covered u (efi_add s p t rs) =
        covered u rs \<union> (if t = u then {unat s ..< unat s + 4096 * unat p} else {})"
      unfolding rs add by (auto simp: region_bytes_def l us t simp del: PAGE_SIZE_def)
    ultimately show ?thesis ..
  next
    case False
    then have add: "efi_add s p t rs = rs @ [\<lparr>rg_base = s, rg_length = p * PAGE_SIZE, rg_page_array = NULL, rg_type = t\<rparr>]"
      unfolding efi_add_def by (rule if_not_P)
    have "efi_good (efi_add s p t rs)"
      using good fits p False by (auto simp: add efi_good_def efi_fits_def successively_append_iff separate_def)
    moreover have "covered u (efi_add s p t rs) =
        covered u rs \<union> (if t = u then {unat s ..< unat s + 4096 * unat p} else {})"
      using p by (auto simp: add region_bytes_def)
    ultimately show ?thesis ..
  qed
  then show "efi_good (efi_add s p t rs)"
    "covered u (efi_add s p t rs) = covered u rs \<union> (if t = u then {unat s ..< unat s + 4096 * unat p} else {})"
    by blast+
qed

lemma efi_regions_good:
  assumes "\<forall>e \<in> set es. efi_fits e" and "efi_good rs"
  defines "rs' \<equiv> fold (\<lambda>(start, pages, type). efi_add start pages (efi_region_type type)) es rs"
  shows "efi_good rs' \<and> covered t rs' = covered t rs \<union> efi_bytes t es"
  using assms(1,2) unfolding rs'_def
proof (induction es arbitrary: rs)
  case Nil
  then show ?case by (simp add: efi_bytes_def)
next
  case (Cons e es)
  obtain s p ty where e: "e = (s, p, ty)" by (cases e)
  have "efi_fits (s, p, ty)"
    using Cons.prems by (simp add: e)
  note step = efi_add_correct [OF Cons.prems(2) this]
  have "efi_bytes t (e # es) = efi_bytes t es \<union> (if efi_region_type ty = t then {unat s ..< unat s + 4096 * unat p} else {})"
    by (auto simp: efi_bytes_def e)
  then show ?case
    using Cons.IH [OF _ step(1)] Cons.prems(1) step(2) by (simp add: e Un_ac)
qed

section \<open>Properties\<close>

text \<open>C18: From a multiboot memory map of at most 128 entries, each available one below half a terabyte with a whole
  page in it and none overlapping another, the kernel takes one region per entry, rounded inwards, and initialising
  them returns with the allocator's invariant.\<close>

theorem boot_regions_correct:
  assumes tag: "efi_memory_tag b = None" "memory_tag b = Some mmap" and n: "n \<le> MAX_MEMORY_REGIONS"
    and room: "unat mmap + 16 + 24 * n < 2 ^ 64" "unat (read_u32 m (mmap + 4)) = 16 + 24 * n"
    and sane: "sane_map (map (mmap_entry m (mmap + 16)) [0..<n])"
  shows "\<exists>rs s ps. boot_memory_regions m b = Ret rs \<and> rs = map (\<lambda>i. entry_region (mmap_entry m (mmap + 16) i)) [0..<n] \<and>
    looped (for_uint pmm_init_nth_region (regions_count (boot_state rs)) 0 (boot_state rs)) = Ret s \<and> pmm_inv s ps"
proof -
  let ?rs = "map (\<lambda>i. entry_region (mmap_entry m (mmap + 16) i)) [0..<n]"
  have first: "unat (mmap + 16) = unat mmap + 16"
    using room(1) by (subst unat_add_lem [THEN iffD1]) simp_all
  have c: "unat (ucast (read_u32 m (mmap + 4)) :: u64) = 16 + 24 * n"
    using room(2) by simp
  have limit: "unat (mmap + ucast (read_u32 m (mmap + 4))) = unat (mmap + 16) + 24 * n"
    using room(1) first c by (subst unat_add_lem [THEN iffD1]) simp_all
  have regions: "boot_memory_regions m b = Ret ?rs"
    using tag n room(1) limit first mmap_loop_entries [of "mmap + 16" n "mmap + ucast (read_u32 m (mmap + 4))" MAX_MEMORY_REGIONS m]
    by (simp add: boot_memory_regions_def early_get_physical_memory_regions_def)
  have "?rs = map entry_region (map (mmap_entry m (mmap + 16)) [0..<n])"
    by simp
  moreover have "memory_map_ok (map entry_region (map (mmap_entry m (mmap + 16)) [0..<n]))"
    using n by (intro sane_map_ok [OF sane]) (simp add: MAX_MEMORY_REGIONS_def)
  ultimately have "memory_map_ok ?rs"
    by (simp only:)
  then show ?thesis
    using regions boot_loop [of ?rs] by fastforce
qed

text \<open>C17: From an EFI memory map of at most 128 descriptors of at least a byte, the kernel takes regions that cover exactly the
  bytes of the descriptors of each type, merging neighbours so that no region continues the one before it.\<close>

theorem efi_regions_correct:
  assumes n: "n \<le> MAX_MEMORY_REGIONS" and sz: "unat (read_u32 m (mmap + 8)) = sz" "0 < sz"
    and room: "unat mmap + 16 + sz * n < 2 ^ 64" "unat (read_u32 m (mmap + 4)) = 16 + sz * n"
    and fits: "\<forall>e \<in> set (map (efi_mmap_entry m (mmap + 16) sz) [0..<n]). efi_fits e"
  shows "\<exists>rs. early_get_physical_memory_regions_efi m mmap = Ret rs \<and> successively separate rs \<and>
    (\<forall>t. covered t rs = efi_bytes t (map (efi_mmap_entry m (mmap + 16) sz) [0..<n]))"
proof -
  let ?es = "map (efi_mmap_entry m (mmap + 16) sz) [0..<n]"
  have first: "unat (mmap + 16) = unat mmap + 16"
    using room(1) by (subst unat_add_lem [THEN iffD1]) simp_all
  have c: "unat (ucast (read_u32 m (mmap + 4)) :: u64) = 16 + sz * n"
    using room(2) by simp
  have limit: "unat (mmap + ucast (read_u32 m (mmap + 4))) = unat (mmap + 16) + sz * n"
    using room(1) first c by (subst unat_add_lem [THEN iffD1]) simp_all
  have small: "sz < 2 ^ 64"
    using sz(1) unat_u32_less [of "read_u32 m (mmap + 8)"] by simp
  then have d: "ucast (read_u32 m (mmap + 8)) = (of_nat sz :: u64)"
    using sz(1) by (simp add: word_unat_eq_iff unat_of_nat_u64)
  have "early_get_physical_memory_regions_efi m mmap = Ret (efi_regions ?es)"
    using n sz(2) small room(1) first limit efi_loop_entries [of "mmap + 16" sz n "mmap + ucast (read_u32 m (mmap + 4))" "[]" m]
    by (simp add: early_get_physical_memory_regions_efi_def efi_regions_def d)
  moreover have "efi_good (efi_regions ?es) \<and> covered t (efi_regions ?es) = efi_bytes t ?es" for t
    using efi_regions_good [OF fits, of "[]" t] by (simp add: efi_regions_def efi_good_def covered_def)
  ultimately show ?thesis
    unfolding efi_good_def by blast
qed

text \<open>Filling a section of the first process leaves its file contents followed by zeros and touches nothing outside it,
  when the file contents are no longer than the section and lie outside it.\<close>

theorem fill_segment_correct:
  assumes "filesz \<le> memsz" "copyable address contents filesz"
    and apart: "\<forall>i < unat filesz. unat memsz \<le> unat (contents + of_nat i - address)"
  shows "fill_segment address contents filesz memsz m x =
      (if unat (x - address) < unat filesz then m (contents + (x - address))
       else if unat (x - address) < unat memsz then 0 else m x)"
proof -
  have "unat memsz \<le> unat (contents + (x - address) - address)" if "unat (x - address) < unat filesz"
    using apart [rule_format, OF that] by simp
  then show ?thesis
    using assms(1) by (auto simp: fill_segment_def memcpy_apply [OF assms(2)] memset_apply word_le_nat_alt)
qed

theorem fill_segment_correct_witness:
  "fill_segment 0x3000 0x1000 3 8 demo_memory 0x3002 = 0x67 \<and> fill_segment 0x3000 0x1000 3 8 (\<lambda>_. 5) 0x3004 = 0"
proof -
  have copy: "copyable 0x3000 0x1000 (3 :: u64)"
    by (simp add: copyable_def)
  have apart: "\<forall>i < unat (3 :: u64). unat (8 :: u64) \<le> unat (0x1000 + of_nat i - 0x3000 :: u64)"
    by (auto simp: less_3_cases)
  show ?thesis
    using fill_segment_correct [OF _ copy apart, of demo_memory "0x3002"] fill_segment_correct [OF _ copy apart, of "\<lambda>_. 5" "0x3004"]
    by (simp add: demo_memory_def)
qed

text \<open>A multiboot map with one entry, and an EFI map with two descriptors that continue each other.\<close>

definition demo_mmap :: memory where
  "demo_mmap = (\<lambda>_. 0)(0x1004 := 40, 0x1012 := 0x10, 0x1019 := 0x80, 0x1020 := 1)"

definition demo_efi :: memory where
  "demo_efi = (\<lambda>_. 0)(0x1004 := 96, 0x1008 := 40, 0x1010 := 7, 0x101a := 0x10, 0x1028 := 8,
     0x1038 := 2, 0x1041 := 0x80, 0x1042 := 0x10, 0x1050 := 4)"

lemma demo_mmap_entry:
  "read_u32 demo_mmap 0x1004 = 40" "mmap_entry demo_mmap 0x1010 0 = (0x100000, 0x8000, 1)"
  by (simp_all add: demo_mmap_def read_u32_def mmap_entry_def read_word_def upt_rec)

lemma demo_efi_entries:
  "read_u32 demo_efi 0x1004 = 96" "read_u32 demo_efi 0x1008 = 40"
  "efi_mmap_entry demo_efi 0x1010 40 0 = (0x100000, 8, 7)" "efi_mmap_entry demo_efi 0x1010 40 (Suc 0) = (0x108000, 4, 2)"
  by (simp_all add: demo_efi_def read_u32_def efi_mmap_entry_def read_word_def upt_rec)

theorem boot_regions_correct_witness:
  "\<exists>rs s ps. boot_memory_regions demo_mmap (no_boot_info\<lparr>memory_tag := Some 0x1000\<rparr>) = Ret rs \<and>
    rs = map (\<lambda>i. entry_region (mmap_entry demo_mmap (0x1000 + 16) i)) [0..<1] \<and>
    looped (for_uint pmm_init_nth_region (regions_count (boot_state rs)) 0 (boot_state rs)) = Ret s \<and> pmm_inv s ps"
  by (rule boot_regions_correct)
    (simp_all add: no_boot_info_def MAX_MEMORY_REGIONS_def demo_mmap_entry sane_map_def sane_entry_def)

lemma upt_2: "[0..<2] = [0, 1 :: nat]"
  by (simp add: upt_rec)

theorem efi_regions_correct_witness:
  "\<exists>rs. early_get_physical_memory_regions_efi demo_efi 0x1000 = Ret rs \<and> successively separate rs \<and>
    (\<forall>t. covered t rs = efi_bytes t (map (efi_mmap_entry demo_efi (0x1000 + 16) 40) [0..<2]))"
  by (rule efi_regions_correct)
    (simp_all add: MAX_MEMORY_REGIONS_def demo_efi_entries efi_fits_def upt_2 del: upt_Suc)

end
