(* ===== verification/Heap.thy ===== *)
theory Heap
  imports Frame_Allocator C_String
begin

text \<open>
  The kernel's heap (\<^verbatim>\<open>kernel/heap.c\<close>): blocks of whole pages from the frame allocator, the majors, each holding a list of
  objects, the minors, in the order of their addresses. The headers are two stores of structures; the bytes the heap
  touches otherwise (the distance to the header kept before an aligned pointer, what \<^verbatim>\<open>calloc\<close> clears and \<^verbatim>\<open>realloc\<close> copies) are
  a memory of their own. The header of a freed object stays where it was, so that freeing it again is seen; the header of
  a released block is gone. A failed request for pages runs into the breakpoint instruction of \<^verbatim>\<open>liballoc_alloc\<close>, whose handler
  panics.
\<close>

section \<open>The state of the heap\<close>

record liballoc_major =
  mj_prev :: ptr
  mj_next :: ptr
  mj_page_list :: ptr
  mj_pages :: u32
  mj_size :: u32
  mj_usage :: u32
  mj_first :: ptr

record liballoc_minor =
  mn_prev :: ptr
  mn_next :: ptr
  mn_block :: ptr
  mn_magic :: u32
  mn_size :: u32
  mn_req_size :: u32

record liballoc =
  majors :: "ptr \<rightharpoonup> liballoc_major"
  minors :: "ptr \<rightharpoonup> liballoc_minor"
  heap_mem :: memory
  l_memRoot :: ptr
  l_bestBet :: ptr
  l_allocated :: u64
  l_inuse :: u64
  l_warningCount :: u64
  l_errorCount :: u64
  l_possibleOverruns :: u64
  heap_lock :: lock
  frames :: pmm

definition LIBALLOC_MAGIC :: u32 where [simp]: "LIBALLOC_MAGIC = 0xc001c0de"

definition LIBALLOC_DEAD :: u32 where [simp]: "LIBALLOC_DEAD = 0xdeaddead"

definition ALIGNMENT :: u64 where [simp]: "ALIGNMENT = 16"

definition ALIGN_INFO :: u64 where [simp]: "ALIGN_INFO = 16"

definition sizeof_major :: u64 where [simp]: "sizeof_major = 48"

definition sizeof_minor :: u64 where [simp]: "sizeof_minor = 40"

definition l_pageSize :: u32 where [simp]: "l_pageSize = 4096"

definition l_pageCount :: u32 where [simp]: "l_pageCount = 16"

definition update_major :: "ptr \<Rightarrow> (liballoc_major \<Rightarrow> liballoc_major) \<Rightarrow> liballoc \<Rightarrow> liballoc outcome" where
  "update_major p f s = obind (load (majors s) p) (\<lambda>v. Ret (s\<lparr>majors := (majors s)(p \<mapsto> f v)\<rparr>))"

definition update_minor :: "ptr \<Rightarrow> (liballoc_minor \<Rightarrow> liballoc_minor) \<Rightarrow> liballoc \<Rightarrow> liballoc outcome" where
  "update_minor p f s = obind (load (minors s) p) (\<lambda>v. Ret (s\<lparr>minors := (minors s)(p \<mapsto> f v)\<rparr>))"

definition liballoc_lock :: "liballoc \<Rightarrow> liballoc outcome" where
  "liballoc_lock s = obind (spinlock_aquire (heap_lock s)) (\<lambda>l. Ret (s\<lparr>heap_lock := l\<rparr>))"

definition liballoc_unlock :: "liballoc \<Rightarrow> liballoc" where
  "liballoc_unlock s = s\<lparr>heap_lock := spinlock_release (heap_lock s)\<rparr>"

section \<open>Aligned pointers\<close>

definition ALIGN :: "ptr \<Rightarrow> liballoc \<Rightarrow> ptr \<times> liballoc" where
  "ALIGN p s =
     (let p = p + ALIGN_INFO; diff = p AND (ALIGNMENT - 1); diff = (if diff \<noteq> 0 then ALIGNMENT - diff else diff); p = p + diff
      in (p, s\<lparr>heap_mem := (heap_mem s)(p - ALIGN_INFO := ucast (diff + ALIGN_INFO))\<rparr>))"

definition UNALIGN :: "ptr \<Rightarrow> liballoc \<Rightarrow> ptr" where
  "UNALIGN p s = (let diff = scast (heap_mem s (p - ALIGN_INFO)) in if diff < ALIGNMENT + ALIGN_INFO then p - diff else p)"

section \<open>Pages for blocks\<close>

definition liballoc_alloc :: "u64 \<Rightarrow> liballoc \<Rightarrow> (ptr \<times> liballoc) outcome" where
  "liballoc_alloc pages s =
     obind (pmm_allocate_contiguous pages 0 (frames s)) (\<lambda>(status, pl, fs).
     if status \<noteq> IR_OK then Panic
     else (case pl of None \<Rightarrow> Fault | Some p \<Rightarrow> Ret (p, s\<lparr>frames := fs\<rparr>)))"

partial_function (option) free_pages_loop :: "ptr \<Rightarrow> pmm \<Rightarrow> pmm outcome option" where
  "free_pages_loop page fs =
     (case pm_pages fs page of
        None \<Rightarrow> Some Fault
      | Some pg \<Rightarrow> if pg_next pg = NULL then Some (Ret fs)
                  else (case pmm_free_page page fs of Ret fs' \<Rightarrow> free_pages_loop (pg_next pg) fs'
                        | Fault \<Rightarrow> Some Fault | Panic \<Rightarrow> Some Panic | Hang \<Rightarrow> Some Hang))"

definition liballoc_free :: "ptr \<Rightarrow> liballoc \<Rightarrow> liballoc outcome" where
  "liballoc_free pl s = obind (looped (free_pages_loop pl (frames s))) (\<lambda>fs. Ret (s\<lparr>frames := fs\<rparr>))"

text \<open>A counter of 32 bits runs over the bytes to clear.\<close>

definition liballoc_memset :: "ptr \<Rightarrow> u32 \<Rightarrow> u64 \<Rightarrow> liballoc \<Rightarrow> liballoc outcome" where
  "liballoc_memset p c n s = (if unat n < 2 ^ 32 then Ret (s\<lparr>heap_mem := memset p c n (heap_mem s)\<rparr>) else Hang)"

text \<open>Whole words first, then the bytes that are left.\<close>

fun copy_words :: "ptr \<Rightarrow> ptr \<Rightarrow> nat \<Rightarrow> memory \<Rightarrow> memory" where
  "copy_words dest src n m =
     (if 4 \<le> n then copy_words (dest + 4) (src + 4) (n - 4) (write_bytes dest (read_bytes src 4 m) m)
      else fold (\<lambda>i m. m(dest + of_nat i := m (src + of_nat i))) [0..<n] m)"

declare copy_words.simps [simp del]

definition liballoc_memcpy :: "ptr \<Rightarrow> ptr \<Rightarrow> u64 \<Rightarrow> liballoc \<Rightarrow> liballoc" where
  "liballoc_memcpy dest src n s = s\<lparr>heap_mem := copy_words dest src (unat n) (heap_mem s)\<rparr>"

definition block_pages :: "u32 \<Rightarrow> u32" where
  "block_pages sz =
     (let st = sz + ucast sizeof_major + ucast sizeof_minor;
          st = (if st mod l_pageSize = 0 then st div l_pageSize else st div l_pageSize + 1)
      in if st < l_pageCount then l_pageCount else st)"

definition allocate_new_page :: "u32 \<Rightarrow> liballoc \<Rightarrow> (ptr \<times> liballoc) outcome" where
  "allocate_new_page sz s =
     (let st = block_pages sz in
      obind (liballoc_alloc (ucast st) s) (\<lambda>(pl, s).
      obind (load (pm_pages (frames s)) pl) (\<lambda>pg.
      let maj = p_addr_to_physical_map (pg_address pg) in
      if maj = NULL then Ret (NULL, s\<lparr>l_warningCount := l_warningCount s + 1\<rparr>)
      else Ret (maj, s\<lparr>majors := (majors s)(maj \<mapsto> \<lparr>mj_prev = NULL, mj_next = NULL, mj_page_list = pl, mj_pages = st,
                  mj_size = st * l_pageSize, mj_usage = ucast sizeof_major, mj_first = NULL\<rparr>),
                l_allocated := l_allocated s + ucast (st * l_pageSize)\<rparr>))))"

section \<open>malloc\<close>

text \<open>The end of every case that places an object: the usage, the aligned pointer and the lock.\<close>

definition placed :: "ptr \<Rightarrow> ptr \<Rightarrow> u64 \<Rightarrow> liballoc \<Rightarrow> (ptr \<times> liballoc) outcome" where
  "placed maj n sz s =
     obind (update_major maj (\<lambda>v. v\<lparr>mj_usage := mj_usage v + ucast (sz + sizeof_minor)\<rparr>) s) (\<lambda>s.
     let (p, s) = ALIGN (n + sizeof_minor) (s\<lparr>l_inuse := l_inuse s + sz\<rparr>) in Ret (p, liballoc_unlock s))"

definition new_minor :: "ptr \<Rightarrow> ptr \<Rightarrow> ptr \<Rightarrow> u64 \<Rightarrow> u64 \<Rightarrow> liballoc_minor" where
  "new_minor prev next maj sz req =
     \<lparr>mn_prev = prev, mn_next = next, mn_block = maj, mn_magic = LIBALLOC_MAGIC, mn_size = ucast sz, mn_req_size = ucast req\<rparr>"

text \<open>The cases 2 (an empty block), 3 (room before the first object), 4.1 (after the last) and 4.2 (between two).\<close>

definition place_first :: "ptr \<Rightarrow> u64 \<Rightarrow> u64 \<Rightarrow> liballoc \<Rightarrow> (ptr \<times> liballoc) outcome" where
  "place_first maj sz req s =
     (let n = maj + sizeof_major in
      obind (update_major maj (\<lambda>v. v\<lparr>mj_first := n\<rparr>) s) (\<lambda>s.
      placed maj n sz (s\<lparr>minors := (minors s)(n \<mapsto> new_minor NULL NULL maj sz req)\<rparr>)))"

definition place_front :: "ptr \<Rightarrow> ptr \<Rightarrow> u64 \<Rightarrow> u64 \<Rightarrow> liballoc \<Rightarrow> (ptr \<times> liballoc) outcome" where
  "place_front maj first sz req s =
     (let n = maj + sizeof_major in
      obind (update_minor first (\<lambda>v. v\<lparr>mn_prev := n\<rparr>) s) (\<lambda>s.
      obind (update_major maj (\<lambda>v. v\<lparr>mj_first := n\<rparr>) s) (\<lambda>s.
      placed maj n sz (s\<lparr>minors := (minors s)(n \<mapsto> new_minor NULL first maj sz req)\<rparr>))))"

definition place_last :: "ptr \<Rightarrow> ptr \<Rightarrow> u64 \<Rightarrow> u64 \<Rightarrow> liballoc \<Rightarrow> (ptr \<times> liballoc) outcome" where
  "place_last maj mn sz req s =
     obind (load (minors s) mn) (\<lambda>v.
     let n = mn + sizeof_minor + ucast (mn_size v) in
     obind (update_minor mn (\<lambda>v. v\<lparr>mn_next := n\<rparr>) s) (\<lambda>s.
     placed maj n sz (s\<lparr>minors := (minors s)(n \<mapsto> new_minor mn NULL maj sz req)\<rparr>)))"

definition place_between :: "ptr \<Rightarrow> ptr \<Rightarrow> u64 \<Rightarrow> u64 \<Rightarrow> liballoc \<Rightarrow> (ptr \<times> liballoc) outcome" where
  "place_between maj mn sz req s =
     obind (load (minors s) mn) (\<lambda>v.
     let n = mn + sizeof_minor + ucast (mn_size v) in
     obind (update_minor (mn_next v) (\<lambda>v. v\<lparr>mn_prev := n\<rparr>) (s\<lparr>minors := (minors s)(n \<mapsto> new_minor mn (mn_next v) maj sz req)\<rparr>)) (\<lambda>s.
     obind (update_minor mn (\<lambda>v. v\<lparr>mn_next := n\<rparr>) s) (\<lambda>s.
     placed maj n sz s)))"

text \<open>Case 4: the loop over the objects of a block; \<^term>\<open>None\<close> when it reaches the end without room.\<close>

partial_function (option) place_loop ::
  "ptr \<Rightarrow> u64 \<Rightarrow> u64 \<Rightarrow> ptr \<Rightarrow> liballoc \<Rightarrow> (ptr \<times> liballoc) option outcome option" where
  "place_loop maj sz req mn s =
     (if mn = NULL then Some (Ret None) else
      case minors s mn of None \<Rightarrow> Some Fault | Some v \<Rightarrow>
      case majors s maj of None \<Rightarrow> Some Fault | Some mj \<Rightarrow>
      if mn_next v = NULL then
        (if maj + ucast (mj_size mj) - mn - sizeof_minor - ucast (mn_size v) \<ge> sz + sizeof_minor
         then Some (obind (place_last maj mn sz req s) (\<lambda>r. Ret (Some r)))
         else place_loop maj sz req (mn_next v) s)
      else
        (if mn_next v - mn - sizeof_minor - ucast (mn_size v) \<ge> sz + sizeof_minor
         then Some (obind (place_between maj mn sz req s) (\<lambda>r. Ret (Some r)))
         else place_loop maj sz req (mn_next v) s))"

definition append_block :: "ptr \<Rightarrow> u64 \<Rightarrow> liballoc \<Rightarrow> (ptr \<times> liballoc) outcome" where
  "append_block maj sz s =
     obind (allocate_new_page (ucast sz) s) (\<lambda>(new, s).
     obind (update_major maj (\<lambda>v. v\<lparr>mj_next := new\<rparr>) s) (\<lambda>s.
     if new = NULL then Ret (NULL, s)
     else obind (update_major new (\<lambda>v. v\<lparr>mj_prev := maj\<rparr>) s) (\<lambda>s. Ret (new, s))))"

text \<open>
  The state of the loop over the blocks: the block, whether the search began at the best one, and the most free memory
  seen. A step either goes on with another block or is done.
\<close>

type_synonym search = "ptr \<times> bool \<times> u64 \<times> liballoc"

definition block_full :: "u64 \<Rightarrow> ptr \<Rightarrow> bool \<Rightarrow> u64 \<Rightarrow> liballoc \<Rightarrow> (search + ptr \<times> liballoc) outcome" where
  "block_full sz maj started best s =
     obind (load (majors s) maj) (\<lambda>mj.
     if mj_next mj \<noteq> NULL then Ret (Inl (mj_next mj, started, best, s))
     else if started then Ret (Inl (l_memRoot s, False, best, s))
     else obind (append_block maj sz s) (\<lambda>(new, s).
       Ret (if new = NULL then Inr (NULL, liballoc_unlock s) else Inl (new, started, best, s))))"

definition place_in_block :: "u64 \<Rightarrow> u64 \<Rightarrow> ptr \<Rightarrow> bool \<Rightarrow> u64 \<Rightarrow> liballoc \<Rightarrow> (search + ptr \<times> liballoc) outcome" where
  "place_in_block sz req maj started best s =
     obind (load (majors s) maj) (\<lambda>mj.
     if mj_first mj = NULL then obind (place_first maj sz req s) (\<lambda>r. Ret (Inr r))
     else if mj_first mj - maj - sizeof_major \<ge> sz + sizeof_minor
     then obind (place_front maj (mj_first mj) sz req s) (\<lambda>r. Ret (Inr r))
     else obind (looped (place_loop maj sz req (mj_first mj) s)) (\<lambda>r.
       case r of Some r \<Rightarrow> Ret (Inr r) | None \<Rightarrow> block_full sz maj started best s))"

definition block_free :: "liballoc_major \<Rightarrow> u64" where
  "block_free mj = ucast (mj_size mj - mj_usage mj)"

definition search_step :: "u64 \<Rightarrow> u64 \<Rightarrow> search \<Rightarrow> (search + ptr \<times> liballoc) outcome" where
  "search_step sz req = (\<lambda>(maj, started, best, s).
     if maj = NULL then Ret (Inr (NULL, liballoc_unlock s)) else
     obind (load (majors s) maj) (\<lambda>mj.
     let diff = block_free mj; (s, best) = (if best < diff then (s\<lparr>l_bestBet := maj\<rparr>, diff) else (s, best)) in
     if diff < sz + sizeof_minor then
       if mj_next mj \<noteq> NULL then Ret (Inl (mj_next mj, started, best, s))
       else if started then Ret (Inl (l_memRoot s, False, best, s))
       else obind (append_block maj sz s) (\<lambda>(new, s).
         if new = NULL then Ret (Inr (NULL, liballoc_unlock s)) else place_in_block sz req new started best s)
     else place_in_block sz req maj started best s))"

partial_function (option) search_loop :: "u64 \<Rightarrow> u64 \<Rightarrow> search \<Rightarrow> (ptr \<times> liballoc) outcome option" where
  "search_loop sz req st =
     (case search_step sz req st of
        Ret r \<Rightarrow> (case r of Inl st' \<Rightarrow> search_loop sz req st' | Inr x \<Rightarrow> Some (Ret x))
      | Fault \<Rightarrow> Some Fault | Panic \<Rightarrow> Some Panic | Hang \<Rightarrow> Some Hang)"

definition malloc_nonempty :: "u64 \<Rightarrow> liballoc \<Rightarrow> (ptr \<times> liballoc) outcome" where
  "malloc_nonempty req s =
     (let sz = req + (ALIGNMENT + ALIGN_INFO) in
      obind (liballoc_lock s) (\<lambda>s.
      obind (if l_memRoot s \<noteq> NULL then Ret s
             else obind (allocate_new_page (ucast sz) s) (\<lambda>(new, s). Ret (s\<lparr>l_memRoot := new\<rparr>))) (\<lambda>s.
      if l_memRoot s = NULL then Ret (NULL, liballoc_unlock s) else
      obind (if l_bestBet s = NULL then Ret (l_memRoot s, False, 0)
             else obind (load (majors s) (l_bestBet s)) (\<lambda>mj.
               Ret (if block_free mj > sz + sizeof_minor then (l_bestBet s, True, block_free mj)
                    else (l_memRoot s, False, block_free mj)))) (\<lambda>(maj, started, best).
      looped (search_loop sz req (maj, started, best, s))))))"

definition malloc :: "u64 \<Rightarrow> liballoc \<Rightarrow> (ptr \<times> liballoc) outcome" where
  "malloc req s =
     (if req + (ALIGNMENT + ALIGN_INFO) = 0 then
        obind (liballoc_lock s) (\<lambda>s. malloc_nonempty 1 (liballoc_unlock (s\<lparr>l_warningCount := l_warningCount s + 1\<rparr>)))
      else malloc_nonempty req s)"

section \<open>free, calloc, realloc\<close>

text \<open>What both \<^verbatim>\<open>free\<close> and \<^verbatim>\<open>realloc\<close> do with a pointer whose header does not have the magic number.\<close>

definition bad_magic :: "u32 \<Rightarrow> liballoc \<Rightarrow> liballoc" where
  "bad_magic magic s =
     (let s = s\<lparr>l_errorCount := l_errorCount s + 1\<rparr> in
      liballoc_unlock
        (if magic AND 0xFFFFFF = LIBALLOC_MAGIC AND 0xFFFFFF \<or> magic AND 0xFFFF = LIBALLOC_MAGIC AND 0xFFFF \<or>
            magic AND 0xFF = LIBALLOC_MAGIC AND 0xFF
         then s\<lparr>l_possibleOverruns := l_possibleOverruns s + 1\<rparr> else s))"

definition unlink_minor :: "ptr \<Rightarrow> liballoc \<Rightarrow> (ptr \<times> liballoc) outcome" where
  "unlink_minor mn s =
     obind (load (minors s) mn) (\<lambda>v.
     let maj = mn_block v in
     obind (update_major maj (\<lambda>mj. mj\<lparr>mj_usage := mj_usage mj - (mn_size v + ucast sizeof_minor)\<rparr>)
              (s\<lparr>l_inuse := l_inuse s - ucast (mn_size v)\<rparr>)) (\<lambda>s.
     obind (update_minor mn (\<lambda>v. v\<lparr>mn_magic := LIBALLOC_DEAD\<rparr>) s) (\<lambda>s.
     obind (if mn_next v \<noteq> NULL then update_minor (mn_next v) (\<lambda>w. w\<lparr>mn_prev := mn_prev v\<rparr>) s else Ret s) (\<lambda>s.
     obind (if mn_prev v \<noteq> NULL then update_minor (mn_prev v) (\<lambda>w. w\<lparr>mn_next := mn_next v\<rparr>) s else Ret s) (\<lambda>s.
     obind (if mn_prev v = NULL then update_major maj (\<lambda>mj. mj\<lparr>mj_first := mn_next v\<rparr>) s else Ret s) (\<lambda>s.
     Ret (maj, s)))))))"

definition release_block :: "ptr \<Rightarrow> liballoc \<Rightarrow> liballoc outcome" where
  "release_block maj s =
     obind (load (majors s) maj) (\<lambda>mj.
     let s = (if l_memRoot s = maj then s\<lparr>l_memRoot := mj_next mj\<rparr> else s);
         s = (if l_bestBet s = maj then s\<lparr>l_bestBet := NULL\<rparr> else s) in
     obind (if mj_prev mj \<noteq> NULL then update_major (mj_prev mj) (\<lambda>v. v\<lparr>mj_next := mj_next mj\<rparr>) s else Ret s) (\<lambda>s.
     obind (if mj_next mj \<noteq> NULL then update_major (mj_next mj) (\<lambda>v. v\<lparr>mj_prev := mj_prev mj\<rparr>) s else Ret s) (\<lambda>s.
     liballoc_free (mj_page_list mj) (s\<lparr>l_allocated := l_allocated s - ucast (mj_size mj), majors := (majors s)(maj := None)\<rparr>))))"

definition update_best :: "ptr \<Rightarrow> liballoc \<Rightarrow> liballoc outcome" where
  "update_best maj s =
     (if l_bestBet s = NULL then Ret s else
      obind (load (majors s) (l_bestBet s)) (\<lambda>b.
      obind (load (majors s) maj) (\<lambda>mj.
      Ret (if sint (mj_size mj - mj_usage mj) > sint (mj_size b - mj_usage b) then s\<lparr>l_bestBet := maj\<rparr> else s))))"

definition free :: "ptr \<Rightarrow> liballoc \<Rightarrow> liballoc outcome" where
  "free p s =
     (if p = NULL then Ret (s\<lparr>l_warningCount := l_warningCount s + 1\<rparr>) else
      let p = UNALIGN p s in
      obind (liballoc_lock s) (\<lambda>s.
      let mn = p - sizeof_minor in
      obind (load (minors s) mn) (\<lambda>v.
      if mn_magic v \<noteq> LIBALLOC_MAGIC then Ret (bad_magic (mn_magic v) s) else
      obind (unlink_minor mn s) (\<lambda>(maj, s).
      obind (load (majors s) maj) (\<lambda>mj.
      obind (if mj_first mj = NULL then release_block maj s else update_best maj s) (\<lambda>s.
      Ret (liballoc_unlock s)))))))"

text \<open>The product is kept in an \<^verbatim>\<open>int\<close>. A failed allocation runs into a breakpoint instruction.\<close>

definition calloc :: "u64 \<Rightarrow> u64 \<Rightarrow> liballoc \<Rightarrow> (ptr \<times> liballoc) outcome" where
  "calloc nobj sz s =
     (let real_size = (scast (ucast (nobj * sz) :: u32) :: u64) in
      obind (malloc real_size s) (\<lambda>(p, s).
      if p = NULL then Panic else
      obind (liballoc_memset p 0 real_size s) (\<lambda>s.
      Ret (p, s))))"

definition realloc :: "ptr \<Rightarrow> u64 \<Rightarrow> liballoc \<Rightarrow> (ptr \<times> liballoc) outcome" where
  "realloc p sz s =
     (if sz = 0 then obind (free p s) (\<lambda>s. Ret (NULL, s))
      else if p = NULL then malloc sz s else
      let q = UNALIGN p s in
      obind (liballoc_lock s) (\<lambda>s.
      let mn = q - sizeof_minor in
      obind (load (minors s) mn) (\<lambda>v.
      if mn_magic v \<noteq> LIBALLOC_MAGIC then Ret (NULL, bad_magic (mn_magic v) s) else
      let real_size = mn_req_size v in
      if ucast real_size \<ge> sz then
        obind (update_minor mn (\<lambda>v. v\<lparr>mn_req_size := ucast sz\<rparr>) s) (\<lambda>s. Ret (p, liballoc_unlock s))
      else
        obind (malloc sz (liballoc_unlock s)) (\<lambda>(new, s).
        if new = NULL then Fault else
        obind (free p (liballoc_memcpy new p (ucast real_size) s)) (\<lambda>s.
        Ret (new, s))))))"

end
