(* ===== verification/Heap_Layout.thy ===== *)
theory Heap_Layout
  imports Heap
begin

text \<open>
  The invariant of the heap: doubly linked lists of headers, objects laid out in a block in the order of their addresses,
  blocks that keep clear of each other, and linking a new object into a block.
\<close>

section \<open>Lists of headers\<close>

text \<open>\<open>hseg m pv nx b p xs q\<close>: from \<open>p\<close>, preceded by \<open>b\<close>, the headers \<open>xs\<close> are linked both ways up to \<open>q\<close>.\<close>

fun hseg :: "(ptr \<rightharpoonup> 'v) \<Rightarrow> ('v \<Rightarrow> ptr) \<Rightarrow> ('v \<Rightarrow> ptr) \<Rightarrow> ptr \<Rightarrow> ptr \<Rightarrow> ptr list \<Rightarrow> ptr \<Rightarrow> bool" where
  "hseg m pv nx b p [] q \<longleftrightarrow> p = q"
| "hseg m pv nx b p (x # xs) q \<longleftrightarrow> p = x \<and> x \<noteq> NULL \<and>
     (case m x of None \<Rightarrow> False | Some v \<Rightarrow> pv v = b \<and> hseg m pv nx x (nx v) xs q)"

lemma hseg_append:
  "hseg m pv nx b p (xs @ ys) q \<longleftrightarrow> (\<exists>r. hseg m pv nx b p xs r \<and> hseg m pv nx (last (b # xs)) r ys q)"
  by (induction xs arbitrary: b p) (auto split: option.splits)

lemma hseg_cong:
  "(\<And>x. x \<in> set xs \<Longrightarrow> map_option (\<lambda>v. (pv v, nx v)) (m x) = map_option (\<lambda>v. (pv v, nx v)) (m' x)) \<Longrightarrow>
    hseg m pv nx b p xs q = hseg m' pv nx b p xs q"
proof (induction xs arbitrary: b p)
  case (Cons x xs)
  have "map_option (\<lambda>v. (pv v, nx v)) (m x) = map_option (\<lambda>v. (pv v, nx v)) (m' x)"
    by (rule Cons.prems) simp
  moreover have "hseg m pv nx b' p' xs q = hseg m' pv nx b' p' xs q" for b' p'
    by (rule Cons.IH) (rule Cons.prems, simp)
  ultimately show ?case
    by (cases "m x"; cases "m' x") auto
qed simp

lemma hseg_start: "hseg m pv nx b p xs q \<Longrightarrow> p = hd (xs @ [q])"
  by (cases xs) auto

lemma hseg_defined: "hseg m pv nx b p xs q \<Longrightarrow> x \<in> set xs \<Longrightarrow> x \<noteq> NULL \<and> (\<exists>v. m x = Some v)"
  by (induction xs arbitrary: b p) (auto split: option.splits)

text \<open>The links of one element in the middle.\<close>

lemma hseg_middle:
  assumes "hseg m pv nx b p (xs @ x # ys) q"
  obtains v where "m x = Some v" "x \<noteq> NULL" "pv v = last (b # xs)" "nx v = hd (ys @ [q])"
    "hseg m pv nx x (nx v) ys q" "hseg m pv nx b p xs x"
proof -
  obtain v where v: "m x = Some v" "x \<noteq> NULL" "pv v = last (b # xs)" "hseg m pv nx x (nx v) ys q" "hseg m pv nx b p xs x"
    using assms by (auto simp: hseg_append split: option.splits)
  then show thesis
    using that hseg_start [OF v(4)] by blast
qed

text \<open>Changing what the last element points to, or what the first one is preceded by.\<close>

lemma hseg_set_next:
  assumes "hseg m pv nx b p xs q" "xs \<noteq> []" "distinct xs" "m (last xs) = Some v" "pv v' = pv v" "nx v' = r"
  shows "hseg (m(last xs \<mapsto> v')) pv nx b p xs r"
proof -
  define ys x where "ys = butlast xs" and "x = last xs"
  have xs: "xs = ys @ [x]" and x: "x \<notin> set ys"
    using assms(2,3) unfolding ys_def x_def by (metis append_butlast_last_id, metis append_butlast_last_id distinct_butlast not_distinct_conv_prefix)
  have "hseg (m(x \<mapsto> v')) pv nx b p ys z = hseg m pv nx b p ys z" for z
    using x by (intro hseg_cong) auto
  then show ?thesis
    using assms(1,4-) unfolding x_def [symmetric] by (auto simp: xs hseg_append)
qed

lemma hseg_set_prev:
  assumes "hseg m pv nx b p (x # xs) q" "x \<notin> set xs" "m x = Some v" "pv v' = c" "nx v' = nx v"
  shows "hseg (m(x \<mapsto> v')) pv nx c p (x # xs) q"
proof -
  have "hseg (m(x \<mapsto> v')) pv nx b' p' xs q = hseg m pv nx b' p' xs q" for b' p'
    using assms(2) by (intro hseg_cong) auto
  then show ?thesis
    using assms by simp
qed

section \<open>Layout of a block\<close>

definition obj_size :: "(ptr \<rightharpoonup> liballoc_minor) \<Rightarrow> ptr \<Rightarrow> nat" where
  "obj_size m n = (case m n of None \<Rightarrow> 0 | Some v \<Rightarrow> unat (mn_size v))"

text \<open>Between the addresses \<open>lo\<close> and \<open>hi\<close> the objects follow each other without overlapping.\<close>

fun laid_out :: "(ptr \<rightharpoonup> liballoc_minor) \<Rightarrow> nat \<Rightarrow> ptr list \<Rightarrow> nat \<Rightarrow> bool" where
  "laid_out m lo [] hi \<longleftrightarrow> lo \<le> hi"
| "laid_out m lo (n # ns) hi \<longleftrightarrow> lo \<le> unat n \<and> laid_out m (unat n + 40 + obj_size m n) ns hi"

lemma laid_out_append:
  "laid_out m lo (xs @ n # ys) hi \<longleftrightarrow> laid_out m lo xs (unat n) \<and> laid_out m (unat n + 40 + obj_size m n) ys hi"
  by (induction xs arbitrary: lo) auto

lemma laid_out_total: "laid_out m lo ns hi \<Longrightarrow> lo + (\<Sum>n\<leftarrow>ns. 40 + obj_size m n) \<le> hi"
  by (induction ns arbitrary: lo) fastforce+

lemma laid_out_within: "laid_out m lo ns hi \<Longrightarrow> n \<in> set ns \<Longrightarrow> lo \<le> unat n \<and> unat n + 40 + obj_size m n \<le> hi"
proof (induction ns arbitrary: lo)
  case (Cons x ns)
  have "unat x + 40 + obj_size m x \<le> hi"
    using Cons.prems(1) laid_out_total [of m "unat x + 40 + obj_size m x" ns hi] by simp
  then show ?case
    using Cons by fastforce
qed simp

lemma laid_out_distinct: "laid_out m lo ns hi \<Longrightarrow> distinct ns"
proof (induction ns arbitrary: lo)
  case (Cons x ns)
  then show ?case
    using laid_out_within [of m "unat x + 40 + obj_size m x" ns hi x] by auto
qed simp

lemma laid_out_apart:
  "laid_out m lo ns hi \<Longrightarrow> n \<in> set ns \<Longrightarrow> k \<in> set ns \<Longrightarrow> n \<noteq> k \<Longrightarrow>
    unat n + 40 + obj_size m n \<le> unat k \<or> unat k + 40 + obj_size m k \<le> unat n"
proof (induction ns arbitrary: lo)
  case (Cons x ns)
  then show ?case
    using laid_out_within [of m "unat x + 40 + obj_size m x" ns hi] by fastforce
qed simp

lemma laid_out_cong:
  "(\<And>n. n \<in> set ns \<Longrightarrow> obj_size m n = obj_size m' n) \<Longrightarrow> laid_out m lo ns hi = laid_out m' lo ns hi"
  by (induction ns arbitrary: lo) auto

lemma laid_out_mono: "laid_out m lo ns hi \<Longrightarrow> lo' \<le> lo \<Longrightarrow> hi \<le> hi' \<Longrightarrow> laid_out m lo' ns hi'"
  by (induction ns arbitrary: lo lo') auto

text \<open>Where an object of a given size can go between \<open>xs\<close> and \<open>ys\<close>.\<close>

definition end_of :: "(ptr \<rightharpoonup> liballoc_minor) \<Rightarrow> nat \<Rightarrow> ptr list \<Rightarrow> nat" where
  "end_of m lo xs = (if xs = [] then lo else unat (last xs) + 40 + obj_size m (last xs))"

lemma laid_out_end: "laid_out m lo xs hi \<Longrightarrow> end_of m lo xs \<le> hi \<and> laid_out m lo xs (end_of m lo xs)"
proof (induction xs arbitrary: lo)
  case (Cons x xs)
  then show ?case by (cases xs) (auto simp: end_of_def)
qed (simp add: end_of_def)

lemma laid_out_insert:
  assumes "laid_out m lo (xs @ ys) hi" and "end_of m lo xs = unat n"
    and "unat n + 40 + sz \<le> (if ys = [] then hi else unat (hd ys))"
    and "obj_size m' n = sz" "\<And>x. x \<in> set (xs @ ys) \<Longrightarrow> obj_size m' x = obj_size m x"
  shows "laid_out m' lo (xs @ n # ys) hi"
proof -
  have xs: "laid_out m lo xs (unat n)"
  proof (cases ys)
    case Nil
    then show ?thesis
      using assms(1,2) laid_out_end [of m lo xs hi] by simp
  next
    case (Cons y zs)
    then show ?thesis
      using assms(1,2) laid_out_end [of m lo xs "unat y"] by (simp add: laid_out_append)
  qed
  have ys: "laid_out m (unat n + 40 + sz) ys hi"
    using assms(1,3) by (cases ys) (auto simp: laid_out_append)
  have "laid_out m' lo xs (unat n)" "laid_out m' (unat n + 40 + sz) ys hi"
    using xs ys assms(5) laid_out_cong [of xs m m' lo "unat n"] laid_out_cong [of ys m m' "unat n + 40 + sz" hi] by simp_all
  then show ?thesis
    using assms(4) by (simp add: laid_out_append)
qed

section \<open>The heap's invariant\<close>

abbreviation minor_seg :: "(ptr \<rightharpoonup> liballoc_minor) \<Rightarrow> ptr \<Rightarrow> ptr list \<Rightarrow> bool" where
  "minor_seg m p ns \<equiv> hseg m mn_prev mn_next NULL p ns NULL"

abbreviation major_seg :: "(ptr \<rightharpoonup> liballoc_major) \<Rightarrow> ptr \<Rightarrow> ptr list \<Rightarrow> bool" where
  "major_seg m p bs \<equiv> hseg m mj_prev mj_next NULL p bs NULL"

definition live :: "(ptr \<rightharpoonup> liballoc_minor) \<Rightarrow> ptr \<Rightarrow> ptr \<Rightarrow> bool" where
  "live m maj n \<longleftrightarrow> (case m n of None \<Rightarrow> False | Some v \<Rightarrow> mn_magic v = LIBALLOC_MAGIC \<and> mn_block v = maj)"

text \<open>The block at \<open>maj\<close> holds exactly the objects \<open>ns\<close>, in the order of their addresses and without overlap; its usage is what they
  take with their headers and its own.\<close>

definition block_ok :: "(ptr \<rightharpoonup> liballoc_minor) \<Rightarrow> ptr \<Rightarrow> liballoc_major \<Rightarrow> ptr list \<Rightarrow> bool" where
  "block_ok m maj mj ns \<longleftrightarrow> maj \<noteq> NULL \<and> 16 dvd unat maj \<and> unat maj + unat (mj_size mj) < 2 ^ 64 \<and>
     unat (mj_usage mj) = 48 + (\<Sum>n\<leftarrow>ns. 40 + obj_size m n) \<and>
     minor_seg m (mj_first mj) ns \<and> laid_out m (unat maj + 48) ns (unat maj + unat (mj_size mj)) \<and>
     (\<forall>n \<in> set ns. live m maj n)"

lemma obj_size_cong: "m n = m' n \<Longrightarrow> obj_size m n = obj_size m' n"
  by (simp add: obj_size_def)

lemma live_cong: "m n = m' n \<Longrightarrow> live m maj n = live m' maj n"
  by (simp add: live_def)

lemma block_ok_cong:
  assumes "\<And>n. n \<in> set ns \<Longrightarrow> m n = m' n"
  shows "block_ok m maj mj ns = block_ok m' maj mj ns"
proof -
  have "(\<Sum>n\<leftarrow>ns. 40 + obj_size m n) = (\<Sum>n\<leftarrow>ns. 40 + obj_size m' n)"
    by (intro arg_cong [where f = sum_list] map_cong refl arg_cong [where f = "\<lambda>k. 40 + k"] obj_size_cong assms)
  moreover have "minor_seg m (mj_first mj) ns = minor_seg m' (mj_first mj) ns"
    by (intro hseg_cong arg_cong [where f = "map_option (\<lambda>v. (mn_prev v, mn_next v))"] assms)
  moreover have "laid_out m lo ns hi = laid_out m' lo ns hi" for lo hi
    by (intro laid_out_cong obj_size_cong assms)
  moreover have "(\<forall>n \<in> set ns. live m maj n) = (\<forall>n \<in> set ns. live m' maj n)"
    by (intro ball_cong refl live_cong assms)
  ultimately show ?thesis
    by (simp only: block_ok_def)
qed

lemma block_ok_usage: "block_ok m maj mj ns \<Longrightarrow> unat (mj_usage mj) \<le> unat (mj_size mj)"
  using laid_out_total [of m "unat maj + 48" ns "unat maj + unat (mj_size mj)"] by (auto simp: block_ok_def)

lemma block_ok_free:
  assumes "block_ok m maj mj ns"
  shows "unat (block_free mj) = unat (mj_size mj) - unat (mj_usage mj)"
  using block_ok_usage [OF assms] by (simp add: block_free_def unat_sub word_le_nat_alt)

lemma block_ok_within:
  assumes "block_ok m maj mj ns" "n \<in> set ns"
  shows "unat maj + 48 \<le> unat n" "unat n + 40 + obj_size m n \<le> unat maj + unat (mj_size mj)"
  using assms laid_out_within by (auto simp: block_ok_def)

text \<open>\<open>M\<close> lists the blocks, each with its objects.\<close>

definition blocks_apart :: "(ptr \<rightharpoonup> liballoc_major) \<Rightarrow> ptr \<Rightarrow> ptr \<Rightarrow> bool" where
  "blocks_apart m a b \<longleftrightarrow> (case (m a, m b) of (Some v, Some w) \<Rightarrow>
     unat a + unat (mj_size v) \<le> unat b \<or> unat b + unat (mj_size w) \<le> unat a | _ \<Rightarrow> False)"

definition heap_inv :: "liballoc \<Rightarrow> (ptr \<times> ptr list) list \<Rightarrow> bool" where
  "heap_inv s H \<longleftrightarrow> major_seg (majors s) (l_memRoot s) (map fst H) \<and>
     (\<forall>(a, ns) \<in> set H. \<exists>mj. majors s a = Some mj \<and> block_ok (minors s) a mj ns) \<and>
     sorted_wrt (blocks_apart (majors s)) (map fst H) \<and>
     (l_bestBet s = NULL \<or> l_bestBet s \<in> set (map fst H))"

definition objects :: "(ptr \<times> ptr list) list \<Rightarrow> ptr set" where
  "objects H = (\<Union>(a, ns) \<in> set H. set ns)"

lemma heap_inv_block:
  assumes "heap_inv s H" "(a, ns) \<in> set H"
  obtains mj where "majors s a = Some mj" "block_ok (minors s) a mj ns"
  using assms by (fastforce simp: heap_inv_def)

lemma sorted_wrt_apart:
  assumes "sorted_wrt (blocks_apart m) (xs @ a # ys)" "b \<in> set (xs @ ys)"
  shows "blocks_apart m a b"
  using assms by (auto simp: sorted_wrt_append blocks_apart_def split: option.splits)

lemma blocks_apart_irrefl: "blocks_apart m a a \<Longrightarrow> m a = Some v \<Longrightarrow> mj_size v = 0"
  by (auto simp: blocks_apart_def unat_eq_zero)

text \<open>Objects of another block lie elsewhere.\<close>

lemma other_block_apart:
  assumes "heap_inv s (H1 @ (a, ns) # H2)" "(b, ks) \<in> set (H1 @ H2)" "majors s a = Some mj"
    and "k \<in> set ks" "unat a + 48 \<le> x" "x \<le> unat a + unat (mj_size mj)"
  shows "x \<le> unat k \<or> unat k + 40 + obj_size (minors s) k \<le> x"
proof -
  obtain mjb where mjb: "majors s b = Some mjb" "block_ok (minors s) b mjb ks"
    using assms(1,2) by (auto elim: heap_inv_block)
  have "sorted_wrt (blocks_apart (majors s)) (map fst H1 @ a # map fst H2)"
    using assms(1) by (simp add: heap_inv_def)
  moreover have "b \<in> set (map fst H1 @ map fst H2)"
    using assms(2) by force
  ultimately have "blocks_apart (majors s) a b"
    by (rule sorted_wrt_apart)
  then show ?thesis
    using assms(3,5,6) mjb(1) block_ok_within [OF mjb(2) assms(4)] by (auto simp: blocks_apart_def)
qed

section \<open>Linking an object into a block\<close>

definition link_object :: "ptr \<Rightarrow> liballoc_major \<Rightarrow> ptr list \<Rightarrow> ptr \<Rightarrow> ptr list \<Rightarrow> u64 \<Rightarrow> u64 \<Rightarrow> liballoc \<Rightarrow> liballoc" where
  "link_object maj mj xs n ys sz req s = s\<lparr>
     minors := (\<lambda>a. if a = n then Some (new_minor (last (NULL # xs)) (hd (ys @ [NULL])) maj sz req)
       else if xs \<noteq> [] \<and> a = last xs then map_option (\<lambda>v. v\<lparr>mn_next := n\<rparr>) (minors s a)
       else if ys \<noteq> [] \<and> a = hd ys then map_option (\<lambda>v. v\<lparr>mn_prev := n\<rparr>) (minors s a)
       else minors s a),
     majors := (majors s)(maj \<mapsto> mj\<lparr>mj_first := (if xs = [] then n else mj_first mj), mj_usage := mj_usage mj + ucast (sz + sizeof_minor)\<rparr>)\<rparr>"

lemma obj_size_new_minor: "unat sz < 2 ^ 32 \<Longrightarrow> unat (mn_size (new_minor a b maj sz req)) = unat sz"
  by (simp add: new_minor_def unsigned_ucast_eq take_bit_nat_eq_self)

lemma new_not_in_list:
  assumes "laid_out m lo (xs @ ys) hi" "end_of m lo xs = unat n" "unat n + 40 + sz \<le> (if ys = [] then hi else unat (hd ys))"
  shows "n \<notin> set (xs @ ys)"
proof
  assume n: "n \<in> set (xs @ ys)"
  show False
  proof (cases "n \<in> set xs")
    case True
    have "laid_out m lo xs (unat n)"
    proof (cases ys)
      case Nil
      then show ?thesis using assms(1,2) laid_out_end [of m lo xs hi] by simp
    next
      case (Cons y zs)
      then show ?thesis using assms(1,2) laid_out_end [of m lo xs "unat y"] by (simp add: laid_out_append)
    qed
    then show False
      using laid_out_within [of m lo xs "unat n" n] True by simp
  next
    case False
    then obtain y zs where ys: "ys = y # zs" "n \<in> set (y # zs)"
      using n by (cases ys) auto
    then have "laid_out m (unat y) (y # zs) hi"
      using assms(1) by (auto simp: laid_out_append)
    then show False
      using laid_out_within [of m "unat y" "y # zs" hi n] ys assms(3) by simp
  qed
qed

lemma link_object_seg:
  assumes seg: "minor_seg (minors s) (mj_first mj) (xs @ ys)" and new: "n \<notin> set (xs @ ys)" "n \<noteq> NULL" and dist: "distinct (xs @ ys)"
  shows "minor_seg (minors (link_object maj mj xs n ys sz req s)) (if xs = [] then n else mj_first mj) (xs @ n # ys)"
proof -
  let ?m' = "minors (link_object maj mj xs n ys sz req s)" and ?r = "hd (ys @ [NULL])"
  let ?first = "if xs = [] then n else mj_first mj"
  have pre: "hseg (minors s) mn_prev mn_next NULL (mj_first mj) xs ?r" and suf: "hseg (minors s) mn_prev mn_next (last (NULL # xs)) ?r ys NULL"
  proof -
    obtain r where r: "hseg (minors s) mn_prev mn_next NULL (mj_first mj) xs r" "hseg (minors s) mn_prev mn_next (last (NULL # xs)) r ys NULL"
      using seg by (auto simp only: hseg_append)
    then have "r = ?r"
      by (intro hseg_start)
    with r show "hseg (minors s) mn_prev mn_next NULL (mj_first mj) xs ?r" "hseg (minors s) mn_prev mn_next (last (NULL # xs)) ?r ys NULL"
      by simp_all
  qed
  have "hseg ?m' mn_prev mn_next NULL ?first xs n"
  proof (cases "xs = []")
    case False
    obtain v where v: "minors s (last xs) = Some v"
      using hseg_defined [OF pre, of "last xs"] False by auto
    have "hseg ((minors s)(last xs \<mapsto> v\<lparr>mn_next := n\<rparr>)) mn_prev mn_next NULL (mj_first mj) xs n"
      by (rule hseg_set_next [OF pre False _ v]) (use dist in simp_all)
    moreover have "hseg ?m' mn_prev mn_next NULL (mj_first mj) xs n =
        hseg ((minors s)(last xs \<mapsto> v\<lparr>mn_next := n\<rparr>)) mn_prev mn_next NULL (mj_first mj) xs n"
    proof (rule hseg_cong)
      fix x assume x: "x \<in> set xs"
      then have "\<not> (ys \<noteq> [] \<and> x = hd ys)" "x \<noteq> n"
        using new dist x by (cases ys; auto)+
      then show "map_option (\<lambda>v. (mn_prev v, mn_next v)) (?m' x) =
          map_option (\<lambda>v. (mn_prev v, mn_next v)) (((minors s)(last xs \<mapsto> v\<lparr>mn_next := n\<rparr>)) x)"
        using False v by (auto simp: link_object_def)
    qed
    ultimately show ?thesis
      using False by simp
  qed simp
  moreover have "hseg ?m' mn_prev mn_next n ?r ys NULL"
  proof (cases ys)
    case (Cons y zs)
    obtain v where v: "minors s y = Some v"
      using hseg_defined [OF suf, of y] Cons by auto
    have y: "y \<notin> set zs" "y \<noteq> n" "\<not> (xs \<noteq> [] \<and> y = last xs)"
      using dist new by (auto simp: Cons)
    have "hseg ((minors s)(y \<mapsto> v\<lparr>mn_prev := n\<rparr>)) mn_prev mn_next n y (y # zs) NULL"
      by (rule hseg_set_prev [where v = v and b = "last (NULL # xs)"]) (use suf Cons y v in simp_all)
    moreover have "hseg ?m' mn_prev mn_next n y (y # zs) NULL = hseg ((minors s)(y \<mapsto> v\<lparr>mn_prev := n\<rparr>)) mn_prev mn_next n y (y # zs) NULL"
    proof (rule hseg_cong)
      fix x assume x: "x \<in> set (y # zs)"
      have "x \<in> set ys" "x \<noteq> n"
        using new x by (auto simp: Cons)
      moreover have "set xs \<inter> set ys = {}"
        using dist by simp
      ultimately have "\<not> (xs \<noteq> [] \<and> x = last xs)"
        using last_in_set [of xs] by blast
      then show "map_option (\<lambda>v. (mn_prev v, mn_next v)) (?m' x) =
          map_option (\<lambda>v. (mn_prev v, mn_next v)) (((minors s)(y \<mapsto> v\<lparr>mn_prev := n\<rparr>)) x)"
        using v Cons \<open>x \<noteq> n\<close> by (auto simp: link_object_def)
    qed
    ultimately show ?thesis
      using Cons by simp
  qed simp
  ultimately show ?thesis
    using new(2) by (auto simp: hseg_append link_object_def new_minor_def)
qed

lemma link_object_minors:
  assumes "x \<noteq> n"
  shows "obj_size (minors (link_object maj mj xs n ys sz req s)) x = obj_size (minors s) x"
    "live (minors (link_object maj mj xs n ys sz req s)) b x = live (minors s) b x"
  using assms by (auto simp: link_object_def obj_size_def live_def split: option.splits)

lemma link_object_owner:
  "x \<noteq> n \<Longrightarrow> map_option mn_block (minors (link_object maj mj xs n ys sz req s) x) = map_option mn_block (minors s x)"
  by (auto simp: link_object_def option.map_comp comp_def)

lemma link_object_new:
  "minors (link_object maj mj xs n ys sz req s) n = Some (new_minor (last (NULL # xs)) (hd (ys @ [NULL])) maj sz req)"
  by (simp add: link_object_def)

definition fits :: "liballoc \<Rightarrow> ptr \<Rightarrow> liballoc_major \<Rightarrow> ptr list \<Rightarrow> ptr \<Rightarrow> ptr list \<Rightarrow> u64 \<Rightarrow> bool" where
  "fits s maj mj xs n ys sz \<longleftrightarrow> end_of (minors s) (unat maj + 48) xs = unat n \<and>
     unat n + 40 + unat sz \<le> (if ys = [] then unat maj + unat (mj_size mj) else unat (hd ys))"

lemma link_object_block:
  fixes req :: u64
  assumes ok: "block_ok (minors s) maj mj (xs @ ys)" and fit: "fits s maj mj xs n ys sz" and sz: "unat sz + 40 < 2 ^ 32"
  defines "s' \<equiv> link_object maj mj xs n ys sz req s"
  shows "block_ok (minors s') maj (the (majors s' maj)) (xs @ n # ys)" and "n \<notin> set (xs @ ys)"
proof -
  let ?mj' = "mj\<lparr>mj_first := (if xs = [] then n else mj_first mj), mj_usage := mj_usage mj + ucast (sz + sizeof_minor)\<rparr>"
  have lay: "laid_out (minors s) (unat maj + 48) (xs @ ys) (unat maj + unat (mj_size mj))"
    using ok by (simp add: block_ok_def)
  note f = fit [unfolded fits_def]
  show new: "n \<notin> set (xs @ ys)"
    by (rule new_not_in_list [OF lay f [THEN conjunct1] f [THEN conjunct2]])
  have lay': "laid_out (minors s') (unat maj + 48) (xs @ n # ys) (unat maj + unat (mj_size mj))"
  proof (rule laid_out_insert [OF lay f [THEN conjunct1] f [THEN conjunct2]])
    show "obj_size (minors s') n = unat sz"
      using sz by (simp add: s'_def obj_size_def link_object_new obj_size_new_minor)
    show "obj_size (minors s') x = obj_size (minors s) x" if "x \<in> set (xs @ ys)" for x
      unfolding s'_def using that new by (intro link_object_minors) auto
  qed
  then have "unat maj + 48 \<le> unat n"
    using laid_out_within [OF lay', of n] by simp
  then have "n \<noteq> NULL" by auto
  then have seg: "minor_seg (minors s') (mj_first ?mj') (xs @ n # ys)"
    unfolding s'_def using ok new laid_out_distinct [OF lay] by (simp add: block_ok_def link_object_seg)
  have sum: "(\<Sum>x\<leftarrow>xs @ n # ys. 40 + obj_size (minors s') x) = (\<Sum>x\<leftarrow>xs @ ys. 40 + obj_size (minors s) x) + 40 + unat sz"
  proof -
    have e: "(\<Sum>x\<leftarrow>zs. 40 + obj_size (minors s') x) = (\<Sum>x\<leftarrow>zs. 40 + obj_size (minors s) x)" if "n \<notin> set zs" for zs
      using that unfolding s'_def by (intro arg_cong [where f = sum_list] map_cong refl) (metis link_object_minors(1))
    have "n \<notin> set xs" "n \<notin> set ys" "obj_size (minors s') n = unat sz"
      using new sz by (simp_all add: s'_def obj_size_def [of _ n] link_object_new obj_size_new_minor)
    then show ?thesis
      using e [of xs] e [of ys] by simp
  qed
  have "unat (mj_usage mj) + (40 + unat sz) \<le> unat (mj_size mj)"
    using laid_out_total [OF lay'] sum ok by (simp add: block_ok_def)
  moreover have "unat (ucast (sz + sizeof_minor) :: u32) = 40 + unat sz"
  proof -
    have "unat (sz + sizeof_minor) = 40 + unat sz"
      using sz by (subst unat_add_lem [THEN iffD1]) simp_all
    then show ?thesis
      using sz by (simp add: unsigned_ucast_eq take_bit_nat_eq_self)
  qed
  ultimately have "unat (mj_usage ?mj') = 48 + (\<Sum>x\<leftarrow>xs @ n # ys. 40 + obj_size (minors s') x)"
    using ok unat_u32_less [of "mj_size mj"] unfolding sum
    by (simp add: block_ok_def) (subst unat_add_lem [THEN iffD1], simp_all)
  moreover have "the (majors s' maj) = ?mj'"
    by (simp add: s'_def link_object_def)
  moreover have "\<forall>x \<in> set (xs @ n # ys). live (minors s') maj x"
  proof
    fix x assume "x \<in> set (xs @ n # ys)"
    then show "live (minors s') maj x"
      using ok new link_object_minors(2) [of x n maj mj xs ys sz req s maj]
      by (cases "x = n") (auto simp: s'_def live_def [of _ _ n] link_object_new new_minor_def block_ok_def)
  qed
  ultimately show "block_ok (minors s') maj (the (majors s' maj)) (xs @ n # ys)"
    using ok lay' seg by (simp add: block_ok_def)
qed

lemma blocks_apart_cong:
  "(\<And>a. map_option mj_size (m a) = map_option mj_size (m' a)) \<Longrightarrow> blocks_apart m = blocks_apart m'"
proof (intro ext)
  fix a b assume e: "\<And>a. map_option mj_size (m a) = map_option mj_size (m' a)"
  show "blocks_apart m a b = blocks_apart m' a b"
    using e [of a] e [of b] by (auto simp: blocks_apart_def split: option.splits)
qed

lemma other_block:
  assumes "heap_inv s (H1 @ (a, ns) # H2)" "(b, ks) \<in> set (H1 @ H2)"
  shows "a \<noteq> b" and "set ns \<inter> set ks = {}"
proof -
  obtain mj where mj: "majors s a = Some mj" "block_ok (minors s) a mj ns"
    using assms(1) by (auto elim: heap_inv_block)
  have size: "mj_size mj \<noteq> 0"
    using block_ok_usage [OF mj(2)] mj(2) by (auto simp: block_ok_def)
  have "sorted_wrt (blocks_apart (majors s)) (map fst H1 @ a # map fst H2)"
    using assms(1) by (simp add: heap_inv_def)
  moreover have "b \<in> set (map fst H1 @ map fst H2)"
    using assms(2) by force
  ultimately have "blocks_apart (majors s) a b"
    by (rule sorted_wrt_apart)
  then show "a \<noteq> b"
    using blocks_apart_irrefl [of "majors s" a mj] mj(1) size by blast
  show "set ns \<inter> set ks = {}"
  proof (intro equals0I)
    fix k assume k: "k \<in> set ns \<inter> set ks"
    then have "unat a + 48 \<le> unat k + 1" "unat k + 1 \<le> unat a + unat (mj_size mj)"
      using block_ok_within [OF mj(2), of k] by simp_all
    then have "unat k + 1 \<le> unat k \<or> unat k + 40 + obj_size (minors s) k \<le> unat k + 1"
      using other_block_apart [OF assms mj(1), of k "unat k + 1"] k by blast
    then show False by simp
  qed
qed

lemma link_object_inv:
  fixes req :: u64
  assumes inv: "heap_inv s (H1 @ (maj, xs @ ys) # H2)" and mj: "majors s maj = Some mj"
    and fit: "fits s maj mj xs n ys sz" and sz: "unat sz + 40 < 2 ^ 32"
  defines "s' \<equiv> link_object maj mj xs n ys sz req s"
  shows "heap_inv s' (H1 @ (maj, xs @ n # ys) # H2)" and "n \<notin> objects (H1 @ (maj, xs @ ys) # H2)"
    and "unat n + 40 + unat sz < 2 ^ 64"
proof -
  have ok: "block_ok (minors s) maj mj (xs @ ys)"
    using inv mj by (auto elim!: heap_inv_block [of _ _ maj "xs @ ys"])
  note new = link_object_block(1) [OF ok fit sz, of req, folded s'_def] link_object_block(2) [OF ok fit sz]
  have maj': "majors s' maj = Some (the (majors s' maj))" and size': "mj_size (the (majors s' maj)) = mj_size mj"
    by (simp_all add: s'_def link_object_def)
  have osz: "obj_size (minors s') n = unat sz"
    using sz by (simp add: s'_def obj_size_def link_object_new obj_size_new_minor)
  have n: "unat maj + 48 \<le> unat n" "unat n + 40 + unat sz \<le> unat maj + unat (mj_size mj)"
    using block_ok_within [OF new(1), of n] by (simp_all add: osz size')
  then show "unat n + 40 + unat sz < 2 ^ 64"
    using ok by (simp add: block_ok_def)
  have other: "b \<noteq> maj" "n \<notin> set ks" "\<forall>k \<in> set ks. minors s' k = minors s k" if b: "(b, ks) \<in> set (H1 @ H2)" for b ks
  proof -
    show "b \<noteq> maj"
      using other_block(1) [OF inv b] by blast
    show n': "n \<notin> set ks"
    proof
      assume "n \<in> set ks"
      then have "unat n + 1 \<le> unat n \<or> unat n + 40 + obj_size (minors s) n \<le> unat n + 1"
        using other_block_apart [OF inv b mj, of n "unat n + 1"] n by simp
      then show False by simp
    qed
    have "set (xs @ ys) \<inter> set ks = {}"
      by (rule other_block(2) [OF inv b])
    then have "\<not> (xs \<noteq> [] \<and> k = last xs)" "\<not> (ys \<noteq> [] \<and> k = hd ys)" if "k \<in> set ks" for k
      using that last_in_set [of xs] hd_in_set [of ys] unfolding set_append by blast+
    then show "\<forall>k \<in> set ks. minors s' k = minors s k"
      using n' by (auto simp: s'_def link_object_def)
  qed
  show "n \<notin> objects (H1 @ (maj, xs @ ys) # H2)"
    using new(2) other(2) by (fastforce simp: objects_def)
  have "major_seg (majors s') p bs = major_seg (majors s) p bs" for p bs
    using mj by (intro hseg_cong) (simp add: s'_def link_object_def)
  moreover have "l_memRoot s' = l_memRoot s"
    by (simp add: s'_def link_object_def)
  moreover have "\<exists>mj. majors s' b = Some mj \<and> block_ok (minors s') b mj ks" if "(b, ks) \<in> set (H1 @ H2)" for b ks
  proof -
    have "(b, ks) \<in> set (H1 @ (maj, xs @ ys) # H2)"
      using that by auto
    then obtain mjb where mjb: "majors s b = Some mjb" "block_ok (minors s) b mjb ks"
      by (rule heap_inv_block [OF inv])
    have "block_ok (minors s') b mjb ks"
      using mjb(2) other(3) [OF that] block_ok_cong [of ks "minors s'" "minors s"] by simp
    then show ?thesis
      using mjb(1) other(1) [OF that] by (simp add: s'_def link_object_def)
  qed
  moreover have "blocks_apart (majors s') = blocks_apart (majors s)"
    using mj by (intro blocks_apart_cong) (simp add: s'_def link_object_def)
  moreover have "l_bestBet s' = l_bestBet s"
    by (simp add: s'_def link_object_def)
  ultimately show "heap_inv s' (H1 @ (maj, xs @ n # ys) # H2)"
    using inv new(1) maj' by (fastforce simp: heap_inv_def)
qed

end
