(* ===== verification/Heap_Alloc.thy ===== *)
theory Heap_Alloc
  imports Heap_Layout
begin

text \<open>
  Allocation: every case of \<^verbatim>\<open>malloc\<close> links an object where it fits, new blocks come from frames that were free, and the
  search through the blocks ends.
\<close>

section \<open>Placing an object\<close>

definition finish :: "ptr \<Rightarrow> u64 \<Rightarrow> liballoc \<Rightarrow> ptr \<times> liballoc" where
  "finish n sz s = (let (p, s) = ALIGN (n + sizeof_minor) (s\<lparr>l_inuse := l_inuse s + sz\<rparr>) in (p, liballoc_unlock s))"

lemma placed_finish:
  "majors s maj = Some mj \<Longrightarrow> placed maj n sz s =
    Ret (finish n sz (s\<lparr>majors := (majors s)(maj \<mapsto> mj\<lparr>mj_usage := mj_usage mj + ucast (sz + sizeof_minor)\<rparr>)\<rparr>))"
  by (simp add: placed_def finish_def update_major_def Let_def case_prod_unfold)

lemma link_object_eqI:
  assumes "ms = minors (link_object maj mj xs n ys sz req s)"
    and "mj' = mj\<lparr>mj_first := (if xs = [] then n else mj_first mj), mj_usage := mj_usage mj + ucast (sz + sizeof_minor)\<rparr>"
  shows "s\<lparr>minors := ms, majors := (majors s)(maj \<mapsto> mj')\<rparr> = link_object maj mj xs n ys sz req s"
  unfolding assms by (simp add: link_object_def)

lemma place_first_eq:
  assumes "majors s maj = Some mj"
  shows "place_first maj sz req s = Ret (finish (maj + 48) sz (link_object maj mj [] (maj + 48) [] sz req s))"
proof -
  have "s\<lparr>minors := (minors s)(maj + 48 \<mapsto> new_minor NULL NULL maj sz req),
      majors := (majors s)(maj \<mapsto> mj\<lparr>mj_first := maj + 48, mj_usage := mj_usage mj + ucast (sz + sizeof_minor)\<rparr>)\<rparr> =
      link_object maj mj [] (maj + 48) [] sz req s"
    by (rule link_object_eqI) (auto simp: link_object_def)
  then show ?thesis
    using assms by (simp add: place_first_def Let_def update_major_def placed_finish)
qed

lemma place_front_eq:
  assumes "majors s maj = Some mj" "minors s y = Some v" "y \<noteq> maj + 48"
  shows "place_front maj y sz req s = Ret (finish (maj + 48) sz (link_object maj mj [] (maj + 48) (y # ys) sz req s))"
proof -
  have "s\<lparr>minors := (minors s)(y \<mapsto> v\<lparr>mn_prev := maj + 48\<rparr>, maj + 48 \<mapsto> new_minor NULL y maj sz req),
      majors := (majors s)(maj \<mapsto> mj\<lparr>mj_first := maj + 48, mj_usage := mj_usage mj + ucast (sz + sizeof_minor)\<rparr>)\<rparr> =
      link_object maj mj [] (maj + 48) (y # ys) sz req s"
    using assms by (intro link_object_eqI) (auto simp: link_object_def)
  then show ?thesis
    using assms by (simp add: place_front_def Let_def update_minor_def update_major_def placed_finish)
qed

lemma place_last_eq:
  assumes "majors s maj = Some mj" "minors s x = Some v" "n = x + 40 + ucast (mn_size v)" "x \<noteq> n"
  shows "place_last maj x sz req s = Ret (finish n sz (link_object maj mj (xs @ [x]) n [] sz req s))"
proof -
  have "s\<lparr>minors := (minors s)(x \<mapsto> v\<lparr>mn_next := n\<rparr>, n \<mapsto> new_minor x NULL maj sz req),
      majors := (majors s)(maj \<mapsto> mj\<lparr>mj_usage := mj_usage mj + ucast (sz + sizeof_minor)\<rparr>)\<rparr> =
      link_object maj mj (xs @ [x]) n [] sz req s"
    using assms(1,2,4) by (intro link_object_eqI) (auto simp: link_object_def)
  then show ?thesis
    using assms by (simp add: place_last_def Let_def update_minor_def placed_finish)
qed

lemma place_between_eq:
  assumes "majors s maj = Some mj" "minors s x = Some v" "n = x + 40 + ucast (mn_size v)" "x \<noteq> n"
    and "mn_next v = y" "y \<noteq> n" "y \<noteq> x" "minors s y = Some w"
  shows "place_between maj x sz req s = Ret (finish n sz (link_object maj mj (xs @ [x]) n (y # ys) sz req s))"
proof -
  have "s\<lparr>minors := (minors s)(n \<mapsto> new_minor x y maj sz req, y \<mapsto> w\<lparr>mn_prev := n\<rparr>, x \<mapsto> v\<lparr>mn_next := n\<rparr>),
      majors := (majors s)(maj \<mapsto> mj\<lparr>mj_usage := mj_usage mj + ucast (sz + sizeof_minor)\<rparr>)\<rparr> =
      link_object maj mj (xs @ [x]) n (y # ys) sz req s"
    using assms(1,2,4-) by (intro link_object_eqI) (auto simp: link_object_def)
  then show ?thesis
    using assms by (simp add: place_between_def Let_def update_minor_def placed_finish)
qed

text \<open>What placing an object of \<open>sz\<close> bytes somewhere in the block leads to.\<close>

definition placed_in :: "liballoc \<Rightarrow> ptr \<Rightarrow> ptr list \<Rightarrow> u64 \<Rightarrow> u64 \<Rightarrow> ptr \<times> liballoc \<Rightarrow> bool" where
  "placed_in s maj ns sz req r \<longleftrightarrow> (\<exists>mj xs n ys. majors s maj = Some mj \<and> ns = xs @ ys \<and> fits s maj mj xs n ys sz \<and>
     r = finish n sz (link_object maj mj xs n ys sz req s))"

lemma unat_add_small: "unat (a :: u64) + unat b < 2 ^ 64 \<Longrightarrow> unat (a + b) = unat a + unat b"
  by (subst unat_add_lem [THEN iffD1]) simp_all

lemma object_end:
  assumes ok: "block_ok m maj mj ns" and x: "x \<in> set ns" "m x = Some v"
  shows "unat (x + 40 + ucast (mn_size v)) = unat x + 40 + obj_size m x" "x + 40 + ucast (mn_size v) \<noteq> x"
proof -
  have b: "unat x + 40 + obj_size m x < 2 ^ 64" and sz: "obj_size m x = unat (mn_size v)"
    using block_ok_within(2) [OF ok x(1)] ok x(2) by (simp_all add: block_ok_def obj_size_def)
  have "unat (x + 40) = unat x + 40"
    using b by (subst unat_add_small) simp_all
  then show "unat (x + 40 + ucast (mn_size v)) = unat x + 40 + obj_size m x"
    using b sz by (subst unat_add_small) simp_all
  then show "x + 40 + ucast (mn_size v) \<noteq> x"
    by (metis add_eq_self_zero add.assoc add_is_0 zero_neq_numeral)
qed

text \<open>The gap between an address and a later one, as the code computes it.\<close>

lemma gap_word:
  assumes "unat e = unat x + 40 + unat (z :: u32)" "e = x + 40 + ucast z" "unat e \<le> unat h"
  shows "unat (h - x - sizeof_minor - ucast z) = unat h - unat e"
proof -
  have "h - x - sizeof_minor - ucast z = h - e"
    by (simp add: assms(2) algebra_simps)
  then show ?thesis
    using assms(3) by (simp only: unat_sub word_le_nat_alt)
qed

lemma unat_need: "unat sz + 40 < 2 ^ 32 \<Longrightarrow> unat (sz + sizeof_minor) = unat sz + 40"
  by (subst unat_add_lem [THEN iffD1]) simp_all

lemma place_loop_correct:
  assumes ok: "block_ok (minors s) maj mj ns" and mj: "majors s maj = Some mj" and sz: "unat sz + 40 < 2 ^ 32"
    and ns: "ns = xs @ x # ys"
  shows "place_loop maj sz req x s = Some (Ret None) \<or>
    (\<exists>r. place_loop maj sz req x s = Some (Ret (Some r)) \<and> placed_in s maj ns sz req r)"
  using ns
proof (induction ys arbitrary: xs x)
  case Nil
  have seg: "minor_seg (minors s) (mj_first mj) (xs @ x # [])" and lay: "laid_out (minors s) (unat maj + 48) ns (unat maj + unat (mj_size mj))"
    using ok Nil by (simp_all add: block_ok_def)
  obtain v where v: "minors s x = Some v" "x \<noteq> NULL" "mn_next v = NULL"
    using seg by (rule hseg_middle) simp
  let ?n = "x + 40 + ucast (mn_size v)" and ?h = "maj + ucast (mj_size mj)"
  have x: "x \<in> set ns"
    using Nil by simp
  note e = object_end [OF ok x v(1)]
  have h: "unat ?h = unat maj + unat (mj_size mj)"
    using ok by (subst unat_add_small) (simp_all add: block_ok_def)
  have le: "unat ?n \<le> unat ?h"
    using block_ok_within(2) [OF ok x] by (simp add: e h)
  have gap: "unat (?h - x - sizeof_minor - ucast (mn_size v)) = unat ?h - unat ?n"
    by (rule gap_word [OF _ refl le]) (use e v in \<open>simp add: obj_size_def\<close>)
  show ?case
  proof (cases "?h - x - sizeof_minor - ucast (mn_size v) \<ge> sz + sizeof_minor")
    case True
    then have "unat sz + 40 \<le> unat ?h - unat ?n"
      unfolding word_le_nat_alt gap unat_need [OF sz] .
    then have "fits s maj mj (xs @ [x]) ?n [] sz"
      using e(1) h le by (simp add: fits_def end_of_def)
    moreover have "place_last maj x sz req s = Ret (finish ?n sz (link_object maj mj (xs @ [x]) ?n [] sz req s))"
      using e(2) by (intro place_last_eq [OF mj v(1) refl]) (rule not_sym)
    then have "place_loop maj sz req x s = Some (Ret (Some (finish ?n sz (link_object maj mj (xs @ [x]) ?n [] sz req s))))"
      using True v mj by (subst place_loop.simps) simp
    ultimately show ?thesis
      using mj Nil unfolding placed_in_def by (intro disjI2 exI conjI) auto
  next
    case False
    have "place_loop maj sz req NULL s = Some (Ret None)"
      by (subst place_loop.simps) simp
    then have "place_loop maj sz req x s = Some (Ret None)"
      using False v mj by (subst place_loop.simps) simp
    then show ?thesis ..
  qed
next
  case (Cons y ys)
  have seg: "minor_seg (minors s) (mj_first mj) (xs @ x # y # ys)"
    and lay: "laid_out (minors s) (unat maj + 48) (xs @ x # y # ys) (unat maj + unat (mj_size mj))"
    using ok Cons.prems by (simp_all add: block_ok_def)
  obtain v where v: "minors s x = Some v" "x \<noteq> NULL" "mn_next v = y"
    using seg by (rule hseg_middle) simp
  obtain w where w: "minors s y = Some w" "y \<noteq> NULL"
    using hseg_defined [OF seg, of y] by auto
  let ?n = "x + 40 + ucast (mn_size v)"
  have x: "x \<in> set ns"
    using Cons.prems by simp
  note e = object_end [OF ok x v(1)]
  have le: "unat ?n \<le> unat y"
    using lay by (simp add: laid_out_append e)
  have gap: "unat (y - x - sizeof_minor - ucast (mn_size v)) = unat y - unat ?n"
    by (rule gap_word [OF _ refl le]) (use e v in \<open>simp add: obj_size_def\<close>)
  show ?case
  proof (cases "y - x - sizeof_minor - ucast (mn_size v) \<ge> sz + sizeof_minor")
    case True
    then have room: "unat sz + 40 \<le> unat y - unat ?n"
      unfolding word_le_nat_alt gap unat_need [OF sz] .
    then have "fits s maj mj (xs @ [x]) ?n (y # ys) sz"
      using e(1) le by (simp add: fits_def end_of_def)
    moreover have "y \<noteq> ?n" "y \<noteq> x"
      using room laid_out_distinct [OF lay] by auto
    then have "place_between maj x sz req s = Ret (finish ?n sz (link_object maj mj (xs @ [x]) ?n (y # ys) sz req s))"
      by (intro place_between_eq [OF mj v(1) refl not_sym [OF e(2)] v(3) _ _ w(1)])
    then have "place_loop maj sz req x s = Some (Ret (Some (finish ?n sz (link_object maj mj (xs @ [x]) ?n (y # ys) sz req s))))"
      using True v w mj by (subst place_loop.simps) simp
    ultimately show ?thesis
      using mj Cons.prems unfolding placed_in_def by (intro disjI2 exI conjI) auto
  next
    case False
    have "place_loop maj sz req x s = place_loop maj sz req y s"
      using False v w mj by (subst place_loop.simps) simp
    then show ?thesis
      using Cons.IH [of "xs @ [x]" y] Cons.prems by simp
  qed
qed

lemma place_in_block_cases:
  assumes ok: "block_ok (minors s) maj mj ns" and mj: "majors s maj = Some mj" and sz: "unat sz + 40 < 2 ^ 32"
    and room: "ns = [] \<Longrightarrow> 88 + unat sz \<le> unat (mj_size mj)"
  shows "(\<exists>r. place_in_block sz req maj started best s = Ret (Inr r) \<and> placed_in s maj ns sz req r) \<or>
    place_in_block sz req maj started best s = block_full sz maj started best s"
proof -
  have seg: "minor_seg (minors s) (mj_first mj) ns" and lay: "laid_out (minors s) (unat maj + 48) ns (unat maj + unat (mj_size mj))"
    using ok by (simp_all add: block_ok_def)
  have m48: "unat (maj + 48) = unat maj + 48"
    using ok laid_out_total [OF lay] by (subst unat_add_lem [THEN iffD1]) (auto simp: block_ok_def)
  show ?thesis
  proof (cases ns)
    case Nil
    then have "mj_first mj = NULL"
      using seg by simp
    moreover have "fits s maj mj [] (maj + 48) [] sz"
      using room Nil m48 by (simp add: fits_def end_of_def)
    ultimately show ?thesis
      using mj Nil unfolding placed_in_def by (intro disjI1) (fastforce simp: place_in_block_def place_first_eq)
  next
    case (Cons y ys)
    obtain v where y: "mj_first mj = y" "y \<noteq> NULL" "minors s y = Some v"
      using seg hseg_defined [OF seg, of y] by (auto simp: Cons)
    have le: "unat maj + 48 \<le> unat y"
      using lay by (simp add: Cons)
    have "mj_first mj - maj - sizeof_major = y - (maj + 48)"
      using y by (simp add: algebra_simps)
    then have gap: "unat (mj_first mj - maj - sizeof_major) = unat y - (unat maj + 48)"
      using le m48 by (simp only: unat_sub word_le_nat_alt)
    show ?thesis
    proof (cases "mj_first mj - maj - sizeof_major \<ge> sz + sizeof_minor")
      case True
      then have room: "unat sz + 40 \<le> unat y - (unat maj + 48)"
        unfolding word_le_nat_alt gap unat_need [OF sz] .
      then have "fits s maj mj [] (maj + 48) (y # ys) sz"
        using m48 le by (simp add: fits_def end_of_def)
      moreover have "y \<noteq> maj + 48"
        using room m48 by auto
      ultimately show ?thesis
        using mj y True Cons place_front_eq [OF mj y(3), of sz req ys] unfolding placed_in_def
        by (intro disjI1) (fastforce simp: place_in_block_def)
    next
      case False
      have "place_in_block sz req maj started best s =
          obind (looped (place_loop maj sz req y s)) (\<lambda>r. case r of Some r \<Rightarrow> Ret (Inr r) | None \<Rightarrow> block_full sz maj started best s)"
        using mj y False by (simp add: place_in_block_def)
      then show ?thesis
        using place_loop_correct [OF ok mj sz, of "[]" y ys req] Cons by auto
    qed
  qed
qed

section \<open>Blocks from the frame allocator\<close>

lemma ceil: "x \<le> 4096 * ((x + 4095) div 4096)" "(x + 4095) div 4096 \<le> x div 4096 + (1 :: nat)"
proof -
  have "(x + 4095) div 4096 \<le> (x + 4096) div 4096"
    by (intro div_le_mono) simp
  then show "(x + 4095) div 4096 \<le> x div 4096 + 1"
    by simp
  have "(x + 4095) mod 4096 < 4096" "4096 * ((x + 4095) div 4096) + (x + 4095) mod 4096 = x + 4095"
    by simp_all
  then show "x \<le> 4096 * ((x + 4095) div 4096)"
    by linarith
qed

lemma ceil_div: "(x + 4095) div 4096 = (if x mod 4096 = 0 then x div 4096 else x div 4096 + (1 :: nat))"
proof -
  define q r where "q = x div 4096" and "r = x mod 4096"
  have x: "x = r + 4096 * q" and r: "r < 4096"
    by (simp_all add: q_def r_def)
  have "(x + 4095) div 4096 = (r + 4095) div 4096 + q"
    using div_mult_self2 [of 4096 "r + 4095" q] by (simp add: x ac_simps)
  moreover have "(r + 4095) div 4096 = (if r = 0 then 0 else 1)"
  proof (cases "r = 0")
    case False
    then obtain r' where "r = Suc r'" "r' < 4095"
      using r by (cases r) auto
    then show ?thesis by simp
  qed simp
  ultimately show ?thesis
    by (simp add: q_def r_def)
qed

lemma unat_block_pages:
  assumes "unat (sz :: u64) + 8192 < 2 ^ 32"
  shows "unat (block_pages (ucast sz)) = max 16 ((unat sz + 88 + 4095) div 4096)"
    and "unat (block_pages (ucast sz) * l_pageSize) = 4096 * unat (block_pages (ucast sz))"
    and "unat sz + 88 \<le> 4096 * unat (block_pages (ucast sz))"
    and "unat (block_pages (ucast sz)) < 2 ^ 20"
proof -
  let ?st = "(ucast sz :: u32) + 88" and ?n = "unat sz + 88"
  have st: "unat ?st = ?n"
  proof -
    have "unat (ucast sz :: u32) = unat sz"
      using assms by (simp add: unsigned_ucast_eq take_bit_nat_eq_self)
    then show ?thesis
      using assms by (subst unat_add_lem [THEN iffD1]) simp_all
  qed
  have d: "unat (?st div 4096) = ?n div 4096" and m: "unat (?st mod 4096) = ?n mod 4096"
    by (simp_all add: unat_div_distrib unat_mod_distrib st)
  have small: "?n div 4096 < 2 ^ 20 - 1"
    using assms by (simp add: div_less_iff_less_mult)
  have d1: "unat (?st div 4096 + 1) = ?n div 4096 + 1"
    using small d by (subst unat_add_lem [THEN iffD1]) simp_all
  define k where "k = (if ?st mod 4096 = 0 then ?st div 4096 else ?st div 4096 + 1)"
  have "?st mod 4096 = 0 \<longleftrightarrow> ?n mod 4096 = 0"
    by (simp add: unat_eq_zero flip: m)
  then have k: "unat k = (?n + 4095) div 4096"
    unfolding ceil_div k_def by (auto simp: d d1)
  have b: "block_pages (ucast sz) = (if k < 16 then 16 else k)"
    by (simp add: block_pages_def k_def Let_def add.assoc)
  show st_eq: "unat (block_pages (ucast sz)) = max 16 ((unat sz + 88 + 4095) div 4096)"
    using k by (simp add: b word_less_nat_alt max_def)
  show "unat (block_pages (ucast sz)) < 2 ^ 20"
    using small ceil(2) [of ?n] by (simp add: st_eq)
  then show "unat (block_pages (ucast sz) * l_pageSize) = 4096 * unat (block_pages (ucast sz))"
    by (simp add: unat_word_ariths(2))
  show "unat sz + 88 \<le> 4096 * unat (block_pages (ucast sz))"
    unfolding st_eq using ceil(1) [of ?n] by linarith
qed

text \<open>Page frames that the allocator hands out or has handed out have addresses of their own, below half a terabyte.\<close>

definition managed :: "pmm \<Rightarrow> ptr \<Rightarrow> u64 \<Rightarrow> bool" where
  "managed fs x a \<longleftrightarrow> (\<exists>st. page_core (pm_pages fs) x = Some (a, st) \<and> st \<in> {PAGE_STATE_FREE, PAGE_STATE_USED})"

definition frames_ok :: "pmm \<Rightarrow> bool" where
  "frames_ok fs \<longleftrightarrow> (\<exists>ps. pmm_inv fs ps) \<and> (\<forall>x y a. managed fs x a \<longrightarrow> managed fs y a \<longrightarrow> x = y) \<and>
     (\<forall>x a. managed fs x a \<longrightarrow> unat a + 4096 \<le> 2 ^ 39)"

text \<open>A block is backed by frames in use, one for each of its pages.\<close>

definition backed :: "pmm \<Rightarrow> ptr \<Rightarrow> nat \<Rightarrow> bool" where
  "backed fs b n \<longleftrightarrow> 4096 dvd unat b \<and> 4096 dvd n \<and>
     (\<forall>k < n div 4096. \<exists>x a. page_core (pm_pages fs) x = Some (a, PAGE_STATE_USED) \<and>
        unat (p_addr_to_physical_map a) = unat b + 4096 * k)"

definition heap_ok :: "liballoc \<Rightarrow> (ptr \<times> ptr list) list \<Rightarrow> bool" where
  "heap_ok s H \<longleftrightarrow> heap_inv s H \<and> frames_ok (frames s) \<and>
     (\<forall>(b, ns) \<in> set H. \<exists>mj. majors s b = Some mj \<and> backed (frames s) b (unat (mj_size mj)))"

lemma aligned_overlap:
  assumes "4096 dvd a" "4096 dvd b" "4096 dvd m" "4096 dvd n" "0 < m" "0 < n" "\<not> (a + m \<le> b \<or> b + n \<le> (a::nat))"
  obtains j k where "j < m div 4096" "k < n div 4096" "a + 4096 * j = b + 4096 * k"
proof -
  obtain a' b' m' n' where [simp]: "a = 4096 * a'" "b = 4096 * b'" "m = 4096 * m'" "n = 4096 * n'"
    using assms(1-4) by (auto elim!: dvdE)
  have c: "\<not> a' + m' \<le> b'" "\<not> b' + n' \<le> a'"
    using assms(7) by simp_all
  show thesis
  proof (cases "a' \<le> b'")
    case True
    then have "b' - a' < m'" "0 < n'" "4096 * a' + 4096 * (b' - a') = 4096 * b'"
      using c assms(6) by (simp_all add: diff_mult_distrib2) arith?
    then show thesis
      using that [of "b' - a'" 0] by simp
  next
    case False
    then have "a' - b' < n'" "0 < m'" "4096 * b' + 4096 * (a' - b') = 4096 * a'"
      using c assms(5) by (simp_all add: diff_mult_distrib2) arith?
    then show thesis
      using that [of 0 "a' - b'"] by simp
  qed
qed

definition free_frames_at :: "pmm \<Rightarrow> ptr \<Rightarrow> nat \<Rightarrow> bool" where
  "free_frames_at fs b n \<longleftrightarrow> (\<forall>k < n. \<exists>x a. page_core (pm_pages fs) x = Some (a, PAGE_STATE_FREE) \<and>
     unat (p_addr_to_physical_map a) = unat b + 4096 * k)"

lemma unat_physical_map:
  "unat a + 4096 \<le> 2 ^ 39 \<Longrightarrow> unat (p_addr_to_physical_map a) = unat a + 0xffff800000000000"
  unfolding p_addr_to_physical_map_def physical_map_base_def by (subst unat_add_lem [THEN iffD1]) simp_all

lemma used_core_managed:
  assumes "page_core (pm_pages fs') = used_core A (page_core (pm_pages fs))"
    and "\<And>x. x \<in> A \<Longrightarrow> \<exists>a. page_core (pm_pages fs) x = Some (a, PAGE_STATE_FREE)"
  shows "managed fs' x a \<longleftrightarrow> managed fs x a"
  using assms(2) [of x] by (auto simp: managed_def assms(1) used_core_def)

lemma low_frame: "frames_ok fs \<Longrightarrow> page_core (pm_pages fs) x = Some (a, PAGE_STATE_FREE) \<Longrightarrow> unat a + 4096 \<le> 2 ^ 39"
  unfolding frames_ok_def managed_def by blast

lemma region_index_bound:
  assumes "region_ok core r" "j < region_page_count r"
  shows "unat (rg_base r) + 4096 * j < 2 ^ 64"
proof -
  have "4096 * j \<le> 4096 * (unat (rg_length r) div 4096)"
    using assms(2) by (simp add: region_page_count_def)
  also have "\<dots> \<le> unat (rg_length r)"
    by simp
  finally show ?thesis
    using assms(1) unfolding region_ok_def by linarith
qed

lemma contiguous_frames:
  assumes ok: "frames_ok fs" and n: "0 < unat n"
  shows "pmm_allocate_contiguous n 0 fs = Ret (IR_ERROR_NO_MEMORY, None, fs) \<or>
    (\<exists>p fs' pg. pmm_allocate_contiguous n 0 fs = Ret (IR_OK, Some p, fs') \<and> frames_ok fs' \<and> pm_pages fs' p = Some pg \<and>
      backed fs' (p_addr_to_physical_map (pg_address pg)) (4096 * unat n) \<and>
      free_frames_at fs (p_addr_to_physical_map (pg_address pg)) (unat n) \<and>
      unat (p_addr_to_physical_map (pg_address pg)) + 4096 * unat n < 2 ^ 64 \<and>
      0xffff800000000000 \<le> unat (p_addr_to_physical_map (pg_address pg)) \<and>
      (\<forall>b m. backed fs b m \<longrightarrow> backed fs' b m))"
proof -
  obtain ps where inv: "pmm_inv fs ps"
    using ok by (auto simp: frames_ok_def)
  from pmm_allocate_contiguous_cases [OF inv, of n 0] show ?thesis
  proof
    assume "\<exists>r i s'. 0 < unat n \<and> r \<in> set (available fs) \<and> rg_base r \<le> (if (0 :: u64) = 0 then - 1 else 0) \<and>
        run_at fs r (if (0 :: u64) = 0 then - 1 else 0) (unat n) i \<and>
        pmm_allocate_contiguous n 0 fs = Ret (IR_OK, Some (region_page r i), s') \<and> took_run fs ps r i (unat n) s'"
    then obtain r i fs' where r: "r \<in> set (available fs)" and run: "run_at fs r (- 1) (unat n) i"
      and ret: "pmm_allocate_contiguous n 0 fs = Ret (IR_OK, Some (region_page r i), fs')" and took: "took_run fs ps r i (unat n) fs'"
      by auto
    let ?run = "map (region_page r) [i..<i + unat n]" and ?base = "p_addr_to_physical_map (rg_base r + 4096 * of_nat i)"
    have reg: "region_ok (page_core (pm_pages fs)) r"
      using inv r by (simp add: pmm_inv_def)
    have core': "page_core (pm_pages fs') = used_core (set ?run) (page_core (pm_pages fs))" and sub: "set ?run \<subseteq> set ps"
      using took by (simp_all add: took_run_def Let_def)
    have free: "page_core (pm_pages fs) (region_page r (i + k)) = Some (rg_base r + 4096 * of_nat (i + k), PAGE_STATE_FREE)"
      if "k < unat n" for k
    proof -
      have "region_page r (i + k) \<in> set ps"
        using sub that by auto
      then obtain x where x: "page_core (pm_pages fs) (region_page r (i + k)) = Some (x, PAGE_STATE_FREE)"
        using pmm_free_core [OF inv] by blast
      have "i + k < region_page_count r"
        using run that by (auto simp: run_at_def)
      then obtain st where "page_core (pm_pages fs) (region_page r (i + k)) = Some (rg_base r + 4096 * of_nat (i + k), st)"
        using reg by (fastforce simp: region_ok_def)
      then show ?thesis
        using x by simp
    qed
    have man: "managed fs' x a \<longleftrightarrow> managed fs x a" for x a
      by (rule used_core_managed [OF core']) (use pmm_free_core [OF inv] sub in blast)
    have frames': "frames_ok fs'"
      using ok took by (auto simp: frames_ok_def man took_run_def Let_def)
    have addr: "unat (p_addr_to_physical_map (rg_base r + 4096 * of_nat (i + k))) = unat ?base + 4096 * k"
        "unat ?base + 4096 * k + 4096 < 2 ^ 64" "0xffff800000000000 \<le> unat ?base"
      if k: "k < unat n" for k
    proof -
      have low: "unat (rg_base r + 4096 * of_nat (i + k)) + 4096 \<le> 2 ^ 39"
        if "k < unat n" for k
        by (rule low_frame [OF ok free [OF that]])
      have eq: "unat (rg_base r + 4096 * of_nat (i + k)) = unat (rg_base r) + 4096 * (i + k)" if "k < unat n" for k
      proof -
        have "i + k < region_page_count r"
          using run that by (auto simp: run_at_def)
        then have b: "unat (rg_base r) + 4096 * (i + k) < 2 ^ 64"
          by (rule region_index_bound [OF reg])
        have "rg_base r + 4096 * of_nat (i + k) = of_nat (unat (rg_base r) + 4096 * (i + k))"
          by simp
        then show ?thesis
          using b by (simp only: unat_of_nat_u64)
      qed
      have z: "unat (rg_base r + 4096 * of_nat i) = unat (rg_base r) + 4096 * i" "unat (rg_base r + 4096 * of_nat i) + 4096 \<le> 2 ^ 39"
        using eq [of 0] low [of 0] n by simp_all
      show "unat (p_addr_to_physical_map (rg_base r + 4096 * of_nat (i + k))) = unat ?base + 4096 * k"
        unfolding unat_physical_map [OF low [OF k]] unat_physical_map [OF z(2)] eq [OF k] z(1) by simp
      show "unat ?base + 4096 * k + 4096 < 2 ^ 64" "0xffff800000000000 \<le> unat ?base"
        using low [OF k] unfolding unat_physical_map [OF z(2)] eq [OF k] z(1) by simp_all
    qed
    have "4096 dvd unat ?base"
    proof -
      have "unat ?base = unat (rg_base r) + 4096 * i + 0xffff800000000000"
      proof -
        have "unat (rg_base r + 4096 * of_nat i) + 4096 \<le> 2 ^ 39"
          using low_frame [OF ok free [OF n]] by simp
        moreover have "i < region_page_count r"
          using run n by (auto simp: run_at_def)
        then have "unat (rg_base r) + 4096 * i < 2 ^ 64"
          by (rule region_index_bound [OF reg])
        then have "unat (of_nat (unat (rg_base r) + 4096 * i) :: u64) = unat (rg_base r) + 4096 * i"
          by (simp only: unat_of_nat_u64)
        then have "unat (rg_base r + 4096 * of_nat i) = unat (rg_base r) + 4096 * i"
          by simp
        ultimately show ?thesis
          by (simp only: unat_physical_map)
      qed
      then show ?thesis
        using reg by (simp add: region_ok_def)
    qed
    moreover have "\<exists>x a. page_core (pm_pages fs') x = Some (a, PAGE_STATE_USED) \<and> unat (p_addr_to_physical_map a) = unat ?base + 4096 * k"
      if "k < unat n" for k
    proof -
      have "page_core (pm_pages fs') (region_page r (i + k)) = Some (rg_base r + 4096 * of_nat (i + k), PAGE_STATE_USED)"
        using free [OF that] that by (auto simp: core' used_core_def)
      then show ?thesis
        using addr(1) [OF that] by blast
    qed
    ultimately have bk: "backed fs' ?base (4096 * unat n)"
      by (simp add: backed_def)
    have "free_frames_at fs ?base (unat n)"
      unfolding free_frames_at_def using free addr(1) by blast
    moreover have "backed fs' b m" if bkd: "backed fs b m" for b m
      unfolding backed_def
    proof (intro conjI allI impI)
      fix k assume "k < m div 4096"
      then obtain x a where x: "page_core (pm_pages fs) x = Some (a, PAGE_STATE_USED)" "unat (p_addr_to_physical_map a) = unat b + 4096 * k"
        using bkd by (auto simp: backed_def)
      then have "page_core (pm_pages fs') x = Some (a, PAGE_STATE_USED)"
        by (auto simp: core' used_core_def)
      then show "\<exists>x a. page_core (pm_pages fs') x = Some (a, PAGE_STATE_USED) \<and> unat (p_addr_to_physical_map a) = unat b + 4096 * k"
        using x(2) by blast
    qed (use bkd in \<open>simp_all add: backed_def\<close>)
    moreover obtain pg where "pm_pages fs' (region_page r i) = Some pg" "pg_address pg = rg_base r + 4096 * of_nat i"
      using free [of 0] n page_core_SomeD [of "pm_pages fs'" "region_page r i"] by (auto simp: core' used_core_def)
    moreover have "unat ?base + 4096 * unat n < 2 ^ 64" "0xffff800000000000 \<le> unat ?base"
      using addr(2,3) [of "unat n - 1"] n by (simp_all add: algebra_simps)
    ultimately show ?thesis
      using ret frames' bk by auto
  qed auto
qed

definition no_frames :: "u64 \<Rightarrow> pmm \<Rightarrow> bool" where
  "no_frames sz fs \<longleftrightarrow>
     pmm_allocate_contiguous (ucast (block_pages (ucast sz))) 0 fs = Ret (IR_ERROR_NO_MEMORY, None, fs)"

text \<open>A block that was in use keeps clear of a run of free frames.\<close>

lemma backed_apart:
  assumes ok: "frames_ok fs" and b: "backed fs b m" "0 < m" and c: "free_frames_at fs c n" "0 < n" "4096 dvd unat c"
  shows "unat b + m \<le> unat c \<or> unat c + 4096 * n \<le> unat b"
proof (rule ccontr)
  assume over: "\<not> ?thesis"
  obtain j k where jk: "j < m div 4096" "k < 4096 * n div 4096" "unat b + 4096 * j = unat c + 4096 * k"
    by (rule aligned_overlap [of "unat b" "unat c" m "4096 * n"]) (use b c over in \<open>auto simp: backed_def\<close>)
  obtain x a where x: "page_core (pm_pages fs) x = Some (a, PAGE_STATE_USED)" "unat (p_addr_to_physical_map a) = unat b + 4096 * j"
    using b(1) jk(1) by (auto simp: backed_def)
  obtain y d where y: "page_core (pm_pages fs) y = Some (d, PAGE_STATE_FREE)" "unat (p_addr_to_physical_map d) = unat c + 4096 * k"
    using c(1) jk(2) by (auto simp: free_frames_at_def)
  have "p_addr_to_physical_map a = p_addr_to_physical_map d"
    using x(2) y(2) jk(3) by (simp add: word_unat_eq_iff)
  then have "a = d"
    by (simp add: p_addr_to_physical_map_def)
  moreover have "managed fs x a" "managed fs y d"
    using x(1) y(1) by (simp_all add: managed_def)
  ultimately have "x = y"
    using ok unfolding frames_ok_def by blast
  then show False
    using x(1) y(1) by simp
qed

definition fresh_block :: "liballoc \<Rightarrow> (ptr \<times> ptr list) list \<Rightarrow> u64 \<Rightarrow> ptr \<Rightarrow> liballoc_major \<Rightarrow> pmm \<Rightarrow> bool" where
  "fresh_block s H sz b mj fs \<longleftrightarrow> b \<noteq> NULL \<and> frames_ok fs \<and> backed fs b (unat (mj_size mj)) \<and>
     mj_prev mj = NULL \<and> mj_next mj = NULL \<and> (\<forall>m. block_ok m b mj []) \<and> 88 + unat sz \<le> unat (mj_size mj) \<and>
     (\<forall>(c, ns) \<in> set H. c \<noteq> b \<and> (\<exists>v. majors s c = Some v \<and> backed fs c (unat (mj_size v)) \<and>
        (unat c + unat (mj_size v) \<le> unat b \<or> unat b + unat (mj_size mj) \<le> unat c)))"

lemma allocate_new_page_cases:
  assumes ok: "heap_ok s H" and sz: "unat sz + 8192 < 2 ^ 32"
  shows "(allocate_new_page (ucast sz) s = Panic \<and> no_frames sz (frames s)) \<or>
    (\<exists>b mj fs. fresh_block s H sz b mj fs \<and> allocate_new_page (ucast sz) s = Ret (b, s\<lparr>frames := fs,
       majors := (majors s)(b \<mapsto> mj), l_allocated := l_allocated s + ucast (mj_size mj)\<rparr>))"
proof -
  let ?n = "ucast (block_pages (ucast sz)) :: u64"
  note pg = unat_block_pages [OF sz]
  have n: "unat ?n = unat (block_pages (ucast sz))" "0 < unat ?n"
    by (simp_all add: pg(1))
  have fok: "frames_ok (frames s)"
    using ok by (simp add: heap_ok_def)
  from contiguous_frames [OF fok n(2)] show ?thesis
  proof (elim disjE exE conjE)
    assume "pmm_allocate_contiguous ?n 0 (frames s) = Ret (IR_ERROR_NO_MEMORY, None, frames s)"
    then show ?thesis
      by (simp add: allocate_new_page_def liballoc_alloc_def no_frames_def)
  next
    fix p fs g
    assume ret: "pmm_allocate_contiguous ?n 0 (frames s) = Ret (IR_OK, Some p, fs)" and fs: "frames_ok fs"
      and p: "pm_pages fs p = Some g" and bk: "backed fs (p_addr_to_physical_map (pg_address g)) (4096 * unat ?n)"
      and free: "free_frames_at (frames s) (p_addr_to_physical_map (pg_address g)) (unat ?n)"
      and top: "unat (p_addr_to_physical_map (pg_address g)) + 4096 * unat ?n < 2 ^ 64"
      and high: "0xffff800000000000 \<le> unat (p_addr_to_physical_map (pg_address g))"
      and keep: "\<forall>b m. backed (frames s) b m \<longrightarrow> backed fs b m"
    define b where "b = p_addr_to_physical_map (pg_address g)"
    define mj where "mj = \<lparr>mj_prev = NULL, mj_next = NULL, mj_page_list = p, mj_pages = block_pages (ucast sz),
        mj_size = block_pages (ucast sz) * l_pageSize, mj_usage = ucast sizeof_major, mj_first = NULL\<rparr>"
    have size: "unat (mj_size mj) = 4096 * unat ?n"
      using pg(2) n(1) by (simp add: mj_def)
    have b0: "b \<noteq> NULL"
      using high by (auto simp: b_def)
    have al: "4096 dvd unat b"
      using bk by (simp add: backed_def b_def)
    have "fresh_block s H sz b mj fs"
      unfolding fresh_block_def
    proof (intro conjI allI)
      show "block_ok m b mj []" for m
      proof -
        have "16 dvd unat b"
          using al by (rule dvd_trans [rotated]) simp
        then show ?thesis
          using b0 top pg(3) n(1) size by (simp add: block_ok_def b_def [symmetric]) (simp add: mj_def)
      qed
      show "88 + unat sz \<le> unat (mj_size mj)"
        using pg(3) n(1) size by simp
      show "\<forall>(c, ns) \<in> set H. c \<noteq> b \<and> (\<exists>v. majors s c = Some v \<and> backed fs c (unat (mj_size v)) \<and>
          (unat c + unat (mj_size v) \<le> unat b \<or> unat b + unat (mj_size mj) \<le> unat c))"
      proof (intro ballI, clarify)
        fix c ns assume c: "(c, ns) \<in> set H"
        obtain v where v: "majors s c = Some v" "backed (frames s) c (unat (mj_size v))" "block_ok (minors s) c v ns"
          using ok c by (fastforce simp: heap_ok_def heap_inv_def)
        have pos: "0 < unat (mj_size v)"
          using block_ok_usage [OF v(3)] v(3) by (auto simp: block_ok_def)
        have ap: "unat c + unat (mj_size v) \<le> unat b \<or> unat b + unat (mj_size mj) \<le> unat c"
          using backed_apart [OF fok v(2) pos free n(2)] al size by (simp add: b_def)
        then have "c \<noteq> b"
          using pos size n(2) by auto
        then show "c \<noteq> b \<and> (\<exists>v. majors s c = Some v \<and> backed fs c (unat (mj_size v)) \<and>
          (unat c + unat (mj_size v) \<le> unat b \<or> unat b + unat (mj_size mj) \<le> unat c))"
          using v(1,2) keep ap by blast
      qed
    qed (use b0 fs bk size in \<open>simp_all add: b_def mj_def\<close>)
    moreover have "allocate_new_page (ucast sz) s = Ret (b, s\<lparr>frames := fs, majors := (majors s)(b \<mapsto> mj),
        l_allocated := l_allocated s + ucast (mj_size mj)\<rparr>)"
      using b0 p ret by (simp add: allocate_new_page_def liballoc_alloc_def Let_def b_def [symmetric]) (simp add: mj_def)
    ultimately show ?thesis
      by blast
  qed
qed

section \<open>Searching for room\<close>

text \<open>Blocks may have been added, but no object has changed.\<close>

definition extends :: "liballoc \<Rightarrow> (ptr \<times> ptr list) list \<Rightarrow> liballoc \<Rightarrow> (ptr \<times> ptr list) list \<Rightarrow> bool" where
  "extends s H s' H' \<longleftrightarrow> heap_ok s' H' \<and> minors s' = minors s \<and> heap_mem s' = heap_mem s \<and> objects H' = objects H"

definition served :: "liballoc \<Rightarrow> (ptr \<times> ptr list) list \<Rightarrow> u64 \<Rightarrow> u64 \<Rightarrow> ptr \<times> liballoc \<Rightarrow> bool" where
  "served s H sz req r \<longleftrightarrow> (\<exists>s' H' maj ns. extends s H s' H' \<and> (maj, ns) \<in> set H' \<and> placed_in s' maj ns sz req r)"

lemma extends_refl: "heap_ok s H \<Longrightarrow> extends s H s H"
  by (simp add: extends_def)

lemma served_extends: "extends s H s' H' \<Longrightarrow> served s' H' sz req r \<Longrightarrow> served s H sz req r"
  unfolding served_def extends_def by metis

lemma heap_ok_best: "heap_ok s H \<Longrightarrow> b \<in> set (map fst H) \<Longrightarrow> heap_ok (s\<lparr>l_bestBet := b\<rparr>) H"
  by (simp add: heap_ok_def heap_inv_def)

lemma extends_best: "heap_ok s H \<Longrightarrow> b \<in> set (map fst H) \<Longrightarrow> extends s H (s\<lparr>l_bestBet := b\<rparr>) H"
  by (simp add: extends_def heap_ok_best)

lemma heap_ok_block:
  assumes "heap_ok s H" "(a, ns) \<in> set H"
  obtains mj where "majors s a = Some mj" "block_ok (minors s) a mj ns" "backed (frames s) a (unat (mj_size mj))"
  using assms by (fastforce simp: heap_ok_def heap_inv_def)

lemma heap_inv_distinct:
  assumes "heap_inv s H"
  shows "distinct (map fst H)"
proof -
  have "sorted_wrt (\<noteq>) (map fst H)"
  proof (rule sorted_wrt_mono_rel)
    show "sorted_wrt (blocks_apart (majors s)) (map fst H)"
      using assms by (simp add: heap_inv_def)
    fix x y assume x: "x \<in> set (map fst H)" and ap: "blocks_apart (majors s) x y"
    obtain ns where "(x, ns) \<in> set H"
      using x by auto
    then obtain mj where mj: "majors s x = Some mj" "block_ok (minors s) x mj ns"
      by (rule heap_inv_block [OF assms])
    then have "mj_size mj \<noteq> 0"
      using block_ok_usage [OF mj(2)] by (auto simp: block_ok_def)
    then show "x \<noteq> y"
      using blocks_apart_irrefl [of "majors s" x mj] ap mj(1) by blast
  qed
  then show ?thesis
    by (induction H) auto
qed

lemma append_block_cases:
  assumes ok: "heap_ok s (H @ [(c, ns)])" and sz: "unat sz + 8192 < 2 ^ 32"
  shows "(append_block c sz s = Panic \<and> no_frames sz (frames s)) \<or>
    (\<exists>b s' mj. append_block c sz s = Ret (b, s') \<and> b \<noteq> NULL \<and> extends s (H @ [(c, ns)]) s' (H @ [(c, ns), (b, [])]) \<and>
      majors s' b = Some mj \<and> 88 + unat sz \<le> unat (mj_size mj))"
  using allocate_new_page_cases [OF ok sz]
proof (elim disjE exE conjE)
  assume "allocate_new_page (ucast sz) s = Panic" "no_frames sz (frames s)"
  then show ?thesis
    by (simp add: append_block_def)
next
  fix b mj fs
  assume fresh: "fresh_block s (H @ [(c, ns)]) sz b mj fs" and ret: "allocate_new_page (ucast sz) s =
      Ret (b, s\<lparr>frames := fs, majors := (majors s)(b \<mapsto> mj), l_allocated := l_allocated s + ucast (mj_size mj)\<rparr>)"
  obtain v where v: "majors s c = Some v" "block_ok (minors s) c v ns"
    using ok by (rule heap_ok_block [of _ _ c ns]) auto
  note f = fresh [unfolded fresh_block_def]
  have cb: "c \<noteq> b" and bs: "\<forall>x \<in> set (map fst (H @ [(c, ns)])). x \<noteq> b"
    using f by auto
  let ?M = "(majors s)(c \<mapsto> v\<lparr>mj_next := b\<rparr>, b \<mapsto> mj\<lparr>mj_prev := c\<rparr>)"
  let ?s = "s\<lparr>frames := fs, majors := ?M, l_allocated := l_allocated s + ucast (mj_size mj)\<rparr>"
  have run: "append_block c sz s = Ret (b, ?s)"
    using cb v(1) f by (simp add: append_block_def ret update_major_def fun_upd_twist)
  have inv: "heap_inv s (H @ [(c, ns)])"
    using ok by (simp add: heap_ok_def)
  have dist: "distinct (map fst (H @ [(c, ns)]))"
    by (rule heap_inv_distinct [OF inv])
  have seg: "major_seg ?M (l_memRoot s) (map fst (H @ [(c, ns), (b, [])]))"
  proof -
    have "major_seg (majors s) (l_memRoot s) (map fst (H @ [(c, ns)]))"
      using inv by (simp add: heap_inv_def)
    then have "hseg ((majors s)(last (map fst (H @ [(c, ns)])) \<mapsto> v\<lparr>mj_next := b\<rparr>)) mj_prev mj_next NULL (l_memRoot s) (map fst (H @ [(c, ns)])) b"
      by (rule hseg_set_next) (use dist v in simp_all)
    then have "hseg ((majors s)(c \<mapsto> v\<lparr>mj_next := b\<rparr>)) mj_prev mj_next NULL (l_memRoot s) (map fst (H @ [(c, ns)])) b"
      by simp
    moreover have "hseg ?M mj_prev mj_next NULL (l_memRoot s) (map fst (H @ [(c, ns)])) b =
        hseg ((majors s)(c \<mapsto> v\<lparr>mj_next := b\<rparr>)) mj_prev mj_next NULL (l_memRoot s) (map fst (H @ [(c, ns)])) b"
      by (rule hseg_cong) (use bs in auto)
    ultimately have "hseg ?M mj_prev mj_next NULL (l_memRoot s) (map fst (H @ [(c, ns)]) @ [b]) NULL"
      unfolding hseg_append using f cb by auto
    then show ?thesis by simp
  qed
  have blocks: "\<exists>w. ?M x = Some w \<and> block_ok (minors s) x w ks \<and> backed fs x (unat (mj_size w))"
    if x: "(x, ks) \<in> set (H @ [(c, ns), (b, [])])" for x ks
  proof (cases "x = b")
    case True
    then have "ks = []"
      using x bs by auto
    then show ?thesis
      using True f by (simp add: block_ok_def)
  next
    case False
    then have x': "(x, ks) \<in> set (H @ [(c, ns)])"
      using x by auto
    obtain w where w: "majors s x = Some w" "block_ok (minors s) x w ks"
      using ok x' by (rule heap_ok_block)
    have "backed fs x (unat (mj_size w))"
      using f x' w(1) by fastforce
    then show ?thesis
      using w v False by (auto simp: block_ok_def)
  qed
  have apart: "sorted_wrt (blocks_apart ?M) (map fst (H @ [(c, ns), (b, [])]))"
  proof -
    have same: "blocks_apart ?M x y = blocks_apart (majors s) x y" if "x \<noteq> b" "y \<noteq> b" for x y
      using that v(1) by (auto simp: blocks_apart_def split: option.splits)
    have "sorted_wrt (blocks_apart (majors s)) (map fst (H @ [(c, ns)]))"
      using inv by (simp add: heap_inv_def)
    then have "sorted_wrt (blocks_apart ?M) (map fst (H @ [(c, ns)]))"
      by (rule sorted_wrt_mono_rel [rotated]) (use bs same in blast)
    moreover have "blocks_apart ?M x b" if mem: "x \<in> set (map fst (H @ [(c, ns)]))" for x
    proof -
      obtain e where "e \<in> set (H @ [(c, ns)])" "fst e = x"
        using mem unfolding set_map by blast
      then have "(x, snd e) \<in> set (H @ [(c, ns)])"
        by auto
      then have "x \<noteq> b \<and> (\<exists>w. majors s x = Some w \<and> (unat x + unat (mj_size w) \<le> unat b \<or> unat b + unat (mj_size mj) \<le> unat x))"
        using f by fastforce
      then show ?thesis
        using v(1) by (auto simp: blocks_apart_def)
    qed
    ultimately have "sorted_wrt (blocks_apart ?M) (map fst (H @ [(c, ns)]) @ [b])"
      unfolding sorted_wrt_append by auto
    then show ?thesis by simp
  qed
  have B: "\<exists>w. ?M (fst p) = Some w \<and> block_ok (minors s) (fst p) w (snd p) \<and> backed fs (fst p) (unat (mj_size w))"
    if "p \<in> set (H @ [(c, ns), (b, [])])" for p
    using blocks [of "fst p" "snd p"] that by simp
  have "heap_ok ?s (H @ [(c, ns), (b, [])])"
    unfolding heap_ok_def heap_inv_def
  proof (intro conjI)
    show "l_bestBet ?s = NULL \<or> l_bestBet ?s \<in> set (map fst (H @ [(c, ns), (b, [])]))"
      using inv by (auto simp: heap_inv_def)
    show "\<forall>(a, ns) \<in> set (H @ [(c, ns), (b, [])]). \<exists>mj. majors ?s a = Some mj \<and> block_ok (minors ?s) a mj ns"
      unfolding case_prod_unfold by (intro ballI, drule B, auto simp del: fun_upd_apply)
    show "\<forall>(a, ns) \<in> set (H @ [(c, ns), (b, [])]). \<exists>mj. majors ?s a = Some mj \<and> backed (frames ?s) a (unat (mj_size mj))"
      unfolding case_prod_unfold by (intro ballI, drule B, auto simp del: fun_upd_apply)
  qed (use seg apart f in simp_all)
  then have "extends s (H @ [(c, ns)]) ?s (H @ [(c, ns), (b, [])])"
    by (auto simp: extends_def objects_def)
  then show ?thesis
    using run f by auto
qed

lemma first_block_cases:
  assumes ok: "heap_ok s []" and sz: "unat sz + 8192 < 2 ^ 32"
  shows "(allocate_new_page (ucast sz) s = Panic \<and> no_frames sz (frames s)) \<or>
    (\<exists>b s' mj. allocate_new_page (ucast sz) s = Ret (b, s') \<and> b \<noteq> NULL \<and> extends s [] (s'\<lparr>l_memRoot := b\<rparr>) [(b, [])] \<and>
      l_bestBet s' = NULL \<and> majors s' b = Some mj \<and> 88 + unat sz \<le> unat (mj_size mj) \<and> block_ok (minors s') b mj [])"
  using allocate_new_page_cases [OF ok sz]
proof (elim disjE exE conjE)
  fix b mj fs
  assume fresh: "fresh_block s [] sz b mj fs" and ret: "allocate_new_page (ucast sz) s =
      Ret (b, s\<lparr>frames := fs, majors := (majors s)(b \<mapsto> mj), l_allocated := l_allocated s + ucast (mj_size mj)\<rparr>)"
  then show ?thesis
    using ok by (auto simp: fresh_block_def extends_def heap_ok_def heap_inv_def objects_def)
qed auto

lemma block_free_need:
  assumes ok: "block_ok m maj mj ns" and sz: "unat sz + 40 < 2 ^ 32"
  shows "block_free mj < sz + sizeof_minor \<longleftrightarrow> unat (mj_size mj) - unat (mj_usage mj) < unat sz + 40"
  by (simp only: word_less_nat_alt block_ok_free [OF ok] unat_need [OF sz])

text \<open>An empty block that is large enough is used at once.\<close>

lemma search_empty_block:
  assumes ok: "heap_ok s H" and mem: "(maj, []) \<in> set H" and mj: "majors s maj = Some mj" "88 + unat sz \<le> unat (mj_size mj)"
    and sz: "unat sz + 40 < 2 ^ 32"
  shows "\<exists>r. place_in_block sz req maj started best s = Ret (Inr r) \<and> served s H sz req r"
    and "\<exists>r. search_loop sz req (maj, started, best, s) = Some (Ret r) \<and> served s H sz req r"
proof -
  have bk: "block_ok (minors s) maj mj []"
    using ok mem mj(1) by (auto elim: heap_ok_block)
  have place: "\<exists>r. place_in_block sz req maj started best s = Ret (Inr r) \<and> placed_in s maj [] sz req r"
    if "majors s maj = Some mj" "block_ok (minors s) maj mj []" for s best
  proof -
    have m48: "unat (maj + 48) = unat maj + 48" and first: "mj_first mj = NULL"
      using that(2) mj(2) by (simp_all add: block_ok_def unat_add_small)
    have "fits s maj mj [] (maj + 48) [] sz"
      using mj(2) m48 by (simp add: fits_def end_of_def)
    then show ?thesis
      using that(1) first unfolding placed_in_def by (fastforce simp: place_in_block_def place_first_eq)
  qed
  show "\<exists>r. place_in_block sz req maj started best s = Ret (Inr r) \<and> served s H sz req r"
    using place [OF mj(1) bk, of best] extends_refl [OF ok] mem unfolding served_def by blast
  have room: "\<not> block_free mj < sz + sizeof_minor"
    unfolding block_free_need [OF bk sz] using mj(2) bk by (simp add: block_ok_def)
  have null: "maj \<noteq> NULL"
    using bk by (simp add: block_ok_def)
  let ?s = "if best < block_free mj then s\<lparr>l_bestBet := maj\<rparr> else s"
  have ext: "extends s H ?s H"
    using ok mem extends_best [OF ok, of maj] extends_refl [OF ok] by force
  have "\<exists>r. search_step sz req (maj, started, best, s) = Ret (Inr r) \<and> placed_in ?s maj [] sz req r"
    using place [of s best] place [of "s\<lparr>l_bestBet := maj\<rparr>" "block_free mj"] mj(1) bk room null
    by (cases "best < block_free mj") (simp_all add: search_step_def Let_def)
  then show "\<exists>r. search_loop sz req (maj, started, best, s) = Some (Ret r) \<and> served s H sz req r"
    using ext mem unfolding served_def by (subst search_loop.simps) force
qed

definition search_result :: "liballoc \<Rightarrow> (ptr \<times> ptr list) list \<Rightarrow> u64 \<Rightarrow> u64 \<Rightarrow> (ptr \<times> liballoc) outcome option \<Rightarrow> bool" where
  "search_result s H sz req res \<longleftrightarrow> (res = Some Panic \<and> no_frames sz (frames s)) \<or> (\<exists>r. res = Some (Ret r) \<and> served s H sz req r)"

lemma search_result_extends:
  "extends s H s' H' \<Longrightarrow> frames s' = frames s \<Longrightarrow> search_result s' H' sz req res \<Longrightarrow> search_result s H sz req res"
  unfolding search_result_def by (auto intro: served_extends)

lemma nth_next:
  assumes "major_seg m p (map fst H)" "i < length H" "m (fst (H ! i)) = Some v"
  shows "mj_next v = (if Suc i < length H then fst (H ! Suc i) else NULL)"
proof -
  have split: "map fst H = map fst (take i H) @ fst (H ! i) # map fst (drop (Suc i) H)"
    using id_take_nth_drop [OF assms(2)] by (metis list.simps(9) map_append)
  have "major_seg m p (map fst (take i H) @ fst (H ! i) # map fst (drop (Suc i) H))"
    using assms(1) by (simp add: split [symmetric])
  then obtain w where "m (fst (H ! i)) = Some w" "mj_next w = hd (map fst (drop (Suc i) H) @ [NULL])"
    by (rule hseg_middle)
  then show ?thesis
    using assms(3) by (cases "Suc i < length H") (simp_all add: Cons_nth_drop_Suc [symmetric])
qed

lemma search_correct:
  assumes "heap_ok s H" "i < length H" "maj = fst (H ! i)" and sz: "unat sz + 8192 < 2 ^ 32"
  shows "search_result s H sz req (search_loop sz req (maj, started, best, s))"
  using assms(1-3)
proof (induction "(if started then length H else 0) + (length H - i)" arbitrary: i maj started best s rule: less_induct)
  case less
  obtain ns where at: "H ! i = (maj, ns)"
    using less.prems(3) by (cases "H ! i") auto
  then have mem: "(maj, ns) \<in> set H"
    using less.prems(2) by (metis nth_mem)
  obtain mj where mj: "majors s maj = Some mj" and bk: "block_ok (minors s) maj mj ns"
    using less.prems(1) mem by (rule heap_ok_block)
  have inv: "heap_inv s H"
    using less.prems(1) by (simp add: heap_ok_def)
  have nxt: "mj_next mj = (if Suc i < length H then fst (H ! Suc i) else NULL)"
    using inv less.prems(2) mj by (intro nth_next [of "majors s" "l_memRoot s"]) (simp_all add: heap_inv_def at)
  have nn: "fst (H ! Suc i) \<noteq> NULL" if "Suc i < length H"
    using that inv hseg_defined [of "majors s" mj_prev mj_next NULL "l_memRoot s" "map fst H" NULL "fst (H ! Suc i)"]
    by (simp add: heap_inv_def)
  have root: "l_memRoot s = fst (H ! 0)"
    using inv less.prems(2) hseg_start [of "majors s" mj_prev mj_next NULL "l_memRoot s" "map fst H" NULL]
    by (cases H) (simp_all add: heap_inv_def)
  have null: "maj \<noteq> NULL"
    using bk by (simp add: block_ok_def)
  have sz40: "unat sz + 40 < 2 ^ 32"
    using sz by simp
  let ?diff = "block_free mj"
  define t b where "t = (if best < ?diff then s\<lparr>l_bestBet := maj\<rparr> else s)" and "b = (if best < ?diff then ?diff else best)"
  have t: "extends s H t H" "frames t = frames s" "majors t = majors s" "minors t = minors s" "l_memRoot t = l_memRoot s"
    using less.prems(1) mem extends_best [OF less.prems(1), of maj] extends_refl [OF less.prems(1)] by (force simp: t_def)+
  have tok: "heap_ok t H"
    using t(1) by (simp add: extends_def)
  have full: "search_result t H sz req (case block_full sz maj started b t of
        Ret r \<Rightarrow> (case r of Inl st' \<Rightarrow> search_loop sz req st' | Inr x \<Rightarrow> Some (Ret x))
      | Fault \<Rightarrow> Some Fault | Panic \<Rightarrow> Some Panic | Hang \<Rightarrow> Some Hang)"
  proof -
    consider (nxt) "Suc i < length H" | (root) "\<not> Suc i < length H" "started" | (new) "\<not> Suc i < length H" "\<not> started"
      by blast
    then show ?thesis
    proof cases
      case nxt
      have "block_full sz maj started b t = Ret (Inl (fst (H ! Suc i), started, b, t))"
        using mj nxt nn by (simp add: block_full_def t \<open>mj_next mj = _\<close>)
      moreover have "search_result t H sz req (search_loop sz req (fst (H ! Suc i), started, b, t))"
        by (rule less.hyps [of started "Suc i"]) (use nxt less.prems(2) tok in auto)
      ultimately show ?thesis by simp
    next
      case root
      have "block_full sz maj started b t = Ret (Inl (fst (H ! 0), False, b, t))"
        using mj root by (simp add: block_full_def t nxt \<open>l_memRoot s = _\<close>)
      moreover have "search_result t H sz req (search_loop sz req (fst (H ! 0), False, b, t))"
        by (rule less.hyps [of False 0]) (use root less.prems(2) tok in auto)
      ultimately show ?thesis by simp
    next
      case new
      have last: "i = length H - 1" "H \<noteq> []"
        using new less.prems(2) by auto
      then have H: "H = butlast H @ [(maj, ns)]"
        using at by (metis append_butlast_last_id last_conv_nth)
      have ok': "heap_ok t (butlast H @ [(maj, ns)])"
        using tok H by simp
      have bf: "block_full sz maj started b t = obind (append_block maj sz t) (\<lambda>(new, s).
          Ret (if new = NULL then Inr (NULL, liballoc_unlock s) else Inl (new, False, b, s)))"
        using mj new by (simp add: block_full_def t nxt)
      from append_block_cases [OF ok' sz] show ?thesis
      proof (elim disjE exE conjE)
        fix c s' mj'
        assume a: "append_block maj sz t = Ret (c, s')" "c \<noteq> NULL"
          "extends t (butlast H @ [(maj, ns)]) s' (butlast H @ [(maj, ns), (c, [])])"
          "majors s' c = Some mj'" "88 + unat sz \<le> unat (mj_size mj')"
        let ?H' = "butlast H @ [(maj, ns), (c, [])]"
        have "heap_ok s' ?H'"
          using a(3) by (simp add: extends_def)
        then obtain r where r: "search_loop sz req (c, False, b, s') = Some (Ret r)" "served s' ?H' sz req r"
          using search_empty_block(2) [of s' ?H' c mj' sz req False b] a(4,5) sz40 by auto
        have "served t (butlast H @ [(maj, ns)]) sz req r"
          by (rule served_extends [OF a(3) r(2)])
        then show ?thesis
          using a(1,2) r(1) H by (simp add: bf search_result_def)
      qed (simp add: bf search_result_def)
    qed
  qed
  have step: "search_result t H sz req (search_loop sz req (maj, started, best, s))"
  proof (cases "?diff < sz + sizeof_minor")
    case False
    have "ns = [] \<Longrightarrow> 88 + unat sz \<le> unat (mj_size mj)"
      using False bk unfolding block_free_need [OF bk sz40] by (simp add: block_ok_def)
    then have "(\<exists>r. place_in_block sz req maj started b t = Ret (Inr r) \<and> placed_in t maj ns sz req r) \<or>
        place_in_block sz req maj started b t = block_full sz maj started b t"
      using bk mj sz40 by (intro place_in_block_cases) (simp_all add: t)
    moreover have "search_step sz req (maj, started, best, s) = place_in_block sz req maj started b t"
      using null mj False by (simp add: search_step_def Let_def t_def b_def)
    ultimately show ?thesis
      using full extends_refl [OF tok] mem
      by (subst search_loop.simps) (auto simp: search_result_def served_def)
  next
    case True
    consider (cont) "Suc i < length H \<or> started" | (new) "\<not> Suc i < length H" "\<not> started"
      by blast
    then show ?thesis
    proof cases
      case cont
      have "search_step sz req (maj, started, best, s) = block_full sz maj started b t"
        using null mj True cont nxt nn by (auto simp: search_step_def block_full_def Let_def t_def b_def)
      then show ?thesis
        using full by (subst search_loop.simps) simp
    next
      case new
      have last: "i = length H - 1" "H \<noteq> []"
        using new less.prems(2) by auto
      then have H: "H = butlast H @ [(maj, ns)]"
        using at by (metis append_butlast_last_id last_conv_nth)
      have ok': "heap_ok t (butlast H @ [(maj, ns)])"
        using tok H by simp
      have st: "search_step sz req (maj, started, best, s) = obind (append_block maj sz t) (\<lambda>(new, s).
          if new = NULL then Ret (Inr (NULL, liballoc_unlock s)) else place_in_block sz req new False b s)"
        using null mj True new nxt by (simp add: search_step_def Let_def t_def b_def case_prod_unfold cong del: if_weak_cong)
      from append_block_cases [OF ok' sz] show ?thesis
      proof (elim disjE exE conjE)
        fix c s' mj'
        assume a: "append_block maj sz t = Ret (c, s')" "c \<noteq> NULL"
          "extends t (butlast H @ [(maj, ns)]) s' (butlast H @ [(maj, ns), (c, [])])"
          "majors s' c = Some mj'" "88 + unat sz \<le> unat (mj_size mj')"
        let ?H' = "butlast H @ [(maj, ns), (c, [])]"
        have "heap_ok s' ?H'"
          using a(3) by (simp add: extends_def)
        then obtain r where r: "place_in_block sz req c False b s' = Ret (Inr r)" "served s' ?H' sz req r"
          using search_empty_block(1) [of s' ?H' c mj' sz req False b] a(4,5) sz40 by auto
        have "served t (butlast H @ [(maj, ns)]) sz req r"
          by (rule served_extends [OF a(3) r(2)])
        then show ?thesis
          using a(1,2) r(1) H by (subst search_loop.simps) (simp add: st search_result_def)
      qed (subst search_loop.simps, simp add: st search_result_def)
    qed
  qed
  show ?case
    by (rule search_result_extends [OF t(1,2) step])
qed

section \<open>What an allocation gives\<close>

lemma unat_low4: "unat ((p :: u64) AND 15) = unat p mod 16"
proof -
  have m: "(15 :: u64) = mask 4"
    by (simp add: mask_eq_exp_minus_1)
  have "unat (p AND mask 4) = take_bit 4 (unat p)"
    by (simp only: take_bit_eq_mask [symmetric] unsigned_take_bit_eq)
  then show ?thesis
    by (simp add: m take_bit_nat_def)
qed

lemma ALIGN_correct:
  assumes "unat q + 32 \<le> 2 ^ 64 - 1" and "ALIGN q s = (p, s')"
  shows "16 dvd unat p" "unat q + 16 \<le> unat p" "unat p < unat q + 32" "UNALIGN p s' = q"
    and "s' = s\<lparr>heap_mem := (heap_mem s)(p - 16 := heap_mem s' (p - 16))\<rparr>" "unat (p - 16) = unat p - 16"
proof -
  define e where "e = q + 16"
  define d where "d = (if e AND 15 \<noteq> 0 then 16 - (e AND 15) else e AND 15)"
  have e: "unat e = unat q + 16"
    unfolding e_def using assms(1) by (subst unat_add_small) simp_all
  have low: "unat (e AND 15) = unat e mod 16"
    by (rule unat_low4)
  have d: "unat d = (if unat e mod 16 = 0 then 0 else 16 - unat e mod 16)"
  proof (cases "e AND 15 = 0")
    case True
    then show ?thesis
      using low by (simp add: d_def)
  next
    case False
    then have "unat e mod 16 \<noteq> 0"
      using low by (metis unat_eq_zero)
    moreover have "e AND 15 \<le> 16"
      by (simp add: word_le_nat_alt low)
    ultimately show ?thesis
      using False low by (simp add: d_def unat_sub)
  qed
  have d16: "unat d < 16"
    unfolding d by simp
  have m: "(16 :: u64) - 1 = 15"
    by simp
  have "ALIGN q s = (e + d, s\<lparr>heap_mem := (heap_mem s)(e + d - 16 := ucast (d + 16))\<rparr>)"
    by (simp only: ALIGN_def Let_def ALIGNMENT_def ALIGN_INFO_def e_def d_def m)
  then have p: "p = e + d" and s': "s' = s\<lparr>heap_mem := (heap_mem s)(p - 16 := ucast (d + 16))\<rparr>"
    using assms(2) by simp_all
  have up: "unat p = unat e + unat d"
    unfolding p using e d16 assms(1) by (subst unat_add_small) simp_all
  show "unat q + 16 \<le> unat p" "unat p < unat q + 32"
    using up e d16 by simp_all
  show "16 dvd unat p"
    unfolding up d by (cases "unat e mod 16 = 0") (simp_all add: dvd_eq_mod_eq_0, presburger)
  have "16 \<le> p"
    using up e by (simp add: word_le_nat_alt)
  then show "unat (p - 16) = unat p - 16"
    by (simp add: unat_sub)
  show "s' = s\<lparr>heap_mem := (heap_mem s)(p - 16 := heap_mem s' (p - 16))\<rparr>"
    unfolding s' by simp
  have ud: "unat (d + 16) = unat d + 16"
    using d16 by (subst unat_add_small) simp_all
  have five: "d + 16 = take_bit 5 (d + 16)"
    using ud d16 by (simp add: word_unat_eq_iff unsigned_take_bit_eq take_bit_nat_eq_self)
  have "(scast (ucast (take_bit 5 x) :: u8) :: u64) = take_bit 5 x" for x :: u64
    by (rule bit_word_eqI) (auto simp: bit_simps)
  then have c: "(scast (ucast (d + 16) :: u8) :: u64) = d + 16"
    using five by metis
  have "d + 16 < 32"
    using ud d16 by (simp add: word_less_nat_alt)
  then show "UNALIGN p s' = q"
    using c by (simp add: UNALIGN_def s' Let_def) (simp add: p e_def)
qed

lemma objects_apart:
  assumes inv: "heap_inv s H" and x: "x \<in> objects H" and y: "y \<in> objects H" and "x \<noteq> y"
  shows "unat x + 40 + obj_size (minors s) x \<le> unat y \<or> unat y + 40 + obj_size (minors s) y \<le> unat x"
proof -
  obtain a ns where a: "(a, ns) \<in> set H" "x \<in> set ns"
    using x by (auto simp: objects_def)
  obtain b ks where b: "(b, ks) \<in> set H" "y \<in> set ks"
    using y by (auto simp: objects_def)
  obtain mj where mj: "majors s a = Some mj" "block_ok (minors s) a mj ns"
    using inv a(1) by (rule heap_inv_block)
  obtain H1 H2 where H: "H = H1 @ (a, ns) # H2"
    using a(1) by (meson split_list)
  show ?thesis
  proof (cases "(b, ks) = (a, ns)")
    case True
    then show ?thesis
      using mj(2) a(2) b(2) \<open>x \<noteq> y\<close> laid_out_apart unfolding block_ok_def by blast
  next
    case False
    then have b': "(b, ks) \<in> set (H1 @ H2)"
      using b(1) H by auto
    note w = block_ok_within [OF mj(2) a(2)]
    have "unat x + 40 + obj_size (minors s) x \<le> unat y \<or> unat y + 40 + obj_size (minors s) y \<le> unat x + 40 + obj_size (minors s) x"
      using other_block_apart [OF inv [unfolded H] b' mj(1) b(2), of "unat x + 40 + obj_size (minors s) x"] w by simp
    moreover have "unat x + 1 \<le> unat y \<or> unat y + 40 + obj_size (minors s) y \<le> unat x + 1"
      using other_block_apart [OF inv [unfolded H] b' mj(1) b(2), of "unat x + 1"] w by simp
    moreover have "unat x \<le> unat y \<or> unat y + 40 + obj_size (minors s) y \<le> unat x"
      using other_block_apart [OF inv [unfolded H] b' mj(1) b(2), of "unat x"] w by simp
    ultimately show ?thesis
      using other_block_apart [OF inv [unfolded H] b' mj(1) b(2), of "unat y + 1"] w by linarith
  qed
qed

definition allocated :: "liballoc \<Rightarrow> (ptr \<times> ptr list) list \<Rightarrow> u64 \<Rightarrow> ptr \<Rightarrow> ptr \<Rightarrow> liballoc \<Rightarrow> (ptr \<times> ptr list) list \<Rightarrow> bool" where
  "allocated s H req p n s' H' \<longleftrightarrow> heap_ok s' H' \<and> \<not> heap_lock s' \<and> n \<notin> objects H \<and> objects H' = insert n (objects H) \<and>
     16 dvd unat p \<and> UNALIGN p s' = n + 40 \<and> unat n + 56 \<le> unat p \<and> unat p + unat req \<le> unat n + 40 + obj_size (minors s') n \<and>
     unat n + 40 + obj_size (minors s') n < 2 ^ 64 \<and> map_option mn_req_size (minors s' n) = Some (ucast req) \<and>
     (\<forall>x \<in> objects H. obj_size (minors s') x = obj_size (minors s) x \<and>
       map_option mn_block (minors s' x) = map_option mn_block (minors s x)) \<and>
     (\<forall>a. heap_mem s' a \<noteq> heap_mem s a \<longrightarrow> unat n + 40 \<le> unat a \<and> unat a < unat p)"

lemma placed_allocated:
  assumes ok: "heap_ok s H" and mem: "(maj, ns) \<in> set H" and pl: "placed_in s maj ns (req + 32) req r" and req: "unat req < 2 ^ 31"
  shows "\<exists>n H'. allocated s H req (fst r) n (snd r) H'"
proof -
  let ?sz = "req + 32"
  have usz: "unat ?sz = unat req + 32"
    using req by (subst unat_add_small) simp_all
  then have sz: "unat ?sz + 40 < 2 ^ 32"
    using req by simp
  obtain mj xs n ys where pl: "majors s maj = Some mj" "ns = xs @ ys" "fits s maj mj xs n ys ?sz"
      "r = finish n ?sz (link_object maj mj xs n ys ?sz req s)"
    using pl by (auto simp: placed_in_def)
  obtain H1 H2 where H: "H = H1 @ (maj, xs @ ys) # H2"
    using mem pl(2) by (metis split_list)
  have inv: "heap_inv s (H1 @ (maj, xs @ ys) # H2)"
    using ok H by (simp add: heap_ok_def)
  let ?t = "link_object maj mj xs n ys ?sz req s" and ?H = "H1 @ (maj, xs @ n # ys) # H2"
  note new = link_object_inv(1) [OF inv pl(1,3) sz, of req] link_object_inv(2,3) [OF inv pl(1,3) sz]
  have unc: "unat (n + 40) = unat n + 40"
    using new(3) by (subst unat_add_small) simp_all
  obtain p s1 where al: "ALIGN (n + sizeof_minor) (?t\<lparr>l_inuse := l_inuse ?t + ?sz\<rparr>) = (p, s1)"
    by fastforce
  note a = ALIGN_correct [OF _ al]
  have c: "unat (n + sizeof_minor) + 32 \<le> 2 ^ 64 - 1"
    using new(3) unc usz by simp
  note a = a [OF c]
  have r: "fst r = p" "snd r = liballoc_unlock s1"
    using al by (simp_all add: pl(4) finish_def)
  have s1: "majors s1 = majors ?t" "minors s1 = minors ?t" "frames s1 = frames s" "l_memRoot s1 = l_memRoot ?t" "l_bestBet s1 = l_bestBet ?t"
    "heap_mem s1 = (heap_mem s)(p - 16 := heap_mem s1 (p - 16))"
    by (subst a(5), simp add: link_object_def)+
  have osz: "obj_size (minors ?t) n = unat ?sz"
    using sz by (simp add: obj_size_def link_object_new obj_size_new_minor)
  have obj: "objects ?H = insert n (objects H)"
    by (auto simp: objects_def H)
  have size: "map_option mj_size (majors ?t b) = map_option mj_size (majors s b)" for b
    using pl(1) by (simp add: link_object_def)
  have ok': "heap_ok (liballoc_unlock s1) ?H"
    unfolding heap_ok_def
  proof (intro conjI ballI)
    show "heap_inv (liballoc_unlock s1) ?H"
      using new(1) s1 by (simp add: heap_inv_def liballoc_unlock_def)
    show "frames_ok (frames (liballoc_unlock s1))"
      using ok s1 by (simp add: heap_ok_def liballoc_unlock_def)
    fix e assume "e \<in> set ?H"
    then have "fst e \<in> fst ` set H"
      by (auto simp: H image_Un)
    then obtain f where "f \<in> set H" "fst e = fst f"
      by blast
    then have "(fst e, snd f) \<in> set H"
      by simp
    then obtain v where v: "majors s (fst e) = Some v" "backed (frames s) (fst e) (unat (mj_size v))"
      by (rule heap_ok_block [OF ok])
    then obtain w where "majors ?t (fst e) = Some w" "mj_size w = mj_size v"
      using size [of "fst e"] by auto
    then show "case e of (b, ns) \<Rightarrow> \<exists>mj. majors (liballoc_unlock s1) b = Some mj \<and>
        backed (frames (liballoc_unlock s1)) b (unat (mj_size mj))"
      using v(2) s1 by (cases e) (auto simp: liballoc_unlock_def)
  qed
  have "unat n + 40 \<le> unat a \<and> unat a < unat p" if "heap_mem (liballoc_unlock s1) a \<noteq> heap_mem s a" for a
  proof -
    have "a = p - 16"
      using that fun_cong [OF s1(6), of a] by (cases "a = p - 16") (simp_all add: liballoc_unlock_def)
    then show ?thesis
      using a(2,6) unc by simp
  qed
  moreover have "\<forall>x \<in> objects H. obj_size (minors ?t) x = obj_size (minors s) x \<and>
      map_option mn_block (minors ?t x) = map_option mn_block (minors s x)"
    using new(2) H by (metis link_object_minors(1) link_object_owner)
  ultimately have "allocated s H req p n (liballoc_unlock s1) ?H"
    unfolding allocated_def using ok' new(2,3) obj a(1-4) s1 osz usz unc
    by (simp add: H liballoc_unlock_def link_object_new UNALIGN_def) (simp add: new_minor_def)
  then show ?thesis
    using r by metis
qed

lemma served_allocated:
  assumes "served s H (req + 32) req r" and "unat req < 2 ^ 31"
  shows "\<exists>n H'. allocated s H req (fst r) n (snd r) H'"
proof -
  obtain s1 H1 maj ns where s1: "extends s H s1 H1" "(maj, ns) \<in> set H1" "placed_in s1 maj ns (req + 32) req r"
    using assms(1) by (auto simp: served_def)
  then have "\<exists>n H'. allocated s1 H1 req (fst r) n (snd r) H'"
    using assms(2) by (intro placed_allocated) (auto simp: extends_def)
  then show ?thesis
    using s1(1) by (auto simp: allocated_def extends_def)
qed

lemma heap_ok_lock: "heap_ok (s\<lparr>heap_lock := l\<rparr>) H = heap_ok s H"
  by (simp add: heap_ok_def heap_inv_def)

lemma allocated_lock: "allocated (s\<lparr>heap_lock := l\<rparr>) H req p n s' H' = allocated s H req p n s' H'"
  by (simp add: allocated_def)

lemma malloc_cases:
  assumes ok: "heap_ok s H" and lock: "\<not> heap_lock s" and req: "unat req < 2 ^ 31"
  shows "(malloc req s = Panic \<and> no_frames (req + 32) (frames s)) \<or>
    (\<exists>p s' n H'. malloc req s = Ret (p, s') \<and> allocated s H req p n s' H')"
proof -
  let ?sz = "req + 32" and ?s = "s\<lparr>heap_lock := True\<rparr>"
  have usz: "unat ?sz = unat req + 32"
    using req by (subst unat_add_small) simp_all
  have sz: "unat ?sz + 8192 < 2 ^ 32" and sz40: "unat ?sz + 40 < 2 ^ 32"
    using req usz by simp_all
  have "?sz \<noteq> 0"
    using usz by auto
  then have m: "malloc req s = malloc_nonempty req s"
    by (simp add: malloc_def)
  have ok': "heap_ok ?s H"
    using ok by (simp add: heap_ok_lock)
  have lk: "liballoc_lock s = Ret ?s"
    using lock by (simp add: liballoc_lock_def)
  show ?thesis
  proof (cases H)
    case Nil
    have root: "l_memRoot s = NULL"
      using ok Nil by (simp add: heap_ok_def heap_inv_def)
    from first_block_cases [OF ok' [unfolded Nil] sz] show ?thesis
    proof (elim disjE exE conjE)
      assume "allocate_new_page (ucast ?sz) ?s = Panic" "no_frames ?sz (frames ?s)"
      then show ?thesis
        using root lk by (simp add: m malloc_nonempty_def)
    next
      fix b s1 mj
      assume b: "allocate_new_page (ucast ?sz) ?s = Ret (b, s1)" "b \<noteq> NULL" "extends ?s [] (s1\<lparr>l_memRoot := b\<rparr>) [(b, [])]"
        "l_bestBet s1 = NULL" "majors s1 b = Some mj" "88 + unat ?sz \<le> unat (mj_size mj)"
      let ?t = "s1\<lparr>l_memRoot := b\<rparr>"
      have "heap_ok ?t [(b, [])]"
        using b(3) by (simp add: extends_def)
      then obtain r where r: "search_loop ?sz req (b, False, 0, ?t) = Some (Ret r)" "served ?t [(b, [])] ?sz req r"
        using search_empty_block(2) [of ?t "[(b, [])]" b mj ?sz req False 0] b(5,6) sz40 by auto
      have "served ?s [] ?sz req r"
        by (rule served_extends [OF b(3) r(2)])
      then obtain n H' where "allocated ?s H req (fst r) n (snd r) H'"
        using served_allocated [OF _ req] Nil by blast
      moreover have "malloc req s = Ret r"
        using root lk b(1,2,4) r(1) by (simp add: m malloc_nonempty_def Let_def)
      ultimately show ?thesis
        by (cases r) (auto simp: allocated_lock)
    qed
  next
    case (Cons h H2)
    have inv: "heap_inv s H"
      using ok by (simp add: heap_ok_def)
    have root: "l_memRoot s = fst (H ! 0)" "l_memRoot s \<noteq> NULL"
      using inv hseg_start [of "majors s" mj_prev mj_next NULL "l_memRoot s" "map fst H" NULL]
        hseg_defined [of "majors s" mj_prev mj_next NULL "l_memRoot s" "map fst H" NULL "fst h"]
      by (simp_all add: heap_inv_def Cons)
    have from_block: ?thesis
      if run: "malloc req s = looped (search_loop ?sz req (maj, started, best, ?s))" and i: "i < length H" "maj = fst (H ! i)"
      for maj started best i
    proof -
      from search_correct [OF ok' i sz, of req started best] show ?thesis
        unfolding search_result_def
      proof (elim disjE exE conjE)
        fix r assume r: "search_loop ?sz req (maj, started, best, ?s) = Some (Ret r)" "served ?s H ?sz req r"
        then obtain n H' where "allocated ?s H req (fst r) n (snd r) H'"
          using served_allocated [OF _ req] by blast
        then show ?thesis
          using r(1) run by (cases r) (auto simp: allocated_lock)
      qed (simp add: run)
    qed
    show ?thesis
    proof (cases "l_bestBet s = NULL")
      case True
      then have "malloc req s = looped (search_loop ?sz req (l_memRoot s, False, 0, ?s))"
        using lk root(2) by (simp add: m malloc_nonempty_def Let_def)
      then show ?thesis
        by (rule from_block [of _ _ _ 0]) (use root Cons in simp_all)
    next
      case False
      then obtain j where j: "j < length H" "l_bestBet s = fst (H ! j)"
        using inv by (auto simp: heap_inv_def in_set_conv_nth)
      then obtain mj where mj: "majors s (l_bestBet s) = Some mj"
        using heap_ok_block [OF ok, of "fst (H ! j)" "snd (H ! j)"] by auto
      show ?thesis
      proof (cases "block_free mj > ?sz + sizeof_minor")
        case True
        then have "malloc req s = looped (search_loop ?sz req (l_bestBet s, True, block_free mj, ?s))"
          using lk root(2) mj \<open>l_bestBet s \<noteq> NULL\<close> by (simp add: m malloc_nonempty_def Let_def)
        then show ?thesis
          by (rule from_block [OF _ j])
      next
        case False
        then have "malloc req s = looped (search_loop ?sz req (l_memRoot s, False, block_free mj, ?s))"
          using lk root(2) mj \<open>l_bestBet s \<noteq> NULL\<close> by (simp add: m malloc_nonempty_def Let_def)
        then show ?thesis
          by (rule from_block [of _ _ _ 0]) (use root Cons in simp_all)
      qed
    qed
  qed
qed

end
