(* ===== verification/Heap_Free.thy ===== *)
theory Heap_Free
  imports Heap_Alloc
begin

text \<open>
  Freeing and reallocation, giving the pages of a block back, and the properties of the heap.
\<close>

section \<open>Unlinking an object\<close>

definition unlink_object :: "ptr \<Rightarrow> liballoc_major \<Rightarrow> ptr list \<Rightarrow> ptr \<Rightarrow> liballoc_minor \<Rightarrow> ptr list \<Rightarrow> liballoc \<Rightarrow> liballoc" where
  "unlink_object maj mj xs n v ys s = s\<lparr>
     l_inuse := l_inuse s - ucast (mn_size v),
     majors := (majors s)(maj \<mapsto> mj\<lparr>mj_usage := mj_usage mj - (mn_size v + ucast sizeof_minor),
       mj_first := (if xs = [] then hd (ys @ [NULL]) else mj_first mj)\<rparr>),
     minors := (\<lambda>a. if a = n then Some (v\<lparr>mn_magic := LIBALLOC_DEAD\<rparr>)
       else if xs \<noteq> [] \<and> a = last xs then map_option (\<lambda>v. v\<lparr>mn_next := hd (ys @ [NULL])\<rparr>) (minors s a)
       else if ys \<noteq> [] \<and> a = hd ys then map_option (\<lambda>v. v\<lparr>mn_prev := last (NULL # xs)\<rparr>) (minors s a)
       else minors s a)\<rparr>"

lemma hseg_links:
  assumes "minor_seg m p (xs @ n # ys)" "m n = Some v"
  shows "mn_prev v = last (NULL # xs)" "mn_next v = hd (ys @ [NULL])" "n \<noteq> NULL"
    "hseg m mn_prev mn_next NULL p xs n" "hseg m mn_prev mn_next n (hd (ys @ [NULL])) ys NULL"
  using assms by (auto elim!: hseg_middle)

lemma unlink_object_eqI:
  assumes "ms = minors (unlink_object maj mj xs n v ys s)"
    and "mj' = mj\<lparr>mj_usage := mj_usage mj - (mn_size v + ucast sizeof_minor),
       mj_first := (if xs = [] then hd (ys @ [NULL]) else mj_first mj)\<rparr>"
  shows "s\<lparr>l_inuse := l_inuse s - ucast (mn_size v), majors := (majors s)(maj \<mapsto> mj'), minors := ms\<rparr> = unlink_object maj mj xs n v ys s"
  unfolding assms by (simp add: unlink_object_def)

lemma unlink_minor_eq:
  assumes seg: "minor_seg (minors s) (mj_first mj) (xs @ n # ys)" and v: "minors s n = Some v" "mn_block v = maj"
    and mj: "majors s maj = Some mj" and dist: "distinct (xs @ n # ys)"
  shows "unlink_minor n s = Ret (maj, unlink_object maj mj xs n v ys s)"
proof -
  note l = hseg_links [OF seg v(1)]
  have defd: "x \<noteq> NULL \<and> (\<exists>w. minors s x = Some w)" if "x \<in> set (xs @ n # ys)" for x
    using hseg_defined [OF seg that] by blast
  let ?dead = "v\<lparr>mn_magic := LIBALLOC_DEAD\<rparr>" and ?usage = "mj_usage mj - (mn_size v + ucast sizeof_minor)"
  let ?s = "\<lambda>mj ms. s\<lparr>l_inuse := l_inuse s - ucast (mn_size v), majors := (majors s)(maj \<mapsto> mj), minors := ms\<rparr>"
  note def = unlink_minor_def update_minor_def update_major_def
  show ?thesis
  proof (cases xs rule: rev_cases)
    case Nil
    show ?thesis
    proof (cases ys)
      case Nil': Nil
      have "unlink_minor n s = Ret (maj, ?s (mj\<lparr>mj_usage := ?usage, mj_first := NULL\<rparr>) ((minors s)(n \<mapsto> ?dead)))"
        using v mj l(1,2) Nil Nil' by (simp add: def)
      then show ?thesis
        by (simp only:) (subst unlink_object_eqI [of _ maj mj xs n v ys s], auto simp: unlink_object_def Nil Nil')
    next
      case (Cons y zs)
      obtain w where w: "minors s y = Some w" "y \<noteq> NULL" "y \<noteq> n"
        using defd [of y] dist by (auto simp: Cons)
      have "unlink_minor n s = Ret (maj, ?s (mj\<lparr>mj_usage := ?usage, mj_first := y\<rparr>) ((minors s)(n \<mapsto> ?dead, y \<mapsto> w\<lparr>mn_prev := NULL\<rparr>)))"
        using v mj l(1,2) Nil Cons w by (simp add: def)
      then show ?thesis
        using w by (simp only:) (subst unlink_object_eqI [of _ maj mj xs n v ys s], auto simp: unlink_object_def Nil Cons)
    qed
  next
    case (snoc us x)
    obtain u where u: "minors s x = Some u" "x \<noteq> NULL" "x \<noteq> n"
      using defd [of x] dist by (auto simp: snoc)
    show ?thesis
    proof (cases ys)
      case Nil
      have "unlink_minor n s = Ret (maj, ?s (mj\<lparr>mj_usage := ?usage\<rparr>) ((minors s)(n \<mapsto> ?dead, x \<mapsto> u\<lparr>mn_next := NULL\<rparr>)))"
        using v mj l(1,2) Nil snoc u by (simp add: def)
      then show ?thesis
        using u by (simp only:) (subst unlink_object_eqI [of _ maj mj xs n v ys s], auto simp: unlink_object_def Nil snoc)
    next
      case (Cons y zs)
      obtain w where w: "minors s y = Some w" "y \<noteq> NULL" "y \<noteq> n" "y \<noteq> x"
        using defd [of y] dist by (auto simp: Cons snoc)
      have "unlink_minor n s = Ret (maj, ?s (mj\<lparr>mj_usage := ?usage\<rparr>)
          ((minors s)(n \<mapsto> ?dead, y \<mapsto> w\<lparr>mn_prev := x\<rparr>, x \<mapsto> u\<lparr>mn_next := y\<rparr>)))"
        using v mj l(1,2) snoc Cons w u by (simp add: def)
      then show ?thesis
        using u w by (simp only:) (subst unlink_object_eqI [of _ maj mj xs n v ys s], auto simp: unlink_object_def Cons snoc)
    qed
  qed
qed

lemma unlink_object_minors:
  "x \<noteq> n \<Longrightarrow> obj_size (minors (unlink_object maj mj xs n v ys s)) x = obj_size (minors s) x"
  "x \<noteq> n \<Longrightarrow> live (minors (unlink_object maj mj xs n v ys s)) b x = live (minors s) b x"
  "x \<notin> set (xs @ n # ys) \<Longrightarrow> minors (unlink_object maj mj xs n v ys s) x = minors s x"
proof -
  assume x: "x \<notin> set (xs @ n # ys)"
  then have "\<not> (xs \<noteq> [] \<and> x = last xs)" "\<not> (ys \<noteq> [] \<and> x = hd ys)"
    by auto
  then show "minors (unlink_object maj mj xs n v ys s) x = minors s x"
    using x by (auto simp: unlink_object_def)
qed (auto simp: unlink_object_def obj_size_def live_def split: option.splits)

lemma laid_out_remove: "laid_out m lo (xs @ n # ys) hi \<Longrightarrow> laid_out m lo (xs @ ys) hi"
proof (cases ys)
  case Nil
  assume "laid_out m lo (xs @ n # ys) hi"
  then have "laid_out m lo xs (unat n)" "unat n \<le> hi"
    using laid_out_total [of m "unat n + 40 + obj_size m n" "[]" hi] by (simp_all add: laid_out_append Nil)
  then show ?thesis
    using laid_out_mono [of m lo xs "unat n" lo hi] by (simp add: Nil)
next
  case (Cons y zs)
  assume "laid_out m lo (xs @ n # ys) hi"
  then have "laid_out m lo xs (unat n)" "unat n \<le> unat y" "laid_out m (unat y + 40 + obj_size m y) zs hi"
    by (simp_all add: laid_out_append Cons)
  then show ?thesis
    using laid_out_mono [of m lo xs "unat n" lo "unat y"] by (simp add: laid_out_append Cons)
qed

text \<open>Taking one element out: \<open>sn\<close> makes the one before it point on, \<open>sp\<close> makes the one after it point back.\<close>

lemma hseg_unlink:
  assumes seg: "hseg m pv nx b p (xs @ n # ys) q" and dist: "distinct (xs @ n # ys)"
    and sn: "\<And>v. pv (sn v) = pv v" "\<And>v. nx (sn v) = hd (ys @ [q])" and sp: "\<And>v. pv (sp v) = last (b # xs)" "\<And>v. nx (sp v) = nx v"
    and m': "\<And>x. x \<in> set (xs @ ys) \<Longrightarrow> m' x = (if xs \<noteq> [] \<and> x = last xs then map_option sn (m x)
      else if ys \<noteq> [] \<and> x = hd ys then map_option sp (m x) else m x)"
  shows "hseg m' pv nx b (if xs = [] then hd (ys @ [q]) else p) (xs @ ys) q"
proof -
  let ?r = "hd (ys @ [q])" and ?first = "if xs = [] then hd (ys @ [q]) else p"
  obtain v where pre: "hseg m pv nx b p xs n" and suf: "hseg m pv nx n ?r ys q"
    using seg by (auto elim!: hseg_middle)
  have "hseg m' pv nx b ?first xs ?r"
  proof (cases "xs = []")
    case False
    obtain w where w: "m (last xs) = Some w"
      using hseg_defined [OF pre, of "last xs"] False by auto
    have "hseg (m(last xs \<mapsto> sn w)) pv nx b p xs ?r"
      by (rule hseg_set_next [OF pre False _ w]) (use dist sn in simp_all)
    moreover have "hseg m' pv nx b p xs ?r = hseg (m(last xs \<mapsto> sn w)) pv nx b p xs ?r"
    proof (rule hseg_cong)
      fix x assume x: "x \<in> set xs"
      then have "\<not> (ys \<noteq> [] \<and> x = hd ys)"
        using dist by (cases ys) auto
      then show "map_option (\<lambda>v. (pv v, nx v)) (m' x) = map_option (\<lambda>v. (pv v, nx v)) ((m(last xs \<mapsto> sn w)) x)"
        using m' [of x] x False w by auto
    qed
    ultimately show ?thesis
      using False by simp
  qed simp
  moreover have "hseg m' pv nx (last (b # xs)) ?r ys q"
  proof (cases ys)
    case (Cons y zs)
    obtain w where w: "m y = Some w"
      using hseg_defined [OF suf, of y] Cons by auto
    have y: "y \<notin> set zs"
      using dist by (simp add: Cons)
    have "hseg (m(y \<mapsto> sp w)) pv nx (last (b # xs)) y (y # zs) q"
      by (rule hseg_set_prev [where v = w and b = n]) (use suf Cons y w sp in simp_all)
    moreover have "hseg m' pv nx (last (b # xs)) y (y # zs) q = hseg (m(y \<mapsto> sp w)) pv nx (last (b # xs)) y (y # zs) q"
    proof (rule hseg_cong)
      fix x assume x: "x \<in> set (y # zs)"
      then have "x \<in> set ys"
        by (simp add: Cons)
      moreover have "set xs \<inter> set ys = {}"
        using dist by simp
      ultimately have "\<not> (xs \<noteq> [] \<and> x = last xs)"
        using last_in_set [of xs] by blast
      then show "map_option (\<lambda>v. (pv v, nx v)) (m' x) = map_option (\<lambda>v. (pv v, nx v)) ((m(y \<mapsto> sp w)) x)"
        using m' [of x] x w Cons by auto
    qed
    ultimately show ?thesis
      using Cons by simp
  qed simp
  ultimately show ?thesis
    unfolding hseg_append by blast
qed

lemma unlink_object_seg:
  assumes "minor_seg (minors s) (mj_first mj) (xs @ n # ys)" "distinct (xs @ n # ys)"
  shows "minor_seg (minors (unlink_object maj mj xs n v ys s)) (if xs = [] then hd (ys @ [NULL]) else mj_first mj) (xs @ ys)"
  by (rule hseg_unlink [OF assms, where sn = "\<lambda>v. v\<lparr>mn_next := hd (ys @ [NULL])\<rparr>" and sp = "\<lambda>v. v\<lparr>mn_prev := last (NULL # xs)\<rparr>"])
    (use assms(2) in \<open>auto simp: unlink_object_def\<close>)

lemma unlink_object_inv:
  assumes inv: "heap_inv s (H1 @ (maj, xs @ n # ys) # H2)" and mj: "majors s maj = Some mj" and v: "minors s n = Some v"
  defines "s' \<equiv> unlink_object maj mj xs n v ys s"
  shows "heap_inv s' (H1 @ (maj, xs @ ys) # H2)" and "unlink_minor n s = Ret (maj, s')"
proof -
  have ok: "block_ok (minors s) maj mj (xs @ n # ys)"
    using inv mj by (auto elim!: heap_inv_block [of _ _ maj "xs @ n # ys"])
  have seg: "minor_seg (minors s) (mj_first mj) (xs @ n # ys)"
    and lay: "laid_out (minors s) (unat maj + 48) (xs @ n # ys) (unat maj + unat (mj_size mj))"
    and lv: "live (minors s) maj n"
    using ok by (simp_all add: block_ok_def)
  note dist = laid_out_distinct [OF lay]
  have "mn_block v = maj"
    using lv v by (simp add: live_def)
  then show "unlink_minor n s = Ret (maj, s')"
    unfolding s'_def by (rule unlink_minor_eq [OF seg v _ mj dist])
  let ?mj' = "mj\<lparr>mj_usage := mj_usage mj - (mn_size v + ucast sizeof_minor), mj_first := (if xs = [] then hd (ys @ [NULL]) else mj_first mj)\<rparr>"
  have new: "n \<notin> set (xs @ ys)"
    using dist by simp
  have sizes: "obj_size (minors s') x = obj_size (minors s) x" if "x \<in> set (xs @ ys)" for x
    unfolding s'_def using that new by (intro unlink_object_minors) auto
  have sum: "(\<Sum>x\<leftarrow>xs @ n # ys. 40 + obj_size (minors s) x) = (\<Sum>x\<leftarrow>xs @ ys. 40 + obj_size (minors s') x) + 40 + unat (mn_size v)"
  proof -
    have "(\<Sum>x\<leftarrow>zs. 40 + obj_size (minors s) x) = (\<Sum>x\<leftarrow>zs. 40 + obj_size (minors s') x)" if "set zs \<subseteq> set (xs @ ys)" for zs
      using that sizes by (intro arg_cong [where f = sum_list] map_cong refl) auto
    from this [of xs] this [of ys] show ?thesis
      using v by (simp add: obj_size_def [of _ n])
  qed
  have "unat (mn_size v) + 40 < 2 ^ 32"
    using sum ok unat_u32_less [of "mj_usage mj"] by (simp add: block_ok_def)
  then have need: "unat (mn_size v + ucast sizeof_minor) = unat (mn_size v) + 40"
    by (subst unat_add_lem [THEN iffD1]) simp_all
  have "unat (mj_usage ?mj') = unat (mj_usage mj) - (unat (mn_size v) + 40)"
  proof -
    have "mn_size v + ucast sizeof_minor \<le> mj_usage mj"
      using sum ok need unfolding word_le_nat_alt block_ok_def by simp
    then have "unat (mj_usage mj - (mn_size v + ucast sizeof_minor)) = unat (mj_usage mj) - (unat (mn_size v) + 40)"
      by (simp only: unat_sub need)
    then show ?thesis
      by simp
  qed
  then have usage: "unat (mj_usage ?mj') = 48 + (\<Sum>x\<leftarrow>xs @ ys. 40 + obj_size (minors s') x)"
    using sum ok unfolding block_ok_def by simp
  have "laid_out (minors s') lo (xs @ ys) hi = laid_out (minors s) lo (xs @ ys) hi" for lo hi
    by (rule laid_out_cong) (rule sizes)
  then have "laid_out (minors s') (unat maj + 48) (xs @ ys) (unat maj + unat (mj_size mj))"
    using laid_out_remove [OF lay] by simp
  moreover have "minor_seg (minors s') (mj_first ?mj') (xs @ ys)"
    unfolding s'_def using unlink_object_seg [OF seg dist] by simp
  moreover have "\<forall>x \<in> set (xs @ ys). live (minors s') maj x"
  proof
    fix x assume x: "x \<in> set (xs @ ys)"
    then have "x \<noteq> n" "live (minors s) maj x"
      using ok new by (auto simp: block_ok_def)
    then show "live (minors s') maj x"
      by (simp add: s'_def unlink_object_minors(2))
  qed
  ultimately have ok': "block_ok (minors s') maj ?mj' (xs @ ys)"
    using ok usage by (simp add: block_ok_def)
  have maj': "majors s' = (majors s)(maj \<mapsto> ?mj')"
    by (simp add: s'_def unlink_object_def)
  have "\<exists>mj. majors s' b = Some mj \<and> block_ok (minors s') b mj ks" if b: "(b, ks) \<in> set (H1 @ H2)" for b ks
  proof -
    have "(b, ks) \<in> set (H1 @ (maj, xs @ n # ys) # H2)"
      using b by auto
    then obtain mjb where mjb: "majors s b = Some mjb" "block_ok (minors s) b mjb ks"
      by (rule heap_inv_block [OF inv])
    have "minors s' k = minors s k" if "k \<in> set ks" for k
      unfolding s'_def using other_block(2) [OF inv b] that by (intro unlink_object_minors(3)) blast
    then have "block_ok (minors s') b mjb ks"
      using mjb(2) block_ok_cong [of ks "minors s'" "minors s"] by simp
    then show ?thesis
      using mjb(1) other_block(1) [OF inv b] by (simp add: maj')
  qed
  moreover have "major_seg (majors s') p bs = major_seg (majors s) p bs" for p bs
    using mj by (intro hseg_cong) (simp add: maj')
  moreover have "blocks_apart (majors s') = blocks_apart (majors s)"
    using mj by (intro blocks_apart_cong) (simp add: maj')
  moreover have "l_memRoot s' = l_memRoot s" "l_bestBet s' = l_bestBet s"
    by (simp_all add: s'_def unlink_object_def)
  ultimately show "heap_inv s' (H1 @ (maj, xs @ ys) # H2)"
    using inv ok' maj' by (fastforce simp: heap_inv_def)
qed

section \<open>Releasing a block\<close>

text \<open>The state in which the pages of an empty block are given back: the block is out of the list.\<close>

definition unlink_block :: "ptr list \<Rightarrow> ptr \<Rightarrow> liballoc_major \<Rightarrow> ptr list \<Rightarrow> liballoc \<Rightarrow> liballoc" where
  "unlink_block as maj mj bs s = s\<lparr>
     majors := (\<lambda>a. if a = maj then None
       else if as \<noteq> [] \<and> a = last as then map_option (\<lambda>v. v\<lparr>mj_next := hd (bs @ [NULL])\<rparr>) (majors s a)
       else if bs \<noteq> [] \<and> a = hd bs then map_option (\<lambda>v. v\<lparr>mj_prev := last (NULL # as)\<rparr>) (majors s a)
       else majors s a),
     l_memRoot := (if l_memRoot s = maj then mj_next mj else l_memRoot s),
     l_bestBet := (if l_bestBet s = maj then NULL else l_bestBet s),
     l_allocated := l_allocated s - ucast (mj_size mj)\<rparr>"

lemma release_block_eq:
  assumes seg: "major_seg (majors s) (l_memRoot s) (as @ maj # bs)" and mj: "majors s maj = Some mj" and dist: "distinct (as @ maj # bs)"
  shows "release_block maj s = liballoc_free (mj_page_list mj) (unlink_block as maj mj bs s)"
proof -
  obtain v where v: "majors s maj = Some v" "mj_prev v = last (NULL # as)" "mj_next v = hd (bs @ [NULL])" "maj \<noteq> NULL"
    using seg by (rule hseg_middle)
  then have l: "mj_prev mj = last (NULL # as)" "mj_next mj = hd (bs @ [NULL])"
    using mj by simp_all
  have defd: "x \<noteq> NULL \<and> (\<exists>w. majors s x = Some w)" if "x \<in> set (as @ maj # bs)" for x
    using hseg_defined [OF seg that] by blast
  let ?s = "\<lambda>ms. s\<lparr>majors := ms, l_memRoot := (if l_memRoot s = maj then mj_next mj else l_memRoot s),
     l_bestBet := (if l_bestBet s = maj then NULL else l_bestBet s), l_allocated := l_allocated s - ucast (mj_size mj)\<rparr>"
  have ub: "unlink_block as maj mj bs s = ?s (majors (unlink_block as maj mj bs s))"
    by (simp add: unlink_block_def)
  have run: "release_block maj s = liballoc_free (mj_page_list mj) (?s ms)" if "ms = majors (unlink_block as maj mj bs s)" for ms
  proof (cases as rule: rev_cases)
    case Nil
    show ?thesis
    proof (cases bs)
      case Nil': Nil
      have "ms = (majors s)(maj := None)"
        using that Nil Nil' by (auto simp: unlink_block_def)
      then show ?thesis
        using mj l Nil Nil' by (auto simp: release_block_def Let_def intro!: arg_cong [where f = "liballoc_free (mj_page_list mj)"] liballoc.equality)
    next
      case (Cons y zs)
      obtain w where w: "majors s y = Some w" "y \<noteq> NULL" "y \<noteq> maj"
        using defd [of y] dist by (auto simp: Cons)
      then have "ms = (majors s)(y \<mapsto> w\<lparr>mj_prev := NULL\<rparr>, maj := None)"
        using that Nil Cons by (auto simp: unlink_block_def)
      then show ?thesis
        using mj l Nil Cons w by (auto simp: release_block_def Let_def update_major_def intro!: arg_cong [where f = "liballoc_free (mj_page_list mj)"] liballoc.equality)
    qed
  next
    case (snoc us x)
    obtain u where u: "majors s x = Some u" "x \<noteq> NULL" "x \<noteq> maj"
      using defd [of x] dist by (auto simp: snoc)
    show ?thesis
    proof (cases bs)
      case Nil
      have "ms = (majors s)(x \<mapsto> u\<lparr>mj_next := NULL\<rparr>, maj := None)"
        using that Nil snoc u by (auto simp: unlink_block_def)
      then show ?thesis
        using mj l Nil snoc u by (auto simp: release_block_def Let_def update_major_def intro!: arg_cong [where f = "liballoc_free (mj_page_list mj)"] liballoc.equality)
    next
      case (Cons y zs)
      obtain w where w: "majors s y = Some w" "y \<noteq> NULL" "y \<noteq> maj" "y \<noteq> x"
        using defd [of y] dist by (auto simp: Cons snoc)
      then have "ms = (majors s)(x \<mapsto> u\<lparr>mj_next := y\<rparr>, y \<mapsto> w\<lparr>mj_prev := x\<rparr>, maj := None)"
        using that snoc Cons u by (auto simp: unlink_block_def)
      then show ?thesis
        using mj l snoc Cons w u by (auto simp: release_block_def Let_def update_major_def intro!: arg_cong [where f = "liballoc_free (mj_page_list mj)"] liballoc.equality)
    qed
  qed
  show ?thesis
    by (subst ub) (rule run [OF refl])
qed

lemma unlink_block_inv:
  assumes inv: "heap_inv s (H1 @ (maj, []) # H2)" and mj: "majors s maj = Some mj"
  defines "s' \<equiv> unlink_block (map fst H1) maj mj (map fst H2) s"
  shows "heap_inv s' (H1 @ H2)" and "release_block maj s = liballoc_free (mj_page_list mj) s'"
proof -
  let ?as = "map fst H1" and ?bs = "map fst H2"
  have seg: "major_seg (majors s) (l_memRoot s) (?as @ maj # ?bs)"
    using inv by (simp add: heap_inv_def)
  have dist: "distinct (?as @ maj # ?bs)"
    using heap_inv_distinct [OF inv] by simp
  show "release_block maj s = liballoc_free (mj_page_list mj) s'"
    unfolding s'_def by (rule release_block_eq [OF seg mj dist])
  obtain v where "majors s maj = Some v" "mj_next v = hd (?bs @ [NULL])"
    using seg by (rule hseg_middle)
  then have nx: "mj_next mj = hd (?bs @ [NULL])"
    using mj by simp
  have root: "l_memRoot s' = (if ?as = [] then hd (?bs @ [NULL]) else l_memRoot s)"
  proof (cases "?as = []")
    case True
    then show ?thesis
      using hseg_start [OF seg] nx by (simp add: s'_def unlink_block_def)
  next
    case False
    then have "l_memRoot s \<noteq> maj"
      using hseg_start [OF seg] dist by (cases H1) auto
    then show ?thesis
      using False by (simp add: s'_def unlink_block_def)
  qed
  have "major_seg (majors s') (l_memRoot s') (?as @ ?bs)"
    unfolding root
    by (rule hseg_unlink [OF seg dist, where sn = "\<lambda>v. v\<lparr>mj_next := hd (?bs @ [NULL])\<rparr>" and sp = "\<lambda>v. v\<lparr>mj_prev := last (NULL # ?as)\<rparr>"])
      (use dist in \<open>auto simp: s'_def unlink_block_def\<close>)
  moreover have mjs: "map_option (\<lambda>v. (mj_size v, mj_usage v, mj_first v)) (majors s' b) =
      map_option (\<lambda>v. (mj_size v, mj_usage v, mj_first v)) (majors s b)" if "b \<noteq> maj" for b
    using that by (auto simp: s'_def unlink_block_def option.map_comp comp_def)
  have "\<exists>v. majors s' b = Some v \<and> block_ok (minors s') b v ks" if b: "(b, ks) \<in> set (H1 @ H2)" for b ks
  proof -
    have "(b, ks) \<in> set (H1 @ (maj, []) # H2)" "b \<noteq> maj"
      using b other_block(1) [OF inv b] by auto
    then obtain w where w: "majors s b = Some w" "block_ok (minors s) b w ks"
      using heap_inv_block [OF inv] by metis
    then obtain v where v: "majors s' b = Some v" "mj_size v = mj_size w" "mj_usage v = mj_usage w" "mj_first v = mj_first w"
      using mjs [OF \<open>b \<noteq> maj\<close>] by auto
    then have "block_ok (minors s') b v ks"
      using w(2) by (simp add: block_ok_def) (simp add: s'_def unlink_block_def)
    then show ?thesis
      using v(1) by blast
  qed
  moreover have "sorted_wrt (blocks_apart (majors s')) (?as @ ?bs)"
  proof (rule sorted_wrt_mono_rel)
    show "sorted_wrt (blocks_apart (majors s)) (?as @ ?bs)"
      using inv by (simp add: heap_inv_def sorted_wrt_append)
    fix x y assume "x \<in> set (?as @ ?bs)" "y \<in> set (?as @ ?bs)" and ap: "blocks_apart (majors s) x y"
    then have "x \<noteq> maj" "y \<noteq> maj"
      using dist by auto
    then show "blocks_apart (majors s') x y"
      using ap mjs [of x] mjs [of y] by (auto simp: blocks_apart_def split: option.splits)
  qed
  moreover have "l_bestBet s' = NULL \<or> l_bestBet s' \<in> set (?as @ ?bs)"
    using inv by (auto simp: heap_inv_def s'_def unlink_block_def)
  ultimately show "heap_inv s' (H1 @ H2)"
    by (fastforce simp: heap_inv_def)
qed

section \<open>Freeing\<close>

text \<open>The object \<open>n\<close> is freed from the block \<open>maj\<close>, which stays in the list.\<close>

lemma heap_ok_unlink:
  assumes ok: "heap_ok s (H1 @ (maj, xs @ n # ys) # H2)" and mj: "majors s maj = Some mj" and v: "minors s n = Some v"
  shows "heap_ok (unlink_object maj mj xs n v ys s) (H1 @ (maj, xs @ ys) # H2)"
proof -
  let ?s' = "unlink_object maj mj xs n v ys s"
  have inv: "heap_inv ?s' (H1 @ (maj, xs @ ys) # H2)"
    using ok mj v by (intro unlink_object_inv) (simp_all add: heap_ok_def)
  have maj': "map_option mj_size (majors ?s' b) = map_option mj_size (majors s b)" and fr: "frames ?s' = frames s" for b
    using mj by (simp_all add: unlink_object_def)
  have "\<exists>w. majors ?s' b = Some w \<and> backed (frames ?s') b (unat (mj_size w))" if "(b, ks) \<in> set (H1 @ (maj, xs @ ys) # H2)" for b ks
  proof -
    have "b \<in> fst ` set (H1 @ (maj, xs @ n # ys) # H2)"
      using that by force
    then obtain w where "majors s b = Some w" "backed (frames s) b (unat (mj_size w))"
      using ok by (fastforce simp: heap_ok_def)
    then show ?thesis
      using maj' [of b] fr by auto
  qed
  then show ?thesis
    using inv ok fr by (fastforce simp: heap_ok_def)
qed

lemma update_best_ok:
  assumes ok: "heap_ok s H" and mem: "maj \<in> set (map fst H)"
  shows "\<exists>b. update_best maj s = Ret (s\<lparr>l_bestBet := b\<rparr>) \<and> heap_ok (s\<lparr>l_bestBet := b\<rparr>) H"
proof (cases "l_bestBet s = NULL")
  case True
  then show ?thesis
    using ok by (intro exI [of _ NULL]) (simp add: update_best_def heap_ok_def heap_inv_def)
next
  case False
  have defd: "\<exists>mj. majors s a = Some mj" if "a \<in> set (map fst H)" for a
    using that ok by (fastforce simp: heap_ok_def)
  obtain mb where mb: "majors s (l_bestBet s) = Some mb"
    using False ok defd by (auto simp: heap_ok_def heap_inv_def)
  obtain mj where mj: "majors s maj = Some mj"
    using defd [OF mem] by blast
  let ?b = "if sint (mj_size mj - mj_usage mj) > sint (mj_size mb - mj_usage mb) then maj else l_bestBet s"
  have "heap_ok (s\<lparr>l_bestBet := ?b\<rparr>) H"
    using ok mem by (auto simp: heap_ok_def heap_inv_def)
  then show ?thesis
    using mb mj False by (intro exI [of _ ?b]) (simp add: update_best_def)
qed

definition freed :: "liballoc \<Rightarrow> ptr \<Rightarrow> liballoc \<Rightarrow> bool" where
  "freed s n s' \<longleftrightarrow> heap_mem s' = heap_mem s \<and> \<not> heap_lock s' \<and> map_option mn_magic (minors s' n) = Some LIBALLOC_DEAD \<and>
     (\<forall>x. x \<noteq> n \<longrightarrow> obj_size (minors s') x = obj_size (minors s) x)"

lemma free_cases:
  assumes ok: "heap_ok s H" and lock: "\<not> heap_lock s" and n: "n \<in> objects H" and p: "UNALIGN p s = n + 40" "p \<noteq> NULL"
  shows "(\<exists>s' H'. free p s = Ret s' \<and> freed s n s' \<and> heap_ok s' H' \<and> objects H' = objects H - {n} \<and> frames s' = frames s \<and>
      (\<forall>b. (b, [n]) \<notin> set H)) \<or>
    (\<exists>maj mj t H1 H2. H = H1 @ (maj, [n]) # H2 \<and> majors s maj = Some mj \<and>
      free p s = obind (liballoc_free (mj_page_list mj) t) (\<lambda>s. Ret (liballoc_unlock s)) \<and> heap_inv t (H1 @ H2) \<and>
      objects (H1 @ H2) = objects H - {n} \<and> frames t = frames s \<and> freed s n (liballoc_unlock t) \<and>
      (\<forall>b. b \<noteq> maj \<longrightarrow> map_option mj_size (majors t b) = map_option mj_size (majors s b)))"
proof -
  let ?s = "s\<lparr>heap_lock := True\<rparr>"
  obtain maj ns where mem: "(maj, ns) \<in> set H" "n \<in> set ns"
    using n by (auto simp: objects_def)
  obtain xs ys where ns: "ns = xs @ n # ys"
    using mem(2) by (meson split_list)
  obtain H1 H2 where H: "H = H1 @ (maj, xs @ n # ys) # H2"
    using mem(1) ns by (metis split_list)
  obtain mj where mj: "majors s maj = Some mj" "block_ok (minors s) maj mj ns"
    using ok mem(1) by (rule heap_ok_block)
  have lv: "live (minors s) maj n" and lay: "laid_out (minors s) (unat maj + 48) (xs @ n # ys) (unat maj + unat (mj_size mj))"
    using mj(2) mem(2) ns by (simp_all add: block_ok_def)
  then obtain v where v: "minors s n = Some v" "mn_magic v = LIBALLOC_MAGIC"
    by (auto simp: live_def split: option.splits)
  have ok': "heap_ok ?s (H1 @ (maj, xs @ n # ys) # H2)"
    using ok H by (simp add: heap_ok_lock)
  let ?u = "unlink_object maj mj xs n v ys ?s"
  have un: "unlink_minor n ?s = Ret (maj, ?u)" and uinv: "heap_inv ?u (H1 @ (maj, xs @ ys) # H2)"
    using unlink_object_inv [of ?s H1 maj xs n ys H2 mj v] ok' mj(1) v(1) by (simp_all add: heap_ok_def)
  have uok: "heap_ok ?u (H1 @ (maj, xs @ ys) # H2)"
    using ok' mj(1) v(1) by (intro heap_ok_unlink) simp_all
  have lk: "liballoc_lock s = Ret ?s"
    using lock by (simp add: liballoc_lock_def)
  have obj: "objects (H1 @ (maj, xs @ ys) # H2) = objects H - {n}"
  proof -
    have inv: "heap_inv s (H1 @ (maj, xs @ n # ys) # H2)"
      using ok H by (simp add: heap_ok_def)
    have "n \<notin> set ks" if "(b, ks) \<in> set (H1 @ H2)" for b ks
      using other_block(2) [OF inv that] by auto
    then show ?thesis
      using laid_out_distinct [OF lay] by (fastforce simp: objects_def H)
  qed
  have fr: "freed s n (liballoc_unlock (?u\<lparr>l_bestBet := b\<rparr>))" for b
    unfolding freed_def using unlink_object_minors(1) [of _ n maj mj xs v ys ?s]
    by (auto simp: liballoc_unlock_def) (auto simp: unlink_object_def)
  obtain mj' where mj': "majors ?u maj = Some mj'" "mj_page_list mj' = mj_page_list mj" "block_ok (minors ?u) maj mj' (xs @ ys)"
  proof -
    obtain w where "majors ?u maj = Some w" "block_ok (minors ?u) maj w (xs @ ys)"
      using uinv by (rule heap_inv_block [of _ _ maj "xs @ ys"]) auto
    then show thesis
      using that by (auto simp: unlink_object_def)
  qed
  have first: "mj_first mj' = NULL \<longleftrightarrow> xs @ ys = []"
  proof -
    have seg: "minor_seg (minors ?u) (mj_first mj') (xs @ ys)"
      using mj'(3) by (simp add: block_ok_def)
    show ?thesis
      using hseg_start [OF seg] hseg_defined [OF seg, of "hd (xs @ ys)"] by (cases "xs @ ys") auto
  qed
  have run: "free p s = obind (if xs @ ys = [] then release_block maj ?u else update_best maj ?u) (\<lambda>s. Ret (liballoc_unlock s))"
    using p lk v mj'(1) un first by (simp add: free_def Let_def)
  show ?thesis
  proof (cases "xs @ ys = []")
    case False
    obtain b where b: "update_best maj ?u = Ret (?u\<lparr>l_bestBet := b\<rparr>)" "heap_ok (?u\<lparr>l_bestBet := b\<rparr>) (H1 @ (maj, xs @ ys) # H2)"
      using update_best_ok [OF uok, of maj] by auto
    have "heap_ok (liballoc_unlock (?u\<lparr>l_bestBet := b\<rparr>)) (H1 @ (maj, xs @ ys) # H2)"
      using b(2) by (simp add: liballoc_unlock_def heap_ok_lock)
    moreover have "free p s = Ret (liballoc_unlock (?u\<lparr>l_bestBet := b\<rparr>))"
      using False b(1) unfolding run by auto
    moreover have "(a, [n]) \<notin> set H" for a
    proof
      assume a: "(a, [n]) \<in> set H"
      have "(a, [n]) \<noteq> (maj, xs @ n # ys)"
        using False by (cases xs) auto
      then have "(a, [n]) \<in> set (H1 @ H2)"
        using a unfolding H by auto
      moreover have "heap_inv s (H1 @ (maj, xs @ n # ys) # H2)"
        using ok H by (simp add: heap_ok_def)
      ultimately show False
        using other_block(2) [of s H1 maj "xs @ n # ys" H2 a "[n]"] by simp
    qed
    moreover have "frames (liballoc_unlock (?u\<lparr>l_bestBet := b\<rparr>)) = frames s"
      by (simp add: liballoc_unlock_def unlink_object_def)
    ultimately show ?thesis
      using obj fr by blast
  next
    case True
    then have e: "xs = []" "ys = []"
      by simp_all
    let ?t = "unlink_block (map fst H1) maj mj' (map fst H2) ?u"
    have inv0: "heap_inv ?u (H1 @ (maj, []) # H2)"
      using uinv e by simp
    have t: "heap_inv ?t (H1 @ H2)" "release_block maj ?u = liballoc_free (mj_page_list mj') ?t"
      using unlink_block_inv [OF inv0 mj'(1)] by simp_all
    have "objects (H1 @ H2) = objects H - {n}"
      using obj e by (simp add: objects_def)
    moreover have "frames ?t = frames s"
      by (simp add: unlink_block_def unlink_object_def)
    moreover have "freed s n (liballoc_unlock ?t)"
      using fr [of NULL] by (simp add: freed_def liballoc_unlock_def unlink_block_def)
    moreover have "H = H1 @ (maj, [n]) # H2"
      using e by (simp add: H)
    moreover have "map_option mj_size (majors ?t b) = map_option mj_size (majors s b)" if "b \<noteq> maj" for b
      using that by (auto simp: unlink_block_def unlink_object_def option.map_comp comp_def)
    ultimately show ?thesis
      using run t e mj(1) mj'(2) by (intro disjI2 exI [of _ maj] exI [of _ mj] exI [of _ ?t] exI [of _ H1] exI [of _ H2]) simp
  qed
qed

lemma free_again:
  assumes "freed s n s'" and "UNALIGN p s = n + 40" "p \<noteq> NULL"
  shows "free p s' = Ret (s'\<lparr>l_errorCount := l_errorCount s' + 1\<rparr>)"
proof -
  obtain v where v: "minors s' n = Some v" "mn_magic v = LIBALLOC_DEAD" and lock: "\<not> heap_lock s'"
    using assms(1) by (auto simp: freed_def)
  have "UNALIGN p s' = n + 40"
    using assms by (simp add: UNALIGN_def freed_def)
  then have "free p s' = Ret (bad_magic LIBALLOC_DEAD (s'\<lparr>heap_lock := True\<rparr>))"
    using v lock assms(3) by (simp add: free_def Let_def liballoc_lock_def)
  also have "bad_magic LIBALLOC_DEAD (s'\<lparr>heap_lock := True\<rparr>) = s'\<lparr>l_errorCount := l_errorCount s' + 1\<rparr>"
    using lock by (simp add: bad_magic_def Let_def liballoc_unlock_def)
  finally show ?thesis .
qed

section \<open>Giving the pages of a block back\<close>

text \<open>The pages the list of a block goes through, up to the one whose \<^verbatim>\<open>next\<close> is null.\<close>

fun page_walk :: "pmm \<Rightarrow> ptr \<Rightarrow> ptr list \<Rightarrow> bool" where
  "page_walk fs x [] \<longleftrightarrow> False"
| "page_walk fs x (c # cs) \<longleftrightarrow> x = c \<and> (case pm_pages fs c of None \<Rightarrow> False | Some pg \<Rightarrow>
     if cs = [] then pg_next pg = NULL else pg_next pg \<noteq> NULL \<and> page_walk fs (pg_next pg) cs)"

lemma page_walk_cong:
  "(\<And>c. c \<in> set cs \<Longrightarrow> map_option pg_next (pm_pages fs c) = map_option pg_next (pm_pages fs' c)) \<Longrightarrow>
    page_walk fs x cs = page_walk fs' x cs"
proof (induction cs arbitrary: x)
  case (Cons c cs)
  have "map_option pg_next (pm_pages fs c) = map_option pg_next (pm_pages fs' c)"
    by (rule Cons.prems) simp
  moreover have "page_walk fs y cs = page_walk fs' y cs" for y
    by (rule Cons.IH) (rule Cons.prems, simp)
  ultimately show ?case
    by (cases "pm_pages fs c"; cases "pm_pages fs' c") auto
qed simp

lemma pmm_free_page_next:
  "pmm_free_page a fs = Ret fs' \<Longrightarrow> c \<noteq> a \<Longrightarrow> map_option pg_next (pm_pages fs' c) = map_option pg_next (pm_pages fs c)"
  by (auto simp: pmm_free_page_def pmm_free_list_push_def update_page_def Let_def outcome_simps split: if_splits)

text \<open>Going on from a page that is free already only changes the count of used bytes.\<close>

lemma pmm_free_page_of_free:
  assumes "page_core (pm_pages fs) a = Some (x, PAGE_STATE_FREE)"
  shows "pmm_free_page a fs = Ret (fs\<lparr>memory_used := memory_used fs - PAGE_SIZE\<rparr>)"
proof -
  obtain pg where pg: "pm_pages fs a = Some pg" "pg_state pg = PAGE_STATE_FREE"
    using page_core_SomeD [OF assms] by blast
  then have "(pm_pages fs)(a \<mapsto> pg\<lparr>pg_state := PAGE_STATE_FREE\<rparr>) = pm_pages fs"
    by (cases pg) (simp add: fun_upd_idem)
  then show ?thesis
    using pg by (simp add: pmm_free_page_def update_page_def Let_def)
qed

definition core_freed :: "ptr set \<Rightarrow> pmm \<Rightarrow> pmm \<Rightarrow> bool" where
  "core_freed A fs fs' \<longleftrightarrow> region_pages fs' = region_pages fs \<and>
     (\<forall>a. page_core (pm_pages fs') a =
        (if a \<in> A then map_option (\<lambda>(x, _). (x, PAGE_STATE_FREE)) (page_core (pm_pages fs) a) else page_core (pm_pages fs) a))"

definition in_use_or_free :: "pmm \<Rightarrow> ptr \<Rightarrow> bool" where
  "in_use_or_free fs c \<longleftrightarrow> page_in_use fs c \<or> (\<exists>a. page_core (pm_pages fs) c = Some (a, PAGE_STATE_FREE))"

lemma free_pages_walk:
  assumes "pmm_inv fs ps" "page_walk fs x cs" "distinct cs" "\<forall>c \<in> set cs. in_use_or_free fs c"
  shows "\<exists>fs' ps'. free_pages_loop x fs = Some (Ret fs') \<and> pmm_inv fs' ps' \<and> core_freed (set (butlast cs)) fs fs'"
  using assms
proof (induction cs arbitrary: fs ps x)
  case (Cons c cs)
  obtain pg where pg: "x = c" "pm_pages fs c = Some pg"
    using Cons.prems(2) by (auto split: option.splits)
  show ?case
  proof (cases "cs = []")
    case True
    then have "free_pages_loop x fs = Some (Ret fs)"
      using Cons.prems(2) pg by (subst free_pages_loop.simps) simp
    then show ?thesis
      using Cons.prems(1) True by (intro exI [of _ fs] exI [of _ ps]) (simp add: core_freed_def)
  next
    case False
    have nx: "pg_next pg \<noteq> NULL" "page_walk fs (pg_next pg) cs"
      using Cons.prems(2) pg False by simp_all
    have "\<exists>fs1 ps1. pmm_free_page c fs = Ret fs1 \<and> pmm_inv fs1 ps1 \<and> core_freed {c} fs fs1"
    proof (cases "page_in_use fs c")
      case True
      then obtain a where a: "c \<in> set (region_pages fs)" "page_core (pm_pages fs) c = Some (a, PAGE_STATE_USED)"
        by (auto simp: page_in_use_iff)
      then obtain fs1 where fs1: "pmm_free_page c fs = Ret fs1" "pmm_inv fs1 (c # ps)"
          "page_core (pm_pages fs1) = (page_core (pm_pages fs))(c \<mapsto> (a, PAGE_STATE_FREE))" "regions_array fs1 = regions_array fs"
        using pmm_free_page_refine [OF Cons.prems(1)] by blast
      then have "core_freed {c} fs fs1"
        using pmm_inv_pages_of_regions [OF Cons.prems(1) fs1(4)] a(2) by (simp add: core_freed_def)
      then show ?thesis
        using fs1(1,2) by blast
    next
      case no: False
      then obtain a where a: "page_core (pm_pages fs) c = Some (a, PAGE_STATE_FREE)"
        using Cons.prems(4) by (auto simp: in_use_or_free_def)
      have "pmm_inv (fs\<lparr>memory_used := m\<rparr>) ps" for m
        using Cons.prems(1) by (simp add: pmm_inv_def free_rep_def region_pages_def available_def)
      then show ?thesis
        using pmm_free_page_of_free [OF a] a
        by (intro exI [of _ "fs\<lparr>memory_used := memory_used fs - PAGE_SIZE\<rparr>"] exI [of _ ps])
          (simp add: core_freed_def region_pages_def available_def)
    qed
    then obtain fs1 ps1 where fs1: "pmm_free_page c fs = Ret fs1" "pmm_inv fs1 ps1" "core_freed {c} fs fs1"
      by blast
    have c: "c \<notin> set cs" "distinct cs"
      using Cons.prems(3) by simp_all
    have "page_walk fs1 (pg_next pg) cs"
      using nx(2) page_walk_cong [of cs fs1 fs] pmm_free_page_next [OF fs1(1)] c(1) by metis
    moreover have "\<forall>d \<in> set cs. in_use_or_free fs1 d"
      using Cons.prems(4) c(1) fs1(3) by (auto simp: in_use_or_free_def page_in_use_iff core_freed_def)
    ultimately obtain fs' ps' where fs': "free_pages_loop (pg_next pg) fs1 = Some (Ret fs')" "pmm_inv fs' ps'"
        "core_freed (set (butlast cs)) fs1 fs'"
      using Cons.IH [OF fs1(2) _ c(2)] by blast
    have "free_pages_loop x fs = Some (Ret fs')"
      using pg nx(1) fs1(1) fs'(1) by (subst free_pages_loop.simps) simp
    moreover have "core_freed (set (butlast (c # cs))) fs fs'"
      using fs1(3) fs'(3) False by (auto simp: core_freed_def option.map_comp comp_def case_prod_unfold)
    ultimately show ?thesis
      using fs'(2) by blast
  qed
qed simp

text \<open>
  The pages that are gone through when the object \<open>n\<close> is freed: none while its block holds other objects, else the list
  of the block, if the pages of that list that are in use are the block's own. It may run on into pages that are free.
\<close>

definition block_walk :: "liballoc \<Rightarrow> ptr \<Rightarrow> liballoc_major \<Rightarrow> ptr list \<Rightarrow> bool" where
  "block_walk s maj mj cs \<longleftrightarrow> page_walk (frames s) (mj_page_list mj) cs \<and> distinct cs \<and>
     (\<forall>c \<in> set cs. in_use_or_free (frames s) c) \<and>
     (\<forall>c \<in> set cs. \<forall>a. page_core (pm_pages (frames s)) c = Some (a, PAGE_STATE_USED) \<longrightarrow>
        unat maj \<le> unat (p_addr_to_physical_map a) \<and> unat (p_addr_to_physical_map a) < unat maj + unat (mj_size mj))"

definition gives_back :: "liballoc \<Rightarrow> (ptr \<times> ptr list) list \<Rightarrow> ptr \<Rightarrow> ptr list \<Rightarrow> bool" where
  "gives_back s H n cs \<longleftrightarrow> (\<exists>maj ns mj. (maj, ns) \<in> set H \<and> n \<in> set ns \<and> majors s maj = Some mj \<and>
     (if ns = [n] then block_walk s maj mj cs else cs = []))"

lemma core_freed_in_use: "core_freed A fs fs' \<Longrightarrow> page_in_use fs' a \<longleftrightarrow> page_in_use fs a \<and> a \<notin> A"
  by (auto simp: core_freed_def page_in_use_iff)

lemma core_freed_frames_ok:
  assumes fs: "frames_ok fs" "core_freed A fs fs'" "pmm_inv fs' ps'" and A: "\<And>c. c \<in> A \<Longrightarrow> in_use_or_free fs c"
  shows "frames_ok fs'"
proof -
  have "managed fs' c a \<longleftrightarrow> managed fs c a" for c a
    using fs(2) A [of c] by (cases "c \<in> A") (auto simp: managed_def core_freed_def in_use_or_free_def page_in_use_iff)
  then show ?thesis
    using fs(1,3) by (auto simp: frames_ok_def)
qed

lemma block_walk_keeps:
  assumes walk: "block_walk s maj mj cs" and fr: "core_freed (set (butlast cs)) (frames s) fs'"
    and ap: "unat maj + unat (mj_size mj) \<le> unat b \<or> unat b + m \<le> unat maj" and bk: "backed (frames s) b m"
  shows "backed fs' b m"
  unfolding backed_def
proof (intro conjI allI impI)
  fix k assume k: "k < m div 4096"
  then obtain x a where x: "page_core (pm_pages (frames s)) x = Some (a, PAGE_STATE_USED)" "unat (p_addr_to_physical_map a) = unat b + 4096 * k"
    using bk by (auto simp: backed_def)
  have "m = 4096 * (m div 4096)"
    using bk by (simp add: backed_def)
  then have "4096 * k < m"
    using k by linarith
  then have "x \<notin> set cs"
    using walk x ap by (fastforce simp: block_walk_def)
  then have "x \<notin> set (butlast cs)"
    by (auto dest: in_set_butlastD)
  then show "\<exists>x a. page_core (pm_pages fs') x = Some (a, PAGE_STATE_USED) \<and> unat (p_addr_to_physical_map a) = unat b + 4096 * k"
    using x fr by (auto simp: core_freed_def)
qed (use bk in \<open>simp_all add: backed_def\<close>)

lemma free_gives_back:
  assumes ok: "heap_ok s H" and lock: "\<not> heap_lock s" and gb: "gives_back s H n cs" and p: "UNALIGN p s = n + 40" "p \<noteq> NULL"
  shows "\<exists>s' H'. free p s = Ret s' \<and> heap_ok s' H' \<and> objects H' = objects H - {n} \<and> freed s n s' \<and>
    (\<forall>a. page_in_use (frames s') a \<longleftrightarrow> page_in_use (frames s) a \<and> a \<notin> set (butlast cs))"
proof -
  have n: "n \<in> objects H"
    using gb by (auto simp: gives_back_def objects_def)
  from free_cases [OF ok lock n p] show ?thesis
  proof (elim disjE exE conjE)
    fix s' H' assume a: "free p s = Ret s'" "freed s n s'" "heap_ok s' H'" "objects H' = objects H - {n}" "frames s' = frames s"
      "\<forall>b. (b, [n]) \<notin> set H"
    then have "cs = []"
      using gb by (auto simp: gives_back_def split: if_splits)
    then show ?thesis
      using a by auto
  next
    fix maj mj t H1 H2
    assume H: "H = H1 @ (maj, [n]) # H2" and mj: "majors s maj = Some mj"
      and run: "free p s = obind (liballoc_free (mj_page_list mj) t) (\<lambda>s. Ret (liballoc_unlock s))"
      and t: "heap_inv t (H1 @ H2)" "objects (H1 @ H2) = objects H - {n}" "frames t = frames s" "freed s n (liballoc_unlock t)"
      and sizes: "\<forall>b. b \<noteq> maj \<longrightarrow> map_option mj_size (majors t b) = map_option mj_size (majors s b)"
    have inv: "heap_inv s (H1 @ (maj, [n]) # H2)" and fok: "frames_ok (frames s)"
      using ok H by (simp_all add: heap_ok_def)
    have walk: "block_walk s maj mj cs"
    proof -
      obtain b ns mj' where b: "(b, ns) \<in> set H" "n \<in> set ns" "majors s b = Some mj'" "if ns = [n] then block_walk s b mj' cs else cs = []"
        using gb by (auto simp: gives_back_def)
      have "(b, ns) = (maj, [n])"
        using b(1,2) other_block(2) [OF inv, of b ns] by (auto simp: H)
      then show ?thesis
        using b(3,4) mj by simp
    qed
    obtain ps where "pmm_inv (frames s) ps"
      using fok by (auto simp: frames_ok_def)
    then obtain fs' ps' where fs': "free_pages_loop (mj_page_list mj) (frames s) = Some (Ret fs')" "pmm_inv fs' ps'"
        "core_freed (set (butlast cs)) (frames s) fs'"
      using walk free_pages_walk [of "frames s" ps "mj_page_list mj" cs] by (auto simp: block_walk_def)
    let ?s = "liballoc_unlock (t\<lparr>frames := fs'\<rparr>)"
    have "frames_ok fs'"
      using walk fs'(2,3) by (intro core_freed_frames_ok [OF fok fs'(3,2)]) (auto simp: block_walk_def dest: in_set_butlastD)
    moreover have "\<exists>v. majors t b = Some v \<and> backed fs' b (unat (mj_size v))" if b: "(b, ks) \<in> set (H1 @ H2)" for b ks
    proof -
      have b': "(b, ks) \<in> set H" "b \<noteq> maj"
        using b other_block(1) [OF inv b] by (auto simp: H)
      obtain w where w: "majors s b = Some w" "backed (frames s) b (unat (mj_size w))"
        using ok b'(1) by (rule heap_ok_block)
      have "sorted_wrt (blocks_apart (majors s)) (map fst H1 @ maj # map fst H2)"
        using inv by (simp add: heap_inv_def)
      moreover have "b \<in> set (map fst H1 @ map fst H2)"
        using b by force
      ultimately have "blocks_apart (majors s) maj b"
        by (rule sorted_wrt_apart)
      then have "backed fs' b (unat (mj_size w))"
        using w mj by (intro block_walk_keeps [OF walk fs'(3)]) (auto simp: blocks_apart_def)
      then show ?thesis
        using sizes b'(2) w(1) by (metis option.map_disc_iff option.map_sel option.sel option.exhaust_sel option.distinct(1))
    qed
    moreover have "heap_inv ?s (H1 @ H2)"
      using t(1) by (simp add: heap_inv_def liballoc_unlock_def)
    ultimately have "heap_ok ?s (H1 @ H2)"
      by (auto simp: heap_ok_def liballoc_unlock_def)
    moreover have "free p s = Ret ?s"
      using run t(3) fs'(1) by (simp add: liballoc_free_def)
    moreover have "freed s n ?s" "frames ?s = fs'"
      using t(4) by (simp_all add: freed_def liballoc_unlock_def)
    moreover have "page_in_use fs' a \<longleftrightarrow> page_in_use (frames s) a \<and> a \<notin> set (butlast cs)" for a
      by (rule core_freed_in_use [OF fs'(3)])
    ultimately show ?thesis
      using t(2) by (intro exI [of _ ?s] exI [of _ "H1 @ H2"] conjI) simp_all
  qed
qed

section \<open>Copying and reallocating\<close>

lemma write_bytes_at:
  "length bs < 2 ^ 64 \<Longrightarrow> write_bytes a bs m x = (if unat (x - a) < length bs then bs ! unat (x - a) else m x)"
proof (induction bs arbitrary: a m)
  case (Cons b bs)
  have "unat (x - a) = (if x = a then 0 else Suc (unat (x - (a + 1))))"
  proof (cases "x = a")
    case False
    then have "x - a \<noteq> 0" by simp
    then have "unat (x - a - 1) = unat (x - a) - 1" "0 < unat (x - a)"
      by (simp_all add: unat_minus_one unat_gt_0)
    moreover have "x - (a + 1) = x - a - 1" by simp
    ultimately show ?thesis
      using False by (simp del: diff_diff_eq add: diff_diff_eq [symmetric])
  qed simp
  then show ?case
    using Cons by (auto simp: unsigned_minus_1_eq_mask mask_eq_exp_minus_1)
qed simp

text \<open>Two ranges of \<open>n\<close> bytes that neither overlap nor wrap around.\<close>

definition ranges_apart :: "ptr \<Rightarrow> ptr \<Rightarrow> nat \<Rightarrow> bool" where
  "ranges_apart a b n \<longleftrightarrow> unat a + n < 2 ^ 64 \<and> unat b + n < 2 ^ 64 \<and> (unat a + n \<le> unat b \<or> unat b + n \<le> unat a)"

lemma unat_offset: "unat (x - a) < n \<longleftrightarrow> unat a \<le> unat x \<and> unat x < unat a + n" if "unat (a :: u64) + n < 2 ^ 64"
  using that unat_u64_less [of x] by (auto simp: unat_sub_if')

lemma copy_words_apply:
  assumes "ranges_apart dest src n"
  shows "copy_words dest src n m x = (if unat (x - dest) < n then m (src + (x - dest)) else m x)"
  using assms
proof (induction n arbitrary: dest src m rule: less_induct)
  case (less n)
  show ?case
  proof (cases "4 \<le> n")
    case True
    let ?m = "write_bytes dest (read_bytes src 4 m) m"
    have d: "unat (dest + 4) = unat dest + 4" "unat (src + 4) = unat src + 4"
      using less.prems True by (simp_all add: ranges_apart_def unat_add_small)
    then have ap: "ranges_apart (dest + 4) (src + 4) (n - 4)"
      using less.prems True by (auto simp: ranges_apart_def)
    have bound: "unat (dest + 4) + (n - 4) < 2 ^ 64" "unat dest + 4 < 2 ^ 64" "unat dest + n < 2 ^ 64"
      using less.prems d True by (auto simp: ranges_apart_def)
    note off = unat_offset [OF bound(1)] unat_offset [OF bound(2)] unat_offset [OF bound(3)]
    have m1: "?m y = (if unat (y - dest) < 4 then m (src + (y - dest)) else m y)" for y
      by (simp add: write_bytes_at read_bytes_def)
    have src: "?m (src + (x - dest)) = m (src + (x - dest))" if "unat (x - dest) < n"
    proof -
      have "unat (src + (x - dest)) = unat src + unat (x - dest)"
        using that less.prems by (intro unat_add_small) (simp add: ranges_apart_def)
      then have "\<not> unat (src + (x - dest) - dest) < 4"
        using that less.prems True unfolding off(2) by (auto simp: ranges_apart_def)
      then show ?thesis
        by (simp add: m1)
    qed
    have "copy_words dest src n m x = copy_words (dest + 4) (src + 4) (n - 4) ?m x"
      using True by (subst copy_words.simps) simp
    also have "\<dots> = (if unat (x - (dest + 4)) < n - 4 then ?m (src + 4 + (x - (dest + 4))) else ?m x)"
      using True ap by (intro less.IH) simp_all
    also have "src + 4 + (x - (dest + 4)) = src + (x - dest)"
      by simp
    also have "(if unat (x - (dest + 4)) < n - 4 then ?m (src + (x - dest)) else ?m x) =
        (if unat (x - dest) < n then m (src + (x - dest)) else m x)"
      using src m1 [of x] d True unfolding off by auto
    finally show ?thesis .
  next
    case False
    then have n: "unat (of_nat n :: u64) = n"
      by (simp add: unat_of_nat_u64)
    have "copyable dest src (of_nat n)"
    proof -
      have "n \<le> unat (dest - src)"
        using less.prems False unat_offset [of src n dest] by (auto simp: ranges_apart_def not_less)
      then show ?thesis
        by (simp add: copyable_def word_le_nat_alt n)
    qed
    moreover have "copy_words dest src n m = memcpy dest src (of_nat n) m"
      using False by (subst copy_words.simps) (simp add: memcpy_def n)
    ultimately show ?thesis
      by (simp add: memcpy_apply n)
  qed
qed

text \<open>A pointer the heap gave out for the object \<open>n\<close>.\<close>

definition points_to :: "liballoc \<Rightarrow> ptr \<Rightarrow> ptr \<Rightarrow> nat \<Rightarrow> bool" where
  "points_to s p n k \<longleftrightarrow> UNALIGN p s = n + 40 \<and> unat n + 56 \<le> unat p \<and> unat p + k \<le> unat n + 40 + obj_size (minors s) n"

lemma heap_ok_mem: "heap_ok (s\<lparr>heap_mem := m\<rparr>) H = heap_ok s H"
  by (simp add: heap_ok_def heap_inv_def)

lemma realloc_grow:
  assumes ok: "heap_ok s H" and lock: "\<not> heap_lock s" and n: "n \<in> objects H" "minors s n = Some v"
    and p: "points_to s p n (unat (mn_req_size v))" and sz: "unat (mn_req_size v) < unat sz" "unat sz < 2 ^ 31"
  shows "(realloc p sz s = Panic \<and> malloc sz s = Panic \<and> no_frames (sz + 32) (frames s)) \<or>
    (\<exists>q k t H' u. allocated s H sz q k t H' \<and> realloc p sz s = obind (free p u) (\<lambda>s. Ret (q, s)) \<and>
      u = t\<lparr>heap_mem := heap_mem u\<rparr> \<and> heap_ok u H' \<and> \<not> heap_lock u \<and> n \<in> objects H' \<and> UNALIGN p u = n + 40 \<and>
      UNALIGN q u = k + 40 \<and> (\<forall>i < unat (mn_req_size v). heap_mem u (q + of_nat i) = heap_mem s (p + of_nat i)) \<and>
      (\<forall>a. heap_mem u a \<noteq> heap_mem s a \<longrightarrow> unat k + 40 \<le> unat a \<and> unat a < unat k + 40 + obj_size (minors t) k))"
proof -
  have inv: "heap_inv s H"
    using ok by (simp add: heap_ok_def)
  have un: "UNALIGN p s = n + 40" and lo: "unat n + 56 \<le> unat p" and hi: "unat p + unat (mn_req_size v) \<le> unat n + 40 + obj_size (minors s) n"
    using p by (simp_all add: points_to_def)
  have pn: "p \<noteq> NULL" "sz \<noteq> 0"
    using lo sz by auto
  obtain maj ns where mem: "(maj, ns) \<in> set H" "n \<in> set ns"
    using n(1) by (auto simp: objects_def)
  then obtain mj where bk: "block_ok (minors s) maj mj ns"
    using inv heap_inv_block by metis
  then have top: "unat n + 40 + obj_size (minors s) n < 2 ^ 64"
    using block_ok_within(2) [OF bk mem(2)] by (simp add: block_ok_def)
  have "live (minors s) maj n"
    using mem(2) bk by (simp add: block_ok_def)
  then have magic: "mn_magic v = LIBALLOC_MAGIC"
    using n(2) by (simp add: live_def)
  have ru: "realloc p sz s = obind (malloc sz s) (\<lambda>(new, t). if new = NULL then Fault else
      obind (free p (liballoc_memcpy new p (ucast (mn_req_size v)) t)) (\<lambda>s. Ret (new, s)))"
  proof -
    have "\<not> sz \<le> ucast (mn_req_size v)"
      using sz(1) by (simp add: word_le_nat_alt)
    moreover have "liballoc_unlock (s\<lparr>heap_lock := True\<rparr>) = s"
      using lock by (simp add: liballoc_unlock_def)
    ultimately show ?thesis
      using pn lock n(2) magic un by (simp add: realloc_def Let_def liballoc_lock_def)
  qed
  from malloc_cases [OF ok lock sz(2)] show ?thesis
  proof (elim disjE exE conjE)
    fix q t k H'
    assume mal: "malloc sz s = Ret (q, t)" and al: "allocated s H sz q k t H'"
    note a = al [unfolded allocated_def]
    have q0: "q \<noteq> NULL"
      using a by auto
    have kn: "k \<noteq> n" and n': "n \<in> objects H'" "obj_size (minors t) n = obj_size (minors s) n"
      using a n(1) by auto
    have ap: "unat n + 40 + obj_size (minors s) n \<le> unat k \<or> unat k + 40 + obj_size (minors t) k \<le> unat n"
      using objects_apart [of t H' n k] a n' kn by (auto simp: heap_ok_def)
    define m where "m = copy_words q p (unat (mn_req_size v)) (heap_mem t)"
    let ?u = "t\<lparr>heap_mem := m\<rparr>"
    have ra: "ranges_apart q p (unat (mn_req_size v))"
      using a ap lo hi sz(1) top unfolding ranges_apart_def by auto
    have mval: "m x = (if unat (x - q) < unat (mn_req_size v) then heap_mem t (p + (x - q)) else heap_mem t x)" for x
      unfolding m_def by (rule copy_words_apply [OF ra])
    have same: "heap_mem t x = heap_mem s x" if "unat n + 40 \<le> unat x" "unat x < unat n + 40 + obj_size (minors s) n" for x
      using a ap that sz(1) by fastforce
    have p16: "unat (p - 16) = unat p - 16"
      using lo by (simp add: unat_sub word_le_nat_alt)
    have "unat p - 16 < unat n + 40 + obj_size (minors s) n"
      using lo hi by linarith
    then have keep: "m (p - 16) = heap_mem s (p - 16)"
    proof -
      have "\<not> unat (p - 16 - q) < unat (mn_req_size v)"
        using ap a lo hi p16 sz(1) unat_offset [of q "unat (mn_req_size v)" "p - 16"] ra by (auto simp: ranges_apart_def)
      then show ?thesis
        using same [of "p - 16"] p16 lo \<open>unat p - 16 < _\<close> by (simp add: mval)
    qed
    have contents: "m (q + of_nat i) = heap_mem s (p + of_nat i)" if i: "i < unat (mn_req_size v)" for i
    proof -
      have ui: "unat (of_nat i :: u64) = i"
        using i unat_u32_less [of "mn_req_size v"] by (simp add: unat_of_nat_u64)
      have "unat (p + of_nat i) = unat p + i"
        using ra i ui by (subst unat_add_small) (simp_all add: ranges_apart_def)
      then have "heap_mem t (p + of_nat i) = heap_mem s (p + of_nat i)"
        using lo hi i by (intro same) linarith+
      then show ?thesis
        using i ui by (simp add: mval)
    qed
    have re: "realloc p sz s = obind (free p ?u) (\<lambda>s. Ret (q, s))"
      using q0 by (simp add: ru mal liballoc_memcpy_def m_def)
    have un': "UNALIGN p ?u = n + 40"
      using un keep by (simp add: UNALIGN_def)
    have q: "unat k + 56 \<le> unat q" "unat q + unat sz \<le> unat k + 40 + obj_size (minors t) k" "UNALIGN q t = k + 40"
      using a by simp_all
    then have "unat (q - 16) = unat q - 16"
      by (simp add: unat_sub word_le_nat_alt)
    then have "\<not> unat (q - 16 - q) < unat (mn_req_size v)"
      using q(1) unat_offset [of q "unat (mn_req_size v)" "q - 16"] ra by (auto simp: ranges_apart_def)
    then have unq: "UNALIGN q ?u = k + 40"
      using q(3) mval [of "q - 16"] by (simp add: UNALIGN_def)
    have far: "unat k + 40 \<le> unat x \<and> unat x < unat k + 40 + obj_size (minors t) k" if x: "m x \<noteq> heap_mem s x" for x
    proof (cases "unat (x - q) < unat (mn_req_size v)")
      case True
      then show ?thesis
        using q(1,2) sz(1) unat_offset [of q "unat (mn_req_size v)" x] ra by (auto simp: ranges_apart_def)
    next
      case False
      then have "heap_mem t x \<noteq> heap_mem s x"
        using x by (simp add: mval)
      then show ?thesis
        using a q by fastforce
    qed
    show ?thesis
      using al re n' contents a un' unq far
      by (intro disjI2 exI [of _ q] exI [of _ k] exI [of _ t] exI [of _ H'] exI [of _ ?u]) (simp add: heap_ok_mem)
  qed (simp add: ru)
qed

text \<open>An object that shares its block still does after another one was allocated.\<close>

lemma allocated_shares:
  assumes al: "allocated s H req q k t H'" and ok: "heap_ok s H" and sh: "(maj, ns) \<in> set H" "n \<in> set ns" "ns \<noteq> [n]"
  shows "gives_back t H' n []"
proof -
  note a = al [unfolded allocated_def]
  obtain mj where mj: "majors s maj = Some mj" "block_ok (minors s) maj mj ns"
    using ok sh(1) by (rule heap_ok_block)
  have "distinct ns"
    using mj(2) laid_out_distinct by (auto simp: block_ok_def)
  then obtain y where y: "y \<in> set ns" "y \<noteq> n"
    using sh(2,3) by (cases ns; cases "tl ns") auto
  have own: "map_option mn_block (minors t x) = Some maj" if "x \<in> set ns" for x
  proof -
    have "map_option mn_block (minors s x) = Some maj"
      using mj(2) that by (auto simp: block_ok_def live_def split: option.splits)
    moreover have "x \<in> objects H"
      using that sh(1) by (auto simp: objects_def)
    ultimately show ?thesis
      using a by simp
  qed
  have in_block: "\<exists>ms. (maj, ms) \<in> set H' \<and> x \<in> set ms" if x: "x \<in> set ns" for x
  proof -
    have "x \<in> objects H"
      using x sh(1) by (auto simp: objects_def)
    then have "x \<in> objects H'"
      using a by simp
    then obtain b ms where b: "(b, ms) \<in> set H'" "x \<in> set ms"
      by (auto simp: objects_def)
    then obtain mjb where "block_ok (minors t) b mjb ms"
      using a by (auto elim: heap_ok_block)
    then have "map_option mn_block (minors t x) = Some b"
      using b(2) by (auto simp: block_ok_def live_def split: option.splits)
    then show ?thesis
      using own [OF x] b by auto
  qed
  obtain ms where ms: "(maj, ms) \<in> set H'" "n \<in> set ms"
    using in_block [OF sh(2)] by blast
  obtain ks where ks: "(maj, ks) \<in> set H'" "y \<in> set ks"
    using in_block [OF y(1)] by blast
  have "heap_inv t H'"
    using a by (simp add: heap_ok_def)
  then have "ms = ks"
    using heap_inv_distinct ms(1) ks(1) eq_key_imp_eq_value by metis
  then have "ms \<noteq> [n]"
    using ks(2) y(2) by auto
  moreover obtain mjt where "majors t maj = Some mjt"
    using a ms(1) by (auto elim: heap_ok_block)
  ultimately show ?thesis
    using ms unfolding gives_back_def by auto
qed

lemma gives_back_mem: "gives_back (s\<lparr>heap_mem := m\<rparr>) H n cs = gives_back s H n cs"
  by (simp add: gives_back_def block_walk_def)

lemma realloc_shared:
  assumes ok: "heap_ok s H" and lock: "\<not> heap_lock s" and n: "(maj, ns) \<in> set H" "n \<in> set ns" "ns \<noteq> [n]" "minors s n = Some v"
    and p: "points_to s p n (unat (mn_req_size v))" and sz: "unat (mn_req_size v) < unat sz" "unat sz < 2 ^ 31"
  shows "(realloc p sz s = Panic \<and> malloc sz s = Panic \<and> no_frames (sz + 32) (frames s)) \<or>
    (\<exists>q s' k H'. realloc p sz s = Ret (q, s') \<and> heap_ok s' H' \<and> k \<notin> objects H \<and> objects H' = insert k (objects H - {n}) \<and>
      \<not> heap_lock s' \<and> 16 dvd unat q \<and> points_to s' q k (unat sz) \<and> map_option mn_magic (minors s' n) = Some LIBALLOC_DEAD \<and>
      (\<forall>i < unat (mn_req_size v). heap_mem s' (q + of_nat i) = heap_mem s (p + of_nat i)) \<and>
      (\<forall>x \<in> objects H - {n}. obj_size (minors s') x = obj_size (minors s) x \<and>
         (\<forall>a. unat x \<le> unat a \<longrightarrow> unat a < unat x + 40 + obj_size (minors s) x \<longrightarrow> heap_mem s' a = heap_mem s a)))"
proof -
  have mem: "n \<in> objects H"
    using n by (auto simp: objects_def)
  have p0: "p \<noteq> NULL"
    using p by (auto simp: points_to_def)
  from realloc_grow [OF ok lock mem n(4) p sz] show ?thesis
  proof (elim disjE exE conjE)
    fix q k t H' u
    assume al: "allocated s H sz q k t H'" and run: "realloc p sz s = obind (free p u) (\<lambda>s. Ret (q, s))" and u: "u = t\<lparr>heap_mem := heap_mem u\<rparr>"
      and uok: "heap_ok u H'" "\<not> heap_lock u" and un: "UNALIGN p u = n + 40" "UNALIGN q u = k + 40"
      and contents: "\<forall>i < unat (mn_req_size v). heap_mem u (q + of_nat i) = heap_mem s (p + of_nat i)"
      and far: "\<forall>a. heap_mem u a \<noteq> heap_mem s a \<longrightarrow> unat k + 40 \<le> unat a \<and> unat a < unat k + 40 + obj_size (minors t) k"
    note a = al [unfolded allocated_def]
    have "gives_back u H' n []"
      using allocated_shares [OF al ok n(1-3)] by (subst u) (simp only: gives_back_mem)
    then obtain s' H'' where s': "free p u = Ret s'" "heap_ok s' H''" "objects H'' = objects H' - {n}" "freed u n s'"
      using free_gives_back [OF uok _ un(1) p0] by blast
    have minors: "minors u = minors t"
      by (subst u) simp
    have fr: "heap_mem s' = heap_mem u" "\<not> heap_lock s'" "map_option mn_magic (minors s' n) = Some LIBALLOC_DEAD"
      "\<And>x. x \<noteq> n \<Longrightarrow> obj_size (minors s') x = obj_size (minors t) x"
      using s'(4) minors by (simp_all add: freed_def)
    have k: "k \<notin> objects H" "k \<noteq> n" "objects H'' = insert k (objects H - {n})"
      using a mem s'(3) by auto
    have "points_to s' q k (unat sz)"
      using a un(2) fr(1) fr(4) [OF k(2)] by (simp add: points_to_def UNALIGN_def)
    moreover have "obj_size (minors s') x = obj_size (minors s) x \<and>
         (\<forall>b. unat x \<le> unat b \<longrightarrow> unat b < unat x + 40 + obj_size (minors s) x \<longrightarrow> heap_mem s' b = heap_mem s b)"
      if x: "x \<in> objects H - {n}" for x
    proof -
      have size: "obj_size (minors t) x = obj_size (minors s) x" "x \<in> objects H'" "k \<in> objects H'" "x \<noteq> k"
        using a x k(1) by auto
      have ap: "unat x + 40 + obj_size (minors t) x \<le> unat k \<or> unat k + 40 + obj_size (minors t) k \<le> unat x"
        using objects_apart [of t H' x k] a size by (simp add: heap_ok_def)
      have "heap_mem s' b = heap_mem s b" if "unat x \<le> unat b" "unat b < unat x + 40 + obj_size (minors s) x" for b
      proof (rule ccontr)
        assume "heap_mem s' b \<noteq> heap_mem s b"
        then have "unat k + 40 \<le> unat b" "unat b < unat k + 40 + obj_size (minors t) k"
          using far fr(1) by simp_all
        then show False
          using ap size(1) that by linarith
      qed
      then show ?thesis
        using fr(4) [of x] size(1) x by simp
    qed
    moreover have "realloc p sz s = Ret (q, s')"
      using run s'(1) by simp
    moreover have "16 dvd unat q"
      using a by simp
    moreover have "\<forall>i < unat (mn_req_size v). heap_mem s' (q + of_nat i) = heap_mem s (p + of_nat i)"
      using contents fr(1) by simp
    ultimately show ?thesis
      using s'(2) fr(2,3) k(1,3) by (intro disjI2 exI [of _ q] exI [of _ s'] exI [of _ k] exI [of _ H'']) simp
  qed simp
qed

section \<open>A small heap\<close>

text \<open>One block of a page, the used one of \<^term>\<open>demo_pmm\<close>, with two objects of 64 bytes each.\<close>

definition demo_heap :: liballoc where
  "demo_heap = \<lparr>majors = [0xffff800000103000 \<mapsto> \<lparr>mj_prev = NULL, mj_next = NULL, mj_page_list = 0x1060, mj_pages = 1,
       mj_size = 4096, mj_usage = 256, mj_first = 0xffff800000103030\<rparr>],
     minors = [0xffff800000103030 \<mapsto> \<lparr>mn_prev = NULL, mn_next = 0xffff800000103098, mn_block = 0xffff800000103000,
         mn_magic = LIBALLOC_MAGIC, mn_size = 64, mn_req_size = 32\<rparr>,
       0xffff800000103098 \<mapsto> \<lparr>mn_prev = 0xffff800000103030, mn_next = NULL, mn_block = 0xffff800000103000,
         mn_magic = LIBALLOC_MAGIC, mn_size = 64, mn_req_size = 32\<rparr>],
     heap_mem = (\<lambda>_. 0)(0xffff800000103060 := 24, 0xffff8000001030c0 := 16),
     l_memRoot = 0xffff800000103000, l_bestBet = NULL, l_allocated = 4096, l_inuse = 128, l_warningCount = 0, l_errorCount = 0,
     l_possibleOverruns = 0, heap_lock = False, frames = demo_pmm\<rparr>"

definition demo_blocks :: "(ptr \<times> ptr list) list" where
  "demo_blocks = [(0xffff800000103000, [0xffff800000103030, 0xffff800000103098])]"

lemma demo_frames_ok: "frames_ok demo_pmm"
proof -
  have "\<forall>x y a. managed demo_pmm x a \<longrightarrow> managed demo_pmm y a \<longrightarrow> x = y"
    by (auto simp: managed_def page_core_def demo_pmm_def split: if_splits)
  moreover have "\<forall>x a. managed demo_pmm x a \<longrightarrow> unat a + 4096 \<le> 2 ^ 39"
    by (auto simp: managed_def page_core_def demo_pmm_def split: if_splits)
  ultimately show ?thesis
    using demo_pmm_inv by (auto simp: frames_ok_def)
qed

lemma demo_heap_ok: "heap_ok demo_heap demo_blocks"
proof -
  have "backed demo_pmm 0xffff800000103000 4096"
    unfolding backed_def
    by (auto simp: page_core_def demo_pmm_def p_addr_to_physical_map_def physical_map_base_def intro!: exI [of _ "0x1060"])
  moreover have "heap_inv demo_heap demo_blocks"
    by (simp add: heap_inv_def demo_heap_def demo_blocks_def block_ok_def obj_size_def live_def)
  ultimately show ?thesis
    using demo_frames_ok by (simp add: heap_ok_def demo_heap_def demo_blocks_def)
qed

lemma demo_heap_lock: "\<not> heap_lock demo_heap"
  by (simp add: demo_heap_def)

lemma demo_unalign: "UNALIGN 0xffff800000103070 demo_heap = 0xffff800000103030 + 40"
  by (simp add: UNALIGN_def demo_heap_def)

section \<open>Properties\<close>

text \<open>C2: \<^verbatim>\<open>malloc\<close> of less than two gigabytes either stops the machine, because the frame allocator has no run of pages for a
  new block, or returns a pointer aligned to 16 bytes with as much room as asked for inside a new object: the heap stays
  well formed, no other object moves, overlaps the new one or loses a byte, and \<^verbatim>\<open>UNALIGN\<close> finds the way back to the header.\<close>

theorem malloc_correct:
  assumes "heap_ok s H" "\<not> heap_lock s" "unat req < 2 ^ 31"
  shows "(malloc req s = Panic \<and> no_frames (req + 32) (frames s)) \<or>
    (\<exists>p s' n H'. malloc req s = Ret (p, s') \<and> heap_ok s' H' \<and> \<not> heap_lock s' \<and> n \<notin> objects H \<and> objects H' = insert n (objects H) \<and>
      16 dvd unat p \<and> points_to s' p n (unat req) \<and>
      (\<forall>x \<in> objects H. obj_size (minors s') x = obj_size (minors s) x \<and>
         (unat p + unat req \<le> unat x \<or> unat x + 40 + obj_size (minors s) x \<le> unat p)) \<and>
      (\<forall>x \<in> objects H. \<forall>a. unat x \<le> unat a \<longrightarrow> unat a < unat x + 40 + obj_size (minors s) x \<longrightarrow> heap_mem s' a = heap_mem s a))"
  using malloc_cases [OF assms]
proof (elim disjE exE conjE)
  fix p s' n H'
  assume mal: "malloc req s = Ret (p, s')" and al: "allocated s H req p n s' H'"
  note a = al [unfolded allocated_def]
  have ap: "unat n + 40 + obj_size (minors s') n \<le> unat x \<or> unat x + 40 + obj_size (minors s) x \<le> unat n" if "x \<in> objects H" for x
    using objects_apart [of s' H' n x] a that by (auto simp: heap_ok_def)
  have "unat p + unat req \<le> unat x \<or> unat x + 40 + obj_size (minors s) x \<le> unat p" if "x \<in> objects H" for x
    using ap [OF that] a by linarith
  moreover have "heap_mem s' b = heap_mem s b" if "x \<in> objects H" "unat x \<le> unat b" "unat b < unat x + 40 + obj_size (minors s) x" for x b
    using ap [OF that(1)] a that(2,3) by fastforce
  ultimately show ?thesis
    using mal a unfolding points_to_def by blast
qed auto

lemma demo_objects: "objects demo_blocks = {0xffff800000103030, 0xffff800000103098}"
  by (auto simp: objects_def demo_blocks_def)

lemma demo_malloc_returns: "malloc 24 demo_heap \<noteq> Panic" "malloc 48 demo_heap \<noteq> Panic"
proof -
  let ?s = "demo_heap\<lparr>heap_lock := True\<rparr>"
  have "\<exists>r. search_step 56 24 (0xffff800000103000, False, 0, ?s) = Ret (Inr r)" "\<exists>r. search_step 80 48 (0xffff800000103000, False, 0, ?s) = Ret (Inr r)"
    by (simp_all add: search_step_def place_in_block_def demo_heap_def block_free_def Let_def place_loop.simps [of _ _ _ "0xffff800000103030"]
        place_loop.simps [of _ _ _ "0xffff800000103098"] place_last_def update_minor_def update_major_def placed_def ALIGN_def)
  then have "\<exists>r. search_loop 56 24 (0xffff800000103000, False, 0, ?s) = Some (Ret r)"
      "\<exists>r. search_loop 80 48 (0xffff800000103000, False, 0, ?s) = Some (Ret r)"
    by (subst search_loop.simps, auto)+
  moreover have "malloc 24 demo_heap = looped (search_loop 56 24 (0xffff800000103000, False, 0, ?s))"
      "malloc 48 demo_heap = looped (search_loop 80 48 (0xffff800000103000, False, 0, ?s))"
    by (simp_all add: malloc_def malloc_nonempty_def liballoc_lock_def demo_heap_def)
  ultimately show "malloc 24 demo_heap \<noteq> Panic" "malloc 48 demo_heap \<noteq> Panic"
    by auto
qed

theorem malloc_correct_witness:
  "\<exists>p s' n H'. malloc 24 demo_heap = Ret (p, s') \<and> heap_ok s' H' \<and> 16 dvd unat p \<and> points_to s' p n 24 \<and>
     objects H' = insert n {0xffff800000103030, 0xffff800000103098}"
  using malloc_correct [OF demo_heap_ok demo_heap_lock, of 24] demo_malloc_returns by (auto simp: demo_objects)

text \<open>C16: Freeing a live object returns and takes exactly that object out: the heap stays well formed, and nothing else moves. When it
  was the only object of its block, the block leaves the list, and the pages its list of pages goes through are given back, all but
  the last, which keeps its state; when the block holds other objects, no page is. The list may run on into free pages, but the
  pages in use on it must be the block's own. Freeing the same pointer again only counts an error.\<close>

theorem free_correct:
  assumes ok: "heap_ok s H" and lock: "\<not> heap_lock s" and gb: "gives_back s H n cs" and p: "UNALIGN p s = n + 40" "p \<noteq> NULL"
  shows "\<exists>s' H'. free p s = Ret s' \<and> heap_ok s' H' \<and> objects H' = objects H - {n} \<and> freed s n s' \<and>
    (\<forall>a. page_in_use (frames s') a \<longleftrightarrow> page_in_use (frames s) a \<and> a \<notin> set (butlast cs)) \<and>
    free p s' = Ret (s'\<lparr>l_errorCount := l_errorCount s' + 1\<rparr>)"
  using free_gives_back [OF assms] free_again [OF _ p] by blast

text \<open>Two heaps for it: the one above, and one whose only object has the block to itself. The list of its pages runs on into the free
  list, as that of a contiguous run does.\<close>

definition run_frames :: pmm where
  "run_frames = demo_pmm\<lparr>pm_pages := (pm_pages demo_pmm)(0x1060 \<mapsto> \<lparr>pg_prev = NULL, pg_next = 0x1040, pg_address = 0x103000, pg_state = PAGE_STATE_USED\<rparr>)\<rparr>"

definition lone_heap :: liballoc where
  "lone_heap = demo_heap\<lparr>majors := [0xffff800000103000 \<mapsto> \<lparr>mj_prev = NULL, mj_next = NULL, mj_page_list = 0x1060, mj_pages = 1,
       mj_size = 4096, mj_usage = 152, mj_first = 0xffff800000103030\<rparr>],
     minors := [0xffff800000103030 \<mapsto> \<lparr>mn_prev = NULL, mn_next = NULL, mn_block = 0xffff800000103000,
         mn_magic = LIBALLOC_MAGIC, mn_size = 64, mn_req_size = 32\<rparr>], l_inuse := 64, frames := run_frames\<rparr>"

definition lone_blocks :: "(ptr \<times> ptr list) list" where
  "lone_blocks = [(0xffff800000103000, [0xffff800000103030])]"

lemma run_frames_core: "page_core (pm_pages run_frames) = page_core (pm_pages demo_pmm)"
  by (rule ext) (simp add: run_frames_def demo_pmm_def page_core_def)

lemma run_frames_inv: "pmm_inv run_frames [0x1040, 0x1020, 0x1000]"
proof -
  have "free_rep run_frames [0x1040, 0x1020, 0x1000]"
    by (simp add: free_rep_def run_frames_def demo_pmm_def)
  moreover have "region_pages run_frames = region_pages demo_pmm" "available run_frames = available demo_pmm"
    by (simp_all add: run_frames_def region_pages_def available_def)
  moreover have "NULL \<notin> dom (pm_pages run_frames)"
    by (simp add: run_frames_def demo_pmm_def)
  ultimately show ?thesis
    using demo_pmm_inv unfolding pmm_inv_def run_frames_core by (simp add: run_frames_def)
qed

lemma run_frames_ok: "frames_ok run_frames"
  using demo_frames_ok run_frames_inv unfolding frames_ok_def managed_def run_frames_core by blast

lemma lone_heap_ok: "heap_ok lone_heap lone_blocks"
proof -
  have "backed demo_pmm 0xffff800000103000 4096"
    using demo_heap_ok by (simp add: heap_ok_def demo_heap_def demo_blocks_def)
  then have "backed run_frames 0xffff800000103000 4096"
    by (simp add: backed_def run_frames_core)
  moreover have "heap_inv lone_heap lone_blocks"
    by (simp add: heap_inv_def lone_heap_def demo_heap_def lone_blocks_def block_ok_def obj_size_def live_def)
  ultimately show ?thesis
    using run_frames_ok by (simp add: heap_ok_def lone_heap_def lone_blocks_def)
qed

lemma lone_gives_back: "gives_back lone_heap lone_blocks 0xffff800000103030 [0x1060, 0x1040, 0x1020, 0x1000]"
proof -
  let ?mj = "\<lparr>mj_prev = NULL, mj_next = NULL, mj_page_list = 0x1060, mj_pages = 1, mj_size = 4096, mj_usage = 152, mj_first = 0xffff800000103030\<rparr>"
  have "page_in_use run_frames 0x1060"
    unfolding page_in_use_iff run_frames_core using demo_region_pages
    by (simp add: run_frames_def region_pages_def available_def) (simp add: demo_pmm_def page_core_def)
  then have "block_walk lone_heap 0xffff800000103000 ?mj [0x1060, 0x1040, 0x1020, 0x1000]"
    by (simp add: block_walk_def lone_heap_def in_use_or_free_def run_frames_core)
      (simp add: run_frames_def demo_pmm_def page_core_def p_addr_to_physical_map_def)
  then show ?thesis
    by (simp add: gives_back_def lone_blocks_def) (simp add: lone_heap_def)
qed

theorem free_correct_witness:
  "(\<exists>s' H'. free 0xffff800000103070 demo_heap = Ret s' \<and> heap_ok s' H' \<and> objects H' = {0xffff800000103098} \<and>
     free 0xffff800000103070 s' = Ret (s'\<lparr>l_errorCount := l_errorCount s' + 1\<rparr>)) \<and>
   (\<exists>s' H'. free 0xffff800000103070 lone_heap = Ret s' \<and> heap_ok s' H' \<and> objects H' = {} \<and> \<not> page_in_use (frames s') 0x1060)"
proof
  have "gives_back demo_heap demo_blocks 0xffff800000103030 []"
    by (simp add: gives_back_def demo_blocks_def demo_heap_def)
  moreover have "{0xffff800000103030, 0xffff800000103098} - {0xffff800000103030} = {0xffff800000103098 :: ptr}"
    by auto
  ultimately show "\<exists>s' H'. free 0xffff800000103070 demo_heap = Ret s' \<and> heap_ok s' H' \<and> objects H' = {0xffff800000103098} \<and>
     free 0xffff800000103070 s' = Ret (s'\<lparr>l_errorCount := l_errorCount s' + 1\<rparr>)"
    using free_correct [OF demo_heap_ok demo_heap_lock _ demo_unalign] by (simp add: demo_objects) blast
  have "\<not> heap_lock lone_heap" "UNALIGN 0xffff800000103070 lone_heap = 0xffff800000103030 + 40" "objects lone_blocks = {0xffff800000103030}"
    using demo_unalign by (simp_all add: lone_heap_def demo_heap_def UNALIGN_def objects_def lone_blocks_def)
  then show "\<exists>s' H'. free 0xffff800000103070 lone_heap = Ret s' \<and> heap_ok s' H' \<and> objects H' = {} \<and> \<not> page_in_use (frames s') 0x1060"
    using free_correct [OF lone_heap_ok _ lone_gives_back, of "0xffff800000103070"] by fastforce
qed

text \<open>C37: \<^verbatim>\<open>realloc\<close> of an object to a larger size below two gigabytes, while its block holds other objects, either stops the
  machine, because the frame allocator has no run of pages for a new block, or returns an aligned pointer to a new object with room for
  the new size, whose first bytes are those of the old one. The old object is dead, the heap is well formed, and no other object
  has changed its size or a byte.\<close>

theorem realloc_correct:
  assumes "heap_ok s H" "\<not> heap_lock s" "(maj, ns) \<in> set H" "n \<in> set ns" "ns \<noteq> [n]" "minors s n = Some v"
    and "points_to s p n (unat (mn_req_size v))" "unat (mn_req_size v) < unat sz" "unat sz < 2 ^ 31"
  shows "(realloc p sz s = Panic \<and> malloc sz s = Panic \<and> no_frames (sz + 32) (frames s)) \<or>
    (\<exists>q s' k H'. realloc p sz s = Ret (q, s') \<and> heap_ok s' H' \<and> k \<notin> objects H \<and> objects H' = insert k (objects H - {n}) \<and>
      \<not> heap_lock s' \<and> 16 dvd unat q \<and> points_to s' q k (unat sz) \<and> map_option mn_magic (minors s' n) = Some LIBALLOC_DEAD \<and>
      (\<forall>i < unat (mn_req_size v). heap_mem s' (q + of_nat i) = heap_mem s (p + of_nat i)) \<and>
      (\<forall>x \<in> objects H - {n}. obj_size (minors s') x = obj_size (minors s) x \<and>
         (\<forall>a. unat x \<le> unat a \<longrightarrow> unat a < unat x + 40 + obj_size (minors s) x \<longrightarrow> heap_mem s' a = heap_mem s a)))"
  by (rule realloc_shared [OF assms])

theorem realloc_correct_witness:
  "\<exists>q s' k H'. realloc 0xffff800000103070 48 demo_heap = Ret (q, s') \<and> heap_ok s' H' \<and> 16 dvd unat q \<and> points_to s' q k 48 \<and>
     objects H' = insert k {0xffff800000103098} \<and>
     (\<forall>i < 32. heap_mem s' (q + of_nat i) = heap_mem demo_heap (0xffff800000103070 + of_nat i))"
proof -
  have v: "minors demo_heap 0xffff800000103030 = Some \<lparr>mn_prev = NULL, mn_next = 0xffff800000103098, mn_block = 0xffff800000103000,
      mn_magic = LIBALLOC_MAGIC, mn_size = 64, mn_req_size = 32\<rparr>"
    by (simp add: demo_heap_def)
  have "points_to demo_heap 0xffff800000103070 0xffff800000103030 32"
    using demo_unalign by (simp add: points_to_def obj_size_def demo_heap_def)
  moreover have "(0xffff800000103000, [0xffff800000103030, 0xffff800000103098]) \<in> set demo_blocks"
    by (simp add: demo_blocks_def)
  moreover have "{0xffff800000103030, 0xffff800000103098} - {0xffff800000103030} = {0xffff800000103098 :: ptr}"
    by auto
  ultimately show ?thesis
    using realloc_correct [OF demo_heap_ok demo_heap_lock _ _ _ v, of "0xffff800000103000" _ "0xffff800000103070" 48] demo_malloc_returns(2)
    by (fastforce simp: demo_objects)
qed

text \<open>The same four pages with the free list in the order of the addresses.\<close>

definition ascending_pmm :: pmm where
  "ascending_pmm = demo_pmm\<lparr>pm_pages := [
       0x1000 \<mapsto> \<lparr>pg_prev = NULL, pg_next = 0x1020, pg_address = 0x100000, pg_state = PAGE_STATE_FREE\<rparr>,
       0x1020 \<mapsto> \<lparr>pg_prev = 0x1000, pg_next = 0x1040, pg_address = 0x101000, pg_state = PAGE_STATE_FREE\<rparr>,
       0x1040 \<mapsto> \<lparr>pg_prev = 0x1020, pg_next = NULL, pg_address = 0x102000, pg_state = PAGE_STATE_FREE\<rparr>,
       0x1060 \<mapsto> \<lparr>pg_prev = NULL, pg_next = NULL, pg_address = 0x103000, pg_state = PAGE_STATE_USED\<rparr>], free_list := 0x1000\<rparr>"

text \<open>The last page of a contiguous run still points into the free list, so giving the run back walks on into pages that
  are free already: here one page is allocated and freed again, and the count of used memory ends a page lower than it was.\<close>

theorem contiguous_run_open:
  "\<exists>p fs fs'. pmm_allocate_contiguous 1 0 ascending_pmm = Ret (IR_OK, Some p, fs) \<and> free_pages_loop p fs = Some (Ret fs') \<and>
     pm_pages fs p \<noteq> None \<and> pg_next (the (pm_pages fs p)) = 0x1020 \<and> memory_used ascending_pmm = 0x1000 \<and> memory_used fs' = 0"
proof -
  let ?fs = "ascending_pmm\<lparr>pm_pages := (pm_pages ascending_pmm)(
       0x1000 \<mapsto> \<lparr>pg_prev = NULL, pg_next = 0x1020, pg_address = 0x100000, pg_state = PAGE_STATE_USED\<rparr>,
       0x1020 \<mapsto> \<lparr>pg_prev = NULL, pg_next = 0x1040, pg_address = 0x101000, pg_state = PAGE_STATE_FREE\<rparr>),
     free_list := 0x1020, pages_in_free_list := 2, memory_free := 0x2000, memory_used := 0x2000\<rparr>"
  have "nat (int_of_u64 (initialized_regions ascending_pmm - 1) + 1) = Suc 0"
    by (simp add: ascending_pmm_def demo_pmm_def int_of_u64_def)
  moreover have "pmm_find_run ascending_pmm demo_region 1 (- 1) (Suc 3) 0 0 0 = Ret (Some 0)"
    by (subst pmm_find_run.simps(2)) (simp add: ascending_pmm_def demo_region_def page_ptr_def)
  moreover have "regions_array ascending_pmm = [demo_region]"
    by (simp add: ascending_pmm_def demo_pmm_def)
  moreover have "unat (rg_length demo_region div PAGE_SIZE) = Suc 3" "rg_type demo_region = REGION_TYPE_AVAILABLE" "\<not> - 1 < rg_base demo_region"
    by (simp_all add: demo_region_def)
  moreover have "looped (for_uint (pmm_take_page (rg_page_array demo_region)) (0 + 1) (ucast (0 :: u64)) (NULL, ascending_pmm)) =
      Ret (0x1000, ascending_pmm\<lparr>pm_pages := pm_pages ?fs, free_list := 0x1020, pages_in_free_list := 2\<rparr>)"
    by (simp add: for_uint.simps [of _ 1 0] for_uint.simps [of _ 1 1] pmm_take_page_def ascending_pmm_def demo_pmm_def demo_region_def
        page_ptr_def update_page_def pmm_free_list_remove_def Let_def fun_upd_twist)
  moreover have "page_ptr (rg_page_array demo_region) 0 = 0x1000"
    by (simp add: demo_region_def page_ptr_def)
  ultimately have "pmm_allocate_contiguous 1 0 ascending_pmm = Ret (IR_OK, Some 0x1000, ?fs)"
    by (simp add: pmm_allocate_contiguous_def Let_def) (simp add: ascending_pmm_def demo_pmm_def)
  moreover have "\<exists>fs'. free_pages_loop 0x1000 ?fs = Some (Ret fs') \<and> memory_used fs' = 0"
    by (simp add: free_pages_loop.simps [of "0x1000"] free_pages_loop.simps [of "0x1020"] free_pages_loop.simps [of "0x1040"]
        pmm_free_page_def update_page_def pmm_free_list_push_def Let_def) (simp add: ascending_pmm_def)
  moreover have "pm_pages ?fs 0x1000 \<noteq> None \<and> pg_next (the (pm_pages ?fs 0x1000)) = 0x1020"
    by simp
  moreover have "memory_used ascending_pmm = 0x1000"
    by (simp add: ascending_pmm_def demo_pmm_def)
  ultimately show ?thesis
    by blast
qed

end
