(* ===== verification/Acpi.thy ===== *)
theory Acpi
  imports Trap Boot
begin

text \<open>
  Platform setup of \<^verbatim>\<open>arch/x86_64/acpi.c\<close>: finding the tables of the firmware, the scan of the interrupt controller
  table for processors and IO APICs, the redirection of interrupt lines, and the calibration of the timer. Device registers
  are not memory: what the code writes to them, to ports and to model specific registers is a list of events, the latest
  first, and what a register reads as is a parameter of the model, a function of those events. Tables are read from memory
  at the offsets of the packed structures of \<^verbatim>\<open>acpi.h\<close>. What is only printed is left out.
\<close>

section \<open>Devices\<close>

datatype event = Write32 ptr u32 | Write64 ptr u64 | Out_Port u16 u8 | Write_MSR u32 u64

text \<open>\<open>interrupted\<close> tells whether the calibration interrupt arrives once the kernel waits for it.\<close>

record platform =
  read32 :: "event list \<Rightarrow> ptr \<Rightarrow> u32"
  read64 :: "event list \<Rightarrow> ptr \<Rightarrow> u64"
  rdmsr :: "event list \<Rightarrow> u32 \<Rightarrow> u64"
  interrupted :: "event list \<Rightarrow> bool"

record io_apic_info =
  io_address :: ptr
  io_base :: u32
  entry_count :: u32

text \<open>
  The static variables of the file, with \<^verbatim>\<open>cpu_count\<close>, the numbers in \<^verbatim>\<open>processor_local_data\<close> and the interrupt descriptor
  table. \<open>io_apics\<close> is the array behind \<open>io_apics_array\<close>.
\<close>

record acpi =
  rsdp :: ptr
  madt :: ptr
  fadt :: ptr
  srat :: ptr
  ssdt :: ptr
  hpet :: ptr
  local_apic_mmio_base :: ptr
  hpet_mmio_base :: ptr
  io_apic_mmio_v_addr_region :: ptr
  io_apic_mmio_address :: ptr
  io_apics_array :: ptr
  io_apics :: "io_apic_info list"
  io_apic_count :: u32
  cpu_count :: u32
  core_id :: "nat \<Rightarrow> u32"
  local_apic_id :: "nat \<Rightarrow> u32"
  gates :: idt
  events :: "event list"

definition acpi_start :: "idt \<Rightarrow> acpi" where
  "acpi_start table = \<lparr>rsdp = NULL, madt = NULL, fadt = NULL, srat = NULL, ssdt = NULL, hpet = NULL,
     local_apic_mmio_base = NULL, hpet_mmio_base = NULL, io_apic_mmio_v_addr_region = NULL, io_apic_mmio_address = NULL,
     io_apics_array = NULL, io_apics = [], io_apic_count = 0, cpu_count = 0, core_id = (\<lambda>_. 0), local_apic_id = (\<lambda>_. 0),
     gates = table, events = []\<rparr>"

definition emit :: "event \<Rightarrow> acpi \<Rightarrow> acpi" where
  "emit e x = x\<lparr>events := e # events x\<rparr>"

definition MAX_CPUS_COUNT :: nat where "MAX_CPUS_COUNT = 32"

section \<open>Fields of the firmware's structures\<close>

definition rsdp_revision :: "memory \<Rightarrow> ptr \<Rightarrow> u8" where [simp]: "rsdp_revision m r = m (r + 15)"
definition rsdt_address :: "memory \<Rightarrow> ptr \<Rightarrow> u32" where [simp]: "rsdt_address m r = read_u32 m (r + 16)"
definition xsdt_address :: "memory \<Rightarrow> ptr \<Rightarrow> u64" where [simp]: "xsdt_address m r = read_word (r + 24) m"
definition header_length :: "memory \<Rightarrow> ptr \<Rightarrow> u32" where [simp]: "header_length m t = read_u32 m (t + 4)"
definition rsdt_pointer :: "memory \<Rightarrow> ptr \<Rightarrow> nat \<Rightarrow> u32" where [simp]: "rsdt_pointer m t i = read_u32 m (t + 36 + 4 * of_nat i)"
definition xsdt_pointer :: "memory \<Rightarrow> ptr \<Rightarrow> nat \<Rightarrow> u64" where [simp]: "xsdt_pointer m t i = read_word (t + 36 + 8 * of_nat i) m"
definition hpet_address :: "memory \<Rightarrow> ptr \<Rightarrow> u64" where [simp]: "hpet_address m t = read_word (t + 44) m"
definition local_apic_address :: "memory \<Rightarrow> ptr \<Rightarrow> u32" where [simp]: "local_apic_address m t = read_u32 m (t + 36)"
definition entry_type :: "memory \<Rightarrow> ptr \<Rightarrow> u8" where [simp]: "entry_type m e = m e"
definition entry_length :: "memory \<Rightarrow> ptr \<Rightarrow> u8" where [simp]: "entry_length m e = m (e + 1)"
definition lapic_apic_id :: "memory \<Rightarrow> ptr \<Rightarrow> u8" where [simp]: "lapic_apic_id m e = m (e + 3)"
definition lapic_flags :: "memory \<Rightarrow> ptr \<Rightarrow> u32" where [simp]: "lapic_flags m e = read_u32 m (e + 4)"
definition io_apic_address :: "memory \<Rightarrow> ptr \<Rightarrow> u32" where [simp]: "io_apic_address m e = read_u32 m (e + 4)"
definition global_interrupt_base :: "memory \<Rightarrow> ptr \<Rightarrow> u32" where [simp]: "global_interrupt_base m e = read_u32 m (e + 8)"
definition override_source :: "memory \<Rightarrow> ptr \<Rightarrow> u8" where [simp]: "override_source m e = m (e + 3)"
definition override_interrupt :: "memory \<Rightarrow> ptr \<Rightarrow> u32" where [simp]: "override_interrupt m e = read_u32 m (e + 4)"

section \<open>Finding the tables\<close>

definition acpi_checksum :: "memory \<Rightarrow> ptr \<Rightarrow> bool" where
  "acpi_checksum m header \<longleftrightarrow>
     fold (\<lambda>i sum. sum + m (header + of_nat i)) [0..<unat (header_length m header)] 0 = 0"

text \<open>\<open>lit\<close> gives the addresses of the string literals.\<close>

definition record_acpi_table_address :: "memory \<Rightarrow> (string \<Rightarrow> ptr) \<Rightarrow> ptr \<Rightarrow> acpi \<Rightarrow> acpi" where
  "record_acpi_table_address m lit table x =
     (if strncmp m table (lit ''APIC'') 4 = 0 then x\<lparr>madt := table\<rparr>
      else if strncmp m table (lit ''FACP'') 4 = 0 then x\<lparr>fadt := table\<rparr>
      else if strncmp m table (lit ''SRAT'') 4 = 0 then x\<lparr>srat := table\<rparr>
      else if strncmp m table (lit ''SSDT'') 4 = 0 then x\<lparr>ssdt := table\<rparr>
      else if strncmp m table (lit ''HPET'') 4 = 0 then x\<lparr>hpet := table\<rparr>
      else x)"

definition check_table :: "memory \<Rightarrow> (string \<Rightarrow> ptr) \<Rightarrow> ptr \<Rightarrow> acpi \<Rightarrow> acpi" where
  "check_table m lit table x = (if acpi_checksum m table then record_acpi_table_address m lit table x else x)"

text \<open>
  The size of the root table less its header is a 64-bit difference, and the quotient becomes an \<^verbatim>\<open>int\<close>. A bad checksum
  of the root table itself is only reported.
\<close>

definition sdt_count :: "memory \<Rightarrow> ptr \<Rightarrow> u64 \<Rightarrow> nat" where
  "sdt_count m root width = nat (int_of_u64 ((ucast (header_length m root) - 36) div width))"

definition find_acpi_tables :: "memory \<Rightarrow> (string \<Rightarrow> ptr) \<Rightarrow> acpi \<Rightarrow> acpi" where
  "find_acpi_tables m lit x =
     (if rsdp_revision m (rsdp x) < 2 then
        let rsdt = ucast (rsdt_address m (rsdp x)) + physical_map_base in
        fold (\<lambda>i. check_table m lit (ucast (rsdt_pointer m rsdt i) + physical_map_base)) [0..<sdt_count m rsdt 4] x
      else
        let xsdt = xsdt_address m (rsdp x) + physical_map_base in
        fold (\<lambda>i. check_table m lit (xsdt_pointer m xsdt i + physical_map_base)) [0..<sdt_count m xsdt 8] x)"

section \<open>Interrupt controllers\<close>

definition IO_APIC_VERSION_REGISTER :: u32 where "IO_APIC_VERSION_REGISTER = 1"
definition IO_APIC_REDIRECTION_TABLE_BASE :: u32 where "IO_APIC_REDIRECTION_TABLE_BASE = 0x10"
definition APIC_EOI :: u64 where "APIC_EOI = 0xB0"
definition APIC_SPURIOUS_INT_VECTOR :: u64 where "APIC_SPURIOUS_INT_VECTOR = 0xF0"
definition APIC_LVT_TIMER :: u64 where "APIC_LVT_TIMER = 0x320"
definition APIC_TIMER_INITIAL_COUNT :: u64 where "APIC_TIMER_INITIAL_COUNT = 0x380"
definition APIC_TIMER_CURRENT_COUNT :: u64 where "APIC_TIMER_CURRENT_COUNT = 0x390"
definition APIC_TIMER_DIVIDE :: u64 where "APIC_TIMER_DIVIDE = 0x3E0"
definition APIC_LVT_INT_MASK :: u32 where "APIC_LVT_INT_MASK = push_bit 16 1"
definition APIC_TIMER_MODE_PERIODIC :: u32 where "APIC_TIMER_MODE_PERIODIC = push_bit 17 1"
definition MSR_APIC_BASE :: u32 where "MSR_APIC_BASE = 0x1B"
definition MSR_APIC_BASE_ENABLE :: u64 where "MSR_APIC_BASE_ENABLE = push_bit 11 1"

definition io_apic_write :: "ptr \<Rightarrow> u32 \<Rightarrow> u32 \<Rightarrow> acpi \<Rightarrow> acpi" where
  "io_apic_write io_apic_base offset v x = emit (Write32 (io_apic_base + 0x10) v) (emit (Write32 io_apic_base offset) x)"

definition io_apic_read :: "platform \<Rightarrow> ptr \<Rightarrow> u32 \<Rightarrow> acpi \<Rightarrow> u32 \<times> acpi" where
  "io_apic_read pf io_apic_base offset x =
     (let x = emit (Write32 io_apic_base offset) x in (read32 pf (events x) (io_apic_base + 0x10), x))"

text \<open>The controller of a line, the first whose range reaches it. Its upper end is counted in.\<close>

fun find_io_apic :: "io_apic_info list \<Rightarrow> nat \<Rightarrow> u32 \<Rightarrow> io_apic_info option outcome" where
  "find_io_apic infos 0 line = Ret None"
| "find_io_apic [] (Suc k) line = Fault"
| "find_io_apic (info # infos) (Suc k) line =
     (if io_base info \<le> line \<and> line \<le> io_base info + entry_count info then Ret (Some info) else find_io_apic infos k line)"

definition io_offset :: "u32 \<Rightarrow> io_apic_info \<Rightarrow> u32" where
  "io_offset line info = (line - io_base info) * 2 + IO_APIC_REDIRECTION_TABLE_BASE"

text \<open>Reporting the new entry reads it again, which writes the two selections once more.\<close>

definition io_apic_interrupt_redirection :: "platform \<Rightarrow> u32 \<Rightarrow> u32 \<Rightarrow> bool \<Rightarrow> bool \<Rightarrow> acpi \<Rightarrow> acpi outcome" where
  "io_apic_interrupt_redirection pf line gsi active_high level_triggered x =
     obind (find_io_apic (io_apics x) (nat (sint (io_apic_count x))) line) (\<lambda>found.
     case found of
       None \<Rightarrow> Ret x
     | Some info \<Rightarrow>
         let off = io_offset line info;
             x = io_apic_write (io_address info) off
                   (gsi OR push_bit 13 (of_bool (\<not> active_high)) OR push_bit 15 (of_bool level_triggered)) x;
             x = io_apic_write (io_address info) (off + 1) (push_bit 24 (local_apic_id x 0)) x;
             (_, x) = io_apic_read pf (io_address info) off x;
             (_, x) = io_apic_read pf (io_address info) (off + 1) x
         in Ret x)"

definition arch_interrupt_set :: "platform \<Rightarrow> u32 \<Rightarrow> u32 \<Rightarrow> acpi \<Rightarrow> acpi outcome" where
  "arch_interrupt_set pf vector irq = io_apic_interrupt_redirection pf irq vector True False"

definition arch_interrupt_remove :: "u32 \<Rightarrow> acpi \<Rightarrow> acpi outcome" where
  "arch_interrupt_remove irq x =
     obind (find_io_apic (io_apics x) (nat (sint (io_apic_count x))) irq) (\<lambda>found.
     case found of
       None \<Rightarrow> Ret x
     | Some info \<Rightarrow> Ret (io_apic_write (io_address info) (io_offset irq info) (push_bit 16 1) x))"

text \<open>A register of the local controller is read as an \<^verbatim>\<open>int\<close> and widened to a \<^verbatim>\<open>long\<close>.\<close>

definition apic_io_input :: "platform \<Rightarrow> u64 \<Rightarrow> acpi \<Rightarrow> u64" where
  "apic_io_input pf register_offset x = scast (read32 pf (events x) (local_apic_mmio_base x + register_offset))"

definition apic_io_output :: "u64 \<Rightarrow> u32 \<Rightarrow> acpi \<Rightarrow> acpi" where
  "apic_io_output register_offset v x = emit (Write32 (local_apic_mmio_base x + register_offset) v) x"

definition apic_send_eoi :: "acpi \<Rightarrow> acpi" where
  "apic_send_eoi = apic_io_output APIC_EOI 0"

definition apic_init :: "platform \<Rightarrow> acpi \<Rightarrow> acpi" where
  "apic_init pf x =
     (let apic_base = rdmsr pf (events x) MSR_APIC_BASE;
          x = emit (Write_MSR MSR_APIC_BASE ((apic_base AND NOT 0xfff) OR MSR_APIC_BASE_ENABLE)) x
      in apic_io_output APIC_SPURIOUS_INT_VECTOR (ucast (apic_io_input pf APIC_SPURIOUS_INT_VECTOR x OR 0x1ff)) x)"

section \<open>Timer calibration\<close>

definition SECOND_IN_FEMTOSECONDS :: u64 where "SECOND_IN_FEMTOSECONDS = 0x38D7EA4C68000"
definition PIT_BASE_FREQUENCY :: u32 where "PIT_BASE_FREQUENCY = 1193182"
definition PIT_CHANNEL_0_PORT :: u16 where "PIT_CHANNEL_0_PORT = 0x40"
definition PIT_COMMAND_PORT :: u16 where "PIT_COMMAND_PORT = 0x43"

text \<open>The last line that the mask names among its first 31; -1 is none.\<close>

definition hpet_irq_of :: "u32 \<Rightarrow> int" where
  "hpet_irq_of supported =
     fst (fold (\<lambda>i (irq, supported). (if supported AND 1 \<noteq> 0 then int i else irq, drop_bit 1 supported)) [0..<31] (-1, supported))"

text \<open>Programming the comparator; a period of zero is a division by zero, which panics.\<close>

definition hpet_start :: "platform \<Rightarrow> u32 \<Rightarrow> acpi \<Rightarrow> acpi outcome" where
  "hpet_start pf irq x =
     (let base = hpet_mmio_base x; period = drop_bit 32 (read64 pf (events x) base) AND 0xffffffff in
      if period = 0 then Panic else
      let ticks_per_second = SECOND_IN_FEMTOSECONDS div period; ticks_in_10_ms = ticks_per_second div 100;
          x = emit (Write64 (base + 0x108) ticks_in_10_ms) x;
          x = emit (Write64 (base + 0x100) (scast (push_bit 9 irq OR push_bit 2 1))) x in
      obind (io_apic_interrupt_redirection pf irq 33 True False x) (\<lambda>x.
      Ret (emit (Write64 (base + 0x10) 1) (emit (Write64 (base + 0xF0) 0) x))))"

definition hpet_init :: "nat \<Rightarrow> platform \<Rightarrow> acpi \<times> kernel \<Rightarrow> (acpi \<times> kernel) outcome" where
  "hpet_init depth pf = (\<lambda>(x, s).
     let x = emit (Out_Port PIT_COMMAND_PORT (push_bit 4 3)) x in
     obind (vm_object_create_physical (hpet_address (memory s) (hpet x)) PAGE_SIZE VM_MMIO_FLAGS s) (\<lambda>(status, vm, s).
     if status \<noteq> IR_OK then Panic else
     obind (v_addr_region_map_vm_object depth (kernel_region s)
              (V_ADDR_REGION_DISABLE_CACHE OR V_ADDR_REGION_READABLE OR V_ADDR_REGION_WRITABLE) vm 0 s)
       (\<lambda>(status, _, address, s).
     if status \<noteq> IR_OK then Panic else
     let x = emit (Write64 (address + 0x10) 0) (x\<lparr>hpet_mmio_base := address\<rparr>);
         irq = hpet_irq_of (ucast (drop_bit 32 (read64 pf (events x) (address + 0x140)))) in
     if irq < 0 then Panic else
     obind (hpet_start pf (word_of_int irq) x) (\<lambda>x. Ret (x, s)))))"

definition pit_init :: "platform \<Rightarrow> u32 \<Rightarrow> acpi \<Rightarrow> acpi outcome" where
  "pit_init pf pit_irq x =
     obind (io_apic_interrupt_redirection pf pit_irq 33 True False x) (\<lambda>x.
     let divisor = PIT_BASE_FREQUENCY div 100 in
     Ret (emit (Out_Port PIT_CHANNEL_0_PORT (ucast (drop_bit 8 divisor AND 0xff)))
         (emit (Out_Port PIT_CHANNEL_0_PORT (ucast (divisor AND 0xff)))
         (emit (Out_Port PIT_COMMAND_PORT (push_bit 4 3)) x))))"

text \<open>From starting the countdown to programming the measured interval. The wait ends with the interrupt, if it comes.\<close>

definition elapsed_ticks :: "platform \<Rightarrow> acpi \<Rightarrow> u64" where
  "elapsed_ticks pf x = 0xffffffff - apic_io_input pf APIC_TIMER_CURRENT_COUNT x"

definition calibrate :: "platform \<Rightarrow> acpi \<Rightarrow> acpi outcome" where
  "calibrate pf x =
     (let x = apic_io_output APIC_TIMER_INITIAL_COUNT 0xffffffff (apic_io_output APIC_TIMER_DIVIDE 3 x) in
      if \<not> interrupted pf (events x) then Hang else
      let x = apic_io_output APIC_LVT_TIMER APIC_LVT_INT_MASK x;
          ticks = elapsed_ticks pf x in
      Ret (apic_io_output APIC_TIMER_INITIAL_COUNT (ucast ticks)
          (apic_io_output APIC_TIMER_DIVIDE 3 (apic_io_output APIC_LVT_TIMER (32 OR APIC_TIMER_MODE_PERIODIC) x))))"

text \<open>\<open>calibration_irq\<close> is the address of the interrupt routine that ends the wait.\<close>

definition timer_init :: "nat \<Rightarrow> platform \<Rightarrow> u64 \<Rightarrow> u32 \<Rightarrow> acpi \<times> kernel \<Rightarrow> (acpi \<times> kernel) outcome" where
  "timer_init depth pf calibration_irq pit_irq = (\<lambda>(x, s).
     let x = x\<lparr>gates := idt_set_entry 33 0x8 calibration_irq IDT_GATE_INTERRUPT 0 (gates x)\<rparr> in
     obind (if hpet x \<noteq> NULL then hpet_init depth pf (x, s)
            else obind (pit_init pf pit_irq x) (\<lambda>x. Ret (x, s))) (\<lambda>(x, s).
     obind (calibrate pf x) (\<lambda>x. Ret (x, s))))"

section \<open>Scanning the interrupt controller table\<close>

text \<open>The first scan counts processors and IO APICs. An entry of length zero is visited for ever.\<close>

definition count_entry :: "memory \<Rightarrow> ptr \<Rightarrow> u32 \<times> u32 \<Rightarrow> u32 \<times> u32" where
  "count_entry m entry = (\<lambda>(cpus, ios).
     if entry_type m entry = 0 then (if lapic_flags m entry \<noteq> 0 then cpus + 1 else cpus, ios)
     else if entry_type m entry = 1 then (cpus, ios + 1) else (cpus, ios))"

partial_function (option) count_entries :: "memory \<Rightarrow> ptr \<Rightarrow> ptr \<Rightarrow> u32 \<times> u32 \<Rightarrow> (u32 \<times> u32) option" where
  "count_entries m entry_end entry counts =
     (if entry < entry_end then count_entries m entry_end (entry + ucast (entry_length m entry)) (count_entry m entry counts)
      else Some counts)"

text \<open>
  The second scan. \<open>cpu\<close>, \<open>n\<close> and \<open>pit\<close> are its local variables: \<open>n\<close> is the local \<^verbatim>\<open>io_apic_count\<close>, which hides the
  static one. A processor past the end of \<^verbatim>\<open>processor_local_data\<close> is a \<^term>\<open>Fault\<close>.
\<close>

record madt_scan =
  sc_cpu :: nat
  sc_n :: nat
  sc_pit :: u32

definition record_processor :: "memory \<Rightarrow> ptr \<Rightarrow> madt_scan \<times> acpi \<Rightarrow> (madt_scan \<times> acpi) outcome" where
  "record_processor m entry = (\<lambda>(sc, x).
     let i = sc_cpu sc in
     if MAX_CPUS_COUNT \<le> i then Fault else
     let x = x\<lparr>core_id := (core_id x)(i := of_nat i), local_apic_id := (local_apic_id x)(i := ucast (lapic_apic_id m entry))\<rparr> in
     Ret (if lapic_flags m entry \<noteq> 0 then sc\<lparr>sc_cpu := i + 1\<rparr> else sc, x))"

text \<open>Only the first IO APIC is mapped. If that fails, its registers are accessed through an address that is not mapped.\<close>

definition map_io_apic :: "nat \<Rightarrow> ptr \<Rightarrow> acpi \<times> kernel \<Rightarrow> (acpi \<times> kernel) outcome" where
  "map_io_apic depth entry = (\<lambda>(x, s).
     if io_apic_mmio_v_addr_region x \<noteq> NULL then Ret (x, s) else
     obind (vm_object_create_physical (ucast (io_apic_address (memory s) entry)) PAGE_SIZE
              (VM_WRITABLE OR VM_WRITABLE OR VM_DISABLE_CACHING) s) (\<lambda>(status, vm, s).
     if status \<noteq> IR_OK then Fault else
     obind (v_addr_region_map_vm_object depth (kernel_region s) (V_ADDR_REGION_WRITABLE OR V_ADDR_REGION_READABLE) vm 0 s)
       (\<lambda>(status, region, address, s).
     if status \<noteq> IR_OK then Fault
     else Ret (x\<lparr>io_apic_mmio_v_addr_region := region, io_apic_mmio_address := address\<rparr>, s))))"

definition mask_lines :: "ptr \<Rightarrow> u32 \<Rightarrow> acpi \<Rightarrow> acpi" where
  "mask_lines address entries =
     fold (\<lambda>i. io_apic_write address (of_nat i * 2 + IO_APIC_REDIRECTION_TABLE_BASE) (push_bit 16 1)) [0..<unat entries]"

definition record_io_apic :: "nat \<Rightarrow> platform \<Rightarrow> ptr \<Rightarrow> madt_scan \<times> acpi \<times> kernel \<Rightarrow> (madt_scan \<times> acpi \<times> kernel) outcome" where
  "record_io_apic depth pf entry = (\<lambda>(sc, x, s).
     obind (map_io_apic depth entry (x, s)) (\<lambda>(x, s).
     if io_apics_array x = NULL \<or> length (io_apics x) \<le> sc_n sc then Fault else
     let (version, x) = io_apic_read pf (io_apic_mmio_address x) IO_APIC_VERSION_REGISTER x;
         entries = (drop_bit 16 version AND 0xff) + 1;
         x = x\<lparr>io_apics := (io_apics x)[sc_n sc := \<lparr>io_address = io_apic_mmio_address x,
                 io_base = global_interrupt_base (memory s) entry, entry_count = entries\<rparr>]\<rparr>
     in Ret (sc\<lparr>sc_n := sc_n sc + 1\<rparr>, mask_lines (io_apic_mmio_address x) entries x, s)))"

definition record_entry :: "nat \<Rightarrow> platform \<Rightarrow> ptr \<Rightarrow> madt_scan \<times> acpi \<times> kernel \<Rightarrow> (madt_scan \<times> acpi \<times> kernel) outcome" where
  "record_entry depth pf entry = (\<lambda>(sc, x, s).
     let m = memory s in
     if entry_type m entry = 0 then obind (record_processor m entry (sc, x)) (\<lambda>(sc, x). Ret (sc, x, s))
     else if entry_type m entry = 1 then record_io_apic depth pf entry (sc, x, s)
     else if entry_type m entry = 2 then Ret (if override_source m entry = 0 then sc\<lparr>sc_pit := override_interrupt m entry\<rparr> else sc, x, s)
     else Ret (sc, x, s))"

partial_function (option) record_entries ::
  "nat \<Rightarrow> platform \<Rightarrow> ptr \<Rightarrow> ptr \<Rightarrow> madt_scan \<times> acpi \<times> kernel \<Rightarrow> (madt_scan \<times> acpi \<times> kernel) outcome option" where
  "record_entries depth pf entry_end entry st =
     (if entry < entry_end then
        case record_entry depth pf entry st of
          Ret st' \<Rightarrow> record_entries depth pf entry_end (entry + ucast (entry_length (memory (snd (snd st'))) entry)) st'
        | Fault \<Rightarrow> Some Fault | Panic \<Rightarrow> Some Panic | Hang \<Rightarrow> Some Hang
      else Some (Ret st))"

declare count_entries.simps [code] record_entries.simps [code]

definition madt_first :: "ptr \<Rightarrow> ptr" where "madt_first table = table + 44"
definition madt_end :: "memory \<Rightarrow> ptr \<Rightarrow> ptr" where "madt_end m table = table + ucast (header_length m table)"

definition scan_madt :: "nat \<Rightarrow> platform \<Rightarrow> acpi \<times> kernel \<Rightarrow> (madt_scan \<times> acpi \<times> kernel) outcome" where
  "scan_madt depth pf = (\<lambda>(x, s).
     let m = memory s; first = madt_first (madt x); entry_end = madt_end m (madt x) in
     case count_entries m entry_end first (0, io_apic_count x) of
       None \<Rightarrow> Hang
     | Some (cpus, ios) \<Rightarrow>
         let (a, s) = malloc s;
             x = x\<lparr>io_apic_count := ios, cpu_count := cpus, io_apics_array := a,
                   io_apics := replicate (unat ios) \<lparr>io_address = NULL, io_base = 0, entry_count = 0\<rparr>\<rparr> in
         looped (record_entries depth pf entry_end first (\<lparr>sc_cpu = 0, sc_n = 0, sc_pit = 0\<rparr>, x, s)))"

section \<open>Startup\<close>

definition map_local_apic :: "nat \<Rightarrow> acpi \<times> kernel \<Rightarrow> (acpi \<times> kernel) outcome" where
  "map_local_apic depth = (\<lambda>(x, s).
     obind (vm_object_create_physical (ucast (local_apic_address (memory s) (madt x))) PAGE_SIZE VM_MMIO_FLAGS s) (\<lambda>(status, vm, s).
     if status \<noteq> IR_OK then Panic else
     obind (v_addr_region_map_vm_object depth (kernel_region s)
              (V_ADDR_REGION_READABLE OR V_ADDR_REGION_WRITABLE OR V_ADDR_REGION_DISABLE_CACHE) vm 0 s)
       (\<lambda>(status, _, address, s).
     if status \<noteq> IR_OK then Panic else Ret (x\<lparr>local_apic_mmio_base := address\<rparr>, s))))"

text \<open>A table that was not found is read at a null pointer.\<close>

definition acpi_init ::
  "nat \<Rightarrow> platform \<Rightarrow> (string \<Rightarrow> ptr) \<Rightarrow> u64 \<Rightarrow> ptr \<Rightarrow> acpi \<times> kernel \<Rightarrow> (acpi \<times> kernel) outcome" where
  "acpi_init depth pf lit calibration_irq root = (\<lambda>(x, s).
     let x = find_acpi_tables (memory s) lit (x\<lparr>rsdp := root\<rparr>) in
     if fadt x = NULL \<or> madt x = NULL then Fault else
     obind (map_local_apic depth (x, s)) (\<lambda>(x, s).
     obind (scan_madt depth pf (apic_init pf x, s)) (\<lambda>(sc, x, s).
     obind (io_apic_interrupt_redirection pf 1 34 True False x) (\<lambda>x.
     timer_init depth pf calibration_irq (sc_pit sc) (x, s)))))"

section \<open>The registers of an IO APIC\<close>

text \<open>
  What the device behind the window at \<open>base\<close> holds after the events: the window writes the register that the latest write
  to the selector chose.
\<close>

fun selected :: "ptr \<Rightarrow> event list \<Rightarrow> u32 option" where
  "selected base [] = None"
| "selected base (Write32 a v # es) = (if a = base then Some v else selected base es)"
| "selected base (e # es) = selected base es"

fun io_apic_reg :: "ptr \<Rightarrow> u32 \<Rightarrow> event list \<Rightarrow> u32 option" where
  "io_apic_reg base r [] = None"
| "io_apic_reg base r (Write32 a v # es) =
     (if a = base + 0x10 \<and> selected base es = Some r then Some v else io_apic_reg base r es)"
| "io_apic_reg base r (e # es) = io_apic_reg base r es"

lemma window_differs [simp]: "(base :: ptr) + 0x10 \<noteq> base" "(base :: ptr) \<noteq> base + 0x10"
  by simp_all

lemma events_emit [simp]: "events (emit e x) = e # events x"
  by (simp add: emit_def)

lemma emit_same [simp]:
  "io_apics (emit e x) = io_apics x" "io_apic_count (emit e x) = io_apic_count x" "local_apic_id (emit e x) = local_apic_id x"
  "local_apic_mmio_base (emit e x) = local_apic_mmio_base x" "core_id (emit e x) = core_id x"
  "io_apic_mmio_v_addr_region (emit e x) = io_apic_mmio_v_addr_region x"
  "io_apic_mmio_address (emit e x) = io_apic_mmio_address x" "io_apics_array (emit e x) = io_apics_array x"
  by (simp_all add: emit_def)

lemma io_apic_reg_write:
  "io_apic_reg base r (events (io_apic_write base off v x)) = (if r = off then Some v else io_apic_reg base r (events x))"
  by (auto simp: io_apic_write_def)

lemma io_apic_reg_read: "io_apic_reg base r (events (snd (io_apic_read pf base off x))) = io_apic_reg base r (events x)"
  by (simp add: io_apic_read_def)

lemma io_apic_write_same [simp]:
  "io_apics (io_apic_write b r v x) = io_apics x" "io_apic_count (io_apic_write b r v x) = io_apic_count x"
  "local_apic_id (io_apic_write b r v x) = local_apic_id x" "core_id (io_apic_write b r v x) = core_id x"
  "io_apic_mmio_v_addr_region (io_apic_write b r v x) = io_apic_mmio_v_addr_region x"
  "io_apic_mmio_address (io_apic_write b r v x) = io_apic_mmio_address x"
  "io_apics_array (io_apic_write b r v x) = io_apics_array x"
  by (simp_all add: io_apic_write_def)

text \<open>A controller manages the lines from its base on, as many as it has entries.\<close>

definition manages :: "io_apic_info \<Rightarrow> u32 \<Rightarrow> bool" where
  "manages info line \<longleftrightarrow> unat (io_base info) \<le> unat line \<and> unat line < unat (io_base info) + unat (entry_count info)"

definition lines_fit :: "io_apic_info \<Rightarrow> bool" where
  "lines_fit info \<longleftrightarrow> unat (io_base info) + unat (entry_count info) < 2 ^ 32"

lemma find_io_apic_reaches:
  assumes "lines_fit info" "manages info line"
  shows "io_base info \<le> line \<and> line \<le> io_base info + entry_count info"
proof -
  have "unat (io_base info + entry_count info) = unat (io_base info) + unat (entry_count info)"
    using assms(1) by (simp add: lines_fit_def unat_word_ariths)
  then show ?thesis
    using assms(2) by (simp add: manages_def word_le_nat_alt)
qed

lemma find_io_apic_first:
  assumes "\<forall>i \<in> set before. \<not> (io_base i \<le> line \<and> line \<le> io_base i + entry_count i)"
    and "io_base info \<le> line" "line \<le> io_base info + entry_count info"
  shows "find_io_apic (before @ info # rest) (length (before @ info # rest)) line = Ret (Some info)"
  using assms by (induction before) auto

lemma find_io_apic_none:
  "\<forall>i \<in> set infos. \<not> (io_base i \<le> line \<and> line \<le> io_base i + entry_count i) \<Longrightarrow>
   find_io_apic infos (length infos) line = Ret None"
  by (induction infos) auto

lemma redirection_found:
  assumes "find_io_apic (io_apics x) (nat (sint (io_apic_count x))) line = Ret (Some info)"
  shows "\<exists>x'. io_apic_interrupt_redirection pf line gsi hi lev x = Ret x' \<and>
    (\<forall>r. io_apic_reg (io_address info) r (events x') =
       (if r = io_offset line info + 1 then Some (push_bit 24 (local_apic_id x 0))
        else if r = io_offset line info then Some (gsi OR push_bit 13 (of_bool (\<not> hi)) OR push_bit 15 (of_bool lev))
        else io_apic_reg (io_address info) r (events x)))"
  using assms
  by (simp add: io_apic_interrupt_redirection_def Let_def case_prod_unfold io_apic_reg_read io_apic_reg_write)

text \<open>
  The controller that the code looks a line up in, for a line of \<open>info\<close> behind the controllers \<open>before\<close>: the range of a
  controller is tested with its end included, so an earlier controller that ends just before the line is taken for its own.
\<close>

definition reached :: "u32 \<Rightarrow> io_apic_info list \<Rightarrow> io_apic_info \<Rightarrow> io_apic_info" where
  "reached line before info =
     (case find (\<lambda>i. line = io_base i + entry_count i) before of None \<Rightarrow> info | Some i \<Rightarrow> i)"

lemma reached_no_end: "\<forall>i \<in> set before. line \<noteq> io_base i + entry_count i \<Longrightarrow> reached line before info = info"
  by (auto simp: reached_def find_None_iff split: option.splits) (auto simp: find_Some_iff)

lemma reached_end: "reached line before info = info \<or> line = io_base (reached line before info) + entry_count (reached line before info)"
  by (auto simp: reached_def find_Some_iff split: option.splits)

lemma reaches_iff:
  assumes "lines_fit i"
  shows "io_base i \<le> line \<and> line \<le> io_base i + entry_count i \<longleftrightarrow> manages i line \<or> line = io_base i + entry_count i"
proof -
  have "unat (io_base i + entry_count i) = unat (io_base i) + unat (entry_count i)"
    using assms by (simp add: lines_fit_def unat_word_ariths)
  then show ?thesis
    by (auto simp: manages_def word_le_nat_alt word_unat_eq_iff)
qed

lemma find_io_apic_reached:
  assumes "manages info line" "lines_fit info" "\<forall>i \<in> set before. lines_fit i \<and> \<not> manages i line"
  shows "find_io_apic (before @ info # rest) (length (before @ info # rest)) line = Ret (Some (reached line before info))"
  using assms(3)
proof (induction before)
  case Nil
  then show ?case
    using find_io_apic_reaches [OF assms(2,1)] by (simp add: reached_def)
next
  case (Cons i "is")
  then show ?case
    using reaches_iff [of i line] by (auto simp: reached_def)
qed

lemma window_apart:
  assumes "b \<noteq> a" "b \<noteq> a + 0x10" "a \<noteq> b + 0x10"
  shows "io_apic_reg b r (events (io_apic_write a off v x)) = io_apic_reg b r (events x)"
    "io_apic_reg b r (events (snd (io_apic_read pf a off x))) = io_apic_reg b r (events x)"
  using assms by (auto simp: io_apic_write_def io_apic_read_def)

lemma redirection_apart:
  assumes "find_io_apic (io_apics x) (nat (sint (io_apic_count x))) line = Ret (Some info)"
    and "io_apic_interrupt_redirection pf line gsi hi lev x = Ret x'"
    and "b \<noteq> io_address info" "b \<noteq> io_address info + 0x10" "io_address info \<noteq> b + 0x10"
  shows "io_apic_reg b r (events x') = io_apic_reg b r (events x)"
proof -
  have "x' = snd (io_apic_read pf (io_address info) (io_offset line info + 1) (snd (io_apic_read pf (io_address info) (io_offset line info)
      (io_apic_write (io_address info) (io_offset line info + 1) (push_bit 24 (local_apic_id x 0))
      (io_apic_write (io_address info) (io_offset line info) (gsi OR push_bit 13 (of_bool (\<not> hi)) OR push_bit 15 (of_bool lev)) x)))))"
    using assms(1,2) by (simp add: io_apic_interrupt_redirection_def Let_def case_prod_unfold)
  then show ?thesis
    by (simp only: window_apart [OF assms(3-5)])
qed

text \<open>C38: Redirecting an interrupt line writes the vector, with its polarity and trigger mode, and the processor to that line's
  pair of registers, and changes no other register of any controller behind another window. The pair is that of the controller
  that manages the line, except when an earlier controller of the list ends just before the line: then it is the pair past the
  end of that controller's table, and the managing controller stays as it was.\<close>

theorem redirection_correct:
  assumes "nat (sint (io_apic_count x)) = length (io_apics x)" "io_apics x = before @ info # rest"
    and "manages info line" "lines_fit info" "\<forall>i \<in> set before. lines_fit i \<and> \<not> manages i line"
  shows "\<exists>x' c off. io_apic_interrupt_redirection pf line gsi hi lev x = Ret x' \<and>
    c = reached line before info \<and> off = (line - io_base c) * 2 + 0x10 \<and>
    ((\<forall>i \<in> set before. line \<noteq> io_base i + entry_count i) \<longrightarrow> c = info) \<and>
    (c \<noteq> info \<longrightarrow> off = entry_count c * 2 + 0x10) \<and>
    (\<forall>r. io_apic_reg (io_address c) r (events x') =
       (if r = off + 1 then Some (push_bit 24 (local_apic_id x 0))
        else if r = off then Some (gsi OR push_bit 13 (of_bool (\<not> hi)) OR push_bit 15 (of_bool lev))
        else io_apic_reg (io_address c) r (events x))) \<and>
    (\<forall>b. b \<noteq> io_address c \<longrightarrow> b \<noteq> io_address c + 0x10 \<longrightarrow> io_address c \<noteq> b + 0x10 \<longrightarrow>
       (\<forall>r. io_apic_reg b r (events x') = io_apic_reg b r (events x)))"
proof -
  let ?c = "reached line before info"
  have f: "find_io_apic (io_apics x) (nat (sint (io_apic_count x))) line = Ret (Some ?c)"
    using assms(1,2) find_io_apic_reached [OF assms(3-5), of rest] by simp
  have off: "io_offset line ?c = (line - io_base ?c) * 2 + 0x10"
    by (simp add: io_offset_def IO_APIC_REDIRECTION_TABLE_BASE_def)
  obtain x' where x': "io_apic_interrupt_redirection pf line gsi hi lev x = Ret x'"
      "\<forall>r. io_apic_reg (io_address ?c) r (events x') =
       (if r = io_offset line ?c + 1 then Some (push_bit 24 (local_apic_id x 0))
        else if r = io_offset line ?c then Some (gsi OR push_bit 13 (of_bool (\<not> hi)) OR push_bit 15 (of_bool lev))
        else io_apic_reg (io_address ?c) r (events x))"
    using redirection_found [OF f, of pf gsi hi lev] by blast
  have "line - io_base ?c = entry_count ?c" if "?c \<noteq> info"
    using reached_end [of line before info] that by (metis add_diff_cancel_left')
  then show ?thesis
    using x' reached_no_end [of before line info] redirection_apart [OF f x'(1)] unfolding off
    by (intro exI [of _ x'] exI [of _ ?c] exI [of _ "(line - io_base ?c) * 2 + 0x10"]) simp
qed

definition empty_gate :: idt_entry where
  "empty_gate = \<lparr>base_low = 0, segment = 0, ist_index = 0, gate = 0, base_mid = 0, base_high = 0\<rparr>"

definition demo_platform :: platform where
  "demo_platform = \<lparr>read32 = (\<lambda>_ _. 0xffff0bdb), read64 = (\<lambda>_ _. 0), rdmsr = (\<lambda>_ _. 0), interrupted = (\<lambda>_. True)\<rparr>"

definition demo_io_apics :: acpi where
  "demo_io_apics = (acpi_start (\<lambda>_. empty_gate))\<lparr>io_apics := [\<lparr>io_address = 0x1000, io_base = 0, entry_count = 24\<rparr>,
     \<lparr>io_address = 0x2000, io_base = 32, entry_count = 8\<rparr>], io_apic_count := 2\<rparr>"

text \<open>The second controller starts at 32 or, in the other state, where the first one ends.\<close>

definition adjacent_io_apics :: acpi where
  "adjacent_io_apics = demo_io_apics\<lparr>io_apics := [\<lparr>io_address = 0x1000, io_base = 0, entry_count = 24\<rparr>,
     \<lparr>io_address = 0x2000, io_base = 24, entry_count = 8\<rparr>]\<rparr>"

theorem redirection_correct_witness:
  "(\<exists>x'. io_apic_interrupt_redirection demo_platform 33 34 True False demo_io_apics = Ret x' \<and>
     io_apic_reg 0x2000 0x12 (events x') = Some 34) \<and>
   (\<exists>x'. io_apic_interrupt_redirection demo_platform 24 34 True False adjacent_io_apics = Ret x' \<and>
     io_apic_reg 0x1000 0x40 (events x') = Some 34 \<and> io_apic_reg 0x2000 0x10 (events x') = None)"
proof
  have "reached 33 [\<lparr>io_address = 0x1000, io_base = 0, entry_count = 24\<rparr>] i = i" for i
    by (simp add: reached_def)
  then show "\<exists>x'. io_apic_interrupt_redirection demo_platform 33 34 True False demo_io_apics = Ret x' \<and>
     io_apic_reg 0x2000 0x12 (events x') = Some 34"
    using redirection_correct [of demo_io_apics "[\<lparr>io_address = 0x1000, io_base = 0, entry_count = 24\<rparr>]"
      "\<lparr>io_address = 0x2000, io_base = 32, entry_count = 8\<rparr>" "[]" 33 demo_platform 34 True False]
    by (auto cong: if_cong simp: demo_io_apics_def acpi_start_def manages_def lines_fit_def io_offset_def IO_APIC_REDIRECTION_TABLE_BASE_def)
  have "reached 24 [\<lparr>io_address = 0x1000, io_base = 0, entry_count = 24\<rparr>] i = \<lparr>io_address = 0x1000, io_base = 0, entry_count = 24\<rparr>" for i
    by (simp add: reached_def)
  then show "\<exists>x'. io_apic_interrupt_redirection demo_platform 24 34 True False adjacent_io_apics = Ret x' \<and>
     io_apic_reg 0x1000 0x40 (events x') = Some 34 \<and> io_apic_reg 0x2000 0x10 (events x') = None"
    using redirection_correct [of adjacent_io_apics "[\<lparr>io_address = 0x1000, io_base = 0, entry_count = 24\<rparr>]"
      "\<lparr>io_address = 0x2000, io_base = 24, entry_count = 8\<rparr>" "[]" 24 demo_platform 34 True False]
    by (auto cong: if_cong simp: adjacent_io_apics_def demo_io_apics_def acpi_start_def manages_def lines_fit_def io_offset_def
        IO_APIC_REDIRECTION_TABLE_BASE_def)
qed

section \<open>The calibrated interval\<close>

lemma narrow_scast: "(ucast (scast (c::u32) :: u64) :: u32) = c"
  by (rule bit_word_eqI, rename_tac n) (case_tac "n = 31"; simp add: bit_simps min_def)

lemma ticks_from_int: "(0xffffffff :: u64) - scast (c::u32) = (ucast (0xffffffff - c) :: u64) + (if bit c 31 then 2 ^ 32 else 0)"
proof -
  have "unat c \<le> 0xffffffff" using unat_u32_less [of c] by simp
  then have u: "(ucast (0xffffffff - c) :: u64) = 0xffffffff - ucast c"
    by (simp add: word_unat_eq_iff unat_sub_if_size unsigned_ucast_eq take_bit_nat_eq_self word_le_nat_alt word_size)
  show ?thesis
  proof (cases "bit c 31")
    case True
    have hi: "(0xffffffff00000000 :: u64) = push_bit 32 (mask 32)"
      by (simp add: mask_eq_exp_minus_1)
    have "(scast c :: u64) = ucast c OR push_bit 32 (mask 32)"
      using True by (intro bit_word_eqI, rename_tac n) (case_tac "n = 31"; auto simp: bit_simps min_def dest: bit_imp_le_length)
    also have "\<dots> = ucast c + push_bit 32 (mask 32)"
      by (rule disjunctive_add [symmetric]) (auto simp: bit_simps dest: bit_imp_le_length)
    finally show ?thesis
      using True u unfolding hi [symmetric] by simp
  next
    case False
    then have s: "(scast c :: u64) = ucast c"
      by (intro bit_word_eqI, rename_tac n) (case_tac "n = 31"; auto simp: bit_simps min_def dest: bit_imp_le_length)
    then show ?thesis using u False by simp
  qed
qed

text \<open>When the calibration interrupt arrives, the periodic timer is started with exactly the ticks that its counter
  went down by, although the variable that holds them is too large by 2^32 while the counter's highest bit is set.\<close>

theorem calibrate_correct:
  assumes "interrupted pf es"
    and "es = Write32 (local_apic_mmio_base x + 0x380) 0xffffffff # Write32 (local_apic_mmio_base x + 0x3E0) 3 # events x"
    and "masked = Write32 (local_apic_mmio_base x + 0x320) 0x10000 # es"
    and "c = read32 pf masked (local_apic_mmio_base x + 0x390)"
  shows "\<exists>x'. calibrate pf x = Ret x' \<and> events x' =
      Write32 (local_apic_mmio_base x + 0x380) (0xffffffff - c) # Write32 (local_apic_mmio_base x + 0x3E0) 3 #
      Write32 (local_apic_mmio_base x + 0x320) 0x20020 # masked \<and>
    elapsed_ticks pf (x\<lparr>events := masked\<rparr>) = (ucast (0xffffffff - c) :: u64) + (if bit c 31 then 2 ^ 32 else 0)"
proof -
  note regs = APIC_TIMER_INITIAL_COUNT_def APIC_TIMER_DIVIDE_def APIC_LVT_TIMER_def APIC_LVT_INT_MASK_def
      APIC_TIMER_CURRENT_COUNT_def APIC_TIMER_MODE_PERIODIC_def apic_io_output_def elapsed_ticks_def apic_io_input_def
  have "elapsed_ticks pf (x\<lparr>events := masked\<rparr>) = 0xffffffff - scast c"
    using assms(4) by (simp add: regs)
  moreover have "\<exists>x'. calibrate pf x = Ret x' \<and> events x' =
      Write32 (local_apic_mmio_base x + 0x380) (ucast (0xffffffff - scast c :: u64)) # Write32 (local_apic_mmio_base x + 0x3E0) 3 #
      Write32 (local_apic_mmio_base x + 0x320) 0x20020 # masked"
    using assms by (simp add: calibrate_def Let_def regs)
  ultimately show ?thesis
    by (simp only: ucast_minus_u64 narrow_scast ticks_from_int [symmetric]) simp
qed

theorem calibrate_correct_witness:
  "\<exists>x'. calibrate demo_platform demo_io_apics = Ret x' \<and> hd (events x') = Write32 0x380 62500"
proof -
  have i: "interrupted demo_platform es" for es
    by (simp add: demo_platform_def)
  have b: "local_apic_mmio_base demo_io_apics = 0"
    by (simp add: demo_io_apics_def acpi_start_def)
  have r: "read32 demo_platform es a = 0xffff0bdb" for es a
    by (simp add: demo_platform_def)
  show ?thesis
    using calibrate_correct [OF i refl refl refl, of demo_io_apics] unfolding b r by force
qed

section \<open>The tables that are found\<close>

lemma strncmp_loop_literal:
  "cstring m q bs \<Longrightarrow> (case strncmp_loop m p q (length bs) of (s1, s2, k) \<Rightarrow> k = 0 \<or> m s1 = m s2) \<longleftrightarrow> read_bytes p (length bs) m = bs"
  by (induction bs arbitrary: p q) auto

lemma strncmp_literal:
  assumes "cstring m q bs" "unat n = length bs"
  shows "strncmp m p q n = 0 \<longleftrightarrow> read_bytes p (length bs) m = bs"
  using strncmp_loop_literal [OF assms(1), of p] assms(2) by (auto simp: strncmp_def split: prod.splits if_splits dest: word_uint_eq_iff [THEN iffD2])

definition signature_bytes :: "string \<Rightarrow> u8 list" where
  "signature_bytes s = map of_char s"

text \<open>The last of the tables with a good checksum and the signature, or what was known before.\<close>

definition last_table :: "memory \<Rightarrow> string \<Rightarrow> ptr list \<Rightarrow> ptr \<Rightarrow> ptr" where
  "last_table m s tables old = last (old # filter (\<lambda>t. acpi_checksum m t \<and> read_bytes t 4 m = signature_bytes s) tables)"

definition signatures :: "string list" where
  "signatures = [''APIC'', ''FACP'', ''SRAT'', ''SSDT'', ''HPET'']"

definition literals_ok :: "memory \<Rightarrow> (string \<Rightarrow> ptr) \<Rightarrow> bool" where
  "literals_ok m lit \<longleftrightarrow> (\<forall>s \<in> set signatures. cstring m (lit s) (signature_bytes s))"

lemma strncmp_signature:
  assumes "literals_ok m lit" "s \<in> set signatures"
  shows "strncmp m table (lit s) 4 = 0 \<longleftrightarrow> read_bytes table 4 m = signature_bytes s"
proof -
  have "length (signature_bytes s) = 4"
    using assms(2) by (auto simp: signatures_def signature_bytes_def)
  then show ?thesis
    using strncmp_literal [of m "lit s" "signature_bytes s" 4 table] assms by (simp add: literals_ok_def)
qed

lemma signatures_differ:
  "signature_bytes ''APIC'' = [65, 80, 73, 67]" "signature_bytes ''FACP'' = [70, 65, 67, 80]"
  "signature_bytes ''SRAT'' = [83, 82, 65, 84]" "signature_bytes ''SSDT'' = [83, 83, 68, 84]"
  "signature_bytes ''HPET'' = [72, 80, 69, 84]"
  by (simp_all add: signature_bytes_def of_char_def)

definition known_tables :: "memory \<Rightarrow> ptr list \<Rightarrow> acpi \<Rightarrow> acpi" where
  "known_tables m ts x = x\<lparr>madt := last_table m ''APIC'' ts (madt x), fadt := last_table m ''FACP'' ts (fadt x),
     srat := last_table m ''SRAT'' ts (srat x), ssdt := last_table m ''SSDT'' ts (ssdt x), hpet := last_table m ''HPET'' ts (hpet x)\<rparr>"

lemma check_table_known:
  assumes "literals_ok m lit"
  shows "check_table m lit t (known_tables m ts x) = known_tables m (ts @ [t]) x"
proof -
  have s: "''APIC'' \<in> set signatures" "''FACP'' \<in> set signatures" "''SRAT'' \<in> set signatures" "''SSDT'' \<in> set signatures"
    "''HPET'' \<in> set signatures"
    by (simp_all add: signatures_def)
  show ?thesis
    unfolding check_table_def record_acpi_table_address_def s [THEN strncmp_signature [OF assms]]
    by (simp add: known_tables_def last_table_def signatures_differ)
qed

lemma fold_check_table:
  assumes "literals_ok m lit"
  shows "fold (check_table m lit) ts x = known_tables m ts x"
proof (induction ts rule: rev_induct)
  case Nil
  show ?case
    by (simp add: known_tables_def last_table_def)
next
  case (snoc t ts)
  then show ?case
    by (simp add: check_table_known [OF assms])
qed

text \<open>The tables that the root table lists, by its kind: entries of four bytes, or of eight.\<close>

definition root_tables :: "memory \<Rightarrow> ptr \<Rightarrow> ptr list" where
  "root_tables m root =
     (if m (root + 15) < 2 then
        let t = ucast (read_u32 m (root + 16)) + physical_map_base in
        map (\<lambda>i. ucast (read_u32 m (t + 36 + 4 * of_nat i)) + physical_map_base) [0..<(unat (read_u32 m (t + 4)) - 36) div 4]
      else
        let t = read_word (root + 24) m + physical_map_base in
        map (\<lambda>i. read_word (t + 36 + 8 * of_nat i) m + physical_map_base) [0..<(unat (read_u32 m (t + 4)) - 36) div 8])"

lemma uint_range_u32: "0 \<le> uint (x :: u32) \<and> uint x < 4294967296"
  using uint_lt2p [of x] by simp

lemma nat_sint_u32: "nat (sint (x :: u32)) = (if unat x < 2 ^ 31 then unat x else 0)"
proof -
  have u: "0 \<le> uint x" "uint x < 4294967296"
    using uint_range_u32 by simp_all
  have s: "sint x = (uint x + 2147483648) mod 4294967296 - 2147483648"
    by (simp add: sint_uint signed_take_bit_eq_take_bit_shift take_bit_eq_mod)
  have lt: "unat x < 2 ^ 31 \<longleftrightarrow> uint x < 2147483648"
    using of_nat_less_iff [where ?'a = int, of "unat x" "2 ^ 31"] by simp
  show ?thesis
  proof (cases "uint x < 2147483648")
    case True
    then show ?thesis
      using u s lt by (simp add: mod_pos_pos_trivial)
  next
    case False
    then have "(uint x + 2147483648) mod 4294967296 = uint x - 2147483648"
      using u mod_add_self2 [of "uint x - 2147483648" 4294967296] by (simp add: mod_pos_pos_trivial add.commute)
    then show ?thesis
      using u s lt False by simp
  qed
qed


lemma count_small: "n < 2 ^ 31 \<Longrightarrow> unat (q :: u64) = n \<Longrightarrow> nat (int_of_u64 q) = n"
  by (simp add: int_of_u64_def nat_sint_u32 unsigned_ucast_eq take_bit_nat_eq_self)


lemma count_negative: "2 ^ 31 \<le> unat (q :: u64) mod 2 ^ 32 \<Longrightarrow> nat (int_of_u64 q) = 0"
  by (simp add: int_of_u64_def nat_sint_u32 unsigned_ucast_eq take_bit_eq_mod)


lemma underflow_is_negative:
  assumes "n < 36" "w = 4 \<or> w = 8"
  shows "2 ^ 31 \<le> ((2 ^ 64 - 36 + n) div w) mod (2 ^ 32 :: nat)"
proof -
  have "\<forall>n \<in> set [0..<36]. 2 ^ 31 \<le> ((2 ^ 64 - 36 + n) div 4) mod (2 ^ 32 :: nat)"
    "\<forall>n \<in> set [0..<36]. 2 ^ 31 \<le> ((2 ^ 64 - 36 + n) div 8) mod (2 ^ 32 :: nat)"
    by (simp_all add: upt_rec)
  then show ?thesis
    using assms by auto
qed

lemma sdt_count:
  assumes "w = 4 \<or> w = (8 :: u64)"
  shows "sdt_count m t w = (unat (read_u32 m (t + 4)) - 36) div unat w"
proof -
  define n where "n = unat (read_u32 m (t + 4))"
  have n: "n < 2 ^ 32" "unat (ucast (read_u32 m (t + 4)) :: u64) = n"
    using unat_u32_less [of "read_u32 m (t + 4)"] by (simp_all add: n_def unsigned_ucast_eq take_bit_nat_eq_self)
  have w: "unat w = 4 \<or> unat w = 8"
    using assms by auto
  have len: "unat (ucast (read_u32 m (t + 4)) - 36 :: u64) = (if 36 \<le> n then n - 36 else 2 ^ 64 - 36 + n)"
    using n by (simp add: unat_sub_if_size word_size word_le_nat_alt)
  show ?thesis
  proof (cases "36 \<le> n")
    case True
    then have "unat ((ucast (read_u32 m (t + 4)) - 36 :: u64) div w) = (n - 36) div unat w"
      using len by (simp add: unat_div)
    moreover have "(n - 36) div unat w < 2 ^ 31"
      using n(1) w by auto
    ultimately show ?thesis
      by (simp add: sdt_count_def count_small n_def)
  next
    case False
    then have "unat ((ucast (read_u32 m (t + 4)) - 36 :: u64) div w) = (2 ^ 64 - 36 + n) div unat w"
      using len by (simp add: unat_div)
    then have "nat (int_of_u64 ((ucast (read_u32 m (t + 4)) - 36) div w)) = 0"
      using underflow_is_negative [of n "unat w"] False w by (intro count_negative) simp
    then show ?thesis
      using False by (simp add: sdt_count_def n_def)
  qed
qed

text \<open>C12: The search for the firmware's tables finds, of each kind, the last table of the root table whose checksum is
  good, with entries of four or eight bytes by the version of the root pointer, and looks at no entry when the root table
  is shorter than its own header.\<close>

theorem acpi_tables_found:
  assumes "literals_ok m lit"
  shows "find_acpi_tables m lit x = known_tables m (root_tables m (rsdp x)) x"
  unfolding fold_check_table [OF assms, symmetric] root_tables_def find_acpi_tables_def
  by (simp add: Let_def sdt_count fold_map comp_def)

definition demo_tables :: memory where
  "demo_tables = write_bytes 0x100 (concat (map (\<lambda>s. signature_bytes s @ [0]) signatures))
     (write_bytes 0x1010 [0, 0x20] (write_bytes (physical_map_base + 0x2004) [40]
     (write_bytes (physical_map_base + 0x2024) [0, 0x30]
     (write_bytes (physical_map_base + 0x3000) (signature_bytes ''APIC'' @ [10, 0, 0, 0, 0, 217]) (\<lambda>_. 0)))))"

definition demo_lit :: "string \<Rightarrow> ptr" where
  "demo_lit s = (if s = ''APIC'' then 0x100 else if s = ''FACP'' then 0x105 else if s = ''SRAT'' then 0x10A
     else if s = ''SSDT'' then 0x10F else 0x114)"

lemma demo_literals: "literals_ok demo_tables demo_lit"
  by (simp add: literals_ok_def signatures_def demo_tables_def demo_lit_def signatures_differ)

lemma demo_reads:
  "demo_tables 0x100F = 0" "read_u32 demo_tables 0x1010 = 0x2000" "read_u32 demo_tables 0xffff800000002004 = 40"
  "read_u32 demo_tables 0xffff800000002024 = 0x3000" "read_u32 demo_tables 0xffff800000003004 = 10"
  by (simp_all add: demo_tables_def read_u32_def read_word_def upt_rec signatures_def signatures_differ)

lemma demo_root: "root_tables demo_tables 0x1000 = [0xffff800000003000]"
  by (simp add: root_tables_def demo_reads)

lemma demo_madt:
  "acpi_checksum demo_tables 0xffff800000003000" "read_bytes 0xffff800000003000 4 demo_tables = [65, 80, 73, 67]"
  by (simp_all add: acpi_checksum_def demo_reads read_bytes_def upt_rec)
    (simp_all add: demo_tables_def signatures_def signatures_differ)

theorem acpi_tables_found_witness:
  "madt (find_acpi_tables demo_tables demo_lit ((acpi_start (\<lambda>_. empty_gate))\<lparr>rsdp := 0x1000\<rparr>)) = physical_map_base + 0x3000"
  using acpi_tables_found [OF demo_literals, of "(acpi_start (\<lambda>_. empty_gate))\<lparr>rsdp := 0x1000\<rparr>"]
  by (simp add: known_tables_def last_table_def signatures_differ demo_root demo_madt)

section \<open>What the scans record\<close>







text \<open>Consecutive rows of a table, from row \<open>b\<close> on, each filled from its entry.\<close>

definition rows :: "(nat \<Rightarrow> ptr \<Rightarrow> bool) \<Rightarrow> nat \<Rightarrow> ptr list \<Rightarrow> bool" where
  "rows Q b xs \<longleftrightarrow> (\<forall>k < length xs. Q (b + k) (xs ! k))"

lemma rows_simps [simp]: "rows Q b []" "rows Q b [p] \<longleftrightarrow> Q b p"
  by (simp_all add: rows_def)














lemma rows_mono: "rows P b ps \<Longrightarrow> (\<And>k. k < length ps \<Longrightarrow> P (b + k) (ps ! k) \<Longrightarrow> Q (b + k) (ps ! k)) \<Longrightarrow> rows Q b ps"
  by (simp add: rows_def)



lemma mask_lines_same [simp]:
  "io_apics (mask_lines a n x) = io_apics x" "io_apic_count (mask_lines a n x) = io_apic_count x"
  "local_apic_id (mask_lines a n x) = local_apic_id x" "core_id (mask_lines a n x) = core_id x"
  "io_apic_mmio_v_addr_region (mask_lines a n x) = io_apic_mmio_v_addr_region x"
  "io_apic_mmio_address (mask_lines a n x) = io_apic_mmio_address x"
  "io_apics_array (mask_lines a n x) = io_apics_array x" "cpu_count (mask_lines a n x) = cpu_count x"
proof -
  have "io_apics (fold (\<lambda>i. io_apic_write a (f i) v) is x) = io_apics x \<and>
     io_apic_count (fold (\<lambda>i. io_apic_write a (f i) v) is x) = io_apic_count x \<and>
     local_apic_id (fold (\<lambda>i. io_apic_write a (f i) v) is x) = local_apic_id x \<and>
     core_id (fold (\<lambda>i. io_apic_write a (f i) v) is x) = core_id x \<and>
     io_apic_mmio_v_addr_region (fold (\<lambda>i. io_apic_write a (f i) v) is x) = io_apic_mmio_v_addr_region x \<and>
     io_apic_mmio_address (fold (\<lambda>i. io_apic_write a (f i) v) is x) = io_apic_mmio_address x \<and>
     io_apics_array (fold (\<lambda>i. io_apic_write a (f i) v) is x) = io_apics_array x \<and>
     cpu_count (fold (\<lambda>i. io_apic_write a (f i) v) is x) = cpu_count x" for f v and "is" :: "nat list"
    by (induction "is" arbitrary: x) (simp_all add: io_apic_write_def emit_def)
  then show "io_apics (mask_lines a n x) = io_apics x" "io_apic_count (mask_lines a n x) = io_apic_count x"
    "local_apic_id (mask_lines a n x) = local_apic_id x" "core_id (mask_lines a n x) = core_id x"
    "io_apic_mmio_v_addr_region (mask_lines a n x) = io_apic_mmio_v_addr_region x"
    "io_apic_mmio_address (mask_lines a n x) = io_apic_mmio_address x"
    "io_apics_array (mask_lines a n x) = io_apics_array x" "cpu_count (mask_lines a n x) = cpu_count x"
    by (simp_all add: mask_lines_def)
qed















text \<open>An entry whose length is zero keeps the scan where it is.\<close>

lemma count_entries_stuck:
  assumes "p < e" "m (p + 1) = 0"
  shows "count_entries m e p counts = None"
proof (cases "count_entries m e p counts")
  case (Some r)
  have "m = m \<longrightarrow> e = e \<longrightarrow> p = p \<longrightarrow> False"
  proof (rule count_entries.raw_induct [OF _ Some, of "\<lambda>m' e' p' c r. m' = m \<longrightarrow> e' = e \<longrightarrow> p' = p \<longrightarrow> False"])
    fix f m' e' p' c r
    assume IH: "\<And>m' e' p' c r. f m' e' p' c = Some r \<Longrightarrow> m' = m \<longrightarrow> e' = e \<longrightarrow> p' = p \<longrightarrow> False"
      and step: "(if p' < e' then f m' e' (p' + ucast (entry_length m' p')) (count_entry m' p' c) else Some c) = Some r"
    show "m' = m \<longrightarrow> e' = e \<longrightarrow> p' = p \<longrightarrow> False"
      using IH [of m e p "count_entry m p c" r] step assms by auto
  qed
  then show ?thesis
    by simp
qed

end
