(* ===== verification/Paging_Init.thy ===== *)
theory Paging_Init
  imports V_Addr_Region
begin

text \<open>
  Building the kernel's first page tables (\<^verbatim>\<open>paging_init\<close> of \<^verbatim>\<open>arch/x86_64/paging.c\<close>) and reading tables for a report
  (\<^verbatim>\<open>paging_print_tables\<close>). The static tables of the kernel image are parameters, given by their physical addresses; like
  every table they are stored under their addresses in the physical map. The processor's translation, with pages of 2 MB
  and 1 GB, is a definition of its own, and the tables are proved to translate the whole physical map and the image.
\<close>

section \<open>The kernel's own tables\<close>

definition PAGE_2MB_ADDRESS_MASK :: u64 where "PAGE_2MB_ADDRESS_MASK = 0x000fffffffe00000"

record boot_tables =
  bt_pml4 :: u64
  bt_pml3s :: u64
  bt_pml2 :: u64
  bt_window :: u64
  bt_start :: u64
  bt_end :: u64

text \<open>\<^verbatim>\<open>kernel_pml3s\<close> is an array of 256 tables.\<close>

definition kernel_pml3 :: "boot_tables \<Rightarrow> nat \<Rightarrow> u64" where
  "kernel_pml3 bt i = bt_pml3s bt + of_nat i * PAGE_SIZE"

definition set_physical_entry :: "u64 \<Rightarrow> nat \<Rightarrow> u64 \<Rightarrow> mmu \<Rightarrow> mmu outcome" where
  "set_physical_entry table index e = set_entry (p_addr_to_physical_map table) index e"

definition link_pml3s :: "boot_tables \<Rightarrow> mmu \<Rightarrow> mmu outcome" where
  "link_pml3s bt = ofold (\<lambda>i. set_physical_entry (bt_pml4 bt) (i + 256)
     (kernel_pml3 bt i OR PAGE_PRESENT OR PAGE_GLOBAL OR PAGE_WRITABLE)) [0..<256]"

text \<open>The image is mapped with large pages from physical address zero on; more than 512 would leave the table.\<close>

definition image_page_count :: "boot_tables \<Rightarrow> nat" where
  "image_page_count bt = unat (ucast (ROUND_UP (bt_end bt) LARGE_PAGE_SIZE div LARGE_PAGE_SIZE) :: u32)"

definition image_entry :: "nat \<Rightarrow> u64" where
  "image_entry i = (of_nat i * LARGE_PAGE_SIZE AND PAGE_ADDRESS_MASK) OR PAGE_PRESENT OR PAGE_LARGE_PAGE OR PAGE_GLOBAL OR PAGE_WRITABLE"

definition map_kernel_image :: "boot_tables \<Rightarrow> mmu \<Rightarrow> mmu outcome" where
  "map_kernel_image bt s =
     (let va = bt_start bt + KERNEL_VIRTUAL_ADDRESS; i4 = INDEX_AT_LEVEL va 3; pml3 = kernel_pml3 bt (i4 - 256) in
      obind (set_physical_entry (bt_pml4 bt) i4 (pml3 OR PAGE_PRESENT OR PAGE_WRITABLE OR PAGE_GLOBAL) s) (\<lambda>s.
      obind (set_physical_entry pml3 (INDEX_AT_LEVEL va 2)
               (bt_pml2 bt OR PAGE_PRESENT OR PAGE_CACHE_DISABLE OR PAGE_WRITABLE OR PAGE_GLOBAL) s) (\<lambda>s.
      if 512 < image_page_count bt then Fault
      else ofold (\<lambda>i. set_physical_entry (bt_pml2 bt) i (image_entry i)) [0..<image_page_count bt] s)))"

section \<open>The physical map\<close>

text \<open>The search starts from the first region without looking at its type.\<close>

definition largest_region :: "physical_region list \<Rightarrow> nat" where
  "largest_region rs = fold (\<lambda>i best. if rg_length (rs ! i) > rg_length (rs ! best) \<and> rg_type (rs ! i) = REGION_TYPE_AVAILABLE
     then i else best) [0..<length rs] 0"

definition highest_physical_address :: "physical_region list \<Rightarrow> u64" where
  "highest_physical_address rs = fold (\<lambda>r h. if rg_base r + rg_length r > h then rg_base r + rg_length r else h) rs 0"

definition required_pml2s :: "physical_region list \<Rightarrow> nat" where
  "required_pml2s rs =
     (let h = highest_physical_address rs; h = (if h > GIGABYTE_PAGE_SIZE * 512 then GIGABYTE_PAGE_SIZE * 512 else h) in
      unat (ROUND_UP h GIGABYTE_PAGE_SIZE div LARGE_PAGE_SIZE div 512))"

definition carve_tables :: "physical_region list \<Rightarrow> physical_region list" where
  "carve_tables rs = (let i = largest_region rs in
     rs[i := (rs ! i)\<lparr>rg_length := rg_length (rs ! i) - of_nat (required_pml2s rs) * PAGE_SIZE\<rparr>])"

text \<open>
  One table of the map: it is entered in the map's upper table, then filled through the window, whose large page is moved
  to cover it.
\<close>

definition physical_map_pml2 :: "u64 \<Rightarrow> page_table" where
  "physical_map_pml2 physical_address = (\<lambda>p. if p < 512 then (physical_address + of_nat p * LARGE_PAGE_SIZE)
     OR PAGE_PRESENT OR PAGE_LARGE_PAGE OR PAGE_CACHE_DISABLE OR PAGE_WRITABLE OR PAGE_GLOBAL else 0)"

definition map_gigabyte :: "boot_tables \<Rightarrow> u64 \<Rightarrow> nat \<Rightarrow> mmu \<Rightarrow> mmu outcome" where
  "map_gigabyte bt first i s =
     (let pml2_address = first + of_nat i * PAGE_SIZE in
      obind (set_physical_entry (kernel_pml3 bt 0) i (pml2_address OR PAGE_PRESENT OR PAGE_WRITABLE OR PAGE_GLOBAL) s) (\<lambda>s.
      obind (set_physical_entry (bt_window bt) 0
               ((pml2_address AND PAGE_2MB_ADDRESS_MASK) OR PAGE_PRESENT OR PAGE_LARGE_PAGE OR PAGE_WRITABLE OR PAGE_GLOBAL) s) (\<lambda>s.
      Ret (s\<lparr>mm_tables := (mm_tables s)(p_addr_to_physical_map pml2_address \<mapsto>
                physical_map_pml2 (of_nat i * (512 * LARGE_PAGE_SIZE)))\<rparr>))))"

definition build_physical_map :: "boot_tables \<Rightarrow> u64 \<Rightarrow> nat \<Rightarrow> mmu \<Rightarrow> mmu outcome" where
  "build_physical_map bt first n s =
     obind (set_physical_entry (kernel_pml3 bt 1) 0 (bt_window bt OR PAGE_PRESENT OR PAGE_WRITABLE OR PAGE_GLOBAL) s)
       (ofold (map_gigabyte bt first) [0..<n])"

text \<open>The memory map is the region list of the physical memory manager. An empty one needs no tables.\<close>

definition paging_init :: "boot_tables \<Rightarrow> ptr \<Rightarrow> kernel \<Rightarrow> kernel outcome" where
  "paging_init bt kernel_space s =
     (let p = mm_pmm (kernel_mmu s); rs = carve_tables (regions_array p); r = rs ! largest_region (regions_array p);
          first = (if rs = [] then 0 else rg_base r + rg_length r) in
      obind (link_pml3s bt (kernel_mmu s)) (\<lambda>m.
      obind (map_kernel_image bt m) (\<lambda>m.
      obind (build_physical_map bt first (required_pml2s (regions_array p)) m) (\<lambda>m.
      Ret (init_kernel_address_space kernel_space
             \<lparr>table_base = p_addr_to_physical_map (bt_pml4 bt), as_lock = False\<rparr>
             (s\<lparr>kernel_mmu := m\<lparr>mm_pmm := (mm_pmm m)\<lparr>regions_array := rs\<rparr>\<rparr>, cr3 := bt_pml4 bt\<rparr>))))))"

section \<open>Reporting a translation\<close>

text \<open>
  The entries that are shown, from the top, and the physical address found. A physical table address is meant to be
  moved into the physical map, but the offset is added to a pointer and so counted in entries.
\<close>

definition print_start :: "ptr \<Rightarrow> ptr" where
  "print_start table_root =
     (if table_root > KERNEL_VIRTUAL_ADDRESS then table_root - KERNEL_VIRTUAL_ADDRESS + physical_map_base
      else if table_root > physical_map_base then table_root
      else table_root + 8 * physical_map_base)"

fun print_levels :: "nat \<Rightarrow> ptr \<Rightarrow> u64 \<Rightarrow> mmu \<Rightarrow> (u64 list \<times> u64 option) outcome" where
  "print_levels 0 table target s = obind (get_entry table (INDEX_AT_LEVEL target 0) s) (\<lambda>e.
     Ret ([e], if IS_PRESENT e then Some (e AND PAGE_ADDRESS_MASK) else None))"
| "print_levels (Suc level) table target s = obind (get_entry table (INDEX_AT_LEVEL target (Suc level)) s) (\<lambda>e.
     if \<not> IS_PRESENT e then Ret ([e], None)
     else if IS_LARGE_PAGE e then Ret ([e], Some (e AND PAGE_ADDRESS_MASK))
     else obind (print_levels level (p_addr_to_physical_map (e AND PAGE_ADDRESS_MASK)) target s) (\<lambda>(es, r). Ret (e # es, r)))"

definition paging_print_tables :: "ptr \<Rightarrow> u64 \<Rightarrow> mmu \<Rightarrow> (u64 list \<times> u64 option) outcome" where
  "paging_print_tables table_root target = print_levels 3 (print_start table_root) target"

section \<open>The processor's translation\<close>

text \<open>Level by level from the top table; an entry that maps a page ends the walk, with the rest of the address as offset.\<close>

definition page_frame :: "nat \<Rightarrow> u64 \<Rightarrow> u64 \<Rightarrow> u64" where
  "page_frame level e va = (e AND PAGE_ADDRESS_MASK AND NOT (mask (12 + 9 * level))) OR (va AND mask (12 + 9 * level))"

fun mmu_walk :: "nat \<Rightarrow> table_store \<Rightarrow> u64 \<Rightarrow> u64 \<Rightarrow> u64 option" where
  "mmu_walk level T table va = (case T (p_addr_to_physical_map table) of None \<Rightarrow> None | Some t \<Rightarrow>
     let e = t (INDEX_AT_LEVEL va level) in
     if \<not> IS_PRESENT e then None
     else case level of
       0 \<Rightarrow> Some (page_frame 0 e va)
     | Suc lower \<Rightarrow> if IS_LARGE_PAGE e then (if level < 3 then Some (page_frame level e va) else None)
                   else mmu_walk lower T (e AND PAGE_ADDRESS_MASK) va)"

declare mmu_walk.simps [simp del]

text \<open>It is the translation of the page tables, with the frame of the entry that is used.\<close>

lemma mmu_walk_find_entry:
  assumes "table_at T root p = Some (p_addr_to_physical_map t)" "l \<le> 3"
  shows "mmu_walk l T t va = map_option (\<lambda>(k, e). page_frame k e va)
    (find_entry (entry_at T root) p (map (INDEX_AT_LEVEL va) (rev [0..<Suc l])))"
  using assms
proof (induction l arbitrary: t p)
  case 0
  then show ?case
    by (subst mmu_walk.simps) (simp add: entry_at_def Let_def split: option.split)
next
  case (Suc l)
  let ?i = "INDEX_AT_LEVEL va (Suc l)"
  define js where "js = map (INDEX_AT_LEVEL va) (rev [0..<Suc l])"
  have js: "map (INDEX_AT_LEVEL va) (rev [0..<Suc (Suc l)]) = ?i # js" "js \<noteq> []" "length js = Suc l"
    by (simp_all add: js_def)
  show ?case
  proof (cases "T (p_addr_to_physical_map t)")
    case None
    then show ?thesis
      using Suc.prems(1) unfolding js(1) by (subst mmu_walk.simps) (simp add: entry_at_def)
  next
    case (Some tab)
    have "table_at T root (p @ [?i]) = Some (p_addr_to_physical_map (tab ?i AND PAGE_ADDRESS_MASK))"
      if "IS_PRESENT (tab ?i)" "\<not> IS_LARGE_PAGE (tab ?i)"
      using Suc.prems(1) Some that by (simp add: table_at_append next_table_def p_addr_to_physical_map_def)
    then have "mmu_walk l T (tab ?i AND PAGE_ADDRESS_MASK) va =
        map_option (\<lambda>(k, e). page_frame k e va) (find_entry (entry_at T root) (p @ [?i]) js)"
      if "IS_PRESENT (tab ?i)" "\<not> IS_LARGE_PAGE (tab ?i)"
      using Suc.IH [of "p @ [?i]"] Suc.prems(2) that unfolding js_def by simp
    moreover have "entry_at T root p ?i = Some (tab ?i)"
      using Suc.prems(1) Some by (simp add: entry_at_def)
    ultimately show ?thesis
      using Some js(2,3) unfolding js(1) by (subst mmu_walk.simps) (simp add: Let_def)
  qed
qed

lemma mmu_walk_translation:
  "mmu_walk 3 T t va = map_option (\<lambda>(k, e). page_frame k e va) (translation T (p_addr_to_physical_map t) va)"
proof -
  have "walk va @ [INDEX_AT_LEVEL va 0] = map (INDEX_AT_LEVEL va) (rev [0..<Suc 3])"
    by (simp add: walk_def numeral_3_eq_3 numeral_2_eq_2)
  then show ?thesis
    unfolding translation_def by (simp only: mmu_walk_find_entry [of T _ "[]"] table_at.simps(1) order.refl)
qed

section \<open>Entries\<close>

definition entry :: "mmu \<Rightarrow> u64 \<Rightarrow> nat \<Rightarrow> u64 option" where
  "entry s t j = (case mm_tables s (p_addr_to_physical_map t) of None \<Rightarrow> None | Some f \<Rightarrow> Some (f j))"

definition is_table :: "mmu \<Rightarrow> u64 \<Rightarrow> bool" where
  "is_table s t \<longleftrightarrow> p_addr_to_physical_map t \<in> dom (mm_tables s)"

lemma p_addr_to_physical_map_inj [simp]: "p_addr_to_physical_map a = p_addr_to_physical_map b \<longleftrightarrow> a = b"
  by (simp add: p_addr_to_physical_map_def)

lemma set_physical_entry_ok:
  assumes "is_table s t"
  shows "\<exists>s'. set_physical_entry t j e s = Ret s' \<and> (\<forall>t' j'. entry s' t' j' = (if t' = t \<and> j' = j then Some e else entry s t' j')) \<and>
    (\<forall>t'. is_table s' t' = is_table s t') \<and> mm_pmm s' = mm_pmm s"
  using assms by (auto simp: set_physical_entry_def set_entry_def is_table_def entry_def)

lemma set_physical_entries_ok:
  assumes "is_table s t" "inj_on g (set xs)" "distinct xs"
  shows "\<exists>s'. ofold (\<lambda>i. set_physical_entry t (g i) (h i)) xs s = Ret s' \<and>
    (\<forall>i \<in> set xs. entry s' t (g i) = Some (h i)) \<and>
    (\<forall>t' j'. t' \<noteq> t \<or> j' \<notin> g ` set xs \<longrightarrow> entry s' t' j' = entry s t' j') \<and>
    (\<forall>t'. is_table s' t' = is_table s t') \<and> mm_pmm s' = mm_pmm s"
  using assms
proof (induction xs arbitrary: s)
  case (Cons x xs)
  obtain s1 where s1: "set_physical_entry t (g x) (h x) s = Ret s1"
      "\<forall>t' j'. entry s1 t' j' = (if t' = t \<and> j' = g x then Some (h x) else entry s t' j')"
      "\<forall>t'. is_table s1 t' = is_table s t'" "mm_pmm s1 = mm_pmm s"
    using set_physical_entry_ok [OF Cons.prems(1)] by blast
  obtain s2 where s2: "ofold (\<lambda>i. set_physical_entry t (g i) (h i)) xs s1 = Ret s2"
      "\<forall>i \<in> set xs. entry s2 t (g i) = Some (h i)"
      "\<forall>t' j'. t' \<noteq> t \<or> j' \<notin> g ` set xs \<longrightarrow> entry s2 t' j' = entry s1 t' j'"
      "\<forall>t'. is_table s2 t' = is_table s1 t'" "mm_pmm s2 = mm_pmm s1"
    using Cons.IH [of s1] Cons.prems s1(3) by auto
  have "g x \<notin> g ` set xs"
    using Cons.prems(2,3) by auto
  then show ?case
    using s1 s2 by (intro exI [of _ s2]) auto
qed simp

lemma INDEX_upper_half:
  assumes "unat p < 2 ^ 39"
  shows "INDEX_AT_LEVEL (physical_map_base + p) 3 = 256" "INDEX_AT_LEVEL (physical_map_base + p) 2 = unat p div 2 ^ 30"
    "INDEX_AT_LEVEL (physical_map_base + p) 1 = unat p div 2 ^ 21 mod 512"
proof -
  have u: "unat (physical_map_base + p) = 0xffff800000000000 + unat p"
    using assms by (simp add: unat_word_ariths)
  have "unat p div 2 ^ 30 < 512"
    using assms by (simp add: div_less_iff_less_mult)
  then show "INDEX_AT_LEVEL (physical_map_base + p) 3 = 256" "INDEX_AT_LEVEL (physical_map_base + p) 2 = unat p div 2 ^ 30"
    "INDEX_AT_LEVEL (physical_map_base + p) 1 = unat p div 2 ^ 21 mod 512"
    using assms unfolding INDEX_AT_LEVEL_nat u by (simp_all add: div_plus_div_distrib_dvd_left mod_add_left_eq [symmetric])
qed

lemma INDEX_image:
  assumes "unat p < 2 ^ 30"
  shows "INDEX_AT_LEVEL (KERNEL_VIRTUAL_ADDRESS + p) 3 = 511" "INDEX_AT_LEVEL (KERNEL_VIRTUAL_ADDRESS + p) 2 = 510"
    "INDEX_AT_LEVEL (KERNEL_VIRTUAL_ADDRESS + p) 1 = unat p div 2 ^ 21"
proof -
  have u: "unat (KERNEL_VIRTUAL_ADDRESS + p) = 0xFFFFFFFF80000000 + unat p"
    using assms by (simp add: unat_word_ariths)
  have "unat p div 2 ^ 21 < 512"
    using assms by (simp add: div_less_iff_less_mult)
  moreover have "0xFFFFFFFF80000000 + unat p = 0x1FFFFFF * 2 ^ 39 + (547608330240 + unat p)"
    by simp
  then have "(0xFFFFFFFF80000000 + unat p) div 2 ^ 39 = 0x1FFFFFF"
    using assms by (simp only: div_mult_self3) simp
  ultimately show "INDEX_AT_LEVEL (KERNEL_VIRTUAL_ADDRESS + p) 3 = 511" "INDEX_AT_LEVEL (KERNEL_VIRTUAL_ADDRESS + p) 2 = 510"
    "INDEX_AT_LEVEL (KERNEL_VIRTUAL_ADDRESS + p) 1 = unat p div 2 ^ 21"
    using assms unfolding INDEX_AT_LEVEL_nat u by (simp_all add: div_plus_div_distrib_dvd_left mod_add_left_eq [symmetric])
qed

section \<open>Walking the tables that were built\<close>

lemma entry_or_flags:
  assumes "x AND PAGE_ADDRESS_MASK = x" "table_flags f"
  shows "IS_PRESENT (x OR f)" "\<not> IS_LARGE_PAGE (x OR f)" "(x OR f) AND PAGE_ADDRESS_MASK = x"
  using entry_present [OF assms(2), of x] entry_not_large [OF assms(2), of x] address_of_entry [of f x] assms
  by (simp_all add: table_flags_def)

lemma mmu_walk_table:
  assumes "entry s t (INDEX_AT_LEVEL va (Suc l)) = Some (x OR f)" "x AND PAGE_ADDRESS_MASK = x" "table_flags f"
  shows "mmu_walk (Suc l) (mm_tables s) t va = mmu_walk l (mm_tables s) x va"
  using assms(1) entry_or_flags [OF assms(2,3)]
  by (subst mmu_walk.simps) (auto simp: entry_def Let_def split: option.splits)

lemma mmu_walk_large:
  assumes "entry s t (INDEX_AT_LEVEL va (Suc l)) = Some e" "IS_PRESENT e" "IS_LARGE_PAGE e" "Suc l < 3"
  shows "mmu_walk (Suc l) (mm_tables s) t va = Some (page_frame (Suc l) e va)"
  using assms by (subst mmu_walk.simps) (auto simp: entry_def Let_def split: option.splits)

text \<open>A large page that starts at the 2 MB boundary below \<open>p\<close> holds \<open>p\<close>.\<close>

lemma page_frame_large:
  assumes "va AND mask 21 = p AND mask 21" "unat p < 2 ^ 52" "f AND PAGE_ADDRESS_MASK = 0"
    and "e = (p AND NOT (mask 21)) OR f"
  shows "page_frame 1 e va = p"
proof (rule bit_word_eqI)
  fix n
  assume n: "n < LENGTH(64)"
  have "take_bit 52 p = p"
    using assms(2) by (simp add: word_unat_eq_iff unsigned_take_bit_eq take_bit_nat_eq_self)
  then have p: "bit p n \<Longrightarrow> n < 52"
    by (metis bit_take_bit_iff)
  have f: "12 \<le> n \<Longrightarrow> n < 52 \<Longrightarrow> \<not> bit f n"
    using assms(3) by (simp add: and_mask_zero_iff)
  have low: "n < 21 \<Longrightarrow> bit va n \<longleftrightarrow> bit p n"
    using arg_cong [OF assms(1), of "\<lambda>w. bit w n"] by (simp add: bit_simps)
  show "bit (page_frame 1 e va) n \<longleftrightarrow> bit p n"
    unfolding page_frame_def assms(4) using n p f low
    by (cases "n < 21") (auto simp: bit_simps bit_PAGE_ADDRESS_MASK)
qed

lemma large_boundary: "of_nat (unat p div 2 ^ 21) * LARGE_PAGE_SIZE = (p :: u64) AND NOT (mask 21)"
proof -
  have "unat p div 2 ^ 21 = unat (p div 2 ^ 21)"
    by (simp add: unat_div)
  moreover have "of_nat (unat x) = x" for x :: u64
    by simp
  ultimately have "of_nat (unat p div 2 ^ 21) = drop_bit 21 p"
    unfolding drop_bit_eq_div by (simp only:)
  then have "of_nat (unat p div 2 ^ 21) * LARGE_PAGE_SIZE = push_bit 21 (drop_bit 21 p)"
    by (simp add: push_bit_eq_mult)
  also have "\<dots> = p AND NOT (mask 21)"
    by (rule bit_word_eqI) (auto simp: bit_simps)
  finally show ?thesis .
qed

section \<open>The tables that are built\<close>

abbreviation carved :: "u64 \<Rightarrow> nat \<Rightarrow> u64" where
  "carved first i \<equiv> first + of_nat i * PAGE_SIZE"

lemma carved_inj:
  assumes "i < 2 ^ 52" "j < 2 ^ 52" "carved first i = carved first j"
  shows "i = j"
proof -
  have "unat (of_nat k * PAGE_SIZE) = k * 4096" if "k < 2 ^ 52" for k
    using that by (simp add: unat_word_ariths unat_of_nat)
  moreover have "of_nat i * PAGE_SIZE = (of_nat j * PAGE_SIZE :: u64)"
    using assms(3) by simp
  ultimately show ?thesis
    using assms(1,2) by (metis mult_right_cancel zero_neq_numeral)
qed

definition map_flags :: u64 where "map_flags = PAGE_PRESENT OR PAGE_WRITABLE OR PAGE_GLOBAL"

lemma map_gigabyte_ok:
  assumes "is_table s (kernel_pml3 bt 0)" "is_table s (bt_window bt)" "kernel_pml3 bt 0 \<noteq> bt_window bt"
    and "carved first i \<noteq> kernel_pml3 bt 0" "carved first i \<noteq> bt_window bt"
  shows "\<exists>s'. map_gigabyte bt first i s = Ret s' \<and> entry s' (kernel_pml3 bt 0) i = Some (carved first i OR map_flags) \<and>
    (\<forall>p. entry s' (carved first i) p = Some (physical_map_pml2 (of_nat i * (512 * LARGE_PAGE_SIZE)) p)) \<and>
    (\<forall>t j. t \<noteq> carved first i \<and> t \<noteq> bt_window bt \<and> (t \<noteq> kernel_pml3 bt 0 \<or> j \<noteq> i) \<longrightarrow> entry s' t j = entry s t j) \<and>
    (\<forall>t. is_table s t \<longrightarrow> is_table s' t) \<and> mm_pmm s' = mm_pmm s"
proof -
  let ?e1 = "carved first i OR PAGE_PRESENT OR PAGE_WRITABLE OR PAGE_GLOBAL"
  let ?e2 = "(carved first i AND PAGE_2MB_ADDRESS_MASK) OR PAGE_PRESENT OR PAGE_LARGE_PAGE OR PAGE_WRITABLE OR PAGE_GLOBAL"
  obtain s1 where s1: "set_physical_entry (kernel_pml3 bt 0) i ?e1 s = Ret s1"
      "\<forall>t' j'. entry s1 t' j' = (if t' = kernel_pml3 bt 0 \<and> j' = i then Some ?e1 else entry s t' j')"
      "\<forall>t'. is_table s1 t' = is_table s t'" "mm_pmm s1 = mm_pmm s"
    using set_physical_entry_ok [OF assms(1), of i ?e1] by blast
  obtain s2 where s2: "set_physical_entry (bt_window bt) 0 ?e2 s1 = Ret s2"
      "\<forall>t' j'. entry s2 t' j' = (if t' = bt_window bt \<and> j' = 0 then Some ?e2 else entry s1 t' j')"
      "\<forall>t'. is_table s2 t' = is_table s1 t'" "mm_pmm s2 = mm_pmm s1"
    using set_physical_entry_ok [of s1 "bt_window bt" 0 ?e2] assms(2) s1(3) by blast
  let ?s = "s2\<lparr>mm_tables := (mm_tables s2)(p_addr_to_physical_map (carved first i) \<mapsto>
      physical_map_pml2 (of_nat i * (512 * LARGE_PAGE_SIZE)))\<rparr>"
  have run: "map_gigabyte bt first i s = Ret ?s"
    unfolding map_gigabyte_def using s1(1) s2(1) by (simp add: Let_def)
  have e: "entry ?s t j = (if t = carved first i then Some (physical_map_pml2 (of_nat i * (512 * LARGE_PAGE_SIZE)) j) else entry s2 t j)" for t j
    by (simp add: entry_def)
  have "is_table ?s t" if "is_table s t" for t
    using that s1(3) s2(3) by (auto simp: is_table_def)
  then show ?thesis
    using run e s1 s2 assms(3-5) by (intro exI [of _ ?s]) (auto simp: map_flags_def or.assoc simp del: LARGE_PAGE_SIZE_def PAGE_SIZE_def)
qed

lemma map_gigabytes_ok:
  assumes "is_table s (kernel_pml3 bt 0)" "is_table s (bt_window bt)" "kernel_pml3 bt 0 \<noteq> bt_window bt" "n \<le> 512"
    and "\<forall>i < n. carved first i \<noteq> kernel_pml3 bt 0 \<and> carved first i \<noteq> bt_window bt"
  shows "\<exists>s'. ofold (map_gigabyte bt first) [0..<n] s = Ret s' \<and>
    (\<forall>i < n. entry s' (kernel_pml3 bt 0) i = Some (carved first i OR map_flags) \<and>
       (\<forall>p. entry s' (carved first i) p = Some (physical_map_pml2 (of_nat i * (512 * LARGE_PAGE_SIZE)) p))) \<and>
    (\<forall>t j. (\<forall>i < n. t \<noteq> carved first i) \<and> t \<noteq> bt_window bt \<and> (t \<noteq> kernel_pml3 bt 0 \<or> n \<le> j) \<longrightarrow> entry s' t j = entry s t j) \<and>
    (\<forall>t. is_table s t \<longrightarrow> is_table s' t) \<and> mm_pmm s' = mm_pmm s"
  using assms(4,5)
proof (induction n)
  case (Suc n)
  obtain s1 where s1: "ofold (map_gigabyte bt first) [0..<n] s = Ret s1"
      "\<forall>i < n. entry s1 (kernel_pml3 bt 0) i = Some (carved first i OR map_flags) \<and>
         (\<forall>p. entry s1 (carved first i) p = Some (physical_map_pml2 (of_nat i * (512 * LARGE_PAGE_SIZE)) p))"
      "\<forall>t j. (\<forall>i < n. t \<noteq> carved first i) \<and> t \<noteq> bt_window bt \<and> (t \<noteq> kernel_pml3 bt 0 \<or> n \<le> j) \<longrightarrow> entry s1 t j = entry s t j"
      "\<forall>t. is_table s t \<longrightarrow> is_table s1 t" "mm_pmm s1 = mm_pmm s"
    using Suc.IH Suc.prems by auto
  have ne: "carved first n \<noteq> kernel_pml3 bt 0" "carved first n \<noteq> bt_window bt"
    using Suc.prems(2) by blast+
  obtain s2 where s2: "map_gigabyte bt first n s1 = Ret s2" "entry s2 (kernel_pml3 bt 0) n = Some (carved first n OR map_flags)"
      "\<forall>p. entry s2 (carved first n) p = Some (physical_map_pml2 (of_nat n * (512 * LARGE_PAGE_SIZE)) p)"
      "\<forall>t j. t \<noteq> carved first n \<and> t \<noteq> bt_window bt \<and> (t \<noteq> kernel_pml3 bt 0 \<or> j \<noteq> n) \<longrightarrow> entry s2 t j = entry s1 t j"
      "\<forall>t. is_table s1 t \<longrightarrow> is_table s2 t" "mm_pmm s2 = mm_pmm s1"
    using map_gigabyte_ok [of s1 bt first n] s1(4) assms(1-3) ne by blast
  have other: "carved first i \<noteq> carved first n" if "i < n" for i
    using carved_inj [of i n first] that Suc.prems(1) by auto
  have "ofold (map_gigabyte bt first) [0..<Suc n] s = Ret s2"
    using s1(1) s2(1) by (simp add: ofold_append)
  moreover have "entry s2 (kernel_pml3 bt 0) i = Some (carved first i OR map_flags) \<and>
      (\<forall>p. entry s2 (carved first i) p = Some (physical_map_pml2 (of_nat i * (512 * LARGE_PAGE_SIZE)) p))" if "i < Suc n" for i
  proof (cases "i = n")
    case False
    then have i: "i < n"
      using that by simp
    have "entry s2 (kernel_pml3 bt 0) i = entry s1 (kernel_pml3 bt 0) i" "entry s2 (carved first i) p = entry s1 (carved first i) p" for p
      using s2(4) ne other [OF i] i Suc.prems(2) assms(3) by (auto simp del: PAGE_SIZE_def)
    then show ?thesis
      using s1(2) i by metis
  qed (use s2(2,3) in blast)
  moreover have "entry s2 t j = entry s t j"
    if "(\<forall>i < Suc n. t \<noteq> carved first i) \<and> t \<noteq> bt_window bt \<and> (t \<noteq> kernel_pml3 bt 0 \<or> Suc n \<le> j)" for t j
  proof -
    have "entry s2 t j = entry s1 t j"
      using s2(4) that by (metis Suc_n_not_le_n lessI)
    also have "\<dots> = entry s t j"
      using s1(3) that by (metis Suc_leD less_SucI)
    finally show ?thesis .
  qed
  ultimately show ?case
    using s1(4,5) s2(5,6) by (intro exI [of _ s2] conjI) (blast, blast, blast, blast, simp)
qed simp

definition static_tables :: "boot_tables \<Rightarrow> u64 list" where
  "static_tables bt = bt_pml4 bt # bt_pml2 bt # bt_window bt # map (kernel_pml3 bt) [0..<256]"

text \<open>The tables of the image are distinct frames, and the image lies in the first gigabyte.\<close>

definition boot_tables_ok :: "boot_tables \<Rightarrow> mmu \<Rightarrow> bool" where
  "boot_tables_ok bt s \<longleftrightarrow> distinct (static_tables bt) \<and>
     (\<forall>t \<in> set (static_tables bt). t AND PAGE_ADDRESS_MASK = t \<and> is_table s t) \<and>
     unat (bt_start bt) < 2 ^ 30 \<and> image_page_count bt \<le> 512"

text \<open>The frames taken off the end of a region are none of the image's tables.\<close>

definition carve_ok :: "boot_tables \<Rightarrow> u64 \<Rightarrow> nat \<Rightarrow> bool" where
  "carve_ok bt first n \<longleftrightarrow> n \<le> 512 \<and>
     (\<forall>i < n. carved first i AND PAGE_ADDRESS_MASK = carved first i \<and> carved first i \<notin> set (static_tables bt))"

lemma static_distinct:
  assumes "boot_tables_ok bt s" "i < 256" "j < 256"
  shows "bt_pml4 bt \<noteq> bt_pml2 bt" "bt_pml4 bt \<noteq> bt_window bt" "bt_pml2 bt \<noteq> bt_window bt" "bt_pml4 bt \<noteq> kernel_pml3 bt i"
    "bt_pml2 bt \<noteq> kernel_pml3 bt i" "bt_window bt \<noteq> kernel_pml3 bt i" "kernel_pml3 bt i = kernel_pml3 bt j \<longleftrightarrow> i = j"
  using assms by (auto simp: boot_tables_ok_def static_tables_def distinct_map inj_on_def)

lemma static_table:
  assumes "boot_tables_ok bt s"
  shows "t \<in> {bt_pml4 bt, bt_pml2 bt, bt_window bt} \<Longrightarrow> t AND PAGE_ADDRESS_MASK = t \<and> is_table s t"
    and "i < 256 \<Longrightarrow> kernel_pml3 bt i AND PAGE_ADDRESS_MASK = kernel_pml3 bt i \<and> is_table s (kernel_pml3 bt i)"
  using assms by (auto simp: boot_tables_ok_def static_tables_def)

lemma flags_ok:
  "table_flags map_flags" "table_flags (PAGE_PRESENT OR PAGE_CACHE_DISABLE OR PAGE_WRITABLE OR PAGE_GLOBAL)"
  by (simp_all add: table_flags_def map_flags_def page_bits IS_PRESENT_def IS_LARGE_PAGE_def)

text \<open>What the three steps leave: the entries that the two mappings are walked through.\<close>

definition tables_built :: "boot_tables \<Rightarrow> u64 \<Rightarrow> nat \<Rightarrow> mmu \<Rightarrow> bool" where
  "tables_built bt first n s \<longleftrightarrow>
     entry s (bt_pml4 bt) 256 = Some (kernel_pml3 bt 0 OR map_flags) \<and>
     entry s (bt_pml4 bt) 511 = Some (kernel_pml3 bt 255 OR map_flags) \<and>
     entry s (kernel_pml3 bt 255) 510 = Some (bt_pml2 bt OR PAGE_PRESENT OR PAGE_CACHE_DISABLE OR PAGE_WRITABLE OR PAGE_GLOBAL) \<and>
     (\<forall>i < image_page_count bt. entry s (bt_pml2 bt) i = Some (image_entry i)) \<and>
     (\<forall>i < n. entry s (kernel_pml3 bt 0) i = Some (carved first i OR map_flags) \<and>
        (\<forall>p. entry s (carved first i) p = Some (physical_map_pml2 (of_nat i * (512 * LARGE_PAGE_SIZE)) p)))"

lemma paging_steps:
  assumes "boot_tables_ok bt s" "carve_ok bt first n"
  shows "\<exists>s1 s2 s3. link_pml3s bt s = Ret s1 \<and> map_kernel_image bt s1 = Ret s2 \<and> build_physical_map bt first n s2 = Ret s3 \<and>
    tables_built bt first n s3 \<and> mm_pmm s3 = mm_pmm s"
proof -
  note st = static_table [OF assms(1)] and sd = static_distinct [OF assms(1)]
  let ?link = "\<lambda>i. kernel_pml3 bt i OR PAGE_PRESENT OR PAGE_GLOBAL OR PAGE_WRITABLE"
  obtain s1 where s1: "link_pml3s bt s = Ret s1" "\<forall>i < 256. entry s1 (bt_pml4 bt) (i + 256) = Some (?link i)"
      "\<forall>t. is_table s1 t = is_table s t" "mm_pmm s1 = mm_pmm s"
    using set_physical_entries_ok [of s "bt_pml4 bt" "\<lambda>i. i + 256" "[0..<256]" ?link] st(1) by (auto simp: link_pml3s_def)
  let ?va = "bt_start bt + KERNEL_VIRTUAL_ADDRESS"
  have idx: "INDEX_AT_LEVEL ?va 3 = 511" "INDEX_AT_LEVEL ?va 2 = 510"
    using INDEX_image [of "bt_start bt"] assms(1) by (simp_all add: boot_tables_ok_def add.commute)
  let ?e1 = "kernel_pml3 bt 255 OR PAGE_PRESENT OR PAGE_WRITABLE OR PAGE_GLOBAL"
  let ?e2 = "bt_pml2 bt OR PAGE_PRESENT OR PAGE_CACHE_DISABLE OR PAGE_WRITABLE OR PAGE_GLOBAL"
  obtain u1 where u1: "set_physical_entry (bt_pml4 bt) 511 ?e1 s1 = Ret u1"
      "\<forall>t' j'. entry u1 t' j' = (if t' = bt_pml4 bt \<and> j' = 511 then Some ?e1 else entry s1 t' j')"
      "\<forall>t'. is_table u1 t' = is_table s1 t'" "mm_pmm u1 = mm_pmm s1"
    using set_physical_entry_ok [of s1 "bt_pml4 bt" 511 ?e1] s1(3) st(1) by blast
  obtain u2 where u2: "set_physical_entry (kernel_pml3 bt 255) 510 ?e2 u1 = Ret u2"
      "\<forall>t' j'. entry u2 t' j' = (if t' = kernel_pml3 bt 255 \<and> j' = 510 then Some ?e2 else entry u1 t' j')"
      "\<forall>t'. is_table u2 t' = is_table u1 t'" "mm_pmm u2 = mm_pmm u1"
    using set_physical_entry_ok [of u1 "kernel_pml3 bt 255" 510 ?e2] s1(3) u1(3) st(2) [of 255] by auto
  obtain s2 where s2: "ofold (\<lambda>i. set_physical_entry (bt_pml2 bt) i (image_entry i)) [0..<image_page_count bt] u2 = Ret s2"
      "\<forall>i < image_page_count bt. entry s2 (bt_pml2 bt) i = Some (image_entry i)"
      "\<forall>t' j'. t' \<noteq> bt_pml2 bt \<longrightarrow> entry s2 t' j' = entry u2 t' j'"
      "\<forall>t'. is_table s2 t' = is_table u2 t'" "mm_pmm s2 = mm_pmm u2"
    using set_physical_entries_ok [of u2 "bt_pml2 bt" "\<lambda>i. i" "[0..<image_page_count bt]" image_entry] s1(3) u1(3) u2(3) st(1) by auto
  have run2: "map_kernel_image bt s1 = Ret s2"
    using u1(1) u2(1) s2(1) assms(1) by (simp add: map_kernel_image_def Let_def idx boot_tables_ok_def del: KERNEL_VIRTUAL_ADDRESS_def)
  let ?e3 = "bt_window bt OR PAGE_PRESENT OR PAGE_WRITABLE OR PAGE_GLOBAL"
  obtain v where v: "set_physical_entry (kernel_pml3 bt 1) 0 ?e3 s2 = Ret v"
      "\<forall>t' j'. entry v t' j' = (if t' = kernel_pml3 bt 1 \<and> j' = 0 then Some ?e3 else entry s2 t' j')"
      "\<forall>t'. is_table v t' = is_table s2 t'" "mm_pmm v = mm_pmm s2"
    using set_physical_entry_ok [of s2 "kernel_pml3 bt 1" 0 ?e3] s1(3) u1(3) u2(3) s2(4) st(2) [of 1] by auto
  have c: "\<forall>i < n. carved first i \<noteq> kernel_pml3 bt 0 \<and> carved first i \<noteq> bt_window bt"
    "\<And>i t. i < n \<Longrightarrow> t \<in> set (static_tables bt) \<Longrightarrow> t \<noteq> carved first i"
    using assms(2) by (auto simp: carve_ok_def static_tables_def)
  have tab: "is_table v (kernel_pml3 bt 0)" "is_table v (bt_window bt)"
    using st(1) st(2) [of 0] v(3) s2(4) u2(3) u1(3) s1(3) by auto
  obtain s3 where s3: "ofold (map_gigabyte bt first) [0..<n] v = Ret s3"
      "\<forall>i < n. entry s3 (kernel_pml3 bt 0) i = Some (carved first i OR map_flags) \<and>
         (\<forall>p. entry s3 (carved first i) p = Some (physical_map_pml2 (of_nat i * (512 * LARGE_PAGE_SIZE)) p))"
      "\<forall>t j. (\<forall>i < n. t \<noteq> carved first i) \<and> t \<noteq> bt_window bt \<and> (t \<noteq> kernel_pml3 bt 0 \<or> n \<le> j) \<longrightarrow> entry s3 t j = entry v t j"
      "mm_pmm s3 = mm_pmm v"
    using map_gigabytes_ok [OF tab, of n first] sd(6) [of 0 0] c(1) assms(2) by (auto simp: carve_ok_def simp del: PAGE_SIZE_def)
  have keep: "entry s3 t j = entry v t j" if "t \<in> set (static_tables bt)" "t \<noteq> bt_window bt" "t \<noteq> kernel_pml3 bt 0" for t j
    using s3(3) c(2) that by blast
  have mem: "bt_pml4 bt \<in> set (static_tables bt)" "bt_pml2 bt \<in> set (static_tables bt)" "kernel_pml3 bt 255 \<in> set (static_tables bt)"
    by (auto simp: static_tables_def)
  have flags: "PAGE_PRESENT OR PAGE_GLOBAL OR PAGE_WRITABLE = map_flags"
    by (simp add: map_flags_def page_bits)
  have "tables_built bt first n s3"
    unfolding tables_built_def
  proof (intro conjI)
    show "entry s3 (bt_pml4 bt) 256 = Some (kernel_pml3 bt 0 OR map_flags)"
      using keep [OF mem(1), of 256] sd [of 0 0] sd [of 1 1] sd [of 255 255] v(2) s2(3) u2(2) u1(2) s1(2) [rule_format, of 0] flags
      by (simp add: or.assoc)
    show "entry s3 (bt_pml4 bt) 511 = Some (kernel_pml3 bt 255 OR map_flags)"
      using keep [OF mem(1), of 511] sd [of 0 0] sd [of 1 1] sd [of 255 255] v(2) s2(3) u2(2) u1(2)
      by (simp add: or.assoc map_flags_def)
    show "entry s3 (kernel_pml3 bt 255) 510 = Some ?e2"
      using keep [OF mem(3), of 510] sd [of 255 0] sd [of 255 1] v(2) s2(3) u2(2) by simp
    show "\<forall>i < image_page_count bt. entry s3 (bt_pml2 bt) i = Some (image_entry i)"
      using keep [OF mem(2)] sd [of 0 0] sd [of 1 1] v(2) s2(2) by simp
  qed (rule s3(2))
  then show ?thesis
    using s1(1) run2 v(1) s3(1) s3(4) v(4) s2(5) u2(4) u1(4) s1(4) by (simp add: build_physical_map_def)
qed

section \<open>The mappings\<close>

lemma low_bits_of_sum: "take_bit 21 b = 0 \<Longrightarrow> (b + p) AND mask 21 = (p :: u64) AND mask 21"
proof -
  assume b: "take_bit 21 b = 0"
  have "uint (take_bit 21 b) = take_bit 21 (uint b)"
    by (simp add: unsigned_take_bit_eq)
  then have "take_bit 21 (uint b) = 0"
    unfolding b by simp
  then have "take_bit 21 (uint b + uint p) = take_bit 21 (uint p)"
    using take_bit_add [of 21 "uint b" "uint p"] by simp
  moreover have "uint (b + p) = take_bit 64 (uint b + uint p)"
    by (simp add: uint_word_ariths take_bit_eq_mod)
  ultimately have "take_bit 21 (b + p) = take_bit 21 p"
    by (simp add: word_uint_eq_iff unsigned_take_bit_eq)
  then show ?thesis
    by (simp add: take_bit_eq_mask)
qed

lemma boundary_masked:
  assumes "unat (p :: u64) < 2 ^ 52"
  shows "(p AND NOT (mask 21)) AND PAGE_ADDRESS_MASK = p AND NOT (mask 21)"
proof -
  have "take_bit 52 p = p"
    using assms by (simp add: word_unat_eq_iff unsigned_take_bit_eq take_bit_nat_eq_self)
  then have "bit p n \<Longrightarrow> n < 52" for n
    by (metis bit_take_bit_iff)
  then show ?thesis
    by (intro bit_word_eqI) (auto simp: bit_simps bit_PAGE_ADDRESS_MASK)
qed

lemma walk_physical_map:
  assumes "boot_tables_ok bt s" "carve_ok bt first n" "tables_built bt first n s'" "unat p < n * 2 ^ 30"
  shows "mmu_walk 3 (mm_tables s') (bt_pml4 bt) (physical_map_base + p) = Some p"
proof -
  have n: "n \<le> 512"
    using assms(2) by (simp add: carve_ok_def)
  have p: "unat p < 2 ^ 39"
    using assms(4) n by simp
  define i where "i = unat p div 2 ^ 30"
  define k where "k = unat p div 2 ^ 21 mod 512"
  have i: "i < n"
    using assms(4) by (simp add: i_def div_less_iff_less_mult)
  have ik: "i * 512 + k = unat p div 2 ^ 21"
    using div_mult2_eq [of "unat p" "2 ^ 21" 512] by (simp add: i_def k_def)
  note idx = INDEX_upper_half [OF p, folded i_def k_def]
  have f: "kernel_pml3 bt 0 AND PAGE_ADDRESS_MASK = kernel_pml3 bt 0" "carved first i AND PAGE_ADDRESS_MASK = carved first i"
    using static_table(2) [OF assms(1), of 0] assms(2) i by (auto simp: carve_ok_def)
  let ?f = "PAGE_PRESENT OR PAGE_LARGE_PAGE OR PAGE_CACHE_DISABLE OR PAGE_WRITABLE OR PAGE_GLOBAL"
  have base: "of_nat i * (512 * LARGE_PAGE_SIZE) + of_nat k * LARGE_PAGE_SIZE = p AND NOT (mask 21)"
    unfolding large_boundary [symmetric] ik [symmetric] by (simp add: algebra_simps)
  have e: "physical_map_pml2 (of_nat i * (512 * LARGE_PAGE_SIZE)) k = (p AND NOT (mask 21)) OR ?f"
    unfolding physical_map_pml2_def base by (simp add: k_def or.assoc)
  have flags: "IS_PRESENT (x OR ?f)" "IS_LARGE_PAGE (x OR ?f)" "?f AND PAGE_ADDRESS_MASK = 0" for x
    by (simp_all add: IS_PRESENT_bit IS_LARGE_PAGE_bit bit_simps page_bits)
  note built = assms(3) [unfolded tables_built_def]
  have "mmu_walk 3 (mm_tables s') (bt_pml4 bt) (physical_map_base + p) = mmu_walk 2 (mm_tables s') (kernel_pml3 bt 0) (physical_map_base + p)"
    using mmu_walk_table [of s' "bt_pml4 bt" _ 2 "kernel_pml3 bt 0" map_flags] built idx(1) f(1) flags_ok(1)
    by (simp add: numeral_3_eq_3 numeral_2_eq_2 del: physical_map_base_def)
  also have "\<dots> = mmu_walk 1 (mm_tables s') (carved first i) (physical_map_base + p)"
    using mmu_walk_table [of s' "kernel_pml3 bt 0" _ 1 "carved first i" map_flags] built idx(2) f(2) flags_ok(1) i
    by (simp add: numeral_2_eq_2 del: physical_map_base_def PAGE_SIZE_def)
  also have "\<dots> = Some (page_frame 1 (physical_map_pml2 (of_nat i * (512 * LARGE_PAGE_SIZE)) k) (physical_map_base + p))"
    using mmu_walk_large [of s' "carved first i" _ 0] built idx(3) flags(1,2) i e
    by (simp del: physical_map_base_def PAGE_SIZE_def LARGE_PAGE_SIZE_def)
  also have "\<dots> = Some p"
    using page_frame_large [OF low_bits_of_sum _ flags(3) e, of physical_map_base] p by (simp add: take_bit_eq_mod)
  finally show ?thesis .
qed

lemma walk_image:
  assumes "boot_tables_ok bt s" "tables_built bt first n s'" "unat p < image_page_count bt * 2 ^ 21"
  shows "mmu_walk 3 (mm_tables s') (bt_pml4 bt) (KERNEL_VIRTUAL_ADDRESS + p) = Some p"
proof -
  have p: "unat p < 2 ^ 30"
    using assms(1,3) by (simp add: boot_tables_ok_def)
  define k where "k = unat p div 2 ^ 21"
  have k: "k < image_page_count bt"
    using assms(3) by (simp add: k_def div_less_iff_less_mult)
  note idx = INDEX_image [OF p, folded k_def]
  have f: "kernel_pml3 bt 255 AND PAGE_ADDRESS_MASK = kernel_pml3 bt 255" "bt_pml2 bt AND PAGE_ADDRESS_MASK = bt_pml2 bt"
    using static_table [OF assms(1)] by auto
  let ?f = "PAGE_PRESENT OR PAGE_LARGE_PAGE OR PAGE_GLOBAL OR PAGE_WRITABLE"
  let ?g = "PAGE_PRESENT OR PAGE_CACHE_DISABLE OR PAGE_WRITABLE OR PAGE_GLOBAL"
  have e: "image_entry k = (p AND NOT (mask 21)) OR ?f"
    unfolding image_entry_def k_def large_boundary using p by (simp add: boundary_masked or.assoc)
  have flags: "IS_PRESENT (x OR ?f)" "IS_LARGE_PAGE (x OR ?f)" "?f AND PAGE_ADDRESS_MASK = 0" for x
    by (simp_all add: IS_PRESENT_bit IS_LARGE_PAGE_bit bit_simps page_bits)
  note built = assms(2) [unfolded tables_built_def]
  have "mmu_walk 3 (mm_tables s') (bt_pml4 bt) (KERNEL_VIRTUAL_ADDRESS + p) = mmu_walk 2 (mm_tables s') (kernel_pml3 bt 255) (KERNEL_VIRTUAL_ADDRESS + p)"
    using mmu_walk_table [of s' "bt_pml4 bt" _ 2 "kernel_pml3 bt 255" map_flags] built idx(1) f(1) flags_ok(1)
    by (simp add: numeral_3_eq_3 numeral_2_eq_2 del: KERNEL_VIRTUAL_ADDRESS_def)
  also have "\<dots> = mmu_walk 1 (mm_tables s') (bt_pml2 bt) (KERNEL_VIRTUAL_ADDRESS + p)"
    using mmu_walk_table [of s' "kernel_pml3 bt 255" _ 1 "bt_pml2 bt" ?g] built idx(2) f(2) flags_ok(2)
    by (simp add: numeral_2_eq_2 or.assoc del: KERNEL_VIRTUAL_ADDRESS_def)
  also have "\<dots> = Some (page_frame 1 (image_entry k) (KERNEL_VIRTUAL_ADDRESS + p))"
    using mmu_walk_large [of s' "bt_pml2 bt" _ 0] built idx(3) flags(1,2) k e
    by (simp del: KERNEL_VIRTUAL_ADDRESS_def)
  also have "\<dots> = Some p"
    using page_frame_large [OF low_bits_of_sum _ flags(3) e, of KERNEL_VIRTUAL_ADDRESS] p by (simp add: take_bit_eq_mod)
  finally show ?thesis .
qed

section \<open>The whole of the setup\<close>

lemma largest_region_less: "rs \<noteq> [] \<Longrightarrow> largest_region rs < length rs"
proof -
  assume rs: "rs \<noteq> []"
  have "fold (\<lambda>i best. if P i best then i else best) is b < n" if "\<forall>i \<in> set is. i < n" "b < n" for P "is" b and n :: nat
    using that by (induction "is" arbitrary: b) auto
  then show ?thesis
    unfolding largest_region_def using rs by auto
qed

text \<open>The tables cover the highest address, unless it is beyond the 512 GB of the map.\<close>

lemma ROUND_UP_gigabyte:
  assumes "unat h \<le> 2 ^ 39" "h \<noteq> 0"
  shows "unat (ROUND_UP h GIGABYTE_PAGE_SIZE) = ((unat h - 1) div 2 ^ 30 + 1) * 2 ^ 30"
proof -
  define m where "m = unat h - 1"
  have h: "unat h = m + 1" "m < 2 ^ 39"
    using assms by (simp_all add: m_def unat_gt_0)
  have "unat (h - 1) = m"
    using assms(2) by (simp add: unat_minus_one m_def)
  then have "unat ((h - 1) mod GIGABYTE_PAGE_SIZE) = m mod 2 ^ 30"
    by (simp add: unat_mod)
  moreover have "unat (h + (GIGABYTE_PAGE_SIZE - 1)) = m + 2 ^ 30"
    using h by (simp add: unat_word_ariths)
  moreover have "m mod 2 ^ 30 \<le> m"
    by simp
  ultimately have "unat (ROUND_UP h GIGABYTE_PAGE_SIZE) = m + 2 ^ 30 - m mod 2 ^ 30"
    by (simp add: ROUND_UP_def unat_sub_if_size word_size)
  also have "\<dots> = 2 ^ 30 + (m - m mod 2 ^ 30)"
    using \<open>m mod 2 ^ 30 \<le> m\<close> by simp
  also have "\<dots> = 2 ^ 30 + m div 2 ^ 30 * 2 ^ 30"
    by (simp only: minus_mod_eq_div_mult)
  also have "\<dots> = (m div 2 ^ 30 + 1) * 2 ^ 30"
    by simp
  finally show ?thesis
    by (simp add: m_def)
qed

lemma required_pml2s_cover:
  assumes "unat p < unat (highest_physical_address rs)" "unat p < 2 ^ 39"
  shows "unat p < required_pml2s rs * 2 ^ 30"
proof -
  define h where "h = (if highest_physical_address rs > GIGABYTE_PAGE_SIZE * 512 then GIGABYTE_PAGE_SIZE * 512 else highest_physical_address rs)"
  have h: "unat h \<le> 2 ^ 39" "unat p < unat h"
    using assms by (auto simp: h_def word_less_nat_alt not_less)
  then have "h \<noteq> 0"
    by auto
  have "required_pml2s rs = unat (ROUND_UP h GIGABYTE_PAGE_SIZE) div 2 ^ 30"
    by (simp add: required_pml2s_def h_def [symmetric] Let_def unat_div div_mult2_eq [symmetric] del: GIGABYTE_PAGE_SIZE_def)
  also have "\<dots> = (unat h - 1) div 2 ^ 30 + 1"
    unfolding ROUND_UP_gigabyte [OF h(1) \<open>h \<noteq> 0\<close>] by simp
  finally have r: "required_pml2s rs = (unat h - 1) div 2 ^ 30 + 1" .
  have "unat h - 1 < ((unat h - 1) div 2 ^ 30 + 1) * 2 ^ 30"
    by (metis Suc_eq_plus1 dividend_less_div_times less_eq_Suc_le mult.commute mult_Suc_right add.commute zero_less_numeral zero_less_power)
  then show ?thesis
    using h(2) r by simp
qed

definition first_carved :: "physical_region list \<Rightarrow> u64" where
  "first_carved rs = (let r = rs ! largest_region rs in rg_base r + rg_length r - of_nat (required_pml2s rs) * PAGE_SIZE)"

lemma paging_init_builds:
  assumes "regions_array (mm_pmm (kernel_mmu s)) = rs" "rs \<noteq> []" "boot_tables_ok bt (kernel_mmu s)"
    and "carve_ok bt (first_carved rs) (required_pml2s rs)"
  shows "\<exists>s'. paging_init bt ks s = Ret s' \<and>
    (\<forall>p. unat p < unat (highest_physical_address rs) \<and> unat p < 2 ^ 39 \<longrightarrow>
       mmu_walk 3 (mm_tables (kernel_mmu s')) (cr3 s') (physical_map_base + p) = Some p) \<and>
    (\<forall>p. unat p < image_page_count bt * 2 ^ 21 \<longrightarrow>
       mmu_walk 3 (mm_tables (kernel_mmu s')) (cr3 s') (KERNEL_VIRTUAL_ADDRESS + p) = Some p) \<and>
    regions_array (mm_pmm (kernel_mmu s')) = carve_tables rs \<and>
    (\<exists>space. spaces s' ks = Some space \<and> table_base space = p_addr_to_physical_map (cr3 s'))"
proof -
  obtain s1 s2 s3 where steps: "link_pml3s bt (kernel_mmu s) = Ret s1" "map_kernel_image bt s1 = Ret s2"
      "build_physical_map bt (first_carved rs) (required_pml2s rs) s2 = Ret s3"
      "tables_built bt (first_carved rs) (required_pml2s rs) s3" "mm_pmm s3 = mm_pmm (kernel_mmu s)"
    using paging_steps [OF assms(3,4)] by blast
  have first: "carve_tables rs \<noteq> []"
      "rg_base (carve_tables rs ! largest_region rs) + rg_length (carve_tables rs ! largest_region rs) = first_carved rs"
    using largest_region_less [OF assms(2)] assms(2) by (simp_all add: carve_tables_def first_carved_def Let_def)
  let ?s = "init_kernel_address_space ks \<lparr>table_base = p_addr_to_physical_map (bt_pml4 bt), as_lock = False\<rparr>
    (s\<lparr>kernel_mmu := s3\<lparr>mm_pmm := (mm_pmm s3)\<lparr>regions_array := carve_tables rs\<rparr>\<rparr>, cr3 := bt_pml4 bt\<rparr>)"
  have run: "paging_init bt ks s = Ret ?s"
    using steps(1-3) assms(1) first by (simp add: paging_init_def Let_def)
  show ?thesis
    using run walk_physical_map [OF assms(3,4) steps(4) required_pml2s_cover] walk_image [OF assms(3) steps(4)]
    by (simp add: init_kernel_address_space_def del: physical_map_base_def KERNEL_VIRTUAL_ADDRESS_def)
qed

text \<open>C5: Paging setup returns, and the tables it leaves translate every physical address of the memory map, up to 512 GB,
  from its place in the physical map, and the kernel image from its link address; the frames that hold the tables are
  taken off the end of one region, and the processor and the kernel's address space use the new top table.\<close>

theorem paging_init_correct:
  assumes "regions_array (mm_pmm (kernel_mmu s)) = rs" "rs \<noteq> []" "boot_tables_ok bt (kernel_mmu s)"
    and "carve_ok bt (first_carved rs) (required_pml2s rs)"
  shows "\<exists>s'. paging_init bt ks s = Ret s' \<and>
    (\<forall>p. unat p < unat (highest_physical_address rs) \<and> unat p < 2 ^ 39 \<longrightarrow>
       mmu_walk 3 (mm_tables (kernel_mmu s')) (cr3 s') (physical_map_base + p) = Some p) \<and>
    (\<forall>p. unat p < image_page_count bt * 2 ^ 21 \<longrightarrow>
       mmu_walk 3 (mm_tables (kernel_mmu s')) (cr3 s') (KERNEL_VIRTUAL_ADDRESS + p) = Some p) \<and>
    regions_array (mm_pmm (kernel_mmu s')) = carve_tables rs \<and>
    (\<exists>space. spaces s' ks = Some space \<and> table_base space = p_addr_to_physical_map (cr3 s'))"
  by (rule paging_init_builds [OF assms])

lemma frame_aligned:
  assumes "unat x mod 4096 = 0" "unat x < 2 ^ 52"
  shows "x AND PAGE_ADDRESS_MASK = x"
proof -
  have "take_bit 12 x = 0" "take_bit 52 x = x"
    using assms by (simp_all add: word_unat_eq_iff unsigned_take_bit_eq take_bit_nat_eq_self take_bit_eq_mod unat_mod)
  then have "bit x n \<Longrightarrow> 12 \<le> n \<and> n < 52" for n
    by (metis bit_0_eq bit_take_bit_iff bot_apply bot_bool_def not_le)
  then show ?thesis
    by (intro bit_word_eqI) (auto simp: bit_simps bit_PAGE_ADDRESS_MASK)
qed

definition demo_boot :: boot_tables where
  "demo_boot = \<lparr>bt_pml4 = 0x200000, bt_pml3s = 0x300000, bt_pml2 = 0x201000, bt_window = 0x202000, bt_start = 0x100000,
     bt_end = 0x500000\<rparr>"

definition demo_paging :: kernel where
  "demo_paging = blank_kernel\<lparr>kernel_mmu := (kernel_mmu blank_kernel)\<lparr>mm_tables := (\<lambda>_. Some (\<lambda>_. 0)),
     mm_pmm := (mm_pmm (kernel_mmu blank_kernel))\<lparr>regions_array :=
       [\<lparr>rg_base = 0x1000000, rg_length = 0x40000000, rg_page_array = NULL, rg_type = REGION_TYPE_AVAILABLE\<rparr>]\<rparr>\<rparr>\<rparr>"

lemma demo_pml3: "unat (kernel_pml3 demo_boot i) = 0x300000 + i * 0x1000" if "i < 256"
  using that by (simp add: kernel_pml3_def demo_boot_def unat_word_ariths unat_of_nat)

lemma demo_static: "boot_tables_ok demo_boot (kernel_mmu demo_paging)"
proof -
  have inj: "inj_on (kernel_pml3 demo_boot) (set [0..<256])"
    by (rule inj_onI) (metis add_left_cancel demo_pml3 atLeastLessThan_iff mult_right_cancel set_upt zero_neq_numeral)
  have ne: "kernel_pml3 demo_boot i \<noteq> 0x200000" "kernel_pml3 demo_boot i \<noteq> 0x201000" "kernel_pml3 demo_boot i \<noteq> 0x202000"
    if "i < 256" for i
    using demo_pml3 [OF that] by auto
  have "kernel_pml3 demo_boot i AND PAGE_ADDRESS_MASK = kernel_pml3 demo_boot i" if "i < 256" for i
    using that by (intro frame_aligned) (simp_all add: demo_pml3 mod_add_left_eq [symmetric])
  then show ?thesis
    using inj ne
    by (auto simp: boot_tables_ok_def static_tables_def distinct_map image_page_count_def ROUND_UP_def is_table_def
        demo_paging_def PAGE_ADDRESS_MASK_def demo_boot_def)
qed

abbreviation demo_map :: "physical_region list" where
  "demo_map \<equiv> [\<lparr>rg_base = 0x1000000, rg_length = 0x40000000, rg_page_array = NULL, rg_type = REGION_TYPE_AVAILABLE\<rparr>]"

lemma demo_carve:
  "highest_physical_address demo_map = 0x41000000" "required_pml2s demo_map = 2" "first_carved demo_map = 0x40ffe000"
  "image_page_count demo_boot = 3"
proof -
  show h: "highest_physical_address demo_map = 0x41000000"
    by (simp add: highest_physical_address_def)
  then show r: "required_pml2s demo_map = 2"
    by (simp add: required_pml2s_def ROUND_UP_def)
  have "largest_region demo_map = 0"
    by (simp add: largest_region_def)
  then show "first_carved demo_map = 0x40ffe000"
    by (simp add: first_carved_def r)
  show "image_page_count demo_boot = 3"
    by (simp add: image_page_count_def demo_boot_def ROUND_UP_def)
qed

lemma demo_carve_ok: "carve_ok demo_boot (first_carved demo_map) (required_pml2s demo_map)"
proof -
  have "kernel_pml3 demo_boot j \<noteq> 0x40ffe000 \<and> kernel_pml3 demo_boot j \<noteq> 0x40fff000" if "j < 256" for j
    using demo_pml3 [OF that] that by auto
  moreover have "bt_pml4 demo_boot = 0x200000" "bt_pml2 demo_boot = 0x201000" "bt_window demo_boot = 0x202000"
    by (simp_all add: demo_boot_def)
  ultimately show ?thesis
    unfolding carve_ok_def demo_carve
    by (auto dest!: less_2_cases simp: static_tables_def PAGE_ADDRESS_MASK_def)
qed

theorem paging_init_correct_witness:
  "\<exists>s'. paging_init demo_boot 0x7000 demo_paging = Ret s' \<and>
     mmu_walk 3 (mm_tables (kernel_mmu s')) (cr3 s') 0xffff800000345678 = Some 0x345678 \<and>
     mmu_walk 3 (mm_tables (kernel_mmu s')) (cr3 s') 0xFFFFFFFF80123456 = Some 0x123456"
proof -
  have rs: "regions_array (mm_pmm (kernel_mmu demo_paging)) = demo_map"
    by (simp add: demo_paging_def)
  obtain s' where s': "paging_init demo_boot 0x7000 demo_paging = Ret s'"
    "\<forall>p. unat p < unat (highest_physical_address demo_map) \<and> unat p < 2 ^ 39 \<longrightarrow>
       mmu_walk 3 (mm_tables (kernel_mmu s')) (cr3 s') (physical_map_base + p) = Some p"
    "\<forall>p. unat p < image_page_count demo_boot * 2 ^ 21 \<longrightarrow>
       mmu_walk 3 (mm_tables (kernel_mmu s')) (cr3 s') (KERNEL_VIRTUAL_ADDRESS + p) = Some p"
    using paging_init_correct [OF rs _ demo_static demo_carve_ok, of "0x7000"] by auto
  show ?thesis
    using s'(1) s'(2) [rule_format, of "0x345678"] s'(3) [rule_format, of "0x123456"] unfolding demo_carve by simp
qed

end
