(* ===== verification/Console.thy ===== *)
theory Console
  imports Syscall Format
begin

text \<open>
  Text output: the framebuffer console (\<^verbatim>\<open>devices/framebuffer.c\<close>) and the serial line (\<^verbatim>\<open>arch/x86_64/debug.c\<close>). The
  framebuffer is memory; the font's glyphs and the strings are read from the same memory. Coordinates are the values
  of C \<^verbatim>\<open>int\<close>s. What the serial port is sent is a list of port writes, the latest first; whether its transmitter ever
  becomes empty is a parameter.
\<close>

section \<open>The framebuffer\<close>

record console = framebuffer_info +
  framebuffer :: ptr
  cursor_x :: int
  cursor_y :: int
  max_x :: int
  max_y :: int

definition bytes_per_pixel :: "'a framebuffer_info_scheme \<Rightarrow> int" where
  "bytes_per_pixel c = sint (fb_bits_per_pixel c) sdiv 8"

definition u32_bytes :: "u32 \<Rightarrow> u8 list" where
  "u32_bytes w = [ucast w, ucast (drop_bit 8 w), ucast (drop_bit 16 w), ucast (drop_bit 24 w)]"

text \<open>An error of the mapping is reported only: the console is set up all the same, with no address.\<close>

definition init_framebuffer :: "nat \<Rightarrow> u64 \<Rightarrow> u32 \<times> u32 \<times> u32 \<times> u32 \<Rightarrow> console \<times> kernel \<Rightarrow> (console \<times> kernel) outcome" where
  "init_framebuffer depth location = (\<lambda>(width, height, pitch, bits_per_pixel) (c, s).
     obind (vm_object_create_physical location (scast (pitch * height)) VM_MMIO_FLAGS s) (\<lambda>(status, vm, s).
     if status \<noteq> IR_OK then Ret (c, s) else
     obind (v_addr_region_map_vm_object depth (kernel_region s)
              (V_ADDR_REGION_READABLE OR V_ADDR_REGION_WRITABLE OR V_ADDR_REGION_DISABLE_CACHE) vm 0 s)
       (\<lambda>(status, _, address, s).
     Ret (c\<lparr>framebuffer_vm_object := vm, fb_width := width, fb_height := height, fb_pitch := pitch,
            fb_bits_per_pixel := bits_per_pixel, framebuffer := (if status = IR_OK then address else framebuffer c),
            cursor_x := 0, cursor_y := 0, max_x := sint width sdiv 8, max_y := sint height sdiv 16\<rparr>, s))))"

text \<open>Filling: after row \<open>y\<close> the next row starts at \<open>y\<close> pitches from the top, so the first two rows are the same.\<close>

definition row_start :: "console \<Rightarrow> nat \<Rightarrow> ptr" where
  "row_start c y = framebuffer c + word_of_int (int (y - 1) * sint (fb_pitch c))"

definition fill_row :: "u8 list \<Rightarrow> ptr \<Rightarrow> nat \<Rightarrow> memory \<Rightarrow> memory" where
  "fill_row pixel row n = fold (\<lambda>x. write_bytes (row + of_nat (length pixel * x)) pixel) [0..<n]"

definition framebuffer_fill_screen :: "u8 \<Rightarrow> u8 \<Rightarrow> u8 \<Rightarrow> console \<Rightarrow> memory \<Rightarrow> memory" where
  "framebuffer_fill_screen r g b c m =
     (if framebuffer c = NULL then m else
      let pixel = (if fb_bits_per_pixel c = 32 then u32_bytes (push_bit 16 (ucast r) OR push_bit 8 (ucast g) OR ucast b) else [r, g, b]) in
      fold (\<lambda>y. fill_row pixel (row_start c y) (nat (sint (fb_width c)))) [0..<nat (sint (fb_height c))] m)"

definition framebuffer_set_cursor_pos :: "int \<Rightarrow> int \<Rightarrow> console \<Rightarrow> console" where
  "framebuffer_set_cursor_pos x y c = c\<lparr>cursor_x := x, cursor_y := y\<rparr>"

section \<open>Text\<close>

text \<open>\<open>font\<close> is the address of the font file, whose header holds the offset of the glyphs and the size of one.\<close>

definition font_header_size :: "memory \<Rightarrow> ptr \<Rightarrow> u32" where "font_header_size m font = ucast (read_word (font + 8) m)"
definition font_bytes_per_glyph :: "memory \<Rightarrow> ptr \<Rightarrow> u32" where "font_bytes_per_glyph m font = ucast (read_word (font + 20) m)"

definition glyph_address :: "memory \<Rightarrow> ptr \<Rightarrow> u8 \<Rightarrow> ptr" where
  "glyph_address m font c = font + ucast (font_header_size m font) + ucast (font_bytes_per_glyph m font * ucast c)"

definition pixel_address :: "console \<Rightarrow> int \<Rightarrow> int \<Rightarrow> ptr" where
  "pixel_address c x y = framebuffer c + word_of_int (y * sint (fb_pitch c)) + word_of_int (x * bytes_per_pixel c)"

definition put_pixel :: "console \<Rightarrow> u32 \<Rightarrow> u32 \<Rightarrow> int \<Rightarrow> int \<Rightarrow> memory \<Rightarrow> memory" where
  "put_pixel c colour byte x y m =
     (if fb_bits_per_pixel c = 32 then write_bytes (pixel_address c x y) (u32_bytes colour) m
      else memset (pixel_address c x y) byte (word_of_int (bytes_per_pixel c)) m)"

definition clear_cell :: "console \<Rightarrow> memory \<Rightarrow> memory" where
  "clear_cell c = fold (\<lambda>y. fold (\<lambda>x. put_pixel c 0 0 (int x + cursor_x c * 8) (int y + cursor_y c * 16)) [0..<8]) [0..<16]"

definition draw_glyph :: "console \<Rightarrow> ptr \<Rightarrow> memory \<Rightarrow> memory" where
  "draw_glyph c glyph = fold (\<lambda>y. fold (\<lambda>x m.
     if bit (m (glyph + of_nat y)) (7 - x) then put_pixel c 0x00ffffff 0xff (int x + cursor_x c * 8) (int y + cursor_y c * 16) m
     else m) [0..<8]) [0..<16]"

definition put_char :: "ptr \<Rightarrow> u8 \<Rightarrow> console \<times> memory \<Rightarrow> console \<times> memory" where
  "put_char font b = (\<lambda>(c, m).
     if b = 10 then (c\<lparr>cursor_x := 0, cursor_y := cursor_y c + 1\<rparr>, m)
     else if b = 8 then (if cursor_x c > 0 then let c = c\<lparr>cursor_x := cursor_x c - 1\<rparr> in (c, clear_cell c m) else (c, m))
     else (c\<lparr>cursor_x := cursor_x c + 1\<rparr>, draw_glyph c (glyph_address m font b) m))"

text \<open>The end of a line, and the end of the screen, which is cleared.\<close>

definition wrap_cursor :: "console \<times> memory \<Rightarrow> console \<times> memory" where
  "wrap_cursor = (\<lambda>(c, m).
     let c = (if cursor_x c \<ge> max_x c then c\<lparr>cursor_x := 0, cursor_y := cursor_y c + 1\<rparr> else c) in
     if cursor_y c \<ge> max_y c then (framebuffer_set_cursor_pos 0 0 c, framebuffer_fill_screen 0 0 0 c m) else (c, m))"

partial_function (option) print_loop :: "ptr \<Rightarrow> ptr \<Rightarrow> console \<times> memory \<Rightarrow> (console \<times> memory) option" where
  "print_loop font str st =
     (if snd st str \<noteq> 0 \<and> cursor_y (fst st) \<le> max_y (fst st)
      then print_loop font (str + 1) (wrap_cursor (put_char font (snd st str) st)) else Some st)"

declare print_loop.simps [code]

definition framebuffer_print :: "ptr \<Rightarrow> ptr \<Rightarrow> console \<times> memory \<Rightarrow> (console \<times> memory) outcome" where
  "framebuffer_print font str = (\<lambda>(c, m).
     if framebuffer c = NULL then Ret (c, m)
     else case print_loop font str (c, m) of None \<Rightarrow> Hang | Some st \<Rightarrow> Ret st)"

text \<open>The text is formatted into a static buffer of 2048 bytes at \<open>buf\<close>; more is written past its end.\<close>

definition framebuffer_printf :: "ptr \<Rightarrow> ptr \<Rightarrow> u8 list \<Rightarrow> u64 list \<Rightarrow> console \<times> memory \<Rightarrow> (console \<times> memory) outcome" where
  "framebuffer_printf font buf fmt args = (\<lambda>(c, m).
     if framebuffer c = NULL then Ret (c, m) else
     obind (vsprintf m fmt args) (\<lambda>out.
     if 2048 < length out + 1 then Fault else framebuffer_print font buf (c, write_bytes buf (out @ [0]) m)))"

section \<open>The serial line\<close>

definition SERIAL_BASE_PORT :: u16 where "SERIAL_BASE_PORT = 0x3f8"

type_synonym port_log = "(u16 \<times> u8) list"

definition outb :: "u16 \<Rightarrow> u8 \<Rightarrow> port_log \<Rightarrow> port_log" where
  "outb port data log = (port, data) # log"

definition debug_init :: "port_log \<Rightarrow> port_log" where
  "debug_init log = outb (SERIAL_BASE_PORT + 4) 0x0B (outb (SERIAL_BASE_PORT + 2) 0xC7 (outb (SERIAL_BASE_PORT + 3) 0x03
     (outb (SERIAL_BASE_PORT + 1) 0x00 (outb (SERIAL_BASE_PORT + 0) 0x03 (outb (SERIAL_BASE_PORT + 3) 0x80
     (outb (SERIAL_BASE_PORT + 1) 0x0 log))))))"

definition debug_print_char :: "(port_log \<Rightarrow> bool) \<Rightarrow> u8 \<Rightarrow> port_log \<Rightarrow> port_log outcome" where
  "debug_print_char empties c log = (if empties log then Ret (outb SERIAL_BASE_PORT c log) else Hang)"

text \<open>The index into the string is an \<^verbatim>\<open>int\<close>.\<close>

partial_function (option) debug_print_loop :: "(port_log \<Rightarrow> bool) \<Rightarrow> memory \<Rightarrow> ptr \<Rightarrow> u32 \<Rightarrow> port_log \<Rightarrow> port_log outcome option" where
  "debug_print_loop empties m str i log =
     (if m (str + scast i) \<noteq> 0 then
        case debug_print_char empties (m (str + scast i)) log of
          Ret log \<Rightarrow> debug_print_loop empties m str (i + 1) log
        | Fault \<Rightarrow> Some Fault | Panic \<Rightarrow> Some Panic | Hang \<Rightarrow> Some Hang
      else Some (Ret log))"

declare debug_print_loop.simps [code]

definition debug_print :: "(port_log \<Rightarrow> bool) \<Rightarrow> memory \<Rightarrow> ptr \<Rightarrow> port_log \<Rightarrow> port_log outcome" where
  "debug_print empties m str log = looped (debug_print_loop empties m str 0 log)"

definition hex_character :: "u64 \<Rightarrow> u8" where
  "hex_character digit = of_char (''0123456789abcdef'' ! unat digit)"

text \<open>\<open>prefix\<close> is the address of the string \<^verbatim>\<open>"0x"\<close>.\<close>

definition debug_print_hex :: "(port_log \<Rightarrow> bool) \<Rightarrow> memory \<Rightarrow> ptr \<Rightarrow> u64 \<Rightarrow> port_log \<Rightarrow> port_log outcome" where
  "debug_print_hex empties m prefix v log = obind (debug_print empties m prefix log)
     (ofold (\<lambda>i. debug_print_char empties (hex_character (drop_bit (i * 4) v AND 0xf))) (rev [0..<16]))"

definition debug_printf :: "(port_log \<Rightarrow> bool) \<Rightarrow> ptr \<Rightarrow> u8 list \<Rightarrow> u64 list \<Rightarrow> memory \<times> port_log \<Rightarrow> (memory \<times> port_log) outcome" where
  "debug_printf empties buf fmt args = (\<lambda>(m, log).
     obind (vsprintf m fmt args) (\<lambda>out.
     if 1024 < length out + 1 then Fault else
     let m = write_bytes buf (out @ [0]) m in
     obind (debug_print empties m buf log) (\<lambda>log. Ret (m, log))))"

section \<open>Staying on the screen\<close>

definition in_screen :: "console \<Rightarrow> ptr \<Rightarrow> bool" where
  "in_screen c a \<longleftrightarrow> int (unat (a - framebuffer c)) < sint (fb_pitch c) * sint (fb_height c)"

text \<open>
  A mode with 24 or 32 bits per pixel whose rows fit the pitch, with room for a character, mapped without wrapping.
\<close>

definition mode_ok :: "console \<Rightarrow> bool" where
  "mode_ok c \<longleftrightarrow> framebuffer c \<noteq> NULL \<and> (fb_bits_per_pixel c = 24 \<or> fb_bits_per_pixel c = 32) \<and>
     0 < max_x c \<and> 0 < max_y c \<and> max_x c = sint (fb_width c) sdiv 8 \<and> max_y c = sint (fb_height c) sdiv 16 \<and>
     sint (fb_width c) * bytes_per_pixel c \<le> sint (fb_pitch c) \<and>
     sint (fb_pitch c) * sint (fb_height c) < 2 ^ 31"

definition cursor_ok :: "console \<Rightarrow> bool" where
  "cursor_ok c \<longleftrightarrow> 0 \<le> cursor_x c \<and> cursor_x c < max_x c \<and> 0 \<le> cursor_y c \<and> cursor_y c < max_y c"

lemma bytes_per_pixel_cases: "mode_ok c \<Longrightarrow> bytes_per_pixel c = 3 \<and> fb_bits_per_pixel c \<noteq> 32 \<or> bytes_per_pixel c = 4 \<and> fb_bits_per_pixel c = 32"
  by (auto simp: mode_ok_def bytes_per_pixel_def)

text \<open>The geometry of a mode in whole numbers.\<close>

lemma mode_geometry:
  assumes "mode_ok c"
  shows "8 * max_x c \<le> sint (fb_width c)" "16 * max_y c \<le> sint (fb_height c)" "0 < sint (fb_width c)" "0 < sint (fb_height c)"
    "3 \<le> bytes_per_pixel c" "bytes_per_pixel c \<le> 4" "0 < sint (fb_pitch c)"
proof -
  have sdiv: "8 * (w sdiv 8) \<le> w \<and> 0 < w" if "0 < w sdiv 8" for w :: int
    using that by (cases "0 \<le> w") (auto simp: signed_divide_int_def sgn_if split: if_splits)
  have sdiv16: "16 * (w sdiv 16) \<le> w \<and> 0 < w" if "0 < w sdiv 16" for w :: int
    using that by (cases "0 \<le> w") (auto simp: signed_divide_int_def sgn_if split: if_splits)
  show w: "8 * max_x c \<le> sint (fb_width c)" "0 < sint (fb_width c)" "16 * max_y c \<le> sint (fb_height c)" "0 < sint (fb_height c)"
    using assms sdiv [of "sint (fb_width c)"] sdiv16 [of "sint (fb_height c)"] by (auto simp: mode_ok_def)
  show b: "3 \<le> bytes_per_pixel c" "bytes_per_pixel c \<le> 4"
    using bytes_per_pixel_cases [OF assms] by auto
  have "0 < sint (fb_width c) * bytes_per_pixel c"
    using w(2) b(1) by simp
  then show "0 < sint (fb_pitch c)"
    using assms by (simp add: mode_ok_def)
qed

lemma offset_on_screen:
  fixes o' :: int
  assumes "0 \<le> o'" "o' < p * h" "p * h < 2 ^ 31"
  shows "int (unat (f + word_of_int o' - f :: u64)) = o'"
proof -
  have "f + word_of_int o' - f = (word_of_int o' :: u64)"
    by simp
  moreover have "uint (word_of_int o' :: u64) = o'"
    using assms by (simp add: uint_word_of_int)
  ultimately show ?thesis
    by simp
qed

lemma byte_on_screen:
  assumes "mode_ok c" "0 \<le> x" "x < sint (fb_width c)" "0 \<le> y" "y < sint (fb_height c)" "0 \<le> i" "i < bytes_per_pixel c"
  shows "in_screen c (pixel_address c x y + word_of_int i)"
proof -
  note g = mode_geometry [OF assms(1)]
  let ?p = "sint (fb_pitch c)" and ?h = "sint (fb_height c)" and ?b = "bytes_per_pixel c"
  have "(x + 1) * ?b \<le> sint (fb_width c) * ?b"
    using assms(3) g(5) by (intro mult_right_mono) auto
  then have x: "x * ?b + i < ?p"
    using assms(1,7) by (simp add: mode_ok_def algebra_simps)
  have "(y + 1) * ?p \<le> ?h * ?p"
    using assms(5) g(7) by (intro mult_right_mono) auto
  then have "y * ?p + (x * ?b + i) < ?p * ?h"
    using x by (simp add: algebra_simps)
  moreover have "0 \<le> y * ?p + (x * ?b + i)"
    using assms(2,4,6) g(5,7) by simp
  moreover have "pixel_address c x y + word_of_int i = framebuffer c + word_of_int (y * ?p + (x * ?b + i))"
    by (simp add: pixel_address_def)
  ultimately show ?thesis
    using offset_on_screen [of "y * ?p + (x * ?b + i)" ?p ?h "framebuffer c"] assms(1)
    by (simp add: in_screen_def mode_ok_def)
qed

lemma fold_outside:
  "(\<And>x m. x \<in> set xs \<Longrightarrow> f x m a = (m :: memory) a) \<Longrightarrow> fold f xs m a = m a"
  by (induction xs arbitrary: m) simp_all

lemma within_block: "unat (a - b :: u64) < n \<Longrightarrow> \<exists>k < n. a = b + word_of_int (int k)"
  by (intro exI [of _ "unat (a - b)"]) simp

lemma put_pixel_outside:
  assumes "mode_ok c" "0 \<le> x" "x < sint (fb_width c)" "0 \<le> y" "y < sint (fb_height c)" "\<not> in_screen c a"
  shows "put_pixel c v byte x y m a = m a"
proof -
  have off: "\<not> unat (a - pixel_address c x y) < nat (bytes_per_pixel c)"
  proof
    assume "unat (a - pixel_address c x y) < nat (bytes_per_pixel c)"
    then obtain k where "k < nat (bytes_per_pixel c)" "a = pixel_address c x y + word_of_int (int k)"
      using within_block by blast
    then show False
      using byte_on_screen [OF assms(1-5), of "int k"] assms(6) by auto
  qed
  then show ?thesis
    using bytes_per_pixel_cases [OF assms(1)] by (auto simp: put_pixel_def write_bytes_apply u32_bytes_def memset_apply)
qed

lemma cell_pixel:
  assumes "mode_ok c" "0 \<le> cx" "cx < max_x c" "0 \<le> cy" "cy < max_y c" "x < 8" "y < 16"
  shows "0 \<le> int x + cx * 8" "int x + cx * 8 < sint (fb_width c)" "0 \<le> int y + cy * 16" "int y + cy * 16 < sint (fb_height c)"
  using mode_geometry(1,2) [OF assms(1)] assms(2-7) by auto

lemma draw_glyph_outside:
  assumes "mode_ok c" "cursor_ok c" "\<not> in_screen c a"
  shows "draw_glyph c glyph m a = m a"
proof -
  have "put_pixel c v w (int x + cursor_x c * 8) (int y + cursor_y c * 16) m a = m a" if "x < 8" "y < 16" for v w x y m
    using cell_pixel [OF assms(1), of "cursor_x c" "cursor_y c" x y] that assms by (intro put_pixel_outside) (auto simp: cursor_ok_def)
  then show ?thesis
    unfolding draw_glyph_def by (intro fold_outside) simp
qed

lemma clear_cell_outside:
  assumes "mode_ok c" "cursor_ok c" "\<not> in_screen c a"
  shows "clear_cell c m a = m a"
proof -
  have "put_pixel c v w (int x + cursor_x c * 8) (int y + cursor_y c * 16) m a = m a" if "x < 8" "y < 16" for v w x y m
    using cell_pixel [OF assms(1), of "cursor_x c" "cursor_y c" x y] that assms by (intro put_pixel_outside) (auto simp: cursor_ok_def)
  then show ?thesis
    unfolding clear_cell_def by (intro fold_outside) simp
qed

lemma row_byte_on_screen:
  assumes "mode_ok c" "y < nat (sint (fb_height c))" "x < nat (sint (fb_width c))" "k < n" "int n = bytes_per_pixel c"
  shows "in_screen c (row_start c y + of_nat (n * x) + word_of_int (int k))"
proof -
  have "pixel_address c (int x) (int (y - 1)) = row_start c y + of_nat (n * x)"
    by (simp add: pixel_address_def row_start_def assms(5) [symmetric] ac_simps)
  then show ?thesis
    using byte_on_screen [OF assms(1), of "int x" "int (y - 1)" "int k"] assms(2-5) by auto
qed

lemma fill_screen_outside:
  assumes "mode_ok c" "\<not> in_screen c a"
  shows "framebuffer_fill_screen r g b c m a = m a"
proof -
  define pixel where "pixel = (if fb_bits_per_pixel c = 32 then u32_bytes (push_bit 16 (ucast r) OR push_bit 8 (ucast g) OR ucast b) else [r, g, b])"
  have len: "int (length pixel) = bytes_per_pixel c" "length pixel \<le> 4"
    using bytes_per_pixel_cases [OF assms(1)] by (auto simp: pixel_def u32_bytes_def)
  have "write_bytes (row_start c y + of_nat (length pixel * x)) pixel m a = m a"
    if "y < nat (sint (fb_height c))" "x < nat (sint (fb_width c))" for x y m
  proof -
    have "\<not> unat (a - (row_start c y + of_nat (length pixel * x))) < length pixel"
      using within_block [of a "row_start c y + of_nat (length pixel * x)" "length pixel"]
        row_byte_on_screen [OF assms(1) that _ len(1)] assms(2) by blast
    then show ?thesis
      using len(2) by (simp add: write_bytes_apply)
  qed
  then have "fold (\<lambda>y. fill_row pixel (row_start c y) (nat (sint (fb_width c)))) [0..<nat (sint (fb_height c))] m a = m a"
    unfolding fill_row_def by (intro fold_outside) simp
  then show ?thesis
    by (simp add: framebuffer_fill_screen_def pixel_def [symmetric] Let_def)
qed

text \<open>The mode is everything but the cursor.\<close>

definition same_mode :: "console \<Rightarrow> console \<Rightarrow> bool" where
  "same_mode c c' \<longleftrightarrow> c'\<lparr>cursor_x := 0, cursor_y := 0\<rparr> = c\<lparr>cursor_x := 0, cursor_y := 0\<rparr>"

lemma same_modeI: "same_mode c (c\<lparr>cursor_x := x, cursor_y := y\<rparr>)" "same_mode c (c\<lparr>cursor_x := x\<rparr>)" "same_mode c c"
  by (simp_all add: same_mode_def)

lemma same_mode_fields:
  assumes "same_mode c c'"
  shows "framebuffer c' = framebuffer c" "fb_width c' = fb_width c" "fb_height c' = fb_height c" "fb_pitch c' = fb_pitch c"
    "fb_bits_per_pixel c' = fb_bits_per_pixel c" "max_x c' = max_x c" "max_y c' = max_y c"
  using assms by (cases c; cases c'; simp add: same_mode_def)+

lemma same_mode_ok:
  assumes "same_mode c c'"
  shows "mode_ok c' = mode_ok c" "in_screen c' = in_screen c"
  using same_mode_fields [OF assms] by (auto simp: mode_ok_def in_screen_def bytes_per_pixel_def fun_eq_iff)

lemma put_char_wrap_ok:
  assumes "mode_ok c" "cursor_ok c" "wrap_cursor (put_char font b (c, m)) = (c', m')"
  shows "same_mode c c' \<and> cursor_ok c' \<and> (\<forall>a. \<not> in_screen c a \<longrightarrow> m' a = m a)"
proof -
  obtain c1 m1 where p: "put_char font b (c, m) = (c1, m1)"
    by fastforce
  have one: "same_mode c c1" "\<forall>a. \<not> in_screen c a \<longrightarrow> m1 a = m a" "0 \<le> cursor_x c1" "0 \<le> cursor_y c1"
      "cursor_x c1 \<le> max_x c" "cursor_y c1 \<le> max_y c" "cursor_x c1 < max_x c \<or> cursor_y c1 < max_y c"
  proof -
    have cell: "cursor_x c > 0 \<Longrightarrow> cursor_ok (c\<lparr>cursor_x := cursor_x c - 1\<rparr>)" "mode_ok (c\<lparr>cursor_x := x\<rparr>) = mode_ok c"
        "in_screen (c\<lparr>cursor_x := x\<rparr>) = in_screen c" for x
      using assms(2) same_mode_ok [OF same_modeI(2)] by (auto simp: cursor_ok_def)
    show "same_mode c c1" "\<forall>a. \<not> in_screen c a \<longrightarrow> m1 a = m a" "0 \<le> cursor_x c1" "0 \<le> cursor_y c1"
      "cursor_x c1 \<le> max_x c" "cursor_y c1 \<le> max_y c" "cursor_x c1 < max_x c \<or> cursor_y c1 < max_y c"
      using p assms(1,2) clear_cell_outside [of "c\<lparr>cursor_x := cursor_x c - 1\<rparr>"] draw_glyph_outside [OF assms(1,2)] cell
      by (auto simp: put_char_def Let_def same_modeI cursor_ok_def mode_ok_def split: if_splits)
  qed
  note f = same_mode_fields [OF one(1)]
  have ok1: "mode_ok c1" "in_screen c1 = in_screen c"
    using same_mode_ok [OF one(1)] assms(1) by simp_all
  have pos: "0 < max_x c" "0 < max_y c"
    using assms(1) by (simp_all add: mode_ok_def)
  define c2 where "c2 = (if cursor_x c1 \<ge> max_x c1 then c1\<lparr>cursor_x := 0, cursor_y := cursor_y c1 + 1\<rparr> else c1)"
  have c2: "same_mode c c2" "mode_ok c2" "in_screen c2 = in_screen c" "0 \<le> cursor_x c2" "cursor_x c2 < max_x c" "0 \<le> cursor_y c2"
      "max_y c2 = max_y c" "max_x c2 = max_x c"
  proof -
    have m: "same_mode c1 c2"
      by (simp add: c2_def same_modeI)
    then show "same_mode c c2"
      using one(1) by (simp add: same_mode_def)
    show "mode_ok c2" "in_screen c2 = in_screen c" "max_y c2 = max_y c" "max_x c2 = max_x c"
      using same_mode_ok [OF m] same_mode_fields [OF m] ok1 f by simp_all
    show "0 \<le> cursor_x c2" "cursor_x c2 < max_x c" "0 \<le> cursor_y c2"
      using one pos f by (auto simp: c2_def)
  qed
  have r: "(c', m') = (if cursor_y c2 \<ge> max_y c2 then (framebuffer_set_cursor_pos 0 0 c2, framebuffer_fill_screen 0 0 0 c2 m1) else (c2, m1))"
    using assms(3) unfolding p wrap_cursor_def prod.case Let_def c2_def [symmetric] by (rule sym)
  show ?thesis
  proof (cases "cursor_y c2 \<ge> max_y c2")
    case True
    then have "c' = c2\<lparr>cursor_x := 0, cursor_y := 0\<rparr>" "m' = framebuffer_fill_screen 0 0 0 c2 m1"
      using r by (simp_all add: framebuffer_set_cursor_pos_def)
    then show ?thesis
      using c2 one(2) pos fill_screen_outside [OF c2(2)] by (simp add: same_mode_def cursor_ok_def)
  next
    case False
    then show ?thesis
      using r c2 one(2) by (simp add: cursor_ok_def)
  qed
qed

lemma print_loop_ok:
  assumes "cstring m str bs" "mode_ok c" "cursor_ok c" "\<forall>i \<le> length bs. \<not> in_screen c (str + of_nat i)"
  shows "\<exists>c' m'. print_loop font str (c, m) = Some (c', m') \<and> same_mode c c' \<and> cursor_ok c' \<and> (\<forall>a. \<not> in_screen c a \<longrightarrow> m' a = m a)"
  using assms
proof (induction bs arbitrary: str c m)
  case Nil
  then show ?case
    by (subst print_loop.simps) (simp add: same_modeI)
next
  case (Cons b bs)
  obtain c1 m1 where s: "wrap_cursor (put_char font b (c, m)) = (c1, m1)"
    by fastforce
  note step = put_char_wrap_ok [OF Cons.prems(2,3) s]
  have out: "\<forall>i \<le> length bs. \<not> in_screen c (str + 1 + of_nat i)"
    using Cons.prems(4) [rule_format, of "Suc i" for i] by (auto simp: ac_simps)
  have keep: "cstring m1 p bs'" if "cstring m p bs'" "\<forall>i \<le> length bs'. \<not> in_screen c (p + of_nat i)" for p bs'
    using that
  proof (induction bs' arbitrary: p)
    case Nil
    then show ?case
      using step by simp
  next
    case (Cons b' bs')
    have "\<forall>i \<le> length bs'. \<not> in_screen c (p + 1 + of_nat i)"
      using Cons.prems(2) [rule_format, of "Suc i" for i] by (auto simp: ac_simps)
    then show ?case
      using Cons step Cons.prems(2) [rule_format, of 0] by auto
  qed
  have "cstring m1 (str + 1) bs"
    using Cons.prems(1) out by (intro keep) simp_all
  then obtain c' m' where r: "print_loop font (str + 1) (c1, m1) = Some (c', m')" "same_mode c1 c'" "cursor_ok c'"
      "\<forall>a. \<not> in_screen c1 a \<longrightarrow> m' a = m1 a"
    using Cons.IH [of m1 "str + 1" c1] same_mode_ok [of c c1] step Cons.prems(2) out by auto
  have "print_loop font str (c, m) = print_loop font (str + 1) (c1, m1)"
    using Cons.prems(1,3) s by (subst print_loop.simps) (simp add: cursor_ok_def)
  then show ?case
    using r step same_mode_ok [of c c1] by (auto simp: same_mode_def)
qed

text \<open>C13: Printing a string on a console whose mode is sound ends, leaves the cursor inside the text area and the mode as
  it was, and writes no byte outside the framebuffer.\<close>

theorem framebuffer_print_correct:
  assumes "cstring m str bs" "mode_ok c" "cursor_ok c" "\<forall>i \<le> length bs. \<not> in_screen c (str + of_nat i)"
  shows "\<exists>c' m'. framebuffer_print font str (c, m) = Ret (c', m') \<and> same_mode c c' \<and> cursor_ok c' \<and>
    (\<forall>a. \<not> in_screen c a \<longrightarrow> m' a = m a)"
  using print_loop_ok [OF assms, of font] assms(2) by (auto simp: framebuffer_print_def mode_ok_def)

definition demo_console :: console where
  "demo_console = \<lparr>framebuffer_vm_object = 0x5000, fb_width = 16, fb_height = 32, fb_pitch = 64, fb_bits_per_pixel = 32,
     framebuffer = 0x100000, cursor_x = 0, cursor_y = 0, max_x = 2, max_y = 2\<rparr>"

definition demo_text :: memory where
  "demo_text = (\<lambda>_. 0)(0x2000 := 72, 0x2001 := 10, 0x2002 := 105, 0x100800 := 7)"

lemma demo_console_ok: "mode_ok demo_console" "cursor_ok demo_console"
  by (simp_all add: mode_ok_def cursor_ok_def demo_console_def bytes_per_pixel_def signed_divide_int_def sgn_if)

theorem framebuffer_print_correct_witness:
  "\<exists>c' m'. framebuffer_print 0x8000 0x2000 (demo_console, demo_text) = Ret (c', m') \<and> m' 0x100800 = 7 \<and> cursor_ok c'"
proof -
  have s: "cstring demo_text 0x2000 [72, 10, 105]"
    by (simp add: demo_text_def)
  have lt: "n \<le> Suc (Suc (Suc 0)) \<Longrightarrow> n = 0 \<or> n = Suc 0 \<or> n = Suc (Suc 0) \<or> n = Suc (Suc (Suc 0))" for n
    by linarith
  have o1: "\<forall>i \<le> length [72, 10, 105 :: u8]. \<not> in_screen demo_console (0x2000 + of_nat i)"
    by (auto dest!: lt simp: in_screen_def demo_console_def)
  have o2: "\<not> in_screen demo_console 0x100800" "demo_text 0x100800 = 7"
    by (simp_all add: in_screen_def demo_console_def demo_text_def)
  show ?thesis
    using framebuffer_print_correct [OF s demo_console_ok o1, of "0x8000"] o2 by metis
qed

section \<open>What filling the screen paints\<close>

lemma unat_sub_offset:
  assumes "q < 2 ^ 64"
  shows "unat (a - (f + of_nat q) :: u64) = (if q \<le> unat (a - f) then unat (a - f) - q else 2 ^ 64 + unat (a - f) - q)"
proof -
  have q: "unat (of_nat q :: u64) = q"
    by (rule unat_of_nat_u64 [OF assms])
  have s: "2 ^ size y = (2 ^ 64 :: nat)" for y :: u64
    by (simp add: word_size)
  show ?thesis
    using unat_sub_if_size [of "a - f" "of_nat q"] unfolding q s diff_diff_eq by (subst add.commute)
qed

lemma fill_row_apply:
  assumes "0 < length px" "length px * n < 2 ^ 64" "length px \<le> 2 ^ 64"
  shows "fill_row px row n m a = (if unat (a - row) < length px * n then px ! (unat (a - row) mod length px) else m a)"
  using assms(2)
proof (induction n)
  case (Suc n)
  let ?l = "length px" and ?o = "unat (a - row)"
  have step: "fill_row px row (Suc n) m a = write_bytes (row + of_nat (?l * n)) px (fill_row px row n m) a"
    by (simp add: fill_row_def)
  have d: "unat (a - (row + of_nat (?l * n))) = (if ?l * n \<le> ?o then ?o - ?l * n else 2 ^ 64 + ?o - ?l * n)"
    using Suc.prems by (intro unat_sub_offset) simp
  have big: "\<not> 2 ^ 64 + ?o - ?l * n < ?l"
    using Suc.prems by simp
  show ?case
  proof (cases "?l * n \<le> ?o \<and> ?o < ?l * Suc n")
    case True
    then have "?o mod ?l = ?o - ?l * n"
      using mod_nat_eqI [of "?o - ?l * n" ?l ?o] by auto
    then show ?thesis
      using True unfolding step write_bytes_apply [OF assms(3)] d by auto
  next
    case False
    then have "\<not> unat (a - (row + of_nat (?l * n))) < ?l"
      using big unfolding d by auto
    then show ?thesis
      using False Suc.IH Suc.prems unfolding step write_bytes_apply [OF assms(3)] by auto
  qed
qed (simp add: fill_row_def)

lemma row_offset:
  fixes a f :: u64 and p w o' :: nat
  assumes "w \<le> p" "0 < p" "y' * p < 2 ^ 32" "w < 2 ^ 32"
  shows "unat (a - (f + of_nat (y' * p))) < w \<longleftrightarrow> unat (a - f) div p = y' \<and> unat (a - f) mod p < w"
    and "unat (a - f) div p = y' \<Longrightarrow> unat (a - (f + of_nat (y' * p))) = unat (a - f) mod p"
proof -
  let ?o = "unat (a - f)"
  have d: "unat (a - (f + of_nat (y' * p))) = (if y' * p \<le> ?o then ?o - y' * p else 2 ^ 64 + ?o - y' * p)"
    using assms(3) by (intro unat_sub_offset) simp
  show rest: "?o div p = y' \<Longrightarrow> unat (a - (f + of_nat (y' * p))) = ?o mod p"
    unfolding d using minus_div_mult_eq_mod [of ?o p] by auto
  show "unat (a - (f + of_nat (y' * p))) < w \<longleftrightarrow> ?o div p = y' \<and> ?o mod p < w"
  proof
    assume lt: "unat (a - (f + of_nat (y' * p))) < w"
    have le: "y' * p \<le> ?o"
      using lt assms(3,4) unfolding d by (auto split: if_splits)
    then have "?o div p = y'"
      using lt assms(1) unfolding d by (intro div_nat_eqI) (auto simp: algebra_simps)
    then show "?o div p = y' \<and> ?o mod p < w"
      using rest lt by simp
  qed (use rest in simp)
qed

lemma fill_rows_apply:
  assumes "mode_ok c" "fb_bits_per_pixel c = 32" "length px = 4" "k \<le> nat (sint (fb_height c))"
    and "p = nat (sint (fb_pitch c))" "w = nat (sint (fb_width c))" "o' = unat (a - framebuffer c)"
  shows "fold (\<lambda>y. fill_row px (row_start c y) w) [0..<k] m a =
    (if (\<exists>y < k. o' div p = y - 1) \<and> o' mod p < 4 * w then px ! (o' mod p mod 4) else m a)"
  using assms(4)
proof (induction k)
  case (Suc k)
  note g = mode_geometry [OF assms(1)]
  have "int (4 * w) \<le> int p"
    using assms(1,2,5,6) g by (simp add: mode_ok_def bytes_per_pixel_def)
  then have wp: "4 * w \<le> p" "0 < p"
    using assms(5) g by auto
  have "int ((k - 1) * p) \<le> sint (fb_pitch c) * sint (fb_height c)"
    using Suc.prems g assms(5) by (simp add: mult.commute [of _ "sint (fb_pitch c)"] mult_left_mono)
  then have lim: "(k - 1) * p < 2 ^ 32" "4 * w < 2 ^ 32"
  proof -
    assume "int ((k - 1) * p) \<le> sint (fb_pitch c) * sint (fb_height c)"
    then have "int ((k - 1) * p) < 2 ^ 31"
      using assms(1) by (simp only: mode_ok_def) linarith
    then show "(k - 1) * p < 2 ^ 32"
      using of_nat_less_iff [where ?'a = int, of "(k - 1) * p" "2 ^ 31"] by simp
    have "p * 1 \<le> nat (sint (fb_pitch c) * sint (fb_height c))"
      using g assms(5) by (simp add: nat_mult_distrib)
    moreover have "nat (sint (fb_pitch c) * sint (fb_height c)) < 2 ^ 31"
      using assms(1) g(4,7) by (simp add: mode_ok_def nat_less_iff)
    ultimately show "4 * w < 2 ^ 32"
      using wp by simp
  qed
  have row: "row_start c k = framebuffer c + of_nat ((k - 1) * p)"
    using g assms(5) by (simp add: row_start_def)
  note off = row_offset [OF wp lim, of a "framebuffer c", folded assms(7)]
  have fill: "fill_row px (row_start c k) w m' a = (if o' div p = k - 1 \<and> o' mod p < 4 * w then px ! (o' mod p mod 4) else m' a)" for m'
    using fill_row_apply [of px w "row_start c k" m' a] assms(3) lim(2) off unfolding row by auto
  show ?case
    using Suc by (auto simp: fill less_Suc_eq)
qed simp

text \<open>Filling a 32-bit screen paints the whole width of every row but the last and changes nothing else: the last row
  keeps its contents.\<close>

theorem fill_screen_correct:
  assumes "mode_ok c" "fb_bits_per_pixel c = 32"
    and "p = nat (sint (fb_pitch c))" "w = nat (sint (fb_width c))" "h = nat (sint (fb_height c))" "o' = unat (a - framebuffer c)"
  shows "framebuffer_fill_screen r g b c m a =
    (if o' div p < h - 1 \<and> o' mod p < 4 * w then [b, g, r, 0] ! (o' mod p mod 4) else m a)"
proof -
  have bytes: "u32_bytes (push_bit 16 (ucast r) OR push_bit 8 (ucast g) OR ucast b) = [b, g, r, 0]"
  proof -
    have z: "\<not> bit (x :: u8) (8 + n)" "\<not> bit (x :: u8) (16 + n)" "\<not> bit (x :: u8) (24 + n)" for x n
      by (auto dest: bit_imp_le_length)
    show ?thesis
      unfolding u32_bytes_def by (auto intro!: bit_word_eqI simp: bit_simps z)
  qed
  have h: "16 \<le> h"
    using mode_geometry(2) [OF assms(1)] assms(1,5) by (auto simp: mode_ok_def)
  have ex: "(\<exists>y < h. d = y - 1) \<longleftrightarrow> d < h - 1" for d
  proof
    assume "d < h - 1"
    then show "\<exists>y < h. d = y - 1"
      by (intro exI [of _ "Suc d"]) simp
  qed (use h in auto)
  show ?thesis
    using fill_rows_apply [OF assms(1,2) _ _ assms(3,4,6), of "[b, g, r, 0]" h m] assms ex
    by (simp add: framebuffer_fill_screen_def Let_def bytes mode_ok_def)
qed

theorem fill_screen_correct_witness:
  "framebuffer_fill_screen 1 2 3 demo_console demo_text 0x100741 = 2 \<and> framebuffer_fill_screen 1 2 3 demo_console (\<lambda>_. 9) 0x1007c0 = 9"
  using fill_screen_correct [OF demo_console_ok(1) _ refl refl refl refl, where a = "0x100741" and r = 1 and g = 2 and b = 3 and m = demo_text]
    fill_screen_correct [OF demo_console_ok(1) _ refl refl refl refl, where a = "0x1007c0" and r = 1 and g = 2 and b = 3 and m = "\<lambda>_. 9"]
  by (simp add: demo_console_def)

section \<open>What the serial line is sent\<close>

definition sent :: "u8 list \<Rightarrow> port_log" where
  "sent bs = map (Pair SERIAL_BASE_PORT) (rev bs)"

lemma sent_simps [simp]: "sent [] = []" "sent (b # bs) @ log = sent bs @ outb SERIAL_BASE_PORT b log"
  by (simp_all add: sent_def outb_def)

lemma debug_print_loop_ok:
  assumes "cstring m (str + scast i) bs" "\<forall>log. empties log" "unat i + length bs < 2 ^ 31"
  shows "debug_print_loop empties m str i log = Some (Ret (sent bs @ log))"
  using assms
proof (induction bs arbitrary: i log)
  case Nil
  then show ?case
    by (subst debug_print_loop.simps) simp
next
  case (Cons b bs)
  have i: "unat (i + 1) = unat i + 1"
    using Cons.prems(3) by (simp add: unat_word_ariths)
  have "scast (i + 1) = (scast i + 1 :: u64)"
  proof -
    have "scast (of_nat (unat i + 1) :: u32) = (of_nat (unat i + 1) :: u64)" "scast (of_nat (unat i) :: u32) = (of_nat (unat i) :: u64)"
      using Cons.prems(3) by (intro scast_of_length; simp)+
    moreover have "of_nat (unat i + 1) = i + 1" "of_nat (unat i) = i"
      by simp_all
    ultimately show ?thesis
      by (simp only: of_nat_add of_nat_1)
  qed
  then have "debug_print_loop empties m str (i + 1) (outb SERIAL_BASE_PORT b log) = Some (Ret (sent bs @ outb SERIAL_BASE_PORT b log))"
    using Cons.prems i by (intro Cons.IH) (simp_all add: ac_simps)
  then show ?case
    using Cons.prems by (subst debug_print_loop.simps) (simp add: debug_print_char_def)
qed

lemma debug_print_ok:
  assumes "cstring m str bs" "\<forall>log. empties log" "length bs < 2 ^ 31"
  shows "debug_print empties m str log = Ret (sent bs @ log)"
  using debug_print_loop_ok [of m str 0 bs empties log] assms by (simp add: debug_print_def looped_def)

text \<open>Reading a hexadecimal numeral.\<close>

definition hex_digit_value :: "u8 \<Rightarrow> u64" where
  "hex_digit_value c = ucast (if c < 58 then c - 48 else c - 87)"

definition hex_value :: "u8 list \<Rightarrow> u64" where
  "hex_value = foldl (\<lambda>v c. push_bit 4 v OR hex_digit_value c) 0"

lemma hex_digit_value_character: "d < 16 \<Longrightarrow> hex_digit_value (hex_character d) = d"
proof -
  assume "d < 16"
  then have "unat d \<in> set [0..<16]"
    by (simp add: word_less_nat_alt)
  moreover have "\<forall>n \<in> set [0..<16]. hex_digit_value (hex_character (of_nat n)) = of_nat n"
    by (simp add: upt_rec hex_digit_value_def hex_character_def)
  ultimately have "hex_digit_value (hex_character (of_nat (unat d))) = of_nat (unat d)"
    by blast
  then show ?thesis
    by simp
qed

lemma nibbles:
  "foldl (\<lambda>v c. push_bit 4 v OR hex_digit_value c) (drop_bit (n * 4) v)
     (map (\<lambda>i. hex_character (drop_bit (i * 4) v AND 0xf)) (rev [0..<n])) = v"
proof (induction n)
  case (Suc n)
  have "push_bit 4 (drop_bit (Suc n * 4) v) OR (drop_bit (n * 4) v AND 0xf) = drop_bit (n * 4) v"
  proof -
    have "(0xf :: u64) = mask 4"
      by (simp add: mask_eq_exp_minus_1)
    moreover have "m < 4 \<or> 4 \<le> m" for m :: nat
      by linarith
    ultimately show ?thesis
      by (intro bit_word_eqI) (auto simp only: bit_simps mult_Suc, auto simp: ac_simps)
  qed
  moreover have "drop_bit (n * 4) v AND 0xf < (16 :: u64)"
    by (rule le_less_trans [OF word_and_le1]) simp
  ultimately show ?case
    using Suc by (simp add: hex_digit_value_character)
qed simp

lemma send_all:
  assumes "\<forall>log. empties log"
  shows "ofold (\<lambda>i. debug_print_char empties (f i)) xs log = Ret (sent (map f xs) @ log)"
  using assms by (induction xs arbitrary: log) (simp_all add: debug_print_char_def)

text \<open>Printing a value in hexadecimal sends the prefix and sixteen digits that read back as the value.\<close>

theorem debug_print_hex_correct:
  assumes "cstring m prefix [48, 120]" "\<forall>log. empties log"
  shows "\<exists>digits. debug_print_hex empties m prefix v log = Ret (sent ([48, 120] @ digits) @ log) \<and>
    length digits = 16 \<and> hex_value digits = v"
proof -
  let ?d = "map (\<lambda>i. hex_character (drop_bit (i * 4) v AND 0xf)) (rev [0..<16])"
  have "debug_print_hex empties m prefix v log = Ret (sent ?d @ sent [48, 120] @ log)"
    using debug_print_ok [OF assms] send_all [OF assms(2)] by (simp add: debug_print_hex_def del: upt_Suc sent_simps)
  moreover have "drop_bit (16 * 4) v = 0"
    by (simp add: drop_bit_eq_div unat_div word_unat_eq_iff)
  then have "hex_value ?d = v"
    using nibbles [of 16 v] by (simp add: hex_value_def del: upt_Suc)
  ultimately show ?thesis
    by (intro exI [of _ ?d]) (simp add: sent_def)
qed

theorem debug_print_hex_correct_witness:
  "\<exists>digits. debug_print_hex (\<lambda>_. True) ((\<lambda>_. 0)(0x10 := 48, 0x11 := 120)) 0x10 0xdeadbeef [] = Ret (sent ([48, 120] @ digits) @ []) \<and>
     length digits = 16 \<and> hex_value digits = 0xdeadbeef"
  by (rule debug_print_hex_correct) simp_all

end
