(* ===== verification/Startup.thy ===== *)
theory Startup
  imports Acpi Paging_Init Console
begin

text \<open>
  The start of the kernel, \<^verbatim>\<open>arch_main\<close> of \<^verbatim>\<open>arch/x86_64/main.c\<close>: it composes the interrupt tables, the boot
  loader's tags, the first page tables, the memory systems, the console, the platform and the first process, in the
  order of the code. What it prints is left out, as in the components.
\<close>

section \<open>Processor features\<close>

definition MSR_GS_BASE :: u32 where "MSR_GS_BASE = 0xC0000101"
definition CPUID_FEATURE_LEAF :: u32 where "CPUID_FEATURE_LEAF = 1"
definition CPUID_EDX_NX :: u32 where "CPUID_EDX_NX = push_bit 20 1"

text \<open>\<open>cpuid\<close> gives the register \<^verbatim>\<open>edx\<close> of a leaf. The other feature bits are printed only.\<close>

definition detect_no_execute :: "(u32 \<Rightarrow> u32) \<Rightarrow> kernel \<Rightarrow> kernel" where
  "detect_no_execute cpuid s =
     (if cpuid CPUID_FEATURE_LEAF AND CPUID_EDX_NX \<noteq> 0 then s\<lparr>kernel_mmu := (kernel_mmu s)\<lparr>no_execute_supported := True\<rparr>\<rparr>
      else s)"

definition arch_set_cpu_local_pointer :: "u64 \<Rightarrow> acpi \<Rightarrow> acpi" where
  "arch_set_cpu_local_pointer cpu_local_data x = emit (Write_MSR MSR_GS_BASE cpu_local_data) x"

section \<open>The parts of the machine\<close>

text \<open>
  What the start takes from the image, from the processor and from the devices: addresses of handlers, stacks, tables and
  strings, the results of the heap that the frame allocator asks for, \<^verbatim>\<open>cpuid\<close> and the platform.
\<close>

record image =
  im_local_data :: u64
  im_isr :: "u8 \<Rightarrow> u64"
  im_irq_pointers :: "u8 \<Rightarrow> u64"
  im_isr_spurious :: u64
  im_tss :: u64
  im_stack :: u64
  im_tables :: boot_tables
  im_kernel_space :: ptr
  im_virtual :: "u64 \<times> u64"
  im_idle_entry :: u64
  im_name_message :: ptr
  im_literal :: "string \<Rightarrow> ptr"
  im_calibration_irq :: u64
  im_depth :: nat
  im_calloc_results :: "nat \<Rightarrow> ptr"
  im_cpuid :: "u32 \<Rightarrow> u32"
  im_platform :: platform

record machine =
  mc_tss :: gdt_tss_entry
  mc_console :: console
  mc_acpi :: acpi
  mc_kernel :: kernel

section \<open>The start\<close>

definition set_memory_regions :: "physical_region list \<Rightarrow> kernel \<Rightarrow> kernel" where
  "set_memory_regions rs s =
     set_pmm ((mm_pmm (kernel_mmu s))\<lparr>regions_array := rs, regions_count := of_nat (length rs)\<rparr>) s"

text \<open>The only range that is kept from the frame allocator is the file of the first process.\<close>

definition initrd_range :: "u64 \<times> u64 \<Rightarrow> arch_reserved_range" where
  "initrd_range = (\<lambda>(init_module_start, init_module_end).
     \<lparr>rr_base = init_module_start, rr_length = init_module_end - init_module_start, rr_pages = NULL\<rparr>)"

definition start_console :: "nat \<Rightarrow> boot_info \<Rightarrow> console \<times> kernel \<Rightarrow> (console \<times> kernel) outcome" where
  "start_console depth b =
     (if found_framebuffer b
      then case fb_geometry b of (width, height, pitch, bpp) \<Rightarrow>
        init_framebuffer depth (fb_address b) (width, height, pitch, ucast bpp)
      else Ret)"

text \<open>Until the physical map exists: the descriptor tables, the features, the tags and the memory map.\<close>

definition early_start :: "image \<Rightarrow> ptr \<Rightarrow> machine \<Rightarrow> (boot_info \<times> machine) outcome" where
  "early_start im multiboot mc =
     (let x = arch_set_cpu_local_pointer (im_local_data im) (mc_acpi mc) in
      obind (idt_init (im_isr im) (im_irq_pointers im) (im_isr_spurious im) (gates x, mc_kernel mc)) (\<lambda>(_, table, s).
      let x = x\<lparr>gates := table\<rparr>; (tss, s) = init_tss (im_tss im) (im_stack im) (mc_tss mc) s;
          s = detect_no_execute (im_cpuid im) s in
      case scan_tags (memory s) (multiboot + 8) no_boot_info of None \<Rightarrow> Hang | Some b \<Rightarrow>
      obind (boot_memory_regions (memory s) b) (\<lambda>rs.
      obind (paging_init (im_tables im) (im_kernel_space im) (set_memory_regions rs s)) (\<lambda>s.
      Ret (b, mc\<lparr>mc_tss := tss, mc_acpi := x, mc_kernel := s\<rparr>)))))"

text \<open>After it: the memory systems, the console, the platform, and the first process.\<close>

definition late_start :: "image \<Rightarrow> boot_info \<Rightarrow> machine \<Rightarrow> (bool \<times> machine) outcome" where
  "late_start im b mc =
     (case init_module b of None \<Rightarrow> Panic | Some module \<Rightarrow>
      let bt = im_tables im; depth = im_depth im in
      obind (kernel_startup (im_calloc_results im) [initrd_range module] (bt_start bt, bt_end bt) (im_kernel_space im)
               (im_virtual im) (mc_kernel mc)) (\<lambda>s.
      obind (start_console depth b (mc_console mc, s)) (\<lambda>(c, s).
      case rsdp_addr b of None \<Rightarrow> Panic | Some root \<Rightarrow>
      obind (acpi_init depth (im_platform im) (im_literal im) (im_calibration_irq im) (root + physical_map_base) (mc_acpi mc, s))
        (\<lambda>(x, s).
      obind (kernel_main depth (p_addr_to_physical_map (bt_pml4 bt)) (im_kernel_space im) (im_idle_entry im) (im_name_message im)
               (fst module + physical_map_base) s) (\<lambda>(returns, s).
      Ret (returns, mc\<lparr>mc_console := c, mc_acpi := x, mc_kernel := s\<rparr>))))))"

definition arch_main :: "image \<Rightarrow> ptr \<Rightarrow> machine \<Rightarrow> (bool \<times> machine) outcome" where
  "arch_main im multiboot_physical_addr mc =
     obind (early_start im multiboot_physical_addr mc) (\<lambda>(b, mc). late_start im b mc)"

section \<open>The first half\<close>

lemma highest_physical_address_covers:
  assumes "r \<in> set rs"
  shows "rg_base r + rg_length r \<le> highest_physical_address rs"
proof -
  let ?f = "\<lambda>r (h :: u64). if rg_base r + rg_length r > h then rg_base r + rg_length r else h"
  have step: "h \<le> ?f r h" "rg_base r + rg_length r \<le> ?f r h" for h and r :: physical_region
    by (auto simp: not_less intro: less_imp_le)
  have grows: "h \<le> fold ?f rs h" for h and rs :: "physical_region list"
  proof (induction rs arbitrary: h)
    case (Cons r rs)
    show ?case
      using Cons [of "?f r h"] step(1) [of h r] by (simp only: fold_simps)
  qed simp
  have "rg_base r + rg_length r \<le> fold ?f rs h" for h
    using assms
  proof (induction rs arbitrary: h)
    case (Cons r' rs)
    show ?case
    proof (cases "r = r'")
      case True
      then show ?thesis
        using order_trans [OF step(2) [of r h] grows [of "?f r h" rs]] by (simp only: fold_simps)
    next
      case False
      then show ?thesis
        using Cons.IH [of "?f r' h"] Cons.prems by (simp only: fold_simps) simp
    qed
  qed simp
  then show ?thesis
    by (simp add: highest_physical_address_def)
qed

lemma idt_init_returns:
  assumes "length (interrupt_table s) = NUMBER_OF_INTERRUPTS"
  shows "\<exists>status table' s'. idt_init isr irqp sp (table, s) = Ret (status, table', s') \<and> memory s' = memory s \<and> kernel_mmu s' = kernel_mmu s"
  using assms by (auto simp: idt_init_def Let_def interrupt_reserve_def interrupt_slot_def NUMBER_OF_INTERRUPTS_def)

text \<open>C4: The first half of the start returns with what the boot loader said: afterwards every byte of every region of the
  memory map is mapped at its place in the physical map, the image at its link address, and every vector leads to its
  handler.\<close>

theorem early_start_correct:
  assumes "length (interrupt_table (mc_kernel mc)) = NUMBER_OF_INTERRUPTS"
    and "scan_tags (memory (mc_kernel mc)) (mb + 8) no_boot_info = Some b"
    and "boot_memory_regions (memory (mc_kernel mc)) b = Ret rs" "rs \<noteq> []"
    and "boot_tables_ok (im_tables im) (kernel_mmu (mc_kernel mc))"
    and "carve_ok (im_tables im) (first_carved rs) (required_pml2s rs)"
  shows "\<exists>mc'. early_start im mb mc = Ret (b, mc') \<and>
    (let s = mc_kernel mc'; walk = mmu_walk 3 (mm_tables (kernel_mmu s)) (cr3 s) in
      (\<forall>r \<in> set rs. \<forall>p. unat p < unat (rg_base r + rg_length r) \<and> unat p < 2 ^ 39 \<longrightarrow> walk (physical_map_base + p) = Some p) \<and>
      (\<forall>p. unat p < image_page_count (im_tables im) * 2 ^ 21 \<longrightarrow> walk (KERNEL_VIRTUAL_ADDRESS + p) = Some p) \<and>
      (\<forall>v h. vector_handler (im_isr im) (im_irq_pointers im) (im_isr_spurious im) v = Some h \<longrightarrow> leads_to (gates (mc_acpi mc') v) h) \<and>
      regions_array (mm_pmm (kernel_mmu s)) = carve_tables rs)"
proof -
  let ?x = "arch_set_cpu_local_pointer (im_local_data im) (mc_acpi mc)"
  obtain status table' s1 where idt: "idt_init (im_isr im) (im_irq_pointers im) (im_isr_spurious im) (gates ?x, mc_kernel mc) = Ret (status, table', s1)"
      "memory s1 = memory (mc_kernel mc)" "kernel_mmu s1 = kernel_mmu (mc_kernel mc)"
    using idt_init_returns [OF assms(1)] by blast
  obtain tss s2 where tss: "init_tss (im_tss im) (im_stack im) (mc_tss mc) s1 = (tss, s2)"
    by fastforce
  define s3 where "s3 = detect_no_execute (im_cpuid im) s2"
  have s2: "memory s2 = memory s1" "kernel_mmu s2 = kernel_mmu s1"
    using tss by (auto simp: init_tss_def)
  have s3: "memory s3 = memory s1" "mm_tables (kernel_mmu s3) = mm_tables (kernel_mmu s1)"
    using s2 by (auto simp: s3_def detect_no_execute_def)
  let ?s = "set_memory_regions rs s3"
  have ok: "boot_tables_ok (im_tables im) (kernel_mmu ?s)"
    using assms(5) s3(2) idt(3) by (simp add: boot_tables_ok_def is_table_def set_memory_regions_def set_pmm_def)
  have regions: "regions_array (mm_pmm (kernel_mmu ?s)) = rs"
    by (simp add: set_memory_regions_def set_pmm_def)
  obtain s' where p: "paging_init (im_tables im) (im_kernel_space im) ?s = Ret s'"
      "\<forall>p. unat p < unat (highest_physical_address rs) \<and> unat p < 2 ^ 39 \<longrightarrow>
         mmu_walk 3 (mm_tables (kernel_mmu s')) (cr3 s') (physical_map_base + p) = Some p"
      "\<forall>p. unat p < image_page_count (im_tables im) * 2 ^ 21 \<longrightarrow>
         mmu_walk 3 (mm_tables (kernel_mmu s')) (cr3 s') (KERNEL_VIRTUAL_ADDRESS + p) = Some p"
      "regions_array (mm_pmm (kernel_mmu s')) = carve_tables rs"
    using paging_init_builds [OF regions assms(4) ok assms(6), of "im_kernel_space im"] by blast
  have handlers: "leads_to (table' v) h" if "vector_handler (im_isr im) (im_irq_pointers im) (im_isr_spurious im) v = Some h" for v h
    using idt_init_table [OF idt(1), of v] that by simp
  have below: "unat p < unat (highest_physical_address rs)" if "r \<in> set rs" "unat p < unat (rg_base r + rg_length r)" for r p
    using highest_physical_address_covers [OF that(1)] that(2) by (simp add: word_le_nat_alt)
  have "early_start im mb mc = Ret (b, mc\<lparr>mc_tss := tss, mc_acpi := ?x\<lparr>gates := table'\<rparr>, mc_kernel := s'\<rparr>)"
    using assms(2,3) s3(1) idt(2) p(1) by (simp add: early_start_def idt(1) tss s3_def [symmetric])
  moreover have "\<forall>r \<in> set rs. \<forall>p. unat p < unat (rg_base r + rg_length r) \<and> unat p < 2 ^ 39 \<longrightarrow>
      mmu_walk 3 (mm_tables (kernel_mmu s')) (cr3 s') (physical_map_base + p) = Some p"
    using p(2) below by blast
  ultimately show ?thesis
    using p(3,4) handlers by (simp add: Let_def del: physical_map_base_def KERNEL_VIRTUAL_ADDRESS_def)
qed

section \<open>What the start insists on\<close>

text \<open>C39: The start never completes without a memory map, without the file of the first process, or without the firmware's
  tables.\<close>

theorem arch_main_requires:
  assumes "scan_tags (memory (mc_kernel mc)) (mb + 8) no_boot_info = Some b"
    and "(memory_tag b = None \<and> efi_memory_tag b = None) \<or> init_module b = None \<or> rsdp_addr b = None"
  shows "arch_main im mb mc \<noteq> Ret r"
proof
  assume "arch_main im mb mc = Ret r"
  then obtain b' mc' where e: "early_start im mb mc = Ret (b', mc')" and l: "late_start im b' mc' = Ret r"
    by (auto simp: arch_main_def outcome_simps)
  obtain status table s where s: "idt_init (im_isr im) (im_irq_pointers im) (im_isr_spurious im)
      (gates (arch_set_cpu_local_pointer (im_local_data im) (mc_acpi mc)), mc_kernel mc) = Ret (status, table, s)"
    using e by (auto simp: early_start_def Let_def outcome_simps)
  have "memory s = memory (mc_kernel mc)"
    using s by (auto simp: idt_init_def Let_def outcome_simps interrupt_reserve_def split: if_splits)
  then have "b' = b" "boot_memory_regions (memory (mc_kernel mc)) b \<noteq> Panic"
    using e s assms(1) by (auto simp: early_start_def Let_def outcome_simps init_tss_def detect_no_execute_def split: if_splits)
  moreover from l have "init_module b' \<noteq> None" "rsdp_addr b' \<noteq> None"
    by (auto simp: late_start_def Let_def outcome_simps split: option.splits)
  ultimately show False
    using assms(2) by (auto simp: boot_memory_regions_def)
qed

section \<open>A start\<close>

text \<open>A boot loader that gives one region of a gigabyte and nothing else.\<close>

definition demo_tags :: memory where
  "demo_tags = (\<lambda>_. 0)(0x1008 := 6, 0x100c := 40, 0x101b := 1, 0x1023 := 0x40, 0x1028 := 1)"

definition demo_platform :: platform where
  "demo_platform = \<lparr>read32 = (\<lambda>_ _. 0), read64 = (\<lambda>_ _. 0), rdmsr = (\<lambda>_ _. 0), interrupted = (\<lambda>_. True)\<rparr>"

definition demo_image :: image where
  "demo_image = \<lparr>im_local_data = 0, im_isr = (\<lambda>v. 0xffffffff80001000 + 16 * ucast v),
     im_irq_pointers = (\<lambda>v. 0xffffffff80008000 + 16 * ucast v), im_isr_spurious = 0xffffffff8000ff00, im_tss = 0x6000,
     im_stack = 0x9000, im_tables = demo_boot, im_kernel_space = 0x7000, im_virtual = (0, 0), im_idle_entry = 0,
     im_name_message = 0, im_literal = (\<lambda>_. 0), im_calibration_irq = 0, im_depth = 5, im_calloc_results = (\<lambda>_. NULL),
     im_cpuid = (\<lambda>_. 0), im_platform = demo_platform\<rparr>"

definition demo_machine :: machine where
  "demo_machine = \<lparr>mc_tss = \<lparr>ts_limit_low = 0, ts_base_low = 0, ts_base_mid = 0, ts_access = 0, ts_granularity = 0,
       ts_base_high = 0, ts_base_highest = 0\<rparr>, mc_console = demo_console,
     mc_acpi = acpi_start (\<lambda>_. \<lparr>base_low = 0, segment = 0, ist_index = 0, gate = 0, base_mid = 0, base_high = 0\<rparr>),
     mc_kernel = demo_paging\<lparr>interrupt_table := replicate NUMBER_OF_INTERRUPTS 0, memory := demo_tags\<rparr>\<rparr>"

lemma demo_memory [simp]: "memory (mc_kernel demo_machine) = demo_tags"
  by (simp add: demo_machine_def)

lemma demo_scan: "scan_tags demo_tags (0x1000 + 8) no_boot_info = Some (no_boot_info\<lparr>memory_tag := Some 0x1008\<rparr>)"
proof -
  have t: "read_u32 demo_tags 0x1008 = 6" "read_u32 demo_tags 0x100c = 40" "read_u32 demo_tags 0x1030 = 0"
    by (simp_all add: demo_tags_def read_u32_def read_word_def upt_rec)
  have "ROUND_UP (0x1030 :: u64) 8 = 0x1030"
    by (simp add: ROUND_UP_def)
  then show ?thesis
    by (subst scan_tags.simps, simp add: t, subst scan_tags.simps) (simp add: t read_tag_def)
qed

lemma demo_regions: "boot_memory_regions demo_tags (no_boot_info\<lparr>memory_tag := Some 0x1008\<rparr>) = Ret demo_map"
proof -
  have t: "read_u32 demo_tags 0x100c = 40" "read_word 0x1018 demo_tags = 0x1000000" "read_word 0x1020 demo_tags = 0x40000000"
    "read_u32 demo_tags 0x1028 = 1"
    by (simp_all add: demo_tags_def read_u32_def read_word_def upt_rec)
  have "mmap_loop demo_tags 0x1030 0x1018 (Suc (Suc 126)) = demo_map"
    unfolding mmap_loop.simps by (simp add: t mmap_region_def ROUND_UP_PAGE_def ROUND_DOWN_PAGE_def ROUND_UP_def)
  then show ?thesis
    by (simp add: boot_memory_regions_def no_boot_info_def early_get_physical_memory_regions_def t MAX_MEMORY_REGIONS_def)
qed

theorem early_start_correct_witness:
  "\<exists>mc'. early_start demo_image 0x1000 demo_machine = Ret (no_boot_info\<lparr>memory_tag := Some 0x1008\<rparr>, mc') \<and>
     mmu_walk 3 (mm_tables (kernel_mmu (mc_kernel mc'))) (cr3 (mc_kernel mc')) 0xffff800020345678 = Some 0x20345678 \<and>
     leads_to (gates (mc_acpi mc') 14) 0xffffffff800010e0"
proof -
  have b: "boot_tables_ok (im_tables demo_image) (kernel_mmu (mc_kernel demo_machine))"
    using demo_static by (simp add: demo_image_def demo_machine_def)
  have c: "carve_ok (im_tables demo_image) (first_carved demo_map) (required_pml2s demo_map)"
    using demo_carve_ok by (simp add: demo_image_def)
  have i: "length (interrupt_table (mc_kernel demo_machine)) = NUMBER_OF_INTERRUPTS"
    by (simp add: demo_machine_def)
  obtain mc' where m: "early_start demo_image 0x1000 demo_machine = Ret (no_boot_info\<lparr>memory_tag := Some 0x1008\<rparr>, mc')"
    and all: "\<forall>r \<in> set demo_map. \<forall>p. unat p < unat (rg_base r + rg_length r) \<and> unat p < 2 ^ 39 \<longrightarrow>
      mmu_walk 3 (mm_tables (kernel_mmu (mc_kernel mc'))) (cr3 (mc_kernel mc')) (physical_map_base + p) = Some p"
    and v: "\<forall>v h. vector_handler (im_isr demo_image) (im_irq_pointers demo_image) (im_isr_spurious demo_image) v = Some h \<longrightarrow>
      leads_to (gates (mc_acpi mc') v) h"
    using early_start_correct [of demo_machine "0x1000", OF i, unfolded demo_memory, OF demo_scan demo_regions _ b c] unfolding Let_def by blast
  show ?thesis
    using m all [rule_format, of "hd demo_map" "0x20345678"] v [rule_format, of 14 "0xffffffff800010e0"]
    by (intro exI [of _ mc']) (simp add: vector_handler_def exception_vectors_def demo_image_def)
qed

theorem arch_main_requires_witness: "\<forall>r. arch_main demo_image 0x1000 demo_machine \<noteq> Ret r"
  using arch_main_requires [of demo_machine "0x1000", unfolded demo_memory, OF demo_scan]
  by (simp add: no_boot_info_def)

end
