(* ===== verification/First_Process.thy ===== *)
theory First_Process
  imports Process Device C_String "HOL-Library.Signed_Division"
begin

text \<open>
  The first process, \<^verbatim>\<open>init/init.c\<close>: a driver for the PS/2 keyboard, two threads that paint, and the calls that start
  them. A program is a function of the user state, the calls it has made (the latest first) and its memory. The kernel is
  a parameter, which answers a call, given the calls before it, with a status and what it stores through each
  pointer of the call; pointers are left out of the recorded arguments, and texts are not recorded. Threads that never end are
  cut after a number of rounds, and so are loops that wait for the device. \<open>stale\<close> is what a variable holds that was never set.
\<close>

section \<open>Programs\<close>

datatype call = Call nat "u64 list" ir_status "u64 option list"

type_synonym answers = "call list \<Rightarrow> nat \<Rightarrow> u64 list \<Rightarrow> ir_status \<times> u64 option list"

record user =
  calls :: "call list"
  user_memory :: memory
  screen :: ptr
  screen_pitch :: int
  screen_bpp :: int
  ps2_ports :: u64
  stale :: u64

text \<open>A run is over, still in a loop, or outside of an array.\<close>

datatype 'a run = Done 'a user | Waiting user | Crashed user

primrec run_bind :: "'a run \<Rightarrow> ('a \<Rightarrow> user \<Rightarrow> 'b run) \<Rightarrow> 'b run" where
  "run_bind (Done a u) f = f a u"
| "run_bind (Waiting u) f = Waiting u"
| "run_bind (Crashed u) f = Crashed u"

type_synonym 'a program = "user \<Rightarrow> 'a run"

definition bind :: "'a program \<Rightarrow> ('a \<Rightarrow> 'b program) \<Rightarrow> 'b program" where
  "bind m f u = run_bind (m u) f"

definition give :: "'a \<Rightarrow> 'a program" where
  "give = Done"

fun steps :: "unit program list \<Rightarrow> unit program" where
  "steps [] = give ()"
| "steps (p # ps) = bind p (\<lambda>_. steps ps)"

definition if_so :: "bool \<Rightarrow> unit program \<Rightarrow> unit program" where
  "if_so b p = (if b then p else give ())"

section \<open>System calls\<close>

definition syscall :: "answers \<Rightarrow> nat \<Rightarrow> u64 list \<Rightarrow> (ir_status \<times> u64 option list) program" where
  "syscall k n args u = (let (status, outs) = k (calls u) n args in Done (status, outs) (u\<lparr>calls := Call n args status outs # calls u\<rparr>))"

definition do_call :: "answers \<Rightarrow> nat \<Rightarrow> u64 list \<Rightarrow> unit program" where
  "do_call k n args = bind (syscall k n args) (\<lambda>_. give ())"

definition sys_print :: "answers \<Rightarrow> u64 list \<Rightarrow> unit program" where
  "sys_print k values = do_call k 4 values"

text \<open>A status as it is printed.\<close>

definition status_value :: "ir_status \<Rightarrow> u64" where
  "status_value status = word_of_int (status_code status)"

text \<open>What a variable holds after a call: the value stored, or the one before.\<close>

definition stored :: "u64 option list \<Rightarrow> nat \<Rightarrow> u64 \<Rightarrow> u64" where
  "stored outs i old = (if i < length outs then (case outs ! i of None \<Rightarrow> old | Some v \<Rightarrow> v) else old)"

definition user_vm_object_create :: "answers \<Rightarrow> u64 \<Rightarrow> u64 \<Rightarrow> u64 \<Rightarrow> (ir_status \<times> u64) program" where
  "user_vm_object_create k bytes flags old = bind (syscall k 15 [bytes, flags]) (\<lambda>(status, outs). give (status, stored outs 0 old))"

definition user_v_addr_region_map :: "answers \<Rightarrow> u64 \<Rightarrow> u64 \<Rightarrow> u64 \<Rightarrow> u64 \<Rightarrow> (ir_status \<times> u64) program" where
  "user_v_addr_region_map k parent vm_object flags old =
     bind (syscall k 13 [parent, vm_object, flags]) (\<lambda>(status, outs). give (status, stored outs 1 old))"

definition exit :: "answers \<Rightarrow> u64 \<Rightarrow> unit program" where
  "exit k code = bind (do_call k 5 [code]) (\<lambda>_ u. Waiting u)"

section \<open>Starting threads\<close>

definition thread_stack :: u64 where "thread_stack = 4096 * 8"

definition start_thread :: "answers \<Rightarrow> u64 \<Rightarrow> u64 \<Rightarrow> u64 program" where
  "start_thread k entry_pointer stack_base =
     bind (syscall k 8 [THIS_PROCESS_HANDLE]) (\<lambda>(_, outs) u.
     let thread = stored outs 0 (stale u) in
     bind (do_call k 11 [thread, entry_pointer, stack_base + thread_stack - 16, 0]) (\<lambda>_. give thread) u)"

definition spawn_thread :: "answers \<Rightarrow> u64 \<Rightarrow> unit program" where
  "spawn_thread k entry_pointer =
     bind (user_vm_object_create k thread_stack (VM_READABLE OR VM_WRITABLE) 0xDEADDEAD) (\<lambda>(status, stack_vmo).
     if status \<noteq> IR_OK then steps [sys_print k [status_value status], do_call k 18 [0]] else
     bind (user_v_addr_region_map k ROOT_V_ADDR_REGION_HANDLE stack_vmo (V_ADDR_REGION_READABLE OR V_ADDR_REGION_WRITABLE) 0xDEADDEAD)
       (\<lambda>(status, stack_base).
     if status \<noteq> IR_OK then steps [sys_print k [status_value status], do_call k 18 [0]] else
     bind (start_thread k entry_pointer stack_base) (\<lambda>_. give ())))"

text \<open>The other way to start one goes on after an error.\<close>

definition spawn_thread_and_wait_for_exit :: "answers \<Rightarrow> u64 \<Rightarrow> unit program" where
  "spawn_thread_and_wait_for_exit k entry_pointer =
     bind (user_vm_object_create k thread_stack (VM_READABLE OR VM_WRITABLE) 0xDEADDEAD) (\<lambda>(status, stack_vmo).
     bind (if_so (status \<noteq> IR_OK) (steps [sys_print k [status_value status], do_call k 18 [0]])) (\<lambda>_.
     bind (user_v_addr_region_map k ROOT_V_ADDR_REGION_HANDLE stack_vmo (V_ADDR_REGION_READABLE OR V_ADDR_REGION_WRITABLE) 0xDEADDEAD)
       (\<lambda>(status, stack_base).
     bind (if_so (status \<noteq> IR_OK) (steps [sys_print k [status_value status], do_call k 18 [0]])) (\<lambda>_.
     bind (start_thread k entry_pointer stack_base) (\<lambda>thread.
     bind (syscall k 28 [thread, 1, -1]) (\<lambda>(status, outs). sys_print k [status_value status, stored outs 0 0]))))))"

section \<open>The keyboard controller\<close>

definition DATA_PORT_OFFSET :: u64 where "DATA_PORT_OFFSET = 0"
definition COMMAND_PORT_OFFSET :: u64 where "COMMAND_PORT_OFFSET = 4"
definition STATUS_PORT_OFFSET :: u64 where "STATUS_PORT_OFFSET = 4"

definition outportb :: "answers \<Rightarrow> u64 \<Rightarrow> u64 \<Rightarrow> unit program" where
  "outportb k offset v u =
     bind (syscall k 23 [ps2_ports u, offset, take_bit 8 v, SIZE_BYTE]) (\<lambda>(status, _).
     if_so (status \<noteq> IR_OK) (sys_print k [status_value status, offset])) u"

definition inportb :: "answers \<Rightarrow> u64 \<Rightarrow> u64 program" where
  "inportb k offset u =
     bind (syscall k 24 [ps2_ports u, offset, SIZE_BYTE]) (\<lambda>(status, outs).
     bind (if_so (status \<noteq> IR_OK) (sys_print k [status_value status, offset])) (\<lambda>_. give (stored outs 0 0))) u"

fun wait_for_output_full :: "answers \<Rightarrow> nat \<Rightarrow> unit program" where
  "wait_for_output_full k 0 = Waiting"
| "wait_for_output_full k (Suc n) = bind (inportb k STATUS_PORT_OFFSET) (\<lambda>s.
     if s AND 1 = 0 then wait_for_output_full k n else give ())"

fun wait_for_input_clear :: "answers \<Rightarrow> nat \<Rightarrow> unit program" where
  "wait_for_input_clear k 0 = Waiting"
| "wait_for_input_clear k (Suc n) = bind (inportb k STATUS_PORT_OFFSET) (\<lambda>s.
     if s AND 2 \<noteq> 0 then wait_for_input_clear k n else give ())"

text \<open>The two macros with the access that follows them.\<close>

definition write_port :: "answers \<Rightarrow> nat \<Rightarrow> u64 \<Rightarrow> u64 \<Rightarrow> unit program" where
  "write_port k n offset v = bind (wait_for_input_clear k n) (\<lambda>_. outportb k offset v)"

definition read_data :: "answers \<Rightarrow> nat \<Rightarrow> u64 program" where
  "read_data k n = bind (wait_for_output_full k n) (\<lambda>_. inportb k DATA_PORT_OFFSET)"

definition keyboard_write :: "answers \<Rightarrow> nat \<Rightarrow> u64 \<Rightarrow> unit program" where
  "keyboard_write k n v = write_port k n DATA_PORT_OFFSET v"

text \<open>A routine that nothing calls: it always gives the error character.\<close>

fun keyboard_read :: "answers \<Rightarrow> nat \<Rightarrow> u8 program" where
  "keyboard_read k 0 = give (of_char CHR ''e'')"
| "keyboard_read k (Suc attempts) = bind (inportb k STATUS_PORT_OFFSET) (\<lambda>s.
     bind (if_so (s AND 1 \<noteq> 0) (bind (inportb k DATA_PORT_OFFSET) (\<lambda>_. give ()))) (\<lambda>_. keyboard_read k attempts))"

text \<open>Loops as long as a bit of the status is set, which first read a byte and use it.\<close>

fun while_status :: "answers \<Rightarrow> u64 \<Rightarrow> nat \<Rightarrow> unit program \<Rightarrow> (u64 \<Rightarrow> unit program) \<Rightarrow> unit program" where
  "while_status k b 0 before use = Waiting"
| "while_status k b (Suc n) before use = bind (inportb k STATUS_PORT_OFFSET) (\<lambda>s.
     if s AND b = 0 then give ()
     else bind before (\<lambda>_. bind (inportb k DATA_PORT_OFFSET) (\<lambda>v. bind (use v) (\<lambda>_. while_status k b n before use))))"

section \<open>Setting up the keyboard\<close>

text \<open>An \<^verbatim>\<open>int\<close> holds what the ports gave; only bits below the 32nd are looked at.\<close>

definition claim_ports :: "answers \<Rightarrow> unit program" where
  "claim_ports k =
     bind (syscall k 22 [0x60, 5]) (\<lambda>(status, outs) u.
     bind (if_so (status \<noteq> IR_OK) (sys_print k [status_value status])) (\<lambda>_. give ()) (u\<lparr>ps2_ports := stored outs 0 (ps2_ports u)\<rparr>))"

definition quiet_devices :: "answers \<Rightarrow> nat \<Rightarrow> unit program" where
  "quiet_devices k n = steps
     [write_port k n COMMAND_PORT_OFFSET 0xad, write_port k n COMMAND_PORT_OFFSET 0xa7,
      while_status k 1 n (sys_print k []) (\<lambda>_. give ())]"

definition write_config :: "answers \<Rightarrow> nat \<Rightarrow> u64 \<Rightarrow> unit program" where
  "write_config k n config = steps [write_port k n COMMAND_PORT_OFFSET 0x60, write_port k n DATA_PORT_OFFSET config]"

definition read_config :: "answers \<Rightarrow> nat \<Rightarrow> u64 program" where
  "read_config k n = bind (write_port k n COMMAND_PORT_OFFSET 0x20) (\<lambda>_. read_data k n)"

definition controller_self_test :: "answers \<Rightarrow> nat \<Rightarrow> unit program" where
  "controller_self_test k n =
     bind (write_port k n COMMAND_PORT_OFFSET 0xaa) (\<lambda>_.
     bind (read_data k n) (\<lambda>response.
     if (ucast response :: u32) \<noteq> 0x55 then bind (sys_print k [scast (ucast response :: u32)]) (\<lambda>_. Waiting) else sys_print k []))"

definition second_port :: "answers \<Rightarrow> nat \<Rightarrow> unit program" where
  "second_port k n =
     bind (write_port k n COMMAND_PORT_OFFSET 0xa8) (\<lambda>_.
     bind (read_config k n) (\<lambda>config.
     if config AND push_bit 5 1 \<noteq> 0 then outportb k COMMAND_PORT_OFFSET 0xa7 else sys_print k []))"

definition configure_controller :: "answers \<Rightarrow> nat \<Rightarrow> unit program" where
  "configure_controller k n =
     bind (read_config k n) (\<lambda>config.
     let config = config AND NOT (3 OR push_bit 6 1); is_dual_channel = (config AND push_bit 5 1 = 0) in
     steps [write_config k n config, controller_self_test k n, write_config k n config, if_so is_dual_channel (second_port k n)])"

text \<open>The variable \<^verbatim>\<open>value\<close> is still zero when the last configuration is put together.\<close>

definition reset_keyboard :: "answers \<Rightarrow> nat \<Rightarrow> unit program" where
  "reset_keyboard k n =
     bind (steps [write_config k n (1 OR push_bit 6 1), write_port k n DATA_PORT_OFFSET 0xFF]) (\<lambda>_.
     bind (read_data k n) (\<lambda>v.
     bind (if_so (v \<noteq> 0xFA) (sys_print k [])) (\<lambda>_.
     bind (read_data k n) (\<lambda>_.
     bind (inportb k DATA_PORT_OFFSET) (\<lambda>v. if_so (v \<noteq> 0xAA) (sys_print k []))))))"

definition finish_setup :: "answers \<Rightarrow> nat \<Rightarrow> ir_status \<Rightarrow> u64 \<Rightarrow> u64 program" where
  "finish_setup k n status interrupt =
     bind (if_so (status \<noteq> IR_OK) (sys_print k [status_value status])) (\<lambda>_.
     bind (write_port k n COMMAND_PORT_OFFSET 0xae) (\<lambda>_.
     bind (keyboard_write k n 0xf4) (\<lambda>_.
     bind (read_data k n) (\<lambda>v.
     bind (if v = 0xfa then sys_print k [] else sys_print k []) (\<lambda>_.
     bind (while_status k 2 n (give ()) (\<lambda>v. sys_print k [v])) (\<lambda>_.
     bind (sys_print k []) (\<lambda>_. give interrupt)))))))"

definition enable_interrupts :: "answers \<Rightarrow> nat \<Rightarrow> u64 program" where
  "enable_interrupts k n =
     bind (syscall k 25 [34, 1]) (\<lambda>(status, outs) u. finish_setup k n status (stored outs 0 (stale u)) u)"

definition keyboard_setup :: "answers \<Rightarrow> nat \<Rightarrow> u64 program" where
  "keyboard_setup k n =
     bind (steps [sys_print k [], claim_ports k, quiet_devices k n, configure_controller k n, reset_keyboard k n]) (\<lambda>_.
     enable_interrupts k n)"

section \<open>Keys\<close>

text \<open>Scan codes in order from 2 on, then from 0x47 on; every other entry of the 256 is zero.\<close>

definition keys :: "u8 list" where
  "keys = replicate 2 0 @ map of_char ''1234567890-='' @ [8, 9] @ map of_char ''QWERTYUIOP[]'' @ [10, 0] @
     map of_char ''ASDFGHJKL;'' @ [39, 96, 0, 92] @ map of_char ''ZXCVBNM,./'' @ [0] @ map of_char ''*'' @ [0] @ map of_char '' '' @
     replicate 13 0 @ map of_char ''789-456+1230.'' @ replicate 172 0"

definition handle_key :: "answers \<Rightarrow> u64 \<Rightarrow> unit program" where
  "handle_key k v =
     (if v = 0x38 then bind (sys_print k []) (\<lambda>_. exit k (-4))
      else if 256 \<le> v then Crashed else sys_print k [ucast (keys ! unat v)])"

fun keyboard_loop :: "answers \<Rightarrow> nat \<Rightarrow> u64 \<Rightarrow> nat \<Rightarrow> unit program" where
  "keyboard_loop k n interrupt 0 = Waiting"
| "keyboard_loop k n interrupt (Suc rounds) =
     bind (syscall k 26 [interrupt]) (\<lambda>(status, _).
     if status \<noteq> IR_OK then bind (sys_print k [status_value status]) (\<lambda>_. Waiting) else
     bind (do_call k 27 [interrupt]) (\<lambda>_.
     bind (while_status k 1 n (give ()) (handle_key k)) (\<lambda>_.
     keyboard_loop k n interrupt rounds)))"

definition keyboard_thread :: "answers \<Rightarrow> nat \<Rightarrow> nat \<Rightarrow> unit program" where
  "keyboard_thread k n rounds = bind (keyboard_setup k n) (\<lambda>interrupt. keyboard_loop k n interrupt rounds)"

section \<open>Painting\<close>

text \<open>Three bytes per pixel of a square of 64 pixels that starts at an offset into the screen.\<close>

definition pixel_offset :: "user \<Rightarrow> int \<Rightarrow> nat \<Rightarrow> nat \<Rightarrow> int" where
  "pixel_offset u position i j = position + int i * screen_pitch u + int j * (screen_bpp u sdiv 8)"

definition paint_square :: "int \<Rightarrow> (nat \<Rightarrow> nat \<Rightarrow> int list) \<Rightarrow> user \<Rightarrow> user" where
  "paint_square position colour u = u\<lparr>user_memory := fold (\<lambda>i. fold (\<lambda>j.
     write_bytes (screen u + word_of_int (pixel_offset u position i j)) (map word_of_int (colour i j))) [0..<64]) [0..<64] (user_memory u)\<rparr>"

definition first_position :: "user \<Rightarrow> int" where "first_position u = screen_pitch u * 100 + screen_bpp u sdiv 8 * 600"
definition main_position :: "user \<Rightarrow> int" where "main_position u = screen_pitch u * 100 + (664 * screen_bpp u) sdiv 8"
definition thread_position :: "user \<Rightarrow> int" where "thread_position u = screen_pitch u * 164 + screen_bpp u sdiv 8 * 664"
definition sleeper_position :: "user \<Rightarrow> int" where "sleeper_position u = screen_pitch u * 228 + (664 * screen_bpp u) sdiv 8"

definition gradient :: "int \<Rightarrow> nat \<Rightarrow> nat \<Rightarrow> int list" where
  "gradient x i j = [x, int i * 4, 255 - int j * 4]"

fun main_loop :: "nat \<Rightarrow> int \<Rightarrow> unit program" where
  "main_loop 0 x u = Waiting u"
| "main_loop (Suc n) x u = main_loop n ((x + 1) mod 128) (paint_square (main_position u) (gradient x) u)"

fun thread_entry :: "nat \<Rightarrow> int \<Rightarrow> unit program" where
  "thread_entry 0 x u = Waiting u"
| "thread_entry (Suc n) x u =
     thread_entry n ((x + 1) mod 128) (paint_square (thread_position u) (\<lambda>i j. [int i * 4, x, 255 - int j * 4]) u)"

text \<open>The colour of the third square: it fades from red to green to blue and back, and rests at each.\<close>

record colour =
  red :: int
  green :: int
  blue :: int
  changing_color :: nat

definition start_colour :: colour where
  "start_colour = \<lparr>red = 255, green = 0, blue = 0, changing_color = 0\<rparr>"

definition next_colour :: "colour \<Rightarrow> colour \<times> bool" where
  "next_colour c =
     (if changing_color c = 0 then
        let c = c\<lparr>red := red c - 1, green := green c + 1\<rparr> in
        if green c = 255 then (c\<lparr>changing_color := 1\<rparr>, True) else (c, False)
      else if changing_color c = 1 then
        let c = c\<lparr>green := green c - 1, blue := blue c + 1\<rparr> in
        if blue c = 255 then (c\<lparr>changing_color := 2\<rparr>, True) else (c, False)
      else if changing_color c = 2 then
        let c = c\<lparr>red := red c + 1, blue := blue c - 1\<rparr> in
        if red c = 255 then (c\<lparr>changing_color := 0\<rparr>, True) else (c, False)
      else (c, False))"

fun sleeping_thread :: "answers \<Rightarrow> nat \<Rightarrow> colour \<Rightarrow> unit program" where
  "sleeping_thread k 0 c u = Waiting u"
| "sleeping_thread k (Suc n) c u =
     bind (do_call k 20 [10000]) (\<lambda>_.
     let (c, rests) = next_colour c in
     bind (if_so rests (do_call k 20 [4000000])) (\<lambda>_. sleeping_thread k n c))
       (paint_square (sleeper_position u) (\<lambda>_ _. [red c, green c, blue c]) u)"

definition thread_that_exits :: "answers \<Rightarrow> unit program" where
  "thread_that_exits k = steps [do_call k 20 [4000000], do_call k 6 [-1]]"

section \<open>The main function\<close>

definition get_framebuffer :: "answers \<Rightarrow> (ir_status \<times> u64) program" where
  "get_framebuffer k =
     bind (syscall k 17 []) (\<lambda>(status, outs) u.
     Done (status, stored outs 0 0) (u\<lparr>screen_pitch := sint (ucast (stored outs 3 (word_of_int (screen_pitch u))) :: u32),
       screen_bpp := sint (ucast (stored outs 4 (word_of_int (screen_bpp u))) :: u32)\<rparr>))"

definition map_screen :: "answers \<Rightarrow> u64 \<Rightarrow> ir_status program" where
  "map_screen k framebuffer_handle u =
     bind (user_v_addr_region_map k ROOT_V_ADDR_REGION_HANDLE framebuffer_handle (V_ADDR_REGION_READABLE OR V_ADDR_REGION_WRITABLE) (screen u))
       (\<lambda>(status, address) u. Done status (u\<lparr>screen := address\<rparr>)) u"

text \<open>\<open>entries\<close> are the addresses of the thread that exits and of the three that start later.\<close>

definition init_main :: "answers \<Rightarrow> u64 \<times> u64 \<times> u64 \<times> u64 \<Rightarrow> nat \<Rightarrow> unit program" where
  "init_main k = (\<lambda>(exits, paints, keyboard, sleeps) rounds.
     bind (sys_print k []) (\<lambda>_.
     bind (spawn_thread_and_wait_for_exit k exits) (\<lambda>_.
     bind (get_framebuffer k) (\<lambda>(status, framebuffer_handle).
     if status \<noteq> IR_OK then bind (sys_print k []) (\<lambda>_. Waiting) else
     bind (map_screen k framebuffer_handle) (\<lambda>status.
     if status \<noteq> IR_OK then bind (sys_print k [status_value status]) (\<lambda>_. Waiting) else
     bind (\<lambda>u. sys_print k [screen u] u) (\<lambda>_.
     bind (\<lambda>u. Done () (paint_square (first_position u) (gradient 128) u)) (\<lambda>_.
     bind (steps [spawn_thread k paints, spawn_thread k keyboard, spawn_thread k sleeps]) (\<lambda>_.
     main_loop rounds 0))))))))"

section \<open>The controller is never written to while it is busy\<close>

definition last_port :: "call list \<Rightarrow> call option" where
  "last_port cs = find (\<lambda>c. case c of Call n _ _ _ \<Rightarrow> n = 23 \<or> n = 24) cs"

definition last_read :: "call list \<Rightarrow> u64 \<Rightarrow> u64 \<Rightarrow> bool" where
  "last_read cs offset v \<longleftrightarrow>
     (\<exists>port status outs. last_port cs = Some (Call 24 [port, offset, SIZE_BYTE] status outs) \<and> stored outs 0 0 = v)"

text \<open>
  A write to the ports follows a read of the status with the busy bit clear, unless it is the command that turns the second
  port off; the process ends only after the scan code of the left alt key was read.
\<close>

fun polite :: "call list \<Rightarrow> bool" where
  "polite [] \<longleftrightarrow> True"
| "polite (Call n args status outs # cs) \<longleftrightarrow> polite cs \<and>
     (n = 23 \<longrightarrow> (\<exists>s. last_read cs STATUS_PORT_OFFSET s \<and> s AND 2 = 0) \<or> (\<exists>port. args = [port, COMMAND_PORT_OFFSET, 0xa7, SIZE_BYTE])) \<and>
     (n = 5 \<longrightarrow> last_read cs DATA_PORT_OFFSET 0x38)"

primrec final :: "'a run \<Rightarrow> user" where
  "final (Done a u) = u"
| "final (Waiting u) = u"
| "final (Crashed u) = u"

definition triple :: "(call list \<Rightarrow> bool) \<Rightarrow> 'a program \<Rightarrow> ('a \<Rightarrow> call list \<Rightarrow> bool) \<Rightarrow> bool" where
  "triple P p Q \<longleftrightarrow> (\<forall>u :: user. P (calls u) \<and> polite (calls u) \<longrightarrow>
     polite (calls (final (p u))) \<and> (case p u of Done a u' \<Rightarrow> Q a (calls u') | _ \<Rightarrow> True))"

abbreviation keeps :: "'a program \<Rightarrow> bool" where
  "keeps p \<equiv> triple (\<lambda>_. True) p (\<lambda>_ _. True)"

lemma triple_bind:
  assumes "triple P m Q" "\<And>x. triple (Q x) (f x) R"
  shows "triple P (bind m f) R"
  unfolding triple_def
proof (intro allI impI)
  fix u :: user
  assume "P (calls u) \<and> polite (calls u)"
  then have m: "polite (calls (final (m u)))" "case m u of Done a u' \<Rightarrow> Q a (calls u') | _ \<Rightarrow> True"
    using assms(1) by (auto simp: triple_def)
  then show "polite (calls (final (bind m f u))) \<and> (case bind m f u of Done a u' \<Rightarrow> R a (calls u') | _ \<Rightarrow> True)"
    using assms(2) by (cases "m u") (auto simp: bind_def triple_def)
qed

lemma triple_weaken: "triple P p Q \<Longrightarrow> (\<And>cs. P' cs \<Longrightarrow> P cs) \<Longrightarrow> (\<And>a cs. Q a cs \<Longrightarrow> Q' a cs) \<Longrightarrow> triple P' p Q'"
  by (fastforce simp: triple_def split: run.splits)

lemma keeps_any: "keeps p \<Longrightarrow> triple P p (\<lambda>_ _. True)"
  by (erule triple_weaken) simp_all

lemma keeps_bind: "keeps m \<Longrightarrow> (\<And>x. keeps (f x)) \<Longrightarrow> keeps (bind m f)"
  by (rule triple_bind)

lemma keeps_user: "(\<And>r. keeps (f r)) \<Longrightarrow> keeps (\<lambda>u. f (h u) u)"
  by (simp add: triple_def)

lemma keeps_give: "keeps (give a)" "keeps Waiting" "keeps Crashed"
  by (simp_all add: triple_def give_def)

lemma keeps_steps: "\<forall>p \<in> set ps. keeps p \<Longrightarrow> keeps (steps ps)"
  by (induction ps) (auto intro!: keeps_bind keeps_give)

lemma keeps_if: "keeps p \<Longrightarrow> keeps q \<Longrightarrow> keeps (if b then p else q)" "keeps p \<Longrightarrow> keeps (if_so b p)"
  by (simp_all add: if_so_def keeps_give)

lemma last_port_cons: "last_port (Call n a st outs # cs) = (if n = 23 \<or> n = 24 then Some (Call n a st outs) else last_port cs)"
  by (simp add: last_port_def)

lemma last_read_cons: "n \<noteq> 23 \<Longrightarrow> n \<noteq> 24 \<Longrightarrow> last_read (Call n a st outs # cs) = last_read cs"
  by (simp add: last_read_def last_port_cons fun_eq_iff)

text \<open>A call that is no access to the ports and does not end the process.\<close>

lemma syscall_other:
  assumes "n \<notin> {5, 23, 24}"
  shows "triple (\<lambda>cs. R (last_read cs)) (syscall k n args) (\<lambda>_ cs. R (last_read cs))"
  using assms by (auto simp: triple_def syscall_def last_read_cons split: prod.splits)

lemma do_call_other:
  assumes "n \<notin> {5, 23, 24}"
  shows "triple (\<lambda>cs. R (last_read cs)) (do_call k n args) (\<lambda>_ cs. R (last_read cs))"
  unfolding do_call_def by (rule triple_bind [OF syscall_other [OF assms]]) (simp add: triple_def give_def)

lemma sys_print_other: "triple (\<lambda>cs. R (last_read cs)) (sys_print k vs) (\<lambda>_ cs. R (last_read cs))"
  by (simp add: sys_print_def do_call_other)

lemma print_if: "triple (\<lambda>cs. R (last_read cs)) (if_so b (sys_print k vs)) (\<lambda>_ cs. R (last_read cs))"
  using sys_print_other [of R] by (simp add: if_so_def triple_def give_def)

lemma keeps_call: "n \<notin> {5, 23, 24} \<Longrightarrow> keeps (syscall k n args)" "n \<notin> {5, 23, 24} \<Longrightarrow> keeps (do_call k n args)" "keeps (sys_print k args)"
  using syscall_other [of n "\<lambda>_. True"] do_call_other [of n "\<lambda>_. True"] sys_print_other [of "\<lambda>_. True"] by simp_all

lemmas keeps_intros = keeps_bind keeps_give keeps_steps keeps_if keeps_call

lemma inportb_triple: "triple P (inportb k offset) (\<lambda>v cs. last_read cs offset v)"
proof -
  have "triple P (syscall k 24 [port, offset, SIZE_BYTE]) (\<lambda>(status, outs) cs. last_read cs offset (stored outs 0 0))" for port
    by (auto simp: triple_def syscall_def last_read_def last_port_cons split: prod.splits)
  moreover have "triple (case x of (status, outs) \<Rightarrow> \<lambda>cs. last_read cs offset (stored outs 0 0))
      (case x of (status, outs) \<Rightarrow> bind (if_so (status \<noteq> IR_OK) (sys_print k [status_value status, offset])) (\<lambda>_. give (stored outs 0 0)))
      (\<lambda>v cs. last_read cs offset v)" for x
  proof (cases x)
    case (Pair status outs)
    show ?thesis
      unfolding Pair prod.case
      by (rule triple_bind [OF print_if [of "\<lambda>r. r offset (stored outs 0 0)"]]) (simp add: triple_def give_def)
  qed
  ultimately have "triple P (bind (syscall k 24 [port, offset, SIZE_BYTE]) (\<lambda>(status, outs).
      bind (if_so (status \<noteq> IR_OK) (sys_print k [status_value status, offset])) (\<lambda>_. give (stored outs 0 0)))) (\<lambda>v cs. last_read cs offset v)" for port
    by (rule triple_bind)
  then show ?thesis
    unfolding inportb_def by (simp add: triple_def)
qed

lemma keeps_inportb: "keeps (inportb k offset)"
  by (rule triple_weaken [OF inportb_triple [of "\<lambda>_. True"]]) simp_all

lemma outportb_triple:
  assumes "\<And>cs. P cs \<Longrightarrow> (\<exists>s. last_read cs STATUS_PORT_OFFSET s \<and> s AND 2 = 0) \<or> (offset = COMMAND_PORT_OFFSET \<and> v = 0xa7)"
  shows "triple P (outportb k offset v) (\<lambda>_ _. True)"
proof -
  have "triple P (syscall k 23 [port, offset, take_bit 8 v, SIZE_BYTE]) (\<lambda>_ _. True)" for port
    using assms by (fastforce simp: triple_def syscall_def split: prod.splits)
  then have "triple P (bind (syscall k 23 [port, offset, take_bit 8 v, SIZE_BYTE]) (\<lambda>(status, _). if_so (status \<noteq> IR_OK) (sys_print k [status_value status, offset])))
      (\<lambda>_ _. True)" for port
    by (rule triple_bind) (auto split: prod.splits intro: keeps_intros)
  then show ?thesis
    unfolding outportb_def by (simp add: triple_def)
qed

lemma wait_for_input_clear_triple:
  "triple P (wait_for_input_clear k n) (\<lambda>_ cs. \<exists>s. last_read cs STATUS_PORT_OFFSET s \<and> s AND 2 = 0)"
proof (induction n arbitrary: P)
  case 0
  then show ?case
    by (simp add: triple_def)
next
  case (Suc n)
  show ?case
    unfolding wait_for_input_clear.simps
    by (rule triple_bind [OF inportb_triple]) (use Suc in \<open>auto simp: triple_def give_def\<close>)
qed

lemma keeps_write_port: "keeps (write_port k n offset v)"
  unfolding write_port_def by (rule triple_bind [OF wait_for_input_clear_triple]) (auto intro: outportb_triple)

lemma keeps_wait_for_output_full: "keeps (wait_for_output_full k n)"
  by (induction n) (auto intro!: keeps_intros keeps_inportb)

lemma keeps_read_data: "keeps (read_data k n)"
  unfolding read_data_def by (intro keeps_bind keeps_wait_for_output_full keeps_inportb)

lemma keeps_while_status:
  assumes "keeps before" "\<And>v. triple (\<lambda>cs. last_read cs DATA_PORT_OFFSET v) (use v) (\<lambda>_ _. True)"
  shows "keeps (while_status k b n before use)"
proof (induction n)
  case (Suc n)
  have "keeps (bind before (\<lambda>_. bind (inportb k DATA_PORT_OFFSET) (\<lambda>v. bind (use v) (\<lambda>_. while_status k b n before use))))"
    by (rule keeps_bind [OF assms(1)], rule triple_bind [OF inportb_triple], rule triple_bind [OF assms(2)]) (rule Suc)
  then show ?case
    unfolding while_status.simps by (rule keeps_bind [OF keeps_inportb keeps_if(1) [OF keeps_give(1)]])
qed (simp add: triple_def)

lemma keeps_prod: "(\<And>a b. keeps (f a b)) \<Longrightarrow> keeps (case x of (a, b) \<Rightarrow> f a b)"
  by (cases x) simp

lemma keeps_claim_ports: "keeps (claim_ports k)"
proof -
  have "keeps (\<lambda>u. bind (if_so b (sys_print k vs)) (\<lambda>_. give ()) (u\<lparr>ps2_ports := f u\<rparr>))" for b vs f
    using keeps_bind [OF keeps_if(2) [OF keeps_call(3)] keeps_give(1), of b k vs "\<lambda>_. ()"] by (simp add: triple_def)
  then show ?thesis
    unfolding claim_ports_def by (intro keeps_bind keeps_call keeps_prod) simp_all
qed

lemma keeps_write_config: "keeps (write_config k n c)"
  unfolding write_config_def by (intro keeps_steps) (simp add: keeps_write_port)

lemma keeps_read_config: "keeps (read_config k n)"
  unfolding read_config_def by (intro keeps_bind keeps_write_port keeps_read_data)

lemma keeps_second_port: "keeps (second_port k n)"
proof -
  have "keeps (outportb k COMMAND_PORT_OFFSET 0xa7)"
    by (rule outportb_triple) simp
  then show ?thesis
    unfolding second_port_def by (intro keeps_bind keeps_write_port keeps_read_config keeps_if keeps_call)
qed

lemma keeps_configure: "keeps (configure_controller k n)"
proof -
  have "keeps (controller_self_test k n)"
    unfolding controller_self_test_def by (intro keeps_bind keeps_write_port keeps_read_data keeps_if keeps_call keeps_give)
  then show ?thesis
    unfolding configure_controller_def Let_def
    by (intro keeps_bind keeps_read_config keeps_steps) (simp add: keeps_write_config keeps_if keeps_second_port)
qed

lemma keeps_quiet: "keeps (quiet_devices k n)"
  unfolding quiet_devices_def
  by (intro keeps_steps) (simp add: keeps_write_port keeps_while_status keeps_call keeps_any keeps_give)

lemma keeps_reset: "keeps (reset_keyboard k n)"
  unfolding reset_keyboard_def
  by (intro keeps_bind keeps_read_data keeps_if keeps_call keeps_inportb keeps_steps) (simp add: keeps_write_config keeps_write_port)

lemma keeps_enable: "keeps (enable_interrupts k n)"
proof -
  have "keeps (finish_setup k n status r)" for status r
    unfolding finish_setup_def keyboard_write_def
    by (intro keeps_bind keeps_write_port keeps_read_data keeps_if keeps_call keeps_give keeps_while_status keeps_any)
  then have "keeps (\<lambda>u. finish_setup k n status (stored outs 0 (stale u)) u)" for status outs
    by (rule keeps_user)
  then show ?thesis
    unfolding enable_interrupts_def by (intro keeps_bind keeps_call keeps_prod) simp_all
qed

lemma keeps_setup: "keeps (keyboard_setup k n)"
  unfolding keyboard_setup_def
  by (intro keeps_bind keeps_steps keeps_enable)
    (simp add: keeps_call keeps_claim_ports keeps_quiet keeps_configure keeps_reset)

lemma handle_key_triple: "triple (\<lambda>cs. last_read cs DATA_PORT_OFFSET v) (handle_key k v) (\<lambda>_ _. True)"
proof -
  have "triple (\<lambda>cs. last_read cs DATA_PORT_OFFSET 0x38) (do_call k 5 [c]) (\<lambda>_ _. True)" for c
    by (auto simp: triple_def do_call_def bind_def syscall_def give_def split: prod.splits)
  then have "triple (\<lambda>cs. last_read cs DATA_PORT_OFFSET 0x38) (exit k c) (\<lambda>_ _. True)" for c
    unfolding exit_def by (rule triple_bind) (simp add: triple_def)
  then have "triple (\<lambda>cs. last_read cs DATA_PORT_OFFSET 0x38) (bind (sys_print k []) (\<lambda>_. exit k (-4))) (\<lambda>_ _. True)"
    by (rule triple_bind [OF sys_print_other [of "\<lambda>r. r DATA_PORT_OFFSET 0x38"]])
  moreover have "keeps (if 256 \<le> v then Crashed else sys_print k [ucast (keys ! unat v)])"
    by (intro keeps_if keeps_call keeps_give)
  ultimately show ?thesis
    unfolding handle_key_def by (cases "v = 0x38") (simp_all add: keeps_any)
qed

lemma keeps_loop: "keeps (keyboard_loop k n interrupt rounds)"
proof (induction rounds)
  case (Suc rounds)
  have "keeps (while_status k 1 n (give ()) (handle_key k))"
    by (rule keeps_while_status [OF keeps_give(1) handle_key_triple])
  then show ?case
    unfolding keyboard_loop.simps by (intro keeps_bind keeps_call keeps_prod keeps_if keeps_give Suc) simp_all
qed (simp add: triple_def)

text \<open>C10: Whatever the kernel and the devices answer, and however long it runs, the keyboard driver writes to the controller
  only after it read that the controller is not busy, but for the command that turns the second port off, and ends the process
  only after the left alt key.\<close>

theorem keyboard_polite: "polite (calls (final (keyboard_thread k n rounds (u\<lparr>calls := []\<rparr>))))"
proof -
  have "keeps (keyboard_thread k n rounds)"
    unfolding keyboard_thread_def by (intro keeps_bind keeps_setup keeps_loop)
  then show ?thesis
    by (simp add: triple_def)
qed

section \<open>The squares\<close>

text \<open>The colour after \<open>n\<close> rounds: a cycle of three times 255 steps.\<close>

definition colour_at :: "nat \<Rightarrow> colour" where
  "colour_at n =
     (if n < 255 then \<lparr>red = 255 - int n, green = int n, blue = 0, changing_color = 0\<rparr>
      else if n < 510 then \<lparr>red = 0, green = 510 - int n, blue = int n - 255, changing_color = 1\<rparr>
      else \<lparr>red = int n - 510, green = 0, blue = 765 - int n, changing_color = 2\<rparr>)"

lemma next_colour_at: "n < 765 \<Longrightarrow> next_colour (colour_at n) = (colour_at (Suc n mod 765), Suc n \<in> {255, 510, 765})"
  by (cases "Suc n = 765") (auto simp: next_colour_def colour_at_def)

theorem colour_cycle: "((fst \<circ> next_colour) ^^ n) start_colour = colour_at (n mod 765)"
proof (induction n)
  case 0
  then show ?case
    by (simp add: start_colour_def colour_at_def)
next
  case (Suc n)
  then show ?case
    using next_colour_at [of "n mod 765"] by (simp add: mod_Suc_eq)
qed

text \<open>
  A square that starts \<open>y\<close> rows down and \<open>x\<close> pixels to the right stays inside a screen that is large enough; the program
  does not look at the size.
\<close>

definition screen_fits :: "int \<Rightarrow> int \<Rightarrow> int \<Rightarrow> user \<Rightarrow> bool" where
  "screen_fits h y x u \<longleftrightarrow> (screen_bpp u = 24 \<or> screen_bpp u = 32) \<and> 0 \<le> y \<and> 0 \<le> x \<and> y + 64 \<le> h \<and>
     (x + 64) * (screen_bpp u sdiv 8) \<le> screen_pitch u \<and> screen_pitch u * h < 2 ^ 31"

lemma pixel_inside:
  assumes "screen_fits h y x u" "i < 64" "j < 64" "b < 3"
  shows "0 \<le> pixel_offset u (screen_pitch u * y + x * (screen_bpp u sdiv 8)) i j + int b"
    "pixel_offset u (screen_pitch u * y + x * (screen_bpp u sdiv 8)) i j + int b < screen_pitch u * h"
proof -
  let ?n = "screen_bpp u sdiv 8" and ?p = "screen_pitch u"
  have n: "3 \<le> ?n"
    using assms(1) by (auto simp: screen_fits_def)
  have f: "(x + 64) * ?n \<le> ?p" "0 \<le> x" "0 \<le> y" "y + 64 \<le> h"
    using assms(1) by (simp_all add: screen_fits_def)
  have "(x + int j + 1) * ?n \<le> (x + 64) * ?n"
    using assms(3) n by (intro mult_right_mono) auto
  then have "(x + int j) * ?n + ?n \<le> ?p"
    using f(1) by (simp only: distrib_right mult_1)
  then have col: "(x + int j) * ?n + int b < ?p"
    using n assms(4) by linarith
  have "0 \<le> (x + 64) * ?n"
    using f(2) n by (intro mult_nonneg_nonneg) auto
  then have p: "0 \<le> ?p"
    using f(1) by (rule order_trans)
  then have "(y + int i + 1) * ?p \<le> h * ?p"
    using assms(2) f(4) by (intro mult_right_mono) auto
  then show "pixel_offset u (?p * y + x * ?n) i j + int b < ?p * h"
    using col by (simp add: pixel_offset_def algebra_simps)
  have "0 \<le> ?p * y + x * ?n + int i * ?p + int j * ?n"
    using p n f(2,3) by simp
  then show "0 \<le> pixel_offset u (?p * y + x * ?n) i j + int b"
    by (simp add: pixel_offset_def)
qed

lemma paint_square_inside:
  assumes "screen_fits h y x u" "\<forall>i j. length (colour i j) = 3" "screen_pitch u * h \<le> int (unat (a - screen u))"
  shows "user_memory (paint_square (screen_pitch u * y + x * (screen_bpp u sdiv 8)) colour u) a = user_memory u a"
proof -
  let ?pos = "screen_pitch u * y + x * (screen_bpp u sdiv 8)"
  have folds: "fold f xs m a = m a" if "\<And>x m. x \<in> set xs \<Longrightarrow> f x m a = (m :: memory) a" for f :: "nat \<Rightarrow> memory \<Rightarrow> memory" and xs m
    using that by (induction xs arbitrary: m) simp_all
  have "write_bytes (screen u + word_of_int (pixel_offset u ?pos i j)) (map word_of_int (colour i j)) m a = m a"
    if ij: "i < 64" "j < 64" for i j m
  proof -
    let ?o = "pixel_offset u ?pos i j"
    have "\<not> unat (a - (screen u + word_of_int ?o)) < 3"
    proof
      assume l: "unat (a - (screen u + word_of_int ?o)) < 3"
      define b where "b = unat (a - (screen u + word_of_int ?o))"
      define d where "d = ?o + int b"
      have "a - screen u = word_of_int d"
        by (simp add: b_def d_def)
      moreover have d: "0 \<le> d" "d < screen_pitch u * h" "screen_pitch u * h < 2 ^ 31"
        using pixel_inside [OF assms(1) ij, of b] l assms(1) by (simp_all add: b_def d_def screen_fits_def)
      then have "uint (word_of_int d :: u64) = d"
        by (simp add: uint_word_of_int)
      ultimately show False
        using assms(3) d(2) by simp
    qed
    then show ?thesis
      using assms(2) by (simp add: write_bytes_apply)
  qed
  note square = this
  have "fold (\<lambda>i. fold (\<lambda>j. write_bytes (screen u + word_of_int (pixel_offset u ?pos i j)) (map word_of_int (colour i j))) [0..<64])
      [0..<64] (user_memory u) a = user_memory u a"
    by (rule folds, rule folds, rule square) simp_all
  then show ?thesis
    by (simp add: paint_square_def)
qed

text \<open>The four squares of the program, on a screen of at least 728 by 292 pixels.\<close>

theorem squares_inside:
  assumes "screen_bpp u = 24 \<or> screen_bpp u = 32" "292 \<le> h" "728 * (screen_bpp u div 8) \<le> screen_pitch u" "screen_pitch u * h < 2 ^ 31"
    and "screen_pitch u * h \<le> int (unat (a - screen u))" "\<forall>i j. length (colour i j) = 3"
    and "position \<in> {first_position u, main_position u, thread_position u, sleeper_position u}"
  shows "user_memory (paint_square position colour u) a = user_memory u a"
proof -
  have "\<exists>y x. position = screen_pitch u * y + x * (screen_bpp u sdiv 8) \<and> 0 \<le> y \<and> y \<le> 228 \<and> 0 \<le> x \<and> x \<le> 664"
  proof -
    consider "position = screen_pitch u * 100 + 600 * (screen_bpp u sdiv 8)" | "position = screen_pitch u * 100 + 664 * (screen_bpp u sdiv 8)"
      | "position = screen_pitch u * 164 + 664 * (screen_bpp u sdiv 8)" | "position = screen_pitch u * 228 + 664 * (screen_bpp u sdiv 8)"
      using assms(1,7) by (auto simp: first_position_def main_position_def thread_position_def sleeper_position_def)
    then show ?thesis
    proof cases
      case 1
      then show ?thesis
        by (intro exI [of _ 100] exI [of _ 600]) simp
    next
      case 2
      then show ?thesis
        by (intro exI [of _ 100] exI [of _ 664]) simp
    next
      case 3
      then show ?thesis
        by (intro exI [of _ 164] exI [of _ 664]) simp
    next
      case 4
      then show ?thesis
        by (intro exI [of _ 228] exI [of _ 664]) simp
    qed
  qed
  then obtain y x where p: "position = screen_pitch u * y + x * (screen_bpp u sdiv 8)" "0 \<le> y" "y \<le> 228" "0 \<le> x" "x \<le> 664"
    by blast
  then have "screen_fits h y x u"
    using assms(1-4) by (auto simp: screen_fits_def)
  then show ?thesis
    unfolding p(1) using paint_square_inside assms(5,6) by blast
qed

section \<open>A session\<close>

text \<open>
  A controller that has a byte whenever it was written to, or was just seen without one; its bytes are, in order, a
  stale byte, the configuration, the test result, the configuration, the keyboard's acknowledgements and test result, and two scan codes.
\<close>

definition demo_bytes :: "u64 list" where
  "demo_bytes = [0, 0, 0x55, 0, 0xfa, 0xaa, 0xaa, 0xfa, 0x1e, 0x38]"

definition data_reads :: "call list \<Rightarrow> nat" where
  "data_reads cs = length (filter (\<lambda>c. case c of Call n args _ _ \<Rightarrow> n = 24 \<and> args ! 1 = 0) cs)"

definition demo_answers :: answers where
  "demo_answers cs n args =
     (IR_OK, if n \<noteq> 24 then [Some 7]
       else if args ! 1 = 0 then [Some (demo_bytes ! data_reads cs)]
       else case last_port cs of
           Some (Call m a _ outs) \<Rightarrow> [Some (if m = 24 \<and> a ! 1 = 0 then 0 else 1)]
         | None \<Rightarrow> [Some 0])"

definition demo_user :: user where
  "demo_user = \<lparr>calls = [], user_memory = (\<lambda>_. 0), screen = 0, screen_pitch = 0, screen_bpp = 0, ps2_ports = 0, stale = 0\<rparr>"

text \<open>The driver sets the keyboard up, prints the letter of the first key and ends with the second.\<close>

lemma keyboard_session:
  "take 9 (map (\<lambda>c. case c of Call n args _ _ \<Rightarrow> (n, args)) (calls (final (keyboard_thread demo_answers 4 3 demo_user)))) =
     [(5, [-4]), (4, []), (24, [7, 0, 0]), (24, [7, 4, 0]), (27, [7]), (26, [7]), (24, [7, 4, 0]), (4, [65]), (24, [7, 0, 0])]"
  by code_simp

end
