(* ===== verification/C_Runtime.thy ===== *)
theory C_Runtime
  imports Syscall C_String
begin

text \<open>
  What the C library does between a program and the kernel: the wrappers of system calls (\<^verbatim>\<open>libc/sys\<close>), as calls of the
  kernel's handler, and the start of a program (\<^verbatim>\<open>crt0.c\<close>), which reads its arguments as messages from a channel. For the
  start, the results of the heap, of the reads, and the addresses of the string literals are parameters.
\<close>

section \<open>Wrappers\<close>

text \<open>\<open>registers\<close> are the contents of the argument registers; one that a wrapper does not set keeps them.\<close>

definition system_call :: "environment \<Rightarrow> (nat \<Rightarrow> u64) \<Rightarrow> u32 \<Rightarrow> u64 list \<Rightarrow> kernel \<Rightarrow> (ir_status option \<times> kernel) outcome" where
  "system_call e registers n args =
     (let arg = (\<lambda>i. if i < length args then args ! i else registers i) in syscall_handler e n (arg 0) (arg 1) (arg 2) (arg 3) (arg 4))"

definition ir_channel_create :: "environment \<Rightarrow> (nat \<Rightarrow> u64) \<Rightarrow> ptr \<Rightarrow> ptr \<Rightarrow> kernel \<Rightarrow> (ir_status option \<times> kernel) outcome" where
  "ir_channel_create e registers channel_out peer_out = system_call e registers 29 [channel_out, peer_out]"

definition ir_channel_read :: "environment \<Rightarrow> (nat \<Rightarrow> u64) \<Rightarrow> u64 \<Rightarrow> ptr \<Rightarrow> u64 \<Rightarrow> ptr \<Rightarrow> ptr \<Rightarrow> kernel \<Rightarrow> (ir_status option \<times> kernel) outcome" where
  "ir_channel_read e registers channel buffer buffer_length handles_count message_length =
     system_call e registers 30 [channel, buffer, buffer_length, handles_count, message_length]"

definition ir_channel_write :: "environment \<Rightarrow> (nat \<Rightarrow> u64) \<Rightarrow> u64 \<Rightarrow> ptr \<Rightarrow> u64 \<Rightarrow> ptr \<Rightarrow> u64 \<Rightarrow> kernel \<Rightarrow> (ir_status option \<times> kernel) outcome" where
  "ir_channel_write e registers channel message message_length handle_array handles_count =
     system_call e registers 31 [channel, message, message_length, handle_array, handles_count]"

definition ir_v_addr_region_create :: "environment \<Rightarrow> (nat \<Rightarrow> u64) \<Rightarrow> u64 \<Rightarrow> u64 \<Rightarrow> ptr \<Rightarrow> kernel \<Rightarrow> (ir_status option \<times> kernel) outcome" where
  "ir_v_addr_region_create e registers bytes flags handle_out = system_call e registers 12 [bytes, flags, handle_out]"

definition ir_v_addr_region_map ::
  "environment \<Rightarrow> (nat \<Rightarrow> u64) \<Rightarrow> u64 \<Rightarrow> u64 \<Rightarrow> u64 \<Rightarrow> ptr \<Rightarrow> ptr \<Rightarrow> kernel \<Rightarrow> (ir_status option \<times> kernel) outcome" where
  "ir_v_addr_region_map e registers parent vm_object flags region_out address_out =
     system_call e registers 13 [parent, vm_object, flags, region_out, address_out]"

definition ir_v_addr_region_destroy :: "environment \<Rightarrow> (nat \<Rightarrow> u64) \<Rightarrow> u64 \<Rightarrow> kernel \<Rightarrow> (ir_status option \<times> kernel) outcome" where
  "ir_v_addr_region_destroy e registers region = system_call e registers 14 [region]"

definition ir_vm_object_create :: "environment \<Rightarrow> (nat \<Rightarrow> u64) \<Rightarrow> u64 \<Rightarrow> u64 \<Rightarrow> ptr \<Rightarrow> kernel \<Rightarrow> (ir_status option \<times> kernel) outcome" where
  "ir_vm_object_create e registers bytes flags handle_out = system_call e registers 15 [bytes, flags, handle_out]"

section \<open>The start of a program\<close>

text \<open>
  \<open>rt_alloc\<close> gives the result of the allocation of that number and size; \<open>rt_read\<close> the status of the read of that number
  into a buffer of that length, and, when it stores them, the count of handles, the length of the message, and the bytes
  of both.
\<close>

record runtime =
  rt_alloc :: "nat \<Rightarrow> u64 \<Rightarrow> ptr"
  rt_read :: "nat \<Rightarrow> u64 \<Rightarrow> ir_status \<times> (u64 \<times> u64 \<times> u8 list) option"
  lit_ir_fs :: ptr
  lit_arg :: ptr
  lit_start :: ptr

record start =
  st_memory :: memory
  allocations :: nat
  reads :: nat
  argv :: ptr
  argc :: u32
  buffer :: ptr
  buffer_length :: u64
  handle_count :: u64
  message_length :: u64
  fs_channel :: u64

definition allocate :: "runtime \<Rightarrow> u64 \<Rightarrow> start \<Rightarrow> ptr \<times> start" where
  "allocate rt bytes st = (rt_alloc rt (allocations st) bytes, st\<lparr>allocations := Suc (allocations st)\<rparr>)"

text \<open>A resized block holds what the old one held, of which \<open>old\<close> bytes were used.\<close>

definition reallocate :: "runtime \<Rightarrow> ptr \<Rightarrow> u64 \<Rightarrow> u64 \<Rightarrow> start \<Rightarrow> ptr \<times> start" where
  "reallocate rt p old bytes st =
     (let (q, st) = allocate rt bytes st in
      (q, if q = p \<or> q = NULL then st else st\<lparr>st_memory := memcpy q p old (st_memory st)\<rparr>))"

definition char_data :: "start \<Rightarrow> ptr" where
  "char_data st = buffer st + handle_count st * 8"

text \<open>An argument; writing through a null pointer faults.\<close>

definition add_argument :: "runtime \<Rightarrow> start \<Rightarrow> start outcome" where
  "add_argument rt st =
     (let from = char_data st + 3; len = message_length st - 3; n = argc st + 1; st = st\<lparr>argc := n\<rparr>;
          (new_argv, st) = reallocate rt (argv st) (8 * (scast n - 1)) (8 * scast n) st;
          (data, st) = allocate rt len st in
      if new_argv = NULL \<or> (data = NULL \<and> len \<noteq> 0) then Fault else
      let m = memcpy data from len (st_memory st);
          m = write_word (new_argv + 8 * scast n) 0 m;
          m = write_word (new_argv + 8 * (scast n - 1)) data m in
      Ret (st\<lparr>argv := new_argv, st_memory := m\<rparr>))"

text \<open>One message: whether the loop goes on, and what it leaves.\<close>

definition start_message :: "runtime \<Rightarrow> ir_status \<Rightarrow> start \<Rightarrow> (bool \<times> start) outcome" where
  "start_message rt status st =
     (let m = st_memory st; goes_on = (status \<noteq> IR_ERROR_WRONG_TYPE) in
      if libc_strncmp m (char_data st) (lit_ir_fs rt) (message_length st) = 0
      then Ret (goes_on, st\<lparr>fs_channel := read_word (buffer st) m\<rparr>)
      else if libc_strncmp m (char_data st) (lit_arg rt) 3 = 0
      then obind (add_argument rt st) (\<lambda>st. Ret (goes_on, st))
      else obind (strcmp m (char_data st) (lit_start rt)) (\<lambda>r. Ret (r \<noteq> 0 \<and> goes_on, st)))"

definition start_read :: "runtime \<Rightarrow> start \<Rightarrow> ir_status \<times> start" where
  "start_read rt st =
     (let (status, stored) = rt_read rt (reads st) (buffer_length st); st = st\<lparr>reads := Suc (reads st)\<rparr> in
      (status, case stored of None \<Rightarrow> st
         | Some (h, l, content) \<Rightarrow> st\<lparr>handle_count := h, message_length := l, st_memory := write_bytes (buffer st) content (st_memory st)\<rparr>))"

definition grow_buffer :: "runtime \<Rightarrow> start \<Rightarrow> start" where
  "grow_buffer rt st =
     (let len = handle_count st * 8 + message_length st; (p, st) = allocate rt len st in st\<lparr>buffer_length := len, buffer := p\<rparr>)"

partial_function (option) start_loop :: "runtime \<Rightarrow> start \<Rightarrow> start outcome option" where
  "start_loop rt st =
     (case start_read rt st of (status, st) \<Rightarrow>
        if status = IR_ERROR_NOT_FOUND then Some (Ret st)
        else if status = IR_ERROR_BUFFER_TOO_SMALL then start_loop rt (grow_buffer rt st)
        else case start_message rt status st of
            Ret r \<Rightarrow> if fst r then start_loop rt (snd r) else Some (Ret (snd r))
          | Fault \<Rightarrow> Some Fault | Panic \<Rightarrow> Some Panic | Hang \<Rightarrow> Some Hang)"

declare start_loop.simps [code]

text \<open>The arguments that \<^verbatim>\<open>main\<close> gets: their number and the array. The two counts start with whatever they held.\<close>

definition start_arguments :: "runtime \<Rightarrow> start \<Rightarrow> start outcome" where
  "start_arguments rt st =
     (let (array, st) = allocate rt 8 st; (p, st) = allocate rt 128 st in
      if array = NULL then Fault else
      looped (start_loop rt (st\<lparr>argv := array, argc := 0, buffer := p, buffer_length := 128,
        st_memory := write_word array 0 (st_memory st)\<rparr>)))"

section \<open>A message that does not fit\<close>

text \<open>The kernel reports the error without storing the counts.\<close>

lemma lock_memory:
  "lock_handle_table p s = Ret s' \<Longrightarrow> memory s' = memory s" "unlock_handle_table p s = Ret s' \<Longrightarrow> memory s' = memory s"
  "lock_obj p s = Ret s' \<Longrightarrow> memory s' = memory s" "unlock_obj p s = Ret s' \<Longrightarrow> memory s' = memory s"
  by (auto simp: lock_handle_table_def unlock_handle_table_def lock_obj_def unlock_obj_def upd_proc_def upd_obj_def outcome_simps)

lemma read_too_small_stores_nothing:
  assumes "sys_channel_read channel buf len hc ml s = Ret (IR_ERROR_BUFFER_TOO_SMALL, s')"
  shows "memory s' = memory s"
  using assms
  by (auto simp: sys_channel_read_def outcome_simps Let_def neq_Nil_conv split: if_splits option.splits list.splits
      dest!: lock_memory)

text \<open>
  The start makes its next buffer from the counts, which nothing has set: when they ask for less than the message needs,
  it reads for ever.
\<close>

lemma start_loop_stuck:
  assumes "\<forall>i. \<forall>len < need. rt_read rt i len = (IR_ERROR_BUFFER_TOO_SMALL, None)"
    and "handle_count st * 8 + message_length st < need" "buffer_length st < need"
  shows "start_loop rt st = None"
proof (cases "start_loop rt st")
  case (Some r)
  let ?stuck = "\<lambda>st. handle_count st * 8 + message_length st < need \<and> buffer_length st < need"
  have "rt = rt \<longrightarrow> ?stuck st \<longrightarrow> False"
  proof (rule start_loop.raw_induct [OF _ Some, of "\<lambda>rt' st' r. rt' = rt \<longrightarrow> ?stuck st' \<longrightarrow> False"], intro impI)
    fix f rt' st' r
    assume IH: "\<And>rt' st' r. f rt' st' = Some r \<Longrightarrow> rt' = rt \<longrightarrow> ?stuck st' \<longrightarrow> False"
      and step: "(case start_read rt' st' of (status, st) \<Rightarrow>
        if status = IR_ERROR_NOT_FOUND then Some (Ret st)
        else if status = IR_ERROR_BUFFER_TOO_SMALL then f rt' (grow_buffer rt' st)
        else case start_message rt' status st of
            Ret r \<Rightarrow> if fst r then f rt' (snd r) else Some (Ret (snd r))
          | Fault \<Rightarrow> Some Fault | Panic \<Rightarrow> Some Panic | Hang \<Rightarrow> Some Hang) = Some r"
      and now: "rt' = rt" "?stuck st'"
    let ?next = "grow_buffer rt (st'\<lparr>reads := Suc (reads st')\<rparr>)"
    have "start_read rt st' = (IR_ERROR_BUFFER_TOO_SMALL, st'\<lparr>reads := Suc (reads st')\<rparr>)"
      using assms(1) now by (simp add: start_read_def)
    then have "f rt ?next = Some r"
      using step now by simp
    moreover have "?stuck ?next"
      using now by (simp add: grow_buffer_def allocate_def Let_def)
    ultimately show False
      using IH [of rt ?next r] by simp
  qed
  then show ?thesis
    using assms(2,3) by simp
qed simp

text \<open>C40: When the first message does not fit the buffer of 128 bytes, and the counts that the start never set ask for less than
  it needs, a program reads its arguments for ever and never reaches its main function.\<close>

theorem start_never_ends:
  assumes "\<forall>i. \<forall>len < need. rt_read rt i len = (IR_ERROR_BUFFER_TOO_SMALL, None)"
    and "handle_count st * 8 + message_length st < need" "128 < need" "rt_alloc rt (allocations st) 8 \<noteq> NULL"
  shows "start_arguments rt st = Hang"
  using assms(2-4) start_loop_stuck [OF assms(1)] by (simp add: start_arguments_def allocate_def Let_def looped_def)

definition demo_runtime :: runtime where
  "demo_runtime = \<lparr>rt_alloc = (\<lambda>k _. 0x1000 * of_nat (Suc k)),
     rt_read = (\<lambda>_ len. if len < 200 then (IR_ERROR_BUFFER_TOO_SMALL, None) else (IR_ERROR_NOT_FOUND, None)),
     lit_ir_fs = 0x100, lit_arg = 0x110, lit_start = 0x120\<rparr>"

definition demo_start :: start where
  "demo_start = \<lparr>st_memory = (\<lambda>_. 0), allocations = 0, reads = 0, argv = 0, argc = 0, buffer = 0, buffer_length = 0,
     handle_count = 3, message_length = 7, fs_channel = 0\<rparr>"

theorem start_never_ends_witness: "start_arguments demo_runtime demo_start = Hang"
  by (rule start_never_ends [of 200]) (simp_all add: demo_runtime_def demo_start_def)

section \<open>An argument\<close>

lemma strncmp_loop_equal:
  assumes "cstring m q xs" "strncmp_loop m p q (length xs) = (s1, s2, k)" "m s1 = m s2"
  shows "m (p + of_nat (length xs)) = 0"
  using assms
proof (induction xs arbitrary: p q)
  case Nil
  then show ?case
    by simp
next
  case (Cons x xs)
  then have "m p = x"
    by (auto split: if_splits)
  then show ?case
    using Cons.IH [of "q + 1" "p + 1"] Cons.prems by (simp add: ac_simps)
qed

text \<open>The library's \<^verbatim>\<open>strncmp\<close> finds the prefix only where the string ends after it.\<close>

lemma libc_strncmp_zero:
  assumes "cstring m q xs" "libc_strncmp m p q (of_nat (length xs)) = 0" "length xs < 2 ^ 64"
  shows "m (p + of_nat (length xs)) = 0"
proof -
  obtain s1 s2 k where l: "strncmp_loop m p q (length xs) = (s1, s2, k)"
    by (cases "strncmp_loop m p q (length xs)") auto
  moreover have "m s1 = m s2"
    using assms(2,3) l by (simp add: libc_strncmp_def unat_of_nat_u64 word_uint_eq_iff)
  ultimately show ?thesis
    using strncmp_loop_equal assms(1) by blast
qed

text \<open>
  A message becomes an argument only when nothing follows the prefix before its end, so the argument that \<^verbatim>\<open>main\<close> finds
  is the empty string.
\<close>

theorem argument_empty:
  assumes lit: "cstring (st_memory st) (lit_arg rt) [97, 114, 103]"
    and run: "start_message rt status st = Ret (b, st')" "argc st' \<noteq> argc st"
    and n: "unat (argc st) < 2 ^ 28" "3 < message_length st"
    and a: "a = rt_alloc rt (allocations st) (8 * scast (argc st + 1))" "unat a + 8 * (unat (argc st) + 2) \<le> 2 ^ 64"
      "a = argv st \<or> copyable a (argv st) (8 * scast (argc st)) \<and> 8 * unat (argc st) \<le> unat (char_data st + 3 - a)"
    and d: "d = rt_alloc rt (Suc (allocations st)) (message_length st - 3)" "unat d < unat a \<or> unat a + 8 * (unat (argc st) + 2) \<le> unat d"
      "copyable d (char_data st + 3) (message_length st - 3)"
  shows "argc st' = argc st + 1 \<and> read_word (argv st' + 8 * scast (argc st)) (st_memory st') = d \<and> st_memory st' d = 0"
proof -
  let ?c = "unat (argc st)" and ?m = "st_memory st" and ?from = "char_data st + 3"
  have arg: "libc_strncmp ?m (char_data st) (lit_arg rt) 3 = 0" and add: "add_argument rt st = Ret st'"
    using run by (auto simp: start_message_def Let_def outcome_simps split: if_splits)
  have zero: "?m ?from = 0"
    using libc_strncmp_zero [OF lit, of "char_data st"] arg by simp
  have c: "scast (argc st) = (of_nat ?c :: u64)" "scast (argc st + 1) = (of_nat (?c + 1) :: u64)"
  proof -
    have "of_nat ?c = argc st" "of_nat (?c + 1) = argc st + 1"
      by simp_all
    then show "scast (argc st) = (of_nat ?c :: u64)" "scast (argc st + 1) = (of_nat (?c + 1) :: u64)"
      using scast_of_length [of ?c] scast_of_length [of "?c + 1"] n(1) by (simp_all add: add.commute)
  qed
  have idx: "unat (8 * of_nat ?c :: u64) = 8 * ?c" "unat (8 * of_nat (?c + 1) :: u64) = 8 * (?c + 1)"
    using n(1) by (simp_all add: unat_word_ariths unat_of_nat)
  define m1 where "m1 = (if a = argv st \<or> a = NULL then ?m else memcpy a (argv st) (8 * (scast (argc st + 1) - 1)) ?m)"
  have m1: "m1 ?from = 0"
    using zero a(3) c idx(1) by (auto simp: m1_def memcpy_apply)
  define m2 where "m2 = memcpy d ?from (message_length st - 3) m1"
  have "0 < unat (message_length st - 3)"
    using n(2) by (simp add: unat_gt_0)
  then have m2: "m2 d = 0"
    using m1 d(3) by (simp add: m2_def memcpy_apply)
  have st': "argv st' = a" "argc st' = argc st + 1"
      "st_memory st' = write_word (a + 8 * (scast (argc st + 1) - 1)) d (write_word (a + 8 * scast (argc st + 1)) 0 m2)"
    using add unfolding add_argument_def reallocate_def allocate_def Let_def a(1) [symmetric] d(1) [symmetric]
    by (auto simp: m1_def m2_def a(1) [symmetric] d(1) [symmetric] split: if_splits)
  have pos: "unat (a + 8 * of_nat ?c) = unat a + 8 * ?c" "unat (a + 8 * of_nat (?c + 1)) = unat a + 8 * (?c + 1)"
  proof -
    have sum: "unat (a + x) = unat a + k" if "unat x = k" "unat a + k < 2 ^ 64" for x k
      using that by (subst unat_add_lem [THEN iffD1]) simp_all
    show "unat (a + 8 * of_nat ?c) = unat a + 8 * ?c"
      by (rule sum [OF idx(1)]) (use a(2) in simp)
    show "unat (a + 8 * of_nat (?c + 1)) = unat a + 8 * (?c + 1)"
      by (rule sum [OF idx(2)]) (use a(2) in simp)
  qed
  have out: "write_word (a + 8 * of_nat k) w m d = m d" if "k = ?c \<or> k = ?c + 1" for k w m
    using that d(2) a(2) pos by (intro write_word_outside) auto
  have "scast (argc st + 1) - 1 = (of_nat ?c :: u64)"
    using c(2) by simp
  then have mem: "st_memory st' = write_word (a + 8 * of_nat ?c) d (write_word (a + 8 * of_nat (?c + 1)) 0 m2)"
    using st'(3) c(2) by simp
  have "read_word (argv st' + 8 * scast (argc st)) (st_memory st') = d"
    unfolding mem st'(1) c(1) by (rule read_write_word)
  moreover have "st_memory st' d = 0"
    unfolding mem using out [of ?c] out [of "?c + 1"] m2 by (simp only: simp_thms)
  ultimately show ?thesis
    using st'(2) by blast
qed

end
