(* ===== verification/Spec2Isabelle.thy ===== *)
theory Spec2Isabelle
  imports Prelude Align Linked_List Frame_Allocator Address_Space Handle_Table Vm_Object V_Addr_Region Channel Reclaim
    Scheduler Device Syscall C_String Format Trap Boot Heap_Free Acpi Paging_Init Console Startup
    First_Process C_Runtime
begin

text \<open>
  Verification of the Iridium kernel.

  The program. Iridium is a small x86-64 microkernel in C. Its kernel (\<^verbatim>\<open>src/kernel\<close>) manages physical
  page frames (\<^verbatim>\<open>memory/pmm.c\<close>), four-level page tables (\<^verbatim>\<open>arch/x86_64/paging.c\<close>), and reference-counted
  kernel objects (\<^verbatim>\<open>object.c\<close>): memory objects, virtual address regions, processes, threads, tasks,
  channels, interrupts and port ranges. A process names objects by handles (\<^verbatim>\<open>handle.c\<close>) and reaches them
  through a table of system calls (\<^verbatim>\<open>syscall.c\<close>). One processor runs threads in turn (\<^verbatim>\<open>scheduler.c\<close>).
  At boot (\<^verbatim>\<open>arch/x86_64/main.c\<close>) it reads the boot loader's memory map, builds its page tables, sets up the
  memory systems, the console and the platform (\<^verbatim>\<open>acpi.c\<close>), and loads the first process (\<^verbatim>\<open>src/init\<close>), which
  drives the keyboard. Programs are linked with a small C library (\<^verbatim>\<open>src/libc\<close>).

  How the code is modelled. A C function is a HOL function that takes the state it reads and returns the
  state it leaves, with its result. The type \<^typ>\<open>'a outcome\<close> has a value for every way a call can end:
  \<^term>\<open>Ret\<close> a result, \<^term>\<open>Fault\<close> an access through a pointer to nothing the code owns, \<^term>\<open>Panic\<close> a call of
  \<^verbatim>\<open>panic\<close>, \<^term>\<open>Hang\<close> a spinlock that is already held or a loop that never ends. Integers are words of the
  width C gives them, so wrap-around, truncation to \<^verbatim>\<open>int\<close> and the sign of a comparison are those of the
  code. Status codes are a datatype. A structure is a record in a store from pointers; freeing it removes it
  from the store. A loop over a counter is a fold or a structural recursion; a loop that nothing but a
  pointer chain, a queue or a null byte bounds is a \<^theory_text>\<open>partial_function\<close> in the option monad, whose \<^term>\<open>None\<close>
  becomes \<^term>\<open>Hang\<close>. Theorems on such loops state that they return.

  The theories, and the code each of them models:

  \<^item> \<^verbatim>\<open>Prelude\<close>: words, status codes (\<^verbatim>\<open>public/iridium/errors.h\<close>), outcomes, spinlocks
    (\<^verbatim>\<open>kernel/spinlock.h\<close>), the generic lemmas. \<^verbatim>\<open>Align\<close>: \<^verbatim>\<open>align.h\<close>, \<^verbatim>\<open>arch/defines.h\<close>, the physical map.
  \<^item> \<^verbatim>\<open>Linked_List\<close>: \<^verbatim>\<open>kernel/linked_list.c\<close> at the level of its nodes, refined to HOL lists. The kernel's
    components then use HOL lists of pointers. That allocating a list node succeeds is assumed.
  \<^item> \<^verbatim>\<open>Pmm\<close>, \<^verbatim>\<open>Pmm_Init\<close>, \<^verbatim>\<open>Frame_Allocator\<close>: \<^verbatim>\<open>memory/pmm.c\<close>. The first holds the operations and their
    refinement to a list of free frames, the second the construction of the allocator from the memory map, the
    third the properties. The invariant \<open>pmm_inv\<close> says that the doubly linked free list is exactly the
    frames of the available regions that are free.
  \<^item> \<^verbatim>\<open>Paging\<close>, \<^verbatim>\<open>Address_Space\<close>: \<^verbatim>\<open>arch/x86_64/paging.c\<close> on a store of tables of 512 entries. The
    abstraction is the translation of a virtual address (\<open>translation\<close>): the entry the hardware walk ends at and its
    level, which is that of a page of 4 KB, 2 MB or 1 GB. The invariant \<open>mmu_inv\<close> admits large pages anywhere in the
    tables; what maps or unmaps small pages asks that the addresses given are outside them (\<open>small_walk\<close>).
  \<^item> \<^verbatim>\<open>Kernel_State\<close>: the structures of \<^verbatim>\<open>kernel/include/kernel\<close> and the whole state. A cast to the wrong
    structure finds nothing in that structure's store. \<^verbatim>\<open>Lifetime\<close>: \<^verbatim>\<open>object.c\<close> and the cleanup function of every object
    type. Releasing an object releases what it refers to: the recursion takes a bound \<open>depth\<close> on how far
    releases nest, and \<open>release_depth\<close> proves that a release that ends within a bound ends the same way
    within every larger one, so the bound only tells a release that never ends.
  \<^item> \<^verbatim>\<open>Handle\<close>, \<^verbatim>\<open>Handle_Table\<close>: \<^verbatim>\<open>handle.c\<close>. \<^verbatim>\<open>Vm_Object\<close>: \<^verbatim>\<open>memory/vm_object.c\<close>. \<^verbatim>\<open>V_Addr_Region\<close>:
    \<^verbatim>\<open>memory/v_addr_region.c\<close>, \<^verbatim>\<open>memory/vmem.c\<close>, against a first-fit search of a layout of intervals.
    \<^verbatim>\<open>Channel\<close>: \<^verbatim>\<open>channel.c\<close>. \<^verbatim>\<open>Process\<close>, \<^verbatim>\<open>Reclaim\<close>: \<^verbatim>\<open>process.c\<close> and what ending a process gives back.
    \<^verbatim>\<open>Scheduler\<close>: \<^verbatim>\<open>scheduler.c\<close>, \<^verbatim>\<open>time.c\<close>; the locale \<open>round_robin\<close> is its contract with a queue of threads.
    \<^verbatim>\<open>Device\<close>: \<^verbatim>\<open>interrupt.c\<close>, \<^verbatim>\<open>ioport.c\<close>. \<^verbatim>\<open>Syscall\<close>: \<^verbatim>\<open>syscall.c\<close>.
  \<^item> \<^verbatim>\<open>C_String\<close>: the string routines of \<^verbatim>\<open>kernel/string.c\<close> and of the C library. \<^verbatim>\<open>Format\<close>: \<^verbatim>\<open>vsprintf\<close>,
    equal to printing the items that a format was written from.
  \<^item> \<^verbatim>\<open>Heap\<close>, \<^verbatim>\<open>Heap_Layout\<close>, \<^verbatim>\<open>Heap_Alloc\<close>, \<^verbatim>\<open>Heap_Free\<close>: \<^verbatim>\<open>kernel/heap.c\<close>. The first holds the code on a
    store of block and object headers, with the frame allocator below it; the others the layout that its
    invariant describes, allocation, and release. The rest of the kernel uses \<^verbatim>\<open>malloc\<close> by its contract.
    Requests of two gigabytes and more are outside the properties, since sizes are cut to 32 bits and compared as an \<^verbatim>\<open>int\<close>.
  \<^item> \<^verbatim>\<open>Trap\<close>: \<^verbatim>\<open>arch/x86_64/idt.c\<close>, \<^verbatim>\<open>gdt.c\<close>: descriptor tables, exceptions and interrupts.
    \<^verbatim>\<open>Boot\<close>: the memory maps and tags of \<^verbatim>\<open>arch/x86_64/main.c\<close> and the loading of the first process in
    \<^verbatim>\<open>kernel/main.c\<close>. \<^verbatim>\<open>Acpi\<close>: \<^verbatim>\<open>arch/x86_64/acpi.c\<close>; the device registers answer as a function of the
    writes so far. \<^verbatim>\<open>Paging_Init\<close>: \<^verbatim>\<open>paging_init\<close> and \<^verbatim>\<open>paging_print_tables\<close>, against the processor's walk with
    large pages, which is that of \<open>translation\<close> (\<open>mmu_walk_translation\<close>). \<^verbatim>\<open>Console\<close>: \<^verbatim>\<open>devices/framebuffer.c\<close> and \<^verbatim>\<open>arch/x86_64/debug.c\<close>.
    \<^verbatim>\<open>Startup\<close>: \<^verbatim>\<open>arch_main\<close>, which composes all of them.
  \<^item> \<^verbatim>\<open>First_Process\<close>: \<^verbatim>\<open>init/init.c\<close>, programs over an arbitrary kernel that answers their calls; a property of
    the calls made so far is proved of every program that is built from steps that keep it. \<^verbatim>\<open>C_Runtime\<close>:
    \<^verbatim>\<open>libc/sys\<close>, the system call wrappers as calls of the kernel's handler, and the start of a program, which
    reads its arguments from a channel.

  The groups of lemmas. The \<open>post\<close> rules of the prelude take a statement on the result of a sequence of steps apart
  into one on each step. Each component has refinement or access lemmas for its operations (\<open>..._refine\<close>,
  \<open>..._ok\<close>, \<open>..._rep\<close>), an invariant with the lemmas that the operations keep it (\<open>..._inv\<close>), and the properties,
  each with a text that states it and a witness that applies it to a concrete state (the \<open>demo\<close> definitions).

  Parameters and bounds. The addresses that \<^verbatim>\<open>malloc\<close> returns come from a list in the state; an exhausted list is
  a null result, and properties that need distinct non-null addresses say so. Hardware reads (ports, the
  contents of uninitialised memory) are parameters. Routing of an interrupt line and writes to ports are
  recorded in the order the code makes them. There is one processor; interleaving enters as the
  sequence of system calls, interrupts and ticks. The keyboard driver's waiting loops and the endless threads take a
  number of rounds; what is proved of them holds for every number, so of every moment of an endless run.

  Not modelled. Assembly (\<^verbatim>\<open>start.S\<close>, \<^verbatim>\<open>irq.S\<close>, \<^verbatim>\<open>syscall_entry.S\<close> and the library's \<^verbatim>\<open>crti.S\<close>, \<^verbatim>\<open>crtn.S\<close>): it saves
  registers and switches stacks and modes, and the models start where it calls C. \<^verbatim>\<open>libc/stdlib/liballoc.c\<close>: a copy
  of the public-domain allocator whose modified version \<^verbatim>\<open>kernel/heap.c\<close> is modelled. \<^verbatim>\<open>ubsan.c\<close> and \<^verbatim>\<open>__stack_chk_fail\<close>: functions that the compiler calls and that only print
  and end the program. \<^verbatim>\<open>smp_init\<close>: a loop without a body.
  Text that is only printed for debugging is left out of every component but the console itself. Invalidating
  the translation cache has no counterpart, since tables are read afresh. The structures of \<^verbatim>\<open>multiboot2.h\<close> and
  \<^verbatim>\<open>elf.h\<close> appear as the offsets at which their fields are read.
\<close>

end
